(* ===== verification/Prelude.thy ===== *)
theory Prelude
  imports "HOL-Library.Word" "HOL-Library.Monad_Syntax"
begin

unbundle bit_operations_syntax

text \<open>
  What every component shares: the machine integer types, byte buffers with the bounds
  of \<^verbatim>\<open>memcpy\<close> made explicit, little-endian integers as they lie in memory,
  NUL-terminated strings, and the collections of simplification rules that the
  component theories use.
\<close>

named_theorems mem_simps \<open>reading and writing byte buffers\<close>
named_theorems enc_simps \<open>encoding and decoding integers\<close>

type_synonym byte = "8 word"
type_synonym u16 = "16 word"
type_synonym u32 = "32 word"
type_synonym u64 = "64 word"
type_synonym bytes = "byte list"

section \<open>Byte buffers\<close>

text \<open>
  A buffer is the list of its bytes. \<open>mread\<close> is the \<open>n\<close> bytes at an offset;
  \<open>mwrite\<close> overwrites the bytes from an offset on. \<open>memcpy\<close> is the guarded form:
  a copy that does not fit the destination is undefined behaviour in C, here \<open>None\<close>.
\<close>

definition mread :: "bytes \<Rightarrow> nat \<Rightarrow> nat \<Rightarrow> bytes" where
  "mread m off n = take n (drop off m)"

definition mwrite :: "bytes \<Rightarrow> nat \<Rightarrow> bytes \<Rightarrow> bytes" where
  "mwrite m off d = take off m @ d @ drop (off + length d) m"

definition memcpy :: "bytes \<Rightarrow> nat \<Rightarrow> bytes \<Rightarrow> bytes option" where
  "memcpy m off d = (if off + length d \<le> length m then Some (mwrite m off d) else None)"

definition load :: "bytes \<Rightarrow> nat \<Rightarrow> nat \<Rightarrow> bytes option" where
  "load m off n = (if off + n \<le> length m then Some (mread m off n) else None)"

lemma length_mread [simp]: "off + n \<le> length m \<Longrightarrow> length (mread m off n) = n"
  by (simp add: mread_def)

lemma length_mwrite [simp]: "off + length d \<le> length m \<Longrightarrow> length (mwrite m off d) = length m"
  by (simp add: mwrite_def)

lemma mread_0 [simp]: "mread m off 0 = []"
  by (simp add: mread_def)

lemma mwrite_Nil [simp]: "off \<le> length m \<Longrightarrow> mwrite m off [] = m"
  by (simp add: mwrite_def)

lemma mread_append_left: "off + n \<le> length a \<Longrightarrow> mread (a @ b) off n = mread a off n"
  by (simp add: mread_def)

lemma mread_append_right: "length a \<le> off \<Longrightarrow> mread (a @ b) off n = mread b (off - length a) n"
  by (simp add: mread_def)

lemma mread_whole [simp]: "n = length d \<Longrightarrow> mread d 0 n = d"
  by (simp add: mread_def)

lemma mread_mwrite_same [mem_simps]:
  assumes "off + length d \<le> length m" "n = length d"
  shows "mread (mwrite m off d) off n = d"
  using assms by (simp add: mread_def mwrite_def)

lemma mread_mwrite_inside [mem_simps]:
  assumes "off + length d \<le> length m" "off \<le> p" "p + n \<le> off + length d"
  shows "mread (mwrite m off d) p n = mread d (p - off) n"
proof -
  have "drop p (mwrite m off d) = drop (p - off) (d @ drop (off + length d) m)"
    using assms by (simp add: mwrite_def)
  moreover have "p - off + n \<le> length d" using assms by simp
  ultimately show ?thesis by (simp add: mread_def)
qed

lemma mread_mwrite_before [mem_simps]:
  assumes "p + n \<le> off" "off \<le> length m"
  shows "mread (mwrite m off d) p n = mread m p n"
proof -
  have "take (p + n) (mwrite m off d) = take (p + n) m"
    using assms by (simp add: mwrite_def min_absorb1)
  then show ?thesis
    unfolding mread_def by (metis add.commute take_drop)
qed

lemma mread_mwrite_after [mem_simps]:
  assumes "off + length d \<le> p" "off \<le> length m"
  shows "mread (mwrite m off d) p n = mread m p n"
proof -
  have "drop p (mwrite m off d) = drop p m"
    using assms by (simp add: mwrite_def)
  then show ?thesis by (simp add: mread_def)
qed

lemma mread_mread: "b + c \<le> n \<Longrightarrow> mread (mread m off n) b c = mread m (off + b) c"
  by (simp add: mread_def drop_take add.commute)

lemma mread_split: "mread m off (a + b) = mread m off a @ mread m (off + a) b"
  unfolding mread_def by (metis add.commute drop_drop take_add)

lemma mwrite_mwrite_adjacent:
  assumes "off + length a + length b \<le> length m"
  shows "mwrite (mwrite m off a) (off + length a) b = mwrite m off (a @ b)"
  using assms by (simp add: mwrite_def ac_simps)

lemma memcpy_Some [simp]: "off + length d \<le> length m \<Longrightarrow> memcpy m off d = Some (mwrite m off d)"
  by (simp add: memcpy_def)

lemma memcpy_None: "memcpy m off d = None \<longleftrightarrow> length m < off + length d"
  by (auto simp: memcpy_def)

lemma memcpy_eq_Some_iff:
  "memcpy m off d = Some m' \<longleftrightarrow> off + length d \<le> length m \<and> m' = mwrite m off d"
  by (auto simp: memcpy_def)

lemma load_Some [simp]: "off + n \<le> length m \<Longrightarrow> load m off n = Some (mread m off n)"
  by (simp add: load_def)

lemma load_eq_Some_iff:
  "load m off n = Some d \<longleftrightarrow> off + n \<le> length m \<and> d = mread m off n"
  by (auto simp: load_def)

section \<open>Little-endian integers\<close>

text \<open>
  An unsigned integer of \<open>n\<close> bytes as the x86 targets of the program store it: the low
  byte first. The struct fields and \<^verbatim>\<open>memcpy(&x, p, sizeof x)\<close> of the sources use it.
\<close>

fun le_bytes :: "nat \<Rightarrow> nat \<Rightarrow> bytes" where
  "le_bytes 0 x = []"
| "le_bytes (Suc n) x = of_nat (x mod 256) # le_bytes n (x div 256)"

fun le_val :: "bytes \<Rightarrow> nat" where
  "le_val [] = 0"
| "le_val (b # bs) = unat b + 256 * le_val bs"

lemma unat_byte_less [simp]: "unat (b :: byte) < 256"
  using unsigned_less [of b] by simp

lemma unat_u32_less: "unat (w :: u32) < 2 ^ 32"
  using unsigned_less [of w] by simp

lemma length_le_bytes [simp]: "length (le_bytes n x) = n"
  by (induction n arbitrary: x) auto

lemma unat_of_nat_byte [simp]: "unat (of_nat (x mod 256) :: byte) = x mod 256"
  by (simp add: unat_of_nat)

lemma le_val_le_bytes [enc_simps]: "le_val (le_bytes n x) = x mod 256 ^ n"
proof (induction n arbitrary: x)
  case 0
  then show ?case by simp
next
  case (Suc n)
  have "x mod 256 ^ Suc n = x mod 256 + 256 * (x div 256 mod 256 ^ n)"
    by (simp add: mod_mult2_eq)
  with Suc show ?case by simp
qed

lemma le_val_bound: "le_val bs < 256 ^ length bs"
proof (induction bs)
  case Nil
  then show ?case by simp
next
  case (Cons b bs)
  have "unat b < 256" by (rule unat_byte_less)
  with Cons show ?case
    by (simp only: le_val.simps length_Cons power_Suc)
qed

lemma le_bytes_le_val [enc_simps]: "le_bytes (length bs) (le_val bs) = bs"
proof (induction bs)
  case Nil
  then show ?case by simp
next
  case (Cons b bs)
  have "unat b < 256" by (rule unat_byte_less)
  with Cons show ?case by simp
qed

definition le32 :: "u32 \<Rightarrow> bytes" where
  "le32 w = le_bytes 4 (unat w)"

definition un_le32 :: "bytes \<Rightarrow> u32" where
  "un_le32 bs = of_nat (le_val (take 4 bs))"

lemma length_le32 [simp]: "length (le32 w) = 4"
  by (simp add: le32_def)

lemma un_le32_le32 [enc_simps, simp]: "un_le32 (le32 w @ r) = w"
proof -
  have "unat w < 2 ^ 32" by (rule unat_u32_less)
  then show ?thesis by (simp add: un_le32_def le32_def le_val_le_bytes)
qed

lemma un_le32_le32_exact [enc_simps, simp]: "un_le32 (le32 w) = w"
  using un_le32_le32 [of w "[]"] by simp

lemma le32_un_le32 [enc_simps]:
  assumes "length bs = 4"
  shows "le32 (un_le32 bs) = bs"
proof -
  have "le_val bs < 256 ^ 4" using le_val_bound [of bs] assms by simp
  then have "unat (of_nat (le_val bs) :: u32) = le_val bs"
    by (simp add: unat_of_nat)
  with assms show ?thesis
    using le_bytes_le_val [of bs] by (simp add: le32_def un_le32_def)
qed

lemma le32_inject [simp]: "le32 a = le32 b \<longleftrightarrow> a = b"
  by (metis un_le32_le32_exact)

lemma le_bytes_2: "le_bytes 2 x = [of_nat (x mod 256), of_nat (x div 256 mod 256)]"
  by (simp add: numeral_2_eq_2)

lemma le_bytes_4:
  "le_bytes 4 x = [of_nat (x mod 256), of_nat (x div 256 mod 256), of_nat (x div 256 div 256 mod 256),
    of_nat (x div 256 div 256 div 256 mod 256)]"
proof -
  have "4 = Suc (Suc (Suc (Suc 0)))" by simp
  then show ?thesis by (simp only: le_bytes.simps)
qed

section \<open>Words and options\<close>

lemma unat_of_nat_len: "n < 2 ^ 32 \<Longrightarrow> unat (of_nat n :: u32) = n"
  by (simp add: unat_of_nat take_bit_nat_eq_self)

lemma unat_add_u32: "unat a + unat b < 2 ^ 32 \<Longrightarrow> unat (a + b :: u32) = unat a + unat b"
  by (simp add: unat_word_ariths)

lemma those_map_Some: "those (map Some xs) = Some xs"
  by (induction xs) simp_all

lemma map_option_bind: "map_option f (m \<bind> g) = m \<bind> (\<lambda>x. map_option f (g x))"
  by (cases m) simp_all

section \<open>C strings\<close>

text \<open>
  A \<^verbatim>\<open>const char *\<close> argument is the memory it points to; \<open>strlen\<close> counts the bytes
  before the first NUL. A C string holds no NUL before its end, so for a \<open>std::string\<close>
  passed by \<^verbatim>\<open>c_str()\<close> the bytes after an embedded NUL are lost.
\<close>

definition strlen :: "bytes \<Rightarrow> nat" where
  "strlen s = length (takeWhile (\<lambda>b. b \<noteq> 0) s)"

lemma strlen_no_nul [simp]: "0 \<notin> set s \<Longrightarrow> strlen s = length s"
proof -
  assume "0 \<notin> set s"
  then have "takeWhile (\<lambda>b. b \<noteq> 0) s = s" by (auto simp: takeWhile_eq_all_conv)
  then show ?thesis unfolding strlen_def by (rule arg_cong)
qed

lemma strlen_le: "strlen s \<le> length s"
  by (simp add: strlen_def length_takeWhile_le)

end
