(* ===== verification/Coding.thy ===== *)
theory Coding
  imports Prelude
begin

unbundle bit_operations_syntax

text \<open>
  The on-disk formats of the bitcask store: \<^verbatim>\<open>bitcask/util/coding.cc\<close> (data and index
  records), \<^verbatim>\<open>bitcask/util/hash.h\<close> (the hash that picks an index file) and
  \<^verbatim>\<open>bitcask/include/index.h\<close> (the in-memory index entry, whose union of a file
  address and a pointer is kept as one 64-bit word). Copies that would leave their buffer
  are \<open>None\<close>.
\<close>

section \<open>Data and index records\<close>

definition EncodeData :: "bytes \<Rightarrow> bytes \<Rightarrow> bytes \<Rightarrow> bytes option" where
  "EncodeData buf key val = do {
     buf \<leftarrow> memcpy buf 0 key;
     memcpy buf (length key) val
   }"

definition DecodeData :: "bytes \<Rightarrow> u32 \<Rightarrow> u32 \<Rightarrow> bytes option" where
  "DecodeData buf key_size value_size = load buf (unat key_size) (unat value_size)"

definition DecodeFixed32 :: "bytes \<Rightarrow> nat \<Rightarrow> u32 option" where
  "DecodeFixed32 buf pos = map_option un_le32 (load buf pos 4)"

definition EncodeIndex :: "bytes \<Rightarrow> bytes \<Rightarrow> u32 \<Rightarrow> u32 \<Rightarrow> u32 \<Rightarrow> u32 \<Rightarrow> bytes option" where
  "EncodeIndex buf key file_index file_offset key_size value_size = do {
     let pos = 0;
     let index_size = key_size + 4 * 4;
     buf \<leftarrow> memcpy buf 0 (le32 index_size);
     let pos = pos + 4;
     buf \<leftarrow> memcpy buf pos (le32 file_index);
     let pos = pos + 4;
     buf \<leftarrow> memcpy buf pos (le32 file_offset);
     let pos = pos + 4;
     buf \<leftarrow> memcpy buf pos (le32 key_size);
     let pos = pos + 4;
     kd \<leftarrow> load key 0 (unat key_size);
     buf \<leftarrow> memcpy buf pos kd;
     let pos = pos + unat key_size;
     memcpy buf pos (le32 value_size)
   }"

record decoded_index =
  d_key :: bytes
  d_file_index :: u32
  d_file_offset :: u32
  d_key_size :: u32
  d_value_size :: u32

definition DecodeIndex :: "bytes \<Rightarrow> decoded_index option" where
  "DecodeIndex buf = do {
     let pos = 0;
     file_index \<leftarrow> DecodeFixed32 buf pos;
     let pos = pos + 4;
     file_offset \<leftarrow> DecodeFixed32 buf pos;
     let pos = pos + 4;
     key_size \<leftarrow> DecodeFixed32 buf pos;
     let pos = pos + 4;
     key \<leftarrow> load buf pos (unat key_size);
     let pos = pos + unat key_size;
     value_size \<leftarrow> DecodeFixed32 buf pos;
     Some \<lparr>d_key = key, d_file_index = file_index, d_file_offset = file_offset,
           d_key_size = key_size, d_value_size = value_size\<rparr>
   }"

section \<open>The hash of a key\<close>

text \<open>
  \<^verbatim>\<open>Hash\<close> reads up to the first NUL; a \<^verbatim>\<open>char\<close> is signed on the targets of the
  program, so a byte above 127 is sign-extended before it is added.
\<close>

fun Hash_loop :: "u32 \<Rightarrow> bytes \<Rightarrow> u32" where
  "Hash_loop h [] = h"
| "Hash_loop h (c # str) = (if c = 0 then h else Hash_loop (h * 131 + scast c) str)"

definition Hash :: "bytes \<Rightarrow> u32" where
  "Hash str = Hash_loop 0 str AND 0x7FFFFFFF"

section \<open>Index entries\<close>

text \<open>
  \<open>addr\<close> is the union of \<^verbatim>\<open>memaddr_\<close> and \<^verbatim>\<open>fileaddr_\<close>: the offset in the low
  half, the file index in the high half.
\<close>

record Index =
  addr :: u64
  flag :: "1 word"
  key_size :: "31 word"
  value_size :: u32

definition file_addr :: "u32 \<Rightarrow> u32 \<Rightarrow> u64" where
  "file_addr file_index file_offset = push_bit 32 (ucast file_index) OR ucast file_offset"

definition file_offset :: "Index \<Rightarrow> u32" where
  "file_offset idx = ucast (addr idx)"

definition file_index :: "Index \<Rightarrow> u32" where
  "file_index idx = ucast (drop_bit 32 (addr idx))"

definition set_fileaddr :: "Index \<Rightarrow> u32 \<Rightarrow> u32 \<Rightarrow> Index" where
  "set_fileaddr idx fi fo = idx\<lparr>addr := file_addr fi fo\<rparr>"

definition default_Index :: Index where
  "default_Index = \<lparr>addr = 0, flag = 0, key_size = 0, value_size = 0\<rparr>"

definition file_Index :: "u32 \<Rightarrow> u32 \<Rightarrow> u32 \<Rightarrow> u32 \<Rightarrow> Index" where
  "file_Index fi fo ks vs =
     \<lparr>addr = file_addr fi fo, flag = 1, key_size = ucast ks, value_size = vs\<rparr>"

definition mem_Index :: "u64 \<Rightarrow> u32 \<Rightarrow> u32 \<Rightarrow> Index" where
  "mem_Index mem ks vs = \<lparr>addr = mem, flag = 0, key_size = ucast ks, value_size = vs\<rparr>"

definition Index_neq :: "Index \<Rightarrow> Index \<Rightarrow> bool" where
  "Index_neq a b \<longleftrightarrow> addr a \<noteq> addr b \<or> flag a \<noteq> flag b"

definition DataSize :: "Index \<Rightarrow> u32" where
  "DataSize idx = ucast (key_size idx) + value_size idx"

definition SetDeleted :: "Index \<Rightarrow> Index" where
  "SetDeleted idx = idx\<lparr>key_size := 0, value_size := 0\<rparr>"

section \<open>Lemmas\<close>

lemma EncodeData_exact:
  assumes "length buf = length key + length val"
  shows "EncodeData buf key val = Some (key @ val)"
  using assms by (simp add: EncodeData_def mwrite_def)

lemma DecodeData_append:
  assumes "unat ks = length key" "unat vs = length val"
  shows "DecodeData (key @ val) ks vs = Some val"
  using assms by (simp add: DecodeData_def mread_def)

text \<open>The bytes of one index record, as \<open>EncodeIndex\<close> lays them out.\<close>

definition index_body :: "bytes \<Rightarrow> u32 \<Rightarrow> u32 \<Rightarrow> u32 \<Rightarrow> u32 \<Rightarrow> bytes" where
  "index_body key fi fo ks vs = le32 fi @ le32 fo @ le32 ks @ key @ le32 vs"

lemma length_index_body [simp]: "length (index_body key fi fo ks vs) = length key + 16"
  by (simp add: index_body_def)

lemma EncodeIndex_layout:
  assumes "unat ks = length key" "length buf = length key + 20"
  shows "EncodeIndex buf key fi fo ks vs = Some (le32 (ks + 16) @ index_body key fi fo ks vs)"
proof -
  have kd: "load key 0 (unat ks) = Some key" using assms by simp
  show ?thesis
    using assms kd
    by (simp add: EncodeIndex_def Let_def mwrite_mwrite_adjacent mwrite_def index_body_def ac_simps)
qed

lemma DecodeFixed32_at:
  assumes "length a = pos"
  shows "DecodeFixed32 (a @ le32 w @ r) pos = Some w"
  using assms by (simp add: DecodeFixed32_def mread_def)

lemma DecodeIndex_body:
  assumes "unat ks = length key"
  shows "DecodeIndex (index_body key fi fo ks vs @ r) =
         Some \<lparr>d_key = key, d_file_index = fi, d_file_offset = fo, d_key_size = ks, d_value_size = vs\<rparr>"
proof -
  let ?buf = "le32 fi @ le32 fo @ le32 ks @ key @ le32 vs @ r"
  have "DecodeFixed32 ?buf 0 = Some fi" using DecodeFixed32_at [of "[]" 0 fi] by simp
  moreover have "DecodeFixed32 ?buf 4 = Some fo" by (rule DecodeFixed32_at [of "le32 fi"]) simp
  moreover have "DecodeFixed32 ?buf 8 = Some ks"
    using DecodeFixed32_at [of "le32 fi @ le32 fo" 8 ks] by simp
  moreover have "DecodeFixed32 ?buf (12 + unat ks) = Some vs"
    using DecodeFixed32_at [of "le32 fi @ le32 fo @ le32 ks @ key" "12 + unat ks" vs r] assms by simp
  moreover have "load ?buf 12 (unat ks) = Some key"
    using assms by (simp add: load_def mread_def)
  ultimately show ?thesis
    by (simp add: DecodeIndex_def Let_def index_body_def)
qed

lemma file_offset_file_addr [simp]: "file_offset (i\<lparr>addr := file_addr fi fo\<rparr>) = fo"
  by (rule bit_word_eqI) (auto simp: file_offset_def file_addr_def bit_simps)

lemma file_index_file_addr [simp]: "file_index (i\<lparr>addr := file_addr fi fo\<rparr>) = fi"
  by (rule bit_word_eqI) (auto simp: file_index_def file_addr_def bit_simps dest: bit_imp_le_length)

lemma file_Index_fields [simp]:
  "flag (file_Index fi fo ks vs) = 1" "value_size (file_Index fi fo ks vs) = vs"
  "key_size (file_Index fi fo ks vs) = ucast ks"
  "file_offset (file_Index fi fo ks vs) = fo" "file_index (file_Index fi fo ks vs) = fi"
proof -
  have "file_Index fi fo ks vs = (file_Index fi fo ks vs)\<lparr>addr := file_addr fi fo\<rparr>"
    by (simp add: file_Index_def)
  then show "file_offset (file_Index fi fo ks vs) = fo" "file_index (file_Index fi fo ks vs) = fi"
    by (metis file_offset_file_addr, metis file_index_file_addr)
qed (simp_all add: file_Index_def)

lemma file_Index_found [simp]: "Index_neq (file_Index fi fo ks vs) default_Index"
  by (simp add: Index_neq_def file_Index_def default_Index_def)

text \<open>
  An index record written by \<^verbatim>\<open>EncodeIndex\<close> into a buffer of the size that
  \<^verbatim>\<open>AppendIndex\<close> allocates is read back by \<^verbatim>\<open>DecodeIndex\<close>: its first four bytes are
  the length of the rest, and decoding the rest gives every field and the key again.
\<close>

theorem EncodeIndex_DecodeIndex:
  assumes "unat ks = length key" "length buf = length key + 20" "length key < 2 ^ 32 - 16"
  shows "\<exists>body. EncodeIndex buf key fi fo ks vs = Some (le32 (ks + 16) @ body)
    \<and> unat (ks + 16) = length body
    \<and> DecodeIndex body =
        Some \<lparr>d_key = key, d_file_index = fi, d_file_offset = fo, d_key_size = ks, d_value_size = vs\<rparr>"
proof -
  have "unat (ks + 16) = length key + 16"
    using assms by (simp add: unat_word_ariths)
  with EncodeIndex_layout [OF assms(1,2)] DecodeIndex_body [OF assms(1), of fi fo vs "[]"]
  show ?thesis by simp
qed

theorem EncodeIndex_DecodeIndex_witness:
  "\<exists>body. EncodeIndex (replicate 22 0) [104, 105] 1 2 2 9 = Some (le32 (2 + 16) @ body)
    \<and> unat (2 + 16 :: u32) = length body
    \<and> DecodeIndex body =
        Some \<lparr>d_key = [104, 105], d_file_index = 1, d_file_offset = 2, d_key_size = 2, d_value_size = 9\<rparr>"
  by (rule EncodeIndex_DecodeIndex) simp_all

end
