(* ===== verification/Hash_Map.thy ===== *)
theory Hash_Map
  imports Prelude
begin

text \<open>
  The interface of the concurrent hash table that the storage engines and the hybrid
  front end use as their index (\<^verbatim>\<open>libcuckoo::cuckoohash_map\<close>): what
  \<^verbatim>\<open>find\<close>, \<^verbatim>\<open>insert_or_assign\<close> and \<^verbatim>\<open>erase\<close> promise in terms of
  the finite map the table stands for. \<open>find\<close> and \<open>erase\<close> return the table too, since
  a lookup may migrate buckets lazily after an expansion. The clients' lemmas on batches
  of updates are proved here once.
\<close>

text \<open>
  \<open>Load_factor_too_low\<close> and \<open>Maximum_hashpower_exceeded\<close> are the exceptions that an
  automatic expansion throws, \<open>Bad_alloc\<close> the one of the allocator when the bucket
  count is not representable; \<open>No_return\<close> stands for an insertion that retries
  forever.
\<close>

datatype cuckoo_error =
    Load_factor_too_low
  | Maximum_hashpower_exceeded nat
  | Bad_alloc
  | No_return

text \<open>A batch of updates, as a loop over \<^verbatim>\<open>insert_or_assign\<close>; it stops at an exception.\<close>

fun insert_all :: "('m \<Rightarrow> 'k \<Rightarrow> 'v \<Rightarrow> cuckoo_error + 'm \<times> bool) \<Rightarrow> 'm \<Rightarrow> ('k \<times> 'v) list
    \<Rightarrow> cuckoo_error + 'm" where
  "insert_all ins m [] = Inr m"
| "insert_all ins m ((k, v) # kvs) =
     (case ins m k v of Inl e \<Rightarrow> Inl e | Inr (m', _) \<Rightarrow> insert_all ins m' kvs)"

fun erase_all :: "('m \<Rightarrow> 'k \<Rightarrow> 'm \<times> bool) \<Rightarrow> 'm \<Rightarrow> 'k list \<Rightarrow> 'm" where
  "erase_all er m [] = m"
| "erase_all er m (k # ks) = erase_all er (fst (er m k)) ks"

text \<open>
  A client's history of calls, the answers it gets from a table, and the answers of the
  finite map the table stands for.
\<close>

datatype ('k, 'v) map_op =
    Find 'k
  | Insert_or_assign 'k 'v
  | Erase 'k

datatype 'v map_answer =
    Found "'v option"
  | Inserted bool
  | Erased bool

fun run_ops :: "('m \<Rightarrow> 'k \<Rightarrow> 'm \<times> 'v option) \<Rightarrow> ('m \<Rightarrow> 'k \<Rightarrow> 'v \<Rightarrow> cuckoo_error + 'm \<times> bool)
    \<Rightarrow> ('m \<Rightarrow> 'k \<Rightarrow> 'm \<times> bool) \<Rightarrow> 'm \<Rightarrow> ('k, 'v) map_op list
    \<Rightarrow> cuckoo_error + 'm \<times> 'v map_answer list" where
  "run_ops fi ins er m [] = Inr (m, [])"
| "run_ops fi ins er m (Find k # ops) =
     (case fi m k of (m', r) \<Rightarrow>
        (case run_ops fi ins er m' ops of Inl e \<Rightarrow> Inl e | Inr (m'', ans) \<Rightarrow> Inr (m'', Found r # ans)))"
| "run_ops fi ins er m (Insert_or_assign k v # ops) =
     (case ins m k v of
        Inl e \<Rightarrow> Inl e
      | Inr (m', r) \<Rightarrow>
          (case run_ops fi ins er m' ops of Inl e \<Rightarrow> Inl e | Inr (m'', ans) \<Rightarrow> Inr (m'', Inserted r # ans)))"
| "run_ops fi ins er m (Erase k # ops) =
     (case er m k of (m', r) \<Rightarrow>
        (case run_ops fi ins er m' ops of Inl e \<Rightarrow> Inl e | Inr (m'', ans) \<Rightarrow> Inr (m'', Erased r # ans)))"

fun spec_ops :: "('k \<rightharpoonup> 'v) \<Rightarrow> ('k, 'v) map_op list \<Rightarrow> ('k \<rightharpoonup> 'v) \<times> 'v map_answer list" where
  "spec_ops f [] = (f, [])"
| "spec_ops f (Find k # ops) = map_prod id ((#) (Found (f k))) (spec_ops f ops)"
| "spec_ops f (Insert_or_assign k v # ops) = map_prod id ((#) (Inserted (f k = None))) (spec_ops (f(k \<mapsto> v)) ops)"
| "spec_ops f (Erase k # ops) = map_prod id ((#) (Erased (f k \<noteq> None))) (spec_ops (f(k := None)) ops)"

locale hash_map =
  fixes invar :: "'m \<Rightarrow> bool"
    and lookup :: "'m \<Rightarrow> 'k \<Rightarrow> 'v option"
    and find :: "'m \<Rightarrow> 'k \<Rightarrow> 'm \<times> 'v option"
    and insert_or_assign :: "'m \<Rightarrow> 'k \<Rightarrow> 'v \<Rightarrow> cuckoo_error + 'm \<times> bool"
    and erase :: "'m \<Rightarrow> 'k \<Rightarrow> 'm \<times> bool"
  assumes find_result: "invar m \<Longrightarrow> snd (find m k) = lookup m k"
    and find_invar: "invar m \<Longrightarrow> invar (fst (find m k))"
    and find_lookup: "invar m \<Longrightarrow> lookup (fst (find m k)) = lookup m"
    and insert_returns: "invar m \<Longrightarrow> insert_or_assign m k v \<noteq> Inl No_return"
    and insert_invar: "invar m \<Longrightarrow> insert_or_assign m k v = Inr (m', b) \<Longrightarrow> invar m'"
    and insert_lookup:
      "invar m \<Longrightarrow> insert_or_assign m k v = Inr (m', b) \<Longrightarrow> lookup m' = (lookup m)(k \<mapsto> v)"
    and insert_fresh:
      "invar m \<Longrightarrow> insert_or_assign m k v = Inr (m', b) \<Longrightarrow> b \<longleftrightarrow> lookup m k = None"
    and erase_invar: "invar m \<Longrightarrow> invar (fst (erase m k))"
    and erase_lookup: "invar m \<Longrightarrow> lookup (fst (erase m k)) = (lookup m)(k := None)"
    and erase_result: "invar m \<Longrightarrow> snd (erase m k) \<longleftrightarrow> lookup m k \<noteq> None"
begin

lemma insert_all_spec:
  assumes "invar m" "insert_all insert_or_assign m kvs = Inr m'"
  shows "invar m' \<and> lookup m' = lookup m ++ map_of (rev kvs)"
  using assms
proof (induction kvs arbitrary: m)
  case Nil
  then show ?case by simp
next
  case (Cons kv kvs)
  obtain k v where kv: "kv = (k, v)" by (cases kv)
  from Cons.prems kv obtain m1 b where ins: "insert_or_assign m k v = Inr (m1, b)"
    and rest: "insert_all insert_or_assign m1 kvs = Inr m'"
    by (auto split: sum.splits prod.splits)
  have "invar m1" by (rule insert_invar [OF Cons.prems(1) ins])
  from Cons.IH [OF this rest] insert_lookup [OF Cons.prems(1) ins]
  show ?case by (simp add: kv map_add_def fun_eq_iff split: option.splits)
qed

lemma insert_all_returns: "invar m \<Longrightarrow> insert_all insert_or_assign m kvs \<noteq> Inl No_return"
proof (induction kvs arbitrary: m)
  case Nil
  then show ?case by simp
next
  case (Cons kv kvs)
  obtain k v where kv: "kv = (k, v)" by (cases kv)
  show ?case
  proof (cases "insert_or_assign m k v")
    case (Inl e)
    with insert_returns [OF Cons.prems, of k v] kv show ?thesis by auto
  next
    case (Inr r)
    obtain m1 b where r: "r = (m1, b)" by (cases r)
    with Inr have "invar m1" using insert_invar [OF Cons.prems] by blast
    with Cons.IH kv Inr r show ?thesis by simp
  qed
qed

lemma erase_all_spec:
  "invar m \<Longrightarrow> invar (erase_all erase m ks)
    \<and> lookup (erase_all erase m ks) = (\<lambda>k. if k \<in> set ks then None else lookup m k)"
proof (induction ks arbitrary: m)
  case Nil
  then show ?case by simp
next
  case (Cons k ks)
  from Cons.IH [OF erase_invar [OF Cons.prems]] erase_lookup [OF Cons.prems]
  show ?case by (auto simp: fun_eq_iff)
qed

lemma run_ops_refines:
  assumes "invar m"
  shows "case run_ops find insert_or_assign erase m ops of
      Inl e \<Rightarrow> e \<noteq> No_return
    | Inr (m', ans) \<Rightarrow> invar m' \<and> spec_ops (lookup m) ops = (lookup m', ans)"
  using assms
proof (induction ops arbitrary: m)
  case Nil
  then show ?case by simp
next
  case (Cons op ops)
  show ?case
  proof (cases op)
    case (Find k)
    have "case run_ops find insert_or_assign erase (fst (find m k)) ops of
        Inl e \<Rightarrow> e \<noteq> No_return | Inr (m', ans) \<Rightarrow> invar m' \<and> spec_ops (lookup m) ops = (lookup m', ans)"
      using Cons.IH [OF find_invar [OF Cons.prems, of k]] unfolding find_lookup [OF Cons.prems] .
    with find_result [OF Cons.prems, of k] Find show ?thesis
      by (auto split: sum.splits prod.splits)
  next
    case (Insert_or_assign k v)
    show ?thesis
    proof (cases "insert_or_assign m k v")
      case (Inl e)
      with insert_returns [OF Cons.prems, of k v] Insert_or_assign show ?thesis by auto
    next
      case (Inr r)
      obtain m1 b where r: "r = (m1, b)" by (cases r)
      note ins = Inr [unfolded r]
      have "case run_ops find insert_or_assign erase m1 ops of
          Inl e \<Rightarrow> e \<noteq> No_return
        | Inr (m', ans) \<Rightarrow> invar m' \<and> spec_ops ((lookup m)(k \<mapsto> v)) ops = (lookup m', ans)"
        using Cons.IH [OF insert_invar [OF Cons.prems ins]] unfolding insert_lookup [OF Cons.prems ins] .
      with insert_fresh [OF Cons.prems ins] Insert_or_assign ins
      show ?thesis by (auto split: sum.splits prod.splits)
    qed
  next
    case (Erase k)
    have "case run_ops find insert_or_assign erase (fst (erase m k)) ops of
        Inl e \<Rightarrow> e \<noteq> No_return
      | Inr (m', ans) \<Rightarrow> invar m' \<and> spec_ops ((lookup m)(k := None)) ops = (lookup m', ans)"
      using Cons.IH [OF erase_invar [OF Cons.prems, of k]] unfolding erase_lookup [OF Cons.prems] .
    with erase_result [OF Cons.prems, of k] Erase show ?thesis
      by (auto split: sum.splits prod.splits)
  qed
qed

end

end
