(* ===== verification/Cuckoo.thy ===== *)
theory Cuckoo
  imports Hash_Map
begin

unbundle bit_operations_syntax

text \<open>
  The cuckoo hash table behind every index of the program, in the execution of one
  thread: \<^verbatim>\<open>libcuckoo/bucket_container.h\<close> and \<^verbatim>\<open>libcuckoo/cuckoohash_map.h\<close>
  with string keys (so partial keys are compared). The locks are modelled by what they
  carry besides mutual exclusion: the element counters and the migration flags that
  drive the lazy rehash after an expansion.
\<close>

section \<open>Constants, buckets and the table\<close>

definition slot_per_bucket :: nat where
  "slot_per_bucket = 4"

definition MAX_BFS_PATH_LEN :: nat where
  "MAX_BFS_PATH_LEN = 5"

definition kMaxNumLocks :: nat where
  "kMaxNumLocks = 2 ^ 16"

definition DEFAULT_SIZE :: nat where
  "DEFAULT_SIZE = 2 ^ 16 * slot_per_bucket"

text \<open>
  \<^verbatim>\<open>DEFAULT_MINIMUM_LOAD_FACTOR = 0.05\<close>: the double nearest to 0.05, as the exact
  fraction \<open>3602879701896397 / 2 ^ 56\<close>; a quotient by a power of two is exact, so the
  comparison is one of integers.
\<close>

definition load_factor_below_minimum :: "nat \<Rightarrow> nat \<Rightarrow> bool" where
  "load_factor_below_minimum n cap \<longleftrightarrow> n * 2 ^ 56 < 3602879701896397 * cap"

record ('k, 'v) kv =
  kv_partial :: byte
  kv_key :: 'k
  kv_mapped :: 'v

type_synonym ('k, 'v) bucket = "('k, 'v) kv option list"

definition empty_bucket :: "('k, 'v) bucket" where
  "empty_bucket = replicate slot_per_bucket None"

definition occupied :: "('k, 'v) bucket \<Rightarrow> nat \<Rightarrow> bool" where
  "occupied b ind \<longleftrightarrow> b ! ind \<noteq> None"

text \<open>
  A container of \<open>2 ^ bc_hashpower\<close> buckets; the cells at other indices are never used.
\<close>

record ('k, 'v) buckets_t =
  bc_hashpower :: nat
  cells :: "u64 \<Rightarrow> ('k, 'v) bucket"

definition new_buckets :: "nat \<Rightarrow> ('k, 'v) buckets_t" where
  "new_buckets hp = \<lparr>bc_hashpower = hp, cells = (\<lambda>_. empty_bucket)\<rparr>"

definition buckets_size :: "('k, 'v) buckets_t \<Rightarrow> nat" where
  "buckets_size bs = 2 ^ bc_hashpower bs"

definition setKV :: "('k, 'v) buckets_t \<Rightarrow> u64 \<Rightarrow> nat \<Rightarrow> byte \<Rightarrow> 'k \<Rightarrow> 'v \<Rightarrow> ('k, 'v) buckets_t" where
  "setKV bs ind slot p k v =
     bs\<lparr>cells := (cells bs)(ind := (cells bs ind)
          [slot := Some \<lparr>kv_partial = p, kv_key = k, kv_mapped = v\<rparr>])\<rparr>"

definition eraseKV :: "('k, 'v) buckets_t \<Rightarrow> u64 \<Rightarrow> nat \<Rightarrow> ('k, 'v) buckets_t" where
  "eraseKV bs ind slot = bs\<lparr>cells := (cells bs)(ind := (cells bs ind)[slot := None])\<rparr>"

definition clear_and_deallocate :: "('k, 'v) buckets_t \<Rightarrow> ('k, 'v) buckets_t" where
  "clear_and_deallocate bs = bs\<lparr>cells := (\<lambda>_. empty_bucket)\<rparr>"

record spinlock =
  elem_counter :: int
  is_migrated :: bool

text \<open>
  \<open>alloc_hashpower\<close> is not a member of the class: it stands for the allocator, and is the
  largest hash power whose bucket array it grants (larger requests throw
  \<^verbatim>\<open>std::bad_alloc\<close>).
\<close>

record ('k, 'v) cuckoohash_map =
  hash_fn :: "'k \<Rightarrow> u64"
  buckets :: "('k, 'v) buckets_t"
  old_buckets :: "('k, 'v) buckets_t"
  locks_size :: nat
  locks :: "u64 \<Rightarrow> spinlock"
  num_remaining_lazy_rehash_locks :: nat
  maximum_hashpower :: "nat option"
  alloc_hashpower :: nat

definition fresh_lock :: spinlock where
  "fresh_lock = \<lparr>elem_counter = 0, is_migrated = True\<rparr>"

definition hashpower :: "('k, 'v) cuckoohash_map \<Rightarrow> nat" where
  "hashpower t = bc_hashpower (buckets t)"

definition bucket_count :: "('k, 'v) cuckoohash_map \<Rightarrow> nat" where
  "bucket_count t = buckets_size (buckets t)"

text \<open>\<^verbatim>\<open>reserve_calc\<close>: the loop that looks for the smallest power of two of buckets.\<close>

function reserve_loop :: "nat \<Rightarrow> nat \<Rightarrow> nat" where
  "reserve_loop nbuckets blog2 =
     (if 2 ^ blog2 < nbuckets then reserve_loop nbuckets (Suc blog2) else blog2)"
  by pat_completeness auto
termination
proof (relation "measure (\<lambda>(b, l). b - 2 ^ l)")
  fix b l :: nat
  assume "2 ^ l < b"
  moreover have "(2 :: nat) ^ l < 2 ^ Suc l" by simp
  ultimately show "((b, Suc l), b, l) \<in> measure (\<lambda>(b, l). b - 2 ^ l)"
    by (simp only: in_measure prod.case diff_less_mono2)
qed simp

definition reserve_calc :: "nat \<Rightarrow> nat" where
  "reserve_calc n = reserve_loop ((n + slot_per_bucket - 1) div slot_per_bucket) 0"

definition cuckoohash_map :: "nat \<Rightarrow> nat \<Rightarrow> ('k \<Rightarrow> u64) \<Rightarrow> ('k, 'v) cuckoohash_map" where
  "cuckoohash_map alloc n hf =
     \<lparr>hash_fn = hf,
      buckets = new_buckets (reserve_calc n),
      old_buckets = new_buckets 0,
      locks_size = min (2 ^ reserve_calc n) kMaxNumLocks,
      locks = (\<lambda>_. fresh_lock),
      num_remaining_lazy_rehash_locks = 0,
      maximum_hashpower = None,
      alloc_hashpower = alloc\<rparr>"

definition size_of_map :: "('k, 'v) cuckoohash_map \<Rightarrow> int" where
  "size_of_map t = (\<Sum>l \<leftarrow> [0..<locks_size t]. elem_counter (locks t (of_nat l)))"

definition capacity :: "('k, 'v) cuckoohash_map \<Rightarrow> nat" where
  "capacity t = bucket_count t * slot_per_bucket"

section \<open>Hashing\<close>

definition partial_key :: "u64 \<Rightarrow> byte" where
  "partial_key hash =
     (let hash_32bit = (ucast hash :: u32) XOR ucast (drop_bit 32 hash);
          hash_16bit = (ucast hash_32bit :: u16) XOR ucast (drop_bit 16 hash_32bit);
          hash_8bit = (ucast hash_16bit :: byte) XOR ucast (drop_bit 8 hash_16bit)
      in hash_8bit)"

definition hashsize :: "nat \<Rightarrow> u64" where
  "hashsize hp = push_bit hp 1"

definition hashmask :: "nat \<Rightarrow> u64" where
  "hashmask hp = hashsize hp - 1"

definition index_hash :: "nat \<Rightarrow> u64 \<Rightarrow> u64" where
  "index_hash hp hv = hv AND hashmask hp"

definition alt_index :: "nat \<Rightarrow> byte \<Rightarrow> u64 \<Rightarrow> u64" where
  "alt_index hp p index =
     (let nonzero_tag = ucast p + 1
      in (index XOR (nonzero_tag * 0xc6a4a7935bd1e995)) AND hashmask hp)"

definition hashed_key :: "('k, 'v) cuckoohash_map \<Rightarrow> 'k \<Rightarrow> u64 \<times> byte" where
  "hashed_key t k = (hash_fn t k, partial_key (hash_fn t k))"

definition lock_ind :: "u64 \<Rightarrow> u64" where
  "lock_ind bucket_ind = bucket_ind AND (of_nat kMaxNumLocks - 1)"

section \<open>Searching a bucket\<close>

fun try_read_loop :: "nat \<Rightarrow> ('k, 'v) bucket \<Rightarrow> byte \<Rightarrow> 'k \<Rightarrow> nat option" where
  "try_read_loop i [] p k = None"
| "try_read_loop i (None # b) p k = try_read_loop (Suc i) b p k"
| "try_read_loop i (Some e # b) p k =
     (if p \<noteq> kv_partial e then try_read_loop (Suc i) b p k
      else if kv_key e = k then Some i
      else try_read_loop (Suc i) b p k)"

definition try_read_from_bucket :: "('k, 'v) bucket \<Rightarrow> byte \<Rightarrow> 'k \<Rightarrow> nat option" where
  "try_read_from_bucket b p k = try_read_loop 0 b p k"

definition cuckoo_find :: "(u64 \<Rightarrow> ('k, 'v) bucket) \<Rightarrow> 'k \<Rightarrow> byte \<Rightarrow> u64 \<Rightarrow> u64 \<Rightarrow> (u64 \<times> nat) option" where
  "cuckoo_find bs k p i1 i2 =
     (case try_read_from_bucket (bs i1) p k of
        Some slot \<Rightarrow> Some (i1, slot)
      | None \<Rightarrow>
          (case try_read_from_bucket (bs i2) p k of
             Some slot \<Rightarrow> Some (i2, slot)
           | None \<Rightarrow> None))"

text \<open>
  \<^verbatim>\<open>try_find_insert_bucket\<close> returns false and the slot of a duplicate, or true and a
  free slot, \<open>None\<close> for the \<open>-1\<close> of a full bucket. The loop does not stop at a free
  slot, so it is the last one that is returned.
\<close>

fun try_find_insert_loop :: "nat \<Rightarrow> ('k, 'v) bucket \<Rightarrow> byte \<Rightarrow> 'k \<Rightarrow> nat option \<Rightarrow> bool \<times> nat option" where
  "try_find_insert_loop i [] p k slot = (True, slot)"
| "try_find_insert_loop i (None # b) p k slot = try_find_insert_loop (Suc i) b p k (Some i)"
| "try_find_insert_loop i (Some e # b) p k slot =
     (if p \<noteq> kv_partial e then try_find_insert_loop (Suc i) b p k slot
      else if kv_key e = k then (False, Some i)
      else try_find_insert_loop (Suc i) b p k slot)"

definition try_find_insert_bucket :: "('k, 'v) bucket \<Rightarrow> byte \<Rightarrow> 'k \<Rightarrow> bool \<times> nat option" where
  "try_find_insert_bucket b p k = try_find_insert_loop 0 b p k None"

section \<open>Migration of buckets to a table of twice the size\<close>

text \<open>
  \<^verbatim>\<open>move_bucket\<close>: the loop over the slots of one old bucket. A key whose index got
  the new top bit goes to the first free slot of the bucket \<open>hashsize old_hp\<close> further,
  any other to its own slot of the same bucket.
\<close>

fun move_bucket_loop :: "('k \<Rightarrow> u64) \<Rightarrow> nat \<Rightarrow> nat \<Rightarrow> u64 \<Rightarrow> nat \<Rightarrow> ('k, 'v) bucket \<Rightarrow> nat
    \<Rightarrow> ('k, 'v) buckets_t \<Rightarrow> ('k, 'v) buckets_t" where
  "move_bucket_loop h old_hp new_hp ind slot [] new_slot nb = nb"
| "move_bucket_loop h old_hp new_hp ind slot (None # b) new_slot nb =
     move_bucket_loop h old_hp new_hp ind (Suc slot) b new_slot nb"
| "move_bucket_loop h old_hp new_hp ind slot (Some e # b) new_slot nb =
     (let hv = h (kv_key e);
          p = partial_key hv;
          old_ihash = index_hash old_hp hv;
          old_ahash = alt_index old_hp p old_ihash;
          new_ihash = index_hash new_hp hv;
          new_ahash = alt_index new_hp p new_ihash;
          new_ind = ind + hashsize old_hp
      in if (ind = old_ihash \<and> new_ihash = new_ind) \<or> (ind = old_ahash \<and> new_ahash = new_ind)
         then move_bucket_loop h old_hp new_hp ind (Suc slot) b (Suc new_slot)
                (setKV nb new_ind new_slot (kv_partial e) (kv_key e) (kv_mapped e))
         else move_bucket_loop h old_hp new_hp ind (Suc slot) b new_slot
                (setKV nb ind slot (kv_partial e) (kv_key e) (kv_mapped e)))"

definition move_bucket :: "('k \<Rightarrow> u64) \<Rightarrow> ('k, 'v) buckets_t \<Rightarrow> ('k, 'v) buckets_t \<Rightarrow> u64
    \<Rightarrow> ('k, 'v) buckets_t" where
  "move_bucket h old new ind =
     move_bucket_loop h (bc_hashpower old) (bc_hashpower new) ind 0 (cells old ind) 0 new"

text \<open>The loop of \<^verbatim>\<open>rehash_lock\<close> over the old buckets that one lock controls.\<close>

function rehash_from :: "('k \<Rightarrow> u64) \<Rightarrow> ('k, 'v) buckets_t \<Rightarrow> nat \<Rightarrow> ('k, 'v) buckets_t
    \<Rightarrow> ('k, 'v) buckets_t" where
  "rehash_from h old bucket_ind new =
     (if bucket_ind < buckets_size old
      then rehash_from h old (bucket_ind + kMaxNumLocks) (move_bucket h old new (of_nat bucket_ind))
      else new)"
  by pat_completeness auto
termination
  by (relation "measure (\<lambda>(h, old, i, new). buckets_size old - i)") (auto simp: kMaxNumLocks_def)

definition set_migrated :: "(u64 \<Rightarrow> spinlock) \<Rightarrow> u64 \<Rightarrow> (u64 \<Rightarrow> spinlock)" where
  "set_migrated ls l = ls(l := (ls l)\<lparr>is_migrated := True\<rparr>)"

definition decrement_num_remaining :: "('k, 'v) cuckoohash_map \<Rightarrow> ('k, 'v) cuckoohash_map" where
  "decrement_num_remaining t =
     (let n = num_remaining_lazy_rehash_locks t;
          t' = t\<lparr>num_remaining_lazy_rehash_locks := n - 1\<rparr>
      in if n = 1 then t'\<lparr>old_buckets := clear_and_deallocate (old_buckets t')\<rparr> else t')"

definition rehash_lock :: "bool \<Rightarrow> u64 \<Rightarrow> ('k, 'v) cuckoohash_map \<Rightarrow> ('k, 'v) cuckoohash_map" where
  "rehash_lock is_lazy l t =
     (if is_migrated (locks t l) then t
      else let t' = t\<lparr>buckets := rehash_from (hash_fn t) (old_buckets t) (unat l) (buckets t),
                      locks := set_migrated (locks t) l\<rparr>
           in if is_lazy then decrement_num_remaining t' else t')"

definition lock_one :: "u64 \<Rightarrow> ('k, 'v) cuckoohash_map \<Rightarrow> ('k, 'v) cuckoohash_map" where
  "lock_one i t = rehash_lock True (lock_ind i) t"

definition lock_two :: "u64 \<Rightarrow> u64 \<Rightarrow> ('k, 'v) cuckoohash_map \<Rightarrow> ('k, 'v) cuckoohash_map" where
  "lock_two i1 i2 t =
     (let l1 = lock_ind i1;
          l2 = lock_ind i2;
          (l1, l2) = (if l2 < l1 then (l2, l1) else (l1, l2))
      in rehash_lock True l2 (rehash_lock True l1 t))"

definition lock_three :: "u64 \<Rightarrow> u64 \<Rightarrow> u64 \<Rightarrow> ('k, 'v) cuckoohash_map \<Rightarrow> ('k, 'v) cuckoohash_map" where
  "lock_three i1 i2 i3 t =
     (let l0 = lock_ind i1; l1 = lock_ind i2; l2 = lock_ind i3;
          (l1, l2) = (if l2 < l1 then (l2, l1) else (l1, l2));
          (l0, l2) = (if l2 < l0 then (l2, l0) else (l0, l2));
          (l0, l1) = (if l1 < l0 then (l1, l0) else (l0, l1))
      in rehash_lock True l2 (rehash_lock True l1 (rehash_lock True l0 t)))"

definition snapshot_and_lock_two :: "u64 \<times> byte \<Rightarrow> ('k, 'v) cuckoohash_map
    \<Rightarrow> ('k, 'v) cuckoohash_map \<times> u64 \<times> u64" where
  "snapshot_and_lock_two hv t =
     (let hp = hashpower t;
          i1 = index_hash hp (fst hv);
          i2 = alt_index hp (snd hv) i1
      in (lock_two i1 i2 t, i1, i2))"

section \<open>Searching for a cuckoo path\<close>

text \<open>
  \<^verbatim>\<open>slot_search\<close>: breadth-first search over the buckets that the keys of a full
  bucket could move to. A \<^verbatim>\<open>b_slot\<close> is a bucket, the slots taken to reach it as
  digits of \<open>pathcode\<close> after the number of the start bucket, and the depth; the depth
  of -1 of a failed search is \<open>None\<close>.
\<close>

record b_slot =
  bs_bucket :: u64
  bs_pathcode :: nat
  bs_depth :: nat

text \<open>
  The loop over the slots of one dequeued bucket: \<open>Inl\<close> the path code that ends at a
  free slot, or \<open>Inr\<close> the queue with the successors appended.
\<close>

fun scan_slots :: "nat \<Rightarrow> b_slot \<Rightarrow> ('k, 'v) bucket \<Rightarrow> nat list \<Rightarrow> b_slot list \<Rightarrow> nat + b_slot list" where
  "scan_slots hp x b [] q = Inr q"
| "scan_slots hp x b (slot # slots) q =
     (case b ! slot of
        None \<Rightarrow> Inl (bs_pathcode x * slot_per_bucket + slot)
      | Some e \<Rightarrow>
          scan_slots hp x b slots
            (if bs_depth x < MAX_BFS_PATH_LEN - 1
             then q @ [\<lparr>bs_bucket = alt_index hp (kv_partial e) (bs_bucket x),
                        bs_pathcode = bs_pathcode x * slot_per_bucket + slot,
                        bs_depth = bs_depth x + 1\<rparr>]
             else q))"

definition slot_order :: "nat \<Rightarrow> nat list" where
  "slot_order pathcode =
     (let starting_slot = pathcode mod slot_per_bucket
      in map (\<lambda>i. (starting_slot + i) mod slot_per_bucket) [0..<slot_per_bucket])"

text \<open>The number of nodes of the search below a node that may still grow \<open>n\<close> levels.\<close>

fun search_weight :: "nat \<Rightarrow> nat" where
  "search_weight 0 = 1"
| "search_weight (Suc n) = 1 + 4 * search_weight n"

definition queue_weight :: "b_slot list \<Rightarrow> nat" where
  "queue_weight q = (\<Sum>x \<leftarrow> q. search_weight (MAX_BFS_PATH_LEN - bs_depth x))"

lemma queue_weight_simps [simp]:
  "queue_weight [] = 0"
  "queue_weight (x # q) = search_weight (MAX_BFS_PATH_LEN - bs_depth x) + queue_weight q"
  "queue_weight (q @ r) = queue_weight q + queue_weight r"
  by (simp_all add: queue_weight_def)

lemma search_weight_pos [simp]: "0 < search_weight n"
  by (cases n) auto

lemma scan_slots_weight:
  "scan_slots hp x b slots q = Inr q' \<Longrightarrow>
   queue_weight q' \<le> queue_weight q +
     (if bs_depth x < MAX_BFS_PATH_LEN - 1
      then length slots * search_weight (MAX_BFS_PATH_LEN - (bs_depth x + 1)) else 0)"
proof (induction slots arbitrary: q)
  case Nil
  then show ?case by simp
next
  case (Cons slot slots)
  then show ?case by (fastforce split: option.splits if_splits)
qed

lemma scan_slots_decreases:
  assumes "scan_slots hp x b (slot_order pc) q = Inr q'"
  shows "queue_weight q' < queue_weight (x # q)"
proof (cases "bs_depth x < MAX_BFS_PATH_LEN - 1")
  case True
  then obtain n where n: "MAX_BFS_PATH_LEN - bs_depth x = Suc n" and
    m: "MAX_BFS_PATH_LEN - (bs_depth x + 1) = n"
    by (metis Suc_diff_Suc Suc_eq_plus1 diff_Suc_1 less_diff_conv less_imp_diff_less add_lessD1)
  have "length (slot_order pc) = 4"
    by (simp add: slot_order_def slot_per_bucket_def Let_def)
  with scan_slots_weight [OF assms] True n m show ?thesis by simp
next
  case False
  have "0 < search_weight (MAX_BFS_PATH_LEN - bs_depth x)" by simp
  with scan_slots_weight [OF assms] False show ?thesis
    unfolding queue_weight_simps by (simp only: if_False)
qed

function slot_search_loop :: "nat \<Rightarrow> b_slot list \<Rightarrow> ('k, 'v) cuckoohash_map
    \<Rightarrow> ('k, 'v) cuckoohash_map \<times> b_slot option" where
  "slot_search_loop hp [] t = (t, None)"
| "slot_search_loop hp (x # q) t =
     (let t' = lock_one (bs_bucket x) t;
          b = cells (buckets t') (bs_bucket x)
      in case scan_slots hp x b (slot_order (bs_pathcode x)) q of
           Inl pathcode \<Rightarrow> (t', Some (x\<lparr>bs_pathcode := pathcode\<rparr>))
         | Inr q' \<Rightarrow> slot_search_loop hp q' t')"
  by pat_completeness auto
termination
  by (relation "measure (\<lambda>(hp, q, t). queue_weight q)") (auto dest: scan_slots_decreases [simplified])

definition slot_search :: "nat \<Rightarrow> u64 \<Rightarrow> u64 \<Rightarrow> ('k, 'v) cuckoohash_map
    \<Rightarrow> ('k, 'v) cuckoohash_map \<times> b_slot option" where
  "slot_search hp i1 i2 t =
     slot_search_loop hp
       [\<lparr>bs_bucket = i1, bs_pathcode = 0, bs_depth = 0\<rparr>,
        \<lparr>bs_bucket = i2, bs_pathcode = 1, bs_depth = 0\<rparr>] t"

record cuckoo_record =
  cr_bucket :: u64
  cr_slot :: nat
  cr_hv :: "u64 \<times> byte"

text \<open>
  \<^verbatim>\<open>cuckoopath_search\<close>: the slots are the last \<open>depth + 1\<close> digits of the path code,
  the rest of it tells the start bucket; then the buckets and hash values are read off the
  table, ending early at a slot that turns out to be free.
\<close>

fun path_slots :: "nat \<Rightarrow> nat \<Rightarrow> nat list \<Rightarrow> nat list \<times> nat" where
  "path_slots 0 pathcode acc = (acc, pathcode)"
| "path_slots (Suc n) pathcode acc =
     path_slots n (pathcode div slot_per_bucket) (pathcode mod slot_per_bucket # acc)"

fun path_records :: "nat \<Rightarrow> u64 \<Rightarrow> nat list \<Rightarrow> ('k, 'v) cuckoohash_map
    \<Rightarrow> ('k, 'v) cuckoohash_map \<times> cuckoo_record list" where
  "path_records hp bkt [] t = (t, [])"
| "path_records hp bkt (slot # slots) t =
     (let t' = lock_one bkt t
      in case cells (buckets t') bkt ! slot of
           None \<Rightarrow> (t', [\<lparr>cr_bucket = bkt, cr_slot = slot, cr_hv = (0, 0)\<rparr>])
         | Some e \<Rightarrow>
             let hv = hashed_key t' (kv_key e);
                 (t'', rest) = path_records hp (alt_index hp (snd hv) bkt) slots t'
             in (t'', \<lparr>cr_bucket = bkt, cr_slot = slot, cr_hv = hv\<rparr> # rest))"

definition cuckoopath_search :: "nat \<Rightarrow> u64 \<Rightarrow> u64 \<Rightarrow> ('k, 'v) cuckoohash_map
    \<Rightarrow> ('k, 'v) cuckoohash_map \<times> cuckoo_record list option" where
  "cuckoopath_search hp i1 i2 t =
     (case slot_search hp i1 i2 t of
        (t', None) \<Rightarrow> (t', None)
      | (t', Some x) \<Rightarrow>
          let (slots, pathcode) = path_slots (bs_depth x + 1) (bs_pathcode x) [];
              (t'', path) = path_records hp (if pathcode = 0 then i1 else i2) slots t'
          in (t'', Some path))"

text \<open>
  \<^verbatim>\<open>cuckoopath_move\<close>: from the free end of the path back to its start, the key of each
  slot moves one step on; a key that is no longer the one recorded stops the move. The
  path comes reversed, its last record first.
\<close>

fun move_along :: "u64 \<Rightarrow> u64 \<Rightarrow> cuckoo_record list \<Rightarrow> ('k, 'v) cuckoohash_map
    \<Rightarrow> ('k, 'v) cuckoohash_map \<times> bool" where
  "move_along i1 i2 (to # from # path) t =
     (let t1 = (if path = [] then lock_three i1 i2 (cr_bucket to) t
                else lock_two (cr_bucket from) (cr_bucket to) t);
          bs = buckets t1
      in case cells bs (cr_bucket to) ! cr_slot to of
           Some _ \<Rightarrow> (t1, False)
         | None \<Rightarrow>
             (case cells bs (cr_bucket from) ! cr_slot from of
                None \<Rightarrow> (t1, False)
              | Some e \<Rightarrow>
                  if hash_fn t1 (kv_key e) \<noteq> fst (cr_hv from) then (t1, False)
                  else let bs1 = setKV bs (cr_bucket to) (cr_slot to)
                                   (kv_partial e) (kv_key e) (kv_mapped e);
                           bs2 = eraseKV bs1 (cr_bucket from) (cr_slot from)
                       in move_along i1 i2 (from # path) (t1\<lparr>buckets := bs2\<rparr>)))"
| "move_along i1 i2 path t = (t, True)"

definition cuckoopath_move :: "u64 \<Rightarrow> u64 \<Rightarrow> cuckoo_record list \<Rightarrow> ('k, 'v) cuckoohash_map
    \<Rightarrow> ('k, 'v) cuckoohash_map \<times> bool" where
  "cuckoopath_move i1 i2 path t =
     (case path of
        [r] \<Rightarrow> let t' = lock_two i1 i2 t
               in (t', \<not> occupied (cells (buckets t') (cr_bucket r)) (cr_slot r))
      | _ \<Rightarrow> move_along i1 i2 (rev path) t)"

text \<open>
  \<^verbatim>\<open>run_cuckoo\<close> repeats search and move until the move succeeds or no path is found.
  \<open>None\<close> is a loop that never ends; \<open>Some (t, None)\<close> the status \<^verbatim>\<open>failure\<close>.
\<close>

partial_function (option) run_cuckoo :: "u64 \<Rightarrow> u64 \<Rightarrow> ('k, 'v) cuckoohash_map
    \<Rightarrow> (('k, 'v) cuckoohash_map \<times> (u64 \<times> nat) option) option" where
  "run_cuckoo i1 i2 t =
     (case cuckoopath_search (hashpower t) i1 i2 t of
        (t', None) \<Rightarrow> Some (t', None)
      | (t', Some path) \<Rightarrow>
          (case cuckoopath_move i1 i2 path t' of
             (t'', moved) \<Rightarrow>
               if moved then Some (t'', Some (cr_bucket (hd path), cr_slot (hd path)))
               else run_cuckoo i1 i2 t''))"

section \<open>Inserting\<close>

datatype insert_status =
    Ok u64 nat
  | Key_duplicated u64 nat
  | Table_full

definition cuckoo_insert :: "u64 \<times> byte \<Rightarrow> u64 \<Rightarrow> u64 \<Rightarrow> 'k \<Rightarrow> ('k, 'v) cuckoohash_map
    \<Rightarrow> (('k, 'v) cuckoohash_map \<times> insert_status) option" where
  "cuckoo_insert hv i1 i2 k t =
     (case try_find_insert_bucket (cells (buckets t) i1) (snd hv) k of
        (False, Some res1) \<Rightarrow> Some (t, Key_duplicated i1 res1)
      | (_, res1) \<Rightarrow>
     (case try_find_insert_bucket (cells (buckets t) i2) (snd hv) k of
        (False, Some res2) \<Rightarrow> Some (t, Key_duplicated i2 res2)
      | (_, res2) \<Rightarrow>
     (case res1 of
        Some slot \<Rightarrow> Some (t, Ok i1 slot)
      | None \<Rightarrow>
     (case res2 of
        Some slot \<Rightarrow> Some (t, Ok i2 slot)
      | None \<Rightarrow>
     (case run_cuckoo i1 i2 t of
        None \<Rightarrow> None
      | Some (t', None) \<Rightarrow> Some (t', Table_full)
      | Some (t', Some (bkt, slot)) \<Rightarrow>
          (case cuckoo_find (cells (buckets t')) k (snd hv) i1 i2 of
             Some (i, s) \<Rightarrow> Some (t', Key_duplicated i s)
           | None \<Rightarrow> Some (t', Ok bkt slot)))))))"

definition check_resize_validity :: "nat \<Rightarrow> ('k, 'v) cuckoohash_map \<Rightarrow> cuckoo_error option" where
  "check_resize_validity new_hp t =
     (if (case maximum_hashpower t of None \<Rightarrow> False | Some mhp \<Rightarrow> mhp < new_hp)
      then Some (Maximum_hashpower_exceeded new_hp)
      else if load_factor_below_minimum (nat (size_of_map t)) (capacity t)
      then Some Load_factor_too_low
      else None)"

fun rehash_locks :: "nat \<Rightarrow> ('k, 'v) cuckoohash_map \<Rightarrow> ('k, 'v) cuckoohash_map" where
  "rehash_locks 0 t = t"
| "rehash_locks (Suc n) t = rehash_lock False (of_nat n) (rehash_locks n t)"

fun move_buckets :: "('k \<Rightarrow> u64) \<Rightarrow> ('k, 'v) buckets_t \<Rightarrow> nat \<Rightarrow> ('k, 'v) buckets_t
    \<Rightarrow> ('k, 'v) buckets_t" where
  "move_buckets h old 0 new = new"
| "move_buckets h old (Suc n) new = move_bucket h old (move_buckets h old n new) (of_nat n)"

definition set_num_remaining :: "nat \<Rightarrow> ('k, 'v) cuckoohash_map \<Rightarrow> ('k, 'v) cuckoohash_map" where
  "set_num_remaining n t =
     (let t' = t\<lparr>num_remaining_lazy_rehash_locks := n\<rparr>
      in if n = 0 then t'\<lparr>old_buckets := clear_and_deallocate (old_buckets t')\<rparr> else t')"

text \<open>
  \<^verbatim>\<open>maybe_resize_locks\<close> grows the lock array to the new bucket count, at most
  \<^verbatim>\<open>kMaxNumLocks\<close>, and copies the counters; the added locks are fresh.
\<close>

definition maybe_resize_locks :: "nat \<Rightarrow> ('k, 'v) cuckoohash_map \<Rightarrow> ('k, 'v) cuckoohash_map" where
  "maybe_resize_locks new_bucket_count t =
     (if locks_size t < kMaxNumLocks \<and> locks_size t < new_bucket_count
      then t\<lparr>locks_size := min kMaxNumLocks new_bucket_count,
             locks := (\<lambda>l. if unat l < locks_size t then locks t l else fresh_lock)\<rparr>
      else t)"

definition cuckoo_fast_double :: "nat \<Rightarrow> ('k, 'v) cuckoohash_map
    \<Rightarrow> cuckoo_error + ('k, 'v) cuckoohash_map" where
  "cuckoo_fast_double current_hp t =
     (let new_hp = current_hp + 1
      in case check_resize_validity new_hp t of
           Some e \<Rightarrow> Inl e
         | None \<Rightarrow>
             if alloc_hashpower t < new_hp then Inl Bad_alloc
             else
               let t1 = set_num_remaining 0 (rehash_locks (locks_size t) t);
                   t2 = maybe_resize_locks (2 ^ new_hp) t1;
                   old = buckets t2;
                   t3 = t2\<lparr>old_buckets := old, buckets := new_buckets new_hp\<rparr>
               in Inr (if buckets_size old < kMaxNumLocks
                       then set_num_remaining 0
                              (t3\<lparr>buckets := move_buckets (hash_fn t) old (buckets_size old) (buckets t3)\<rparr>)
                       else set_num_remaining (locks_size t3)
                              (t3\<lparr>locks := (\<lambda>l. if unat l < locks_size t3
                                               then (locks t3 l)\<lparr>is_migrated := False\<rparr>
                                               else locks t3 l)\<rparr>)))"

text \<open>
  \<^verbatim>\<open>cuckoo_insert_loop\<close>: insert, and double the table while it is full. \<open>None\<close> is a
  loop that never ends.
\<close>

partial_function (option) cuckoo_insert_loop :: "u64 \<times> byte \<Rightarrow> u64 \<Rightarrow> u64 \<Rightarrow> 'k
    \<Rightarrow> ('k, 'v) cuckoohash_map \<Rightarrow> (cuckoo_error + ('k, 'v) cuckoohash_map \<times> bool \<times> u64 \<times> nat) option" where
  "cuckoo_insert_loop hv i1 i2 k t =
     (case cuckoo_insert hv i1 i2 k t of
        None \<Rightarrow> None
      | Some (t', st) \<Rightarrow>
          (case st of
             Ok i s \<Rightarrow> Some (Inr (t', True, i, s))
           | Key_duplicated i s \<Rightarrow> Some (Inr (t', False, i, s))
           | Table_full \<Rightarrow>
               (case cuckoo_fast_double (hashpower t) t' of
                  Inl e \<Rightarrow> Some (Inl e)
                | Inr t'' \<Rightarrow>
                    (case snapshot_and_lock_two hv t'' of
                       (t3, j1, j2) \<Rightarrow> cuckoo_insert_loop hv j1 j2 k t3))))"

definition bump_counter :: "int \<Rightarrow> u64 \<Rightarrow> (u64 \<Rightarrow> spinlock) \<Rightarrow> (u64 \<Rightarrow> spinlock)" where
  "bump_counter d i ls = ls(lock_ind i := (ls (lock_ind i))\<lparr>elem_counter := elem_counter (ls (lock_ind i)) + d\<rparr>)"

definition add_to_bucket :: "u64 \<Rightarrow> nat \<Rightarrow> byte \<Rightarrow> 'k \<Rightarrow> 'v \<Rightarrow> ('k, 'v) cuckoohash_map
    \<Rightarrow> ('k, 'v) cuckoohash_map" where
  "add_to_bucket ind slot p k v t =
     t\<lparr>buckets := setKV (buckets t) ind slot p k v, locks := bump_counter 1 ind (locks t)\<rparr>"

definition del_from_bucket :: "u64 \<Rightarrow> nat \<Rightarrow> ('k, 'v) cuckoohash_map \<Rightarrow> ('k, 'v) cuckoohash_map" where
  "del_from_bucket ind slot t =
     t\<lparr>buckets := eraseKV (buckets t) ind slot, locks := bump_counter (-1) ind (locks t)\<rparr>"

definition assign_mapped :: "u64 \<Rightarrow> nat \<Rightarrow> 'v \<Rightarrow> ('k, 'v) cuckoohash_map \<Rightarrow> ('k, 'v) cuckoohash_map" where
  "assign_mapped ind slot v t =
     (let bs = buckets t; b = cells bs ind
      in t\<lparr>buckets := bs\<lparr>cells := (cells bs)(ind := b[slot := map_option (\<lambda>e. e\<lparr>kv_mapped := v\<rparr>) (b ! slot)])\<rparr>\<rparr>)"

section \<open>The operations of the table\<close>

text \<open>
  \<^verbatim>\<open>find(key, val)\<close> and \<^verbatim>\<open>find(key)\<close> both look the key up under the locks of its
  two buckets; the second returns a default-constructed value for a missing key.
\<close>

definition find_fn :: "('k, 'v) cuckoohash_map \<Rightarrow> 'k \<Rightarrow> ('k, 'v) cuckoohash_map \<times> 'v option" where
  "find_fn t k =
     (let hv = hashed_key t k;
          (t', i1, i2) = snapshot_and_lock_two hv t
      in case cuckoo_find (cells (buckets t')) k (snd hv) i1 i2 of
           Some (i, s) \<Rightarrow> (t', map_option kv_mapped (cells (buckets t') i ! s))
         | None \<Rightarrow> (t', None))"

definition find_default :: "'v \<Rightarrow> ('k, 'v) cuckoohash_map \<Rightarrow> 'k \<Rightarrow> ('k, 'v) cuckoohash_map \<times> 'v" where
  "find_default d t k =
     (case find_fn t k of (t', Some v) \<Rightarrow> (t', v) | (t', None) \<Rightarrow> (t', d))"

definition insert_or_assign :: "('k, 'v) cuckoohash_map \<Rightarrow> 'k \<Rightarrow> 'v
    \<Rightarrow> cuckoo_error + ('k, 'v) cuckoohash_map \<times> bool" where
  "insert_or_assign t k v =
     (let hv = hashed_key t k;
          (t', i1, i2) = snapshot_and_lock_two hv t
      in case cuckoo_insert_loop hv i1 i2 k t' of
           None \<Rightarrow> Inl No_return
         | Some (Inl e) \<Rightarrow> Inl e
         | Some (Inr (t'', True, i, s)) \<Rightarrow> Inr (add_to_bucket i s (snd hv) k v t'', True)
         | Some (Inr (t'', False, i, s)) \<Rightarrow> Inr (assign_mapped i s v t'', False))"

definition erase :: "('k, 'v) cuckoohash_map \<Rightarrow> 'k \<Rightarrow> ('k, 'v) cuckoohash_map \<times> bool" where
  "erase t k =
     (let hv = hashed_key t k;
          (t', i1, i2) = snapshot_and_lock_two hv t
      in case cuckoo_find (cells (buckets t')) k (snd hv) i1 i2 of
           Some (i, s) \<Rightarrow> (del_from_bucket i s t', True)
         | None \<Rightarrow> (t', False))"

end
