(* ===== verification/Cuckoo_Table.thy ===== *)
theory Cuckoo_Table
  imports Cuckoo
begin

unbundle bit_operations_syntax

text \<open>
  The cuckoo table as a plain function from bucket numbers to buckets: the arithmetic of
  the two candidate buckets of a key, the table invariant, lookups and free slots in a
  pair of buckets, and how one bucket splits when the table doubles.
\<close>

named_theorems idx_simps \<open>bucket indices as truncated words\<close>

section \<open>The two buckets of a key\<close>

definition tag_mult :: "byte \<Rightarrow> u64" where
  "tag_mult p = (ucast p + 1) * 0xc6a4a7935bd1e995"

definition idx1 :: "nat \<Rightarrow> u64 \<Rightarrow> u64" where
  "idx1 hp hv = take_bit hp hv"

definition idx2 :: "nat \<Rightarrow> u64 \<Rightarrow> u64" where
  "idx2 hp hv = take_bit hp (hv XOR tag_mult (partial_key hv))"

lemma hashmask_mask: "hashmask hp = mask hp"
  by (simp add: hashmask_def hashsize_def mask_eq_exp_minus_1 push_bit_of_1)

lemma index_hash_take_bit [idx_simps]: "index_hash hp hv = idx1 hp hv"
  by (simp add: index_hash_def idx1_def hashmask_mask take_bit_eq_mask)

lemma alt_index_take_bit: "alt_index hp p i = take_bit hp (i XOR tag_mult p)"
  by (simp add: alt_index_def tag_mult_def Let_def hashmask_mask take_bit_eq_mask)

lemma alt_index_idx1 [idx_simps]: "alt_index hp (partial_key hv) (idx1 hp hv) = idx2 hp hv"
  by (rule bit_word_eqI) (auto simp: alt_index_take_bit idx1_def idx2_def bit_simps)

lemma alt_index_idx2 [idx_simps]: "alt_index hp (partial_key hv) (idx2 hp hv) = idx1 hp hv"
  by (rule bit_word_eqI) (auto simp: alt_index_take_bit idx1_def idx2_def bit_simps)

lemma take_bit_idx [simp]: "take_bit hp (idx1 hp hv) = idx1 hp hv" "take_bit hp (idx2 hp hv) = idx2 hp hv"
  by (simp_all add: idx1_def idx2_def)

lemma lock_ind_take_bit [idx_simps]: "lock_ind i = take_bit 16 i"
proof -
  have "(of_nat kMaxNumLocks - 1 :: u64) = mask 16"
    by (simp add: kMaxNumLocks_def mask_eq_exp_minus_1)
  then show ?thesis by (simp add: lock_ind_def take_bit_eq_mask)
qed

text \<open>Doubling adds one bit on top of each index.\<close>

lemma idx_old [idx_simps]:
  "take_bit hp (idx1 (Suc hp) hv) = idx1 hp hv" "take_bit hp (idx2 (Suc hp) hv) = idx2 hp hv"
  by (simp_all add: idx1_def idx2_def)

lemma take_bit_Suc_cases:
  assumes "take_bit (Suc n) (i :: u64) = i"
  shows "i = take_bit n i + (if bit i n then push_bit n 1 else 0)"
proof -
  have "take_bit (Suc n) i = take_bit n i + (if bit i n then push_bit n 1 else 0)"
  proof (rule trans [OF _ disjunctive_add_eq_or [symmetric]])
    show "take_bit (Suc n) i = take_bit n i OR (if bit i n then push_bit n 1 else 0)"
      by (rule bit_word_eqI) (auto simp: bit_simps less_Suc_eq)
    show "take_bit n i AND (if bit i n then push_bit n 1 else 0) = 0"
      by (rule bit_word_eqI) (auto simp: bit_simps)
  qed
  with assms show ?thesis by simp
qed

lemma add_exp_of_take_bit:
  fixes j :: u64
  assumes "take_bit n j = j" "n < 64"
  shows "take_bit n (j + push_bit n 1) = j" "bit (j + push_bit n 1) n" "take_bit (Suc n) (j + push_bit n 1) = j + push_bit n 1"
    "j + push_bit n 1 \<noteq> j"
proof -
  have dis: "j AND push_bit n 1 = 0"
    using assms by (auto intro!: bit_word_eqI simp: bit_simps) (metis bit_take_bit_iff less_irrefl)
  have eq: "j + push_bit n 1 = j OR push_bit n 1" by (rule disjunctive_add_eq_or) (rule dis)
  have nb: "\<not> bit j m" if "n \<le> m" for m using that assms(1) by (metis bit_take_bit_iff not_less)
  show "take_bit n (j + push_bit n 1) = j" "bit (j + push_bit n 1) n"
    "take_bit (Suc n) (j + push_bit n 1) = j + push_bit n 1"
    unfolding eq using nb assms
    by (auto intro!: bit_word_eqI simp: bit_simps) (metis less_SucI not_le_imp_less)
  show "j + push_bit n 1 \<noteq> j"
    using assms(2) by (simp add: push_bit_of_1)
qed

section \<open>The table invariant\<close>

type_synonym ('k, 'v) table = "u64 \<Rightarrow> ('k, 'v) bucket"

definition entry_at :: "('k, 'v) table \<Rightarrow> u64 \<Rightarrow> nat \<Rightarrow> ('k, 'v) kv option" where
  "entry_at T i s = (if s < slot_per_bucket then T i ! s else None)"

definition tab_ok :: "('k \<Rightarrow> u64) \<Rightarrow> nat \<Rightarrow> ('k, 'v) table \<Rightarrow> bool" where
  "tab_ok h hp T \<longleftrightarrow>
     (\<forall>i. length (T i) = slot_per_bucket) \<and>
     (\<forall>i s e. entry_at T i s = Some e \<longrightarrow>
        kv_partial e = partial_key (h (kv_key e)) \<and>
        i \<in> {idx1 hp (h (kv_key e)), idx2 hp (h (kv_key e))}) \<and>
     (\<forall>i s e j r f. entry_at T i s = Some e \<longrightarrow> entry_at T j r = Some f \<longrightarrow>
        kv_key e = kv_key f \<longrightarrow> i = j \<and> s = r)"

definition has_kv :: "('k, 'v) table \<Rightarrow> 'k \<Rightarrow> 'v \<Rightarrow> bool" where
  "has_kv T k v \<longleftrightarrow> (\<exists>i s e. entry_at T i s = Some e \<and> kv_key e = k \<and> kv_mapped e = v)"

definition tab_lookup :: "('k, 'v) table \<Rightarrow> 'k \<Rightarrow> 'v option" where
  "tab_lookup T k = (if \<exists>v. has_kv T k v then Some (THE v. has_kv T k v) else None)"

lemma slot4 [simp]: "slot_per_bucket = 4"
  by (simp add: slot_per_bucket_def)

lemma length_empty_bucket [simp]: "length empty_bucket = 4"
  by (simp add: empty_bucket_def)

lemma nth_empty_bucket [simp]: "s < 4 \<Longrightarrow> empty_bucket ! s = None"
  by (simp add: empty_bucket_def)

lemma tab_okD:
  assumes "tab_ok h hp T"
  shows "length (T i) = 4"
    and "entry_at T i s = Some e \<Longrightarrow> kv_partial e = partial_key (h (kv_key e))"
    and "entry_at T i s = Some e \<Longrightarrow> i = idx1 hp (h (kv_key e)) \<or> i = idx2 hp (h (kv_key e))"
    and "entry_at T i s = Some e \<Longrightarrow> entry_at T j r = Some f \<Longrightarrow> kv_key e = kv_key f \<Longrightarrow> i = j \<and> s = r"
  using assms unfolding tab_ok_def by (simp, blast, blast, blast)

lemma entry_at_slot: "entry_at T i s = Some e \<Longrightarrow> s < 4"
  by (auto simp: entry_at_def split: if_splits)

lemma tab_ok_alt:
  assumes "tab_ok h hp T" "entry_at T i s = Some e"
  shows "alt_index hp (kv_partial e) i = idx1 hp (h (kv_key e)) \<or>
    alt_index hp (kv_partial e) i = idx2 hp (h (kv_key e))"
  using tab_okD(2,3) [OF assms] by (auto simp: idx_simps)

lemma has_kv_unique:
  assumes "tab_ok h hp T" "has_kv T k v" "has_kv T k w"
  shows "v = w"
  using assms tab_okD(4) [OF assms(1)] unfolding has_kv_def by (metis option.inject)

lemma tab_lookup_Some_iff:
  assumes "tab_ok h hp T"
  shows "tab_lookup T k = Some v \<longleftrightarrow> has_kv T k v"
proof -
  have "(THE v. has_kv T k v) = w" if "has_kv T k w" for w
    using that has_kv_unique [OF assms] by blast
  then show ?thesis unfolding tab_lookup_def by auto
qed

lemma tab_lookup_None_iff: "tab_lookup T k = None \<longleftrightarrow> (\<forall>i s e. entry_at T i s = Some e \<longrightarrow> kv_key e \<noteq> k)"
  by (auto simp: tab_lookup_def has_kv_def)

lemma tab_lookup_entry:
  assumes "tab_ok h hp T" "entry_at T i s = Some e"
  shows "tab_lookup T (kv_key e) = Some (kv_mapped e)"
  using tab_lookup_Some_iff [OF assms(1)] assms(2) unfolding has_kv_def by blast

lemma tab_lookup_cong:
  assumes "\<And>v. has_kv T k v \<longleftrightarrow> has_kv T' k v"
  shows "tab_lookup T k = tab_lookup T' k"
proof -
  have "has_kv T k = has_kv T' k" using assms by (rule ext)
  then show ?thesis by (simp add: tab_lookup_def)
qed

lemma tab_lookup_has:
  assumes "has_kv T k v" "\<And>w. has_kv T k w \<Longrightarrow> w = v"
  shows "tab_lookup T k = Some v"
proof -
  have "(THE v. has_kv T k v) = v" using assms by (rule the_equality)
  with assms(1) show ?thesis by (auto simp: tab_lookup_def)
qed

lemma tab_lookup_has_not: "(\<And>v. \<not> has_kv T k v) \<Longrightarrow> tab_lookup T k = None"
  unfolding tab_lookup_def by simp

section \<open>Reading a pair of buckets\<close>

lemma try_read_loop_Some:
  "try_read_loop i b p k = Some s \<Longrightarrow>
   i \<le> s \<and> s < i + length b \<and> (\<exists>e. b ! (s - i) = Some e \<and> kv_key e = k)"
proof (induction i b p k rule: try_read_loop.induct)
  case (1 i p k)
  then show ?case by simp
next
  case (2 i b p k)
  then show ?case by (auto simp: nth_Cons' Suc_diff_le)
next
  case (3 i e b p k)
  then show ?case by (auto simp: nth_Cons' split: if_splits)
qed

lemma try_read_loop_None:
  "try_read_loop i b p k = None \<Longrightarrow> Some e \<in> set b \<Longrightarrow> kv_partial e = p \<Longrightarrow> kv_key e \<noteq> k"
  by (induction i b p k rule: try_read_loop.induct) (auto split: if_splits)

lemma cuckoo_find_Some:
  assumes ok: "tab_ok h hp T" and "cuckoo_find T k p i1 i2 = Some (i, s)"
  shows "i \<in> {i1, i2} \<and> (\<exists>e. entry_at T i s = Some e \<and> kv_key e = k)"
  using assms(2) tab_okD(1) [OF ok, of i1] tab_okD(1) [OF ok, of i2]
  by (auto simp: cuckoo_find_def try_read_from_bucket_def entry_at_def split: option.splits
      dest!: try_read_loop_Some)

lemma cuckoo_find_None:
  assumes ok: "tab_ok h hp T" and "cuckoo_find T k (partial_key (h k)) (idx1 hp (h k)) (idx2 hp (h k)) = None"
  shows "tab_lookup T k = None"
proof -
  have none: "try_read_loop 0 (T i) (partial_key (h k)) k = None" if "i = idx1 hp (h k) \<or> i = idx2 hp (h k)" for i
    using that assms(2) by (auto simp: cuckoo_find_def try_read_from_bucket_def split: option.splits)
  have "kv_key e \<noteq> k" if e: "entry_at T i s = Some e" for i s e
  proof
    assume k: "kv_key e = k"
    have "Some e \<in> set (T i)"
      using e entry_at_slot [OF e] tab_okD(1) [OF ok, of i] by (auto simp: entry_at_def in_set_conv_nth)
    with try_read_loop_None [OF none] tab_okD(2,3) [OF ok e] k show False by blast
  qed
  then show ?thesis by (auto simp: tab_lookup_None_iff)
qed

text \<open>\<open>try_find_insert_bucket\<close>: a duplicate, the last free slot, or a full bucket.\<close>

lemma try_find_insert_loop_cases:
  "try_find_insert_loop i b p k slot = (fresh, res) \<Longrightarrow>
   (\<not> fresh \<longrightarrow> (\<exists>s e. res = Some s \<and> i \<le> s \<and> s < i + length b \<and> b ! (s - i) = Some e \<and> kv_key e = k)) \<and>
   (fresh \<longrightarrow> (\<forall>e. Some e \<in> set b \<longrightarrow> kv_partial e = p \<longrightarrow> kv_key e \<noteq> k) \<and>
      (case res of
         None \<Rightarrow> slot = None \<and> None \<notin> set b
       | Some s \<Rightarrow> res = slot \<or> (i \<le> s \<and> s < i + length b \<and> b ! (s - i) = None)))"
proof (induction i b p k slot rule: try_find_insert_loop.induct)
  case (1 i p k slot)
  then show ?case by (auto split: option.splits)
next
  case (2 i b p k slot)
  then show ?case by (auto simp: nth_Cons' Suc_diff_le split: option.splits)
next
  case (3 i e b p k slot)
  then show ?case by (auto simp: nth_Cons' Suc_diff_le split: option.splits if_splits)
qed

lemma try_find_insert_bucket_dup:
  assumes "tab_ok h hp T" "try_find_insert_bucket (T i) p k = (False, res)"
  shows "\<exists>s e. res = Some s \<and> entry_at T i s = Some e \<and> kv_key e = k"
  using try_find_insert_loop_cases [OF assms(2) [unfolded try_find_insert_bucket_def]] tab_okD(1) [OF assms(1), of i]
  by (auto simp: entry_at_def)

lemma try_find_insert_bucket_fresh:
  assumes "tab_ok h hp T" "try_find_insert_bucket (T i) p k = (True, res)"
  shows "entry_at T i s = Some e \<Longrightarrow> kv_partial e = p \<Longrightarrow> kv_key e \<noteq> k"
    and "res = Some s \<Longrightarrow> s < 4 \<and> entry_at T i s = None"
    and "res = None \<Longrightarrow> None \<notin> set (T i)"
proof -
  note * = try_find_insert_loop_cases [OF assms(2) [unfolded try_find_insert_bucket_def]]
  note len = tab_okD(1) [OF assms(1), of i]
  show "kv_key e \<noteq> k" if e: "entry_at T i s = Some e" and "kv_partial e = p"
  proof -
    have "Some e \<in> set (T i)"
      using e entry_at_slot [OF e] len by (auto simp: entry_at_def in_set_conv_nth)
    with * that show ?thesis by auto
  qed
  show "s < 4 \<and> entry_at T i s = None" if "res = Some s"
    using * that len by (auto simp: entry_at_def)
  show "None \<notin> set (T i)" if "res = None"
    using * that by auto
qed

section \<open>Changing one slot\<close>

definition upd :: "('k, 'v) table \<Rightarrow> u64 \<Rightarrow> nat \<Rightarrow> ('k, 'v) kv option \<Rightarrow> ('k, 'v) table" where
  "upd T i s x = T(i := (T i)[s := x])"

lemma entry_at_upd:
  assumes "length (T i) = 4" "s < 4"
  shows "entry_at (upd T i s x) j r = (if j = i \<and> r = s then x else entry_at T j r)"
  using assms by (auto simp: entry_at_def upd_def)

lemma length_upd [simp]: "length (upd T i s x j) = length (T j)"
  by (simp add: upd_def)

lemma tab_ok_erase:
  assumes ok: "tab_ok h hp T" and e: "entry_at T i s = Some e"
  shows "tab_ok h hp (upd T i s None)"
    and "tab_lookup (upd T i s None) = (tab_lookup T)(kv_key e := None)"
proof -
  have at: "entry_at (upd T i s None) j r = (if j = i \<and> r = s then None else entry_at T j r)" for j r
    by (rule entry_at_upd) (use tab_okD(1) [OF ok] entry_at_slot [OF e] in auto)
  show ok': "tab_ok h hp (upd T i s None)"
    using ok unfolding tab_ok_def at length_upd by auto
  have has: "has_kv (upd T i s None) k v \<longleftrightarrow> has_kv T k v \<and> k \<noteq> kv_key e" for k v
    unfolding has_kv_def at using tab_okD(4) [OF ok e] by (auto split: if_splits) (metis option.inject e)
  show "tab_lookup (upd T i s None) = (tab_lookup T)(kv_key e := None)"
  proof
    fix k
    show "tab_lookup (upd T i s None) k = ((tab_lookup T)(kv_key e := None)) k"
      using tab_lookup_cong [of "upd T i s None" k T] tab_lookup_has_not [of "upd T i s None" k]
      by (cases "k = kv_key e") (simp_all add: has)
  qed
qed

lemma tab_ok_add:
  assumes ok: "tab_ok h hp T" and free: "entry_at T i s = None" "s < 4"
    and new: "tab_lookup T (kv_key e) = None"
    and e: "kv_partial e = partial_key (h (kv_key e))" "i = idx1 hp (h (kv_key e)) \<or> i = idx2 hp (h (kv_key e))"
  shows "tab_ok h hp (upd T i s (Some e))"
    and "tab_lookup (upd T i s (Some e)) = (tab_lookup T)(kv_key e \<mapsto> kv_mapped e)"
proof -
  have at: "entry_at (upd T i s (Some e)) j r = (if j = i \<and> r = s then Some e else entry_at T j r)" for j r
    by (rule entry_at_upd) (use tab_okD(1) [OF ok] free in auto)
  have fresh: "\<And>j r f. entry_at T j r = Some f \<Longrightarrow> kv_key f \<noteq> kv_key e"
    using new by (simp add: tab_lookup_None_iff)
  show ok': "tab_ok h hp (upd T i s (Some e))"
    using ok e fresh unfolding tab_ok_def at length_upd by (auto split: if_splits) metis+
  have has: "has_kv (upd T i s (Some e)) k v \<longleftrightarrow> (if k = kv_key e then v = kv_mapped e else has_kv T k v)" for k v
    unfolding has_kv_def at using fresh free by (auto split: if_splits) (metis option.distinct(1))
  show "tab_lookup (upd T i s (Some e)) = (tab_lookup T)(kv_key e \<mapsto> kv_mapped e)"
  proof
    fix k
    show "tab_lookup (upd T i s (Some e)) k = ((tab_lookup T)(kv_key e \<mapsto> kv_mapped e)) k"
    proof (cases "k = kv_key e")
      case True
      then have "tab_lookup (upd T i s (Some e)) k = Some (kv_mapped e)"
        by (intro tab_lookup_has) (simp_all add: has)
      with True show ?thesis by simp
    next
      case False
      then have "tab_lookup (upd T i s (Some e)) k = tab_lookup T k"
        by (intro tab_lookup_cong) (simp add: has)
      with False show ?thesis by simp
    qed
  qed
qed

lemma tab_ok_replace:
  assumes ok: "tab_ok h hp T" and e: "entry_at T i s = Some e"
    and f: "kv_key f = kv_key e" "kv_partial f = kv_partial e"
  shows "tab_ok h hp (upd T i s (Some f))"
    and "tab_lookup (upd T i s (Some f)) = (tab_lookup T)(kv_key f \<mapsto> kv_mapped f)"
proof -
  note er = tab_ok_erase [OF ok e]
  have s: "s < 4" by (rule entry_at_slot [OF e])
  have eq: "upd T i s (Some f) = upd (upd T i s None) i s (Some f)"
    by (auto simp: upd_def)
  have at: "entry_at (upd T i s None) i s = None"
    using entry_at_upd [of T i s None i s] tab_okD(1) [OF ok] s by simp
  have i: "i = idx1 hp (h (kv_key f)) \<or> i = idx2 hp (h (kv_key f))"
    and p: "kv_partial f = partial_key (h (kv_key f))"
    using tab_okD(2,3) [OF ok e] f by auto
  have new: "tab_lookup (upd T i s None) (kv_key f) = None" using er(2) f by simp
  note add = tab_ok_add [OF er(1) at s new p i]
  show "tab_ok h hp (upd T i s (Some f))" using add(1) eq by simp
  show "tab_lookup (upd T i s (Some f)) = (tab_lookup T)(kv_key f \<mapsto> kv_mapped f)"
    using add(2) er(2) f eq by simp
qed

lemma tab_ok_move:
  assumes ok: "tab_ok h hp T" and e: "entry_at T i s = Some e" and free: "entry_at T j r = None" "r < 4"
    and j: "j = alt_index hp (kv_partial e) i"
  shows "tab_ok h hp (upd (upd T j r (Some e)) i s None)"
    and "tab_lookup (upd (upd T j r (Some e)) i s None) = tab_lookup T"
proof -
  note er = tab_ok_erase [OF ok e]
  have s: "s < 4" by (rule entry_at_slot [OF e])
  have ne: "(i, s) \<noteq> (j, r)" using e free by auto
  have eq: "upd (upd T j r (Some e)) i s None = upd (upd T i s None) j r (Some e)"
    using ne by (auto simp: upd_def fun_eq_iff list_update_swap)
  have at: "entry_at (upd T i s None) j r = None"
    using entry_at_upd [of T i s None j r] tab_okD(1) [OF ok] s free by simp
  have jj: "j = idx1 hp (h (kv_key e)) \<or> j = idx2 hp (h (kv_key e))"
    using tab_ok_alt [OF ok e] j by simp
  note add = tab_ok_add [OF er(1) at free(2) _ tab_okD(2) [OF ok e] jj]
  show "tab_ok h hp (upd (upd T j r (Some e)) i s None)" using add(1) er(2) eq by simp
  show "tab_lookup (upd (upd T j r (Some e)) i s None) = tab_lookup T"
    using add(2) er(2) eq tab_lookup_entry [OF ok e] by (simp add: fun_upd_idem)
qed

end
