(* ===== verification/Cuckoo_Rehash.thy ===== *)
theory Cuckoo_Rehash
  imports Cuckoo_Table
begin

unbundle bit_operations_syntax

text \<open>
  Doubling the table and migrating it lazily: what \<^verbatim>\<open>move_bucket\<close> makes of one old
  bucket, the view of a table whose locks are not all migrated, the invariant of the
  table, and that taking locks changes neither the view nor the invariant.
\<close>

declare rehash_from.simps [simp del] reserve_loop.simps [simp del]

section \<open>Splitting a bucket\<close>

definition goes_up :: "('k \<Rightarrow> u64) \<Rightarrow> nat \<Rightarrow> u64 \<Rightarrow> ('k, 'v) kv \<Rightarrow> bool" where
  "goes_up h ohp ind e \<longleftrightarrow>
     (let hv = h (kv_key e)
      in (ind = idx1 ohp hv \<and> idx1 (Suc ohp) hv = ind + push_bit ohp 1) \<or>
         (ind = idx2 ohp hv \<and> idx2 (Suc ohp) hv = ind + push_bit ohp 1))"

fun staying :: "(('k, 'v) kv \<Rightarrow> bool) \<Rightarrow> ('k, 'v) bucket \<Rightarrow> ('k, 'v) bucket" where
  "staying u [] = []"
| "staying u (None # b) = None # staying u b"
| "staying u (Some e # b) = (if u e then None else Some e) # staying u b"

fun leaving :: "(('k, 'v) kv \<Rightarrow> bool) \<Rightarrow> ('k, 'v) bucket \<Rightarrow> ('k, 'v) bucket" where
  "leaving u [] = []"
| "leaving u (None # b) = leaving u b"
| "leaving u (Some e # b) = (if u e then Some e # leaving u b else leaving u b)"

definition split_bucket :: "('k \<Rightarrow> u64) \<Rightarrow> nat \<Rightarrow> ('k, 'v) bucket \<Rightarrow> u64 \<Rightarrow> ('k, 'v) bucket" where
  "split_bucket h ohp b i =
     (let u = goes_up h ohp (take_bit ohp i)
      in if bit i ohp then leaving u b @ replicate (4 - length (leaving u b)) None
         else staying u b)"

lemma length_staying [simp]: "length (staying u b) = length b"
  by (induction u b rule: staying.induct) auto

lemma length_leaving: "length (leaving u b) \<le> length b"
  by (induction u b rule: leaving.induct) auto

lemma length_split_bucket [simp]: "length b = 4 \<Longrightarrow> length (split_bucket h ohp b i) = 4"
  using length_leaving [of "goes_up h ohp (take_bit ohp i)" b] by (auto simp: split_bucket_def Let_def)

lemma staying_nth:
  "s < length b \<Longrightarrow> staying u b ! s = Some e \<longleftrightarrow> b ! s = Some e \<and> \<not> u e"
  by (induction u b arbitrary: s rule: staying.induct) (auto simp: nth_Cons')

lemma set_leaving: "x \<in> set (leaving u b) \<longleftrightarrow> (\<exists>e. x = Some e \<and> Some e \<in> set b \<and> u e)"
  by (induction u b rule: leaving.induct) auto

lemma leaving_nth:
  "j < length (leaving u b) \<Longrightarrow>
   \<exists>s e. s < length b \<and> b ! s = Some e \<and> u e \<and> leaving u b ! j = Some e"
  by (metis in_set_conv_nth nth_mem set_leaving)

text \<open>Two places of \<open>leaving\<close> hold entries of two places of the bucket.\<close>

lemma leaving_distinct:
  assumes "\<And>s r e f. s < length b \<Longrightarrow> r < length b \<Longrightarrow> b ! s = Some e \<Longrightarrow> b ! r = Some f \<Longrightarrow> g e = g f \<Longrightarrow> s = r"
    and "i < length (leaving u b)" "j < length (leaving u b)"
    and "leaving u b ! i = Some e" "leaving u b ! j = Some f" "g e = g f"
  shows "i = j"
  using assms
proof (induction u b arbitrary: i j rule: leaving.induct)
  case (1 u)
  then show ?case by simp
next
  case (2 u b)
  have "s = r" if "s < length b" "r < length b" "b ! s = Some e" "b ! r = Some f" "g e = g f" for s r e f
    using "2.prems"(1) [of "Suc s" "Suc r" e f] that by simp
  with "2.IH" "2.prems" show ?case by simp
next
  case (3 u x b)
  have inj: "s = r" if "s < length b" "r < length b" "b ! s = Some e" "b ! r = Some f" "g e = g f" for s r e f
    using "3.prems"(1) [of "Suc s" "Suc r" e f] that by simp
  have fresh: "g x \<noteq> g f" if "Some f \<in> set b" for f
    using "3.prems"(1) [of 0 "Suc r" x f for r] that by (auto simp: in_set_conv_nth)
  show ?case
  proof (cases "u x")
    case True
    have "g f' \<noteq> g x" if "leaving u b ! m = Some f'" "m < length (leaving u b)" for m f'
      using fresh [of f'] that nth_mem [OF that(2)] by (auto simp: set_leaving)
    with True "3.prems" "3.IH"(1) [OF True inj] show ?thesis
      by (cases i; cases j) auto
  next
    case False
    with "3.prems" "3.IH"(2) [OF False inj] show ?thesis by simp
  qed
qed

lemma move_bucket_loop_split:
  assumes "cells nb ind = lpre @ replicate (length b) None" "length lpre = slot"
    "cells nb (ind + hashsize ohp) = hpre @ replicate m None" "length hpre = new_slot"
    "length b \<le> m" "ind + hashsize ohp \<noteq> ind"
  shows "move_bucket_loop h ohp (Suc ohp) ind slot b new_slot nb =
    nb\<lparr>cells := (cells nb)
         (ind := lpre @ staying (goes_up h ohp ind) b,
          ind + hashsize ohp := hpre @ leaving (goes_up h ohp ind) b
            @ replicate (m - length (leaving (goes_up h ohp ind) b)) None)\<rparr>"
  using assms
proof (induction b arbitrary: slot new_slot nb lpre hpre m)
  case Nil
  then show ?case by (simp add: fun_upd_idem)
next
  case (Cons x b)
  show ?case
  proof (cases x)
    case None
    then show ?thesis
      using Cons.IH [of nb "lpre @ [None]" "Suc slot" hpre m new_slot] Cons.prems by simp
  next
    case (Some e)
    have e: "\<lparr>kv_partial = kv_partial e, kv_key = kv_key e, kv_mapped = kv_mapped e\<rparr> = e" by simp
    show ?thesis
    proof (cases "goes_up h ohp ind e")
      case True
      obtain m' where m: "m = Suc m'" using Cons.prems(5) by (cases m) auto
      let ?nb = "setKV nb (ind + hashsize ohp) new_slot (kv_partial e) (kv_key e) (kv_mapped e)"
      have nb: "?nb = nb\<lparr>cells := (cells nb)(ind + hashsize ohp := (hpre @ [Some e]) @ replicate m' None)\<rparr>"
        using Cons.prems m by (simp add: setKV_def list_update_append e)
      have "move_bucket_loop h ohp (Suc ohp) ind slot (x # b) new_slot nb =
        move_bucket_loop h ohp (Suc ohp) ind (Suc slot) b (Suc new_slot) ?nb"
        using True Some by (simp add: goes_up_def Let_def idx_simps hashsize_def)
      also have "\<dots> = ?nb\<lparr>cells := (cells ?nb)
         (ind := (lpre @ [None]) @ staying (goes_up h ohp ind) b,
          ind + hashsize ohp := (hpre @ [Some e]) @ leaving (goes_up h ohp ind) b
            @ replicate (m' - length (leaving (goes_up h ohp ind) b)) None)\<rparr>"
        by (rule Cons.IH) (use Cons.prems m in \<open>simp_all add: nb\<close>)
      finally show ?thesis
        unfolding nb using True Some m
        by (simp add: fun_upd_def del: move_bucket_loop.simps)
          (rule arg_cong [where f = "\<lambda>c. nb\<lparr>cells := c\<rparr>"], auto)
    next
      case False
      let ?nb = "setKV nb ind slot (kv_partial e) (kv_key e) (kv_mapped e)"
      have nb: "?nb = nb\<lparr>cells := (cells nb)(ind := (lpre @ [Some e]) @ replicate (length b) None)\<rparr>"
        using Cons.prems by (simp add: setKV_def list_update_append e)
      have "move_bucket_loop h ohp (Suc ohp) ind slot (x # b) new_slot nb =
        move_bucket_loop h ohp (Suc ohp) ind (Suc slot) b new_slot ?nb"
        using False Some by (auto simp: goes_up_def Let_def idx_simps hashsize_def)
      also have "\<dots> = ?nb\<lparr>cells := (cells ?nb)
         (ind := (lpre @ [Some e]) @ staying (goes_up h ohp ind) b,
          ind + hashsize ohp := hpre @ leaving (goes_up h ohp ind) b
            @ replicate (m - length (leaving (goes_up h ohp ind) b)) None)\<rparr>"
        by (rule Cons.IH) (use Cons.prems in \<open>simp_all add: nb\<close>)
      finally show ?thesis
        unfolding nb using False Some
        by (simp add: fun_upd_def del: move_bucket_loop.simps)
          (rule arg_cong [where f = "\<lambda>c. nb\<lparr>cells := c\<rparr>"], auto)
    qed
  qed
qed

lemma move_bucket_cells:
  assumes hp: "bc_hashpower new = Suc (bc_hashpower old)" "bc_hashpower old < 63"
    and ind: "take_bit (bc_hashpower old) ind = ind" and len: "length (cells old ind) = 4"
    and empty: "cells new ind = empty_bucket" "cells new (ind + hashsize (bc_hashpower old)) = empty_bucket"
  shows "move_bucket h old new ind =
    new\<lparr>cells := (\<lambda>i. if take_bit (bc_hashpower new) i = i \<and> take_bit (bc_hashpower old) i = ind
                       then split_bucket h (bc_hashpower old) (cells old ind) i else cells new i)\<rparr>"
proof -
  let ?ohp = "bc_hashpower old" and ?b = "cells old ind"
  let ?u = "goes_up h ?ohp ind"
  have push: "hashsize ?ohp = push_bit ?ohp 1" by (simp add: hashsize_def)
  note bits = add_exp_of_take_bit [OF ind, folded push]
  have mv: "move_bucket h old new ind = new\<lparr>cells := (cells new)
         (ind := [] @ staying ?u ?b,
          ind + hashsize ?ohp := [] @ leaving ?u ?b @ replicate (4 - length (leaving ?u ?b)) None)\<rparr>"
    unfolding move_bucket_def hp(1)
    by (rule move_bucket_loop_split)
      (use hp len empty bits in \<open>simp_all add: empty_bucket_def\<close>)
  have nb: "\<not> bit ind ?ohp" using ind by (metis bit_take_bit_iff less_irrefl)
  have cases: "i = ind \<or> i = ind + hashsize ?ohp" if "take_bit (Suc ?ohp) i = i" "take_bit ?ohp i = ind" for i
    using take_bit_Suc_cases [OF that(1)] that(2) by (auto simp: push split: if_splits)
  have tb: "take_bit (Suc ?ohp) ind = ind"
    using ind by (metis min.absorb2 le_SucI le_refl take_bit_take_bit)
  have "((cells new)(ind := [] @ staying ?u ?b,
      ind + hashsize ?ohp := [] @ leaving ?u ?b @ replicate (4 - length (leaving ?u ?b)) None)) i =
    (if take_bit (bc_hashpower new) i = i \<and> take_bit ?ohp i = ind then split_bucket h ?ohp ?b i else cells new i)" for i
  proof -
    consider "i = ind" | "i = ind + hashsize ?ohp" | "i \<noteq> ind" "i \<noteq> ind + hashsize ?ohp" by blast
    then show ?thesis
    proof cases
      case 1
      with bits nb hp ind tb show ?thesis by (simp add: split_bucket_def Let_def)
    next
      case 2
      with bits hp ind show ?thesis by (simp add: split_bucket_def Let_def)
    next
      case 3
      with cases [of i] show ?thesis unfolding hp(1) by auto
    qed
  qed
  then show ?thesis unfolding mv by (intro arg_cong [where f = "\<lambda>c. new\<lparr>cells := c\<rparr>"] ext)
qed

lemma unat_eq_of_nat:
  assumes "n < 2 ^ ohp" "ohp < 64"
  shows "take_bit ohp (of_nat n :: u64) = of_nat n" "(w :: u64) = of_nat n \<longleftrightarrow> unat w = n"
proof -
  have "(2 :: nat) ^ ohp < 2 ^ 64" using assms(2) by (rule power_strict_increasing) simp
  then have n: "n < 2 ^ 64" using assms(1) by linarith
  then have un: "unat (of_nat n :: u64) = n" by (simp add: unat_of_nat)
  then show "w = of_nat n \<longleftrightarrow> unat w = n" by auto
  show "take_bit ohp (of_nat n :: u64) = of_nat n"
    using assms by (simp add: take_bit_of_nat take_bit_nat_eq_self)
qed

lemma unat_take_bit_less: "unat (take_bit n (w :: u64)) < 2 ^ n"
  by (simp add: unsigned_take_bit_eq)

lemma same_residue_step:
  assumes "b \<le> x" "x mod k = b mod k" "x \<noteq> b"
  shows "b + k \<le> (x :: nat)"
proof -
  have "k dvd x - b" using assms by (simp add: mod_eq_dvd_iff_nat)
  with assms show ?thesis by (auto dest!: dvd_imp_le)
qed

lemma rehash_from_cells:
  assumes hp: "bc_hashpower new = Suc (bc_hashpower old)" "bc_hashpower old < 63"
    and len: "\<And>i. length (cells old i) = 4"
    and empty: "\<And>i. b \<le> unat (take_bit (bc_hashpower old) i) \<Longrightarrow>
      unat (take_bit (bc_hashpower old) i) mod kMaxNumLocks = b mod kMaxNumLocks \<Longrightarrow>
      take_bit (bc_hashpower new) i = i \<Longrightarrow> cells new i = empty_bucket"
  shows "rehash_from h old b new =
    new\<lparr>cells := (\<lambda>i. if take_bit (bc_hashpower new) i = i \<and> b \<le> unat (take_bit (bc_hashpower old) i)
                         \<and> unat (take_bit (bc_hashpower old) i) mod kMaxNumLocks = b mod kMaxNumLocks
                       then split_bucket h (bc_hashpower old) (cells old (take_bit (bc_hashpower old) i)) i
                       else cells new i)\<rparr>"
  using assms
proof (induction h old b new rule: rehash_from.induct)
  case (1 h old b new)
  let ?ohp = "bc_hashpower old"
  let ?R = "\<lambda>b (i :: u64). take_bit (bc_hashpower new) i = i \<and> b \<le> unat (take_bit ?ohp i)
    \<and> unat (take_bit ?ohp i) mod kMaxNumLocks = b mod kMaxNumLocks"
  show ?case
  proof (cases "b < buckets_size old")
    case True
    then have b: "b < 2 ^ ?ohp" by (simp add: buckets_size_def)
    let ?ind = "of_nat b :: u64"
    have tb: "take_bit ?ohp ?ind = ?ind" and ind: "(w :: u64) = ?ind \<longleftrightarrow> unat w = b" for w
      using unat_eq_of_nat [OF b] "1.prems"(2) by auto
    have push: "hashsize ?ohp = push_bit ?ohp 1" by (simp add: hashsize_def)
    note bits = add_exp_of_take_bit [OF tb, folded push]
    have tb': "take_bit (Suc ?ohp) ?ind = ?ind"
      using tb by (metis min.absorb2 le_SucI le_refl take_bit_take_bit)
    have un: "unat ?ind = b" using ind [of ?ind] by simp
    have e: "cells new ?ind = empty_bucket" "cells new (?ind + hashsize ?ohp) = empty_bucket"
      using "1.prems"(4) [of ?ind] "1.prems"(4) [of "?ind + hashsize ?ohp"] bits tb tb' un "1.prems"(1,2)
      by simp_all
    let ?new = "move_bucket h old new ?ind"
    have mv: "?new = new\<lparr>cells := (\<lambda>i. if take_bit (bc_hashpower new) i = i \<and> take_bit ?ohp i = ?ind
                       then split_bucket h ?ohp (cells old ?ind) i else cells new i)\<rparr>"
      by (rule move_bucket_cells [OF "1.prems"(1,2) tb "1.prems"(3) e])
    have hpn: "bc_hashpower ?new = bc_hashpower new" by (simp add: mv)
    have step: "?R b i \<longleftrightarrow> take_bit (bc_hashpower new) i = i \<and> (take_bit ?ohp i = ?ind \<or> ?R (b + kMaxNumLocks) i)" for i
      using same_residue_step [of b "unat (take_bit ?ohp i)" kMaxNumLocks] by (auto simp: ind)
    have "rehash_from h old b new = rehash_from h old (b + kMaxNumLocks) ?new"
      using True by (simp add: rehash_from.simps [of h old b new])
    also have "\<dots> = ?new\<lparr>cells := (\<lambda>i. if ?R (b + kMaxNumLocks) i
        then split_bucket h ?ohp (cells old (take_bit ?ohp i)) i else cells ?new i)\<rparr>"
    proof (rule "1.IH" [OF True, unfolded hpn])
      show "cells ?new i = empty_bucket" if "b + kMaxNumLocks \<le> unat (take_bit ?ohp i)"
        "unat (take_bit ?ohp i) mod kMaxNumLocks = (b + kMaxNumLocks) mod kMaxNumLocks"
        "take_bit (bc_hashpower new) i = i" for i
      proof -
        have "take_bit ?ohp i \<noteq> ?ind" using that(1) by (auto simp: ind kMaxNumLocks_def)
        then show ?thesis using that "1.prems"(4) [of i] by (simp add: mv)
      qed
    qed (use "1.prems" in auto)
    finally show ?thesis
      unfolding mv by (intro buckets_t.equality ext) (auto simp: step)
  next
    case False
    have "\<not> ?R b i" for i
      using False unat_take_bit_less [of ?ohp i] unfolding buckets_size_def by linarith
    with False show ?thesis
      by (intro buckets_t.equality ext) (auto simp: rehash_from.simps [of h old b new])
  qed
qed

lemma move_buckets_cells:
  assumes hp: "bc_hashpower new = Suc (bc_hashpower old)" "bc_hashpower old < 63"
    and len: "\<And>i. length (cells old i) = 4" and n: "n \<le> buckets_size old"
    and empty: "\<And>i. cells new i = empty_bucket"
  shows "move_buckets h old n new =
    new\<lparr>cells := (\<lambda>i. if take_bit (bc_hashpower new) i = i \<and> unat (take_bit (bc_hashpower old) i) < n
                       then split_bucket h (bc_hashpower old) (cells old (take_bit (bc_hashpower old) i)) i
                       else cells new i)\<rparr>"
  using n
proof (induction n)
  case 0
  then show ?case by (intro buckets_t.equality ext) auto
next
  case (Suc n)
  let ?ohp = "bc_hashpower old" and ?ind = "of_nat n :: u64"
  have n: "n < 2 ^ ?ohp" using Suc.prems by (simp add: buckets_size_def)
  have tb: "take_bit ?ohp ?ind = ?ind" and ind: "(w :: u64) = ?ind \<longleftrightarrow> unat w = n" for w
    using unat_eq_of_nat [OF n] hp(2) by auto
  have push: "hashsize ?ohp = push_bit ?ohp 1" by (simp add: hashsize_def)
  note bits = add_exp_of_take_bit [OF tb, folded push]
  let ?new = "move_buckets h old n new"
  have IH: "?new = new\<lparr>cells := (\<lambda>i. if take_bit (bc_hashpower new) i = i \<and> unat (take_bit ?ohp i) < n
      then split_bucket h ?ohp (cells old (take_bit ?ohp i)) i else cells new i)\<rparr>"
    using Suc by simp
  have un: "unat (take_bit ?ohp ?ind) = n" using ind [of ?ind] tb by simp
  have "move_bucket h old ?new ?ind = ?new\<lparr>cells := (\<lambda>i. if take_bit (bc_hashpower ?new) i = i \<and> take_bit ?ohp i = ?ind
                       then split_bucket h ?ohp (cells old ?ind) i else cells ?new i)\<rparr>"
    by (rule move_bucket_cells) (use bits hp tb un len empty in \<open>simp_all add: IH\<close>)
  then show ?case
    by (intro buckets_t.equality ext) (auto simp: IH ind less_Suc_eq)
qed

section \<open>The view of a table under migration\<close>

definition unmigrated :: "('k, 'v) cuckoohash_map \<Rightarrow> u64 set" where
  "unmigrated t = {l. \<not> is_migrated (locks t l)}"

definition vcells :: "('k, 'v) cuckoohash_map \<Rightarrow> ('k, 'v) table" where
  "vcells t i =
     (if lock_ind i \<in> unmigrated t \<and> take_bit (hashpower t) i = i
      then split_bucket (hash_fn t) (bc_hashpower (old_buckets t))
             (cells (old_buckets t) (take_bit (bc_hashpower (old_buckets t)) i)) i
      else cells (buckets t) i)"

definition mig_ok :: "('k, 'v) cuckoohash_map \<Rightarrow> bool" where
  "mig_ok t \<longleftrightarrow>
     hashpower t \<le> alloc_hashpower t \<and> alloc_hashpower t \<le> 63 \<and>
     locks_size t = min (2 ^ hashpower t) kMaxNumLocks \<and>
     unmigrated t \<subseteq> {l. take_bit 16 l = l} \<and>
     (unmigrated t \<noteq> {} \<longrightarrow>
        hashpower t = Suc (bc_hashpower (old_buckets t)) \<and> 16 \<le> bc_hashpower (old_buckets t)) \<and>
     (\<forall>i. length (cells (old_buckets t) i) = 4) \<and>
     (\<forall>i. lock_ind i \<in> unmigrated t \<longrightarrow> cells (buckets t) i = empty_bucket)"

definition counted :: "('k, 'v) cuckoohash_map \<Rightarrow> bool" where
  "counted t \<longleftrightarrow> num_remaining_lazy_rehash_locks t = card (unmigrated t)"

text \<open>What taking a lock keeps: everything but the migration state.\<close>

definition same_table :: "('k, 'v) cuckoohash_map \<Rightarrow> ('k, 'v) cuckoohash_map \<Rightarrow> bool" where
  "same_table t t' \<longleftrightarrow>
     hash_fn t' = hash_fn t \<and> hashpower t' = hashpower t \<and> alloc_hashpower t' = alloc_hashpower t \<and>
     maximum_hashpower t' = maximum_hashpower t \<and> locks_size t' = locks_size t \<and>
     (\<forall>l. elem_counter (locks t' l) = elem_counter (locks t l)) \<and>
     unmigrated t' \<subseteq> unmigrated t \<and> vcells t' = vcells t \<and>
     (mig_ok t \<and> counted t \<longrightarrow> mig_ok t' \<and> counted t')"

lemma same_table_refl [simp]: "same_table t t"
  by (simp add: same_table_def)

lemma same_table_trans: "same_table t t' \<Longrightarrow> same_table t' t'' \<Longrightarrow> same_table t t''"
  unfolding same_table_def by auto

lemma finite_unmigrated: "finite (unmigrated t)"
  by (rule finite)

text \<open>The buckets of one lock, migrated at once.\<close>

lemma rehash_from_lock:
  assumes ok: "mig_ok t" and l: "l \<in> unmigrated t"
  shows "rehash_from (hash_fn t) (old_buckets t) (unat l) (buckets t) =
    (buckets t)\<lparr>cells := (\<lambda>i. if lock_ind i = l then vcells t i else cells (buckets t) i)\<rparr>"
proof -
  let ?ohp = "bc_hashpower (old_buckets t)" and ?hp = "bc_hashpower (buckets t)"
  have hp: "?hp = Suc ?ohp" "?ohp < 63" "16 \<le> ?ohp"
    using ok l unfolding mig_ok_def hashpower_def by auto
  have tl: "take_bit 16 l = l" using ok l unfolding mig_ok_def by auto
  have lk: "lock_ind i = l \<longleftrightarrow> unat l \<le> unat (take_bit ?ohp i) \<and>
    unat (take_bit ?ohp i) mod kMaxNumLocks = unat l mod kMaxNumLocks" for i
  proof -
    have "unat (take_bit ?ohp i) mod kMaxNumLocks = unat (take_bit 16 i)"
      using hp(3) by (simp add: kMaxNumLocks_def unsigned_take_bit_eq flip: take_bit_eq_mod [of 16, simplified])
    moreover have "unat l mod kMaxNumLocks = unat l"
      using unat_take_bit_less [of 16 l] tl by (simp add: kMaxNumLocks_def)
    moreover have "unat (take_bit ?ohp i) mod kMaxNumLocks \<le> unat (take_bit ?ohp i)" by simp
    ultimately show ?thesis
      unfolding lock_ind_take_bit by (metis unsigned_word_eqI)
  qed
  have e: "cells (buckets t) i = empty_bucket" if "lock_ind i = l" for i
    using ok l that unfolding mig_ok_def by blast
  have len: "length (cells (old_buckets t) i) = 4" for i
    using ok unfolding mig_ok_def by blast
  have "rehash_from (hash_fn t) (old_buckets t) (unat l) (buckets t) = (buckets t)\<lparr>cells := (\<lambda>i.
      if take_bit ?hp i = i \<and> unat l \<le> unat (take_bit ?ohp i) \<and> unat (take_bit ?ohp i) mod kMaxNumLocks = unat l mod kMaxNumLocks
      then split_bucket (hash_fn t) ?ohp (cells (old_buckets t) (take_bit ?ohp i)) i else cells (buckets t) i)\<rparr>"
    by (rule rehash_from_cells) (use hp len e lk in auto)
  then show ?thesis
    using l by (auto simp: lk [symmetric] vcells_def hashpower_def intro!: buckets_t.equality)
qed

lemma unmigrated_set_migrated [simp]:
  "unmigrated (t\<lparr>locks := set_migrated (locks t) l\<rparr>) = unmigrated t - {l}"
  by (auto simp: unmigrated_def set_migrated_def)

lemma elem_counter_set_migrated [simp]: "elem_counter (set_migrated ls l i) = elem_counter (ls i)"
  by (simp add: set_migrated_def)

lemma rehash_lock_idle: "l \<notin> unmigrated t \<Longrightarrow> rehash_lock lazy l t = t"
  by (simp add: rehash_lock_def unmigrated_def)

text \<open>The table after the buckets of lock \<open>l\<close> have moved, before the count of locks is adjusted.\<close>

definition migrate :: "u64 \<Rightarrow> ('k, 'v) cuckoohash_map \<Rightarrow> ('k, 'v) cuckoohash_map" where
  "migrate l t = t\<lparr>buckets := (buckets t)\<lparr>cells := (\<lambda>i. if lock_ind i = l then vcells t i else cells (buckets t) i)\<rparr>,
     locks := set_migrated (locks t) l\<rparr>"

lemma migrate_simps [simp]:
  "hash_fn (migrate l t) = hash_fn t" "hashpower (migrate l t) = hashpower t"
  "alloc_hashpower (migrate l t) = alloc_hashpower t" "maximum_hashpower (migrate l t) = maximum_hashpower t"
  "locks_size (migrate l t) = locks_size t" "elem_counter (locks (migrate l t) i) = elem_counter (locks t i)"
  "unmigrated (migrate l t) = unmigrated t - {l}" "old_buckets (migrate l t) = old_buckets t"
  "num_remaining_lazy_rehash_locks (migrate l t) = num_remaining_lazy_rehash_locks t"
  by (auto simp: migrate_def hashpower_def unmigrated_def set_migrated_def)

lemma vcells_migrate: "vcells (migrate l t) = vcells t"
  by (rule ext) (auto simp: vcells_def migrate_def hashpower_def unmigrated_def set_migrated_def)

lemma mig_ok_migrate:
  assumes "mig_ok t" "l \<in> unmigrated t"
  shows "mig_ok (migrate l t)"
proof -
  have "cells (buckets (migrate l t)) i = empty_bucket" if "lock_ind i \<in> unmigrated t - {l}" for i
    using assms(1) that by (auto simp: migrate_def mig_ok_def)
  then show ?thesis using assms unfolding mig_ok_def migrate_simps by blast
qed

lemma rehash_lock_migrate:
  assumes "mig_ok t" "l \<in> unmigrated t"
  shows "rehash_lock lazy l t = (if lazy then decrement_num_remaining (migrate l t) else migrate l t)"
  using assms rehash_from_lock [OF assms]
  by (simp add: rehash_lock_def migrate_def unmigrated_def)

text \<open>Once every lock is migrated the old buckets no longer matter.\<close>

lemma clear_old:
  assumes "unmigrated t = {}"
  shows "vcells (t\<lparr>old_buckets := clear_and_deallocate (old_buckets t), num_remaining_lazy_rehash_locks := n\<rparr>) = vcells t"
    and "mig_ok t \<Longrightarrow> mig_ok (t\<lparr>old_buckets := clear_and_deallocate (old_buckets t), num_remaining_lazy_rehash_locks := n\<rparr>)"
  using assms
  by (auto simp: vcells_def unmigrated_def mig_ok_def hashpower_def clear_and_deallocate_def fun_eq_iff)

lemma decrement_same:
  assumes ok: "mig_ok t" and cnt: "num_remaining_lazy_rehash_locks t = Suc (card (unmigrated t))"
  shows "same_table t (decrement_num_remaining t) \<and> mig_ok (decrement_num_remaining t) \<and>
    counted (decrement_num_remaining t) \<and> unmigrated (decrement_num_remaining t) = unmigrated t"
proof (cases "unmigrated t = {}")
  case True
  let ?t = "t\<lparr>old_buckets := clear_and_deallocate (old_buckets t), num_remaining_lazy_rehash_locks := 0\<rparr>"
  have d: "decrement_num_remaining t = ?t"
    using cnt True by (simp add: decrement_num_remaining_def Let_def)
  have "unmigrated ?t = unmigrated t" by (simp add: unmigrated_def)
  then show ?thesis
    unfolding d same_table_def counted_def using clear_old [OF True, of 0] ok True
    by (auto simp: hashpower_def)
next
  case False
  then have "card (unmigrated t) \<noteq> 0" by (simp add: card_eq_0_iff)
  then have d: "decrement_num_remaining t = t\<lparr>num_remaining_lazy_rehash_locks := card (unmigrated t)\<rparr>"
    using cnt by (simp add: decrement_num_remaining_def Let_def)
  have v: "vcells (t\<lparr>num_remaining_lazy_rehash_locks := n\<rparr>) = vcells t" for n
    by (rule ext) (simp add: vcells_def unmigrated_def hashpower_def)
  have m: "mig_ok (t\<lparr>num_remaining_lazy_rehash_locks := n\<rparr>)" for n
    using ok by (simp add: mig_ok_def unmigrated_def hashpower_def)
  show ?thesis
    unfolding d same_table_def counted_def using v m by (simp add: unmigrated_def hashpower_def)
qed

lemma rehash_lock_same:
  assumes "mig_ok t" "counted t"
  shows "same_table t (rehash_lock True l t) \<and> l \<notin> unmigrated (rehash_lock True l t)"
proof (cases "l \<in> unmigrated t")
  case True
  have "card (unmigrated t) = Suc (card (unmigrated (migrate l t)))"
    using True card_Suc_Diff1 [OF finite_unmigrated True] by simp
  then have "num_remaining_lazy_rehash_locks (migrate l t) = Suc (card (unmigrated (migrate l t)))"
    using assms(2) by (simp add: counted_def)
  from decrement_same [OF mig_ok_migrate [OF assms(1) True] this] show ?thesis
    unfolding rehash_lock_migrate [OF assms(1) True]
    by (auto simp: same_table_def vcells_migrate)
next
  case False
  then show ?thesis by (simp add: rehash_lock_idle)
qed

end
