(* ===== verification/Cuckoo_Path.thy ===== *)
theory Cuckoo_Path
  imports Cuckoo_Rehash
begin

text \<open>
  Making room in a full pair of buckets: the breadth-first search finds a shortest path
  to a free slot, a shortest path visits no slot twice, and so moving the keys along it
  succeeds at the first attempt and keeps every key.
\<close>

section \<open>Taking locks\<close>

definition locked :: "('k, 'v) cuckoohash_map \<Rightarrow> u64 \<Rightarrow> bool" where
  "locked t i \<longleftrightarrow> lock_ind i \<notin> unmigrated t"

abbreviation mig_inv :: "('k, 'v) cuckoohash_map \<Rightarrow> bool" where
  "mig_inv t \<equiv> mig_ok t \<and> counted t"

lemma same_tableD:
  assumes "same_table t t'"
  shows "hash_fn t' = hash_fn t" "hashpower t' = hashpower t" "alloc_hashpower t' = alloc_hashpower t"
    "maximum_hashpower t' = maximum_hashpower t" "locks_size t' = locks_size t" "vcells t' = vcells t"
    "mig_inv t \<Longrightarrow> mig_ok t'" "mig_inv t \<Longrightarrow> counted t'" "locked t i \<Longrightarrow> locked t' i"
    "size_of_map t' = size_of_map t"
  using assms unfolding same_table_def locked_def size_of_map_def by auto

lemma cells_locked: "locked t i \<Longrightarrow> cells (buckets t) i = vcells t i"
  by (simp add: locked_def vcells_def)

lemma lock_one_same: "mig_inv t \<Longrightarrow> same_table t (lock_one i t) \<and> locked (lock_one i t) i"
  using rehash_lock_same [of t "lock_ind i"] by (simp add: lock_one_def locked_def)

lemma rehash_lock_mono:
  "mig_inv t \<Longrightarrow> l \<notin> unmigrated t \<Longrightarrow> l \<notin> unmigrated (rehash_lock True m t)"
  using rehash_lock_same [of t m] by (auto simp: same_table_def)

lemma rehash_lock_inv: "mig_inv t \<Longrightarrow> mig_inv (rehash_lock True m t)"
  using rehash_lock_same [of t m] by (auto simp: same_table_def)

lemma rehash_two_same:
  assumes "mig_inv t" "t' = rehash_lock True m (rehash_lock True l t)"
  shows "same_table t t' \<and> l \<notin> unmigrated t' \<and> m \<notin> unmigrated t'"
proof -
  have 1: "same_table t (rehash_lock True l t)" "l \<notin> unmigrated (rehash_lock True l t)"
    "mig_inv (rehash_lock True l t)"
    using rehash_lock_same [of t l] rehash_lock_inv [of t l] assms(1) by auto
  have 2: "same_table (rehash_lock True l t) t'" "m \<notin> unmigrated t'"
    using rehash_lock_same [of "rehash_lock True l t" m] 1(3) unfolding assms(2) by auto
  show ?thesis
    using same_table_trans [OF 1(1) 2(1)] 2(2) rehash_lock_mono [OF 1(3,2), of m] unfolding assms(2) by blast
qed

lemma lock_two_same:
  assumes "mig_inv t"
  shows "same_table t (lock_two i1 i2 t) \<and> locked (lock_two i1 i2 t) i1 \<and> locked (lock_two i1 i2 t) i2"
  using rehash_two_same [OF assms refl] by (auto simp: lock_two_def locked_def Let_def)

lemma lock_three_same:
  assumes "mig_inv t"
  shows "same_table t (lock_three i1 i2 i3 t) \<and> locked (lock_three i1 i2 i3 t) i1 \<and>
    locked (lock_three i1 i2 i3 t) i2 \<and> locked (lock_three i1 i2 i3 t) i3"
proof -
  have three: "same_table t t' \<and> a \<notin> unmigrated t' \<and> b \<notin> unmigrated t' \<and> c \<notin> unmigrated t'"
    if "t' = rehash_lock True c (rehash_lock True b (rehash_lock True a t))" for a b c t'
  proof -
    have 1: "same_table t (rehash_lock True b (rehash_lock True a t))"
      "a \<notin> unmigrated (rehash_lock True b (rehash_lock True a t))"
      "b \<notin> unmigrated (rehash_lock True b (rehash_lock True a t))"
      using rehash_two_same [OF assms refl] by auto
    have inv: "mig_inv (rehash_lock True b (rehash_lock True a t))"
      using same_tableD(7,8) [OF 1(1) assms] by auto
    show ?thesis
      using rehash_lock_same [of "rehash_lock True b (rehash_lock True a t)" c] inv
        rehash_lock_mono [OF inv 1(2), of c] rehash_lock_mono [OF inv 1(3), of c]
        same_table_trans [OF 1(1)] that by blast
  qed
  show ?thesis
    unfolding lock_three_def locked_def Let_def
    using three by (auto split: prod.splits if_splits)
qed

section \<open>Walks through the table\<close>

fun walk :: "nat \<Rightarrow> ('k, 'v) table \<Rightarrow> u64 \<Rightarrow> nat list \<Rightarrow> u64 option" where
  "walk hp T b [] = Some b"
| "walk hp T b (s # ss) =
     (case entry_at T b s of
        None \<Rightarrow> None
      | Some e \<Rightarrow> walk hp T (alt_index hp (kv_partial e) b) ss)"

lemma walk_append: "walk hp T b (s @ r) = (case walk hp T b s of None \<Rightarrow> None | Some c \<Rightarrow> walk hp T c r)"
  by (induction s arbitrary: b) (auto split: option.splits)

lemma walk_prefix: "walk hp T b (s @ r) = Some c \<Longrightarrow> \<exists>d. walk hp T b s = Some d \<and> walk hp T d r = Some c"
  by (auto simp: walk_append split: option.splits)

definition pathcode :: "nat \<Rightarrow> nat list \<Rightarrow> nat" where
  "pathcode c ss = foldl (\<lambda>a s. a * 4 + s) c ss"

lemma pathcode_snoc [simp]: "pathcode c (ss @ [s]) = pathcode c ss * 4 + s"
  by (simp add: pathcode_def)

lemma pathcode_Nil [simp]: "pathcode c [] = c"
  by (simp add: pathcode_def)

lemma path_slots_pathcode:
  "set ss \<subseteq> {..<4} \<Longrightarrow> n = length ss \<Longrightarrow> path_slots n (pathcode c ss) acc = (ss @ acc, c)"
proof (induction ss arbitrary: n acc rule: rev_induct)
  case Nil
  then show ?case by simp
next
  case (snoc s ss)
  then show ?case by simp
qed

lemma slot_order_set: "set (slot_order pc) = {..<4}"
proof -
  have "pc mod 4 < 4" by simp
  then consider "pc mod 4 = 0" | "pc mod 4 = 1" | "pc mod 4 = 2" | "pc mod 4 = 3" by linarith
  moreover have "[0..<4] = [0, 1, 2, 3 :: nat]" by (simp add: upt_rec)
  ultimately show ?thesis
    by cases (auto simp: slot_order_def Let_def lessThan_nat_numeral)
qed

definition b_succ :: "nat \<Rightarrow> b_slot \<Rightarrow> ('k, 'v) bucket \<Rightarrow> nat \<Rightarrow> b_slot" where
  "b_succ hp x b s = \<lparr>bs_bucket = alt_index hp (kv_partial (the (b ! s))) (bs_bucket x),
     bs_pathcode = bs_pathcode x * 4 + s, bs_depth = bs_depth x + 1\<rparr>"

definition b_succs :: "nat \<Rightarrow> b_slot \<Rightarrow> ('k, 'v) bucket \<Rightarrow> nat list \<Rightarrow> b_slot list" where
  "b_succs hp x b slots = (if bs_depth x < MAX_BFS_PATH_LEN - 1 then map (b_succ hp x b) slots else [])"

lemma scan_slots_Inl:
  "scan_slots hp x b slots q = Inl pc \<Longrightarrow> \<exists>s \<in> set slots. b ! s = None \<and> pc = bs_pathcode x * 4 + s"
  by (induction slots arbitrary: q) (auto split: option.splits if_splits)

lemma scan_slots_Inr:
  "scan_slots hp x b slots q = Inr q' \<Longrightarrow>
   (\<forall>s \<in> set slots. b ! s \<noteq> None) \<and>
   q' = q @ b_succs hp x b slots"
  by (induction slots arbitrary: q) (fastforce simp: b_succs_def b_succ_def split: option.splits if_splits)+

lemma b_succs_iff: "y \<in> set (b_succs hp x b slots) \<longleftrightarrow> bs_depth x < 4 \<and> (\<exists>s \<in> set slots. y = b_succ hp x b s)"
proof (cases "bs_depth x < MAX_BFS_PATH_LEN - 1")
  case True
  then have "b_succs hp x b slots = map (b_succ hp x b) slots" by (simp add: b_succs_def)
  with True show ?thesis by (auto simp: MAX_BFS_PATH_LEN_def)
next
  case False
  then have "b_succs hp x b slots = []" by (simp add: b_succs_def)
  with False show ?thesis by (auto simp: MAX_BFS_PATH_LEN_def)
qed

section \<open>The breadth-first search\<close>

definition starts :: "u64 \<Rightarrow> u64 \<Rightarrow> nat \<Rightarrow> u64" where
  "starts i1 i2 c = (if c = 0 then i1 else i2)"

definition has_free :: "('k, 'v) table \<Rightarrow> u64 \<Rightarrow> bool" where
  "has_free T b \<longleftrightarrow> (\<exists>s < 4. entry_at T b s = None)"

text \<open>A node of the search: its slots lead from a start bucket to its bucket.\<close>

definition node_ok :: "nat \<Rightarrow> ('k, 'v) table \<Rightarrow> u64 \<Rightarrow> u64 \<Rightarrow> b_slot \<Rightarrow> bool" where
  "node_ok hp T i1 i2 x \<longleftrightarrow>
     bs_depth x \<le> 4 \<and>
     (\<exists>c ss. c \<le> 1 \<and> length ss = bs_depth x \<and> set ss \<subseteq> {..<4} \<and> bs_pathcode x = pathcode c ss \<and>
        walk hp T (starts i1 i2 c) ss = Some (bs_bucket x))"

text \<open>Every walk of at most four steps to a bucket with room goes through a node of the queue.\<close>

definition covers :: "nat \<Rightarrow> ('k, 'v) table \<Rightarrow> u64 \<Rightarrow> u64 \<Rightarrow> b_slot list \<Rightarrow> bool" where
  "covers hp T i1 i2 q \<longleftrightarrow>
     (\<forall>c ss b. length ss \<le> 4 \<longrightarrow> walk hp T (starts i1 i2 c) ss = Some b \<longrightarrow> has_free T b \<longrightarrow>
        (\<exists>x \<in> set q. bs_depth x \<le> length ss \<and>
           walk hp T (starts i1 i2 c) (take (bs_depth x) ss) = Some (bs_bucket x)))"

definition bfs_inv :: "nat \<Rightarrow> ('k, 'v) table \<Rightarrow> u64 \<Rightarrow> u64 \<Rightarrow> b_slot list \<Rightarrow> bool" where
  "bfs_inv hp T i1 i2 q \<longleftrightarrow>
     (\<forall>x \<in> set q. node_ok hp T i1 i2 x) \<and> sorted (map bs_depth q) \<and>
     (\<forall>x \<in> set q. bs_depth x \<le> Suc (bs_depth (hd q))) \<and> covers hp T i1 i2 q"

definition shortest :: "nat \<Rightarrow> ('k, 'v) table \<Rightarrow> u64 \<Rightarrow> u64 \<Rightarrow> nat \<Rightarrow> bool" where
  "shortest hp T i1 i2 n \<longleftrightarrow>
     (\<forall>c ss b. length ss < n \<longrightarrow> walk hp T (starts i1 i2 c) ss = Some b \<longrightarrow> \<not> has_free T b)"

definition found :: "nat \<Rightarrow> ('k, 'v) table \<Rightarrow> u64 \<Rightarrow> u64 \<Rightarrow> b_slot \<Rightarrow> bool" where
  "found hp T i1 i2 x \<longleftrightarrow>
     (\<exists>c ss s b. c \<le> 1 \<and> length ss = bs_depth x \<and> set (ss @ [s]) \<subseteq> {..<4} \<and>
        bs_pathcode x = pathcode c (ss @ [s]) \<and> walk hp T (starts i1 i2 c) ss = Some b \<and>
        entry_at T b s = None) \<and> shortest hp T i1 i2 (bs_depth x)"

lemma bfs_inv_init:
  "bfs_inv hp T i1 i2 [\<lparr>bs_bucket = i1, bs_pathcode = 0, bs_depth = 0\<rparr>,
                       \<lparr>bs_bucket = i2, bs_pathcode = 1, bs_depth = 0\<rparr>]"
proof -
  have "node_ok hp T i1 i2 \<lparr>bs_bucket = i1, bs_pathcode = 0, bs_depth = 0\<rparr>"
    "node_ok hp T i1 i2 \<lparr>bs_bucket = i2, bs_pathcode = 1, bs_depth = 0\<rparr>"
    unfolding node_ok_def by (auto simp: starts_def intro: exI [of _ 0] exI [of _ "1 :: nat"])
  then show ?thesis by (auto simp: bfs_inv_def covers_def starts_def)
qed

lemma bfs_shortest:
  assumes "bfs_inv hp T i1 i2 (x # q)" "bs_depth x \<le> 4"
  shows "shortest hp T i1 i2 (bs_depth x)"
proof -
  have "bs_depth x \<le> bs_depth y" if "y \<in> set (x # q)" for y
    using assms(1) that by (auto simp: bfs_inv_def)
  then have "\<not> bs_depth y < bs_depth x" if "y \<in> set (x # q)" for y
    using that by (meson not_le)
  then show ?thesis
    using assms unfolding shortest_def bfs_inv_def covers_def by (meson le_less_trans less_imp_le_nat less_le_trans)
qed

lemma not_has_free: "\<not> has_free T b \<Longrightarrow> s < 4 \<Longrightarrow> \<exists>e. entry_at T b s = Some e \<and> T b ! s = Some e"
  by (auto simp: has_free_def entry_at_def)

lemma node_ok_succ:
  assumes "node_ok hp T i1 i2 x" "bs_depth x < 4" "s < 4" "\<not> has_free T (bs_bucket x)"
  shows "node_ok hp T i1 i2 (b_succ hp x (T (bs_bucket x)) s)"
proof -
  from assms(1) obtain c ss where x: "c \<le> 1" "length ss = bs_depth x" "set ss \<subseteq> {..<4}"
    "bs_pathcode x = pathcode c ss" "walk hp T (starts i1 i2 c) ss = Some (bs_bucket x)"
    unfolding node_ok_def by blast
  obtain e where e: "entry_at T (bs_bucket x) s = Some e" "T (bs_bucket x) ! s = Some e"
    using not_has_free [OF assms(4,3)] by blast
  have "walk hp T (starts i1 i2 c) (ss @ [s]) = Some (alt_index hp (kv_partial e) (bs_bucket x))"
    using x(5) e by (simp add: walk_append)
  then show ?thesis
    unfolding node_ok_def b_succ_def using x assms(2,3) e
    by (intro conjI exI [of _ c] exI [of _ "ss @ [s]"]) auto
qed

lemma covers_step:
  assumes cov: "covers hp T i1 i2 (x # q)" and full: "\<not> has_free T (bs_bucket x)" and ord: "set slots = {..<4}"
  shows "covers hp T i1 i2 (q @ b_succs hp x (T (bs_bucket x)) slots)" (is "covers _ _ _ _ ?q")
  unfolding covers_def
proof (intro allI impI)
  fix c ss b
  let ?st = "starts i1 i2 c"
  assume ss: "length ss \<le> 4" "walk hp T ?st ss = Some b" "has_free T b"
  from cov ss obtain y where y: "y \<in> set (x # q)" "bs_depth y \<le> length ss"
    "walk hp T ?st (take (bs_depth y) ss) = Some (bs_bucket y)"
    unfolding covers_def by blast
  show "\<exists>x \<in> set ?q. bs_depth x \<le> length ss \<and> walk hp T ?st (take (bs_depth x) ss) = Some (bs_bucket x)"
  proof (cases "y \<in> set q")
    case True
    with y show ?thesis by (intro bexI [of _ y]) simp_all
  next
    case False
    with y have yx: "y = x" by simp
    have lt: "bs_depth x < length ss"
      using y yx ss full by (cases "bs_depth x = length ss") auto
    let ?s = "ss ! bs_depth x"
    have split: "take (Suc (bs_depth x)) ss = take (bs_depth x) ss @ [?s]"
      using lt by (simp add: take_Suc_conv_app_nth)
    have "walk hp T ?st (take (bs_depth x) ss @ [?s]) \<noteq> None"
      using walk_prefix [of hp T ?st "take (Suc (bs_depth x)) ss" "drop (Suc (bs_depth x)) ss" b] ss(2)
      by (auto simp flip: split)
    then obtain e where e: "entry_at T (bs_bucket x) ?s = Some e"
      using y(3) yx by (auto simp: walk_append split: option.splits)
    then have s4: "?s < 4" by (rule entry_at_slot)
    have the: "the (T (bs_bucket x) ! ?s) = e" using e s4 by (simp add: entry_at_def)
    let ?y = "b_succ hp x (T (bs_bucket x)) ?s"
    have "?y \<in> set ?q" using lt ss(1) s4 ord by (auto simp: b_succs_iff)
    moreover have "bs_depth ?y = Suc (bs_depth x)" by (simp add: b_succ_def)
    moreover have "walk hp T ?st (take (Suc (bs_depth x)) ss) = Some (bs_bucket ?y)"
      using split y(3) yx e the by (simp add: walk_append b_succ_def)
    ultimately show ?thesis using lt by (metis Suc_leI)
  qed
qed

lemma bfs_inv_step:
  assumes inv: "bfs_inv hp T i1 i2 (x # q)" and full: "\<not> has_free T (bs_bucket x)"
    and ord: "set slots = {..<4}"
  shows "bfs_inv hp T i1 i2 (q @ b_succs hp x (T (bs_bucket x)) slots)" (is "bfs_inv _ _ _ _ (q @ ?r)")
proof -
  have r: "bs_depth y = Suc (bs_depth x)" if "y \<in> set ?r" for y
    using that by (auto simp: b_succs_iff b_succ_def)
  have q: "bs_depth x \<le> bs_depth y" "bs_depth y \<le> Suc (bs_depth x)" if "y \<in> set q" for y
    using inv that by (auto simp: bfs_inv_def)
  have "map bs_depth ?r = replicate (length ?r) (Suc (bs_depth x))"
    using r by (intro nth_equalityI) (simp_all add: nth_mem)
  then have "sorted (map bs_depth ?r)" by simp
  then have "sorted (map bs_depth (q @ ?r))"
    using inv r q by (auto simp: bfs_inv_def sorted_append)
  moreover have "bs_depth y \<le> Suc (bs_depth (hd (q @ ?r)))" if "y \<in> set (q @ ?r)" for y
  proof -
    have "hd (q @ ?r) \<in> set (q @ ?r)" using that by (intro hd_in_set) auto
    then have "bs_depth x \<le> bs_depth (hd (q @ ?r))" using q r by fastforce
    moreover have "bs_depth y \<le> Suc (bs_depth x)" using that q r by fastforce
    ultimately show ?thesis by linarith
  qed
  moreover have "node_ok hp T i1 i2 y" if "y \<in> set (q @ ?r)" for y
    using that inv ord node_ok_succ [OF _ _ _ full] by (auto simp: bfs_inv_def b_succs_iff)
  ultimately show ?thesis
    using covers_step [OF _ full ord] inv unfolding bfs_inv_def by blast
qed

lemma slot_search_loop_found:
  assumes "mig_inv t" "tab_ok h hp' (vcells t)" "bfs_inv hp (vcells t) i1 i2 q"
    "slot_search_loop hp q t = (t', r)"
  shows "same_table t t' \<and> (\<forall>x. r = Some x \<longrightarrow> found hp (vcells t) i1 i2 x)"
  using assms
proof (induction hp q t rule: slot_search_loop.induct)
  case (1 hp t)
  then show ?case by simp
next
  case (2 hp x q t)
  let ?t = "lock_one (bs_bucket x) t" and ?T = "vcells t"
  let ?b = "cells (buckets ?t) (bs_bucket x)"
  have st: "same_table t ?t" "locked ?t (bs_bucket x)" using lock_one_same "2.prems"(1) by auto
  have b: "?b = ?T (bs_bucket x)" using cells_locked [OF st(2)] same_tableD(6) [OF st(1)] by simp
  have x: "node_ok hp ?T i1 i2 x" using "2.prems"(3) by (simp add: bfs_inv_def)
  show ?case
  proof (cases "scan_slots hp x ?b (slot_order (bs_pathcode x)) q")
    case (Inl pc)
    then obtain s where s: "s < 4" "?T (bs_bucket x) ! s = None" "pc = bs_pathcode x * 4 + s"
      using scan_slots_Inl [OF Inl] b by (auto simp: slot_order_set)
    have r: "t' = ?t" "r = Some (x\<lparr>bs_pathcode := pc\<rparr>)" using "2.prems"(4) Inl by (auto simp: Let_def)
    from x obtain c ss where c: "c \<le> 1" "length ss = bs_depth x" "set ss \<subseteq> {..<4}"
      "bs_pathcode x = pathcode c ss" "walk hp ?T (starts i1 i2 c) ss = Some (bs_bucket x)" "bs_depth x \<le> 4"
      unfolding node_ok_def by blast
    have "found hp ?T i1 i2 (x\<lparr>bs_pathcode := pc\<rparr>)"
      unfolding found_def using c s bfs_shortest [OF "2.prems"(3) c(6)]
      by (intro conjI exI [of _ c] exI [of _ ss] exI [of _ s] exI [of _ "bs_bucket x"]) (auto simp: entry_at_def)
    with r st show ?thesis by simp
  next
    case (Inr q')
    note q' = scan_slots_Inr [OF Inr, unfolded slot_order_set b]
    have full: "\<not> has_free ?T (bs_bucket x)" using q' by (auto simp: has_free_def entry_at_def)
    have "bfs_inv hp ?T i1 i2 q'"
      using bfs_inv_step [OF "2.prems"(3) full slot_order_set] q' by simp
    moreover have "slot_search_loop hp q' ?t = (t', r)" using "2.prems"(4) Inr by (simp add: Let_def)
    ultimately have "same_table ?t t' \<and> (\<forall>x. r = Some x \<longrightarrow> found hp (vcells ?t) i1 i2 x)"
      using "2.IH" [OF refl refl Inr] same_tableD [OF st(1)] "2.prems"(1,2) by simp
    with st(1) show ?thesis using same_table_trans same_tableD(6) [OF st(1)] by metis
  qed
qed

section \<open>The path that is moved along\<close>

definition path_inv :: "('k \<Rightarrow> u64) \<Rightarrow> nat \<Rightarrow> ('k, 'v) table \<Rightarrow> cuckoo_record list \<Rightarrow> bool" where
  "path_inv h hp T rs \<longleftrightarrow>
     rs \<noteq> [] \<and> cr_slot (last rs) < 4 \<and> entry_at T (cr_bucket (last rs)) (cr_slot (last rs)) = None \<and>
     (\<forall>j. Suc j < length rs \<longrightarrow>
        (\<exists>e. entry_at T (cr_bucket (rs ! j)) (cr_slot (rs ! j)) = Some e \<and> fst (cr_hv (rs ! j)) = h (kv_key e) \<and>
             cr_bucket (rs ! Suc j) = alt_index hp (kv_partial e) (cr_bucket (rs ! j)))) \<and>
     distinct (map (\<lambda>r. (cr_bucket r, cr_slot r)) rs)"

text \<open>The records that \<open>path_records\<close> reads along a walk.\<close>

lemma path_records_walk:
  assumes "mig_inv t" "tab_ok (hash_fn t) hp (vcells t)"
    "walk hp (vcells t) b ss = Some c" "s < 4" "entry_at (vcells t) c s = None"
    "path_records hp b (ss @ [s]) t = (t', rs)"
  shows "same_table t t' \<and> length rs = Suc (length ss) \<and>
    (\<forall>j < length ss. \<exists>e. entry_at (vcells t) (cr_bucket (rs ! j)) (ss ! j) = Some e \<and>
       fst (cr_hv (rs ! j)) = hash_fn t (kv_key e) \<and>
       cr_bucket (rs ! Suc j) = alt_index hp (kv_partial e) (cr_bucket (rs ! j))) \<and>
    (\<forall>j \<le> length ss. cr_slot (rs ! j) = (ss @ [s]) ! j \<and>
       walk hp (vcells t) b (take j ss) = Some (cr_bucket (rs ! j)))"
  using assms
proof (induction ss arbitrary: b t rs)
  case Nil
  let ?t = "lock_one b t"
  have st: "same_table t ?t" "locked ?t b" using lock_one_same Nil.prems(1) by auto
  have "cells (buckets ?t) b ! s = None"
    using Nil.prems cells_locked [OF st(2)] same_tableD(6) [OF st(1)] by (simp add: entry_at_def)
  with Nil.prems st show ?case by (auto simp: Let_def)
next
  case (Cons x ss)
  let ?t = "lock_one b t"
  have st: "same_table t ?t" "locked ?t b" using lock_one_same Cons.prems(1) by auto
  note sD = same_tableD [OF st(1)]
  from Cons.prems(3) obtain e where e: "entry_at (vcells t) b x = Some e"
    and rest: "walk hp (vcells t) (alt_index hp (kv_partial e) b) ss = Some c"
    by (auto split: option.splits)
  have p: "kv_partial e = partial_key (hash_fn t (kv_key e))" by (rule tab_okD(2) [OF Cons.prems(2) e])
  have b: "cells (buckets ?t) b ! x = Some e"
    using e entry_at_slot [OF e] cells_locked [OF st(2)] sD(6) by (simp add: entry_at_def)
  obtain rs' where rs: "path_records hp (alt_index hp (kv_partial e) b) (ss @ [s]) ?t = (t', rs')"
    "rs = \<lparr>cr_bucket = b, cr_slot = x, cr_hv = hashed_key t (kv_key e)\<rparr> # rs'"
    using Cons.prems(6) b p sD(1) by (auto simp: Let_def hashed_key_def split: prod.splits)
  have IH: "same_table ?t t' \<and> length rs' = Suc (length ss) \<and>
    (\<forall>j < length ss. \<exists>f. entry_at (vcells t) (cr_bucket (rs' ! j)) (ss ! j) = Some f \<and>
       fst (cr_hv (rs' ! j)) = hash_fn t (kv_key f) \<and>
       cr_bucket (rs' ! Suc j) = alt_index hp (kv_partial f) (cr_bucket (rs' ! j))) \<and>
    (\<forall>j \<le> length ss. cr_slot (rs' ! j) = (ss @ [s]) ! j \<and>
       walk hp (vcells t) (alt_index hp (kv_partial e) b) (take j ss) = Some (cr_bucket (rs' ! j)))"
    using Cons.IH [of ?t "alt_index hp (kv_partial e) b" rs'] Cons.prems rest rs(1) sD by simp
  have "cr_bucket (rs' ! 0) = alt_index hp (kv_partial e) b" using IH by (metis le0 take0 walk.simps(1) option.inject)
  then show ?case
    using IH same_table_trans [OF st(1)] e rs(2)
    by (auto simp: hashed_key_def nth_Cons' less_Suc_eq_0_disj le_Suc_eq take_Cons' split: nat.splits)
qed

text \<open>A shortest walk to a free slot repeats no slot.\<close>

lemma shortest_distinct:
  assumes sh: "shortest hp T i1 i2 (length ss)" and free: "has_free T b"
    and w: "walk hp T (starts i1 i2 c) ss = Some b"
    and bk: "\<And>j. j \<le> length ss \<Longrightarrow> walk hp T (starts i1 i2 c) (take j ss) = Some (bk j)"
    and ij: "i < j" "j < length ss" "bk i = bk j" "ss ! i = ss ! j"
  shows False
proof -
  let ?st = "starts i1 i2 c"
  let ?ss = "take (Suc i) ss @ drop (Suc j) ss"
  have step: "walk hp T (bk n) [ss ! n] = Some (bk (Suc n))" if "n < length ss" for n
    using bk [of n] bk [of "Suc n"] that by (simp add: take_Suc_conv_app_nth walk_append)
  have "bk (Suc i) = bk (Suc j)"
    using step [of i] step [of j] ij by simp
  moreover have "walk hp T ?st (take (Suc j) ss @ drop (Suc j) ss) = Some b" using w by simp
  ultimately have "walk hp T ?st ?ss = Some b"
    using bk [of "Suc i"] bk [of "Suc j"] ij by (simp only: walk_append)
  moreover have "length ?ss < length ss" using ij by simp
  ultimately show False using sh free unfolding shortest_def by blast
qed

lemma cuckoopath_search_path:
  assumes "mig_inv t" "tab_ok (hash_fn t) hp (vcells t)"
    and res: "cuckoopath_search hp i1 i2 t = (t', Some rs)"
  shows "same_table t t' \<and> path_inv (hash_fn t) hp (vcells t) rs \<and> cr_bucket (hd rs) \<in> {i1, i2}"
proof -
  let ?T = "vcells t"
  obtain t1 r where ss: "slot_search hp i1 i2 t = (t1, r)" by (cases "slot_search hp i1 i2 t")
  have 1: "same_table t t1" and fd: "\<And>x. r = Some x \<Longrightarrow> found hp ?T i1 i2 x"
    using slot_search_loop_found [OF assms(1,2) bfs_inv_init ss [unfolded slot_search_def]] by auto
  from res ss obtain x where x: "r = Some x" by (cases r) (auto simp: cuckoopath_search_def)
  from fd [OF x] obtain c ss s b where f: "c \<le> 1" "length ss = bs_depth x" "set (ss @ [s]) \<subseteq> {..<4}"
    "bs_pathcode x = pathcode c (ss @ [s])" "walk hp ?T (starts i1 i2 c) ss = Some b" "entry_at ?T b s = None"
    and sh: "shortest hp ?T i1 i2 (length ss)"
    unfolding found_def by metis
  have sl: "path_slots (bs_depth x + 1) (bs_pathcode x) [] = (ss @ [s], c)"
    using path_slots_pathcode [OF f(3) refl, of c "[]"] f(2,4) by simp
  note sD = same_tableD [OF 1]
  have pr: "path_records hp (starts i1 i2 c) (ss @ [s]) t1 = (t', rs)"
    using res ss x sl by (auto simp: cuckoopath_search_def starts_def Let_def simp del: path_slots.simps split: prod.splits)
  have P: "same_table t1 t' \<and> length rs = Suc (length ss) \<and>
    (\<forall>j < length ss. \<exists>e. entry_at ?T (cr_bucket (rs ! j)) (ss ! j) = Some e \<and>
       fst (cr_hv (rs ! j)) = hash_fn t (kv_key e) \<and>
       cr_bucket (rs ! Suc j) = alt_index hp (kv_partial e) (cr_bucket (rs ! j))) \<and>
    (\<forall>j \<le> length ss. cr_slot (rs ! j) = (ss @ [s]) ! j \<and>
       walk hp ?T (starts i1 i2 c) (take j ss) = Some (cr_bucket (rs ! j)))"
    using path_records_walk [of t1 hp "starts i1 i2 c" ss b s t' rs] assms f pr sD by simp
  then have len: "length rs = Suc (length ss)" and slot: "\<And>j. j \<le> length ss \<Longrightarrow> cr_slot (rs ! j) = (ss @ [s]) ! j"
    and bk: "\<And>j. j \<le> length ss \<Longrightarrow> walk hp ?T (starts i1 i2 c) (take j ss) = Some (cr_bucket (rs ! j))"
    and ent: "\<And>j. j < length ss \<Longrightarrow> \<exists>e. entry_at ?T (cr_bucket (rs ! j)) (ss ! j) = Some e \<and>
       fst (cr_hv (rs ! j)) = hash_fn t (kv_key e) \<and>
       cr_bucket (rs ! Suc j) = alt_index hp (kv_partial e) (cr_bucket (rs ! j))" by auto
  have last: "last rs = rs ! length ss" using len by (metis diff_Suc_1 last_conv_nth list.size(3) nat.distinct(1))
  have b: "cr_bucket (last rs) = b" "cr_slot (last rs) = s"
    using bk [of "length ss"] f(5) slot [of "length ss"] last by auto
  have free: "has_free ?T b" using f(3,6) by (auto simp: has_free_def)
  have ne: "(cr_bucket (rs ! i), cr_slot (rs ! i)) \<noteq> (cr_bucket (rs ! j), cr_slot (rs ! j))"
    if "i < j" "j \<le> length ss" for i j
  proof (cases "j = length ss")
    case True
    then show ?thesis using ent [of i] slot [of i] that b f(6) last by (auto simp: nth_append)
  next
    case False
    then show ?thesis
      using shortest_distinct [OF sh free f(5) bk that(1)] that slot [of i] slot [of j] by (auto simp: nth_append)
  qed
  have "distinct (map (\<lambda>r. (cr_bucket r, cr_slot r)) rs)"
    unfolding distinct_conv_nth using ne len by (auto simp: less_Suc_eq_le) (metis nat_neq_iff less_Suc_eq_le)+
  moreover have "cr_bucket (hd rs) = starts i1 i2 c"
    using bk [of 0] len by (cases rs) auto
  ultimately show ?thesis
    unfolding path_inv_def using same_table_trans [OF 1] P b f len ent slot
    by (auto simp: starts_def nth_append)
qed

lemma cuckoopath_search_same:
  assumes "mig_inv t" "tab_ok (hash_fn t) hp (vcells t)" "cuckoopath_search hp i1 i2 t = (t', None)"
  shows "same_table t t'"
proof -
  obtain t1 r where ss: "slot_search hp i1 i2 t = (t1, r)" by (cases "slot_search hp i1 i2 t")
  have "same_table t t1"
    using slot_search_loop_found [OF assms(1,2) bfs_inv_init ss [unfolded slot_search_def]] by auto
  with assms(3) ss show ?thesis
    by (cases r) (auto simp: cuckoopath_search_def Let_def simp del: path_slots.simps split: prod.splits)
qed

section \<open>Moving along the path\<close>

definition keeps :: "('k, 'v) cuckoohash_map \<Rightarrow> ('k, 'v) cuckoohash_map \<Rightarrow> bool" where
  "keeps t t' \<longleftrightarrow>
     hash_fn t' = hash_fn t \<and> hashpower t' = hashpower t \<and> alloc_hashpower t' = alloc_hashpower t \<and>
     maximum_hashpower t' = maximum_hashpower t \<and> locks_size t' = locks_size t \<and>
     (\<forall>l. elem_counter (locks t' l) = elem_counter (locks t l)) \<and>
     unmigrated t' \<subseteq> unmigrated t \<and> (mig_inv t \<longrightarrow> mig_inv t')"

lemma same_table_keeps: "same_table t t' \<longleftrightarrow> keeps t t' \<and> vcells t' = vcells t"
  unfolding same_table_def keeps_def by auto

lemma keeps_refl [simp]: "keeps t t"
  by (simp add: keeps_def)

lemma keeps_trans: "keeps t t' \<Longrightarrow> keeps t' t'' \<Longrightarrow> keeps t t''"
  unfolding keeps_def by auto

lemma keepsD:
  assumes "keeps t t'"
  shows "hash_fn t' = hash_fn t" "hashpower t' = hashpower t" "alloc_hashpower t' = alloc_hashpower t"
    "maximum_hashpower t' = maximum_hashpower t" "locks_size t' = locks_size t"
    "mig_inv t \<Longrightarrow> mig_inv t'" "locked t i \<Longrightarrow> locked t' i" "size_of_map t' = size_of_map t"
  using assms unfolding keeps_def locked_def size_of_map_def by auto

definition put_bucket :: "u64 \<Rightarrow> ('k, 'v) bucket \<Rightarrow> ('k, 'v) cuckoohash_map \<Rightarrow> ('k, 'v) cuckoohash_map" where
  "put_bucket i b t = t\<lparr>buckets := (buckets t)\<lparr>cells := (cells (buckets t))(i := b)\<rparr>\<rparr>"

lemma put_bucket_locked:
  assumes "locked t i"
  shows "keeps t (put_bucket i b t)" "vcells (put_bucket i b t) = (vcells t)(i := b)"
    "locked (put_bucket i b t) j \<longleftrightarrow> locked t j"
proof -
  have u: "unmigrated (put_bucket i b t) = unmigrated t" by (simp add: put_bucket_def unmigrated_def)
  have h: "hashpower (put_bucket i b t) = hashpower t" by (simp add: put_bucket_def hashpower_def)
  show "locked (put_bucket i b t) j \<longleftrightarrow> locked t j" by (simp add: locked_def u)
  show "vcells (put_bucket i b t) = (vcells t)(i := b)"
    using assms by (auto simp: fun_eq_iff vcells_def u h locked_def) (simp_all add: put_bucket_def)
  have "mig_ok t \<longrightarrow> mig_ok (put_bucket i b t)"
    using assms unfolding mig_ok_def u h locked_def by (auto simp: put_bucket_def)
  then show "keeps t (put_bucket i b t)"
    unfolding keeps_def u h counted_def by (simp add: put_bucket_def)
qed

lemma path_inv_step:
  assumes ok: "tab_ok h hp T" and P: "path_inv h hp T (ps @ [from, to])"
  shows "\<exists>e. entry_at T (cr_bucket from) (cr_slot from) = Some e \<and> fst (cr_hv from) = h (kv_key e) \<and>
    entry_at T (cr_bucket to) (cr_slot to) = None \<and> cr_slot to < 4 \<and>
    (let T' = upd (upd T (cr_bucket to) (cr_slot to) (Some e)) (cr_bucket from) (cr_slot from) None
     in tab_ok h hp T' \<and> tab_lookup T' = tab_lookup T \<and> path_inv h hp T' (ps @ [from]))"
proof -
  let ?rs = "ps @ [from, to]" and ?n = "length ps"
  from P have ent: "\<And>j. Suc j < length ?rs \<Longrightarrow>
        \<exists>e. entry_at T (cr_bucket (?rs ! j)) (cr_slot (?rs ! j)) = Some e \<and> fst (cr_hv (?rs ! j)) = h (kv_key e) \<and>
             cr_bucket (?rs ! Suc j) = alt_index hp (kv_partial e) (cr_bucket (?rs ! j))"
    and to: "entry_at T (cr_bucket to) (cr_slot to) = None" "cr_slot to < 4"
    and d: "distinct (map (\<lambda>r. (cr_bucket r, cr_slot r)) ?rs)"
    unfolding path_inv_def by auto
  obtain e where e: "entry_at T (cr_bucket from) (cr_slot from) = Some e" "fst (cr_hv from) = h (kv_key e)"
    "cr_bucket to = alt_index hp (kv_partial e) (cr_bucket from)"
    using ent [of ?n] by (auto simp: nth_append)
  let ?T1 = "upd T (cr_bucket to) (cr_slot to) (Some e)"
  let ?T' = "upd ?T1 (cr_bucket from) (cr_slot from) None"
  have s: "cr_slot from < 4" by (rule entry_at_slot [OF e(1)])
  have len: "length (T i) = 4" for i by (rule tab_okD(1) [OF ok])
  have at: "entry_at ?T' j r = (if j = cr_bucket from \<and> r = cr_slot from then None
      else if j = cr_bucket to \<and> r = cr_slot to then Some e else entry_at T j r)" for j r
    using entry_at_upd [of ?T1 "cr_bucket from" "cr_slot from"] entry_at_upd [of T "cr_bucket to" "cr_slot to"] len s to(2)
    by simp
  have "path_inv h hp ?T' (ps @ [from])"
    unfolding path_inv_def
  proof (intro conjI allI impI)
    fix j assume j: "Suc j < length (ps @ [from])"
    then have nth: "(ps @ [from]) ! j = ?rs ! j" "(ps @ [from]) ! Suc j = ?rs ! Suc j"
      by (auto simp: nth_append less_Suc_eq)
    have "(cr_bucket (?rs ! j), cr_slot (?rs ! j)) \<noteq> (cr_bucket from, cr_slot from)"
      "(cr_bucket (?rs ! j), cr_slot (?rs ! j)) \<noteq> (cr_bucket to, cr_slot to)"
      using d j nth_eq_iff_index_eq [OF d, of j ?n] nth_eq_iff_index_eq [OF d, of j "Suc ?n"]
      by (auto simp: nth_append)
    then have "entry_at ?T' (cr_bucket (?rs ! j)) (cr_slot (?rs ! j)) = entry_at T (cr_bucket (?rs ! j)) (cr_slot (?rs ! j))"
      unfolding at by auto
    then show "\<exists>e. entry_at ?T' (cr_bucket ((ps @ [from]) ! j)) (cr_slot ((ps @ [from]) ! j)) = Some e \<and>
        fst (cr_hv ((ps @ [from]) ! j)) = h (kv_key e) \<and>
        cr_bucket ((ps @ [from]) ! Suc j) = alt_index hp (kv_partial e) (cr_bucket ((ps @ [from]) ! j))"
      unfolding nth using ent [of j] j by simp
  qed (use d s in \<open>auto simp: at\<close>)
  with e to tab_ok_move [OF ok e(1) to e(3)] show ?thesis by (auto simp: Let_def)
qed

lemma kv_eta: "\<lparr>kv_partial = kv_partial e, kv_key = kv_key e, kv_mapped = kv_mapped e\<rparr> = e"
  by simp

lemma kv_swap_cells:
  assumes "locked t i" "locked t j"
  shows "t\<lparr>buckets := eraseKV (setKV (buckets t) i s (kv_partial e) (kv_key e) (kv_mapped e)) j r\<rparr> =
    put_bucket j ((upd (vcells t) i s (Some e) j)[r := None]) (put_bucket i ((vcells t i)[s := Some e]) t)"
  using cells_locked [OF assms(1)] cells_locked [OF assms(2)]
  by (simp add: put_bucket_def eraseKV_def setKV_def upd_def kv_eta)

lemma swap_step:
  assumes "locked t i" "locked t j"
    "t' = t\<lparr>buckets := eraseKV (setKV (buckets t) i s (kv_partial e) (kv_key e) (kv_mapped e)) j r\<rparr>"
  shows "keeps t t'" "vcells t' = upd (upd (vcells t) i s (Some e)) j r None"
proof -
  let ?t = "put_bucket i ((vcells t i)[s := Some e]) t"
  note 1 = put_bucket_locked [OF assms(1), of "(vcells t i)[s := Some e]"]
  have l: "locked ?t j" using 1(3) assms(2) by simp
  note 2 = put_bucket_locked [OF l, of "(upd (vcells t) i s (Some e) j)[r := None]"]
  note t' = assms(3) [unfolded kv_swap_cells [OF assms(1,2)]]
  show "keeps t t'" unfolding t' by (rule keeps_trans [OF 1(1) 2(1)])
  show "vcells t' = upd (upd (vcells t) i s (Some e)) j r None"
    unfolding t' 2(2) 1(2) by (simp add: upd_def)
qed

lemma move_along_path:
  assumes "mig_inv t" "tab_ok (hash_fn t) hp (vcells t)" "path_inv (hash_fn t) hp (vcells t) (rev xs)"
    "cr_bucket (last xs) \<in> {i1, i2}" "move_along i1 i2 xs t = (t', moved)"
  shows "moved \<and> keeps t t' \<and> tab_ok (hash_fn t) hp (vcells t') \<and> tab_lookup (vcells t') = tab_lookup (vcells t) \<and>
    entry_at (vcells t') (cr_bucket (last xs)) (cr_slot (last xs)) = None \<and> cr_slot (last xs) < 4 \<and>
    (2 \<le> length xs \<longrightarrow> locked t' i1 \<and> locked t' i2)"
  using assms
proof (induction i1 i2 xs t rule: move_along.induct)
  case (1 i1 i2 to "from" path t)
  let ?T = "vcells t"
  let ?t1 = "if path = [] then lock_three i1 i2 (cr_bucket to) t else lock_two (cr_bucket from) (cr_bucket to) t"
  have P: "path_inv (hash_fn t) hp ?T (rev path @ [from, to])" using "1.prems"(3) by simp
  obtain e where e: "entry_at ?T (cr_bucket from) (cr_slot from) = Some e" "fst (cr_hv from) = hash_fn t (kv_key e)"
    "entry_at ?T (cr_bucket to) (cr_slot to) = None" "cr_slot to < 4"
    and T': "let T' = upd (upd ?T (cr_bucket to) (cr_slot to) (Some e)) (cr_bucket from) (cr_slot from) None
     in tab_ok (hash_fn t) hp T' \<and> tab_lookup T' = tab_lookup ?T \<and> path_inv (hash_fn t) hp T' (rev path @ [from])"
    using path_inv_step [OF "1.prems"(2) P] by blast
  have "same_table t ?t1 \<and> locked ?t1 (cr_bucket from) \<and> locked ?t1 (cr_bucket to) \<and>
    (path = [] \<longrightarrow> locked ?t1 i1 \<and> locked ?t1 i2)"
    using lock_three_same [OF "1.prems"(1), of i1 i2 "cr_bucket to"]
      lock_two_same [OF "1.prems"(1), of "cr_bucket from" "cr_bucket to"] "1.prems"(4) by auto
  then have st: "same_table t ?t1" and lf: "locked ?t1 (cr_bucket from)" and lt: "locked ?t1 (cr_bucket to)"
    and l12: "path = [] \<longrightarrow> locked ?t1 i1 \<and> locked ?t1 i2" by auto
  note sD = same_tableD [OF st]
  have at: "cells (buckets ?t1) (cr_bucket to) ! cr_slot to = None"
    "cells (buckets ?t1) (cr_bucket from) ! cr_slot from = Some e"
    using cells_locked [OF lt] cells_locked [OF lf] e entry_at_slot [OF e(1)] sD(6)
    by (auto simp: entry_at_def)
  let ?t2 = "?t1\<lparr>buckets := eraseKV (setKV (buckets ?t1) (cr_bucket to) (cr_slot to) (kv_partial e) (kv_key e) (kv_mapped e))
     (cr_bucket from) (cr_slot from)\<rparr>"
  note sw = swap_step [OF lt lf refl, where e = e and s = "cr_slot to" and r = "cr_slot from"]
  have k: "keeps t ?t2" using st sw(1) keeps_trans unfolding same_table_keeps by blast
  have v: "vcells ?t2 = upd (upd ?T (cr_bucket to) (cr_slot to) (Some e)) (cr_bucket from) (cr_slot from) None"
    using sw(2) sD(6) by simp
  note kD = keepsD [OF k]
  have mv: "move_along i1 i2 (from # path) ?t2 = (t', moved)"
    using "1.prems"(5) at e(2) sD(1) by (simp add: Let_def)
  have IH: "moved \<and> keeps ?t2 t' \<and> tab_ok (hash_fn ?t2) hp (vcells t') \<and> tab_lookup (vcells t') = tab_lookup (vcells ?t2) \<and>
    entry_at (vcells t') (cr_bucket (last (from # path))) (cr_slot (last (from # path))) = None \<and>
    cr_slot (last (from # path)) < 4 \<and> (2 \<le> length (from # path) \<longrightarrow> locked t' i1 \<and> locked t' i2)"
    by (rule "1.IH" [OF refl refl at(1) at(2) _ refl refl _ _ _ _ mv])
      (use e(2) sD(1) kD v T' "1.prems"(1,4) in \<open>auto simp: Let_def\<close>)
  have "locked t' i1 \<and> locked t' i2"
  proof (cases "path = []")
    case True
    then have "locked ?t2 i1 \<and> locked ?t2 i2" using l12 by (simp add: locked_def unmigrated_def)
    moreover have "t' = ?t2" using mv True by simp
    ultimately show ?thesis by simp
  next
    case False
    then show ?thesis using IH by (cases path) auto
  qed
  then show ?case
    using IH keeps_trans [OF k] v T' kD by (auto simp: Let_def)
qed (auto simp: path_inv_def)

lemma cuckoopath_move_path:
  assumes "mig_inv t" "tab_ok (hash_fn t) hp (vcells t)" "path_inv (hash_fn t) hp (vcells t) rs"
    "cr_bucket (hd rs) \<in> {i1, i2}" "cuckoopath_move i1 i2 rs t = (t', moved)"
  shows "moved \<and> keeps t t' \<and> tab_ok (hash_fn t) hp (vcells t') \<and> tab_lookup (vcells t') = tab_lookup (vcells t) \<and>
    entry_at (vcells t') (cr_bucket (hd rs)) (cr_slot (hd rs)) = None \<and> cr_slot (hd rs) < 4 \<and>
    locked t' i1 \<and> locked t' i2"
proof (cases "\<exists>r. rs = [r]")
  case True
  then obtain r where r: "rs = [r]" by blast
  note lt = lock_two_same [OF assms(1), of i1 i2]
  have at: "entry_at (vcells t) (cr_bucket r) (cr_slot r) = None" "cr_slot r < 4"
    using assms(3) r by (auto simp: path_inv_def)
  have "cells (buckets (lock_two i1 i2 t)) (cr_bucket r) = vcells t (cr_bucket r)"
    using lt assms(4) r cells_locked same_tableD(6) by fastforce
  with assms(2,5) r lt at show ?thesis
    by (auto simp: cuckoopath_move_def Let_def occupied_def entry_at_def same_table_keeps)
next
  case False
  moreover have ne: "rs \<noteq> []" using assms(3) by (simp add: path_inv_def)
  ultimately obtain a b cs where rs: "rs = a # b # cs" by (metis neq_Nil_conv)
  have mv: "move_along i1 i2 (rev rs) t = (t', moved)" using assms(5) rs by (simp add: cuckoopath_move_def)
  have "last (rev rs) = hd rs" using ne by (simp add: last_rev)
  with move_along_path [of t hp "rev rs" i1 i2 t' moved] mv assms rs show ?thesis by simp
qed

text \<open>So the loop of \<^verbatim>\<open>run_cuckoo\<close> ends in its first round.\<close>

lemma run_cuckoo_returns:
  assumes "mig_inv t" "tab_ok (hash_fn t) (hashpower t) (vcells t)"
  shows "\<exists>t' r. run_cuckoo i1 i2 t = Some (t', r) \<and> keeps t t' \<and>
    tab_ok (hash_fn t) (hashpower t) (vcells t') \<and> tab_lookup (vcells t') = tab_lookup (vcells t) \<and>
    (\<forall>b s. r = Some (b, s) \<longrightarrow> b \<in> {i1, i2} \<and> s < 4 \<and> entry_at (vcells t') b s = None \<and>
       locked t' i1 \<and> locked t' i2)"
proof -
  obtain t1 p where cs: "cuckoopath_search (hashpower t) i1 i2 t = (t1, p)"
    by (cases "cuckoopath_search (hashpower t) i1 i2 t")
  show ?thesis
  proof (cases p)
    case None
    then show ?thesis
      using cuckoopath_search_same [OF assms] cs assms(2) run_cuckoo.simps [of i1 i2 t]
      by (auto simp: same_table_keeps)
  next
    case (Some rs)
    have P: "same_table t t1" "path_inv (hash_fn t) (hashpower t) (vcells t) rs" "cr_bucket (hd rs) \<in> {i1, i2}"
      using cuckoopath_search_path [OF assms] cs Some by auto
    note sD = same_tableD [OF P(1)]
    obtain t2 moved where mv: "cuckoopath_move i1 i2 rs t1 = (t2, moved)" by (cases "cuckoopath_move i1 i2 rs t1")
    have M: "moved \<and> keeps t1 t2 \<and> tab_ok (hash_fn t) (hashpower t) (vcells t2) \<and> tab_lookup (vcells t2) = tab_lookup (vcells t) \<and>
      entry_at (vcells t2) (cr_bucket (hd rs)) (cr_slot (hd rs)) = None \<and> cr_slot (hd rs) < 4 \<and> locked t2 i1 \<and> locked t2 i2"
      using cuckoopath_move_path [of t1 "hashpower t" rs i1 i2 t2 moved] mv P assms sD by simp
    then have "run_cuckoo i1 i2 t = Some (t2, Some (cr_bucket (hd rs), cr_slot (hd rs)))"
      using run_cuckoo.simps [of i1 i2 t] cs Some mv by simp
    then show ?thesis
      using M P keeps_trans [of t t1 t2] by (auto simp: same_table_keeps)
  qed
qed

end
