(* ===== verification/Cuckoo_Map.thy ===== *)
theory Cuckoo_Map
  imports Cuckoo_Path
begin

text \<open>
  The operations of the table as operations on a finite map: doubling keeps the map,
  insertion always returns (it places the key, or fails with an exception of the
  expansion), and \<^verbatim>\<open>find\<close>, \<^verbatim>\<open>insert_or_assign\<close> and \<^verbatim>\<open>erase\<close> meet the
  contract of the interface, of which the table is an instance.
\<close>

section \<open>Doubling\<close>

definition double_table :: "('k \<Rightarrow> u64) \<Rightarrow> nat \<Rightarrow> ('k, 'v) table \<Rightarrow> ('k, 'v) table" where
  "double_table h hp T i =
     (if take_bit (Suc hp) i = i then split_bucket h hp (T (take_bit hp i)) i else empty_bucket)"

lemma double_high:
  assumes "entry_at (double_table h hp T) i s = Some e" "bit i hp"
  shows "s < length (leaving (goes_up h hp (take_bit hp i)) (T (take_bit hp i))) \<and>
    leaving (goes_up h hp (take_bit hp i)) (T (take_bit hp i)) ! s = Some e"
  using assms entry_at_slot [OF assms(1)]
  by (auto simp: entry_at_def double_table_def split_bucket_def Let_def nth_append split: if_splits)

lemma double_entry:
  assumes ok: "tab_ok h hp T" and e: "entry_at (double_table h hp T) i s = Some e"
  shows "take_bit (Suc hp) i = i \<and> (goes_up h hp (take_bit hp i) e \<longleftrightarrow> bit i hp) \<and>
    (\<exists>r. entry_at T (take_bit hp i) r = Some e \<and> (\<not> bit i hp \<longrightarrow> r = s))"
proof -
  let ?b = "T (take_bit hp i)" and ?u = "goes_up h hp (take_bit hp i)"
  have s: "s < 4" by (rule entry_at_slot [OF e])
  have i: "take_bit (Suc hp) i = i" and b: "split_bucket h hp ?b i ! s = Some e"
    using e s by (auto simp: entry_at_def double_table_def split: if_splits)
  have len: "length ?b = 4" by (rule tab_okD(1) [OF ok])
  show ?thesis
  proof (cases "bit i hp")
    case True
    then have "s < length (leaving ?u ?b)" "leaving ?u ?b ! s = Some e"
      using double_high [OF e] by auto
    then obtain r where "r < 4" "?b ! r = Some e" "?u e" using leaving_nth [of s ?u ?b] len by auto
    with True i show ?thesis by (auto simp: entry_at_def)
  next
    case False
    then have "?b ! s = Some e \<and> \<not> ?u e"
      using b s len staying_nth [of s ?b ?u e] by (simp add: split_bucket_def Let_def)
    with False i s show ?thesis by (auto simp: entry_at_def)
  qed
qed

lemma double_entry_exists:
  assumes ok: "tab_ok h hp T" and hp: "hp < 64" and e: "entry_at T j r = Some e"
  shows "\<exists>i s. entry_at (double_table h hp T) i s = Some e"
proof -
  let ?u = "goes_up h hp j"
  have len: "length (T j) = 4" by (rule tab_okD(1) [OF ok])
  have r: "r < 4" "T j ! r = Some e" using e entry_at_slot [OF e] by (auto simp: entry_at_def)
  have j: "take_bit hp j = j" using tab_okD(3) [OF ok e] by auto
  show ?thesis
  proof (cases "?u e")
    case True
    then have "Some e \<in> set (leaving ?u (T j))" using r len unfolding set_leaving by (metis nth_mem)
    then obtain s where s: "s < length (leaving ?u (T j))" "leaving ?u (T j) ! s = Some e"
      by (auto simp: in_set_conv_nth)
    moreover have "s < 4" using s length_leaving [of ?u "T j"] len by simp
    ultimately have "entry_at (double_table h hp T) (j + push_bit hp 1) s = Some e"
      using add_exp_of_take_bit [OF j hp]
      by (simp add: entry_at_def double_table_def split_bucket_def Let_def nth_append)
    then show ?thesis by blast
  next
    case False
    have "take_bit (Suc hp) j = j" "\<not> bit j hp"
      using j by (metis min.absorb2 le_SucI le_refl take_bit_take_bit, metis bit_take_bit_iff less_irrefl)
    then have "entry_at (double_table h hp T) j r = Some e"
      using False r len j staying_nth [of r "T j" ?u e]
      by (simp add: entry_at_def double_table_def split_bucket_def Let_def)
    then show ?thesis by blast
  qed
qed

lemma double_position:
  assumes ok: "tab_ok h hp T" and e: "entry_at (double_table h hp T) i s = Some e"
  shows "i \<in> {idx1 (Suc hp) (h (kv_key e)), idx2 (Suc hp) (h (kv_key e))}"
proof -
  let ?hv = "h (kv_key e)" and ?j = "take_bit hp i"
  note D = double_entry [OF ok e]
  then have j: "?j = idx1 hp ?hv \<or> ?j = idx2 hp ?hv" using tab_okD(3) [OF ok] by blast
  have split: "idx1 (Suc hp) ?hv = idx1 hp ?hv + (if bit (idx1 (Suc hp) ?hv) hp then push_bit hp 1 else 0)"
    "idx2 (Suc hp) ?hv = idx2 hp ?hv + (if bit (idx2 (Suc hp) ?hv) hp then push_bit hp 1 else 0)"
    "i = ?j + (if bit i hp then push_bit hp 1 else 0)"
    using take_bit_Suc_cases [of hp "idx1 (Suc hp) ?hv"] take_bit_Suc_cases [of hp "idx2 (Suc hp) ?hv"]
      take_bit_Suc_cases [of hp i] D by (simp_all add: idx_old)
  show ?thesis
  proof (cases "bit i hp")
    case True
    then show ?thesis using D split(3) by (auto simp: goes_up_def Let_def)
  next
    case False
    then have "\<not> goes_up h hp ?j e" "i = ?j" using D split(3) by auto
    then show ?thesis using j split(1,2) by (auto simp: goes_up_def Let_def split: if_splits)
  qed
qed

lemma double_unique:
  assumes ok: "tab_ok h hp T" and e: "entry_at (double_table h hp T) i s = Some e"
    and f: "entry_at (double_table h hp T) j r = Some f" and k: "kv_key e = kv_key f"
  shows "i = j \<and> s = r"
proof -
  note D = double_entry [OF ok e] and F = double_entry [OF ok f]
  then obtain p q where p: "entry_at T (take_bit hp i) p = Some e" "\<not> bit i hp \<longrightarrow> p = s"
    and q: "entry_at T (take_bit hp j) q = Some f" "\<not> bit j hp \<longrightarrow> q = r" by blast
  have pq: "take_bit hp i = take_bit hp j" "p = q" using tab_okD(4) [OF ok p(1) q(1) k] by auto
  then have "e = f" using p q by simp
  have "goes_up h hp (take_bit hp i) e \<longleftrightarrow> bit i hp" "goes_up h hp (take_bit hp j) f \<longleftrightarrow> bit j hp"
    using D F by blast+
  then have bit: "bit i hp \<longleftrightarrow> bit j hp" unfolding \<open>e = f\<close> pq(1) by blast
  have "take_bit (Suc hp) i = i" "take_bit (Suc hp) j = j" using D F by auto
  note take_bit_Suc_cases [OF this(1), unfolded pq(1) bit] take_bit_Suc_cases [OF this(2)]
  then have ij: "i = j" by (rule trans [OF _ sym])
  have "s = r"
  proof (cases "bit i hp")
    case False
    then show ?thesis using p q pq bit by simp
  next
    case True
    let ?b = "T (take_bit hp i)" and ?u = "goes_up h hp (take_bit hp i)"
    have inj: "m = n" if "m < length ?b" "n < length ?b" "?b ! m = Some x" "?b ! n = Some y" "kv_key x = kv_key y" for m n x y
      using tab_okD(4) [OF ok, of "take_bit hp i" m x "take_bit hp i" n y] that tab_okD(1) [OF ok, of "take_bit hp i"]
      by (simp add: entry_at_def)
    have "s < length (leaving ?u ?b) \<and> leaving ?u ?b ! s = Some e"
      "r < length (leaving ?u ?b) \<and> leaving ?u ?b ! r = Some f"
      using double_high [OF e True] double_high [OF f [folded ij] True] by auto
    then show ?thesis
      using leaving_distinct [of ?b kv_key s ?u r e f, OF inj] k by simp
  qed
  with ij show ?thesis by simp
qed

lemma double_table_ok:
  assumes ok: "tab_ok h hp T" and hp: "hp < 64"
  shows "tab_ok h (Suc hp) (double_table h hp T)" "tab_lookup (double_table h hp T) = tab_lookup T"
proof -
  show "tab_ok h (Suc hp) (double_table h hp T)"
    unfolding tab_ok_def
  proof (intro conjI allI impI)
    show "length (double_table h hp T i) = slot_per_bucket" for i
      using tab_okD(1) [OF ok] by (simp add: double_table_def)
    show "kv_partial e = partial_key (h (kv_key e))" if "entry_at (double_table h hp T) i s = Some e" for i s e
      using double_entry [OF ok that] tab_okD(2) [OF ok] by blast
    show "i \<in> {idx1 (Suc hp) (h (kv_key e)), idx2 (Suc hp) (h (kv_key e))}"
      if "entry_at (double_table h hp T) i s = Some e" for i s e
      by (rule double_position [OF ok that])
    show "i = j" "s = r" if "entry_at (double_table h hp T) i s = Some e"
      "entry_at (double_table h hp T) j r = Some f" "kv_key e = kv_key f" for i s e j r f
      using double_unique [OF ok that] by auto
  qed
  have "has_kv (double_table h hp T) k v \<longleftrightarrow> has_kv T k v" for k v
  proof
    assume "has_kv (double_table h hp T) k v"
    then obtain i s e where "entry_at (double_table h hp T) i s = Some e" "kv_key e = k" "kv_mapped e = v"
      unfolding has_kv_def by blast
    moreover from double_entry [OF ok this(1)] obtain r where "entry_at T (take_bit hp i) r = Some e" by blast
    ultimately show "has_kv T k v" unfolding has_kv_def by blast
  next
    assume "has_kv T k v"
    then obtain i s e where "entry_at T i s = Some e" "kv_key e = k" "kv_mapped e = v"
      unfolding has_kv_def by blast
    with double_entry_exists [OF ok hp this(1)] show "has_kv (double_table h hp T) k v"
      unfolding has_kv_def by blast
  qed
  then show "tab_lookup (double_table h hp T) = tab_lookup T"
    by (intro ext tab_lookup_cong)
qed

text \<open>Forced migration of every lock, as the first step of an expansion.\<close>

lemma rehash_lock_forced:
  assumes "mig_ok t"
  shows "mig_ok (rehash_lock False l t) \<and> vcells (rehash_lock False l t) = vcells t \<and>
    unmigrated (rehash_lock False l t) = unmigrated t - {l} \<and> hash_fn (rehash_lock False l t) = hash_fn t \<and>
    hashpower (rehash_lock False l t) = hashpower t \<and> alloc_hashpower (rehash_lock False l t) = alloc_hashpower t \<and>
    maximum_hashpower (rehash_lock False l t) = maximum_hashpower t \<and> locks_size (rehash_lock False l t) = locks_size t \<and>
    (\<forall>i. elem_counter (locks (rehash_lock False l t) i) = elem_counter (locks t i))"
proof (cases "l \<in> unmigrated t")
  case True
  show ?thesis
    unfolding rehash_lock_migrate [OF assms True]
    using mig_ok_migrate [OF assms True] by (simp add: vcells_migrate)
next
  case False
  then show ?thesis using assms by (simp add: rehash_lock_idle)
qed

lemma rehash_locks_forced:
  assumes "mig_ok t"
  shows "mig_ok (rehash_locks n t) \<and> vcells (rehash_locks n t) = vcells t \<and>
    unmigrated (rehash_locks n t) = unmigrated t - of_nat ` {..<n} \<and> hash_fn (rehash_locks n t) = hash_fn t \<and>
    hashpower (rehash_locks n t) = hashpower t \<and> alloc_hashpower (rehash_locks n t) = alloc_hashpower t \<and>
    maximum_hashpower (rehash_locks n t) = maximum_hashpower t \<and> locks_size (rehash_locks n t) = locks_size t \<and>
    (\<forall>i. elem_counter (locks (rehash_locks n t) i) = elem_counter (locks t i))"
proof (induction n)
  case 0
  then show ?case using assms by simp
next
  case (Suc n)
  then show ?case
    using rehash_lock_forced [of "rehash_locks n t" "of_nat n"] by (auto simp: lessThan_Suc)
qed

lemma rehash_locks_all:
  assumes "mig_ok t"
  shows "unmigrated (rehash_locks (locks_size t) t) = {}"
proof (cases "unmigrated t = {}")
  case True
  then show ?thesis using rehash_locks_forced [OF assms] by simp
next
  case False
  with assms have hp: "17 \<le> hashpower t" and sub: "unmigrated t \<subseteq> {l. take_bit 16 l = l}"
    and ls: "locks_size t = min (2 ^ hashpower t) kMaxNumLocks" unfolding mig_ok_def by auto
  have "(2 :: nat) ^ 16 \<le> 2 ^ hashpower t" using hp by (intro power_increasing) auto
  then have ls: "locks_size t = 2 ^ 16" using ls by (simp add: kMaxNumLocks_def)
  have "l \<in> of_nat ` {..<locks_size t}" if "take_bit 16 l = l" for l :: u64
  proof
    show "l = of_nat (unat l)" by simp
    show "unat l \<in> {..<locks_size t}" using unat_take_bit_less [of 16 l] that ls by simp
  qed
  then show ?thesis using rehash_locks_forced [OF assms] sub by blast
qed

lemma maybe_resize_locks_simps [simp]:
  "hash_fn (maybe_resize_locks n t) = hash_fn t" "buckets (maybe_resize_locks n t) = buckets t"
  "old_buckets (maybe_resize_locks n t) = old_buckets t" "alloc_hashpower (maybe_resize_locks n t) = alloc_hashpower t"
  "maximum_hashpower (maybe_resize_locks n t) = maximum_hashpower t"
  by (simp_all add: maybe_resize_locks_def)

lemma maybe_resize_locks_unmigrated: "unmigrated t = {} \<Longrightarrow> unmigrated (maybe_resize_locks n t) = {}"
  by (auto simp: maybe_resize_locks_def unmigrated_def fresh_lock_def)

lemma maybe_resize_locks_size:
  assumes "locks_size t = min (2 ^ hp) kMaxNumLocks"
  shows "locks_size (maybe_resize_locks (2 ^ Suc hp) t) = min (2 ^ Suc hp) kMaxNumLocks"
  using assms by (auto simp: maybe_resize_locks_def)

lemma sum_list_upt_append:
  "m \<le> n \<Longrightarrow> (\<Sum>l \<leftarrow> [0..<n]. f l) = (\<Sum>l \<leftarrow> [0..<m]. f l) + (\<Sum>l \<leftarrow> [m..<n]. f l :: int)"
  by (metis le0 le_Suc_ex map_append sum_list_append upt_add_eq_append)

lemma size_maybe_resize_locks:
  assumes "locks_size t \<le> kMaxNumLocks"
  shows "size_of_map (maybe_resize_locks n t) = size_of_map t"
proof (cases "locks_size t < kMaxNumLocks \<and> locks_size t < n")
  case True
  let ?m = "locks_size t" and ?t = "maybe_resize_locks n t"
  have un: "unat (of_nat l :: u64) = l" if "l < kMaxNumLocks" for l
    using that by (simp add: unat_of_nat kMaxNumLocks_def)
  have ls: "locks_size ?t = min kMaxNumLocks n" using True by (simp add: maybe_resize_locks_def)
  have lo: "elem_counter (locks ?t (of_nat l)) = elem_counter (locks t (of_nat l))" if "l < ?m" for l
    using True that un [of l] by (simp add: maybe_resize_locks_def)
  have hi: "elem_counter (locks ?t (of_nat l)) = 0" if "?m \<le> l" "l < locks_size ?t" for l
    using True that un [of l] ls by (simp add: maybe_resize_locks_def fresh_lock_def)
  have "(\<Sum>l \<leftarrow> [?m..<locks_size ?t]. elem_counter (locks ?t (of_nat l))) = (\<Sum>l \<leftarrow> [?m..<locks_size ?t]. 0)"
    by (rule arg_cong [where f = sum_list], rule map_cong) (use hi in auto)
  moreover have "(\<Sum>l \<leftarrow> [0..<?m]. elem_counter (locks ?t (of_nat l))) = (\<Sum>l \<leftarrow> [0..<?m]. elem_counter (locks t (of_nat l)))"
    by (rule arg_cong [where f = sum_list], rule map_cong) (use lo in auto)
  moreover have "?m \<le> locks_size ?t" using True ls by simp
  ultimately show ?thesis
    unfolding size_of_map_def by (simp add: sum_list_upt_append)
next
  case False
  then show ?thesis unfolding maybe_resize_locks_def by (simp only: if_False)
qed

text \<open>The table right before the new bucket array is installed: every lock migrated and resized.\<close>

definition ready_to_double :: "('k, 'v) cuckoohash_map \<Rightarrow> ('k, 'v) cuckoohash_map" where
  "ready_to_double t =
     maybe_resize_locks (2 ^ Suc (hashpower t)) (set_num_remaining 0 (rehash_locks (locks_size t) t))"

lemma ready_to_double:
  assumes ok: "mig_ok t"
  defines "t2 \<equiv> ready_to_double t"
  shows "cells (buckets t2) = vcells t" "bc_hashpower (buckets t2) = hashpower t" "unmigrated t2 = {}"
    "hash_fn t2 = hash_fn t" "alloc_hashpower t2 = alloc_hashpower t" "maximum_hashpower t2 = maximum_hashpower t"
    "locks_size t2 = min (2 ^ Suc (hashpower t)) kMaxNumLocks" "size_of_map t2 = size_of_map t"
proof -
  let ?r = "rehash_locks (locks_size t) t"
  let ?t1 = "set_num_remaining 0 ?r"
  note F = rehash_locks_forced [OF ok, of "locks_size t"]
  have u: "unmigrated ?r = {}" by (rule rehash_locks_all [OF ok])
  have t1: "?t1 = ?r\<lparr>old_buckets := clear_and_deallocate (old_buckets ?r), num_remaining_lazy_rehash_locks := 0\<rparr>"
    by (simp add: set_num_remaining_def Let_def)
  have u1: "unmigrated ?t1 = {}" using u unfolding t1 by (simp add: unmigrated_def)
  have "vcells ?r = cells (buckets ?r)" using u by (simp add: fun_eq_iff vcells_def)
  then show "cells (buckets t2) = vcells t" using F unfolding t2_def ready_to_double_def t1 by simp
  show "bc_hashpower (buckets t2) = hashpower t" using F unfolding t2_def ready_to_double_def t1
    by (simp add: hashpower_def)
  show "unmigrated t2 = {}" unfolding t2_def ready_to_double_def by (rule maybe_resize_locks_unmigrated [OF u1])
  show "hash_fn t2 = hash_fn t" "alloc_hashpower t2 = alloc_hashpower t" "maximum_hashpower t2 = maximum_hashpower t"
    using F unfolding t2_def ready_to_double_def t1 by simp_all
  have ls: "locks_size ?t1 = min (2 ^ hashpower t) kMaxNumLocks" using F ok unfolding t1 by (simp add: mig_ok_def)
  show "locks_size t2 = min (2 ^ Suc (hashpower t)) kMaxNumLocks"
    unfolding t2_def ready_to_double_def by (rule maybe_resize_locks_size [OF ls])
  have "size_of_map ?t1 = size_of_map t" using F unfolding t1 size_of_map_def by simp
  moreover have "locks_size ?t1 \<le> kMaxNumLocks" using ls by simp
  ultimately show "size_of_map t2 = size_of_map t"
    unfolding t2_def ready_to_double_def by (simp only: size_maybe_resize_locks)
qed

lemma cuckoo_fast_double_result:
  assumes "cuckoo_fast_double hp t = Inr t'" "hp = hashpower t"
  shows "Suc hp \<le> alloc_hashpower t \<and>
    t' = (let t2 = ready_to_double t; old = buckets t2;
              t3 = t2\<lparr>old_buckets := old, buckets := new_buckets (Suc hp)\<rparr>
          in if buckets_size old < kMaxNumLocks
             then set_num_remaining 0 (t3\<lparr>buckets := move_buckets (hash_fn t) old (buckets_size old) (buckets t3)\<rparr>)
             else set_num_remaining (locks_size t3)
               (t3\<lparr>locks := (\<lambda>l. if unat l < locks_size t3 then (locks t3 l)\<lparr>is_migrated := False\<rparr> else locks t3 l)\<rparr>))"
  using assms by (auto simp: cuckoo_fast_double_def Let_def ready_to_double_def split: option.splits if_splits)

lemma cuckoo_fast_double_error:
  "cuckoo_fast_double hp t = Inl e \<Longrightarrow> e \<noteq> No_return"
  by (auto simp: cuckoo_fast_double_def check_resize_validity_def Let_def split: option.splits if_splits)

definition doubled :: "('k, 'v) cuckoohash_map \<Rightarrow> ('k, 'v) cuckoohash_map \<Rightarrow> bool" where
  "doubled t t' \<longleftrightarrow>
     mig_inv t' \<and> hash_fn t' = hash_fn t \<and> hashpower t' = Suc (hashpower t) \<and>
     alloc_hashpower t' = alloc_hashpower t \<and> maximum_hashpower t' = maximum_hashpower t \<and>
     size_of_map t' = size_of_map t \<and> vcells t' = double_table (hash_fn t) (hashpower t) (vcells t)"

lemma double_small:
  assumes ok: "mig_ok t" and hp: "Suc (hashpower t) \<le> alloc_hashpower t"
    and len: "\<And>i. length (vcells t i) = 4"
  defines "t2 \<equiv> ready_to_double t"
  defines "old \<equiv> buckets t2"
  defines "new \<equiv> new_buckets (Suc (hashpower t)) :: ('k, 'v) buckets_t"
  shows "doubled t (set_num_remaining 0 (t2\<lparr>old_buckets := old,
    buckets := move_buckets (hash_fn t) old (buckets_size old) new\<rparr>))"
proof -
  note R = ready_to_double [OF ok, folded t2_def]
  have a: "hashpower t < 63" using hp ok by (simp add: mig_ok_def)
  have o: "bc_hashpower old = hashpower t" "cells old = vcells t" using R by (auto simp: old_def)
  have n: "bc_hashpower new = Suc (hashpower t)" "\<And>i. cells new i = empty_bucket"
    by (auto simp: new_def new_buckets_def)
  have mv: "move_buckets (hash_fn t) old (buckets_size old) new =
    new\<lparr>cells := double_table (hash_fn t) (hashpower t) (vcells t)\<rparr>"
  proof -
    have "move_buckets (hash_fn t) old (buckets_size old) new =
      new\<lparr>cells := (\<lambda>i. if take_bit (bc_hashpower new) i = i \<and> unat (take_bit (bc_hashpower old) i) < buckets_size old
                       then split_bucket (hash_fn t) (bc_hashpower old) (cells old (take_bit (bc_hashpower old) i)) i
                       else cells new i)\<rparr>"
      by (rule move_buckets_cells) (use n o a len in auto)
    also have "\<dots> = new\<lparr>cells := double_table (hash_fn t) (hashpower t) (vcells t)\<rparr>"
      by (intro buckets_t.equality ext)
        (simp_all add: n o buckets_size_def unat_take_bit_less double_table_def)
    finally show ?thesis .
  qed
  let ?t' = "set_num_remaining 0 (t2\<lparr>old_buckets := old, buckets := move_buckets (hash_fn t) old (buckets_size old) new\<rparr>)"
  have t': "?t' = t2\<lparr>old_buckets := clear_and_deallocate old,
      buckets := new\<lparr>cells := double_table (hash_fn t) (hashpower t) (vcells t)\<rparr>, num_remaining_lazy_rehash_locks := 0\<rparr>"
    by (simp add: set_num_remaining_def Let_def mv)
  have u: "unmigrated ?t' = {}" using R(3) unfolding t' by (simp add: unmigrated_def)
  have h: "hashpower ?t' = Suc (hashpower t)" unfolding t' by (simp add: hashpower_def n)
  have "vcells ?t' = double_table (hash_fn t) (hashpower t) (vcells t)"
    using u by (simp add: fun_eq_iff vcells_def) (simp add: t')
  moreover have "size_of_map ?t' = size_of_map t" using R(8) unfolding t' size_of_map_def by simp
  moreover have "mig_ok ?t'"
    unfolding mig_ok_def u h using R hp ok unfolding t' by (simp add: clear_and_deallocate_def mig_ok_def)
  moreover have "counted ?t'" unfolding counted_def u unfolding t' by simp
  ultimately show ?thesis using R h unfolding doubled_def t' by simp
qed

lemma card_unat_less:
  assumes "n \<le> 2 ^ 64"
  shows "card {l :: u64. unat l < n} = n"
proof -
  have "{l :: u64. unat l < n} = of_nat ` {..<n}"
  proof (intro equalityI subsetI)
    fix l :: u64
    assume "l \<in> {l. unat l < n}"
    then show "l \<in> of_nat ` {..<n}" by (intro image_eqI [of _ _ "unat l"]) auto
  next
    fix l :: u64
    assume "l \<in> of_nat ` {..<n}"
    then show "l \<in> {l. unat l < n}" using assms by (auto simp: unat_of_nat)
  qed
  moreover have "inj_on (of_nat :: nat \<Rightarrow> u64) {..<n}"
  proof (rule inj_onI)
    fix x y
    assume "x \<in> {..<n}" "y \<in> {..<n}" "(of_nat x :: u64) = of_nat y"
    then have "unat (of_nat x :: u64) = unat (of_nat y :: u64)" "x < 2 ^ 64" "y < 2 ^ 64" using assms by auto
    then show "x = y" by (simp add: unat_of_nat)
  qed
  ultimately show ?thesis by (simp add: card_image)
qed

lemma take_bit_eq_self_iff_unat: "take_bit n (l :: u64) = l \<longleftrightarrow> unat l < 2 ^ n"
  by (metis take_bit_nat_eq_self_iff unsigned_take_bit_eq unsigned_word_eqI)

lemma double_large:
  assumes ok: "mig_ok t" and hp: "Suc (hashpower t) \<le> alloc_hashpower t"
    and len: "\<And>i. length (vcells t i) = 4" and large: "kMaxNumLocks \<le> 2 ^ hashpower t"
  defines "t2 \<equiv> ready_to_double t"
  defines "t3 \<equiv> t2\<lparr>old_buckets := buckets t2, buckets := new_buckets (Suc (hashpower t))\<rparr>"
  shows "doubled t (set_num_remaining (locks_size t3)
    (t3\<lparr>locks := (\<lambda>l. if unat l < locks_size t3 then (locks t3 l)\<lparr>is_migrated := False\<rparr> else locks t3 l)\<rparr>))"
proof -
  note R = ready_to_double [OF ok, folded t2_def]
  let ?K = "2 ^ 16 :: nat"
  have ls: "locks_size t2 = ?K" using R(7) large by (simp add: kMaxNumLocks_def)
  have hp16: "16 \<le> hashpower t"
    using large unfolding kMaxNumLocks_def by (rule power_le_imp_le_exp [rotated]) simp
  let ?t' = "set_num_remaining (locks_size t3)
    (t3\<lparr>locks := (\<lambda>l. if unat l < locks_size t3 then (locks t3 l)\<lparr>is_migrated := False\<rparr> else locks t3 l)\<rparr>)"
  have t': "?t' = t2\<lparr>old_buckets := buckets t2, buckets := new_buckets (Suc (hashpower t)),
     locks := (\<lambda>l. if unat l < ?K then (locks t2 l)\<lparr>is_migrated := False\<rparr> else locks t2 l),
     num_remaining_lazy_rehash_locks := ?K\<rparr>"
    unfolding t3_def using ls by (simp add: set_num_remaining_def Let_def cong: if_cong)
  have mt2: "is_migrated (locks t2 l)" for l using R(3) by (auto simp: unmigrated_def)
  have u: "unmigrated ?t' = {l. unat l < ?K}" unfolding t' using mt2 by (auto simp: unmigrated_def split: if_splits)
  have h: "hashpower ?t' = Suc (hashpower t)" unfolding t' by (simp add: hashpower_def new_buckets_def)
  have lk: "lock_ind i \<in> unmigrated ?t'" for i unfolding u lock_ind_take_bit using unat_take_bit_less [of 16 i] by simp
  have v: "vcells ?t' = double_table (hash_fn t) (hashpower t) (vcells t)"
  proof
    fix i
    have "vcells ?t' i = (if take_bit (Suc (hashpower t)) i = i
      then split_bucket (hash_fn ?t') (bc_hashpower (old_buckets ?t'))
             (cells (old_buckets ?t') (take_bit (bc_hashpower (old_buckets ?t')) i)) i
      else cells (buckets ?t') i)"
      unfolding vcells_def [of ?t' i] h using lk [of i] by simp
    then show "vcells ?t' i = double_table (hash_fn t) (hashpower t) (vcells t) i"
      unfolding t' double_table_def using R by (simp add: new_buckets_def)
  qed
  have card: "card (unmigrated ?t') = ?K" unfolding u by (rule card_unat_less) simp
  have tb: "unmigrated ?t' \<subseteq> {l. take_bit 16 l = l}"
    unfolding u by (auto simp: take_bit_eq_self_iff_unat)
  have "size_of_map ?t' = size_of_map t"
    using R(8) unfolding size_of_map_def t' by (simp add: if_distrib cong: if_cong)
  moreover have "mig_ok ?t'"
    unfolding mig_ok_def h using tb R hp ok hp16 len unfolding t' by (simp add: new_buckets_def mig_ok_def)
  moreover have "counted ?t'" unfolding counted_def card unfolding t' by simp
  ultimately show ?thesis using R h v unfolding doubled_def t' by simp
qed

lemma cuckoo_fast_double_doubled:
  assumes "mig_ok t" "tab_ok h hp (vcells t)" "cuckoo_fast_double (hashpower t) t = Inr t'"
  shows "doubled t t' \<and> Suc (hashpower t) \<le> alloc_hashpower t"
proof -
  note R = cuckoo_fast_double_result [OF assms(3) refl]
  have hp: "Suc (hashpower t) \<le> alloc_hashpower t" using R by blast
  have len: "length (vcells t i) = 4" for i by (rule tab_okD(1) [OF assms(2)])
  have sz: "buckets_size (buckets (ready_to_double t)) = 2 ^ hashpower t"
    using ready_to_double(2) [OF assms(1)] by (simp add: buckets_size_def)
  show ?thesis
    using R hp sz double_small [OF assms(1) hp len] double_large [OF assms(1) hp len]
    by (auto simp: Let_def)
qed

section \<open>Inserting\<close>

text \<open>The situation in which an insertion runs: the two buckets of the key are locked.\<close>

definition insert_ready :: "('k, 'v) cuckoohash_map \<Rightarrow> 'k \<Rightarrow> u64 \<times> byte \<Rightarrow> u64 \<Rightarrow> u64 \<Rightarrow> bool" where
  "insert_ready t k hv i1 i2 \<longleftrightarrow>
     mig_inv t \<and> tab_ok (hash_fn t) (hashpower t) (vcells t) \<and> hv = hashed_key t k \<and>
     i1 = idx1 (hashpower t) (hash_fn t k) \<and> i2 = idx2 (hashpower t) (hash_fn t k) \<and>
     locked t i1 \<and> locked t i2"

lemma snapshot_ready:
  assumes "mig_inv t" "tab_ok (hash_fn t) (hashpower t) (vcells t)" "hv = hashed_key t k"
    and "snapshot_and_lock_two hv t = (t', i1, i2)"
  shows "insert_ready t' k hv i1 i2 \<and> same_table t t'"
proof -
  have i: "i1 = idx1 (hashpower t) (hash_fn t k)" "i2 = idx2 (hashpower t) (hash_fn t k)" "t' = lock_two i1 i2 t"
    using assms(3,4) by (auto simp: snapshot_and_lock_two_def Let_def hashed_key_def idx_simps)
  note L = lock_two_same [OF assms(1), of i1 i2, folded i(3)]
  note sD = same_tableD [OF conjunct1 [OF L]]
  show ?thesis
    using L sD assms i unfolding insert_ready_def by (auto simp: hashed_key_def)
qed

lemma cuckoo_find_locked:
  assumes "locked t i1" "locked t i2"
  shows "cuckoo_find (cells (buckets t)) k p i1 i2 = cuckoo_find (vcells t) k p i1 i2"
  unfolding cuckoo_find_def cells_locked [OF assms(1)] cells_locked [OF assms(2)] ..

lemma fresh_in_both:
  assumes ok: "tab_ok h hp T"
    and 1: "try_find_insert_bucket (T (idx1 hp (h k))) (partial_key (h k)) k = (True, r1)"
    and 2: "try_find_insert_bucket (T (idx2 hp (h k))) (partial_key (h k)) k = (True, r2)"
  shows "tab_lookup T k = None"
  unfolding tab_lookup_None_iff
  using try_find_insert_bucket_fresh(1) [OF ok 1] try_find_insert_bucket_fresh(1) [OF ok 2]
    tab_okD(2,3) [OF ok] by metis

definition insert_outcome :: "('k, 'v) cuckoohash_map \<Rightarrow> 'k \<Rightarrow> ('k, 'v) cuckoohash_map \<Rightarrow> bool \<Rightarrow> u64 \<Rightarrow> nat \<Rightarrow> bool" where
  "insert_outcome t k t' is_new i s \<longleftrightarrow>
     locked t' i \<and>
     (if is_new
      then i \<in> {idx1 (hashpower t') (hash_fn t k), idx2 (hashpower t') (hash_fn t k)} \<and> s < 4 \<and>
           entry_at (vcells t') i s = None \<and> tab_lookup (vcells t) k = None
      else \<exists>e. entry_at (vcells t') i s = Some e \<and> kv_key e = k)"

lemma cuckoo_insert_returns:
  assumes R: "insert_ready t k hv i1 i2"
  shows "\<exists>t' st. cuckoo_insert hv i1 i2 k t = Some (t', st) \<and> keeps t t' \<and>
    tab_ok (hash_fn t) (hashpower t) (vcells t') \<and> tab_lookup (vcells t') = tab_lookup (vcells t) \<and>
    (\<forall>i s. st = Ok i s \<longrightarrow> insert_outcome t k t' True i s) \<and>
    (\<forall>i s. st = Key_duplicated i s \<longrightarrow> insert_outcome t k t' False i s)"
proof -
  let ?T = "vcells t" and ?h = "hash_fn t" and ?hp = "hashpower t"
  have inv: "mig_inv t" and ok: "tab_ok ?h ?hp ?T" and hv: "snd hv = partial_key (?h k)"
    and i: "i1 = idx1 ?hp (?h k)" "i2 = idx2 ?hp (?h k)" and l: "locked t i1" "locked t i2"
    using R unfolding insert_ready_def hashed_key_def by auto
  have c: "cells (buckets t) i1 = ?T i1" "cells (buckets t) i2 = ?T i2" using l cells_locked by auto
  let ?p = "partial_key (?h k)"
  obtain f1 r1 where b1: "try_find_insert_bucket (?T i1) ?p k = (f1, r1)"
    by (cases "try_find_insert_bucket (?T i1) ?p k")
  obtain f2 r2 where b2: "try_find_insert_bucket (?T i2) ?p k = (f2, r2)"
    by (cases "try_find_insert_bucket (?T i2) ?p k")
  show ?thesis
  proof (cases f1)
    case False
    with try_find_insert_bucket_dup [OF ok, of i1 ?p k r1] b1
    obtain s e where "r1 = Some s" "entry_at ?T i1 s = Some e" "kv_key e = k" by auto
    with False b1 c hv l ok show ?thesis
      by (auto simp: cuckoo_insert_def insert_outcome_def)
  next
    case f1: True
    show ?thesis
    proof (cases f2)
      case False
      with try_find_insert_bucket_dup [OF ok, of i2 ?p k r2] b2
      obtain s e where "r2 = Some s" "entry_at ?T i2 s = Some e" "kv_key e = k" by auto
      with False f1 b1 b2 c hv l ok show ?thesis
        by (auto simp: cuckoo_insert_def insert_outcome_def)
    next
      case f2: True
      have new: "tab_lookup ?T k = None"
        using fresh_in_both [OF ok, of k r1 r2] b1 b2 f1 f2 i by simp
      show ?thesis
      proof (cases "r1 = None \<and> r2 = None")
        case True
        from run_cuckoo_returns [OF inv ok, of i1 i2] obtain t' r where
          rc: "run_cuckoo i1 i2 t = Some (t', r)" "keeps t t'" "tab_ok ?h ?hp (vcells t')"
          "tab_lookup (vcells t') = tab_lookup ?T"
          and r: "\<And>b s. r = Some (b, s) \<Longrightarrow> b \<in> {i1, i2} \<and> s < 4 \<and> entry_at (vcells t') b s = None \<and> locked t' i1 \<and> locked t' i2"
          by blast
        have nf: "cuckoo_find (cells (buckets t')) k (snd hv) i1 i2 = None" if "locked t' i1" "locked t' i2"
        proof (rule ccontr)
          note locks = that
          assume "cuckoo_find (cells (buckets t')) k (snd hv) i1 i2 \<noteq> None"
          then obtain b s where "cuckoo_find (vcells t') k (snd hv) i1 i2 = Some (b, s)"
            using cuckoo_find_locked [OF locks] by auto
          from cuckoo_find_Some [OF rc(3) this] new rc(4) show False
            by (metis tab_lookup_None_iff)
        qed
        show ?thesis
        proof (cases r)
          case None
          with True f1 f2 b1 b2 c hv rc show ?thesis by (auto simp: cuckoo_insert_def)
        next
          case (Some bs)
          obtain b s where bs: "bs = (b, s)" by (cases bs)
          have hp': "hashpower t' = ?hp" using keepsD(2) [OF rc(2)] .
          show ?thesis
            using True f1 f2 b1 b2 c hv rc Some bs r [of b s] nf new i hp'
            by (auto simp: cuckoo_insert_def insert_outcome_def)
        qed
      next
        case False
        then show ?thesis
          using f1 f2 b1 b2 c hv l ok new i try_find_insert_bucket_fresh(2) [OF ok, of i1 ?p k r1]
            try_find_insert_bucket_fresh(2) [OF ok, of i2 ?p k r2]
          by (cases r1; cases r2) (auto simp: cuckoo_insert_def insert_outcome_def)
      qed
    qed
  qed
qed

lemma cuckoo_insert_loop_returns:
  assumes "insert_ready t k hv i1 i2"
  shows "\<exists>r. cuckoo_insert_loop hv i1 i2 k t = Some r \<and> r \<noteq> Inl No_return \<and>
    (\<forall>t' is_new i s. r = Inr (t', is_new, i, s) \<longrightarrow>
       mig_inv t' \<and> hash_fn t' = hash_fn t \<and> size_of_map t' = size_of_map t \<and>
       tab_ok (hash_fn t) (hashpower t') (vcells t') \<and> tab_lookup (vcells t') = tab_lookup (vcells t) \<and>
       insert_outcome t k t' is_new i s)"
  using assms
proof (induction "alloc_hashpower t - hashpower t" arbitrary: t i1 i2 rule: less_induct)
  case (less t)
  have inv: "mig_inv t" and hv: "hv = hashed_key t k" using less.prems by (auto simp: insert_ready_def)
  obtain t1 st where ins: "cuckoo_insert hv i1 i2 k t = Some (t1, st)" and k1: "keeps t t1"
    and ok1: "tab_ok (hash_fn t) (hashpower t) (vcells t1)" and lk1: "tab_lookup (vcells t1) = tab_lookup (vcells t)"
    and st: "\<And>i s. st = Ok i s \<Longrightarrow> insert_outcome t k t1 True i s"
      "\<And>i s. st = Key_duplicated i s \<Longrightarrow> insert_outcome t k t1 False i s"
    using cuckoo_insert_returns [OF less.prems] by blast
  note kD = keepsD [OF k1]
  have inv1: "mig_inv t1" by (rule kD(6) [OF inv])
  note unf = cuckoo_insert_loop.simps [of hv i1 i2 k t]
  show ?case
  proof (cases st)
    case (Ok i s)
    then show ?thesis using unf ins inv1 kD ok1 lk1 st(1) by simp
  next
    case (Key_duplicated i s)
    then show ?thesis using unf ins inv1 kD ok1 lk1 st(2) by simp
  next
    case Table_full
    show ?thesis
    proof (cases "cuckoo_fast_double (hashpower t) t1")
      case (Inl e)
      then show ?thesis using unf ins Table_full cuckoo_fast_double_error by auto
    next
      case (Inr t2)
      have D: "doubled t1 t2" "Suc (hashpower t) \<le> alloc_hashpower t"
        using cuckoo_fast_double_doubled [OF conjunct1 [OF inv1] ok1, of t2] Inr kD by auto
      have hp: "hashpower t < 64" using inv D(2) by (simp add: mig_ok_def)
      have T2: "mig_inv t2" "hash_fn t2 = hash_fn t" "hashpower t2 = Suc (hashpower t)"
        "alloc_hashpower t2 = alloc_hashpower t" "size_of_map t2 = size_of_map t"
        "tab_ok (hash_fn t) (Suc (hashpower t)) (vcells t2)" "tab_lookup (vcells t2) = tab_lookup (vcells t)"
        using D(1) kD lk1 double_table_ok [OF ok1 hp] unfolding doubled_def by auto
      obtain t3 j1 j2 where sn: "snapshot_and_lock_two hv t2 = (t3, j1, j2)"
        by (cases "snapshot_and_lock_two hv t2")
      have rdy: "insert_ready t3 k hv j1 j2" and st3: "same_table t2 t3"
        using snapshot_ready [OF T2(1) _ _ sn, of k] T2 hv by (auto simp: hashed_key_def)
      note sD = same_tableD [OF st3]
      have "alloc_hashpower t3 - hashpower t3 < alloc_hashpower t - hashpower t"
        using sD T2 D(2) by simp
      note hyp = less.hyps [OF this rdy]
      have oc: "insert_outcome t3 k = insert_outcome t k"
        using sD T2 by (intro ext) (simp add: insert_outcome_def)
      from hyp have IH: "\<exists>r. cuckoo_insert_loop hv j1 j2 k t3 = Some r \<and> r \<noteq> Inl No_return \<and>
        (\<forall>t' is_new i s. r = Inr (t', is_new, i, s) \<longrightarrow>
           mig_inv t' \<and> hash_fn t' = hash_fn t \<and> size_of_map t' = size_of_map t \<and>
           tab_ok (hash_fn t) (hashpower t') (vcells t') \<and> tab_lookup (vcells t') = tab_lookup (vcells t) \<and>
           insert_outcome t k t' is_new i s)"
        using sD T2 unfolding oc by simp
      have "cuckoo_insert_loop hv i1 i2 k t = cuckoo_insert_loop hv j1 j2 k t3"
        using unf ins Table_full Inr sn by simp
      then show ?thesis using IH by simp
    qed
  qed
qed

section \<open>The invariant of the table and its operations\<close>

definition cuckoo_invar :: "('k, 'v) cuckoohash_map \<Rightarrow> bool" where
  "cuckoo_invar t \<longleftrightarrow>
     mig_inv t \<and> tab_ok (hash_fn t) (hashpower t) (vcells t) \<and>
     finite (dom (tab_lookup (vcells t))) \<and>
     size_of_map t = int (card (dom (tab_lookup (vcells t))))"

definition cuckoo_lookup :: "('k, 'v) cuckoohash_map \<Rightarrow> 'k \<Rightarrow> 'v option" where
  "cuckoo_lookup t = tab_lookup (vcells t)"

lemma same_table_invar:
  assumes "same_table t t'" "cuckoo_invar t"
  shows "cuckoo_invar t'" "cuckoo_lookup t' = cuckoo_lookup t"
  using assms same_tableD [OF assms(1)] by (auto simp: cuckoo_invar_def cuckoo_lookup_def)

lemma bump_counter_size:
  assumes n: "n \<le> kMaxNumLocks" and a: "unat (lock_ind i) < n"
  shows "(\<Sum>l \<leftarrow> [0..<n]. elem_counter (bump_counter d i ls (of_nat l))) = (\<Sum>l \<leftarrow> [0..<n]. elem_counter (ls (of_nat l))) + d"
proof -
  have "elem_counter (bump_counter d i ls (of_nat l)) = elem_counter (ls (of_nat l)) + (if l = unat (lock_ind i) then d else 0)"
    if "l < n" for l
  proof -
    have "(of_nat l :: u64) = lock_ind i \<longleftrightarrow> l = unat (lock_ind i)"
      using that n unat_eq_of_nat(2) [of l 16 "lock_ind i"] by (auto simp: kMaxNumLocks_def)
    then show ?thesis by (auto simp: bump_counter_def)
  qed
  then have "(\<Sum>l \<in> {0..<n}. elem_counter (bump_counter d i ls (of_nat l))) =
    (\<Sum>l \<in> {0..<n}. elem_counter (ls (of_nat l)) + (if l = unat (lock_ind i) then d else 0))"
    by (intro sum.cong) auto
  also have "\<dots> = (\<Sum>l \<in> {0..<n}. elem_counter (ls (of_nat l))) + d"
    using a by (simp add: sum.distrib)
  finally show ?thesis by (simp add: interv_sum_list_conv_sum_set_nat)
qed

definition bumped :: "int \<Rightarrow> u64 \<Rightarrow> ('k, 'v) cuckoohash_map \<Rightarrow> ('k, 'v) cuckoohash_map" where
  "bumped d i t = t\<lparr>locks := bump_counter d i (locks t)\<rparr>"

lemma bumped_simps [simp]:
  "hash_fn (bumped d i t) = hash_fn t" "hashpower (bumped d i t) = hashpower t"
  "unmigrated (bumped d i t) = unmigrated t" "vcells (bumped d i t) = vcells t"
  "mig_inv (bumped d i t) \<longleftrightarrow> mig_inv t"
proof -
  show u: "unmigrated (bumped d i t) = unmigrated t"
    by (auto simp: bumped_def unmigrated_def bump_counter_def)
  show h: "hashpower (bumped d i t) = hashpower t" by (simp add: bumped_def hashpower_def)
  show "hash_fn (bumped d i t) = hash_fn t" by (simp add: bumped_def)
  show "vcells (bumped d i t) = vcells t" unfolding fun_eq_iff vcells_def u h by (simp add: bumped_def)
  show "mig_inv (bumped d i t) \<longleftrightarrow> mig_inv t"
    unfolding mig_ok_def counted_def u h by (simp add: bumped_def)
qed

lemma size_bumped:
  assumes "mig_ok t" "take_bit (hashpower t) i = i"
  shows "size_of_map (bumped d i t) = size_of_map t + d"
proof -
  have ls: "locks_size t = min (2 ^ hashpower t) kMaxNumLocks" using assms(1) by (simp add: mig_ok_def)
  have "unat (lock_ind i) < 2 ^ 16" unfolding lock_ind_take_bit by (rule unat_take_bit_less)
  moreover have "unat (lock_ind i) \<le> unat i"
    unfolding lock_ind_take_bit by (simp add: unsigned_take_bit_eq take_bit_nat_less_eq_self)
  moreover have "unat i < 2 ^ hashpower t" using unat_take_bit_less [of "hashpower t" i] assms(2) by simp
  ultimately have "unat (lock_ind i) < locks_size t" unfolding ls kMaxNumLocks_def by linarith
  from bump_counter_size [OF _ this] ls show ?thesis
    by (simp add: size_of_map_def bumped_def)
qed

lemma invar_after_update:
  assumes inv: "mig_inv t" and l: "locked t i" and i: "take_bit (hashpower t) i = i"
    and t': "t' = bumped d i (put_bucket i b t)" and T: "(vcells t)(i := b) = T"
    and ok: "tab_ok (hash_fn t) (hashpower t) T"
    and fin: "finite (dom (tab_lookup T))" and sz: "size_of_map t + d = int (card (dom (tab_lookup T)))"
  shows "cuckoo_invar t' \<and> cuckoo_lookup t' = tab_lookup T"
proof -
  note P = put_bucket_locked [OF l, of b]
  note kD = keepsD [OF P(1)]
  have "size_of_map t' = size_of_map t + d"
    unfolding t' using size_bumped [of "put_bucket i b t" i d] kD inv i by simp
  then show ?thesis
    unfolding cuckoo_invar_def cuckoo_lookup_def t' using kD inv P ok fin sz T by (simp add: t')
qed

lemma snapshot_find:
  assumes inv: "cuckoo_invar t" and sn: "snapshot_and_lock_two (hashed_key t k) t = (t', i1, i2)"
  shows "insert_ready t' k (hashed_key t k) i1 i2" "same_table t t'" "locked t' i1" "locked t' i2"
    "i1 = idx1 (hashpower t) (hash_fn t k)" "i2 = idx2 (hashpower t) (hash_fn t k)"
    "cuckoo_find (cells (buckets t')) k (partial_key (hash_fn t k)) i1 i2 =
     cuckoo_find (vcells t) k (partial_key (hash_fn t k)) i1 i2"
proof -
  have I: "mig_inv t" "tab_ok (hash_fn t) (hashpower t) (vcells t)" using inv by (auto simp: cuckoo_invar_def)
  show R: "insert_ready t' k (hashed_key t k) i1 i2" "same_table t t'" using snapshot_ready [OF I refl sn] by auto
  note sD = same_tableD [OF R(2)]
  show l: "locked t' i1" "locked t' i2" and "i1 = idx1 (hashpower t) (hash_fn t k)" "i2 = idx2 (hashpower t) (hash_fn t k)"
    using R(1) sD by (auto simp: insert_ready_def)
  show "cuckoo_find (cells (buckets t')) k (partial_key (hash_fn t k)) i1 i2 =
    cuckoo_find (vcells t) k (partial_key (hash_fn t k)) i1 i2"
    using cuckoo_find_locked [OF l] sD(6) by simp
qed

lemma find_fn_spec:
  assumes inv: "cuckoo_invar t"
  shows "same_table t (fst (find_fn t k)) \<and> snd (find_fn t k) = cuckoo_lookup t k"
proof -
  have I: "mig_inv t" "tab_ok (hash_fn t) (hashpower t) (vcells t)" using inv by (auto simp: cuckoo_invar_def)
  obtain t' i1 i2 where sn: "snapshot_and_lock_two (hashed_key t k) t = (t', i1, i2)"
    by (cases "snapshot_and_lock_two (hashed_key t k) t")
  note R = snapshot_find(1,2) [OF inv sn] and l = snapshot_find(3,4) [OF inv sn]
    and i = snapshot_find(5,6) [OF inv sn] and cf = snapshot_find(7) [OF inv sn]
  note sD = same_tableD [OF R(2)]
  show ?thesis
  proof (cases "cuckoo_find (vcells t) k (partial_key (hash_fn t k)) i1 i2")
    case None
    then have "tab_lookup (vcells t) k = None" using cuckoo_find_None [OF I(2)] i by simp
    with None sn cf R(2) show ?thesis by (simp add: find_fn_def Let_def hashed_key_def cuckoo_lookup_def)
  next
    case (Some p)
    obtain j s where p: "p = (j, s)" by (cases p)
    from cuckoo_find_Some [OF I(2) Some [unfolded p]] obtain e where
      j: "j \<in> {i1, i2}" and e: "entry_at (vcells t) j s = Some e" "kv_key e = k" by blast
    have "cells (buckets t') j ! s = Some e"
      using j l cells_locked [of t' j] sD(6) e entry_at_slot [OF e(1)] by (auto simp: entry_at_def)
    with Some p sn cf R(2) tab_lookup_entry [OF I(2) e(1)] e(2) show ?thesis
      by (simp add: find_fn_def Let_def hashed_key_def cuckoo_lookup_def)
  qed
qed

lemma erase_spec:
  assumes inv: "cuckoo_invar t"
  shows "cuckoo_invar (fst (erase t k)) \<and> cuckoo_lookup (fst (erase t k)) = (cuckoo_lookup t)(k := None) \<and>
    (snd (erase t k) \<longleftrightarrow> cuckoo_lookup t k \<noteq> None)"
proof -
  have I: "mig_inv t" "tab_ok (hash_fn t) (hashpower t) (vcells t)" using inv by (auto simp: cuckoo_invar_def)
  obtain t' i1 i2 where sn: "snapshot_and_lock_two (hashed_key t k) t = (t', i1, i2)"
    by (cases "snapshot_and_lock_two (hashed_key t k) t")
  note R = snapshot_find(1,2) [OF inv sn] and l = snapshot_find(3,4) [OF inv sn]
    and i = snapshot_find(5,6) [OF inv sn] and cf = snapshot_find(7) [OF inv sn]
  note sD = same_tableD [OF R(2)] and SI = same_table_invar [OF R(2) inv]
  show ?thesis
  proof (cases "cuckoo_find (vcells t) k (partial_key (hash_fn t k)) i1 i2")
    case None
    then have "tab_lookup (vcells t) k = None" using cuckoo_find_None [OF I(2)] i by simp
    with None sn cf SI show ?thesis by (simp add: erase_def Let_def hashed_key_def cuckoo_lookup_def fun_upd_idem)
  next
    case (Some p)
    obtain j s where p: "p = (j, s)" by (cases p)
    from cuckoo_find_Some [OF I(2) Some [unfolded p]] obtain e where
      j: "j \<in> {i1, i2}" and e: "entry_at (vcells t) j s = Some e" "kv_key e = k" by blast
    have lj: "locked t' j" using j l by auto
    let ?b = "(vcells t' j)[s := None]"
    have er: "erase t k = (bumped (- 1) j (put_bucket j ?b t'), True)"
      using Some p sn cf cells_locked [OF lj]
      by (simp add: erase_def Let_def hashed_key_def del_from_bucket_def bumped_def put_bucket_def eraseKV_def)
    have T: "(vcells t')(j := ?b) = upd (vcells t) j s None" using sD(6) by (simp add: upd_def)
    note E = tab_ok_erase [OF I(2) e(1)]
    have look: "tab_lookup (vcells t) k = Some (kv_mapped e)" using tab_lookup_entry [OF I(2) e(1)] e(2) by simp
    let ?D = "dom (tab_lookup (vcells t))"
    have fin: "finite ?D" and sz: "size_of_map t = int (card ?D)" using inv by (auto simp: cuckoo_invar_def)
    have D: "dom (tab_lookup (upd (vcells t) j s None)) = ?D - {k}" using E(2) e(2) by auto
    have kD: "k \<in> ?D" using look by auto
    have c: "int (card (?D - {k})) = size_of_map t' + - 1"
      using card_Suc_Diff1 [OF fin kD] sz sD(10) by simp
    have tb: "take_bit (hashpower t') j = j" using j i sD(2) by auto
    have "cuckoo_invar (bumped (- 1) j (put_bucket j ?b t')) \<and>
      cuckoo_lookup (bumped (- 1) j (put_bucket j ?b t')) = tab_lookup (upd (vcells t) j s None)"
    proof (rule invar_after_update [OF _ lj tb refl T])
      show "finite (dom (tab_lookup (upd (vcells t) j s None)))" unfolding D using fin by simp
      show "size_of_map t' + - 1 = int (card (dom (tab_lookup (upd (vcells t) j s None))))" unfolding D using c ..
    qed (use sD I E in auto)
    with er E(2) e(2) look show ?thesis by (simp add: cuckoo_lookup_def)
  qed
qed

lemma insert_or_assign_spec:
  assumes inv: "cuckoo_invar t"
  shows "insert_or_assign t k v \<noteq> Inl No_return \<and>
    (\<forall>m b. insert_or_assign t k v = Inr (m, b) \<longrightarrow>
       cuckoo_invar m \<and> cuckoo_lookup m = (cuckoo_lookup t)(k \<mapsto> v) \<and> (b \<longleftrightarrow> cuckoo_lookup t k = None))"
proof -
  obtain t0 i1 i2 where sn: "snapshot_and_lock_two (hashed_key t k) t = (t0, i1, i2)"
    by (cases "snapshot_and_lock_two (hashed_key t k) t")
  note R = snapshot_find(1,2) [OF inv sn]
  note sD = same_tableD [OF R(2)]
  let ?h = "hash_fn t" and ?L = "tab_lookup (vcells t)"
  have fin: "finite (dom ?L)" and sz: "size_of_map t = int (card (dom ?L))" using inv by (auto simp: cuckoo_invar_def)
  obtain r where lp: "cuckoo_insert_loop (hashed_key t k) i1 i2 k t0 = Some r" and nr: "r \<noteq> Inl No_return"
    and res: "\<And>t' is_new i s. r = Inr (t', is_new, i, s) \<Longrightarrow>
       mig_inv t' \<and> hash_fn t' = ?h \<and> size_of_map t' = size_of_map t \<and>
       tab_ok ?h (hashpower t') (vcells t') \<and> tab_lookup (vcells t') = ?L \<and> insert_outcome t0 k t' is_new i s"
    using cuckoo_insert_loop_returns [OF R(1)] sD by auto
  show ?thesis
  proof (cases r)
    case (Inl e)
    with nr lp sn show ?thesis by (auto simp: insert_or_assign_def Let_def)
  next
    case (Inr q)
    obtain t' is_new i s where q: "q = (t', is_new, i, s)" by (cases q)
    note A = res [OF Inr [unfolded q]]
    have O: "insert_outcome t0 k t' is_new i s" and ok: "tab_ok ?h (hashpower t') (vcells t')"
      and L: "tab_lookup (vcells t') = ?L" and inv': "mig_inv t'" and h: "hash_fn t' = ?h"
      and sz': "size_of_map t' = size_of_map t" using A by auto
    have l: "locked t' i" using O by (simp add: insert_outcome_def)
    show ?thesis
    proof (cases is_new)
      case True
      let ?e = "\<lparr>kv_partial = partial_key (?h k), kv_key = k, kv_mapped = v\<rparr>"
      let ?b = "(vcells t' i)[s := Some ?e]"
      have at: "entry_at (vcells t') i s = None" "s < 4" and new: "?L k = None"
        and i: "i = idx1 (hashpower t') (?h k) \<or> i = idx2 (hashpower t') (?h k)"
        using O True sD by (auto simp: insert_outcome_def)
      have ins: "insert_or_assign t k v = Inr (bumped 1 i (put_bucket i ?b t'), True)"
        using sn lp Inr q True cells_locked [OF l]
        by (simp add: insert_or_assign_def Let_def hashed_key_def add_to_bucket_def bumped_def put_bucket_def setKV_def)
      have T: "(vcells t')(i := ?b) = upd (vcells t') i s (Some ?e)" by (simp add: upd_def)
      have U: "tab_ok ?h (hashpower t') (upd (vcells t') i s (Some ?e))"
        "tab_lookup (upd (vcells t') i s (Some ?e)) = ?L(k \<mapsto> v)"
        using tab_ok_add [OF ok at, of ?e] new L i by simp_all
      have tb: "take_bit (hashpower t') i = i" using i by auto
      have "card (dom (?L(k \<mapsto> v))) = Suc (card (dom ?L))" using fin new by (simp add: domIff)
      then have "cuckoo_invar (bumped 1 i (put_bucket i ?b t')) \<and>
        cuckoo_lookup (bumped 1 i (put_bucket i ?b t')) = tab_lookup (upd (vcells t') i s (Some ?e))"
        by (intro invar_after_update [OF inv' l tb refl T]) (use U h sz sz' fin in simp_all)
      with ins U new show ?thesis by (simp add: cuckoo_lookup_def)
    next
      case False
      obtain e where e: "entry_at (vcells t') i s = Some e" "kv_key e = k"
        using O False by (auto simp: insert_outcome_def)
      let ?f = "e\<lparr>kv_mapped := v\<rparr>"
      let ?b = "(vcells t' i)[s := Some ?f]"
      have "vcells t' i ! s = Some e" using e(1) entry_at_slot [OF e(1)] by (simp add: entry_at_def)
      then have ins: "insert_or_assign t k v = Inr (bumped 0 i (put_bucket i ?b t'), False)"
        using sn lp Inr q False cells_locked [OF l]
        by (simp add: insert_or_assign_def Let_def hashed_key_def assign_mapped_def bumped_def put_bucket_def bump_counter_def)
      have T: "(vcells t')(i := ?b) = upd (vcells t') i s (Some ?f)" by (simp add: upd_def)
      have U: "tab_ok ?h (hashpower t') (upd (vcells t') i s (Some ?f))"
        "tab_lookup (upd (vcells t') i s (Some ?f)) = ?L(k \<mapsto> v)"
        using tab_ok_replace [OF ok e(1), of ?f] L e(2) by simp_all
      have look: "?L k = Some (kv_mapped e)" using tab_lookup_entry [OF ok e(1)] L e(2) by simp
      have tb: "take_bit (hashpower t') i = i" using tab_okD(3) [OF ok e(1)] by auto
      have D: "dom (?L(k \<mapsto> v)) = dom ?L" using look by auto
      have "cuckoo_invar (bumped 0 i (put_bucket i ?b t')) \<and>
        cuckoo_lookup (bumped 0 i (put_bucket i ?b t')) = tab_lookup (upd (vcells t') i s (Some ?f))"
      proof (rule invar_after_update [OF inv' l tb refl T])
        show "size_of_map t' + 0 = int (card (dom (tab_lookup (upd (vcells t') i s (Some ?f)))))"
          unfolding U(2) D using sz sz' by simp
      qed (use U D h fin in simp_all)
      with ins U look show ?thesis by (simp add: cuckoo_lookup_def)
    qed
  qed
qed

interpretation cm: hash_map cuckoo_invar cuckoo_lookup find_fn insert_or_assign erase
proof
  fix m :: "('k, 'v) cuckoohash_map" and k v m' b
  assume inv: "cuckoo_invar m"
  note F = find_fn_spec [OF inv, of k] and E = erase_spec [OF inv, of k] and I = insert_or_assign_spec [OF inv, of k v]
  show "snd (find_fn m k) = cuckoo_lookup m k" using F by simp
  show "cuckoo_invar (fst (find_fn m k))" "cuckoo_lookup (fst (find_fn m k)) = cuckoo_lookup m"
    using F same_table_invar inv by blast+
  show "insert_or_assign m k v \<noteq> Inl No_return" using I by simp
  show "cuckoo_invar (fst (erase m k))" "cuckoo_lookup (fst (erase m k)) = (cuckoo_lookup m)(k := None)"
    "snd (erase m k) \<longleftrightarrow> cuckoo_lookup m k \<noteq> None" using E by auto
  assume "insert_or_assign m k v = Inr (m', b)"
  with I show "cuckoo_invar m'" "cuckoo_lookup m' = (cuckoo_lookup m)(k \<mapsto> v)" "b \<longleftrightarrow> cuckoo_lookup m k = None"
    by auto
qed

section \<open>A new table\<close>

lemma new_map:
  assumes "reserve_calc n \<le> alloc" "alloc \<le> 63"
  shows "cuckoo_invar (cuckoohash_map alloc n h :: ('k, 'v) cuckoohash_map)"
    "cuckoo_lookup (cuckoohash_map alloc n h :: ('k, 'v) cuckoohash_map) = Map.empty"
proof -
  let ?t = "cuckoohash_map alloc n h :: ('k, 'v) cuckoohash_map"
  have u: "unmigrated ?t = {}" by (simp add: unmigrated_def cuckoohash_map_def fresh_lock_def)
  have v: "vcells ?t i = empty_bucket" for i
    unfolding vcells_def u by (simp add: cuckoohash_map_def new_buckets_def)
  have e: "entry_at (vcells ?t) i s = None" for i s by (simp add: entry_at_def v)
  have l: "tab_lookup (vcells ?t) = Map.empty"
    by (rule ext) (simp add: tab_lookup_None_iff e)
  have ok: "tab_ok (hash_fn ?t) (hashpower ?t) (vcells ?t)" by (simp add: tab_ok_def v e)
  have "mig_inv ?t"
    unfolding mig_ok_def counted_def u
    using assms by (simp add: cuckoohash_map_def hashpower_def new_buckets_def)
  moreover have "size_of_map ?t = 0" by (simp add: size_of_map_def cuckoohash_map_def fresh_lock_def sum_list_0)
  ultimately show "cuckoo_invar ?t" using ok by (simp add: cuckoo_invar_def l)
  show "cuckoo_lookup ?t = Map.empty" by (simp add: cuckoo_lookup_def l)
qed

text \<open>A small table, evaluated.\<close>

lemma reserve_calc_0: "reserve_calc 0 = 0"
  by (simp add: reserve_calc_def reserve_loop.simps)

lemma upt_slots: "[0..<4] = [0, 1, 2, 3 :: nat]"
  by (simp add: upt_rec)

lemma empty_bucket_slots: "empty_bucket = [None, None, None, None]"
  by (simp add: empty_bucket_def numeral_eq_Suc)

lemmas eval_new = cuckoohash_map_def new_buckets_def reserve_calc_0 fresh_lock_def empty_bucket_slots
  Let_def hashpower_def kMaxNumLocks_def

lemmas eval_locks = lock_one_def lock_two_def lock_ind_def rehash_lock_def

lemmas eval_insert = insert_or_assign_def hashed_key_def snapshot_and_lock_two_def index_hash_def
  alt_index_def partial_key_def hashmask_def hashsize_def cuckoo_insert_def try_find_insert_bucket_def
  add_to_bucket_def setKV_def bump_counter_def cuckoo_insert_loop.simps

lemma small_insert:
  "\<exists>t. insert_or_assign (cuckoohash_map 10 0 (\<lambda>_. 0)) k v = Inr (t, True) \<and>
    hashpower t = 0 \<and> alloc_hashpower t = 10 \<and> maximum_hashpower t = None \<and> size_of_map t = 1"
  by (simp add: eval_new eval_locks eval_insert size_of_map_def)

section \<open>Properties\<close>

text \<open>
  C2: the cuckoo table is a finite map. Whatever sequence of \<^verbatim>\<open>find\<close>,
  \<^verbatim>\<open>insert_or_assign\<close> and \<^verbatim>\<open>erase\<close> calls a client makes on a new table, through
  any number of displacements, doublings and lazy migrations, every answer is that of a
  finite map, the table ends up holding that map, and \<^verbatim>\<open>size()\<close> is its number of
  keys; an insertion that does not succeed fails with an exception of the expansion, and
  never loops forever.
\<close>

theorem cuckoo_refines_map:
  assumes "reserve_calc n \<le> alloc" "alloc \<le> 63"
  shows "case run_ops find_fn insert_or_assign erase (cuckoohash_map alloc n h) ops of
      Inl e \<Rightarrow> e \<noteq> No_return
    | Inr (t, ans) \<Rightarrow> spec_ops Map.empty ops = (cuckoo_lookup t, ans)
        \<and> size_of_map t = int (card (dom (cuckoo_lookup t)))"
  using cm.run_ops_refines [OF new_map(1) [OF assms], of h ops] unfolding new_map(2) [OF assms]
  by (auto simp: cuckoo_invar_def cuckoo_lookup_def split: sum.splits prod.splits)

theorem cuckoo_refines_map_witness:
  "reserve_calc 9 = 2 \<and>
   (case run_ops find_fn insert_or_assign erase (cuckoohash_map 20 9 (\<lambda>k :: nat. of_nat k * 3))
           [Insert_or_assign 1 ''one'', Insert_or_assign 2 ''two'', Erase 1, Find 1, Find 2] of
      Inl e \<Rightarrow> e \<noteq> No_return
    | Inr (t, ans) \<Rightarrow>
        spec_ops Map.empty [Insert_or_assign 1 ''one'', Insert_or_assign 2 ''two'', Erase 1, Find 1, Find 2]
          = (cuckoo_lookup t, ans)
        \<and> size_of_map t = int (card (dom (cuckoo_lookup t))))"
proof
  show r: "reserve_calc 9 = 2" by code_simp
  show "case run_ops find_fn insert_or_assign erase (cuckoohash_map 20 9 (\<lambda>k :: nat. of_nat k * 3))
           [Insert_or_assign 1 ''one'', Insert_or_assign 2 ''two'', Erase 1, Find 1, Find 2] of
      Inl e \<Rightarrow> e \<noteq> No_return
    | Inr (t, ans) \<Rightarrow>
        spec_ops Map.empty [Insert_or_assign 1 ''one'', Insert_or_assign 2 ''two'', Erase 1, Find 1, Find 2]
          = (cuckoo_lookup t, ans)
        \<and> size_of_map t = int (card (dom (cuckoo_lookup t)))"
    by (rule cuckoo_refines_map) (simp_all add: r)
qed

text \<open>
  C13: the path that the breadth-first search returns
  is always usable: moving the keys along it succeeds at the first attempt, so the retry
  loop of \<^verbatim>\<open>run_cuckoo\<close> runs once when no other thread interferes, and every key
  stays in the table with its value.
\<close>

theorem cuckoo_path_always_moves:
  assumes "cuckoo_invar t" "cuckoopath_search (hashpower t) i1 i2 t = (t1, Some path)"
    "cuckoopath_move i1 i2 path t1 = (t2, moved)"
  shows "moved \<and> cuckoo_lookup t2 = cuckoo_lookup t \<and>
    \<not> occupied (cells (buckets t2) (cr_bucket (hd path))) (cr_slot (hd path))"
proof -
  have inv: "mig_inv t" and ok: "tab_ok (hash_fn t) (hashpower t) (vcells t)"
    using assms(1) by (auto simp: cuckoo_invar_def)
  from cuckoopath_search_path [OF inv ok assms(2)] have st: "same_table t t1"
    and P: "path_inv (hash_fn t) (hashpower t) (vcells t) path" and hd: "cr_bucket (hd path) \<in> {i1, i2}" by auto
  note sD = same_tableD [OF st]
  from cuckoopath_move_path [of t1 "hashpower t" path i1 i2 t2 moved] sD P hd assms(3) inv ok
  have M: "moved" "tab_lookup (vcells t2) = tab_lookup (vcells t)" "locked t2 i1" "locked t2 i2"
    "entry_at (vcells t2) (cr_bucket (hd path)) (cr_slot (hd path)) = None" "cr_slot (hd path) < 4" by auto
  have "cells (buckets t2) (cr_bucket (hd path)) = vcells t2 (cr_bucket (hd path))"
    using hd M(3,4) cells_locked by blast
  with M show ?thesis by (simp add: cuckoo_lookup_def occupied_def entry_at_def)
qed

theorem cuckoo_path_always_moves_witness:
  "\<exists>t1 path t2 moved. cuckoopath_search 0 0 0 (cuckoohash_map 10 0 (\<lambda>_ :: nat. 0) :: (nat, nat) cuckoohash_map)
     = (t1, Some path)
   \<and> cuckoopath_move 0 0 path t1 = (t2, moved) \<and> moved
   \<and> \<not> occupied (cells (buckets t2) (cr_bucket (hd path))) (cr_slot (hd path))"
proof -
  let ?t = "cuckoohash_map 10 0 (\<lambda>_ :: nat. 0) :: (nat, nat) cuckoohash_map"
  have inv: "cuckoo_invar ?t" by (rule new_map) (simp_all add: reserve_calc_0)
  have hp: "hashpower ?t = 0" by (simp add: eval_new)
  obtain t1 path where s: "cuckoopath_search (hashpower ?t) 0 0 ?t = (t1, Some path)"
    by (simp add: hp cuckoopath_search_def slot_search_def slot_order_def eval_new eval_locks upt_slots)
  obtain t2 moved where m: "cuckoopath_move 0 0 path t1 = (t2, moved)"
    by (cases "cuckoopath_move 0 0 path t1")
  from cuckoo_path_always_moves [OF inv s m] s m show ?thesis unfolding hp by blast
qed

text \<open>
  C14: doubling the table keeps its contents. When \<^verbatim>\<open>cuckoo_fast_double\<close> succeeds, the
  table has twice as many buckets, every key still has its value, and the invariant holds,
  whether the keys have been moved at once or are left to be migrated by later accesses.
\<close>

theorem cuckoo_fast_double_keeps_map:
  assumes "cuckoo_invar t" "cuckoo_fast_double (hashpower t) t = Inr t'"
  shows "cuckoo_invar t' \<and> cuckoo_lookup t' = cuckoo_lookup t \<and> bucket_count t' = 2 * bucket_count t"
proof -
  have inv: "mig_inv t" and ok: "tab_ok (hash_fn t) (hashpower t) (vcells t)"
    using assms(1) by (auto simp: cuckoo_invar_def)
  have D: "doubled t t'" "Suc (hashpower t) \<le> alloc_hashpower t"
    using cuckoo_fast_double_doubled [OF conjunct1 [OF inv] ok assms(2)] by auto
  have "hashpower t < 64" using inv D(2) by (simp add: mig_ok_def)
  from D double_table_ok [OF ok this] assms(1) show ?thesis
    by (simp add: doubled_def cuckoo_invar_def cuckoo_lookup_def bucket_count_def buckets_size_def flip: hashpower_def)
qed

theorem cuckoo_fast_double_keeps_map_witness:
  "\<exists>(t :: (nat, nat) cuckoohash_map) t'. cuckoo_fast_double (hashpower t) t = Inr t'
    \<and> cuckoo_invar t' \<and> cuckoo_lookup t' 1 = Some 2 \<and> bucket_count t' = 2"
proof -
  let ?t0 = "cuckoohash_map 10 0 (\<lambda>_ :: nat. 0) :: (nat, nat) cuckoohash_map"
  have inv0: "cuckoo_invar ?t0" by (rule new_map) (simp_all add: reserve_calc_0)
  obtain t where t: "insert_or_assign ?t0 1 2 = Inr (t, True)" "hashpower t = 0" "alloc_hashpower t = 10"
    "maximum_hashpower t = None" "size_of_map t = 1" using small_insert [of 1 2] by blast
  note inv = cm.insert_invar [OF inv0 t(1)] and look = cm.insert_lookup [OF inv0 t(1)]
  have bc: "bucket_count t = 1" using t(2) by (simp add: bucket_count_def buckets_size_def hashpower_def)
  have "check_resize_validity 1 t = None"
    using t bc by (simp add: check_resize_validity_def load_factor_below_minimum_def capacity_def)
  then obtain t' where t': "cuckoo_fast_double (hashpower t) t = Inr t'"
    using t by (simp add: cuckoo_fast_double_def Let_def)
  from cuckoo_fast_double_keeps_map [OF inv t'] t' look bc show ?thesis by (intro exI [of _ t] exI [of _ t']) simp
qed

text \<open>
  The two buckets of a key are each other's alternative. From either of the two
  buckets that a hash value and its partial key determine, \<^verbatim>\<open>alt_index\<close> leads to the
  other, which is what makes displacing a key possible without rehashing it; and
  doubling the table adds one bit on top of each of the two.
\<close>

theorem alt_index_involution:
  "alt_index hp (partial_key hv) (alt_index hp (partial_key hv) (index_hash hp hv)) = index_hash hp hv
   \<and> index_hash hp (index_hash (Suc hp) hv) = index_hash hp hv
   \<and> index_hash hp (alt_index (Suc hp) (partial_key hv) (index_hash (Suc hp) hv))
       = alt_index hp (partial_key hv) (index_hash hp hv)"
  by (simp add: idx_simps) (simp add: idx1_def idx2_def)

end
