(* ===== verification/Posix_File.thy ===== *)
theory Posix_File
  imports Coding Hash_Map
begin

text \<open>
  Log files: \<^verbatim>\<open>bitcask/file/posix_file.cc\<close> and the parts of \<^verbatim>\<open>bitcask/include/env.h\<close>
  that open them, and the spin lock of \<^verbatim>\<open>bitcask/util/lock.h\<close>. A file is its contents
  and the atomic \<^verbatim>\<open>file_offset_\<close>; the bytes that have reached the disk by
  \<^verbatim>\<open>fsync\<close> are counted. The system call \<^verbatim>\<open>pwrite\<close> is a parameter of the operations
  that use it; \<open>pwrite_ok\<close> is what Linux documents for a descriptor opened with
  \<^verbatim>\<open>O_APPEND\<close>, when no I/O error occurs.
\<close>

section \<open>Definitions\<close>

datatype db_error =
    Undefined
  | Process_exit
  | Uncaught_exception
  | Table_error cuckoo_error

type_synonym pwrite_fn = "bytes \<Rightarrow> bytes \<Rightarrow> nat \<Rightarrow> bytes \<times> int"

definition append_pwrite :: pwrite_fn where
  "append_pwrite content d off = (content @ d, int (length d))"

definition pwrite_ok :: "pwrite_fn \<Rightarrow> bool" where
  "pwrite_ok pw \<longleftrightarrow> (\<forall>content d off. pw content d off = append_pwrite content d off)"

definition SEGMENT_SIZE :: u32 where
  "SEGMENT_SIZE = 128 * 1024 * 1024"

definition map_size :: u32 where
  "map_size = 4096 * 10"

record posix_file =
  pf_content :: bytes
  pf_offset :: u32
  pf_synced :: nat
  pf_open :: bool

text \<open>
  \<^verbatim>\<open>Env::NewFile\<close> on a data directory, given by the contents of its files and the names
  that \<^verbatim>\<open>open\<close> accepts: an existing file keeps its contents, \<^verbatim>\<open>GetFileSize\<close> stores its
  size in 32 bits; \<open>None\<close> is the result false, which leaves the caller's pointer unset.
\<close>

record env =
  dir_files :: "string \<rightharpoonup> bytes"
  open_ok :: "string \<Rightarrow> bool"

definition GetFileSize :: "bytes \<Rightarrow> u32" where
  "GetFileSize content = of_nat (length content)"

definition NewFile :: "env \<Rightarrow> string \<Rightarrow> posix_file option" where
  "NewFile e fname =
     (if open_ok e fname
      then let content = (case dir_files e fname of None \<Rightarrow> [] | Some c \<Rightarrow> c)
           in Some \<lparr>pf_content = content, pf_offset = GetFileSize content,
                    pf_synced = length content, pf_open = True\<rparr>
      else None)"

text \<open>
  \<^verbatim>\<open>Read\<close>: \<open>Inr None\<close> is the result false. Reading beyond \<open>file_offset_\<close> copies from
  the null pointer \<^verbatim>\<open>base_buf_\<close>. The result of \<^verbatim>\<open>pread\<close> is compared after conversion
  to the unsigned \<^verbatim>\<open>size_t\<close>, so a failure and a short read both return true with a
  buffer that is not filled: undefined here.
\<close>

definition Read :: "posix_file \<Rightarrow> u32 \<Rightarrow> u32 \<Rightarrow> db_error + bytes option" where
  "Read f offset n =
     (if offset > pf_offset f then
        let pos = offset - pf_offset f
        in if pos > map_size then Inr None else Inl Undefined
      else if \<not> pf_open f then Inl Undefined
      else case load (pf_content f) (unat offset) (unat n) of
             None \<Rightarrow> Inl Undefined
           | Some buf \<Rightarrow> Inr (Some buf))"

definition AppendData :: "pwrite_fn \<Rightarrow> posix_file \<Rightarrow> bytes \<Rightarrow> bytes \<Rightarrow> db_error + posix_file \<times> bool \<times> u32" where
  "AppendData pw f key val =
     (let data_size = of_nat (length key + length val) :: u32
      in case EncodeData (replicate (unat data_size) 0) key val of
           None \<Rightarrow> Inl Undefined
         | Some data_buf \<Rightarrow>
             let old_offset = pf_offset f
             in if old_offset \<ge> SEGMENT_SIZE then Inr (f, False, 0)
                else
                  let (content, count) = pw (pf_content f) data_buf (unat old_offset)
                  in Inr (f\<lparr>pf_offset := old_offset + data_size, pf_content := content\<rparr>,
                          count = int (unat data_size), old_offset))"

definition AppendDataBatch :: "pwrite_fn \<Rightarrow> posix_file \<Rightarrow> bytes \<Rightarrow> nat \<Rightarrow> db_error + posix_file \<times> bool \<times> u32" where
  "AppendDataBatch pw f buf len =
     (let old_offset = pf_offset f
      in if old_offset \<ge> SEGMENT_SIZE then Inr (f, False, 0)
         else case load buf 0 len of
                None \<Rightarrow> Inl Undefined
              | Some d \<Rightarrow>
                  let (content, count) = pw (pf_content f) d (unat old_offset)
                  in if count = int len
                     then Inr (f\<lparr>pf_offset := old_offset + of_nat len, pf_content := content\<rparr>, True, old_offset)
                     else Inl Process_exit)"

definition AppendIndex :: "pwrite_fn \<Rightarrow> posix_file \<Rightarrow> bytes \<Rightarrow> u32 \<Rightarrow> u32 \<Rightarrow> u32 \<Rightarrow> u32
    \<Rightarrow> db_error + posix_file \<times> bool" where
  "AppendIndex pw f key fi fo ks vs =
     (let index_size = of_nat (length key) + 4 * 5 :: u32
      in case EncodeIndex (replicate (unat index_size) 0) key fi fo ks vs of
           None \<Rightarrow> Inl Undefined
         | Some index_buf \<Rightarrow>
             let offset = pf_offset f;
                 (content, n) = pw (pf_content f) index_buf (unat offset)
             in Inr (f\<lparr>pf_offset := offset + index_size, pf_content := content\<rparr>, n = int (unat index_size)))"

definition Sync :: "posix_file \<Rightarrow> posix_file" where
  "Sync f = f\<lparr>pf_synced := length (pf_content f)\<rparr>"

definition Close :: "posix_file \<Rightarrow> posix_file" where
  "Close f = f\<lparr>pf_open := False\<rparr>"

text \<open>The spin lock: \<open>None\<close> is a thread that spins forever on a lock it already holds.\<close>

definition Lock :: "bool \<Rightarrow> bool option" where
  "Lock lck = (if lck then None else Some True)"

definition Unlock :: "bool \<Rightarrow> bool" where
  "Unlock lck = False"

definition TryLock :: "bool \<Rightarrow> bool \<times> bool" where
  "TryLock lck = (True, lck = False)"

section \<open>Lemmas\<close>

text \<open>A file in step with its contents, and in use.\<close>

definition file_ok :: "posix_file \<Rightarrow> bool" where
  "file_ok f \<longleftrightarrow> pf_open f \<and> unat (pf_offset f) = length (pf_content f)"

lemma NewFile_fresh:
  assumes "open_ok e fname" "dir_files e fname = None"
  shows "\<exists>f. NewFile e fname = Some f \<and> file_ok f \<and> pf_content f = []"
  using assms by (simp add: file_ok_def NewFile_def GetFileSize_def)

lemma SEGMENT_SIZE_nat: "unat SEGMENT_SIZE = 2 ^ 27"
  by (simp add: SEGMENT_SIZE_def)

text \<open>What a caller may assume of the size of one record: no 32-bit offset wraps.\<close>

definition record_fits :: "nat \<Rightarrow> bool" where
  "record_fits n \<longleftrightarrow> n < 2 ^ 31"

lemma AppendData_full:
  assumes "record_fits (length key + length val)" "pf_offset f \<ge> SEGMENT_SIZE"
  shows "AppendData pw f key val = Inr (f, False, 0)"
  using assms by (simp add: AppendData_def Let_def EncodeData_exact unat_of_nat_len record_fits_def del: of_nat_add)

lemma AppendData_ok:
  assumes "pwrite_ok pw" "file_ok f" "record_fits (length key + length val)" "pf_offset f < SEGMENT_SIZE"
  shows "\<exists>f'. AppendData pw f key val = Inr (f', True, pf_offset f) \<and> file_ok f' \<and>
    pf_content f' = pf_content f @ key @ val"
proof -
  have "unat (pf_offset f) < 2 ^ 27" using assms(4) SEGMENT_SIZE_nat by (simp add: word_less_nat_alt)
  moreover have d: "unat (of_nat (length key + length val) :: u32) = length key + length val"
    using assms(3) by (intro unat_of_nat_len) (simp add: record_fits_def)
  ultimately have "unat (pf_offset f + of_nat (length key + length val)) = unat (pf_offset f) + (length key + length val)"
    using unat_add_u32 [of "pf_offset f" "of_nat (length key + length val)"] assms(3)
    by (simp add: record_fits_def del: of_nat_add)
  with assms d show ?thesis
    by (simp add: AppendData_def Let_def EncodeData_exact pwrite_ok_def append_pwrite_def file_ok_def not_le del: of_nat_add)
qed

lemma AppendDataBatch_ok:
  assumes "pwrite_ok pw" "file_ok f" "record_fits len" "len \<le> length buf" "pf_offset f < SEGMENT_SIZE"
  shows "\<exists>f'. AppendDataBatch pw f buf len = Inr (f', True, pf_offset f) \<and> file_ok f' \<and>
    pf_content f' = pf_content f @ take len buf"
proof -
  have "unat (pf_offset f) < 2 ^ 27" using assms(5) SEGMENT_SIZE_nat by (simp add: word_less_nat_alt)
  moreover have d: "unat (of_nat len :: u32) = len"
    using assms(3) by (intro unat_of_nat_len) (simp add: record_fits_def)
  ultimately have "unat (pf_offset f + of_nat len) = unat (pf_offset f) + len"
    using unat_add_u32 [of "pf_offset f" "of_nat len"] assms(3) by (simp add: record_fits_def)
  with assms d show ?thesis
    by (simp add: AppendDataBatch_def Let_def pwrite_ok_def append_pwrite_def file_ok_def not_le mread_def)
qed

lemma AppendIndex_ok:
  assumes "pwrite_ok pw" "record_fits (length key)" "unat ks = length key"
  shows "\<exists>f'. AppendIndex pw f key fi fo ks vs = Inr (f', True) \<and> pf_open f' = pf_open f \<and>
    pf_content f' = pf_content f @ le32 (ks + 16) @ index_body key fi fo ks vs"
proof -
  have "unat (of_nat (length key) + 4 * 5 :: u32) = length key + 20"
    using unat_add_u32 [of "of_nat (length key)" 20] unat_of_nat_len [of "length key"] assms(2)
    by (simp add: record_fits_def)
  with assms show ?thesis
    by (simp add: AppendIndex_def Let_def EncodeIndex_layout pwrite_ok_def append_pwrite_def)
qed

lemma Read_ok:
  assumes "file_ok f" "unat offset + unat n \<le> length (pf_content f)"
  shows "Read f offset n = Inr (Some (mread (pf_content f) (unat offset) (unat n)))"
proof -
  have "\<not> offset > pf_offset f" using assms by (simp add: file_ok_def word_less_nat_alt)
  with assms show ?thesis by (simp add: Read_def file_ok_def)
qed

end
