(* ===== verification/Bitcask.thy ===== *)
theory Bitcask
  imports Posix_File Cuckoo_Map
begin

text \<open>
  The bitcask store, \<^verbatim>\<open>bitcask/db/db_impl.cc\<close>: an append-only log of key-value records
  in data files, a cuckoo table from keys to their places in the log, and index files from
  which the table is rebuilt. One thread at a time; the process memory that an index entry
  with flag 0 points into is a parameter.
\<close>

section \<open>Definitions\<close>

record db_impl =
  hash_table :: "(bytes, Index) cuckoohash_map"
  global_lock :: bool
  sync :: bool
  data_files :: "posix_file option list"
  index_files :: "posix_file option list"
  max_index_num :: nat
  file_num :: u32
  env_of :: env

text \<open>
  The vectors hold pointers to files, \<open>None\<close> for one that is null or was never set; using
  such a pointer, or one out of the range of the vector, is undefined.
\<close>

definition file_at :: "posix_file option list \<Rightarrow> nat \<Rightarrow> posix_file option" where
  "file_at fs i = (if i < length fs then fs ! i else None)"

definition digit :: "nat \<Rightarrow> char" where
  "digit d = char_of (48 + d)"

fun to_string :: "nat \<Rightarrow> string" where
  "to_string n = (if n < 10 then [digit n] else to_string (n div 10) @ [digit (n mod 10)])"

declare to_string.simps [simp del]

text \<open>File names within the data directory; repeated slashes of the paths denote the same file.\<close>

definition DataFileName :: "nat \<Rightarrow> string" where
  "DataFileName n = ''DATA-'' @ to_string n"

definition IndexFileName :: "nat \<Rightarrow> string" where
  "IndexFileName n = ''INDEX-'' @ to_string n"

definition MAX_INDEX_COUNT :: nat where
  "MAX_INDEX_COUNT = 16"

definition DBImpl :: "(bytes, Index) cuckoohash_map \<Rightarrow> bool \<Rightarrow> env \<Rightarrow> db_impl" where
  "DBImpl table sy e =
     \<lparr>hash_table = table, global_lock = Unlock True, sync = sy, data_files = [], index_files = [],
      max_index_num = 0, file_num = 0, env_of = e\<rparr>"

text \<open>The log of an index entry: the table is updated, then the index file of the key's slot.\<close>

definition put_index :: "pwrite_fn \<Rightarrow> db_impl \<Rightarrow> bytes \<Rightarrow> Index \<Rightarrow> db_error + db_impl" where
  "put_index pw db key idx =
     (case insert_or_assign (hash_table db) key idx of
        Inl e \<Rightarrow> Inl (Table_error e)
      | Inr (table, _) \<Rightarrow>
          let slot = unat (Hash key) mod max_index_num db
          in case file_at (index_files db) slot of
               None \<Rightarrow> Inl Undefined
             | Some index_file \<Rightarrow>
                 (case AppendIndex pw index_file key (file_index idx) (file_offset idx)
                         (ucast (key_size idx)) (value_size idx) of
                    Inl e \<Rightarrow> Inl e
                  | Inr (f, _) \<Rightarrow> Inr (db\<lparr>hash_table := table, index_files := (index_files db)[slot := Some f]\<rparr>)))"

definition new_data_file :: "db_impl \<Rightarrow> db_impl" where
  "new_data_file db =
     (let (lck, getLock) = TryLock (global_lock db); db = db\<lparr>global_lock := lck\<rparr>
      in if getLock
         then db\<lparr>data_files := data_files db @ [NewFile (env_of db) (DataFileName (unat (file_num db)))],
                 file_num := file_num db + 1, global_lock := Unlock lck\<rparr>
         else db)"

definition sync_data :: "nat \<Rightarrow> db_impl \<Rightarrow> db_impl" where
  "sync_data i db = (if sync db then db\<lparr>data_files := (data_files db)[i := map_option Sync (data_files db ! i)]\<rparr> else db)"

text \<open>
  The \<^verbatim>\<open>goto\<close> loops of \<^verbatim>\<open>Put\<close> and \<^verbatim>\<open>PutBatch\<close>: \<open>None\<close> is a call that never returns.
\<close>

partial_function (option) Put :: "pwrite_fn \<Rightarrow> bytes \<Rightarrow> bytes \<Rightarrow> db_impl \<Rightarrow> (db_error + db_impl \<times> bool) option" where
  "Put pw key val db =
     (case Lock (global_lock db) of
        None \<Rightarrow> None
      | Some lck \<Rightarrow>
          let fi = file_num db - 1;
              db = db\<lparr>global_lock := Unlock lck\<rparr>;
              i = unat fi
          in (case file_at (data_files db) i of
                None \<Rightarrow> Some (Inl Undefined)
              | Some data_file \<Rightarrow>
                  (case AppendData pw data_file key val of
                     Inl e \<Rightarrow> Some (Inl e)
                   | Inr (f, s, fo) \<Rightarrow>
                       let db = db\<lparr>data_files := (data_files db)[i := Some f]\<rparr>
                       in if s
                          then let db = sync_data i db;
                                   idx = file_Index fi fo (of_nat (length key)) (of_nat (length val))
                               in (case put_index pw db key idx of
                                     Inl e \<Rightarrow> Some (Inl e)
                                   | Inr db \<Rightarrow> Some (Inr (db, True)))
                          else Put pw key val (new_data_file db))))"

text \<open>The loop of \<^verbatim>\<open>PutBatch\<close> over the index entries of the batch.\<close>

fun put_indexes :: "pwrite_fn \<Rightarrow> u32 \<Rightarrow> u32 \<Rightarrow> bytes list \<Rightarrow> Index list \<Rightarrow> db_impl \<Rightarrow> db_error + db_impl" where
  "put_indexes pw fi fo keys [] db = Inr db"
| "put_indexes pw fi fo [] (idx # idxs) db = Inl Undefined"
| "put_indexes pw fi fo (key # keys) (idx # idxs) db =
     (case put_index pw db key (set_fileaddr idx fi (fo + file_offset idx)) of
        Inl e \<Rightarrow> Inl e
      | Inr db \<Rightarrow> put_indexes pw fi fo keys idxs db)"

partial_function (option) PutBatch :: "pwrite_fn \<Rightarrow> bytes list \<Rightarrow> Index list \<Rightarrow> bytes \<Rightarrow> nat \<Rightarrow> db_impl
    \<Rightarrow> (db_error + db_impl \<times> bool) option" where
  "PutBatch pw key_batch index_batch buf len db =
     (case Lock (global_lock db) of
        None \<Rightarrow> None
      | Some lck \<Rightarrow>
          let fi = file_num db - 1;
              db = db\<lparr>global_lock := Unlock lck\<rparr>;
              i = unat fi
          in (case file_at (data_files db) i of
                None \<Rightarrow> Some (Inl Undefined)
              | Some data_file \<Rightarrow>
                  (case AppendDataBatch pw data_file buf len of
                     Inl e \<Rightarrow> Some (Inl e)
                   | Inr (f, s, fo) \<Rightarrow>
                       let db = db\<lparr>data_files := (data_files db)[i := Some f]\<rparr>
                       in if s
                          then (case put_indexes pw fi fo key_batch index_batch (sync_data i db) of
                                  Inl e \<Rightarrow> Some (Inl e)
                                | Inr db \<Rightarrow> Some (Inr (db, True)))
                          else PutBatch pw key_batch index_batch buf len (new_data_file db))))"

definition PutIndex :: "db_impl \<Rightarrow> bytes \<Rightarrow> Index \<Rightarrow> db_error + db_impl" where
  "PutIndex db key idx =
     (case insert_or_assign (hash_table db) key idx of
        Inl e \<Rightarrow> Inl (Table_error e)
      | Inr (table, _) \<Rightarrow> Inr (db\<lparr>hash_table := table\<rparr>))"

text \<open>\<open>Inr (db, None)\<close> is the result false, \<open>Inr (db, Some v)\<close> true with the value.\<close>

definition Get :: "(u64 \<Rightarrow> nat \<Rightarrow> bytes option) \<Rightarrow> db_impl \<Rightarrow> bytes \<Rightarrow> db_error + db_impl \<times> bytes option" where
  "Get mem db key =
     (let (table, idx) = find_default default_Index (hash_table db) key;
          db = db\<lparr>hash_table := table\<rparr>
      in if Index_neq idx default_Index
         then if flag idx = 0
              then (case Option.bind (mem (addr idx) (unat (DataSize idx)))
                           (\<lambda>buf. DecodeData buf (ucast (key_size idx)) (value_size idx)) of
                      None \<Rightarrow> Inl Undefined
                    | Some v \<Rightarrow> Inr (db, Some v))
              else (case file_at (data_files db) (unat (file_index idx)) of
                      None \<Rightarrow> Inl Undefined
                    | Some data_file \<Rightarrow>
                        (case Read data_file (file_offset idx) (DataSize idx) of
                           Inl e \<Rightarrow> Inl e
                         | Inr None \<Rightarrow> Inr (db, None)
                         | Inr (Some buf) \<Rightarrow>
                             (case DecodeData buf (ucast (key_size idx)) (value_size idx) of
                                None \<Rightarrow> Inl Undefined
                              | Some v \<Rightarrow> Inr (db, Some v))))
         else Inr (db, None))"

definition Delete :: "db_impl \<Rightarrow> bytes \<Rightarrow> db_impl \<times> bool" where
  "Delete db key =
     (let (table, idx) = find_default default_Index (hash_table db) key
      in if Index_neq idx default_Index
         then (db\<lparr>hash_table := fst (erase table key)\<rparr>, True)
         else (db\<lparr>hash_table := table\<rparr>, False))"

section \<open>Recovery\<close>

text \<open>
  \<^verbatim>\<open>IndexCallback\<close>: the loop over the records of one index file. \<open>idx\<close> is declared
  outside the loop and only its address and its sizes are assigned.
\<close>

partial_function (option) index_loop :: "posix_file \<Rightarrow> u32 \<Rightarrow> u32 \<Rightarrow> Index \<Rightarrow> (bytes, Index) cuckoohash_map
    \<Rightarrow> (db_error + (bytes, Index) cuckoohash_map) option" where
  "index_loop f end_offset pos idx t =
     (if pos < end_offset
      then (case Read f pos 4 of
              Inl e \<Rightarrow> Some (Inl e)
            | Inr None \<Rightarrow> index_loop f end_offset pos idx t
            | Inr (Some size_buf) \<Rightarrow>
                (case DecodeFixed32 size_buf 0 of
                   None \<Rightarrow> Some (Inl Undefined)
                 | Some index_size \<Rightarrow>
                     (case Read f (pos + 4) index_size of
                        Inl e \<Rightarrow> Some (Inl e)
                      | Inr None \<Rightarrow> index_loop f end_offset (pos + 4) idx t
                      | Inr (Some index_buf) \<Rightarrow>
                          (case DecodeIndex index_buf of
                             None \<Rightarrow> Some (Inl Undefined)
                           | Some d \<Rightarrow>
                               let idx = (set_fileaddr idx (d_file_index d) (d_file_offset d))
                                     \<lparr>key_size := ucast (d_key_size d), value_size := d_value_size d\<rparr>;
                                   pos = pos + 4 + index_size
                               in if value_size idx > 0
                                  then (case insert_or_assign t (d_key d) idx of
                                          Inl e \<Rightarrow> Some (Inl (Table_error e))
                                        | Inr (t, _) \<Rightarrow> index_loop f end_offset pos idx t)
                                  else index_loop f end_offset pos idx (fst (erase t (d_key d)))))))
      else Some (Inr t))"

definition IndexCallback :: "posix_file \<Rightarrow> (bytes, Index) cuckoohash_map
    \<Rightarrow> (db_error + (bytes, Index) cuckoohash_map) option" where
  "IndexCallback f t =
     (if pf_offset f \<noteq> 0 then index_loop f (pf_offset f) 0 default_Index t else Some (Inr t))"

text \<open>\<^verbatim>\<open>stoi\<close>: \<open>None\<close> is the exception for text that is no number or does not fit an \<^verbatim>\<open>int\<close>.\<close>

definition digit_val :: "char \<Rightarrow> nat option" where
  "digit_val c = (let n = of_char c in if 48 \<le> n \<and> n \<le> 57 then Some (n - 48) else None)"

fun read_digits :: "nat \<Rightarrow> string \<Rightarrow> nat" where
  "read_digits acc [] = acc"
| "read_digits acc (c # cs) =
     (case digit_val c of None \<Rightarrow> acc | Some d \<Rightarrow> read_digits (10 * acc + d) cs)"

definition is_space :: "char \<Rightarrow> bool" where
  "is_space c \<longleftrightarrow> of_char c \<in> {9, 10, 11, 12, 13, 32 :: nat}"

definition stoi :: "string \<Rightarrow> int option" where
  "stoi str =
     (let s = dropWhile is_space str;
          (sign, digits) =
            (case s of
               c # cs \<Rightarrow> if c = CHR ''-'' then (- 1, cs) else if c = CHR ''+'' then (1, cs) else (1, s)
             | [] \<Rightarrow> (1, s))
      in case digits of
           [] \<Rightarrow> None
         | c # cs \<Rightarrow>
             if digit_val c = None then None
             else let n = sign * int (read_digits 0 digits)
                  in if - (2 ^ 31) \<le> n \<and> n < 2 ^ 31 then Some n else None)"

definition has_substring :: "string \<Rightarrow> string \<Rightarrow> bool" where
  "has_substring p s \<longleftrightarrow> (\<exists>i \<in> set [0..<Suc (length s)]. take (length p) (drop i s) = p)"

text \<open>\<^verbatim>\<open>name.substr(name.find_first_of("-") + 1)\<close>, the whole name when it has no dash.\<close>

definition after_dash :: "string \<Rightarrow> string" where
  "after_dash name =
     (case dropWhile (\<lambda>c. c \<noteq> CHR ''-'') name of [] \<Rightarrow> name | _ # rest \<Rightarrow> rest)"

definition resize :: "posix_file option list \<Rightarrow> nat \<Rightarrow> posix_file option list" where
  "resize fs n = take n fs @ replicate (n - length fs) None"

text \<open>
  \<^verbatim>\<open>Recover\<close>: the loop over the entries of the directory, and the callbacks of the index
  files, here run one after the other (in the code one thread each, joined at the end).
\<close>

fun recover_entries :: "(string \<times> bool) list \<Rightarrow> db_impl \<Rightarrow> posix_file option list
    \<Rightarrow> db_error + db_impl \<times> posix_file option list" where
  "recover_entries [] db todo = Inr (db, todo)"
| "recover_entries ((name, is_dir) # entries) db todo =
     (if is_dir \<or> name = ''pmrlog.log'' then recover_entries entries db todo
      else case stoi (after_dash name) of
             None \<Rightarrow> Inl Uncaught_exception
           | Some n \<Rightarrow>
               let file_id = word_of_int n :: u32
               in if has_substring ''INDEX'' name
                  then let f = NewFile (env_of db) name
                       in if unat file_id < length (index_files db)
                          then recover_entries entries
                                 (db\<lparr>index_files := (index_files db)[unat file_id := f]\<rparr>) (todo @ [f])
                          else Inl Undefined
                  else if has_substring ''DATA'' name
                  then let db = (if file_id + 1 > file_num db
                                 then db\<lparr>data_files := resize (data_files db) (unat (file_id + 1)),
                                         file_num := file_id + 1\<rparr>
                                 else db)
                       in if unat file_id < length (data_files db)
                          then recover_entries entries
                                 (db\<lparr>data_files := (data_files db)[unat file_id := NewFile (env_of db) name]\<rparr>) todo
                          else Inl Undefined
                  else recover_entries entries db todo)"

fun run_callbacks :: "posix_file option list \<Rightarrow> (bytes, Index) cuckoohash_map
    \<Rightarrow> (db_error + (bytes, Index) cuckoohash_map) option" where
  "run_callbacks [] t = Some (Inr t)"
| "run_callbacks (None # fs) t = Some (Inl Undefined)"
| "run_callbacks (Some f # fs) t =
     (case IndexCallback f t of
        None \<Rightarrow> None
      | Some (Inl e) \<Rightarrow> Some (Inl e)
      | Some (Inr t) \<Rightarrow> run_callbacks fs t)"

definition Recover :: "(string \<times> bool) list \<Rightarrow> db_impl \<Rightarrow> (db_error + db_impl) option" where
  "Recover entries db =
     (case recover_entries entries (db\<lparr>file_num := 0\<rparr>) [] of
        Inl e \<Rightarrow> Some (Inl e)
      | Inr (db, todo) \<Rightarrow>
          (case run_callbacks todo (hash_table db) of
             None \<Rightarrow> None
           | Some (Inl e) \<Rightarrow> Some (Inl e)
           | Some (Inr t) \<Rightarrow> Some (Inr (db\<lparr>hash_table := t\<rparr>))))"

text \<open>
  \<^verbatim>\<open>DB::Open\<close>. \<open>listing\<close> is the directory as \<^verbatim>\<open>readdir\<close> returns it, \<open>None\<close> when it does
  not exist; \<open>mkdir_ok\<close> is whether creating it succeeds. \<open>Inr None\<close> is a null pointer.
\<close>

definition Open :: "(bytes, Index) cuckoohash_map \<Rightarrow> bool \<Rightarrow> env \<Rightarrow> (string \<times> bool) list option \<Rightarrow> bool
    \<Rightarrow> (db_error + db_impl option) option" where
  "Open table sy e listing mkdir_ok =
     (let impl = DBImpl table sy e
      in case listing of
           None \<Rightarrow>
             if \<not> mkdir_ok then Some (Inr None)
             else (case NewFile e (DataFileName 0) of
                     None \<Rightarrow> Some (Inr None)
                   | Some first_data \<Rightarrow>
                       let fs = map (\<lambda>i. NewFile e (IndexFileName i)) [0..<MAX_INDEX_COUNT]
                       in if None \<in> set fs then Some (Inr None)
                          else Some (Inr (Some (impl\<lparr>data_files := [Some first_data], file_num := 1,
                                 max_index_num := MAX_INDEX_COUNT, index_files := fs\<rparr>))))
         | Some entries \<Rightarrow>
             (case Recover entries (impl\<lparr>max_index_num := MAX_INDEX_COUNT,
                                         index_files := replicate MAX_INDEX_COUNT None\<rparr>) of
                None \<Rightarrow> None
              | Some (Inl e) \<Rightarrow> Some (Inl e)
              | Some (Inr db) \<Rightarrow> Some (Inr (Some db))))"

end
