(* ===== verification/Bitcask_Map.thy ===== *)
theory Bitcask_Map
  imports Bitcask
begin

text \<open>
  The bitcask store as a map from keys to values: the invariant that ties the table to the
  log, and that \<^verbatim>\<open>Put\<close>, \<^verbatim>\<open>PutBatch\<close>, \<^verbatim>\<open>Get\<close> and \<^verbatim>\<open>Delete\<close> are the operations of
  the map; what a reopened store makes of its index files.
\<close>

section \<open>The invariant and the map\<close>

definition entry_ok :: "db_impl \<Rightarrow> bytes \<Rightarrow> Index \<Rightarrow> bool" where
  "entry_ok db k idx \<longleftrightarrow>
     flag idx = 1 \<and> unat (key_size idx) = length k \<and> record_fits (length k + unat (value_size idx)) \<and>
     (\<exists>f. file_at (data_files db) (unat (file_index idx)) = Some f \<and>
          unat (file_offset idx) + (length k + unat (value_size idx)) \<le> length (pf_content f))"

definition entry_value :: "db_impl \<Rightarrow> Index \<Rightarrow> bytes" where
  "entry_value db idx =
     (case file_at (data_files db) (unat (file_index idx)) of
        None \<Rightarrow> []
      | Some f \<Rightarrow> mread (pf_content f) (unat (file_offset idx) + unat (key_size idx)) (unat (value_size idx)))"

definition files_ok :: "db_impl \<Rightarrow> bool" where
  "files_ok db \<longleftrightarrow>
     \<not> global_lock db \<and> data_files db \<noteq> [] \<and> unat (file_num db) = length (data_files db) \<and>
     (\<forall>i < length (data_files db). \<exists>f. data_files db ! i = Some f \<and> file_ok f) \<and>
     max_index_num db = MAX_INDEX_COUNT \<and> length (index_files db) = MAX_INDEX_COUNT \<and>
     None \<notin> set (index_files db) \<and>
     (\<forall>n \<ge> length (data_files db). open_ok (env_of db) (DataFileName n) \<and>
        dir_files (env_of db) (DataFileName n) = None)"

definition db_ok :: "db_impl \<Rightarrow> bool" where
  "db_ok db \<longleftrightarrow>
     files_ok db \<and> cuckoo_invar (hash_table db) \<and>
     (\<forall>k idx. cuckoo_lookup (hash_table db) k = Some idx \<longrightarrow> entry_ok db k idx)"

definition db_map :: "db_impl \<Rightarrow> bytes \<rightharpoonup> bytes" where
  "db_map db k = map_option (entry_value db) (cuckoo_lookup (hash_table db) k)"

text \<open>Logs only grow, so old entries keep their values.\<close>

definition extends :: "db_impl \<Rightarrow> db_impl \<Rightarrow> bool" where
  "extends db db' \<longleftrightarrow>
     (\<forall>i f. file_at (data_files db) i = Some f \<longrightarrow>
        (\<exists>f' r. file_at (data_files db') i = Some f' \<and> pf_content f' = pf_content f @ r))"

lemma extends_refl: "data_files db' = data_files db \<Longrightarrow> extends db db'"
  by (auto simp: extends_def intro: exI [of _ "[]"])

lemma extends_trans: "extends a b \<Longrightarrow> extends b c \<Longrightarrow> extends a c"
  unfolding extends_def by (metis append.assoc)

lemma entry_extends:
  assumes "extends db db'" "entry_ok db k idx"
  shows "entry_ok db' k idx" "entry_value db' idx = entry_value db idx"
proof -
  from assms(2) obtain f where f: "file_at (data_files db) (unat (file_index idx)) = Some f"
    "unat (file_offset idx) + (length k + unat (value_size idx)) \<le> length (pf_content f)"
    and k: "unat (key_size idx) = length k" unfolding entry_ok_def by blast
  from assms(1) f(1) obtain f' r where f': "file_at (data_files db') (unat (file_index idx)) = Some f'"
    "pf_content f' = pf_content f @ r" unfolding extends_def by blast
  show "entry_ok db' k idx" using assms(2) f f' unfolding entry_ok_def by auto
  show "entry_value db' idx = entry_value db idx"
    using f f' k by (simp add: entry_value_def mread_append_left)
qed

lemma db_map_extends:
  assumes "db_ok db" "extends db db'" "cuckoo_lookup (hash_table db') = cuckoo_lookup (hash_table db)"
  shows "db_map db' = db_map db"
proof
  fix k
  show "db_map db' k = db_map db k"
    using assms entry_extends(2) [OF assms(2)] by (cases "cuckoo_lookup (hash_table db) k") (auto simp: db_map_def db_ok_def)
qed

lemma files_okD: "files_ok db \<Longrightarrow> file_at (data_files db) i = Some f \<Longrightarrow> file_ok f"
  by (fastforce simp: files_ok_def file_at_def split: if_splits)

section \<open>Get and Delete\<close>

lemma find_default_spec:
  assumes "cuckoo_invar t"
  shows "cuckoo_invar (fst (find_default d t k)) \<and> cuckoo_lookup (fst (find_default d t k)) = cuckoo_lookup t \<and>
    snd (find_default d t k) = (case cuckoo_lookup t k of None \<Rightarrow> d | Some v \<Rightarrow> v)"
  using cm.find_result [OF assms, of k] cm.find_invar [OF assms, of k] cm.find_lookup [OF assms, of k]
  by (cases "find_fn t k") (auto simp: find_default_def split: option.splits)

lemma db_ok_table:
  assumes "db_ok db" "cuckoo_invar t" "cuckoo_lookup t = cuckoo_lookup (hash_table db)"
  shows "db_ok (db\<lparr>hash_table := t\<rparr>)" "db_map (db\<lparr>hash_table := t\<rparr>) = db_map db"
  using assms unfolding db_ok_def files_ok_def entry_ok_def db_map_def entry_value_def
  by (auto simp: fun_eq_iff)

lemma entry_found: "flag idx = 1 \<Longrightarrow> Index_neq idx default_Index"
  by (simp add: Index_neq_def default_Index_def)

lemma unat_ucast_31: "unat (ucast (w :: 31 word) :: u32) = unat w"
proof -
  have "unat w < 2 ^ LENGTH(31)" by (rule unsigned_less)
  then show ?thesis by (simp add: unsigned_ucast_eq take_bit_nat_eq_self)
qed

lemma ucast_of_nat_31: "(ucast (of_nat n :: u32) :: 31 word) = of_nat n"
  by (rule bit_word_eqI) (auto simp: bit_simps)

lemma DataSize_entry:
  assumes "entry_ok db k idx"
  shows "unat (DataSize idx) = length k + unat (value_size idx)"
proof -
  have "unat (ucast (key_size idx) :: u32) = length k" using assms by (simp add: unat_ucast_31 entry_ok_def)
  then show ?thesis
    using assms unat_add_u32 [of "ucast (key_size idx)" "value_size idx"]
    by (simp add: DataSize_def entry_ok_def record_fits_def)
qed

lemma Get_map:
  assumes ok: "db_ok db"
  shows "\<exists>db'. Get mem db key = Inr (db', db_map db key) \<and> db_ok db' \<and> db_map db' = db_map db"
proof -
  let ?t = "hash_table db"
  obtain t idx where fd: "find_default default_Index ?t key = (t, idx)" by (cases "find_default default_Index ?t key")
  have inv: "cuckoo_invar ?t" using ok by (simp add: db_ok_def)
  have t: "cuckoo_invar t" "cuckoo_lookup t = cuckoo_lookup ?t"
    and idx: "idx = (case cuckoo_lookup ?t key of None \<Rightarrow> default_Index | Some v \<Rightarrow> v)"
    using find_default_spec [OF inv, of default_Index key] fd by auto
  note tab = db_ok_table [OF ok t]
  show ?thesis
  proof (cases "cuckoo_lookup ?t key")
    case None
    then have "Get mem db key = Inr (db\<lparr>hash_table := t\<rparr>, None)"
      using fd idx by (simp add: Get_def Index_neq_def)
    with None tab show ?thesis by (simp add: db_map_def)
  next
    case (Some i)
    then have e: "entry_ok db key idx" using ok idx by (simp add: db_ok_def)
    from e obtain f where f: "file_at (data_files db) (unat (file_index idx)) = Some f"
      "unat (file_offset idx) + (length key + unat (value_size idx)) \<le> length (pf_content f)"
      unfolding entry_ok_def by blast
    have fok: "file_ok f" by (rule files_okD [OF _ f(1)]) (use ok in \<open>simp add: db_ok_def\<close>)
    have ds: "unat (DataSize idx) = length key + unat (value_size idx)" by (rule DataSize_entry [OF e])
    have ks: "unat (ucast (key_size idx) :: u32) = length key" using e by (simp add: unat_ucast_31 entry_ok_def)
    have rd: "Read f (file_offset idx) (DataSize idx) = Inr (Some (mread (pf_content f) (unat (file_offset idx)) (unat (DataSize idx))))"
      by (rule Read_ok [OF fok]) (use f ds in simp)
    have "DecodeData (mread (pf_content f) (unat (file_offset idx)) (unat (DataSize idx))) (ucast (key_size idx)) (value_size idx)
      = Some (entry_value db idx)"
      using f ds ks e by (simp add: DecodeData_def entry_value_def mread_mread entry_ok_def)
    moreover have "flag idx = 1" using e by (simp add: entry_ok_def)
    ultimately have "Get mem db key = Inr (db\<lparr>hash_table := t\<rparr>, Some (entry_value db idx))"
      using fd f rd entry_found [of idx] by (simp add: Get_def Let_def)
    with Some tab idx show ?thesis by (simp add: db_map_def)
  qed
qed

lemma Delete_map:
  assumes ok: "db_ok db"
  shows "\<exists>db'. Delete db key = (db', db_map db key \<noteq> None) \<and> db_ok db' \<and> db_map db' = (db_map db)(key := None)"
proof -
  let ?t = "hash_table db"
  obtain t idx where fd: "find_default default_Index ?t key = (t, idx)" by (cases "find_default default_Index ?t key")
  have inv: "cuckoo_invar ?t" using ok by (simp add: db_ok_def)
  have t: "cuckoo_invar t" "cuckoo_lookup t = cuckoo_lookup ?t"
    and idx: "idx = (case cuckoo_lookup ?t key of None \<Rightarrow> default_Index | Some v \<Rightarrow> v)"
    using find_default_spec [OF inv, of default_Index key] fd by auto
  show ?thesis
  proof (cases "cuckoo_lookup ?t key")
    case None
    then have "Delete db key = (db\<lparr>hash_table := t\<rparr>, False)" using fd idx by (simp add: Delete_def Index_neq_def)
    with None db_ok_table [OF ok t] show ?thesis by (auto simp: db_map_def fun_upd_idem)
  next
    case (Some i)
    then have "entry_ok db key idx" using ok idx by (simp add: db_ok_def)
    then have "Index_neq idx default_Index" by (intro entry_found) (simp add: entry_ok_def)
    then have "Delete db key = (db\<lparr>hash_table := fst (erase t key)\<rparr>, True)" using fd by (simp add: Delete_def)
    moreover have "db_ok (db\<lparr>hash_table := fst (erase t key)\<rparr>)" "db_map (db\<lparr>hash_table := fst (erase t key)\<rparr>) = (db_map db)(key := None)"
      using ok cm.erase_invar [OF t(1), of key] cm.erase_lookup [OF t(1), of key] t(2)
      unfolding db_ok_def files_ok_def entry_ok_def db_map_def entry_value_def by (auto simp: fun_eq_iff)
    ultimately show ?thesis using Some by (simp add: db_map_def)
  qed
qed

section \<open>Put\<close>

lemma file_at_update: "i < length fs \<Longrightarrow> file_at (fs[i := x]) j = (if j = i then x else file_at fs j)"
  by (auto simp: file_at_def)

text \<open>Growing one data file.\<close>

lemma grow_file:
  assumes ok: "db_ok db" and f: "file_at (data_files db) i = Some f"
    and f': "file_ok f'" "pf_content f' = pf_content f @ r"
    and db': "db' = db\<lparr>data_files := (data_files db)[i := Some f']\<rparr>"
  shows "db_ok db' \<and> extends db db' \<and> db_map db' = db_map db \<and> file_at (data_files db') i = Some f'"
proof -
  have i: "i < length (data_files db)" using f by (auto simp: file_at_def split: if_splits)
  have at: "file_at (data_files db') j = (if j = i then Some f' else file_at (data_files db) j)" for j
    unfolding db' by (simp add: file_at_update [OF i])
  have ext: "extends db db'"
    unfolding extends_def at using f f' by (auto intro: exI [of _ "[]"])
  have fs: "files_ok db'"
    using ok f'(1) i unfolding db_ok_def files_ok_def db' by (auto simp: nth_list_update)
  have "db_ok db'"
    unfolding db_ok_def using fs ok entry_extends(1) [OF ext] by (auto simp: db_ok_def db')
  moreover have "db_map db' = db_map db" by (rule db_map_extends [OF ok ext]) (simp add: db')
  ultimately show ?thesis using ext at by simp
qed

lemma sync_data_ok:
  assumes ok: "db_ok db" and f: "file_at (data_files db) i = Some f"
  shows "db_ok (sync_data i db) \<and> extends db (sync_data i db) \<and> db_map (sync_data i db) = db_map db \<and>
    file_at (data_files (sync_data i db)) i = Some (if sync db then Sync f else f)"
proof (cases "sync db")
  case True
  have fok: "file_ok f" by (rule files_okD [OF _ f]) (use ok in \<open>simp add: db_ok_def\<close>)
  have "data_files db ! i = Some f" using f by (auto simp: file_at_def split: if_splits)
  then have "sync_data i db = db\<lparr>data_files := (data_files db)[i := Some (Sync f)]\<rparr>"
    using True by (simp add: sync_data_def)
  with grow_file [OF ok f, of "Sync f" "[]"] fok True show ?thesis by (simp add: file_ok_def Sync_def)
next
  case False
  then show ?thesis using ok f by (simp add: sync_data_def extends_refl)
qed

lemma length_sync_data [simp]: "length (data_files (sync_data i db)) = length (data_files db)"
  by (simp add: sync_data_def)

lemma new_data_file_ok:
  assumes ok: "db_ok db" and n: "length (data_files db) < 2 ^ 32 - 1"
  shows "db_ok (new_data_file db) \<and> extends db (new_data_file db) \<and> db_map (new_data_file db) = db_map db \<and>
    length (data_files (new_data_file db)) = Suc (length (data_files db)) \<and>
    (\<exists>f. file_at (data_files (new_data_file db)) (length (data_files db)) = Some f \<and> pf_offset f = 0 \<and> file_ok f)"
proof -
  let ?n = "length (data_files db)"
  have fo: "files_ok db" using ok by (simp add: db_ok_def)
  have fn: "unat (file_num db) = ?n" and lk: "\<not> global_lock db" using fo by (auto simp: files_ok_def)
  obtain f where f: "NewFile (env_of db) (DataFileName ?n) = Some f" "file_ok f" "pf_content f = []"
    using NewFile_fresh [of "env_of db" "DataFileName ?n"] fo by (auto simp: files_ok_def)
  have d: "new_data_file db = db\<lparr>data_files := data_files db @ [Some f], file_num := file_num db + 1, global_lock := False\<rparr>"
    using lk f fn by (simp add: new_data_file_def TryLock_def Unlock_def Let_def)
  have fn1: "unat (file_num db + 1) = Suc ?n" using fn n by (simp add: unat_word_ariths)
  have ext: "extends db (new_data_file db)"
    unfolding extends_def d by (auto simp: file_at_def nth_append split: if_splits intro: exI [of _ "[]"])
  have "files_ok (new_data_file db)"
    using fo fn1 f(2) unfolding files_ok_def d by (auto simp: nth_append less_Suc_eq)
  then have "db_ok (new_data_file db)"
    unfolding db_ok_def using ok entry_extends(1) [OF ext] by (auto simp: db_ok_def d)
  moreover have "db_map (new_data_file db) = db_map db" by (rule db_map_extends [OF ok ext]) (simp add: d)
  moreover have "pf_offset f = 0" using f by (simp add: file_ok_def unsigned_eq_0_iff)
  ultimately show ?thesis using ext f by (simp add: d file_at_def)
qed

lemma put_index_ok:
  assumes ok: "db_ok db" and e: "entry_ok db key idx" and pw: "pwrite_ok pw"
  shows "(\<exists>c. put_index pw db key idx = Inl (Table_error c) \<and> c \<noteq> No_return) \<or>
    (\<exists>db'. put_index pw db key idx = Inr db' \<and> db_ok db' \<and> data_files db' = data_files db \<and>
       db_map db' = (db_map db)(key \<mapsto> entry_value db idx))"
proof (cases "insert_or_assign (hash_table db) key idx")
  case (Inl c)
  have "cuckoo_invar (hash_table db)" using ok by (simp add: db_ok_def)
  from cm.insert_returns [OF this, of key idx] Inl show ?thesis by (simp add: put_index_def)
next
  case (Inr q)
  obtain t b where q: "q = (t, b)" by (cases q)
  have inv: "cuckoo_invar (hash_table db)" and fo: "files_ok db" using ok by (auto simp: db_ok_def)
  note ins = Inr [unfolded q]
  note t = cm.insert_invar [OF inv ins] cm.insert_lookup [OF inv ins]
  let ?slot = "unat (Hash key) mod max_index_num db"
  have sl: "?slot < length (index_files db)" using fo by (simp add: files_ok_def MAX_INDEX_COUNT_def)
  then have "index_files db ! ?slot \<noteq> None" using fo nth_mem [OF sl] by (metis files_ok_def)
  then obtain g where g: "file_at (index_files db) ?slot = Some g" using sl by (auto simp: file_at_def)
  have ks: "unat (ucast (key_size idx) :: u32) = length key" using e by (simp add: unat_ucast_31 entry_ok_def)
  have rf: "record_fits (length key)" using e by (simp add: entry_ok_def record_fits_def)
  obtain g' where g': "AppendIndex pw g key (file_index idx) (file_offset idx) (ucast (key_size idx)) (value_size idx) = Inr (g', True)"
    using AppendIndex_ok [OF pw rf ks] by blast
  let ?db = "db\<lparr>hash_table := t, index_files := (index_files db)[?slot := Some g']\<rparr>"
  have pi: "put_index pw db key idx = Inr ?db" using ins g g' by (simp add: put_index_def)
  have fo': "files_ok ?db" using fo unfolding files_ok_def by (auto dest: set_update_subset_insert [THEN subsetD])
  have eq: "entry_ok ?db = entry_ok db" "entry_value ?db = entry_value db"
    by (auto simp: fun_eq_iff entry_ok_def entry_value_def)
  have "db_ok ?db" using fo' t ok e unfolding db_ok_def eq by auto
  moreover have "db_map ?db = (db_map db)(key \<mapsto> entry_value db idx)"
    by (rule ext) (simp add: db_map_def eq t(2))
  ultimately show ?thesis using pi by auto
qed

text \<open>The last data file of the store, to which records are appended.\<close>

lemma last_file:
  assumes "db_ok db"
  shows "unat (file_num db - 1) = length (data_files db) - 1"
    and "\<exists>f. file_at (data_files db) (length (data_files db) - 1) = Some f \<and> file_ok f"
proof -
  have fo: "files_ok db" using assms by (simp add: db_ok_def)
  then have "file_num db \<noteq> 0" "unat (file_num db) = length (data_files db)"
    by (auto simp: files_ok_def)
  then show "unat (file_num db - 1) = length (data_files db) - 1"
    by (metis unat_minus_one)
  show "\<exists>f. file_at (data_files db) (length (data_files db) - 1) = Some f \<and> file_ok f"
    using fo by (auto simp: files_ok_def file_at_def)
qed

lemma new_entry_ok:
  assumes f: "file_at (data_files db) (unat fi) = Some f"
    and c: "pf_content f = pre @ key @ val" "unat fo = length pre" and r: "record_fits (length key + length val)"
  defines "idx \<equiv> file_Index fi fo (of_nat (length key)) (of_nat (length val))"
  shows "entry_ok db key idx" "entry_value db idx = val"
proof -
  have l: "length key < 2 ^ 31" "length val < 2 ^ 31" using r by (auto simp: record_fits_def)
  then have k: "unat (key_size idx) = length key" and v: "unat (value_size idx) = length val"
    by (simp_all add: idx_def unsigned_ucast_eq unat_of_nat_len unat_of_nat take_bit_nat_eq_self)
  show "entry_ok db key idx" using f c r k v by (simp add: entry_ok_def idx_def)
  show "entry_value db idx = val" using f c k v by (simp add: entry_value_def idx_def mread_def)
qed

lemma Put_append:
  assumes ok: "db_ok db" and pw: "pwrite_ok pw" and r: "record_fits (length key + length val)"
    and f: "file_at (data_files db) (length (data_files db) - 1) = Some f" "pf_offset f < SEGMENT_SIZE"
  shows "(\<exists>c. Put pw key val db = Some (Inl (Table_error c)) \<and> c \<noteq> No_return) \<or>
    (\<exists>db'. Put pw key val db = Some (Inr (db', True)) \<and> db_ok db' \<and> db_map db' = (db_map db)(key \<mapsto> val)
       \<and> length (data_files db') = length (data_files db))"
proof -
  let ?i = "length (data_files db) - 1"
  have fok: "file_ok f" by (rule files_okD [OF _ f(1)]) (use ok in \<open>simp add: db_ok_def\<close>)
  have lk: "\<not> global_lock db" using ok by (simp add: db_ok_def files_ok_def)
  have un: "db\<lparr>global_lock := False\<rparr> = db" using lk by simp
  obtain f' where f': "AppendData pw f key val = Inr (f', True, pf_offset f)" "file_ok f'"
    "pf_content f' = pf_content f @ key @ val"
    using AppendData_ok [OF pw fok r f(2)] by blast
  let ?db1 = "db\<lparr>data_files := (data_files db)[?i := Some f']\<rparr>"
  from grow_file [OF ok f(1) f'(2,3) refl] have g: "db_ok ?db1" "db_map ?db1 = db_map db" "file_at (data_files ?db1) ?i = Some f'" by auto
  let ?db2 = "sync_data ?i ?db1"
  from sync_data_ok [OF g(1,3)] have s: "db_ok ?db2" "db_map ?db2 = db_map ?db1"
    "file_at (data_files ?db2) ?i = Some (if sync ?db1 then Sync f' else f')" by auto
  let ?f2 = "if sync ?db1 then Sync f' else f'" and ?fi = "file_num db - 1"
  let ?idx = "file_Index ?fi (pf_offset f) (of_nat (length key)) (of_nat (length val))"
  have fi: "unat ?fi = ?i" by (rule last_file(1) [OF ok])
  have c2: "pf_content ?f2 = pf_content f @ key @ val" using f'(3) by (simp add: Sync_def)
  have off: "unat (pf_offset f) = length (pf_content f)" using fok by (simp add: file_ok_def)
  note e = new_entry_ok [of ?db2 ?fi ?f2, OF _ c2 off r]
  have P: "Put pw key val db = (case put_index pw ?db2 key ?idx of Inl e \<Rightarrow> Some (Inl e) | Inr db \<Rightarrow> Some (Inr (db, True)))"
    using lk f(1) f'(1) fi by (subst Put.simps) (simp add: Lock_def Unlock_def Let_def un)
  have "entry_ok ?db2 key ?idx" "entry_value ?db2 ?idx = val" using e s(3) fi by simp_all
  from put_index_ok [OF s(1) this(1) pw] this(2) s(2) g(2) show ?thesis
    unfolding P by fastforce
qed

lemma Put_map:
  assumes ok: "db_ok db" and pw: "pwrite_ok pw" and r: "record_fits (length key + length val)"
    and n: "length (data_files db) < 2 ^ 32 - 1"
  shows "(\<exists>c. Put pw key val db = Some (Inl (Table_error c)) \<and> c \<noteq> No_return) \<or>
    (\<exists>db'. Put pw key val db = Some (Inr (db', True)) \<and> db_ok db' \<and> db_map db' = (db_map db)(key \<mapsto> val)
       \<and> length (data_files db') \<le> Suc (length (data_files db)))"
proof -
  let ?i = "length (data_files db) - 1"
  obtain f where f: "file_at (data_files db) ?i = Some f" "file_ok f" using last_file(2) [OF ok] by blast
  show ?thesis
  proof (cases "pf_offset f < SEGMENT_SIZE")
    case True
    then show ?thesis using Put_append [OF ok pw r f(1)] by auto
  next
    case False
    have lk: "\<not> global_lock db" using ok by (simp add: db_ok_def files_ok_def)
    then have un: "db\<lparr>global_lock := False\<rparr> = db" by simp
    have fi: "unat (file_num db - 1) = ?i" by (rule last_file(1) [OF ok])
    have same: "(data_files db)[?i := Some f] = data_files db"
      using f(1) by (auto simp: file_at_def list_update_same_conv split: if_splits)
    have "AppendData pw f key val = Inr (f, False, 0)" by (rule AppendData_full [OF r]) (use False in simp)
    then have P: "Put pw key val db = Put pw key val (new_data_file db)"
      using lk f(1) fi by (subst Put.simps) (simp add: Lock_def Unlock_def Let_def un same [simplified])
    from new_data_file_ok [OF ok n] obtain g where N: "db_ok (new_data_file db)" "db_map (new_data_file db) = db_map db"
      "length (data_files (new_data_file db)) = Suc (length (data_files db))"
      "file_at (data_files (new_data_file db)) (length (data_files db)) = Some g" "pf_offset g = 0" by blast
    have "pf_offset g < SEGMENT_SIZE" using N(5) by (simp add: SEGMENT_SIZE_def)
    from Put_append [OF N(1) pw r _ this] N show ?thesis unfolding P by auto
  qed
qed

section \<open>PutBatch\<close>

text \<open>
  A batch that its caller has laid out properly: every index entry has a key, is of the
  file kind, and covers a record of that key inside the buffer.
\<close>

definition batch_entry_ok :: "nat \<Rightarrow> bytes \<times> Index \<Rightarrow> bool" where
  "batch_entry_ok len = (\<lambda>(key, idx).
     flag idx = 1 \<and> unat (key_size idx) = length key \<and> record_fits (length key + unat (value_size idx)) \<and>
     unat (file_offset idx) + (length key + unat (value_size idx)) \<le> len)"

definition batch_ok :: "nat \<Rightarrow> bytes list \<Rightarrow> Index list \<Rightarrow> bool" where
  "batch_ok len keys idxs \<longleftrightarrow> length keys = length idxs \<and> list_all (batch_entry_ok len) (zip keys idxs)"

definition batch_value :: "bytes \<Rightarrow> Index \<Rightarrow> bytes" where
  "batch_value buf idx = mread buf (unat (file_offset idx) + unat (key_size idx)) (unat (value_size idx))"

lemma set_fileaddr_fields [simp]:
  "flag (set_fileaddr idx fi fo) = flag idx" "key_size (set_fileaddr idx fi fo) = key_size idx"
  "value_size (set_fileaddr idx fi fo) = value_size idx" "file_index (set_fileaddr idx fi fo) = fi"
  "file_offset (set_fileaddr idx fi fo) = fo"
  by (simp_all add: set_fileaddr_def)

lemma batch_entry:
  assumes f: "file_at (data_files db) (unat fi) = Some f" and c: "pf_content f = pre @ d" "unat fo = length pre"
    and b: "batch_entry_ok (length d) (key, idx)" and sz: "length pre < 2 ^ 27" "record_fits (length d)"
  shows "entry_ok db key (set_fileaddr idx fi (fo + file_offset idx))"
    "entry_value db (set_fileaddr idx fi (fo + file_offset idx)) = batch_value d idx"
proof -
  have b': "flag idx = 1" "unat (key_size idx) = length key" "record_fits (length key + unat (value_size idx))"
    "unat (file_offset idx) + (length key + unat (value_size idx)) \<le> length d"
    using b by (auto simp: batch_entry_ok_def)
  have off: "unat (fo + file_offset idx) = length pre + unat (file_offset idx)"
    using unat_add_u32 [of fo "file_offset idx"] c(2) b'(4) sz by (simp add: record_fits_def)
  show "entry_ok db key (set_fileaddr idx fi (fo + file_offset idx))"
    using f c b' off by (simp add: entry_ok_def)
  show "entry_value db (set_fileaddr idx fi (fo + file_offset idx)) = batch_value d idx"
    using f c(1) off by (simp add: entry_value_def batch_value_def mread_append_right)
qed

lemma put_indexes_ok:
  assumes "db_ok db" "pwrite_ok pw" "file_at (data_files db) (unat fi) = Some f" "pf_content f = pre @ d"
    "unat fo = length pre" "length pre < 2 ^ 27" "record_fits (length d)" "batch_ok (length d) keys idxs"
  shows "(\<exists>c. put_indexes pw fi fo keys idxs db = Inl (Table_error c) \<and> c \<noteq> No_return) \<or>
    (\<exists>db'. put_indexes pw fi fo keys idxs db = Inr db' \<and> db_ok db' \<and>
       db_map db' = db_map db ++ map_of (rev (zip keys (map (batch_value d) idxs))) \<and>
       length (data_files db') = length (data_files db))"
  using assms
proof (induction pw fi fo keys idxs db rule: put_indexes.induct)
  case (1 pw fi fo keys db)
  then show ?case by simp
next
  case (2 pw fi fo idx idxs db)
  then show ?case by (simp add: batch_ok_def)
next
  case (3 pw fi fo key keys idx idxs db)
  let ?idx = "set_fileaddr idx fi (fo + file_offset idx)"
  have b: "batch_entry_ok (length d) (key, idx)" "batch_ok (length d) keys idxs"
    using "3.prems"(8) by (auto simp: batch_ok_def)
  note e = batch_entry [OF "3.prems"(3,4,5) b(1) "3.prems"(6,7)]
  show ?case
  proof (cases "put_index pw db key ?idx")
    case (Inl c)
    then show ?thesis using put_index_ok [OF "3.prems"(1) e(1) "3.prems"(2)] by auto
  next
    case (Inr db1)
    then have db1: "db_ok db1" "data_files db1 = data_files db" "db_map db1 = (db_map db)(key \<mapsto> batch_value d idx)"
      using put_index_ok [OF "3.prems"(1) e(1) "3.prems"(2)] e(2) by auto
    from "3.IH" [OF Inr db1(1) "3.prems"(2) _ "3.prems"(4-7) b(2)] "3.prems"(3) db1(2)
    have "(\<exists>c. put_indexes pw fi fo keys idxs db1 = Inl (Table_error c) \<and> c \<noteq> No_return) \<or>
      (\<exists>db'. put_indexes pw fi fo keys idxs db1 = Inr db' \<and> db_ok db' \<and>
         db_map db' = db_map db1 ++ map_of (rev (zip keys (map (batch_value d) idxs))) \<and>
         length (data_files db') = length (data_files db1))" by simp
    with Inr db1(2,3) show ?thesis by auto
  qed
qed

lemma PutBatch_append:
  assumes ok: "db_ok db" and pw: "pwrite_ok pw" and r: "record_fits len" "len \<le> length buf"
    and b: "batch_ok len keys idxs"
    and f: "file_at (data_files db) (length (data_files db) - 1) = Some f" "pf_offset f < SEGMENT_SIZE"
  shows "(\<exists>c. PutBatch pw keys idxs buf len db = Some (Inl (Table_error c)) \<and> c \<noteq> No_return) \<or>
    (\<exists>db'. PutBatch pw keys idxs buf len db = Some (Inr (db', True)) \<and> db_ok db' \<and>
       db_map db' = db_map db ++ map_of (rev (zip keys (map (batch_value (take len buf)) idxs))) \<and>
       length (data_files db') = length (data_files db))"
proof -
  let ?i = "length (data_files db) - 1" and ?d = "take len buf"
  have fok: "file_ok f" by (rule files_okD [OF _ f(1)]) (use ok in \<open>simp add: db_ok_def\<close>)
  have lk: "\<not> global_lock db" using ok by (simp add: db_ok_def files_ok_def)
  have un: "db\<lparr>global_lock := False\<rparr> = db" using lk by simp
  obtain f' where f': "AppendDataBatch pw f buf len = Inr (f', True, pf_offset f)" "file_ok f'"
    "pf_content f' = pf_content f @ ?d"
    using AppendDataBatch_ok [OF pw fok r f(2)] by blast
  let ?db1 = "db\<lparr>data_files := (data_files db)[?i := Some f']\<rparr>"
  from grow_file [OF ok f(1) f'(2,3) refl] have g: "db_ok ?db1" "db_map ?db1 = db_map db" "file_at (data_files ?db1) ?i = Some f'" by auto
  let ?db2 = "sync_data ?i ?db1" and ?f2 = "if sync ?db1 then Sync f' else f'" and ?fi = "file_num db - 1"
  from sync_data_ok [OF g(1,3)] have s: "db_ok ?db2" "db_map ?db2 = db_map ?db1"
    "file_at (data_files ?db2) ?i = Some ?f2" by auto
  have fi: "unat ?fi = ?i" by (rule last_file(1) [OF ok])
  have c2: "pf_content ?f2 = pf_content f @ ?d" using f'(3) by (simp add: Sync_def)
  have off: "unat (pf_offset f) = length (pf_content f)" using fok by (simp add: file_ok_def)
  have sz: "length (pf_content f) < 2 ^ 27"
    using f(2) off SEGMENT_SIZE_nat by (simp add: word_less_nat_alt)
  have P: "PutBatch pw keys idxs buf len db =
    (case put_indexes pw ?fi (pf_offset f) keys idxs ?db2 of Inl e \<Rightarrow> Some (Inl e) | Inr db \<Rightarrow> Some (Inr (db, True)))"
    using lk f(1) f'(1) fi by (subst PutBatch.simps) (simp add: Lock_def Unlock_def Let_def un)
  from put_indexes_ok [of ?db2 pw ?fi ?f2, OF s(1) pw _ c2 off sz] s(2,3) g(2) r b fi
  show ?thesis unfolding P by fastforce
qed

lemma PutBatch_map:
  assumes ok: "db_ok db" and pw: "pwrite_ok pw" and r: "record_fits len" "len \<le> length buf"
    and b: "batch_ok len keys idxs" and n: "length (data_files db) < 2 ^ 32 - 1"
  shows "(\<exists>c. PutBatch pw keys idxs buf len db = Some (Inl (Table_error c)) \<and> c \<noteq> No_return) \<or>
    (\<exists>db'. PutBatch pw keys idxs buf len db = Some (Inr (db', True)) \<and> db_ok db' \<and>
       db_map db' = db_map db ++ map_of (rev (zip keys (map (batch_value (take len buf)) idxs))) \<and>
       length (data_files db') \<le> Suc (length (data_files db)))"
proof -
  let ?i = "length (data_files db) - 1"
  obtain f where f: "file_at (data_files db) ?i = Some f" "file_ok f" using last_file(2) [OF ok] by blast
  show ?thesis
  proof (cases "pf_offset f < SEGMENT_SIZE")
    case True
    then show ?thesis using PutBatch_append [OF ok pw r b f(1)] by auto
  next
    case False
    have lk: "\<not> global_lock db" using ok by (simp add: db_ok_def files_ok_def)
    then have un: "db\<lparr>global_lock := False\<rparr> = db" by simp
    have fi: "unat (file_num db - 1) = ?i" by (rule last_file(1) [OF ok])
    have same: "(data_files db)[?i := Some f] = data_files db"
      using f(1) by (auto simp: file_at_def list_update_same_conv split: if_splits)
    have "AppendDataBatch pw f buf len = Inr (f, False, 0)" using False by (simp add: AppendDataBatch_def Let_def not_less)
    then have P: "PutBatch pw keys idxs buf len db = PutBatch pw keys idxs buf len (new_data_file db)"
      using lk f(1) fi by (subst PutBatch.simps) (simp add: Lock_def Unlock_def Let_def un same [simplified])
    from new_data_file_ok [OF ok n] obtain g where N: "db_ok (new_data_file db)" "db_map (new_data_file db) = db_map db"
      "length (data_files (new_data_file db)) = Suc (length (data_files db))"
      "file_at (data_files (new_data_file db)) (length (data_files db)) = Some g" "pf_offset g = 0" by blast
    have "pf_offset g < SEGMENT_SIZE" using N(5) by (simp add: SEGMENT_SIZE_def)
    from PutBatch_append [OF N(1) pw r b _ this] N show ?thesis unfolding P by auto
  qed
qed

section \<open>A new store\<close>

definition all_open :: env where
  "all_open = \<lparr>dir_files = Map.empty, open_ok = (\<lambda>_. True)\<rparr>"

lemma Open_new:
  assumes t: "cuckoo_invar t" "cuckoo_lookup t = Map.empty"
    and e: "dir_files e = Map.empty" "\<And>n. open_ok e (DataFileName n)" "\<And>n. open_ok e (IndexFileName n)"
  shows "\<exists>db. Open t sy e None True = Some (Inr (Some db)) \<and> db_ok db \<and> db_map db = Map.empty \<and>
    length (data_files db) = 1"
proof -
  obtain f where f: "NewFile e (DataFileName 0) = Some f" "file_ok f"
    using NewFile_fresh [of e "DataFileName 0"] e by auto
  let ?fs = "map (\<lambda>i. NewFile e (IndexFileName i)) [0..<MAX_INDEX_COUNT]"
  have fs: "None \<notin> set ?fs" using NewFile_fresh [of e] e by (auto simp: NewFile_def)
  let ?db = "(DBImpl t sy e)\<lparr>data_files := [Some f], file_num := 1, max_index_num := MAX_INDEX_COUNT, index_files := ?fs\<rparr>"
  have "Open t sy e None True = Some (Inr (Some ?db))" using f fs by (simp add: Open_def Let_def)
  moreover have "files_ok ?db"
    unfolding files_ok_def using f fs e by (simp add: DBImpl_def Unlock_def)
  ultimately show ?thesis using t by (auto simp: db_ok_def db_map_def DBImpl_def)
qed

section \<open>Replaying an index file\<close>

text \<open>One index record, as \<open>put_index\<close> appends it: key, file index, file offset, value size.\<close>

type_synonym index_entry = "bytes \<times> u32 \<times> u32 \<times> u32"

definition index_record :: "index_entry \<Rightarrow> bytes" where
  "index_record = (\<lambda>(k, fi, fo, vs). le32 (of_nat (length k) + 16) @ index_body k fi fo (of_nat (length k)) vs)"

text \<open>What \<^verbatim>\<open>IndexCallback\<close> makes of a record: the flag of the entry is that of a pointer.\<close>

definition recovered_index :: "index_entry \<Rightarrow> Index" where
  "recovered_index = (\<lambda>(k, fi, fo, vs). \<lparr>addr = file_addr fi fo, flag = 0, key_size = of_nat (length k), value_size = vs\<rparr>)"

definition replay :: "index_entry \<Rightarrow> (bytes \<rightharpoonup> Index) \<Rightarrow> (bytes \<rightharpoonup> Index)" where
  "replay = (\<lambda>(k, fi, fo, vs) m. if vs > 0 then m(k \<mapsto> recovered_index (k, fi, fo, vs)) else m(k := None))"

lemma length_index_record [simp]: "length (index_record (k, r)) = length k + 20"
  by (cases r) (simp add: index_record_def)

lemma index_record_ne: "index_record e \<noteq> []"
  by (cases e) (metis length_index_record length_0_conv add_is_0 zero_neq_numeral)

lemma index_loop_record:
  assumes f: "file_ok f" "pf_content f = pre @ index_record (k, fi, fo, vs) @ post"
    and pos: "unat pos = length pre" and sz: "length (pf_content f) < 2 ^ 32" "length k < 2 ^ 31"
    and idx: "flag idx = 0"
  defines "idx' \<equiv> recovered_index (k, fi, fo, vs)"
  shows "\<exists>pos'. unat pos' = length pre + (length k + 20) \<and>
    index_loop f (pf_offset f) pos idx t =
      (if vs > 0
       then (case insert_or_assign t k idx' of
               Inl e \<Rightarrow> Some (Inl (Table_error e))
             | Inr (t, _) \<Rightarrow> index_loop f (pf_offset f) pos' idx' t)
       else index_loop f (pf_offset f) pos' idx' (fst (erase t k)))"
proof -
  let ?ks = "of_nat (length k) :: u32"
  let ?body = "index_body k fi fo ?ks vs"
  let ?pos = "pos + 4 + (?ks + 16)"
  have c: "pf_content f = pre @ le32 (?ks + 16) @ ?body @ post" using f(2) by (simp add: index_record_def)
  have len: "length (pf_content f) = length pre + (length k + 20) + length post" using c by simp
  have ks: "unat ?ks = length k" by (rule unat_of_nat_len) (use sz in simp)
  have isz: "unat (?ks + 16) = length k + 16" using unat_add_u32 [of ?ks 16] ks sz(2) by simp
  have p4: "unat (pos + 4) = length pre + 4" using unat_add_u32 [of pos 4] pos sz(1) len by simp
  have p': "unat ?pos = length pre + (length k + 20)" using unat_add_u32 [of "pos + 4" "?ks + 16"] p4 isz sz(1) len by simp
  have lt: "pos < pf_offset f" using f(1) pos len by (simp add: file_ok_def word_less_nat_alt)
  have r1: "Read f pos 4 = Inr (Some (le32 (?ks + 16)))"
    using Read_ok [OF f(1), of pos 4] len pos by (simp add: c mread_def)
  have r2: "Read f (pos + 4) (?ks + 16) = Inr (Some ?body)"
    using Read_ok [OF f(1), of "pos + 4" "?ks + 16"] len p4 isz by (simp add: c mread_def)
  have d: "DecodeFixed32 (le32 (?ks + 16)) 0 = Some (?ks + 16)"
    using DecodeFixed32_at [of "[]" 0 "?ks + 16" "[]"] by simp
  have di: "DecodeIndex ?body = Some \<lparr>d_key = k, d_file_index = fi, d_file_offset = fo, d_key_size = ?ks, d_value_size = vs\<rparr>"
    using DecodeIndex_body [OF ks, of fi fo vs "[]"] by simp
  have i: "(set_fileaddr idx fi fo)\<lparr>key_size := ucast ?ks, value_size := vs\<rparr> = idx'"
    using idx sz(2) by (simp add: idx'_def recovered_index_def set_fileaddr_def ucast_of_nat_31)
  define w where "w = ?ks + 16"
  have vi: "value_size idx' = vs" by (simp add: idx'_def recovered_index_def)
  show ?thesis
    by (rule exI [of _ "pos + 4 + w"], subst index_loop.simps)
      (use p' lt r1 r2 d di in \<open>simp add: i vi Let_def flip: w_def\<close>)
qed

lemma index_loop_replay:
  assumes "file_ok f" "pf_content f = pre @ concat (map index_record es)" "unat pos = length pre"
    "length (pf_content f) < 2 ^ 32" "\<forall>(k, r) \<in> set es. length k < 2 ^ 31" "flag idx = 0" "cuckoo_invar t"
  shows "(\<exists>c. index_loop f (pf_offset f) pos idx t = Some (Inl (Table_error c)) \<and> c \<noteq> No_return) \<or>
    (\<exists>t'. index_loop f (pf_offset f) pos idx t = Some (Inr t') \<and> cuckoo_invar t' \<and>
       cuckoo_lookup t' = fold replay es (cuckoo_lookup t))"
  using assms
proof (induction es arbitrary: pre pos idx t)
  case Nil
  then have "\<not> pos < pf_offset f" by (simp add: file_ok_def word_less_nat_alt)
  then have "index_loop f (pf_offset f) pos idx t = Some (Inr t)" by (subst index_loop.simps) simp
  with Nil show ?case by auto
next
  case (Cons e es)
  obtain k fi fo vs where e: "e = (k, fi, fo, vs)" by (cases e)
  let ?idx = "recovered_index (k, fi, fo, vs)" and ?pre = "pre @ index_record e"
  have c: "pf_content f = pre @ index_record (k, fi, fo, vs) @ concat (map index_record es)"
    using Cons.prems(2) e by simp
  have k: "length k < 2 ^ 31" using Cons.prems(5) e by auto
  obtain pos' where pos': "unat pos' = length pre + (length k + 20)"
    "index_loop f (pf_offset f) pos idx t =
      (if vs > 0 then (case insert_or_assign t k ?idx of
               Inl e \<Rightarrow> Some (Inl (Table_error e)) | Inr (t, _) \<Rightarrow> index_loop f (pf_offset f) pos' ?idx t)
       else index_loop f (pf_offset f) pos' ?idx (fst (erase t k)))"
    using index_loop_record [OF Cons.prems(1) c Cons.prems(3,4) k Cons.prems(6)] by blast
  have IH: "(\<exists>c. index_loop f (pf_offset f) pos' ?idx t1 = Some (Inl (Table_error c)) \<and> c \<noteq> No_return) \<or>
    (\<exists>t'. index_loop f (pf_offset f) pos' ?idx t1 = Some (Inr t') \<and> cuckoo_invar t' \<and>
       cuckoo_lookup t' = fold replay es (cuckoo_lookup t1))" if "cuckoo_invar t1" for t1
    by (rule Cons.IH [of ?pre]) (use Cons.prems pos'(1) e that in \<open>auto simp: recovered_index_def\<close>)
  show ?case
  proof (cases "vs > 0")
    case True
    show ?thesis
    proof (cases "insert_or_assign t k ?idx")
      case (Inl c)
      then show ?thesis using pos'(2) True cm.insert_returns [OF Cons.prems(7), of k ?idx] by auto
    next
      case (Inr q)
      obtain t1 b where q: "q = (t1, b)" by (cases q)
      note ins = Inr [unfolded q]
      from IH [OF cm.insert_invar [OF Cons.prems(7) ins]] pos'(2) True ins cm.insert_lookup [OF Cons.prems(7) ins]
      show ?thesis by (simp add: e replay_def)
    qed
  next
    case False
    from IH [OF cm.erase_invar [OF Cons.prems(7)], of k] pos'(2) False cm.erase_lookup [OF Cons.prems(7), of k]
    show ?thesis by (simp add: e replay_def)
  qed
qed

section \<open>File names\<close>

lemma digit_val_digit: "d < 10 \<Longrightarrow> digit_val (digit d) = Some d"
  by (simp add: digit_val_def digit_def Let_def)

lemma to_string_digits: "c \<in> set (to_string n) \<Longrightarrow> \<exists>d < 10. c = digit d"
proof (induction n rule: to_string.induct)
  case (1 n)
  show ?case
  proof (cases "n < 10")
    case True
    with "1.prems" show ?thesis by (subst (asm) to_string.simps) auto
  next
    case False
    with "1.prems" have "c \<in> set (to_string (n div 10)) \<or> c = digit (n mod 10)"
      by (subst (asm) to_string.simps) auto
    with "1.IH" [OF False] show ?thesis by (metis mod_less_divisor zero_less_numeral)
  qed
qed

lemma read_digits_snoc:
  assumes "list_all (\<lambda>c. digit_val c \<noteq> None) xs" "d < 10"
  shows "read_digits acc (xs @ [digit d]) = 10 * read_digits acc xs + d"
  using assms by (induction xs arbitrary: acc) (auto simp: digit_val_digit split: option.splits)

lemma read_digits_to_string: "read_digits 0 (to_string n) = n"
proof (induction n rule: to_string.induct)
  case (1 n)
  show ?case
  proof (cases "n < 10")
    case True
    then show ?thesis by (subst to_string.simps) (simp add: digit_val_digit)
  next
    case False
    have "list_all (\<lambda>c. digit_val c \<noteq> None) (to_string (n div 10))"
      unfolding list_all_iff using to_string_digits [of _ "n div 10"] by (metis digit_val_digit option.distinct(1))
    with False "1.IH" [OF False] read_digits_snoc [of "to_string (n div 10)" "n mod 10" 0] show ?thesis
      by (subst to_string.simps) simp
  qed
qed

lemma to_string_head: "\<exists>d cs. to_string n = digit d # cs \<and> d < 10"
proof -
  have "to_string n \<noteq> []" by (subst to_string.simps) simp
  then obtain c cs where "to_string n = c # cs" by (cases "to_string n") auto
  with to_string_digits [of c n] show ?thesis by auto
qed

lemma digit_no_sign: "d < 10 \<Longrightarrow> \<not> is_space (digit d) \<and> digit d \<noteq> CHR ''-'' \<and> digit d \<noteq> CHR ''+''"
proof -
  assume "d < 10"
  then have "d \<in> {0, 1, 2, 3, 4, 5, 6, 7, 8, 9}" by auto
  then show ?thesis by (auto simp: is_space_def digit_def char_of_eq_iff)
qed

lemma stoi_to_string:
  assumes "n < 2 ^ 31"
  shows "stoi (to_string n) = Some (int n)"
proof -
  obtain d cs where h: "to_string n = digit d # cs" "d < 10" using to_string_head by blast
  with digit_no_sign [OF h(2)] assms read_digits_to_string [of n] show ?thesis
    by (simp add: stoi_def Let_def digit_val_digit)
qed

section \<open>Properties\<close>

text \<open>
  C3: a put is the update of the map. On a well-formed store, with a file system that
  writes what it is given, \<^verbatim>\<open>Put\<close> returns (its retry loop ends, after at most one new data
  file); it either returns true and the store then maps the key to the value and every
  other key as before, or an exception of the index's expansion escapes.
\<close>

theorem Put_updates_map:
  assumes "db_ok db" "pwrite_ok pw" "record_fits (length key + length val)" "length (data_files db) < 2 ^ 32 - 1"
  shows "(\<exists>c. Put pw key val db = Some (Inl (Table_error c)) \<and> c \<noteq> No_return) \<or>
    (\<exists>db'. Put pw key val db = Some (Inr (db', True)) \<and> db_ok db' \<and> db_map db' = (db_map db)(key \<mapsto> val))"
  using Put_map [OF assms] by blast

text \<open>A store to apply the properties to.\<close>

lemma sample_db:
  "\<exists>db. Open (cuckoohash_map 40 0 (\<lambda>_. 0)) False all_open None True = Some (Inr (Some db)) \<and>
    db_ok db \<and> db_map db = Map.empty \<and> length (data_files db) = 1"
  by (rule Open_new) (simp_all add: new_map reserve_calc_0 all_open_def)

lemma append_pwrite_ok: "pwrite_ok append_pwrite"
  by (simp add: pwrite_ok_def)

text \<open>The exceptions are those of the insertion into the table; on a table of one bucket the first insertion raises none.\<close>

lemma put_index_error: "put_index pw db key idx = Inl (Table_error c) \<Longrightarrow> insert_or_assign (hash_table db) key idx = Inl c"
  by (auto simp: put_index_def AppendIndex_def Let_def split: option.splits sum.splits prod.splits)

lemma keeps_table [simp]: "hash_table (sync_data i db) = hash_table db" "hash_table (new_data_file db) = hash_table db"
  by (simp_all add: sync_data_def new_data_file_def Let_def split: prod.split)

definition raises :: "db_impl \<Rightarrow> bytes \<Rightarrow> db_error + 'r \<Rightarrow> bool" where
  "raises db key r \<longleftrightarrow> (\<forall>c. r = Inl (Table_error c) \<longrightarrow> (\<exists>idx. insert_or_assign (hash_table db) key idx = Inl c))"

lemma raises_put_index: "put_index pw d key idx = Inl e \<Longrightarrow> hash_table d = hash_table db \<Longrightarrow> raises db key (Inl e)"
  using put_index_error by (fastforce simp: raises_def)

lemma raises_other: "(\<And>c. r \<noteq> Inl (Table_error c)) \<Longrightarrow> raises db key r"
  by (auto simp: raises_def)

lemma raises_table: "raises d key r \<Longrightarrow> hash_table d = hash_table db \<Longrightarrow> raises db key r"
  by (simp add: raises_def)

lemma Put_error: "Put pw key val db = Some r \<Longrightarrow> raises db key r"
proof (induction rule: Put.raw_induct [rotated, consumes 1, case_names step])
  case (step P pw key val db r)
  have rec: "P pw key val d = Some r \<Longrightarrow> hash_table d = hash_table db \<Longrightarrow> raises db key r" for d
    using step.IH raises_table by blast
  note idx = raises_put_index [of pw _ key _ _ db]
  show ?case
    using step(2) by (auto simp: Let_def AppendData_def raises_other split: option.splits sum.splits prod.splits if_splits elim: rec idx)
qed

lemma PutBatch_error: "PutBatch pw keys idxs buf len db = Some r \<Longrightarrow> keys = [key] \<Longrightarrow> idxs = [i] \<Longrightarrow> raises db key r"
proof (induction rule: PutBatch.raw_induct [rotated, consumes 1, case_names step])
  case (step P pw keys idxs buf len db r)
  have rec: "P pw [key] [i] buf len d = Some r \<Longrightarrow> hash_table d = hash_table db \<Longrightarrow> raises db key r" for d
    using step.IH step(3,4) raises_table by blast
  note idx = raises_put_index [of pw _ key _ _ db]
  show ?case
    using step(2-) by (auto simp: Let_def AppendDataBatch_def raises_other split: option.splits sum.splits prod.splits if_splits elim: rec idx)
qed

lemma small_no_error: "insert_or_assign (cuckoohash_map 10 0 (\<lambda>_. 0)) k v \<noteq> Inl c"
  using small_insert [of k v] by auto

lemma small_open:
  "\<exists>db. Open (cuckoohash_map 10 0 (\<lambda>_. 0)) False all_open None True = Some (Inr (Some db)) \<and> db_ok db \<and> db_map db = Map.empty \<and>
    length (data_files db) = 1 \<and> hash_table db = cuckoohash_map 10 0 (\<lambda>_. 0)"
proof -
  let ?t = "cuckoohash_map 10 0 (\<lambda>_. 0) :: (bytes, Index) cuckoohash_map"
  obtain db where db: "Open ?t False all_open None True = Some (Inr (Some db))" "db_ok db" "db_map db = Map.empty" "length (data_files db) = 1"
    using Open_new [of ?t all_open False] by (auto simp: new_map reserve_calc_0 all_open_def)
  moreover have "hash_table db = ?t" using db(1) by (auto simp: Open_def Let_def DBImpl_def split: option.splits if_splits)
  ultimately show ?thesis by blast
qed

lemma small_put:
  assumes "record_fits (length k + length v)"
  shows "\<exists>db db'. Open (cuckoohash_map 10 0 (\<lambda>_. 0)) False all_open None True = Some (Inr (Some db)) \<and> db_ok db \<and> db_map db = Map.empty \<and>
    length (data_files db) = 1 \<and> Put append_pwrite k v db = Some (Inr (db', True)) \<and> db_ok db' \<and> db_map db' = [k \<mapsto> v]"
proof -
  obtain db where db: "Open (cuckoohash_map 10 0 (\<lambda>_. 0)) False all_open None True = Some (Inr (Some db))" "db_ok db" "db_map db = Map.empty"
    "length (data_files db) = 1" "hash_table db = cuckoohash_map 10 0 (\<lambda>_. 0)" using small_open by blast
  have "Put append_pwrite k v db \<noteq> Some (Inl (Table_error c))" for c
    using Put_error [of append_pwrite k v db "Inl (Table_error c)"] small_no_error db(5) by (metis raises_def)
  with Put_map [OF db(2) append_pwrite_ok assms] db show ?thesis by fastforce
qed

theorem Put_updates_map_witness:
  "\<exists>db db'. Open (cuckoohash_map 10 0 (\<lambda>_. 0)) False all_open None True = Some (Inr (Some db)) \<and>
    Put append_pwrite [107] [118, 119] db = Some (Inr (db', True)) \<and> db_ok db' \<and> db_map db' = [[107] \<mapsto> [118, 119]]"
proof -
  obtain db db' where db: "Open (cuckoohash_map 10 0 (\<lambda>_. 0)) False all_open None True = Some (Inr (Some db))" "db_ok db" "db_map db = Map.empty"
    "length (data_files db) = 1" "Put append_pwrite [107] [118, 119] db = Some (Inr (db', True))"
    using small_put [of "[107]" "[118, 119]"] by (auto simp: record_fits_def)
  from Put_updates_map [OF db(2) append_pwrite_ok, of "[107]" "[118, 119]"] db(3-5)
  have "db_ok db' \<and> db_map db' = [[107] \<mapsto> [118, 119]]" by (simp add: record_fits_def)
  with db(1,5) show ?thesis by blast
qed

text \<open>
  C20: a get reads the map. On a well-formed store \<^verbatim>\<open>Get\<close> returns true with the value
  last put for the key, and false for a key that is not there, whatever the process
  memory holds; it leaves the map as it is.
\<close>

theorem Get_reads_map:
  assumes "db_ok db"
  shows "\<exists>db'. Get mem db key = Inr (db', db_map db key) \<and> db_ok db' \<and> db_map db' = db_map db"
  by (rule Get_map [OF assms])

theorem Get_reads_map_witness:
  "\<exists>db db' db''. Open (cuckoohash_map 10 0 (\<lambda>_. 0)) False all_open None True = Some (Inr (Some db)) \<and>
    Put append_pwrite [107] [118, 119] db = Some (Inr (db', True)) \<and>
    Get (\<lambda>_ _. None) db' [107] = Inr (db'', Some [118, 119]) \<and> db_map db'' = [[107] \<mapsto> [118, 119]]"
proof -
  obtain db db' where db: "Open (cuckoohash_map 10 0 (\<lambda>_. 0)) False all_open None True = Some (Inr (Some db))"
    "Put append_pwrite [107] [118, 119] db = Some (Inr (db', True))" "db_ok db'" "db_map db' = [[107] \<mapsto> [118, 119]]"
    using small_put [of "[107]" "[118, 119]"] by (auto simp: record_fits_def)
  from Get_reads_map [OF db(3), of "\<lambda>_ _. None" "[107]"] db show ?thesis by auto
qed

text \<open>
  C21: a delete removes the key. \<^verbatim>\<open>Delete\<close> returns whether the key was there, and
  afterwards it is not; all other keys stay.
\<close>

theorem Delete_updates_map:
  assumes "db_ok db"
  shows "\<exists>db'. Delete db key = (db', db_map db key \<noteq> None) \<and> db_ok db' \<and> db_map db' = (db_map db)(key := None)"
  by (rule Delete_map [OF assms])

theorem Delete_updates_map_witness:
  "\<exists>db db' db''. Open (cuckoohash_map 10 0 (\<lambda>_. 0)) False all_open None True = Some (Inr (Some db)) \<and>
    Put append_pwrite [107] [118, 119] db = Some (Inr (db', True)) \<and> db_map db' = [[107] \<mapsto> [118, 119]] \<and>
    Delete db' [107] = (db'', True) \<and> db_map db'' = Map.empty"
proof -
  obtain db db' where db: "Open (cuckoohash_map 10 0 (\<lambda>_. 0)) False all_open None True = Some (Inr (Some db))"
    "Put append_pwrite [107] [118, 119] db = Some (Inr (db', True))" "db_ok db'" "db_map db' = [[107] \<mapsto> [118, 119]]"
    using small_put [of "[107]" "[118, 119]"] by (auto simp: record_fits_def)
  from Delete_updates_map [OF db(3), of "[107]"] db show ?thesis by auto
qed

text \<open>
  C15: a batch is the sequence of its puts. \<^verbatim>\<open>PutBatch\<close> on a properly laid out buffer
  returns, and, unless an exception of the index's expansion escapes, afterwards the
  store maps every key of the batch to the value the buffer holds for it, a later entry
  winning over an earlier one.
\<close>

theorem PutBatch_updates_map:
  assumes "db_ok db" "pwrite_ok pw" "record_fits len" "len \<le> length buf" "batch_ok len keys idxs"
    "length (data_files db) < 2 ^ 32 - 1"
  shows "(\<exists>c. PutBatch pw keys idxs buf len db = Some (Inl (Table_error c)) \<and> c \<noteq> No_return) \<or>
    (\<exists>db'. PutBatch pw keys idxs buf len db = Some (Inr (db', True)) \<and> db_ok db' \<and>
       db_map db' = db_map db ++ map_of (rev (zip keys (map (batch_value (take len buf)) idxs))))"
  using PutBatch_map [OF assms] by blast

theorem PutBatch_updates_map_witness:
  "\<exists>db db'. Open (cuckoohash_map 10 0 (\<lambda>_. 0)) False all_open None True = Some (Inr (Some db)) \<and>
    PutBatch append_pwrite [[107]] [file_Index 0 1 1 2] [0, 107, 118, 119] 4 db = Some (Inr (db', True)) \<and>
    db_ok db' \<and> db_map db' = [[107] \<mapsto> [118, 119]]"
proof -
  obtain db where db: "Open (cuckoohash_map 10 0 (\<lambda>_. 0)) False all_open None True = Some (Inr (Some db))" "db_ok db" "db_map db = Map.empty"
    "length (data_files db) = 1" "hash_table db = cuckoohash_map 10 0 (\<lambda>_. 0)" using small_open by blast
  let ?p = "PutBatch append_pwrite [[107]] [file_Index 0 1 1 2] [0, 107, 118, 119] 4 db"
  have b: "batch_ok 4 [[107]] [file_Index 0 1 1 2]"
    by (simp add: batch_ok_def batch_entry_ok_def record_fits_def)
  have v: "batch_value [0, 107, 118, 119] (file_Index 0 1 1 2) = [118, 119]"
    by (simp add: batch_value_def mread_def)
  have "?p \<noteq> Some (Inl (Table_error c))" for c
    using PutBatch_error [of append_pwrite "[[107]]" "[file_Index 0 1 1 2]" "[0, 107, 118, 119]" 4 db "Inl (Table_error c)" "[107]"]
      small_no_error db(5) by (metis raises_def)
  with PutBatch_updates_map [OF db(2) append_pwrite_ok _ _ b, of "[0, 107, 118, 119]"] db(3,4) v
  have "\<exists>db'. ?p = Some (Inr (db', True)) \<and> db_ok db' \<and> db_map db' = [[107] \<mapsto> [118, 119]]" by (simp add: record_fits_def)
  with db(1) show ?thesis by blast
qed

lemma IndexCallback_table:
  assumes "file_ok f" "pf_content f = concat (map index_record es)"
    "length (pf_content f) < 2 ^ 32" "\<forall>(k, r) \<in> set es. length k < 2 ^ 31" "cuckoo_invar t"
  shows "(\<exists>c. IndexCallback f t = Some (Inl (Table_error c)) \<and> c \<noteq> No_return) \<or>
    (\<exists>t'. IndexCallback f t = Some (Inr t') \<and> cuckoo_invar t' \<and>
       cuckoo_lookup t' = fold replay es (cuckoo_lookup t))"
proof (cases "pf_offset f = 0")
  case True
  then have "es = []" using assms(1,2) by (cases es) (auto simp: file_ok_def index_record_ne)
  with True assms(5) show ?thesis by (simp add: IndexCallback_def)
next
  case False
  have "flag default_Index = 0" by (simp add: default_Index_def)
  from index_loop_replay [of f "[]" es 0 default_Index t, OF assms(1) _ _ assms(3,4) this assms(5)] assms(2) False
  show ?thesis by (simp add: IndexCallback_def)
qed

text \<open>
  C22: replaying an index file. For a file that holds index records one after the other,
  the loop of \<^verbatim>\<open>IndexCallback\<close> ends, and, unless an exception of the index's expansion
  escapes, the table then is the one before with every record applied in order: an entry
  for a record with a value, no entry for one without.
\<close>

theorem IndexCallback_replays:
  assumes "file_ok f" "pf_content f = concat (map index_record es)"
    "length (pf_content f) < 2 ^ 32" "\<forall>(k, r) \<in> set es. length k < 2 ^ 31" "cuckoo_invar t"
  shows "(\<exists>c. IndexCallback f t = Some (Inl (Table_error c)) \<and> c \<noteq> No_return) \<or>
    (\<exists>t'. IndexCallback f t = Some (Inr t') \<and> cuckoo_invar t' \<and>
       cuckoo_lookup t' = fold replay es (cuckoo_lookup t))"
  by (rule IndexCallback_table [OF assms])

theorem IndexCallback_replays_witness:
  "let f = \<lparr>pf_content = index_record ([107], 0, 0, 2), pf_offset = 21, pf_synced = 0, pf_open = True\<rparr>;
       t = cuckoohash_map 40 0 (\<lambda>_. 0)
   in (\<exists>c. IndexCallback f t = Some (Inl (Table_error c)) \<and> c \<noteq> No_return) \<or>
      (\<exists>t'. IndexCallback f t = Some (Inr t') \<and> cuckoo_invar t' \<and>
         cuckoo_lookup t' = [[107] \<mapsto> recovered_index ([107], 0, 0, 2)])"
proof -
  let ?f = "\<lparr>pf_content = index_record ([107], 0, 0, 2), pf_offset = 21, pf_synced = 0, pf_open = True\<rparr>"
  have "file_ok ?f" by (simp add: file_ok_def)
  from IndexCallback_replays [OF this, of "[([107], 0, 0, 2)]" "cuckoohash_map 40 0 (\<lambda>_. 0)"]
  show ?thesis by (simp add: Let_def new_map reserve_calc_0 replay_def)
qed

lemma replay_last:
  assumes "map_of (rev es) key = Some (fi, fo, vs)" "vs > 0"
  shows "fold replay es m key = Some (recovered_index (key, fi, fo, vs))"
  using assms
proof (induction es arbitrary: m rule: rev_induct)
  case (snoc e es)
  then show ?case by (cases e) (auto simp: replay_def split: if_splits)
qed simp



text \<open>
  The names of the store's files are read back. \<^verbatim>\<open>Recover\<close> recognises every data file
  and index file that \<^verbatim>\<open>Put\<close> and \<^verbatim>\<open>Open\<close> create, tells the two kinds apart, and finds the
  file's number again.
\<close>

theorem file_names_round_trip:
  assumes "n < 2 ^ 31"
  shows "stoi (after_dash (DataFileName n)) = Some (int n) \<and> stoi (after_dash (IndexFileName n)) = Some (int n) \<and>
    has_substring ''DATA'' (DataFileName n) \<and> \<not> has_substring ''INDEX'' (DataFileName n) \<and>
    has_substring ''INDEX'' (IndexFileName n)"
proof -
  have "CHR ''I'' \<notin> set (to_string n)"
  proof
    assume "CHR ''I'' \<in> set (to_string n)"
    then obtain d where "d < 10" "CHR ''I'' = digit d" using to_string_digits by blast
    then have "of_char (CHR ''I'') = (48 + d :: nat)" by (simp add: digit_def)
    with \<open>d < 10\<close> show False by simp
  qed
  then have I: "CHR ''I'' \<notin> set (DataFileName n)" by (simp add: DataFileName_def)
  have "\<not> has_substring ''INDEX'' (DataFileName n)"
    unfolding has_substring_def using I by (metis in_set_dropD in_set_takeD list.set_intros(1))
  moreover have "has_substring ''DATA'' (DataFileName n)" "has_substring ''INDEX'' (IndexFileName n)"
    unfolding has_substring_def DataFileName_def IndexFileName_def by (auto intro!: bexI [of _ 0])
  ultimately show ?thesis
    using stoi_to_string [OF assms] by (simp add: after_dash_def DataFileName_def IndexFileName_def)
qed

theorem file_names_round_trip_witness:
  "stoi (after_dash (DataFileName 12)) = Some 12 \<and> \<not> has_substring ''INDEX'' (DataFileName 12)"
  using file_names_round_trip [of 12] by simp

end
