(* ===== verification/Put_Race.thy ===== *)
theory Put_Race
  imports Bitcask_Map
begin

text \<open>
  Calls of \<^verbatim>\<open>DBImpl::Put\<close> that run at the same time in several threads, as the clerks of the servers make them. The global lock covers
  only the number of the data file; \<^verbatim>\<open>AppendData\<close> first reserves a place in the file by an exchange of \<^verbatim>\<open>file_offset_\<close>, and writes
  afterwards. The file is open with \<^verbatim>\<open>O_APPEND\<close>, so the write goes to the end of the file and not to the place reserved. A turn of a
  thread is what it does up to the next point at which another thread can be seen to have come between.
\<close>

section \<open>The code, one turn at a time\<close>

definition AppendData_reserve :: "posix_file \<Rightarrow> u32 \<Rightarrow> (posix_file \<times> u32) option" where
  "AppendData_reserve f data_size =
     (if pf_offset f \<ge> SEGMENT_SIZE then None else Some (f\<lparr>pf_offset := pf_offset f + data_size\<rparr>, pf_offset f))"

definition AppendData_write :: "pwrite_fn \<Rightarrow> posix_file \<Rightarrow> bytes \<Rightarrow> u32 \<Rightarrow> posix_file \<times> bool" where
  "AppendData_write pw f data_buf off =
     (case pw (pf_content f) data_buf (unat off) of (content, count) \<Rightarrow> (f\<lparr>pf_content := content\<rparr>, count = int (length data_buf)))"

text \<open>Where a thread is: before the loop, with a place reserved, with its record written, or returned.\<close>

datatype put_pc = P_start | P_reserved u32 u32 | P_written u32 u32 | P_returned

record put_thread =
  pt_key :: bytes
  pt_val :: bytes
  pt_pc :: put_pc

definition put_turn :: "pwrite_fn \<Rightarrow> nat \<Rightarrow> db_impl \<times> put_thread list \<Rightarrow> db_error + db_impl \<times> put_thread list" where
  "put_turn pw i = (\<lambda>(db, ts).
     let th = ts ! i; data_size = of_nat (length (pt_key th) + length (pt_val th)) :: u32 in
     (case pt_pc th of
        P_start \<Rightarrow>
          if global_lock db then Inr (db, ts)
          else let fi = file_num db - 1 in
            (case file_at (data_files db) (unat fi) of
               None \<Rightarrow> Inl Undefined
             | Some f \<Rightarrow>
                 (case AppendData_reserve f data_size of
                    None \<Rightarrow> Inr (new_data_file db, ts)
                  | Some (f, fo) \<Rightarrow>
                      Inr (db\<lparr>data_files := (data_files db)[unat fi := Some f]\<rparr>, ts[i := th\<lparr>pt_pc := P_reserved fi fo\<rparr>])))
      | P_reserved fi fo \<Rightarrow>
          (case (file_at (data_files db) (unat fi), EncodeData (replicate (unat data_size) 0) (pt_key th) (pt_val th)) of
             (Some f, Some data_buf) \<Rightarrow>
               (case AppendData_write pw f data_buf fo of
                  (f, s) \<Rightarrow>
                    let db = db\<lparr>data_files := (data_files db)[unat fi := Some f]\<rparr>
                    in if s then Inr (db, ts[i := th\<lparr>pt_pc := P_written fi fo\<rparr>])
                       else Inr (new_data_file db, ts[i := th\<lparr>pt_pc := P_start\<rparr>]))
           | _ \<Rightarrow> Inl Undefined)
      | P_written fi fo \<Rightarrow>
          (case put_index pw (sync_data (unat fi) db) (pt_key th)
                  (file_Index fi fo (of_nat (length (pt_key th))) (of_nat (length (pt_val th)))) of
             Inl e \<Rightarrow> Inl e
           | Inr db \<Rightarrow> Inr (db, ts[i := th\<lparr>pt_pc := P_returned\<rparr>]))
      | P_returned \<Rightarrow> Inr (db, ts)))"

text \<open>Threads that take turns in the order of a list.\<close>

fun put_turns :: "pwrite_fn \<Rightarrow> nat list \<Rightarrow> db_impl \<times> put_thread list \<Rightarrow> db_error + db_impl \<times> put_thread list" where
  "put_turns pw [] st = Inr st"
| "put_turns pw (i # is) st = (case put_turn pw i st of Inl e \<Rightarrow> Inl e | Inr st \<Rightarrow> put_turns pw is st)"

definition putting :: "bytes \<Rightarrow> bytes \<Rightarrow> put_pc \<Rightarrow> put_thread" where
  "putting k v pc = \<lparr>pt_key = k, pt_val = v, pt_pc = pc\<rparr>"

section \<open>One thread alone\<close>

lemma EncodeData_buf:
  "record_fits (length k + length v) \<Longrightarrow> EncodeData (replicate (unat (of_nat (length k + length v) :: u32)) 0) k v = Some (k @ v)"
  by (simp add: EncodeData_exact unat_of_nat_len record_fits_def del: of_nat_add)

lemma turn_reserves:
  assumes "\<not> global_lock db" "i < length ts" "ts ! i = putting k v P_start" "file_at (data_files db) (unat (file_num db - 1)) = Some f"
    "pf_offset f < SEGMENT_SIZE"
  shows "put_turn pw i (db, ts) =
    Inr (db\<lparr>data_files := (data_files db)[unat (file_num db - 1) := Some (f\<lparr>pf_offset := pf_offset f + of_nat (length k + length v)\<rparr>)]\<rparr>,
      ts[i := putting k v (P_reserved (file_num db - 1) (pf_offset f))])"
  using assms by (simp add: put_turn_def putting_def AppendData_reserve_def Let_def not_le [symmetric])

lemma turn_writes:
  assumes "pwrite_ok pw" "record_fits (length k + length v)" "i < length ts" "ts ! i = putting k v (P_reserved fi fo)"
    "file_at (data_files db) (unat fi) = Some f"
  shows "put_turn pw i (db, ts) =
    Inr (db\<lparr>data_files := (data_files db)[unat fi := Some (f\<lparr>pf_content := pf_content f @ k @ v\<rparr>)]\<rparr>, ts[i := putting k v (P_written fi fo)])"
  using assms EncodeData_buf [OF assms(2)]
  by (simp add: put_turn_def putting_def AppendData_write_def pwrite_ok_def append_pwrite_def Let_def del: of_nat_add)

lemma turn_indexes:
  assumes "i < length ts" "ts ! i = putting k v (P_written fi fo)"
  shows "put_turn pw i (db, ts) =
    (case put_index pw (sync_data (unat fi) db) k (file_Index fi fo (of_nat (length k)) (of_nat (length v))) of
       Inl e \<Rightarrow> Inl e | Inr db \<Rightarrow> Inr (db, ts[i := putting k v P_returned]))"
  using assms by (simp add: put_turn_def putting_def Let_def split: sum.split)

text \<open>The turns of a thread that nobody interrupts are the call of \<open>Put\<close>.\<close>

lemma turns_are_Put:
  assumes "\<not> global_lock db" "pwrite_ok pw" "record_fits (length k + length v)"
    "file_at (data_files db) (unat (file_num db - 1)) = Some f" "pf_offset f < SEGMENT_SIZE"
  shows "Put pw k v db = Some (case put_turns pw [0, 0, 0] (db, [putting k v P_start]) of Inl e \<Rightarrow> Inl e | Inr (db, ts) \<Rightarrow> Inr (db, True))"
proof -
  let ?i = "unat (file_num db - 1)" and ?n = "of_nat (length k + length v) :: u32"
  let ?f = "f\<lparr>pf_offset := pf_offset f + ?n, pf_content := pf_content f @ k @ v\<rparr>"
  have i: "?i < length (data_files db)" using assms(4) by (auto simp: file_at_def split: if_splits)
  have un: "db\<lparr>global_lock := False\<rparr> = db" using assms(1) by simp
  have n: "unat ?n = length k + length v" using assms(3) by (intro unat_of_nat_len) (simp add: record_fits_def)
  have "AppendData pw f k v = Inr (?f, True, pf_offset f)"
    using assms(2,3,5) EncodeData_buf [OF assms(3)] n
    by (simp add: AppendData_def Let_def pwrite_ok_def append_pwrite_def not_le del: of_nat_add)
  then have P: "Put pw k v db = (case put_index pw (sync_data ?i (db\<lparr>data_files := (data_files db)[?i := Some ?f]\<rparr>)) k
      (file_Index (file_num db - 1) (pf_offset f) (of_nat (length k)) (of_nat (length v))) of Inl e \<Rightarrow> Some (Inl e) | Inr db \<Rightarrow> Some (Inr (db, True)))"
    using assms(1,4) by (subst Put.simps) (simp add: Lock_def Unlock_def Let_def un)
  let ?g = "f\<lparr>pf_offset := pf_offset f + ?n\<rparr>" and ?db = "db\<lparr>data_files := (data_files db)[?i := Some (f\<lparr>pf_offset := pf_offset f + ?n\<rparr>)]\<rparr>"
  have 1: "put_turn pw 0 (db, [putting k v P_start]) = Inr (?db, [putting k v (P_reserved (file_num db - 1) (pf_offset f))])"
    using turn_reserves [OF assms(1) _ _ assms(4,5), of 0 "[putting k v P_start]" k v pw] by simp
  have 2: "put_turn pw 0 (?db, [putting k v (P_reserved (file_num db - 1) (pf_offset f))]) =
      Inr (db\<lparr>data_files := (data_files db)[?i := Some ?f]\<rparr>, [putting k v (P_written (file_num db - 1) (pf_offset f))])"
    using turn_writes [OF assms(2,3), of 0 "[putting k v (P_reserved (file_num db - 1) (pf_offset f))]" "file_num db - 1" "pf_offset f" ?db ?g] i
    by (simp add: file_at_update)
  have 3: "put_turn pw 0 (db\<lparr>data_files := (data_files db)[?i := Some ?f]\<rparr>, [putting k v (P_written (file_num db - 1) (pf_offset f))]) =
      (case put_index pw (sync_data ?i (db\<lparr>data_files := (data_files db)[?i := Some ?f]\<rparr>)) k
         (file_Index (file_num db - 1) (pf_offset f) (of_nat (length k)) (of_nat (length v))) of
       Inl e \<Rightarrow> Inl e | Inr db \<Rightarrow> Inr (db, [putting k v P_returned]))"
    using turn_indexes [of 0 "[putting k v (P_written (file_num db - 1) (pf_offset f))]" k v] by (simp split: sum.split)
  show ?thesis unfolding P by (simp add: 1 2 3 del: of_nat_add split: sum.split)
qed

section \<open>Two threads\<close>

text \<open>
  The place at which the records of two threads meet: both have reserved, the second writes first. Then the file is as
  long as its offset says again, but each record is where the other one should be.
\<close>

lemma crossed_writes:
  assumes ok: "db_ok db" and pw: "pwrite_ok pw" and r: "record_fits (length k1 + length v1)"
    and len: "length k2 = length k1" "length v2 = length v1"
    and f: "file_at (data_files db) (unat (file_num db - 1)) = Some f" "unat (pf_offset f) + (length k1 + length v1) < unat SEGMENT_SIZE"
  obtains f' where
    "put_turns pw [0, 1, 1, 0] (db, [putting k1 v1 P_start, putting k2 v2 P_start]) =
       Inr (db\<lparr>data_files := (data_files db)[unat (file_num db - 1) := Some f']\<rparr>,
         [putting k1 v1 (P_written (file_num db - 1) (pf_offset f)), putting k2 v2 (P_written (file_num db - 1) (pf_offset f + of_nat (length k1 + length v1)))])"
    "unat (pf_offset f + of_nat (length k1 + length v1)) = length (pf_content f) + (length k1 + length v1)" "file_ok f'" "pf_content f' = pf_content f @ (k2 @ v2) @ (k1 @ v1)"
proof -
  let ?fi = "file_num db - 1" and ?n = "of_nat (length k1 + length v1) :: u32"
  let ?i = "unat ?fi" and ?fo1 = "pf_offset f + ?n"
  have fok: "file_ok f" by (rule files_okD [OF _ f(1)]) (use ok in \<open>simp add: db_ok_def\<close>)
  have lk: "\<not> global_lock db" using ok by (simp add: db_ok_def files_ok_def)
  have i: "?i < length (data_files db)" using f(1) by (auto simp: file_at_def split: if_splits)
  have n: "unat ?n = length k1 + length v1" using r by (intro unat_of_nat_len) (simp add: record_fits_def)
  have sg: "unat SEGMENT_SIZE = 2 ^ 27" by (rule SEGMENT_SIZE_nat)
  have o1: "unat ?fo1 = unat (pf_offset f) + (length k1 + length v1)" using unat_add_u32 [of "pf_offset f" ?n] n f(2) sg by simp
  have o2: "unat (?fo1 + ?n) = unat (pf_offset f) + (length k1 + length v1) + (length k1 + length v1)"
    using unat_add_u32 [of ?fo1 ?n] o1 n f(2) sg by simp
  have s: "pf_offset f < SEGMENT_SIZE" "?fo1 < SEGMENT_SIZE" using f(2) o1 by (simp_all add: word_less_nat_alt del: of_nat_add)
  define g where "g c off = f\<lparr>pf_content := c, pf_offset := off\<rparr>" for c off
  define D where "D h = db\<lparr>data_files := (data_files db)[?i := Some h]\<rparr>" for h
  have D: "file_at (data_files (D h)) ?i = Some h" "(D h)\<lparr>data_files := (data_files (D h))[?i := Some h']\<rparr> = D h'" "file_num (D h) = file_num db"
    "global_lock (D h) = global_lock db" for h h'
    using i by (simp_all add: D_def file_at_update)
  have r2: "record_fits (length k2 + length v2)" using r len by simp
  have g: "pf_content (g c off) = c" "pf_offset (g c off) = off" "(g c off)\<lparr>pf_content := c'\<rparr> = g c' off" "(g c off)\<lparr>pf_offset := off'\<rparr> = g c off'"
    for c off c' off' by (simp_all add: g_def)
  have 1: "put_turn pw 0 (db, [putting k1 v1 P_start, putting k2 v2 P_start]) =
      Inr (D (g (pf_content f) ?fo1), [putting k1 v1 (P_reserved ?fi (pf_offset f)), putting k2 v2 P_start])"
    using turn_reserves [OF lk _ _ f(1) s(1), of 0 "[putting k1 v1 P_start, putting k2 v2 P_start]" k1 v1] by (simp add: D_def g_def)
  have 2: "put_turn pw 1 (D (g (pf_content f) ?fo1), [putting k1 v1 (P_reserved ?fi (pf_offset f)), putting k2 v2 P_start]) =
      Inr (D (g (pf_content f) (?fo1 + ?n)), [putting k1 v1 (P_reserved ?fi (pf_offset f)), putting k2 v2 (P_reserved ?fi ?fo1)])"
    using turn_reserves [of "D (g (pf_content f) ?fo1)" 1 "[putting k1 v1 (P_reserved ?fi (pf_offset f)), putting k2 v2 P_start]" k2 v2
        "g (pf_content f) ?fo1"] D lk s(2) len by (simp add: g)
  have 3: "put_turn pw 1 (D (g (pf_content f) (?fo1 + ?n)), [putting k1 v1 (P_reserved ?fi (pf_offset f)), putting k2 v2 (P_reserved ?fi ?fo1)]) =
      Inr (D (g (pf_content f @ k2 @ v2) (?fo1 + ?n)), [putting k1 v1 (P_reserved ?fi (pf_offset f)), putting k2 v2 (P_written ?fi ?fo1)])"
    using turn_writes [OF pw r2, of 1 "[putting k1 v1 (P_reserved ?fi (pf_offset f)), putting k2 v2 (P_reserved ?fi ?fo1)]" ?fi ?fo1
        "D (g (pf_content f) (?fo1 + ?n))" "g (pf_content f) (?fo1 + ?n)"] D by (simp add: g)
  let ?f' = "g (pf_content f @ (k2 @ v2) @ (k1 @ v1)) (?fo1 + ?n)"
  have 4: "put_turn pw 0 (D (g (pf_content f @ k2 @ v2) (?fo1 + ?n)), [putting k1 v1 (P_reserved ?fi (pf_offset f)), putting k2 v2 (P_written ?fi ?fo1)]) =
      Inr (D ?f', [putting k1 v1 (P_written ?fi (pf_offset f)), putting k2 v2 (P_written ?fi ?fo1)])"
    using turn_writes [OF pw r, of 0 "[putting k1 v1 (P_reserved ?fi (pf_offset f)), putting k2 v2 (P_written ?fi ?fo1)]" ?fi "pf_offset f"
        "D (g (pf_content f @ k2 @ v2) (?fo1 + ?n))" "g (pf_content f @ k2 @ v2) (?fo1 + ?n)"] D by (simp add: g)
  have "put_turns pw [0, 1, 1, 0] (db, [putting k1 v1 P_start, putting k2 v2 P_start]) =
      Inr (D ?f', [putting k1 v1 (P_written ?fi (pf_offset f)), putting k2 v2 (P_written ?fi ?fo1)])"
    using 1 2 3 4 by (simp del: of_nat_add One_nat_def)
  moreover have "file_ok ?f'" using fok o2 len by (simp add: file_ok_def g_def)
  moreover have "unat ?fo1 = length (pf_content f) + (length k1 + length v1)" using o1 fok by (simp add: file_ok_def)
  ultimately show thesis using that [of ?f'] by (simp add: D_def g_def del: of_nat_add)
qed

lemma put_index_inserts:
  assumes "db_ok db" "entry_ok db key idx" "pwrite_ok pw" "insert_or_assign (hash_table db) key idx = Inr (t, b)"
  obtains db' where "put_index pw db key idx = Inr db'" "db_ok db'" "data_files db' = data_files db" "hash_table db' = t"
    "db_map db' = (db_map db)(key \<mapsto> entry_value db idx)"
proof -
  obtain db' where d: "put_index pw db key idx = Inr db'" "db_ok db'" "data_files db' = data_files db" "db_map db' = (db_map db)(key \<mapsto> entry_value db idx)"
    using put_index_ok [OF assms(1-3)] assms(4) by (auto simp: put_index_def AppendIndex_def Let_def split: option.splits sum.splits prod.splits if_splits)
  moreover have "hash_table db' = t" using d(1) assms(4) by (auto simp: put_index_def Let_def split: option.splits sum.splits)
  ultimately show thesis using that by blast
qed

lemma hash_table_sync_data: "hash_table (sync_data i db) = hash_table db"
  by (simp add: sync_data_def)

lemma finish_one:
  assumes ok: "db_ok db" "pwrite_ok pw" and th: "i < length ts" "ts ! i = putting k v (P_written fi fo)" and r: "record_fits (length k + length v)"
    and f: "file_at (data_files db) (unat fi) = Some f" "pf_content f = pre @ (k' @ v') @ post" "unat fo = length pre"
    and len: "length k' = length k" "length v' = length v"
    and ins: "insert_or_assign (hash_table db) k (file_Index fi fo (of_nat (length k)) (of_nat (length v))) = Inr (t, b)"
  obtains db' h where "put_turn pw i (db, ts) = Inr (db', ts[i := putting k v P_returned])" "db_ok db'" "hash_table db' = t"
    "file_at (data_files db') (unat fi) = Some h" "pf_content h = pf_content f" "db_map db' = (db_map db)(k \<mapsto> v')"
proof -
  let ?x = "file_Index fi fo (of_nat (length k)) (of_nat (length v))" and ?h = "if sync db then Sync f else f"
  define d where "d = sync_data (unat fi) db"
  have d: "db_ok d" "db_map d = db_map db" "file_at (data_files d) (unat fi) = Some ?h" "hash_table d = hash_table db"
    using sync_data_ok [OF ok(1) f(1)] by (simp_all add: d_def hash_table_sync_data)
  have h: "pf_content ?h = pf_content f" by (simp add: Sync_def)
  have "length k < 2 ^ 31" "length v < 2 ^ 31" using r by (auto simp: record_fits_def)
  then have "unat (key_size ?x) = length k" "unat (value_size ?x) = length v"
    by (simp_all add: unsigned_ucast_eq unat_of_nat_len unat_of_nat take_bit_nat_eq_self)
  then have e: "entry_ok d k ?x" "entry_value d ?x = v'"
    using d(3) h f(2,3) r len by (simp_all add: entry_ok_def entry_value_def mread_def)
  obtain db' where p: "put_index pw d k ?x = Inr db'" "db_ok db'" "data_files db' = data_files d" "hash_table db' = t"
    "db_map db' = (db_map d)(k \<mapsto> entry_value d ?x)"
    using put_index_inserts [OF d(1) e(1) ok(2)] ins unfolding d(4) by blast
  have "put_turn pw i (db, ts) = Inr (db', ts[i := putting k v P_returned])" using turn_indexes [OF th, of pw db] p(1) by (simp add: d_def)
  then show thesis using that [of db' ?h] p d e h by simp
qed

section \<open>Properties\<close>

text \<open>
  C0: Two calls of \<^verbatim>\<open>Put\<close> at the same time can exchange their values. Take a store and two different keys of the same length with
  two values of the same length, such that the index takes both entries without an exception. If the second thread comes between the reserving
  and the writing of the first, then both calls return and the store maps the first key to the value of the second call and the second key to the
  value of the first one, which is the result of neither order of the two calls.
\<close>

theorem concurrent_puts_exchange_values:
  assumes "db_ok db" "pwrite_ok pw" "record_fits (length k1 + length v1)" "k1 \<noteq> k2" "length k2 = length k1" "length v2 = length v1"
    "file_at (data_files db) (unat (file_num db - 1)) = Some f" "unat (pf_offset f) + (length k1 + length v1) < unat SEGMENT_SIZE"
    "insert_or_assign (hash_table db) k1 (file_Index (file_num db - 1) (pf_offset f) (of_nat (length k1)) (of_nat (length v1))) = Inr (t1, b1)"
    "insert_or_assign t1 k2 (file_Index (file_num db - 1) (pf_offset f + of_nat (length k1 + length v1)) (of_nat (length k1)) (of_nat (length v1))) =
       Inr (t2, b2)"
  shows "\<exists>db'. put_turns pw [0, 1, 1, 0, 0, 1] (db, [putting k1 v1 P_start, putting k2 v2 P_start]) =
      Inr (db', [putting k1 v1 P_returned, putting k2 v2 P_returned]) \<and> db_ok db' \<and> db_map db' = (db_map db)(k1 \<mapsto> v2, k2 \<mapsto> v1)"
proof -
  let ?fi = "file_num db - 1" and ?fo1 = "pf_offset f + of_nat (length k1 + length v1)"
  let ?w = "[putting k1 v1 (P_written ?fi (pf_offset f)), putting k2 v2 (P_written ?fi ?fo1)]"
  obtain f' where w: "put_turns pw [0, 1, 1, 0] (db, [putting k1 v1 P_start, putting k2 v2 P_start]) =
       Inr (db\<lparr>data_files := (data_files db)[unat ?fi := Some f']\<rparr>, ?w)"
    "unat ?fo1 = length (pf_content f) + (length k1 + length v1)" "file_ok f'" "pf_content f' = pf_content f @ (k2 @ v2) @ (k1 @ v1)"
    using crossed_writes [OF assms(1-3,5-8)] by blast
  define d0 where "d0 = db\<lparr>data_files := (data_files db)[unat ?fi := Some f']\<rparr>"
  have d0: "db_ok d0" "db_map d0 = db_map db" "file_at (data_files d0) (unat ?fi) = Some f'" "hash_table d0 = hash_table db"
    using grow_file [OF assms(1,7) w(3,4) refl] by (simp_all add: d0_def)
  have "file_ok f" by (rule files_okD [OF _ assms(7)]) (use assms(1) in \<open>simp add: db_ok_def\<close>)
  then have fo0: "unat (pf_offset f) = length (pf_content f)" by (simp add: file_ok_def)
  obtain d1 h where d1: "put_turn pw 0 (d0, ?w) = Inr (d1, ?w[0 := putting k1 v1 P_returned])" "db_ok d1" "hash_table d1 = t1"
    "file_at (data_files d1) (unat ?fi) = Some h" "pf_content h = pf_content f'" "db_map d1 = (db_map d0)(k1 \<mapsto> v2)"
    using finish_one [OF d0(1) assms(2) _ _ assms(3) d0(3) w(4) fo0 assms(5,6), of 0 ?w] assms(9) d0(4) by auto
  let ?u = "?w[0 := putting k1 v1 P_returned]"
  have c: "pf_content h = (pf_content f @ k2 @ v2) @ (k1 @ v1) @ []" "unat ?fo1 = length (pf_content f @ k2 @ v2)"
    using d1(5) w(2,4) assms(5,6) by simp_all
  have r2: "record_fits (length k2 + length v2)" using assms(3,5,6) by simp
  have ins: "insert_or_assign (hash_table d1) k2 (file_Index ?fi ?fo1 (of_nat (length k2)) (of_nat (length v2))) = Inr (t2, b2)"
    using assms(5,6,10) d1(3) by (simp del: of_nat_add)
  obtain d2 where d2: "put_turn pw 1 (d1, ?u) = Inr (d2, ?u[1 := putting k2 v2 P_returned])" "db_ok d2" "db_map d2 = (db_map d1)(k2 \<mapsto> v1)"
    using finish_one [OF d1(2) assms(2) _ _ r2 d1(4) c(1,2) assms(5,6) [symmetric] ins, of 1 ?u] by (auto simp del: of_nat_add)
  have "put_turns pw [0, 1, 1, 0, 0, 1] st = (case put_turns pw [0, 1, 1, 0] st of Inl e \<Rightarrow> Inl e | Inr st \<Rightarrow> put_turns pw [0, 1] st)" for st
    by (simp split: sum.split)
  then show ?thesis using w(1) d1(1,6) d2 d0(2) by (simp add: d0_def [symmetric] del: of_nat_add)
qed

lemma small_insert_twice:
  assumes "k1 \<noteq> k2"
  shows "\<exists>t1 t2. insert_or_assign (cuckoohash_map 10 0 (\<lambda>_. 0)) k1 v1 = Inr (t1, True) \<and> insert_or_assign t1 k2 v2 = Inr (t2, True)"
  using assms by (simp add: eval_new eval_locks eval_insert)

theorem concurrent_puts_exchange_values_witness:
  "\<exists>db db'. Open (cuckoohash_map 10 0 (\<lambda>_. 0)) False all_open None True = Some (Inr (Some db)) \<and>
    put_turns append_pwrite [0, 1, 1, 0, 0, 1] (db, [putting [107] [1, 2] P_start, putting [108] [3, 4] P_start]) =
      Inr (db', [putting [107] [1, 2] P_returned, putting [108] [3, 4] P_returned]) \<and>
    db_map db' [107] = Some [3, 4] \<and> db_map db' [108] = Some [1, 2]"
proof -
  obtain db where db: "Open (cuckoohash_map 10 0 (\<lambda>_. 0)) False all_open None True = Some (Inr (Some db))" "db_ok db" "hash_table db = cuckoohash_map 10 0 (\<lambda>_. 0)"
    "length (data_files db) = 1" using small_open by blast
  obtain f where f: "file_at (data_files db) (unat (file_num db - 1)) = Some f" "pf_offset f = 0" 
    using db(1) by (auto simp: Open_def Let_def DBImpl_def NewFile_def GetFileSize_def all_open_def file_at_def split: option.splits if_splits)
  have lt: "unat (pf_offset f) + (length [107 :: 8 word] + length [1, 2 :: 8 word]) < unat SEGMENT_SIZE" unfolding f(2) SEGMENT_SIZE_nat by simp
  obtain t1 t2 where "insert_or_assign (hash_table db) [107] (file_Index (file_num db - 1) (pf_offset f) (of_nat (length [107 :: 8 word])) (of_nat (length [1, 2 :: 8 word]))) = Inr (t1, True)"
    "insert_or_assign t1 [108] (file_Index (file_num db - 1) (pf_offset f + of_nat (length [107 :: 8 word] + length [1, 2 :: 8 word])) (of_nat (length [107 :: 8 word])) (of_nat (length [1, 2 :: 8 word]))) =
       Inr (t2, True)" unfolding db(3) using small_insert_twice [of "[107 :: 8 word]" "[108]"] by fastforce
  from concurrent_puts_exchange_values [OF db(2) append_pwrite_ok _ _ _ _ f(1) lt this, of "[3, 4]"] db(1) show ?thesis
    by (auto simp: record_fits_def)
qed

end
