(* ===== verification/Db_Type.thy ===== *)
theory Db_Type
  imports Bitcask_Map
begin

text \<open>
  The storage engines behind the servers: the interface \<^verbatim>\<open>DBType\<close> of
  \<^verbatim>\<open>database/dbtype.h\<close> with its BitCask, LogDB and CuckooDB classes, the log file of
  \<^verbatim>\<open>database/logdb/logfile.h\<close> and the selection \<^verbatim>\<open>OpenDB\<close> of \<^verbatim>\<open>include/db.h\<close>. A class is the
  record of its virtual functions over its state. The locale \<open>kv_store\<close> is what the
  servers rely on; BitCask provides it.

  The default build is a release build, in which \<^verbatim>\<open>assert\<close> is compiled out: the result of
  \<^verbatim>\<open>write\<close> in the log file is not looked at.
\<close>

section \<open>The log file\<close>

text \<open>
  The log is written from its start and never read: its state is the bytes before the
  file position, the number of them that \<^verbatim>\<open>fdatasync\<close> has forced out, and \<^verbatim>\<open>sync_\<close>. The
  result of the system call \<^verbatim>\<open>write\<close>, by position and count, is a parameter.
\<close>

type_synonym write_fn = "nat \<Rightarrow> nat \<Rightarrow> int"

definition write_full :: write_fn where
  "write_full pos n = int n"

definition write_ok :: "write_fn \<Rightarrow> bool" where
  "write_ok wr \<longleftrightarrow> (\<forall>pos n. wr pos n = write_full pos n)"

record logfile_db =
  lf_log :: bytes
  lf_durable :: nat
  lf_sync :: bool

definition LogFileDB :: "bool \<Rightarrow> logfile_db" where
  "LogFileDB sy = \<lparr>lf_log = [], lf_durable = 0, lf_sync = sy\<rparr>"

definition write_log :: "write_fn \<Rightarrow> bytes \<Rightarrow> logfile_db \<Rightarrow> logfile_db" where
  "write_log wr d db = db\<lparr>lf_log := lf_log db @ take (nat (wr (length (lf_log db)) (length d))) d\<rparr>"

definition fdatasync :: "logfile_db \<Rightarrow> logfile_db" where
  "fdatasync db = db\<lparr>lf_durable := length (lf_log db)\<rparr>"

definition LogFileDB_Put :: "write_fn \<Rightarrow> logfile_db \<Rightarrow> bytes \<Rightarrow> bytes \<Rightarrow> db_error + logfile_db" where
  "LogFileDB_Put wr db key val =
     (if 8 + length key + length val \<le> 8 * 1024
      then let db = write_log wr (le32 (of_nat (length key)) @ le32 (of_nat (length val)) @ key @ val) db
           in Inr (if lf_sync db then fdatasync db else db)
      else Inl Undefined)"

definition LogFileDB_PutBatch :: "write_fn \<Rightarrow> logfile_db \<Rightarrow> bytes \<Rightarrow> nat \<Rightarrow> db_error + logfile_db" where
  "LogFileDB_PutBatch wr db buf len =
     (case load buf 0 len of
        None \<Rightarrow> Inl Undefined
      | Some d \<Rightarrow> let db = write_log wr d db in Inr (if lf_sync db then fdatasync db else db))"

definition LogFileDB_SetSync :: "logfile_db \<Rightarrow> bool \<Rightarrow> logfile_db" where
  "LogFileDB_SetSync db sync_state = fdatasync (db\<lparr>lf_sync := sync_state\<rparr>)"

section \<open>The interface\<close>

text \<open>
  The virtual functions of \<^verbatim>\<open>DBType\<close>. \<open>None\<close> is a call that does not return; an answer of
  \<^verbatim>\<open>Get\<close> is \<open>None\<close> for the result false and the value stored through the pointer otherwise.
\<close>

record 'd DBType =
  db_put :: "'d \<Rightarrow> bytes \<Rightarrow> bytes \<Rightarrow> (db_error + 'd \<times> bool) option"
  db_get :: "'d \<Rightarrow> bytes \<Rightarrow> db_error + 'd \<times> bytes option"
  db_update :: "'d \<Rightarrow> bytes \<Rightarrow> bytes \<Rightarrow> (db_error + 'd \<times> bool) option"
  db_delete :: "'d \<Rightarrow> bytes \<Rightarrow> db_error + 'd \<times> bool"
  db_put_batch :: "'d \<Rightarrow> bytes list \<Rightarrow> Index list \<Rightarrow> bytes \<Rightarrow> nat \<Rightarrow> (db_error + 'd \<times> bool) option"
  db_set_sync :: "'d \<Rightarrow> 'd"

definition returns_true :: "db_error + 'd \<Rightarrow> db_error + 'd \<times> bool" where
  "returns_true r = (case r of Inl e \<Rightarrow> Inl e | Inr d \<Rightarrow> Inr (d, True))"

subsection \<open>BitCask\<close>

definition BitCask_PutBatch :: "pwrite_fn \<Rightarrow> db_impl \<Rightarrow> bytes list \<Rightarrow> Index list \<Rightarrow> bytes \<Rightarrow> nat
    \<Rightarrow> (db_error + db_impl \<times> bool) option" where
  "BitCask_PutBatch pw db key_batch index_batch buf len =
     (case PutBatch pw key_batch index_batch buf len db of
        None \<Rightarrow> None
      | Some (Inl e) \<Rightarrow> Some (Inl e)
      | Some (Inr (db, _)) \<Rightarrow> Some (Inr (db, True)))"

definition BitCask :: "pwrite_fn \<Rightarrow> (u64 \<Rightarrow> nat \<Rightarrow> bytes option) \<Rightarrow> db_impl DBType" where
  "BitCask pw mem =
     \<lparr>db_put = (\<lambda>db key val. Put pw key val db),
      db_get = Get mem,
      db_update = (\<lambda>db key val. Put pw key val db),
      db_delete = (\<lambda>db key. Inr (Delete db key)),
      db_put_batch = BitCask_PutBatch pw,
      db_set_sync = (\<lambda>db. db)\<rparr>"

subsection \<open>LogDB\<close>

text \<open>\<^verbatim>\<open>LogDB::Get\<close> returns true and leaves the caller's string as it was, which is empty.\<close>

definition LogDB :: "write_fn \<Rightarrow> logfile_db DBType" where
  "LogDB wr =
     \<lparr>db_put = (\<lambda>db key val. Some (returns_true (LogFileDB_Put wr db key val))),
      db_get = (\<lambda>db key. Inr (db, Some [])),
      db_update = (\<lambda>db key val. Some (returns_true (LogFileDB_Put wr db key val))),
      db_delete = (\<lambda>db key. Inr (db, True)),
      db_put_batch = (\<lambda>db key_batch index_batch buf len. Some (returns_true (LogFileDB_PutBatch wr db buf len))),
      db_set_sync = (\<lambda>db. db)\<rparr>"

subsection \<open>CuckooDB\<close>

record cuckoo_db =
  cd_table :: "(bytes, bytes) cuckoohash_map"
  cd_log :: logfile_db

definition CuckooDB_Put :: "write_fn \<Rightarrow> cuckoo_db \<Rightarrow> bytes \<Rightarrow> bytes \<Rightarrow> db_error + cuckoo_db" where
  "CuckooDB_Put wr db key val =
     (case insert_or_assign (cd_table db) key val of
        Inl e \<Rightarrow> Inl (Table_error e)
      | Inr (t, _) \<Rightarrow>
          (case LogFileDB_Put wr (cd_log db) key val of
             Inl e \<Rightarrow> Inl e
           | Inr l \<Rightarrow> Inr \<lparr>cd_table = t, cd_log = l\<rparr>))"

definition CuckooDB_Get :: "cuckoo_db \<Rightarrow> bytes \<Rightarrow> cuckoo_db \<times> bytes" where
  "CuckooDB_Get db key = (let (t, v) = find_default [] (cd_table db) key in (db\<lparr>cd_table := t\<rparr>, v))"

definition CuckooDB_Delete :: "cuckoo_db \<Rightarrow> bytes \<Rightarrow> cuckoo_db" where
  "CuckooDB_Delete db key = db\<lparr>cd_table := fst (erase (cd_table db) key)\<rparr>"

fun batch_insert :: "bytes \<Rightarrow> bytes list \<Rightarrow> Index list \<Rightarrow> (bytes, bytes) cuckoohash_map
    \<Rightarrow> db_error + (bytes, bytes) cuckoohash_map" where
  "batch_insert buf [] idxs t = Inr t"
| "batch_insert buf (key # keys) [] t = Inl Undefined"
| "batch_insert buf (key # keys) (idx # idxs) t =
     (case load buf (unat (file_offset idx) + unat (key_size idx)) (unat (value_size idx)) of
        None \<Rightarrow> Inl Undefined
      | Some val \<Rightarrow>
          (case insert_or_assign t key val of
             Inl e \<Rightarrow> Inl (Table_error e)
           | Inr (t, _) \<Rightarrow> batch_insert buf keys idxs t))"

definition CuckooDB_PutBatch :: "write_fn \<Rightarrow> cuckoo_db \<Rightarrow> bytes list \<Rightarrow> Index list \<Rightarrow> bytes \<Rightarrow> nat
    \<Rightarrow> db_error + cuckoo_db" where
  "CuckooDB_PutBatch wr db key_batch index_batch buf len =
     (case batch_insert buf key_batch index_batch (cd_table db) of
        Inl e \<Rightarrow> Inl e
      | Inr t \<Rightarrow>
          (case LogFileDB_PutBatch wr (cd_log db) buf len of
             Inl e \<Rightarrow> Inl e
           | Inr l \<Rightarrow> Inr \<lparr>cd_table = t, cd_log = l\<rparr>))"

definition CuckooDB :: "write_fn \<Rightarrow> cuckoo_db DBType" where
  "CuckooDB wr =
     \<lparr>db_put = (\<lambda>db key val. Some (returns_true (CuckooDB_Put wr db key val))),
      db_get = (\<lambda>db key. let (db, val) = CuckooDB_Get db key in Inr (db, Some val)),
      db_update = (\<lambda>db key val. Some (returns_true (CuckooDB_Put wr db key val))),
      db_delete = (\<lambda>db key. Inr (CuckooDB_Delete db key, True)),
      db_put_batch = (\<lambda>db keys idxs buf len. Some (returns_true (CuckooDB_PutBatch wr db keys idxs buf len))),
      db_set_sync = (\<lambda>db. db\<lparr>cd_log := LogFileDB_SetSync (cd_log db) True\<rparr>)\<rparr>"

subsection \<open>The selection of an engine\<close>

datatype engine =
    Bitcask_engine
  | Leveldb_engine
  | Logdb_engine
  | Cuckoodb_engine

definition OpenDB :: "string \<Rightarrow> engine option" where
  "OpenDB db_type =
     (if db_type = ''bitcask'' then Some Bitcask_engine
      else if db_type = ''leveldb'' then Some Leveldb_engine
      else if db_type = ''logdb'' then Some Logdb_engine
      else if db_type = ''cuckoodb'' then Some Cuckoodb_engine
      else None)"

section \<open>What a server relies on\<close>

text \<open>
  A store holds a map from keys to values. \<open>ok n\<close> is its invariant with room for \<open>n\<close> more
  writing calls, \<open>fits\<close> bounds the size of what one call can write. A writing call may end
  the process by an exception of the table (one nobody catches), and otherwise it has its effect and returns.
\<close>

definition table_exn :: "db_error \<Rightarrow> bool" where
  "table_exn e \<longleftrightarrow> (\<exists>c. e = Table_error c \<and> c \<noteq> No_return)"

locale kv_store =
  fixes ops :: "'d DBType"
    and ok :: "nat \<Rightarrow> 'd \<Rightarrow> bool"
    and contents :: "'d \<Rightarrow> bytes \<rightharpoonup> bytes"
    and fits :: "nat \<Rightarrow> bool"
  assumes ok_Suc: "ok (Suc n) d \<Longrightarrow> ok n d"
    and fits_mono: "fits n \<Longrightarrow> m \<le> n \<Longrightarrow> fits m"
    and put_ok: "ok (Suc n) d \<Longrightarrow> fits (length k + length v) \<Longrightarrow>
      (\<exists>e. db_put ops d k v = Some (Inl e) \<and> table_exn e) \<or>
      (\<exists>d'. db_put ops d k v = Some (Inr (d', True)) \<and> ok n d' \<and> contents d' = (contents d)(k \<mapsto> v))"
    and get_ok: "ok n d \<Longrightarrow>
      \<exists>d'. db_get ops d k = Inr (d', contents d k) \<and> ok n d' \<and> contents d' = contents d"
    and delete_ok: "ok n d \<Longrightarrow>
      \<exists>d'. db_delete ops d k = Inr (d', contents d k \<noteq> None) \<and> ok n d' \<and> contents d' = (contents d)(k := None)"
    and batch_ok: "ok (Suc n) d \<Longrightarrow> fits len \<Longrightarrow> len \<le> length buf \<Longrightarrow> batch_ok len keys idxs \<Longrightarrow>
      (\<exists>e. db_put_batch ops d keys idxs buf len = Some (Inl e) \<and> table_exn e) \<or>
      (\<exists>d'. db_put_batch ops d keys idxs buf len = Some (Inr (d', True)) \<and> ok n d' \<and>
         contents d' = contents d ++ map_of (rev (zip keys (map (batch_value (take len buf)) idxs))))"
    and set_sync_ok: "ok n d \<Longrightarrow> ok n (db_set_sync ops d) \<and> contents (db_set_sync ops d) = contents d"

section \<open>BitCask is such a store\<close>

definition bitcask_ok :: "nat \<Rightarrow> db_impl \<Rightarrow> bool" where
  "bitcask_ok n db \<longleftrightarrow> db_ok db \<and> length (data_files db) + n < 2 ^ 32"

lemma pwrite_ok_append: "pwrite_ok pw \<longleftrightarrow> pw = append_pwrite"
  by (auto simp: pwrite_ok_def fun_eq_iff)

lemma Get_data_files: "Get mem db key = Inr (db', r) \<Longrightarrow> data_files db' = data_files db"
  by (auto simp: Get_def Let_def split: prod.splits if_splits option.splits sum.splits)

lemma Delete_data_files: "Delete db key = (db', r) \<Longrightarrow> data_files db' = data_files db"
  by (auto simp: Delete_def Let_def split: prod.splits if_splits option.splits sum.splits)

interpretation bc: kv_store "BitCask append_pwrite mem" bitcask_ok db_map record_fits for mem
proof
  fix n d k v and m :: nat
  show "bitcask_ok (Suc n) d \<Longrightarrow> bitcask_ok n d" by (simp add: bitcask_ok_def)
  show "record_fits n \<Longrightarrow> m \<le> n \<Longrightarrow> record_fits m" by (simp add: record_fits_def)
  show "bitcask_ok n d \<Longrightarrow>
      \<exists>d'. db_get (BitCask append_pwrite mem) d k = Inr (d', db_map d k) \<and> bitcask_ok n d' \<and> db_map d' = db_map d"
    using Get_map [of d mem k] Get_data_files [of mem d k] by (fastforce simp: bitcask_ok_def BitCask_def)
  show "bitcask_ok n d \<Longrightarrow>
      \<exists>d'. db_delete (BitCask append_pwrite mem) d k = Inr (d', db_map d k \<noteq> None) \<and> bitcask_ok n d' \<and>
        db_map d' = (db_map d)(k := None)"
    using Delete_map [of d k] Delete_data_files [of d k] by (fastforce simp: bitcask_ok_def BitCask_def)
  show "bitcask_ok n d \<Longrightarrow> bitcask_ok n (db_set_sync (BitCask append_pwrite mem) d) \<and>
      db_map (db_set_sync (BitCask append_pwrite mem) d) = db_map d"
    by (simp add: BitCask_def)
  show "bitcask_ok (Suc n) d \<Longrightarrow> record_fits (length k + length v) \<Longrightarrow>
      (\<exists>e. db_put (BitCask append_pwrite mem) d k v = Some (Inl e) \<and> table_exn e) \<or>
      (\<exists>d'. db_put (BitCask append_pwrite mem) d k v = Some (Inr (d', True)) \<and> bitcask_ok n d' \<and>
         db_map d' = (db_map d)(k \<mapsto> v))"
    using Put_map [of d append_pwrite k v] by (fastforce simp: bitcask_ok_def BitCask_def append_pwrite_ok table_exn_def)
next
  fix n d len keys idxs and buf :: bytes
  assume "bitcask_ok (Suc n) d" "record_fits len" "len \<le> length buf" "batch_ok len keys idxs"
  then show "(\<exists>e. db_put_batch (BitCask append_pwrite mem) d keys idxs buf len = Some (Inl e) \<and> table_exn e) \<or>
      (\<exists>d'. db_put_batch (BitCask append_pwrite mem) d keys idxs buf len = Some (Inr (d', True)) \<and>
         bitcask_ok n d' \<and>
         db_map d' = db_map d ++ map_of (rev (zip keys (map (batch_value (take len buf)) idxs))))"
    using PutBatch_map [of d append_pwrite len buf keys idxs]
    by (fastforce simp: bitcask_ok_def BitCask_def BitCask_PutBatch_def append_pwrite_ok table_exn_def)
qed

section \<open>CuckooDB\<close>

text \<open>The log of a sequence of pairs, as \<^verbatim>\<open>LogFileDB::Put\<close> lays them out.\<close>

definition log_record :: "bytes \<times> bytes \<Rightarrow> bytes" where
  "log_record = (\<lambda>(key, val). le32 (of_nat (length key)) @ le32 (of_nat (length val)) @ key @ val)"

definition log_fits :: "bytes \<times> bytes \<Rightarrow> bool" where
  "log_fits = (\<lambda>(key, val). 8 + length key + length val \<le> 8192)"

lemma LogFileDB_Put_log:
  assumes "write_ok wr" "log_fits (key, val)"
  shows "\<exists>l'. LogFileDB_Put wr l key val = Inr l' \<and> lf_log l' = lf_log l @ log_record (key, val) \<and>
    lf_sync l' = lf_sync l \<and> (lf_sync l \<longrightarrow> lf_durable l' = length (lf_log l'))"
  using assms
  by (simp add: LogFileDB_Put_def write_log_def fdatasync_def Let_def write_ok_def write_full_def log_fits_def log_record_def)

text \<open>Puts one after the other.\<close>

fun CuckooDB_puts :: "write_fn \<Rightarrow> cuckoo_db \<Rightarrow> (bytes \<times> bytes) list \<Rightarrow> db_error + cuckoo_db" where
  "CuckooDB_puts wr db [] = Inr db"
| "CuckooDB_puts wr db ((key, val) # kvs) =
     (case CuckooDB_Put wr db key val of Inl e \<Rightarrow> Inl e | Inr db \<Rightarrow> CuckooDB_puts wr db kvs)"

lemma CuckooDB_puts_ok:
  assumes "write_ok wr" "list_all log_fits kvs" "cuckoo_invar (cd_table db)" "lf_sync (cd_log db)"
    "lf_durable (cd_log db) = length (lf_log (cd_log db))" "CuckooDB_puts wr db kvs = Inr db'"
  shows "cuckoo_invar (cd_table db') \<and>
    cuckoo_lookup (cd_table db') = cuckoo_lookup (cd_table db) ++ map_of (rev kvs) \<and>
    lf_log (cd_log db') = lf_log (cd_log db) @ concat (map log_record kvs) \<and>
    lf_durable (cd_log db') = length (lf_log (cd_log db'))"
  using assms
proof (induction wr db kvs rule: CuckooDB_puts.induct)
  case (1 wr db)
  then show ?case by simp
next
  case (2 wr db key val kvs)
  obtain l where l: "LogFileDB_Put wr (cd_log db) key val = Inr l"
    "lf_log l = lf_log (cd_log db) @ log_record (key, val)" "lf_sync l" "lf_durable l = length (lf_log l)"
    using LogFileDB_Put_log [of wr key val "cd_log db"] "2.prems" by auto
  with "2.prems"(6) obtain t b where t: "insert_or_assign (cd_table db) key val = Inr (t, b)"
    and p: "CuckooDB_Put wr db key val = Inr \<lparr>cd_table = t, cd_log = l\<rparr>"
    and r: "CuckooDB_puts wr \<lparr>cd_table = t, cd_log = l\<rparr> kvs = Inr db'"
    by (auto simp: CuckooDB_Put_def split: sum.splits)
  note tab = cm.insert_invar [OF "2.prems"(3) t] cm.insert_lookup [OF "2.prems"(3) t]
  from "2.IH" [OF p "2.prems"(1) _ _ _ _ r] "2.prems"(2) tab l
  show ?case by (simp add: map_add_def fun_eq_iff split: option.splits)
qed

lemma CuckooDB_puts_error:
  assumes "write_ok wr" "list_all log_fits kvs" "cuckoo_invar (cd_table db)" "CuckooDB_puts wr db kvs = Inl e"
  shows "\<exists>c. e = Table_error c \<and> c \<noteq> No_return"
  using assms
proof (induction wr db kvs rule: CuckooDB_puts.induct)
  case (1 wr db)
  then show ?case by simp
next
  case (2 wr db key val kvs)
  obtain l where l: "LogFileDB_Put wr (cd_log db) key val = Inr l"
    using LogFileDB_Put_log [of wr key val "cd_log db"] "2.prems" by auto
  show ?case
  proof (cases "insert_or_assign (cd_table db) key val")
    case (Inl c)
    then show ?thesis using "2.prems"(3,4) cm.insert_returns [of "cd_table db" key val] by (auto simp: CuckooDB_Put_def)
  next
    case (Inr q)
    obtain t b where q: "q = (t, b)" by (cases q)
    have p: "CuckooDB_Put wr db key val = Inr \<lparr>cd_table = t, cd_log = l\<rparr>" using Inr q l by (simp add: CuckooDB_Put_def)
    from "2.IH" [OF p] "2.prems" p cm.insert_invar [OF "2.prems"(3) Inr [unfolded q]] show ?thesis by simp
  qed
qed


lemma CuckooDB_small_puts:
  "\<exists>db. CuckooDB_puts write_full \<lparr>cd_table = cuckoohash_map 10 0 (\<lambda>_. 0), cd_log = LogFileDB True\<rparr>
     [([107], [118]), ([108], [119]), ([107], [120])] = Inr db"
  by (simp add: CuckooDB_Put_def LogFileDB_Put_def Let_def eval_new eval_locks eval_insert)


end
