(* ===== verification/Rdma.thy ===== *)
theory Rdma
  imports Prelude
begin

text \<open>
  The RDMA layer of \<^verbatim>\<open>frontend/rdmautil/rdmautil.cc\<close> and \<^verbatim>\<open>rdmautil.h\<close>: memory regions,
  the certificate two peers exchange, and the verbs that build a work request and hand it
  to the adapter. A host is one \<^verbatim>\<open>RDMAContext\<close> with the memory it points to, its send queue
  and its completion queues. The library \<^verbatim>\<open>libibverbs\<close> and the adapter behind it are the
  parameter \<open>verbs\<close>; \<open>verbs_ok\<close> is what their manual pages promise for a reliable
  connection.
\<close>

section \<open>Definitions\<close>

subsection \<open>Constants\<close>

definition MAX_QP_DEPTH :: nat where
  "MAX_QP_DEPTH = 8"

definition MAX_INLINE_SIZE :: nat where
  "MAX_INLINE_SIZE = 128"

definition SEND_BUF_SIZE :: nat where
  "SEND_BUF_SIZE = 1 * 1024 * 1024"

definition MAX_CQE :: nat where
  "MAX_CQE = 32"

subsection \<open>Contexts\<close>

record ibv_mr =
  mr_addr :: u64
  mr_length :: nat
  mr_lkey :: u32
  mr_rkey :: u32

record connection_certificate =
  cc_addr0 :: u64
  cc_rkey0 :: u32
  cc_length0 :: u32
  cc_addr :: u64
  cc_rkey :: u32
  cc_length :: u32
  cc_qp_num :: u32
  cc_lid :: u16
  cc_gid :: bytes

datatype opcode =
    IBV_WR_RDMA_WRITE
  | IBV_WR_RDMA_READ
  | IBV_WR_SEND
  | IBV_WR_ATOMIC_CMP_AND_SWP

record ibv_send_wr =
  sg_addr :: u64
  sg_length :: u32
  sg_lkey :: u32
  wr_opcode :: opcode
  wr_signaled :: bool
  wr_inline :: bool
  wr_remote_addr :: u64
  wr_rkey :: u32
  wr_compare_add :: u64
  wr_swap :: u64

record ibv_recv_wr =
  rsg_addr :: u64
  rsg_length :: u32
  rsg_lkey :: u32

text \<open>
  A queued request carries the bytes that were copied out of the buffer when it was posted
  inline. A completion is whether the request succeeded.
\<close>

record host =
  send_mr :: ibv_mr
  send_buf :: u64
  local_cert :: connection_certificate
  remote_cert :: connection_certificate
  write_mr :: ibv_mr
  write_buf :: u64
  dmabuf :: bool
  dmaoff :: u64
  send_mem :: bytes
  write_mem :: bytes
  send_queue :: "(ibv_send_wr \<times> bytes option) list"
  recv_queue :: "ibv_recv_wr list"
  out_cq :: "bool list"
  in_cq :: "bool list"

subsection \<open>The adapter\<close>

record verbs =
  ibv_post_send :: "ibv_send_wr \<Rightarrow> host \<Rightarrow> host \<times> int"
  ibv_post_recv :: "ibv_recv_wr \<Rightarrow> host \<Rightarrow> host \<times> int"
  ibv_poll_cq :: "bool \<Rightarrow> host \<Rightarrow> host \<times> int"
  execute :: "host \<Rightarrow> host \<Rightarrow> host \<times> host"

text \<open>The bytes of a registered region, by address and key; \<open>None\<close> is a protection error.\<close>

definition in_mr :: "ibv_mr \<Rightarrow> u64 \<Rightarrow> nat \<Rightarrow> bool" where
  "in_mr mr a n \<longleftrightarrow> unat (a - mr_addr mr) + n \<le> mr_length mr"

definition local_read :: "host \<Rightarrow> u32 \<Rightarrow> u64 \<Rightarrow> nat \<Rightarrow> bytes option" where
  "local_read h key a n =
     (if key = mr_lkey (write_mr h) \<and> in_mr (write_mr h) a n
      then Some (mread (write_mem h) (unat (a - mr_addr (write_mr h))) n)
      else if key = mr_lkey (send_mr h) \<and> in_mr (send_mr h) a n
      then Some (mread (send_mem h) (unat (a - mr_addr (send_mr h))) n)
      else None)"

definition remote_write :: "host \<Rightarrow> u32 \<Rightarrow> u64 \<Rightarrow> bytes \<Rightarrow> host option" where
  "remote_write h key a d =
     (if key = mr_rkey (write_mr h) \<and> in_mr (write_mr h) a (length d)
      then Some (h\<lparr>write_mem := mwrite (write_mem h) (unat (a - mr_addr (write_mr h))) d\<rparr>)
      else if key = mr_rkey (send_mr h) \<and> in_mr (send_mr h) a (length d)
      then Some (h\<lparr>send_mem := mwrite (send_mem h) (unat (a - mr_addr (send_mr h))) d\<rparr>)
      else None)"

text \<open>The memory a pointer of the process points to, for the copy of inline data.\<close>

definition host_read :: "host \<Rightarrow> u64 \<Rightarrow> nat \<Rightarrow> bytes" where
  "host_read h a n =
     (if unat (a - write_buf h) + n \<le> length (write_mem h)
      then mread (write_mem h) (unat (a - write_buf h)) n
      else mread (send_mem h) (unat (a - send_buf h)) n)"

definition queued :: "host \<Rightarrow> ibv_send_wr \<Rightarrow> ibv_send_wr \<times> bytes option" where
  "queued h wr = (wr, if wr_inline wr then Some (host_read h (sg_addr wr) (unat (sg_length wr))) else None)"

definition payload :: "host \<Rightarrow> ibv_send_wr \<times> bytes option \<Rightarrow> bytes option" where
  "payload h = (\<lambda>(wr, inl). case inl of
       Some d \<Rightarrow> Some d
     | None \<Rightarrow> local_read h (sg_lkey wr) (sg_addr wr) (unat (sg_length wr)))"

definition complete :: "ibv_send_wr \<Rightarrow> bool \<Rightarrow> host \<Rightarrow> host" where
  "complete wr good h =
     h\<lparr>send_queue := tl (send_queue h),
       out_cq := out_cq h @ (if wr_signaled wr \<or> \<not> good then [good] else [])\<rparr>"

text \<open>
  A reliable connection, for the requests the front ends use. A post with room in the queue
  succeeds; polling takes the oldest completion; the adapter executes the oldest request of
  the queue: a write reads its source under the local key (unless inline), checks the remote
  key and range, and stores the bytes in the peer's memory. A request that fails a check
  completes with an error and the queue pair stops.
\<close>

definition verbs_post :: "verbs \<Rightarrow> bool" where
  "verbs_post v \<longleftrightarrow> (\<forall>wr h. length (send_queue h) < MAX_QP_DEPTH \<longrightarrow>
     ibv_post_send v wr h = (h\<lparr>send_queue := send_queue h @ [queued h wr]\<rparr>, 0))"

definition verbs_poll :: "verbs \<Rightarrow> bool" where
  "verbs_poll v \<longleftrightarrow> (\<forall>h. ibv_poll_cq v True h =
     (case out_cq h of [] \<Rightarrow> (h, 0) | c # cs \<Rightarrow> (h\<lparr>out_cq := cs\<rparr>, 1)))"

definition verbs_write :: "verbs \<Rightarrow> bool" where
  "verbs_write v \<longleftrightarrow> (\<forall>loc rem wr inl q d rem'.
     send_queue loc = (wr, inl) # q \<longrightarrow> wr_opcode wr = IBV_WR_RDMA_WRITE \<longrightarrow>
     payload loc (wr, inl) = Some d \<longrightarrow> remote_write rem (wr_rkey wr) (wr_remote_addr wr) d = Some rem' \<longrightarrow>
     execute v loc rem = (complete wr True loc, rem'))"

definition verbs_protect :: "verbs \<Rightarrow> bool" where
  "verbs_protect v \<longleftrightarrow> (\<forall>loc rem wr inl q.
     send_queue loc = (wr, inl) # q \<longrightarrow> wr_opcode wr = IBV_WR_RDMA_WRITE \<longrightarrow> payload loc (wr, inl) = None \<longrightarrow>
     execute v loc rem = ((complete wr False loc)\<lparr>send_queue := []\<rparr>, rem))"

definition verbs_ok :: "verbs \<Rightarrow> bool" where
  "verbs_ok v \<longleftrightarrow> verbs_post v \<and> verbs_poll v \<and> verbs_write v \<and> verbs_protect v"

subsection \<open>Opening and connecting\<close>

datatype rdma_status =
    Status_Ok
  | NoRDMADeviceList
  | DeviceNotFound
  | DeviceNotOpened
  | NoGID
  | CannotOpenDevice
  | CannotAllocPD
  | CannotCreateCQ
  | CannotRegMR
  | CannotCreateQP
  | CannotQueryPort
  | InvalidGIDIdx
  | InvalidIBPort
  | InvalidArguments
  | CannotInitQP
  | QPRTRFailed
  | QPRTSFailed
  | ReadError
  | WriteError
  | PostFailed
  | RecvFailed

fun decode_rdma_status :: "rdma_status \<Rightarrow> string" where
  "decode_rdma_status Status_Ok = ''Ok''"
| "decode_rdma_status NoRDMADeviceList = ''NoRDMADeviceList''"
| "decode_rdma_status DeviceNotFound = ''DeviceNotFound''"
| "decode_rdma_status NoGID = ''NoGID''"
| "decode_rdma_status CannotOpenDevice = ''CannotOpenDevice''"
| "decode_rdma_status CannotAllocPD = ''CannotAllocPD''"
| "decode_rdma_status CannotCreateCQ = ''CannotCreateCQ''"
| "decode_rdma_status CannotRegMR = ''CannotRegMR''"
| "decode_rdma_status CannotCreateQP = ''CannotCreateQP''"
| "decode_rdma_status CannotQueryPort = ''CannotQueryPort''"
| "decode_rdma_status InvalidGIDIdx = ''InvalidGIDIdx''"
| "decode_rdma_status InvalidIBPort = ''InvalidIBPort''"
| "decode_rdma_status InvalidArguments = ''InvalidArguments''"
| "decode_rdma_status CannotInitQP = ''CannotInitQP''"
| "decode_rdma_status QPRTRFailed = ''QPRTRFailed''"
| "decode_rdma_status QPRTSFailed = ''QPRTSFailed''"
| "decode_rdma_status DeviceNotOpened = ''DeviceNotOpened''"
| "decode_rdma_status ReadError = ''ReadError''"
| "decode_rdma_status WriteError = ''WriteError''"
| "decode_rdma_status _ = ''Unknown status''"

text \<open>What the device answers while a context is opened; \<open>None\<close> or false is a failure.\<close>

record rdma_device =
  dev_alloc_pd :: bool
  dev_in_cq :: bool
  dev_out_cq :: bool
  dev_send_buf :: u64
  dev_reg_send :: "ibv_mr option"
  dev_create_qp :: "u32 option"
  dev_ib_port :: int
  dev_gid_idx :: int
  dev_query_gid :: "bytes option"
  dev_query_port :: "u16 option"

text \<open>
  \<^verbatim>\<open>make_rdma\<close>: \<open>devices\<close> is what \<^verbatim>\<open>ibv_get_device_list\<close> returns, each device by its name and
  with what \<^verbatim>\<open>ibv_open_device\<close> makes of it.
\<close>

fun open_by_name :: "string \<Rightarrow> (string \<times> rdma_device option) list \<Rightarrow> rdma_device option" where
  "open_by_name dev_name [] = None"
| "open_by_name dev_name ((name, ctx) # devices) =
     (if dev_name = name \<and> ctx \<noteq> None then ctx else open_by_name dev_name devices)"

definition make_rdma :: "(string \<times> rdma_device option) list option \<Rightarrow> string \<Rightarrow> int \<Rightarrow> int \<Rightarrow> rdma_device option" where
  "make_rdma devices dev_name ib_port gid_idx =
     (case devices of
        None \<Rightarrow> None
      | Some devs \<Rightarrow> map_option (\<lambda>dev. dev\<lparr>dev_ib_port := ib_port, dev_gid_idx := gid_idx\<rparr>) (open_by_name dev_name devs))"

definition zero_mr :: ibv_mr where
  "zero_mr = \<lparr>mr_addr = 0, mr_length = 0, mr_lkey = 0, mr_rkey = 0\<rparr>"

definition zero_cert :: connection_certificate where
  "zero_cert = \<lparr>cc_addr0 = 0, cc_rkey0 = 0, cc_length0 = 0, cc_addr = 0, cc_rkey = 0, cc_length = 0,
     cc_qp_num = 0, cc_lid = 0, cc_gid = replicate 16 0\<rparr>"

definition make_rdma_context :: host where
  "make_rdma_context =
     \<lparr>send_mr = zero_mr, send_buf = 0, local_cert = zero_cert, remote_cert = zero_cert, write_mr = zero_mr,
      write_buf = 0, dmabuf = False, dmaoff = 0, send_mem = [], write_mem = [], send_queue = [], recv_queue = [],
      out_cq = [], in_cq = []\<rparr>"

text \<open>\<open>mem\<close> is what the freshly allocated send buffer happens to hold.\<close>

definition open_context :: "rdma_device \<Rightarrow> bytes \<Rightarrow> rdma_status + host" where
  "open_context dev mem =
     (if \<not> dev_alloc_pd dev then Inl CannotAllocPD
      else if \<not> dev_in_cq dev then Inl CannotCreateCQ
      else if \<not> dev_out_cq dev then Inl CannotCreateCQ
      else case dev_reg_send dev of
        None \<Rightarrow> Inl CannotRegMR
      | Some mr \<Rightarrow>
          (let cert = zero_cert\<lparr>cc_addr0 := dev_send_buf dev, cc_rkey0 := mr_rkey mr, cc_length0 := of_nat SEND_BUF_SIZE\<rparr>
           in case dev_create_qp dev of
                None \<Rightarrow> Inl CannotCreateQP
              | Some qp \<Rightarrow>
                  (case (if dev_gid_idx dev \<ge> 0 then dev_query_gid dev else Some (cc_gid cert)) of
                     None \<Rightarrow> Inl NoGID
                   | Some gid \<Rightarrow>
                       (case dev_query_port dev of
                          None \<Rightarrow> Inl CannotQueryPort
                        | Some lid \<Rightarrow>
                            Inr (make_rdma_context\<lparr>send_buf := dev_send_buf dev, send_mem := mem, send_mr := mr,
                              local_cert := cert\<lparr>cc_gid := gid, cc_qp_num := qp, cc_lid := lid\<rparr>\<rparr>)))))"

definition register_write_buf :: "ibv_mr option \<Rightarrow> u64 \<Rightarrow> bytes \<Rightarrow> host \<Rightarrow> host \<times> int" where
  "register_write_buf reg ptr mem h =
     (case reg of
        None \<Rightarrow> (h, -1)
      | Some mr \<Rightarrow>
          (h\<lparr>write_mr := mr,
             local_cert := (local_cert h)\<lparr>cc_addr := mr_addr mr, cc_rkey := mr_rkey mr, cc_length := of_nat (mr_length mr)\<rparr>,
             write_buf := ptr, write_mem := mem, dmabuf := False, dmaoff := 0\<rparr>, 0))"

definition register_write_dmabuf :: "ibv_mr option \<Rightarrow> u64 \<Rightarrow> bytes \<Rightarrow> u64 \<Rightarrow> host \<Rightarrow> host \<times> int" where
  "register_write_dmabuf reg ptr mem offset h =
     (case reg of
        None \<Rightarrow> (h, -1)
      | Some mr \<Rightarrow>
          (h\<lparr>write_mr := mr,
             local_cert := (local_cert h)\<lparr>cc_addr := mr_addr mr + offset, cc_rkey := mr_rkey mr, cc_length := of_nat (mr_length mr)\<rparr>,
             write_buf := ptr, write_mem := mem, dmabuf := True, dmaoff := offset\<rparr>, 0))"

definition get_write_off :: "host \<Rightarrow> nat" where
  "get_write_off h = unat (dmaoff h)"

text \<open>The packed certificate on the wire, in network byte order.\<close>

definition hton :: "nat \<Rightarrow> 'a::len word \<Rightarrow> bytes" where
  "hton n w = rev (le_bytes n (unat w))"

definition ntoh :: "bytes \<Rightarrow> 'a::len word" where
  "ntoh d = of_nat (le_val (rev d))"

definition certificate_size :: nat where
  "certificate_size = 54"

definition wire_certificate :: "connection_certificate \<Rightarrow> bytes" where
  "wire_certificate c =
     hton 8 (cc_addr0 c) @ hton 4 (cc_rkey0 c) @ hton 4 (cc_length0 c) @
     hton 8 (cc_addr c) @ hton 4 (cc_rkey c) @ hton 4 (cc_length c) @
     hton 4 (cc_qp_num c) @ hton 2 (cc_lid c) @ cc_gid c"

definition unwire_certificate :: "bytes \<Rightarrow> connection_certificate" where
  "unwire_certificate d =
     \<lparr>cc_addr0 = ntoh (mread d 0 8), cc_rkey0 = ntoh (mread d 8 4), cc_length0 = ntoh (mread d 12 4),
      cc_addr = ntoh (mread d 16 8), cc_rkey = ntoh (mread d 24 4), cc_length = ntoh (mread d 28 4),
      cc_qp_num = ntoh (mread d 32 4), cc_lid = ntoh (mread d 36 2), cc_gid = mread d 38 16\<rparr>"

text \<open>
  The exchange over the socket: \<open>written\<close> is the result of \<^verbatim>\<open>write\<close>, \<open>received\<close> the bytes
  \<^verbatim>\<open>read\<close> delivered, if any. The bytes sent are the first component.
\<close>

definition exchange_certificate :: "int \<Rightarrow> bytes option \<Rightarrow> host \<Rightarrow> bytes \<times> rdma_status \<times> host" where
  "exchange_certificate written received h =
     (let tmp = wire_certificate (local_cert h)
      in if written \<noteq> int certificate_size then (tmp, WriteError, h)
         else case received of
                None \<Rightarrow> (tmp, ReadError, h)
              | Some d \<Rightarrow>
                  (if length d \<noteq> certificate_size then (tmp, ReadError, h)
                   else (tmp, Status_Ok, h\<lparr>remote_cert := unwire_certificate d\<rparr>)))"

text \<open>
  The attributes of the queue pair and the masks that name the ones to be changed. The
  fields have the widths they have in \<^verbatim>\<open>ibv_qp_attr\<close>.
\<close>

datatype ibv_qp_state = IBV_QPS_RESET | IBV_QPS_INIT | IBV_QPS_RTR | IBV_QPS_RTS

datatype ibv_mtu = MTU_unset | IBV_MTU_256

datatype ibv_access = IBV_ACCESS_LOCAL_WRITE | IBV_ACCESS_REMOTE_READ | IBV_ACCESS_REMOTE_WRITE

datatype ibv_qp_attr_mask =
    IBV_QP_STATE | IBV_QP_PKEY_INDEX | IBV_QP_PORT | IBV_QP_ACCESS_FLAGS | IBV_QP_AV | IBV_QP_PATH_MTU | IBV_QP_DEST_QPN
  | IBV_QP_RQ_PSN | IBV_QP_MAX_DEST_RD_ATOMIC | IBV_QP_MIN_RNR_TIMER | IBV_QP_TIMEOUT | IBV_QP_RETRY_CNT | IBV_QP_RNR_RETRY
  | IBV_QP_SQ_PSN | IBV_QP_MAX_QP_RD_ATOMIC

record ibv_ah_attr =
  ah_is_global :: byte
  ah_dlid :: u16
  ah_sl :: byte
  ah_src_path_bits :: byte
  ah_port_num :: byte
  grh_dgid :: bytes
  grh_flow_label :: u32
  grh_hop_limit :: byte
  grh_sgid_index :: byte
  grh_traffic_class :: byte

record ibv_qp_attr =
  qp_state :: ibv_qp_state
  qp_port_num :: byte
  qp_pkey_index :: u16
  qp_access_flags :: "ibv_access list"
  qp_path_mtu :: ibv_mtu
  qp_dest_qp_num :: u32
  qp_rq_psn :: u32
  qp_max_dest_rd_atomic :: byte
  qp_min_rnr_timer :: byte
  qp_ah_attr :: ibv_ah_attr
  qp_timeout :: byte
  qp_retry_cnt :: byte
  qp_rnr_retry :: byte
  qp_sq_psn :: u32
  qp_max_rd_atomic :: byte

definition zero_ah_attr :: ibv_ah_attr where
  "zero_ah_attr =
     \<lparr>ah_is_global = 0, ah_dlid = 0, ah_sl = 0, ah_src_path_bits = 0, ah_port_num = 0, grh_dgid = replicate 16 0,
      grh_flow_label = 0, grh_hop_limit = 0, grh_sgid_index = 0, grh_traffic_class = 0\<rparr>"

definition zero_qp_attr :: ibv_qp_attr where
  "zero_qp_attr =
     \<lparr>qp_state = IBV_QPS_RESET, qp_port_num = 0, qp_pkey_index = 0, qp_access_flags = [], qp_path_mtu = MTU_unset,
      qp_dest_qp_num = 0, qp_rq_psn = 0, qp_max_dest_rd_atomic = 0, qp_min_rnr_timer = 0, qp_ah_attr = zero_ah_attr,
      qp_timeout = 0, qp_retry_cnt = 0, qp_rnr_retry = 0, qp_sq_psn = 0, qp_max_rd_atomic = 0\<rparr>"

definition get_default_mr_access :: "ibv_access list" where
  "get_default_mr_access = [IBV_ACCESS_LOCAL_WRITE, IBV_ACCESS_REMOTE_READ, IBV_ACCESS_REMOTE_WRITE]"

definition get_default_qp_init_state_attr :: "int \<Rightarrow> ibv_qp_attr" where
  "get_default_qp_init_state_attr ib_port =
     zero_qp_attr\<lparr>qp_state := IBV_QPS_INIT, qp_port_num := of_int ib_port, qp_pkey_index := 0,
       qp_access_flags := [IBV_ACCESS_LOCAL_WRITE, IBV_ACCESS_REMOTE_READ, IBV_ACCESS_REMOTE_WRITE]\<rparr>"

definition get_default_qp_init_state_attr_mask :: "ibv_qp_attr_mask list" where
  "get_default_qp_init_state_attr_mask = [IBV_QP_STATE, IBV_QP_PKEY_INDEX, IBV_QP_PORT, IBV_QP_ACCESS_FLAGS]"

definition get_default_qp_rtr_attr :: "connection_certificate \<Rightarrow> int \<Rightarrow> int \<Rightarrow> ibv_qp_attr" where
  "get_default_qp_rtr_attr remote ib_port sgid_idx =
     (let ah = zero_ah_attr\<lparr>ah_is_global := 0, ah_dlid := cc_lid remote, ah_sl := 0, ah_src_path_bits := 0,
            ah_port_num := of_int ib_port\<rparr>;
          ah = (if sgid_idx \<ge> 0
                then ah\<lparr>ah_is_global := 1, ah_port_num := 1, grh_dgid := cc_gid remote, grh_flow_label := 0,
                       grh_hop_limit := 1, grh_sgid_index := of_int sgid_idx, grh_traffic_class := 0\<rparr>
                else ah)
      in zero_qp_attr\<lparr>qp_state := IBV_QPS_RTR, qp_path_mtu := IBV_MTU_256, qp_dest_qp_num := cc_qp_num remote,
           qp_rq_psn := 0, qp_max_dest_rd_atomic := 1, qp_min_rnr_timer := 0x12, qp_ah_attr := ah\<rparr>)"

definition get_default_qp_rtr_attr_mask :: "ibv_qp_attr_mask list" where
  "get_default_qp_rtr_attr_mask =
     [IBV_QP_STATE, IBV_QP_AV, IBV_QP_PATH_MTU, IBV_QP_DEST_QPN, IBV_QP_RQ_PSN, IBV_QP_MAX_DEST_RD_ATOMIC, IBV_QP_MIN_RNR_TIMER]"

definition get_default_qp_rts_attr :: ibv_qp_attr where
  "get_default_qp_rts_attr =
     zero_qp_attr\<lparr>qp_state := IBV_QPS_RTS, qp_timeout := 14, qp_retry_cnt := 7, qp_rnr_retry := 7, qp_sq_psn := 0,
       qp_max_rd_atomic := 1\<rparr>"

definition get_default_qp_rts_attr_mask :: "ibv_qp_attr_mask list" where
  "get_default_qp_rts_attr_mask =
     [IBV_QP_STATE, IBV_QP_TIMEOUT, IBV_QP_RETRY_CNT, IBV_QP_RNR_RETRY, IBV_QP_SQ_PSN, IBV_QP_MAX_QP_RD_ATOMIC]"

text \<open>
  \<^verbatim>\<open>default_connect\<close>. \<open>ibv_modify_qp\<close> is what the device answers to the three transitions; the
  first one is asked for with the default port of the function, not with the device's.
\<close>

definition modify_qp :: "(ibv_qp_attr \<Rightarrow> ibv_qp_attr_mask list \<Rightarrow> int) \<Rightarrow> ibv_qp_attr \<Rightarrow> ibv_qp_attr_mask list \<Rightarrow> rdma_status \<times> int" where
  "modify_qp ibv_modify_qp attr flags =
     (let ret = ibv_modify_qp attr flags in if ret = 0 then (Status_Ok, ret) else (CannotInitQP, ret))"

definition default_connect :: "(ibv_qp_attr \<Rightarrow> ibv_qp_attr_mask list \<Rightarrow> int) \<Rightarrow> rdma_device \<Rightarrow> int \<Rightarrow> bytes option \<Rightarrow> host \<Rightarrow> host \<times> int" where
  "default_connect ibv_modify_qp dev written received h =
     (case exchange_certificate written received h of
        (_, status, h) \<Rightarrow>
          (if status \<noteq> Status_Ok then (h, -1)
           else case modify_qp ibv_modify_qp (get_default_qp_init_state_attr 1) get_default_qp_init_state_attr_mask of
             (status, err) \<Rightarrow> if status \<noteq> Status_Ok then (h, err)
           else case modify_qp ibv_modify_qp (get_default_qp_rtr_attr (remote_cert h) (dev_ib_port dev) (dev_gid_idx dev))
                  get_default_qp_rtr_attr_mask of
             (status, err) \<Rightarrow> if status \<noteq> Status_Ok then (h, err)
           else case modify_qp ibv_modify_qp get_default_qp_rts_attr get_default_qp_rts_attr_mask of
             (status, err) \<Rightarrow> if status \<noteq> Status_Ok then (h, err)
           else (h, 0)))"

subsection \<open>Posting\<close>

definition copy_in_send :: "bytes option \<Rightarrow> nat \<Rightarrow> nat \<Rightarrow> host \<Rightarrow> host option" where
  "copy_in_send msg msg_len off h =
     (case msg of
        None \<Rightarrow> Some h
      | Some d \<Rightarrow> do { d \<leftarrow> load d 0 msg_len; m \<leftarrow> memcpy (send_mem h) off d; Some (h\<lparr>send_mem := m\<rparr>) })"

definition copy_in_write :: "bytes option \<Rightarrow> nat \<Rightarrow> nat \<Rightarrow> host \<Rightarrow> host option" where
  "copy_in_write msg msg_len off h =
     (case msg of
        None \<Rightarrow> Some h
      | Some d \<Rightarrow> do { d \<leftarrow> load d 0 msg_len;
                     m \<leftarrow> memcpy (write_mem h) (unat (dmaoff h) + off) d; Some (h\<lparr>write_mem := m\<rparr>) })"

definition post_send :: "verbs \<Rightarrow> bytes option \<Rightarrow> nat \<Rightarrow> nat \<Rightarrow> bool \<Rightarrow> host \<Rightarrow> (host \<times> int) option" where
  "post_send v msg msg_len local_offset signal h =
     do { h \<leftarrow> copy_in_send msg msg_len local_offset h;
          Some (ibv_post_send v
            \<lparr>sg_addr = send_buf h + of_nat local_offset, sg_length = of_nat msg_len, sg_lkey = mr_lkey (send_mr h),
             wr_opcode = IBV_WR_SEND, wr_signaled = signal, wr_inline = False, wr_remote_addr = 0, wr_rkey = 0,
             wr_compare_add = 0, wr_swap = 0\<rparr> h) }"

definition post_recv :: "verbs \<Rightarrow> nat \<Rightarrow> nat \<Rightarrow> host \<Rightarrow> host \<times> int" where
  "post_recv v msg_len offset h =
     ibv_post_recv v \<lparr>rsg_addr = send_buf h + of_nat offset, rsg_length = of_nat msg_len, rsg_lkey = mr_lkey (send_mr h)\<rparr> h"

definition post_read :: "verbs \<Rightarrow> nat \<Rightarrow> nat \<Rightarrow> nat \<Rightarrow> bool \<Rightarrow> host \<Rightarrow> host \<times> int" where
  "post_read v msg_len local_offset remote_offset signal h =
     ibv_post_send v
       \<lparr>sg_addr = write_buf h + dmaoff h + of_nat local_offset, sg_length = of_nat msg_len, sg_lkey = mr_lkey (write_mr h),
        wr_opcode = IBV_WR_RDMA_READ, wr_signaled = signal, wr_inline = False,
        wr_remote_addr = cc_addr (remote_cert h) + of_nat remote_offset, wr_rkey = cc_rkey (remote_cert h),
        wr_compare_add = 0, wr_swap = 0\<rparr> h"

text \<open>The request of the three writes, which differ in the buffer they read and the region they write.\<close>

definition write_wr :: "host \<Rightarrow> u64 \<Rightarrow> nat \<Rightarrow> u64 \<Rightarrow> u32 \<Rightarrow> bool \<Rightarrow> ibv_send_wr" where
  "write_wr h address msg_len raddr rkey signal =
     \<lparr>sg_addr = address, sg_length = of_nat msg_len, sg_lkey = mr_lkey (write_mr h),
      wr_opcode = IBV_WR_RDMA_WRITE, wr_signaled = signal, wr_inline = (msg_len \<le> MAX_INLINE_SIZE),
      wr_remote_addr = raddr, wr_rkey = rkey, wr_compare_add = 0, wr_swap = 0\<rparr>"

definition post_write :: "verbs \<Rightarrow> bytes option \<Rightarrow> nat \<Rightarrow> nat \<Rightarrow> nat \<Rightarrow> bool \<Rightarrow> host \<Rightarrow> (host \<times> int) option" where
  "post_write v msg msg_len local_offset remote_offset signal h =
     do { h \<leftarrow> copy_in_write msg msg_len local_offset h;
          Some (ibv_post_send v
            (write_wr h (write_buf h + dmaoff h + of_nat local_offset) msg_len
               (cc_addr (remote_cert h) + of_nat remote_offset) (cc_rkey (remote_cert h)) signal) h) }"

definition post_write0 :: "verbs \<Rightarrow> bytes option \<Rightarrow> nat \<Rightarrow> nat \<Rightarrow> nat \<Rightarrow> bool \<Rightarrow> host \<Rightarrow> (host \<times> int) option" where
  "post_write0 v msg msg_len local_offset remote_offset signal h =
     do { h \<leftarrow> copy_in_write msg msg_len local_offset h;
          Some (ibv_post_send v
            (write_wr h (write_buf h + dmaoff h + of_nat local_offset) msg_len
               (cc_addr0 (remote_cert h) + of_nat remote_offset) (cc_rkey0 (remote_cert h)) signal) h) }"

definition post_write1 :: "verbs \<Rightarrow> bytes option \<Rightarrow> nat \<Rightarrow> nat \<Rightarrow> nat \<Rightarrow> bool \<Rightarrow> host \<Rightarrow> (host \<times> int) option" where
  "post_write1 v msg msg_len local_offset remote_offset signal h =
     do { h \<leftarrow> copy_in_send msg msg_len local_offset h;
          Some (ibv_post_send v
            (write_wr h (send_buf h + of_nat local_offset) msg_len
               (cc_addr (remote_cert h) + of_nat remote_offset) (cc_rkey (remote_cert h)) signal) h) }"

definition post_cas :: "verbs \<Rightarrow> u64 \<Rightarrow> u64 \<Rightarrow> nat \<Rightarrow> nat \<Rightarrow> bool \<Rightarrow> host \<Rightarrow> host \<times> int" where
  "post_cas v old_val new_val local_offset remote_offset signal h =
     ibv_post_send v
       \<lparr>sg_addr = write_buf h + dmaoff h + of_nat local_offset, sg_length = 8, sg_lkey = mr_lkey (write_mr h),
        wr_opcode = IBV_WR_ATOMIC_CMP_AND_SWP, wr_signaled = signal, wr_inline = False,
        wr_remote_addr = cc_addr (remote_cert h) + of_nat remote_offset, wr_rkey = cc_rkey (remote_cert h),
        wr_compare_add = new_val, wr_swap = old_val\<rparr> h"

text \<open>
  One turn of \<^verbatim>\<open>poll_one_completion\<close>: \<open>None\<close> while the completion queue is empty, when the
  loop goes round.
\<close>

definition poll_completion_once :: "verbs \<Rightarrow> bool \<Rightarrow> host \<Rightarrow> host \<times> int" where
  "poll_completion_once v send h = ibv_poll_cq v send h"

definition poll_one_completion :: "verbs \<Rightarrow> bool \<Rightarrow> host \<Rightarrow> (host \<times> int) option" where
  "poll_one_completion v send h = (let (h, ret) = ibv_poll_cq v send h in if ret = 0 then None else Some (h, ret))"

section \<open>Connected hosts\<close>

text \<open>
  A host whose two buffers are registered and lie apart, and a host that has the keys of
  its peer.
\<close>

definition apart :: "u64 \<Rightarrow> nat \<Rightarrow> u64 \<Rightarrow> nat \<Rightarrow> bool" where
  "apart a n b m \<longleftrightarrow> (\<forall>x. unat (x - a) < n \<longrightarrow> \<not> unat (x - b) < m)"

definition host_ok :: "host \<Rightarrow> bool" where
  "host_ok h \<longleftrightarrow>
     mr_addr (send_mr h) = send_buf h \<and> mr_length (send_mr h) = length (send_mem h) \<and>
     mr_addr (write_mr h) = write_buf h \<and> mr_length (write_mr h) = length (write_mem h) \<and>
     dmaoff h = 0 \<and> length (send_mem h) < 2 ^ 32 \<and> length (write_mem h) < 2 ^ 32 \<and>
     mr_lkey (send_mr h) \<noteq> mr_lkey (write_mr h) \<and> mr_rkey (send_mr h) \<noteq> mr_rkey (write_mr h) \<and>
     apart (write_buf h) (length (write_mem h)) (send_buf h) (length (send_mem h))"

definition knows :: "host \<Rightarrow> host \<Rightarrow> bool" where
  "knows a b \<longleftrightarrow>
     cc_addr0 (remote_cert a) = send_buf b \<and> cc_rkey0 (remote_cert a) = mr_rkey (send_mr b) \<and>
     cc_addr (remote_cert a) = write_buf b \<and> cc_rkey (remote_cert a) = mr_rkey (write_mr b)"

lemma host_ok_mem:
  assumes "host_ok h" "length w = length (write_mem h)" "length s = length (send_mem h)"
  shows "host_ok (h\<lparr>write_mem := w\<rparr>)" "host_ok (h\<lparr>send_mem := s\<rparr>)"
  using assms by (simp_all add: host_ok_def)

lemma host_ok_queue [simp]:
  "host_ok (h\<lparr>send_queue := q\<rparr>) = host_ok h" "host_ok (h\<lparr>out_cq := c\<rparr>) = host_ok h"
  "host_ok (h\<lparr>in_cq := c\<rparr>) = host_ok h" "host_ok (h\<lparr>recv_queue := r\<rparr>) = host_ok h"
  by (simp_all add: host_ok_def)

lemma knows_simps [simp]:
  "knows (a\<lparr>write_mem := w\<rparr>) b = knows a b" "knows (a\<lparr>send_mem := w\<rparr>) b = knows a b"
  "knows (a\<lparr>send_queue := q\<rparr>) b = knows a b" "knows (a\<lparr>out_cq := c\<rparr>) b = knows a b"
  "knows (a\<lparr>in_cq := c\<rparr>) b = knows a b" "knows (a\<lparr>recv_queue := r\<rparr>) b = knows a b"
  "knows a (b\<lparr>write_mem := w\<rparr>) = knows a b" "knows a (b\<lparr>send_mem := w\<rparr>) = knows a b"
  "knows a (b\<lparr>send_queue := q\<rparr>) = knows a b" "knows a (b\<lparr>out_cq := c\<rparr>) = knows a b"
  "knows a (b\<lparr>in_cq := c\<rparr>) = knows a b" "knows a (b\<lparr>recv_queue := r\<rparr>) = knows a b"
  by (simp_all add: knows_def)

lemma unat_of_nat_u64: "n < 2 ^ 32 \<Longrightarrow> unat (of_nat n :: u64) = n"
  by (simp add: unat_of_nat take_bit_nat_eq_self)

text \<open>The three writes as requests in the queue.\<close>

definition wr_ww :: "host \<Rightarrow> nat \<Rightarrow> nat \<Rightarrow> nat \<Rightarrow> bool \<Rightarrow> ibv_send_wr" where
  "wr_ww h n lo ro sig = write_wr h (write_buf h + dmaoff h + of_nat lo) n
     (cc_addr (remote_cert h) + of_nat ro) (cc_rkey (remote_cert h)) sig"

definition wr_ws :: "host \<Rightarrow> nat \<Rightarrow> nat \<Rightarrow> nat \<Rightarrow> bool \<Rightarrow> ibv_send_wr" where
  "wr_ws h n lo ro sig = write_wr h (write_buf h + dmaoff h + of_nat lo) n
     (cc_addr0 (remote_cert h) + of_nat ro) (cc_rkey0 (remote_cert h)) sig"

definition wr_sw :: "host \<Rightarrow> nat \<Rightarrow> nat \<Rightarrow> nat \<Rightarrow> bool \<Rightarrow> ibv_send_wr" where
  "wr_sw h n lo ro sig = write_wr h (send_buf h + of_nat lo) n
     (cc_addr (remote_cert h) + of_nat ro) (cc_rkey (remote_cert h)) sig"

lemma post_write_queues:
  assumes "verbs_ok v" "length (send_queue h) < MAX_QP_DEPTH"
  shows "post_write v None n lo ro sig h = Some (h\<lparr>send_queue := send_queue h @ [queued h (wr_ww h n lo ro sig)]\<rparr>, 0)"
    "post_write0 v None n lo ro sig h = Some (h\<lparr>send_queue := send_queue h @ [queued h (wr_ws h n lo ro sig)]\<rparr>, 0)"
    "post_write1 v None n lo ro sig h = Some (h\<lparr>send_queue := send_queue h @ [queued h (wr_sw h n lo ro sig)]\<rparr>, 0)"
  using assms
  by (simp_all add: post_write_def post_write0_def post_write1_def copy_in_write_def copy_in_send_def verbs_ok_def
      verbs_post_def wr_ww_def wr_ws_def wr_sw_def)

lemma wr_queue_indep [simp]:
  "wr_ww (h\<lparr>send_queue := q\<rparr>) = wr_ww h" "wr_ws (h\<lparr>send_queue := q\<rparr>) = wr_ws h" "wr_sw (h\<lparr>send_queue := q\<rparr>) = wr_sw h"
  "wr_ww (h\<lparr>out_cq := c\<rparr>) = wr_ww h" "wr_ws (h\<lparr>out_cq := c\<rparr>) = wr_ws h" "wr_sw (h\<lparr>out_cq := c\<rparr>) = wr_sw h"
  "queued (h\<lparr>send_queue := q\<rparr>) = queued h" "queued (h\<lparr>out_cq := c\<rparr>) = queued h"
  by (auto simp: fun_eq_iff wr_ww_def wr_ws_def wr_sw_def write_wr_def queued_def host_read_def)

text \<open>The bytes a queued write carries, as long as its buffer is left alone.\<close>

lemma host_read_write:
  assumes "host_ok h" "lo + n \<le> length (write_mem h)"
  shows "host_read h (write_buf h + of_nat lo) n = mread (write_mem h) lo n"
  using assms by (simp add: host_read_def host_ok_def unat_of_nat_u64)

lemma host_read_send:
  assumes "host_ok h" "lo + n \<le> length (send_mem h)" "0 < n"
  shows "host_read h (send_buf h + of_nat lo) n = mread (send_mem h) lo n"
proof -
  have lo: "unat (of_nat lo :: u64) = lo" using assms by (intro unat_of_nat_u64) (simp add: host_ok_def)
  let ?x = "send_buf h + of_nat lo"
  have "unat (?x - send_buf h) < length (send_mem h)" using assms(2,3) lo by simp
  then have "\<not> unat (?x - write_buf h) < length (write_mem h)"
    using assms(1) by (auto simp: host_ok_def apart_def)
  with lo assms(3) show ?thesis by (simp add: host_read_def)
qed

lemma payload_write:
  assumes "host_ok h" "lo + n \<le> length (write_mem h)"
    "wr_opcode wr = IBV_WR_RDMA_WRITE" "sg_addr wr = write_buf h + of_nat lo" "sg_length wr = of_nat n"
    "sg_lkey wr = mr_lkey (write_mr h)"
  shows "payload h (queued h wr) = Some (mread (write_mem h) lo n)"
proof -
  have n: "lo < 2 ^ 32" "n < 2 ^ 32" using assms(1,2) by (auto simp: host_ok_def)
  show ?thesis
    using assms host_read_write [OF assms(1,2)]
    by (simp add: payload_def queued_def local_read_def in_mr_def host_ok_def unat_of_nat_u64 [OF n(1)] unat_of_nat_len [OF n(2)])
qed

lemma remote_write_write:
  assumes "host_ok b" "ro + length d \<le> length (write_mem b)"
  shows "remote_write b (mr_rkey (write_mr b)) (write_buf b + of_nat ro) d
    = Some (b\<lparr>write_mem := mwrite (write_mem b) ro d\<rparr>)"
  using assms unat_of_nat_u64 [of ro] by (simp add: remote_write_def in_mr_def host_ok_def)

lemma remote_write_send:
  assumes "host_ok b" "ro + length d \<le> length (send_mem b)"
  shows "remote_write b (mr_rkey (send_mr b)) (send_buf b + of_nat ro) d
    = Some (b\<lparr>send_mem := mwrite (send_mem b) ro d\<rparr>)"
  using assms unat_of_nat_u64 [of ro] by (simp add: remote_write_def in_mr_def host_ok_def)

text \<open>What the adapter does with the three writes.\<close>

lemma write_wr_simps [simp]:
  "wr_opcode (write_wr h a n r k sig) = IBV_WR_RDMA_WRITE" "sg_addr (write_wr h a n r k sig) = a"
  "sg_length (write_wr h a n r k sig) = of_nat n" "sg_lkey (write_wr h a n r k sig) = mr_lkey (write_mr h)"
  "wr_signaled (write_wr h a n r k sig) = sig" "wr_inline (write_wr h a n r k sig) \<longleftrightarrow> n \<le> MAX_INLINE_SIZE"
  "wr_remote_addr (write_wr h a n r k sig) = r" "wr_rkey (write_wr h a n r k sig) = k"
  by (simp_all add: write_wr_def)

lemma fst_queued [simp]: "fst (queued h wr) = wr"
  by (simp add: queued_def)

lemma execute_write:
  assumes v: "verbs_ok v" and q: "send_queue a = queued a (write_wr a adr n radr rk sig) # q"
    and p: "payload a (queued a (write_wr a adr n radr rk sig)) = Some d" and r: "remote_write b rk radr d = Some b'"
  shows "execute v a b = (a\<lparr>send_queue := q, out_cq := out_cq a @ (if sig then [True] else [])\<rparr>, b')"
proof -
  obtain inl where inl: "queued a (write_wr a adr n radr rk sig) = (write_wr a adr n radr rk sig, inl)"
    by (simp add: queued_def)
  have "execute v a b = (complete (write_wr a adr n radr rk sig) True a, b')"
    using v q p r inl by (auto simp: verbs_ok_def verbs_write_def)
  with q show ?thesis by (simp add: complete_def)
qed

lemma execute_ww:
  assumes "verbs_ok v" "host_ok a" "host_ok b" "knows a b"
    "send_queue a = queued a (wr_ww a n lo ro sig) # q" "lo + n \<le> length (write_mem a)" "ro + n \<le> length (write_mem b)"
  shows "execute v a b = (a\<lparr>send_queue := q, out_cq := out_cq a @ (if sig then [True] else [])\<rparr>,
    b\<lparr>write_mem := mwrite (write_mem b) ro (mread (write_mem a) lo n)\<rparr>)"
proof (rule execute_write [OF assms(1) assms(5) [unfolded wr_ww_def]])
  have [simp]: "dmaoff a = 0" using assms(2) by (simp add: host_ok_def)
  show "payload a (queued a (write_wr a (write_buf a + dmaoff a + of_nat lo) n (cc_addr (remote_cert a) + of_nat ro)
      (cc_rkey (remote_cert a)) sig)) = Some (mread (write_mem a) lo n)"
    by (rule payload_write [OF assms(2,6)]) simp_all
  show "remote_write b (cc_rkey (remote_cert a)) (cc_addr (remote_cert a) + of_nat ro) (mread (write_mem a) lo n) =
      Some (b\<lparr>write_mem := mwrite (write_mem b) ro (mread (write_mem a) lo n)\<rparr>)"
    using remote_write_write [OF assms(3), of ro "mread (write_mem a) lo n"] assms(4,6,7) by (simp add: knows_def)
qed

lemma execute_ws:
  assumes "verbs_ok v" "host_ok a" "host_ok b" "knows a b"
    "send_queue a = queued a (wr_ws a n lo ro sig) # q" "lo + n \<le> length (write_mem a)" "ro + n \<le> length (send_mem b)"
  shows "execute v a b = (a\<lparr>send_queue := q, out_cq := out_cq a @ (if sig then [True] else [])\<rparr>,
    b\<lparr>send_mem := mwrite (send_mem b) ro (mread (write_mem a) lo n)\<rparr>)"
proof (rule execute_write [OF assms(1) assms(5) [unfolded wr_ws_def]])
  have [simp]: "dmaoff a = 0" using assms(2) by (simp add: host_ok_def)
  show "payload a (queued a (write_wr a (write_buf a + dmaoff a + of_nat lo) n (cc_addr0 (remote_cert a) + of_nat ro)
      (cc_rkey0 (remote_cert a)) sig)) = Some (mread (write_mem a) lo n)"
    by (rule payload_write [OF assms(2,6)]) simp_all
  show "remote_write b (cc_rkey0 (remote_cert a)) (cc_addr0 (remote_cert a) + of_nat ro) (mread (write_mem a) lo n) =
      Some (b\<lparr>send_mem := mwrite (send_mem b) ro (mread (write_mem a) lo n)\<rparr>)"
    using remote_write_send [OF assms(3), of ro "mread (write_mem a) lo n"] assms(4,6,7) by (simp add: knows_def)
qed

lemma execute_sw:
  assumes "verbs_ok v" "host_ok a" "host_ok b" "knows a b"
    "send_queue a = queued a (wr_sw a n lo ro sig) # q" "lo + n \<le> length (send_mem a)" "ro + n \<le> length (write_mem b)"
    "0 < n" "n \<le> MAX_INLINE_SIZE"
  shows "execute v a b = (a\<lparr>send_queue := q, out_cq := out_cq a @ (if sig then [True] else [])\<rparr>,
    b\<lparr>write_mem := mwrite (write_mem b) ro (mread (send_mem a) lo n)\<rparr>)"
proof (rule execute_write [OF assms(1) assms(5) [unfolded wr_sw_def]])
  have "unat (of_nat n :: u32) = n" using assms(9) by (intro unat_of_nat_len) (simp add: MAX_INLINE_SIZE_def)
  with host_read_send [OF assms(2,6,8)] assms(9)
  show "payload a (queued a (write_wr a (send_buf a + of_nat lo) n (cc_addr (remote_cert a) + of_nat ro)
      (cc_rkey (remote_cert a)) sig)) = Some (mread (send_mem a) lo n)"
    by (simp add: payload_def queued_def)
  show "remote_write b (cc_rkey (remote_cert a)) (cc_addr (remote_cert a) + of_nat ro) (mread (send_mem a) lo n) =
      Some (b\<lparr>write_mem := mwrite (write_mem b) ro (mread (send_mem a) lo n)\<rparr>)"
    using remote_write_write [OF assms(3), of ro "mread (send_mem a) lo n"] assms(4,6,7) by (simp add: knows_def)
qed

lemma poll_simps:
  assumes "verbs_ok v"
  shows "poll_one_completion v True h = (case out_cq h of [] \<Rightarrow> None | c # cs \<Rightarrow> Some (h\<lparr>out_cq := cs\<rparr>, 1))"
  using assms by (simp add: poll_one_completion_def verbs_ok_def verbs_poll_def split: list.splits)

section \<open>A reliable connection\<close>

text \<open>An adapter that does what \<open>verbs_ok\<close> asks for.\<close>

definition rc_execute :: "host \<Rightarrow> host \<Rightarrow> host \<times> host" where
  "rc_execute loc rem =
     (case send_queue loc of
        [] \<Rightarrow> (loc, rem)
      | (wr, inl) # q \<Rightarrow>
          if wr_opcode wr = IBV_WR_RDMA_WRITE
          then (case payload loc (wr, inl) of
                  None \<Rightarrow> ((complete wr False loc)\<lparr>send_queue := []\<rparr>, rem)
                | Some d \<Rightarrow>
                    (case remote_write rem (wr_rkey wr) (wr_remote_addr wr) d of
                       None \<Rightarrow> ((complete wr False loc)\<lparr>send_queue := []\<rparr>, rem)
                     | Some rem' \<Rightarrow> (complete wr True loc, rem')))
          else (loc, rem))"

definition rc_verbs :: verbs where
  "rc_verbs =
     \<lparr>ibv_post_send = (\<lambda>wr h. if length (send_queue h) < MAX_QP_DEPTH
        then (h\<lparr>send_queue := send_queue h @ [queued h wr]\<rparr>, 0) else (h, 12)),
      ibv_post_recv = (\<lambda>wr h. (h\<lparr>recv_queue := recv_queue h @ [wr]\<rparr>, 0)),
      ibv_poll_cq = (\<lambda>send h. if send
        then (case out_cq h of [] \<Rightarrow> (h, 0) | c # cs \<Rightarrow> (h\<lparr>out_cq := cs\<rparr>, 1))
        else (case in_cq h of [] \<Rightarrow> (h, 0) | c # cs \<Rightarrow> (h\<lparr>in_cq := cs\<rparr>, 1))),
      execute = rc_execute\<rparr>"

lemma rc_verbs_ok: "verbs_ok rc_verbs"
  by (auto simp: verbs_ok_def verbs_post_def verbs_poll_def verbs_write_def verbs_protect_def rc_verbs_def rc_execute_def)

section \<open>Properties\<close>

lemma hton_bytes [simp]: "length (hton n w) = n"
  by (simp add: hton_def)

lemma ntoh_hton:
  fixes w :: "'a::len word"
  shows "LENGTH('a) = 8 * n \<Longrightarrow> ntoh (hton n w) = w"
proof -
  assume n: "LENGTH('a) = 8 * n"
  have "unat w < 2 ^ LENGTH('a)" by (rule unsigned_less)
  then have "unat w < 256 ^ n" by (simp add: n power_mult)
  then show ?thesis by (simp add: ntoh_def hton_def le_val_le_bytes)
qed

lemma unwire_wire:
  assumes "length (cc_gid c) = 16"
  shows "length (wire_certificate c) = certificate_size" "unwire_certificate (wire_certificate c) = c"
proof -
  show "length (wire_certificate c) = certificate_size"
    using assms by (simp add: wire_certificate_def certificate_size_def)
  show "unwire_certificate (wire_certificate c) = c"
    using assms
    by (simp add: unwire_certificate_def wire_certificate_def mread_append_left mread_append_right ntoh_hton)
qed

text \<open>
  The set-up of one side, as the constructors of the clients and \<^verbatim>\<open>Listen\<close> do it: open a
  context and register the buffer.
\<close>

definition set_up :: "rdma_device \<Rightarrow> bytes \<Rightarrow> ibv_mr option \<Rightarrow> u64 \<Rightarrow> bytes \<Rightarrow> rdma_status + host" where
  "set_up dev smem reg ptr wmem =
     (case open_context dev smem of Inl st \<Rightarrow> Inl st | Inr h \<Rightarrow> Inr (fst (register_write_buf reg ptr wmem h)))"

definition region_ok :: "ibv_mr \<Rightarrow> u64 \<Rightarrow> bytes \<Rightarrow> bool" where
  "region_ok mr ptr mem \<longleftrightarrow> mr_addr mr = ptr \<and> mr_length mr = length mem \<and> length mem < 2 ^ 32"

definition device_ok :: "rdma_device \<Rightarrow> ibv_mr \<Rightarrow> bytes \<Rightarrow> ibv_mr \<Rightarrow> u64 \<Rightarrow> bytes \<Rightarrow> bool" where
  "device_ok dev smr smem wmr ptr wmem \<longleftrightarrow>
     dev_alloc_pd dev \<and> dev_in_cq dev \<and> dev_out_cq dev \<and> dev_reg_send dev = Some smr \<and>
     dev_create_qp dev \<noteq> None \<and> dev_query_port dev \<noteq> None \<and>
     (case dev_query_gid dev of None \<Rightarrow> dev_gid_idx dev < 0 | Some g \<Rightarrow> length g = 16) \<and>
     region_ok smr (dev_send_buf dev) smem \<and> region_ok wmr ptr wmem \<and>
     mr_lkey smr \<noteq> mr_lkey wmr \<and> mr_rkey smr \<noteq> mr_rkey wmr \<and>
     apart ptr (length wmem) (dev_send_buf dev) (length smem)"

lemma set_up_ok:
  assumes "device_ok dev smr smem wmr ptr wmem"
  shows "\<exists>h. set_up dev smem (Some wmr) ptr wmem = Inr h \<and> host_ok h \<and> length (cc_gid (local_cert h)) = 16 \<and>
    cc_addr0 (local_cert h) = send_buf h \<and> cc_rkey0 (local_cert h) = mr_rkey (send_mr h) \<and>
    cc_addr (local_cert h) = write_buf h \<and> cc_rkey (local_cert h) = mr_rkey (write_mr h) \<and>
    write_mem h = wmem \<and> send_mem h = smem \<and> send_queue h = [] \<and> out_cq h = []"
  using assms
  by (auto simp: device_ok_def set_up_def open_context_def register_write_buf_def host_ok_def region_ok_def
      make_rdma_context_def zero_cert_def Let_def split: option.splits)

lemma default_connect_ok:
  assumes "\<forall>attr flags. modq attr flags = 0" "length (cc_gid c) = 16"
  shows "default_connect modq dev (int certificate_size) (Some (wire_certificate c)) h = (h\<lparr>remote_cert := c\<rparr>, 0)"
  using assms by (simp add: default_connect_def exchange_certificate_def modify_qp_def unwire_wire)

text \<open>What an opened and registered host offers is what its certificate says.\<close>

definition certified :: "host \<Rightarrow> bool" where
  "certified h \<longleftrightarrow> length (cc_gid (local_cert h)) = 16 \<and>
     cc_addr0 (local_cert h) = send_buf h \<and> cc_rkey0 (local_cert h) = mr_rkey (send_mr h) \<and>
     cc_addr (local_cert h) = write_buf h \<and> cc_rkey (local_cert h) = mr_rkey (write_mr h)"

lemma certified_knows:
  "certified b \<Longrightarrow> knows (a\<lparr>remote_cert := local_cert b\<rparr>) (b\<lparr>remote_cert := c\<rparr>)"
  by (simp add: certified_def knows_def)

text \<open>
  C33: Two sides that are set up on working devices and exchange certificates end up
  connected: the exchange succeeds on both, each then addresses the buffers of the other
  under their keys, and each queue pair is told the number, port and address of the other.
\<close>

theorem peers_get_connected:
  assumes "device_ok dev1 smr1 smem1 wmr1 ptr1 wmem1" "device_ok dev2 smr2 smem2 wmr2 ptr2 wmem2"
    "\<forall>attr flags. modq attr flags = 0"
  shows "\<exists>a b a' b'. set_up dev1 smem1 (Some wmr1) ptr1 wmem1 = Inr a \<and> set_up dev2 smem2 (Some wmr2) ptr2 wmem2 = Inr b \<and>
    default_connect modq dev1 (int certificate_size) (Some (wire_certificate (local_cert b))) a = (a', 0) \<and>
    default_connect modq dev2 (int certificate_size) (Some (wire_certificate (local_cert a))) b = (b', 0) \<and>
    host_ok a' \<and> host_ok b' \<and> knows a' b' \<and> knows b' a' \<and>
    qp_dest_qp_num (get_default_qp_rtr_attr (remote_cert a') (dev_ib_port dev1) (dev_gid_idx dev1)) = cc_qp_num (local_cert b') \<and>
    ah_dlid (qp_ah_attr (get_default_qp_rtr_attr (remote_cert a') (dev_ib_port dev1) (dev_gid_idx dev1))) = cc_lid (local_cert b') \<and>
    (dev_gid_idx dev1 < 0 \<or>
     grh_dgid (qp_ah_attr (get_default_qp_rtr_attr (remote_cert a') (dev_ib_port dev1) (dev_gid_idx dev1))) = cc_gid (local_cert b'))"
proof -
  obtain a where a: "set_up dev1 smem1 (Some wmr1) ptr1 wmem1 = Inr a" "host_ok a" "certified a"
    using set_up_ok [OF assms(1)] by (auto simp: certified_def)
  obtain b where b: "set_up dev2 smem2 (Some wmr2) ptr2 wmem2 = Inr b" "host_ok b" "certified b"
    using set_up_ok [OF assms(2)] by (auto simp: certified_def)
  have "length (cc_gid (local_cert a)) = 16" "length (cc_gid (local_cert b)) = 16" using a(3) b(3) by (simp_all add: certified_def)
  with a b assms(3) show ?thesis
    by (intro exI [of _ a] exI [of _ b] exI [of _ "a\<lparr>remote_cert := local_cert b\<rparr>"] exI [of _ "b\<lparr>remote_cert := local_cert a\<rparr>"])
      (simp add: default_connect_ok certified_knows host_ok_def get_default_qp_rtr_attr_def Let_def)
qed

text \<open>Two devices to connect.\<close>

definition sample_mr :: "u64 \<Rightarrow> bytes \<Rightarrow> u32 \<Rightarrow> ibv_mr" where
  "sample_mr a m key = \<lparr>mr_addr = a, mr_length = length m, mr_lkey = key, mr_rkey = key + 100\<rparr>"

definition sample_device :: rdma_device where
  "sample_device =
     \<lparr>dev_alloc_pd = True, dev_in_cq = True, dev_out_cq = True, dev_send_buf = 0x10000,
      dev_reg_send = Some (sample_mr 0x10000 (replicate 16384 0) 1), dev_create_qp = Some 7, dev_ib_port = 1, dev_gid_idx = -1,
      dev_query_gid = None, dev_query_port = Some 3\<rparr>"

lemma apart_ordered: "unat a + n \<le> unat b \<Longrightarrow> unat b + m \<le> 2 ^ 64 \<Longrightarrow> apart a n b m"
proof (unfold apart_def, intro allI impI notI)
  fix x :: u64
  assume ab: "unat a + n \<le> unat b" "unat b + m \<le> 2 ^ 64" and x: "unat (x - a) < n" "unat (x - b) < m"
  have "unat ((x - a) + a) = unat (x - a) + unat a"
    using ab x by (intro unat_add_lem [THEN iffD1]) simp
  moreover have "unat ((x - b) + b) = unat (x - b) + unat b"
    using ab x by (intro unat_add_lem [THEN iffD1]) simp
  ultimately show False using ab(1) x by simp
qed

lemma apart_sym: "apart a n b m \<Longrightarrow> apart b m a n"
  by (auto simp: apart_def)

lemma sample_device_ok:
  "length wmem < 2 ^ 32 \<Longrightarrow>
    device_ok sample_device (sample_mr 0x10000 (replicate 16384 0) 1) (replicate 16384 0) (sample_mr 0x100000 wmem 2) 0x100000 wmem"
  by (simp add: device_ok_def sample_device_def region_ok_def sample_mr_def apart_sym [OF apart_ordered])

theorem peers_get_connected_witness:
  "\<exists>a b a' b'. set_up sample_device (replicate 16384 0) (Some (sample_mr 0x100000 (replicate 8200 0) 2)) 0x100000 (replicate 8200 0) = Inr a \<and>
    set_up sample_device (replicate 16384 0) (Some (sample_mr 0x100000 (replicate 8200 1) 2)) 0x100000 (replicate 8200 1) = Inr b \<and>
    default_connect (\<lambda>_ _. 0) sample_device (int certificate_size) (Some (wire_certificate (local_cert b))) a = (a', 0) \<and>
    default_connect (\<lambda>_ _. 0) sample_device (int certificate_size) (Some (wire_certificate (local_cert a))) b = (b', 0) \<and>
    host_ok a' \<and> host_ok b' \<and> knows a' b' \<and> knows b' a'"
  using peers_get_connected [OF sample_device_ok [of "replicate 8200 0"] sample_device_ok [of "replicate 8200 1"], of "\<lambda>_ _. 0"]
  by simp blast

text \<open>
  C34: A reply of more than \<^verbatim>\<open>MAX_INLINE_SIZE\<close> bytes that is written from the send buffer with
  \<^verbatim>\<open>post_write1\<close> never arrives: the request carries the key of the other region, the adapter
  refuses it, and stops the queue with the header write behind it.
\<close>

theorem post_write1_large_refused:
  assumes "verbs_ok v" "host_ok a" "send_queue a = []" "MAX_INLINE_SIZE < n" "lo + n \<le> length (send_mem a)"
  shows "\<exists>h. post_write1 v None n lo ro False a = Some (h, 0) \<and>
    execute v h b = (h\<lparr>send_queue := [], out_cq := out_cq a @ [False]\<rparr>, b)"
proof -
  let ?h = "a\<lparr>send_queue := [queued a (wr_sw a n lo ro False)]\<rparr>"
  have post: "post_write1 v None n lo ro False a = Some (?h, 0)"
    using post_write_queues(3) [OF assms(1)] assms(3) by (simp add: MAX_QP_DEPTH_def)
  have n: "lo < 2 ^ 32" "n < 2 ^ 32" using assms(2,5) by (auto simp: host_ok_def)
  let ?x = "send_buf a + of_nat lo"
  have "unat (?x - send_buf a) < length (send_mem a)" using assms(4,5) unat_of_nat_u64 [OF n(1)] by simp
  then have "\<not> unat (?x - write_buf a) < length (write_mem a)" using assms(2) by (auto simp: host_ok_def apart_def)
  then have "local_read ?h (mr_lkey (write_mr a)) ?x n = None"
    using assms(2,4) by (auto simp: local_read_def in_mr_def host_ok_def)
  then have "payload ?h (wr_sw a n lo ro False, None) = None"
    by (simp add: payload_def wr_sw_def unat_of_nat_len [OF n(2)])
  moreover have "queued a (wr_sw a n lo ro False) = (wr_sw a n lo ro False, None)"
    using assms(4) by (simp add: queued_def wr_sw_def)
  ultimately have "execute v ?h b = ((complete (wr_sw a n lo ro False) False ?h)\<lparr>send_queue := []\<rparr>, b)"
    using assms(1) by (simp add: verbs_ok_def verbs_protect_def wr_sw_def)
  with post show ?thesis by (intro exI [of _ ?h]) (simp add: complete_def)
qed

lemma sample_host:
  "length wmem < 2 ^ 32 \<Longrightarrow> \<exists>h. host_ok h \<and> send_mem h = replicate 16384 0 \<and> write_mem h = wmem \<and> send_queue h = [] \<and> out_cq h = []"
  using set_up_ok [OF sample_device_ok [of wmem]] by blast

lemma sample_peers:
  assumes "length m1 < 2 ^ 32" "length m2 < 2 ^ 32"
  shows "\<exists>a b. host_ok a \<and> host_ok b \<and> knows a b \<and> knows b a \<and> write_mem a = m1 \<and> write_mem b = m2 \<and>
    send_mem a = replicate 16384 0 \<and> send_mem b = replicate 16384 0 \<and>
    send_queue a = [] \<and> out_cq a = [] \<and> send_queue b = [] \<and> out_cq b = []"
proof -
  obtain a where a: "host_ok a" "cc_addr0 (local_cert a) = send_buf a" "cc_rkey0 (local_cert a) = mr_rkey (send_mr a)"
    "cc_addr (local_cert a) = write_buf a" "cc_rkey (local_cert a) = mr_rkey (write_mr a)"
    "write_mem a = m1" "send_mem a = replicate 16384 0" "send_queue a = []" "out_cq a = []"
    using set_up_ok [OF sample_device_ok [OF assms(1)]] by blast
  obtain b where b: "host_ok b" "cc_addr0 (local_cert b) = send_buf b" "cc_rkey0 (local_cert b) = mr_rkey (send_mr b)"
    "cc_addr (local_cert b) = write_buf b" "cc_rkey (local_cert b) = mr_rkey (write_mr b)"
    "write_mem b = m2" "send_mem b = replicate 16384 0" "send_queue b = []" "out_cq b = []"
    using set_up_ok [OF sample_device_ok [OF assms(2)]] by blast
  show ?thesis
    using a b
    by (intro exI [of _ "a\<lparr>remote_cert := local_cert b\<rparr>"] exI [of _ "b\<lparr>remote_cert := local_cert a\<rparr>"])
      (simp add: knows_def host_ok_def)
qed

theorem post_write1_large_refused_witness:
  "\<exists>a h. host_ok a \<and> post_write1 rc_verbs None 200 8 8 False a = Some (h, 0) \<and>
    execute rc_verbs h a = (h\<lparr>send_queue := [], out_cq := [False]\<rparr>, a)"
proof -
  obtain a where a: "host_ok a" "send_mem a = replicate 16384 0" "send_queue a = []" "out_cq a = []"
    using sample_host [of "replicate 8200 0"] by auto
  show ?thesis
    using post_write1_large_refused [OF rc_verbs_ok a(1,3), of 200 8 8 a] a by (auto simp: MAX_INLINE_SIZE_def)
qed

end
