(* ===== verification/Request.thy ===== *)
theory Request
  imports Db_Type Rdma
begin

text \<open>
  Requests and replies as they lie in the shared buffers (\<^verbatim>\<open>include/request.h\<close>), the
  constants of \<^verbatim>\<open>frontend/core.h\<close>, and what a client asks for with its meaning on a map.
  A buffer starts with \<^verbatim>\<open>RING_HEADER\<close> bytes, whose first four hold the word the two sides
  hand back and forth; the request, and later the reply in its place, follow.
\<close>

section \<open>Definitions\<close>

datatype Operation = PUT | GET | UPDATE | DELETE | CLOSE | SYNC | NOP

datatype RequestStatus = OK | NOTFOUND | ERROR

definition MAX_REQUEST :: nat where
  "MAX_REQUEST = 8192"

definition CLIENT_DONE :: u32 where
  "CLIENT_DONE = 0x7f7f7f7f"

definition CLERK_DONE :: u32 where
  "CLERK_DONE = 0xf7f7f7f7"

definition RING_HEADER :: nat where
  "RING_HEADER = 8"

definition MAX_ASYNC_SIZE :: nat where
  "MAX_ASYNC_SIZE = 128 * 1024"

definition BATCH_SIZE :: nat where
  "BATCH_SIZE = 16 * 1024"

subsection \<open>The structures\<close>

definition op_code :: "Operation \<Rightarrow> byte" where
  "op_code opr = (case opr of PUT \<Rightarrow> 0 | GET \<Rightarrow> 1 | UPDATE \<Rightarrow> 2 | DELETE \<Rightarrow> 3 | CLOSE \<Rightarrow> 4 | SYNC \<Rightarrow> 5 | NOP \<Rightarrow> 6)"

definition op_of :: "byte \<Rightarrow> Operation option" where
  "op_of b = (if b = 0 then Some PUT else if b = 1 then Some GET else if b = 2 then Some UPDATE
     else if b = 3 then Some DELETE else if b = 4 then Some CLOSE else if b = 5 then Some SYNC
     else if b = 6 then Some NOP else None)"

definition status_code :: "RequestStatus \<Rightarrow> u32" where
  "status_code st = (case st of OK \<Rightarrow> 0 | NOTFOUND \<Rightarrow> 1 | ERROR \<Rightarrow> 2)"

definition sizeof_Request :: nat where
  "sizeof_Request = 8"

definition sizeof_RequestReply :: nat where
  "sizeof_RequestReply = 8"

text \<open>
  The fields of a \<^verbatim>\<open>Request\<close> at an offset: the operation in the low eight bits of the first
  word, the key size in the other 24, the value size in the second word.
\<close>

definition set_op :: "nat \<Rightarrow> Operation \<Rightarrow> bytes \<Rightarrow> bytes" where
  "set_op b opr m = mwrite m b [op_code opr]"

definition set_key_size :: "nat \<Rightarrow> nat \<Rightarrow> bytes \<Rightarrow> bytes" where
  "set_key_size b n m = mwrite m (b + 1) (le_bytes 3 n)"

definition set_val_size :: "nat \<Rightarrow> u32 \<Rightarrow> bytes \<Rightarrow> bytes" where
  "set_val_size b n m = mwrite m (b + 4) (le32 n)"

definition get_op :: "nat \<Rightarrow> bytes \<Rightarrow> Operation option" where
  "get_op b m = op_of (hd (mread m b 1))"

definition get_key_size :: "nat \<Rightarrow> bytes \<Rightarrow> nat" where
  "get_key_size b m = le_val (mread m (b + 1) 3)"

definition get_val_size :: "nat \<Rightarrow> bytes \<Rightarrow> u32" where
  "get_val_size b m = un_le32 (mread m (b + 4) 4)"

definition Length :: "nat \<Rightarrow> bytes \<Rightarrow> u32" where
  "Length b m = of_nat sizeof_Request + of_nat (get_key_size b m) + get_val_size b m"

definition set_status :: "nat \<Rightarrow> RequestStatus \<Rightarrow> bytes \<Rightarrow> bytes" where
  "set_status b st m = mwrite m b (le32 (status_code st))"

definition get_status :: "nat \<Rightarrow> bytes \<Rightarrow> u32" where
  "get_status b m = un_le32 (mread m b 4)"

subsection \<open>The header word\<close>

definition header :: "bytes \<Rightarrow> u32" where
  "header m = un_le32 (mread m 0 4)"

definition set_header :: "u32 \<Rightarrow> bytes \<Rightarrow> bytes" where
  "set_header w m = mwrite m 0 (le32 w)"

section \<open>What a client asks for\<close>

datatype call =
    Call_put bytes bytes
  | Call_update bytes bytes
  | Call_get bytes
  | Call_delete bytes
  | Call_sync

datatype answer =
    Ans_done
  | Ans_got "bytes option"
  | Ans_deleted bool

fun spec_call :: "call \<Rightarrow> (bytes \<rightharpoonup> bytes) \<Rightarrow> (bytes \<rightharpoonup> bytes) \<times> answer" where
  "spec_call (Call_put k v) m = (m(k \<mapsto> v), Ans_done)"
| "spec_call (Call_update k v) m = (m(k \<mapsto> v), Ans_done)"
| "spec_call (Call_get k) m = (m, Ans_got (m k))"
| "spec_call (Call_delete k) m = (m(k := None), Ans_deleted (m k \<noteq> None))"
| "spec_call Call_sync m = (m, Ans_done)"

text \<open>The calls of several clients in the order they take effect.\<close>

fun spec_run :: "(nat \<times> call) list \<Rightarrow> (bytes \<rightharpoonup> bytes) \<Rightarrow> (bytes \<rightharpoonup> bytes) \<times> (nat \<times> call \<times> answer) list" where
  "spec_run [] m = (m, [])"
| "spec_run ((i, c) # cs) m =
     (let (m, a) = spec_call c m; (m, as) = spec_run cs m in (m, (i, c, a) # as))"

definition answers_of :: "nat \<Rightarrow> (nat \<times> call \<times> answer) list \<Rightarrow> (call \<times> answer) list" where
  "answers_of i as = map snd (filter (\<lambda>a. fst a = i) as)"

fun call_size :: "call \<Rightarrow> nat" where
  "call_size (Call_put k v) = length k + length v"
| "call_size (Call_update k v) = length k + length v"
| "call_size (Call_get k) = length k"
| "call_size (Call_delete k) = length k"
| "call_size Call_sync = 0"

fun call_strings :: "call \<Rightarrow> bool" where
  "call_strings (Call_put k v) \<longleftrightarrow> 0 \<notin> set k \<and> 0 \<notin> set v"
| "call_strings (Call_update k v) \<longleftrightarrow> 0 \<notin> set k \<and> 0 \<notin> set v"
| "call_strings (Call_get k) \<longleftrightarrow> 0 \<notin> set k"
| "call_strings (Call_delete k) \<longleftrightarrow> 0 \<notin> set k"
| "call_strings Call_sync \<longleftrightarrow> True"

text \<open>The arguments are C strings, and the request fits \<^verbatim>\<open>MAX_REQUEST\<close> bytes.\<close>

definition call_fits :: "call \<Rightarrow> bool" where
  "call_fits c \<longleftrightarrow> call_strings c \<and> sizeof_Request + call_size c \<le> MAX_REQUEST"

lemma spec_run_snoc:
  "spec_run (cs @ [(i, c)]) m =
     (let (m, as) = spec_run cs m; (m, a) = spec_call c m in (m, as @ [(i, c, a)]))"
  by (induction cs m rule: spec_run.induct) (auto simp: Let_def split: prod.splits)

lemma answers_of_snoc [simp]:
  "answers_of i (as @ [(j, c, a)]) = answers_of i as @ (if j = i then [(c, a)] else [])"
  by (simp add: answers_of_def)

lemma answers_of_Nil [simp]: "answers_of i [] = []"
  by (simp add: answers_of_def)

section \<open>Reading back what was written\<close>

lemma op_of_op_code [simp]: "op_of (op_code opr) = Some opr"
  by (cases opr) (simp_all add: op_code_def op_of_def)

lemma header_set_header [simp]: "4 \<le> length m \<Longrightarrow> header (set_header w m) = w"
  by (simp add: header_def set_header_def mread_mwrite_same)

lemma length_set_header [simp]: "4 \<le> length m \<Longrightarrow> length (set_header w m) = length m"
  by (simp add: set_header_def)

lemma done_distinct [simp]: "CLIENT_DONE \<noteq> CLERK_DONE" "CLERK_DONE \<noteq> CLIENT_DONE"
  by (simp_all add: CLIENT_DONE_def CLERK_DONE_def)

text \<open>
  A request that has been laid out: the image of its fields and its key and value in the
  buffer, from \<^verbatim>\<open>RING_HEADER\<close> on.
\<close>

definition request_image :: "Operation \<Rightarrow> bytes \<Rightarrow> bytes \<Rightarrow> bytes" where
  "request_image opr key val =
     [op_code opr] @ le_bytes 3 (length key) @ le32 (of_nat (length val)) @ key @ val"

lemma length_request_image [simp]: "length (request_image opr key val) = sizeof_Request + length key + length val"
  by (simp add: request_image_def sizeof_Request_def)

lemma request_fields:
  assumes m: "mread m b (sizeof_Request + length key + length val) = request_image opr key val"
    and k: "length key < 2 ^ 24" and v: "length val < 2 ^ 32"
  shows "get_op b m = Some opr" "get_key_size b m = length key" "get_val_size b m = of_nat (length val)"
    "mread m (b + sizeof_Request) (length key) = key"
    "mread m (b + sizeof_Request + length key) (length val) = val"
proof -
  let ?n = "sizeof_Request + length key + length val"
  have sub: "mread m (b + c) d = mread (request_image opr key val) c d" if "c + d \<le> ?n" for c d
    using mread_mread [OF that, of m b] m by simp
  show "get_op b m = Some opr"
    using sub [of 0 1] by (simp add: get_op_def request_image_def mread_def sizeof_Request_def)
  have "mread m (b + 1) 3 = le_bytes 3 (length key)"
    using sub [of 1 3] by (simp add: request_image_def mread_def sizeof_Request_def)
  then show "get_key_size b m = length key" using k by (simp add: get_key_size_def le_val_le_bytes)
  have "mread m (b + 4) 4 = le32 (of_nat (length val))"
    using sub [of 4 4] by (simp add: request_image_def mread_def sizeof_Request_def)
  then show "get_val_size b m = of_nat (length val)" by (simp add: get_val_size_def)
  show "mread m (b + sizeof_Request) (length key) = key"
    using sub [of sizeof_Request "length key"] by (simp add: request_image_def mread_def sizeof_Request_def)
  show "mread m (b + sizeof_Request + length key) (length val) = val"
    using sub [of "sizeof_Request + length key" "length val"]
      mread_append_right [of "[op_code opr] @ le_bytes 3 (length key) @ le32 (of_nat (length val)) @ key"
        "sizeof_Request + length key" val "length val"]
    by (simp add: request_image_def sizeof_Request_def add.assoc)
qed

definition reply_image :: "RequestStatus \<Rightarrow> bytes \<Rightarrow> bytes" where
  "reply_image st val = le32 (status_code st) @ le32 (of_nat (length val)) @ val"

lemma length_reply_image [simp]: "length (reply_image st val) = sizeof_RequestReply + length val"
  by (simp add: reply_image_def sizeof_RequestReply_def)

lemma reply_fields:
  assumes m: "mread m b (sizeof_RequestReply + length val) = reply_image st val"
  shows "get_status b m = status_code st" "get_val_size b m = of_nat (length val)"
    "mread m (b + sizeof_RequestReply) (length val) = val"
proof -
  let ?n = "sizeof_RequestReply + length val"
  have sub: "mread m (b + c) d = mread (reply_image st val) c d" if "c + d \<le> ?n" for c d
    using mread_mread [OF that, of m b] m by simp
  have "mread m b 4 = le32 (status_code st)"
    using sub [of 0 4] by (simp add: reply_image_def mread_def sizeof_RequestReply_def)
  then show "get_status b m = status_code st" by (simp add: get_status_def)
  have "mread m (b + 4) 4 = le32 (of_nat (length val))"
    using sub [of 4 4] by (simp add: reply_image_def mread_def sizeof_RequestReply_def)
  then show "get_val_size b m = of_nat (length val)" by (simp add: get_val_size_def)
  show "mread m (b + sizeof_RequestReply) (length val) = val"
    using sub [of sizeof_RequestReply "length val"] by (simp add: reply_image_def mread_def sizeof_RequestReply_def)
qed

end
