(* ===== verification/Front.thy ===== *)
theory Front
  imports Request
begin

text \<open>
  A server with its clients. Every client has a connection of its own, with a clerk thread
  at the server's end, and all clerks work on one store (\<^verbatim>\<open>Listen\<close> of the servers). The
  threads and the adapters run independently: \<open>net_step\<close> is any one of them taking its next
  step. What a front end adds, the code of its client and its clerk, is the record \<open>front\<close>.

  The locale \<open>front_end\<close> is the contract between a front end and this theory: what its
  client and its clerk keep of a connection. It gives that the whole system is
  linearizable, and that no call gets stuck.
\<close>

section \<open>Definitions\<close>

text \<open>What becomes of a clerk that has taken a request.\<close>

datatype ('k, 'd) outcome =
    Crash db_error
  | No_answer
  | Closed 'k
  | Answered 'k 'd

text \<open>
  \<open>issue\<close> is a client function up to its wait for the completion, \<open>client_ready\<close> and
  \<open>clerk_ready\<close> are the conditions of the two spin loops on the header word, \<open>finish\<close> is the
  rest of the client function, \<open>handle\<close> the rest of the clerk's loop up to its wait for the
  completion. The hosts are where the adapter works.
\<close>

record ('c, 'k, 'd) front =
  issue :: "call \<Rightarrow> 'c \<Rightarrow> 'c option"
  client_ready :: "'c \<Rightarrow> bool"
  finish :: "call \<Rightarrow> 'c \<Rightarrow> ('c \<times> answer) option"
  clerk_ready :: "'k \<Rightarrow> bool"
  handle :: "'k \<Rightarrow> 'd \<Rightarrow> ('k, 'd) outcome"
  client_host :: "'c \<Rightarrow> host"
  set_client_host :: "host \<Rightarrow> 'c \<Rightarrow> 'c"
  clerk_host :: "'k \<Rightarrow> host"
  set_clerk_host :: "host \<Rightarrow> 'k \<Rightarrow> 'k"

datatype client_pc =
    C_idle
  | C_poll call
  | C_wait call

datatype clerk_pc =
    K_wait
  | K_poll
  | K_closed

record ('c, 'k) conn =
  client :: 'c
  client_pc :: client_pc
  answers :: "(call \<times> answer) list"
  clerk :: 'k
  clerk_pc :: clerk_pc

record ('c, 'k, 'd) net =
  conns :: "nat \<Rightarrow> ('c, 'k) conn"
  store :: 'd
  taken :: "(nat \<times> call) list"
  crashed :: bool

fun pending_call :: "client_pc \<Rightarrow> call option" where
  "pending_call C_idle = None"
| "pending_call (C_poll cl) = Some cl"
| "pending_call (C_wait cl) = Some cl"

text \<open>
  A step of one connection. \<open>taken\<close> records the order in which the clerks take the requests
  up; it is not part of the program.
\<close>

inductive conn_step :: "verbs \<Rightarrow> ('c, 'k, 'd) front \<Rightarrow> nat \<Rightarrow> ('c, 'k, 'd) net \<Rightarrow> ('c, 'k, 'd) net \<Rightarrow> bool"
  for v fe i
where
  client_poll: "client_pc (conns s i) = C_poll cl \<Longrightarrow>
     poll_one_completion v True (client_host fe (client (conns s i))) = Some (h, ret) \<Longrightarrow>
     conn_step v fe i s (s\<lparr>conns := (conns s)(i := (conns s i)\<lparr>client := set_client_host fe h (client (conns s i)),
       client_pc := C_wait cl\<rparr>)\<rparr>)"
| client_finish: "client_pc (conns s i) = C_wait cl \<Longrightarrow> client_ready fe (client (conns s i)) \<Longrightarrow>
     finish fe cl (client (conns s i)) = Some (c, a) \<Longrightarrow>
     conn_step v fe i s (s\<lparr>conns := (conns s)(i := (conns s i)\<lparr>client := c, client_pc := C_idle,
       answers := answers (conns s i) @ [(cl, a)]\<rparr>)\<rparr>)"
| client_adapter: "send_queue (client_host fe (client (conns s i))) \<noteq> [] \<Longrightarrow>
     execute v (client_host fe (client (conns s i))) (clerk_host fe (clerk (conns s i))) = (h, h') \<Longrightarrow>
     conn_step v fe i s (s\<lparr>conns := (conns s)(i := (conns s i)\<lparr>client := set_client_host fe h (client (conns s i)),
       clerk := set_clerk_host fe h' (clerk (conns s i))\<rparr>)\<rparr>)"
| clerk_adapter: "send_queue (clerk_host fe (clerk (conns s i))) \<noteq> [] \<Longrightarrow>
     execute v (clerk_host fe (clerk (conns s i))) (client_host fe (client (conns s i))) = (h', h) \<Longrightarrow>
     conn_step v fe i s (s\<lparr>conns := (conns s)(i := (conns s i)\<lparr>client := set_client_host fe h (client (conns s i)),
       clerk := set_clerk_host fe h' (clerk (conns s i))\<rparr>)\<rparr>)"
| clerk_poll: "clerk_pc (conns s i) = K_poll \<Longrightarrow>
     poll_one_completion v True (clerk_host fe (clerk (conns s i))) = Some (h, ret) \<Longrightarrow>
     conn_step v fe i s (s\<lparr>conns := (conns s)(i := (conns s i)\<lparr>clerk := set_clerk_host fe h (clerk (conns s i)),
       clerk_pc := K_wait\<rparr>)\<rparr>)"
| clerk_answers: "clerk_pc (conns s i) = K_wait \<Longrightarrow> clerk_ready fe (clerk (conns s i)) \<Longrightarrow>
     handle fe (clerk (conns s i)) (store s) = Answered k d \<Longrightarrow>
     conn_step v fe i s (s\<lparr>conns := (conns s)(i := (conns s i)\<lparr>clerk := k, clerk_pc := K_poll\<rparr>), store := d,
       taken := taken s @ (case pending_call (client_pc (conns s i)) of None \<Rightarrow> [] | Some cl \<Rightarrow> [(i, cl)])\<rparr>)"
| clerk_closes: "clerk_pc (conns s i) = K_wait \<Longrightarrow> clerk_ready fe (clerk (conns s i)) \<Longrightarrow>
     handle fe (clerk (conns s i)) (store s) = Closed k \<Longrightarrow>
     conn_step v fe i s (s\<lparr>conns := (conns s)(i := (conns s i)\<lparr>clerk := k, clerk_pc := K_closed\<rparr>)\<rparr>)"
| clerk_crashes: "clerk_pc (conns s i) = K_wait \<Longrightarrow> clerk_ready fe (clerk (conns s i)) \<Longrightarrow>
     handle fe (clerk (conns s i)) (store s) = Crash e \<Longrightarrow>
     conn_step v fe i s (s\<lparr>crashed := True\<rparr>)"

inductive net_step :: "verbs \<Rightarrow> ('c, 'k, 'd) front \<Rightarrow> (call \<Rightarrow> bool) \<Rightarrow> ('c, 'k, 'd) net \<Rightarrow> ('c, 'k, 'd) net \<Rightarrow> bool"
  for v fe allowed
where
  client_call: "\<not> crashed s \<Longrightarrow> client_pc (conns s i) = C_idle \<Longrightarrow> allowed cl \<Longrightarrow>
     issue fe cl (client (conns s i)) = Some c \<Longrightarrow>
     net_step v fe allowed s (s\<lparr>conns := (conns s)(i := (conns s i)\<lparr>client := c, client_pc := C_poll cl\<rparr>)\<rparr>)"
| one_conn: "\<not> crashed s \<Longrightarrow> conn_step v fe i s s' \<Longrightarrow> net_step v fe allowed s s'"

inductive net_reach :: "verbs \<Rightarrow> ('c, 'k, 'd) front \<Rightarrow> (call \<Rightarrow> bool) \<Rightarrow> ('c, 'k, 'd) net \<Rightarrow> ('c, 'k, 'd) net \<Rightarrow> bool"
  for v fe allowed s0
where
  net_start: "net_reach v fe allowed s0 s0"
| net_next: "net_reach v fe allowed s0 s \<Longrightarrow> net_step v fe allowed s s' \<Longrightarrow> net_reach v fe allowed s0 s'"

text \<open>
  The requirement: the calls taken up so far, one after the other, lead to the map in the
  store, and give each client the answers it has, up to one that is still on its way.
\<close>

definition linearized :: "('d \<Rightarrow> bytes \<rightharpoonup> bytes) \<Rightarrow> (bytes \<rightharpoonup> bytes) \<Rightarrow> ('c, 'k, 'd) net \<Rightarrow> bool" where
  "linearized contents m0 s \<longleftrightarrow>
     contents (store s) = fst (spec_run (taken s) m0) \<and>
     (\<forall>i. \<exists>r. answers (conns s i) @ r = answers_of i (snd (spec_run (taken s) m0)) \<and> length r \<le> 1 \<and>
        (client_pc (conns s i) = C_idle \<longrightarrow> r = []))"

definition no_calls_yet :: "('c, 'k, 'd) net \<Rightarrow> bool" where
  "no_calls_yet s \<longleftrightarrow> taken s = [] \<and> \<not> crashed s \<and> (\<forall>i. answers (conns s i) = [])"

section \<open>The contract of a front end\<close>

text \<open>How far the call of a connection has got.\<close>

datatype phase =
    Idle
  | Sending call
  | Arrived call
  | Replying call answer
  | Replied call answer

fun arrive :: "phase \<Rightarrow> phase" where
  "arrive (Sending cl) = Arrived cl"
| "arrive ph = ph"

fun deliver :: "phase \<Rightarrow> phase" where
  "deliver (Replying cl a) = Replied cl a"
| "deliver ph = ph"

fun phase_call :: "phase \<Rightarrow> call option" where
  "phase_call Idle = None"
| "phase_call (Sending cl) = Some cl"
| "phase_call (Arrived cl) = Some cl"
| "phase_call (Replying cl a) = Some cl"
| "phase_call (Replied cl a) = Some cl"

fun phase_answer :: "phase \<Rightarrow> (call \<times> answer) list" where
  "phase_answer (Replying cl a) = [(cl, a)]"
| "phase_answer (Replied cl a) = [(cl, a)]"
| "phase_answer ph = []"

definition small_values :: "nat \<Rightarrow> (bytes \<rightharpoonup> bytes) \<Rightarrow> bool" where
  "small_values n m \<longleftrightarrow> (\<forall>k v. m k = Some v \<longrightarrow> length v \<le> n)"

fun call_values :: "nat \<Rightarrow> call \<Rightarrow> bool" where
  "call_values n (Call_put k v) \<longleftrightarrow> length v \<le> n"
| "call_values n (Call_update k v) \<longleftrightarrow> length v \<le> n"
| "call_values n cl \<longleftrightarrow> True"

lemma small_values_spec:
  "small_values n m \<Longrightarrow> call_values n cl \<Longrightarrow> small_values n (fst (spec_call cl m))"
  by (cases cl) (auto simp: small_values_def)

text \<open>
  \<open>phase_ok ph cn\<close>: the connection is in that phase. The laws are its preservation by the
  client, by the clerk, by the adapters, and that in each phase but the idle one somebody
  has a step to take. \<open>room\<close> is how much of the work of a call lies ahead.
\<close>

locale front_end = kv_store ops ok contents fits
  for ops :: "'d DBType" and ok contents fits +
  fixes v :: verbs
    and fe :: "('c, 'k, 'd) front"
    and phase_ok :: "phase \<Rightarrow> ('c, 'k) conn \<Rightarrow> bool"
    and allowed :: "call \<Rightarrow> bool"
    and val_max :: nat
    and work :: "('c, 'k) conn \<Rightarrow> nat"
  assumes allowed_values: "allowed cl \<Longrightarrow> call_values val_max cl"
    and phase_pending: "phase_ok ph cn \<Longrightarrow> pending_call (client_pc cn) = phase_call ph"
    and answers_indep: "phase_ok ph (cn\<lparr>answers := as\<rparr>) = phase_ok ph cn"
    and issue_ok: "phase_ok Idle cn \<Longrightarrow> allowed cl \<Longrightarrow>
      \<exists>c. issue fe cl (client cn) = Some c \<and> phase_ok (Sending cl) (cn\<lparr>client := c, client_pc := C_poll cl\<rparr>)"
    and client_poll_ok: "phase_ok ph cn \<Longrightarrow> client_pc cn = C_poll cl \<Longrightarrow>
      poll_one_completion v True (client_host fe (client cn)) = Some (h, ret) \<Longrightarrow>
      phase_ok ph (cn\<lparr>client := set_client_host fe h (client cn), client_pc := C_wait cl\<rparr>) \<and>
      work (cn\<lparr>client := set_client_host fe h (client cn), client_pc := C_wait cl\<rparr>) < work cn"
    and clerk_poll_ok: "phase_ok ph cn \<Longrightarrow> clerk_pc cn = K_poll \<Longrightarrow>
      poll_one_completion v True (clerk_host fe (clerk cn)) = Some (h, ret) \<Longrightarrow>
      phase_ok ph (cn\<lparr>clerk := set_clerk_host fe h (clerk cn), clerk_pc := K_wait\<rparr>) \<and>
      work (cn\<lparr>clerk := set_clerk_host fe h (clerk cn), clerk_pc := K_wait\<rparr>) < work cn"
    and client_adapter_ok: "phase_ok ph cn \<Longrightarrow> send_queue (client_host fe (client cn)) \<noteq> [] \<Longrightarrow>
      execute v (client_host fe (client cn)) (clerk_host fe (clerk cn)) = (h, h') \<Longrightarrow>
      (\<exists>ph'\<in>{ph, arrive ph}. phase_ok ph' (cn\<lparr>client := set_client_host fe h (client cn), clerk := set_clerk_host fe h' (clerk cn)\<rparr>)) \<and>
      work (cn\<lparr>client := set_client_host fe h (client cn), clerk := set_clerk_host fe h' (clerk cn)\<rparr>) < work cn"
    and clerk_adapter_ok: "phase_ok ph cn \<Longrightarrow> send_queue (clerk_host fe (clerk cn)) \<noteq> [] \<Longrightarrow>
      execute v (clerk_host fe (clerk cn)) (client_host fe (client cn)) = (h', h) \<Longrightarrow>
      (\<exists>ph'\<in>{ph, deliver ph}. phase_ok ph' (cn\<lparr>client := set_client_host fe h (client cn), clerk := set_clerk_host fe h' (clerk cn)\<rparr>)) \<and>
      work (cn\<lparr>client := set_client_host fe h (client cn), clerk := set_clerk_host fe h' (clerk cn)\<rparr>) < work cn"
    and handle_ok: "phase_ok ph cn \<Longrightarrow> clerk_pc cn = K_wait \<Longrightarrow> clerk_ready fe (clerk cn) \<Longrightarrow>
      ok (Suc n) d \<Longrightarrow> small_values val_max (contents d) \<Longrightarrow>
      (\<exists>e. handle fe (clerk cn) d = Crash e) \<or>
      (\<exists>cl k d'. ph = Arrived cl \<and> allowed cl \<and> handle fe (clerk cn) d = Answered k d' \<and> ok n d' \<and>
         contents d' = fst (spec_call cl (contents d)) \<and>
         phase_ok (Replying cl (snd (spec_call cl (contents d)))) (cn\<lparr>clerk := k, clerk_pc := K_poll\<rparr>) \<and>
         work (cn\<lparr>clerk := k, clerk_pc := K_poll\<rparr>) < work cn)"
    and finish_ok: "phase_ok ph cn \<Longrightarrow> client_pc cn = C_wait cl \<Longrightarrow> client_ready fe (client cn) \<Longrightarrow>
      \<exists>a c. ph = Replied cl a \<and> finish fe cl (client cn) = Some (c, a) \<and>
        phase_ok Idle (cn\<lparr>client := c, client_pc := C_idle\<rparr>)"
    and progress: "phase_ok ph cn \<Longrightarrow> ph \<noteq> Idle \<Longrightarrow>
      send_queue (client_host fe (client cn)) \<noteq> [] \<or> send_queue (clerk_host fe (clerk cn)) \<noteq> [] \<or>
      (\<exists>cl. client_pc cn = C_poll cl \<and> poll_one_completion v True (client_host fe (client cn)) \<noteq> None) \<or>
      (\<exists>cl. client_pc cn = C_wait cl \<and> client_ready fe (client cn)) \<or>
      (clerk_pc cn = K_poll \<and> poll_one_completion v True (clerk_host fe (clerk cn)) \<noteq> None) \<or>
      (clerk_pc cn = K_wait \<and> clerk_ready fe (clerk cn))"
begin

text \<open>
  The invariant: every connection is in some phase, the answers its client has, with the
  one under way, are those of the calls taken up so far, and the store holds the map these
  calls lead to.
\<close>

definition net_inv :: "nat \<Rightarrow> (bytes \<rightharpoonup> bytes) \<Rightarrow> ('c, 'k, 'd) net \<Rightarrow> bool" where
  "net_inv n m0 s \<longleftrightarrow>
     (length (taken s) < n \<longrightarrow>
        ok (n - length (taken s)) (store s) \<and> contents (store s) = fst (spec_run (taken s) m0) \<and>
        small_values val_max (contents (store s)) \<and>
        (\<forall>i. \<exists>ph. phase_ok ph (conns s i) \<and>
           answers (conns s i) @ phase_answer ph = answers_of i (snd (spec_run (taken s) m0))))"

lemma net_invD:
  assumes "net_inv n m0 s" "length (taken s) < n"
  shows "ok (n - length (taken s)) (store s)" "contents (store s) = fst (spec_run (taken s) m0)"
    "small_values val_max (contents (store s))"
    "\<exists>ph. phase_ok ph (conns s i) \<and> answers (conns s i) @ phase_answer ph = answers_of i (snd (spec_run (taken s) m0))"
  using assms by (auto simp: net_inv_def)

text \<open>A step that leaves the store alone.\<close>

lemma net_inv_local:
  assumes inv: "net_inv n m0 s"
    and s': "s' = s\<lparr>conns := (conns s)(i := cn)\<rparr>"
    and step: "\<And>ph. phase_ok ph (conns s i) \<Longrightarrow>
      \<exists>ph'. phase_ok ph' cn \<and> answers cn @ phase_answer ph' = answers (conns s i) @ phase_answer ph"
  shows "net_inv n m0 s'"
proof -
  { assume n: "length (taken s) < n"
    note I = net_invD [OF inv n]
    have "\<exists>ph. phase_ok ph (conns s' j) \<and> answers (conns s' j) @ phase_answer ph = answers_of j (snd (spec_run (taken s) m0))" for j
      using I(4) [of j] step by (cases "j = i") (fastforce simp: s')+
    with I(1-3) have "net_inv n m0 s'" by (simp add: net_inv_def s') }
  then show ?thesis by (auto simp: net_inv_def s')
qed

text \<open>A clerk taking up a request.\<close>

lemma net_inv_handle:
  assumes inv: "net_inv n m0 s" and n: "length (taken s) < n"
    and pc: "clerk_pc (conns s i) = K_wait" "clerk_ready fe (clerk (conns s i))"
    and h: "handle fe (clerk (conns s i)) (store s) = out"
  shows "(\<exists>e. out = Crash e) \<or>
    (\<exists>cl k d. out = Answered k d \<and> pending_call (client_pc (conns s i)) = Some cl \<and>
       work ((conns s i)\<lparr>clerk := k, clerk_pc := K_poll\<rparr>) < work (conns s i) \<and>
       net_inv n m0 (s\<lparr>conns := (conns s)(i := (conns s i)\<lparr>clerk := k, clerk_pc := K_poll\<rparr>), store := d,
         taken := taken s @ [(i, cl)]\<rparr>))"
proof -
  note I = net_invD [OF inv n]
  obtain ph where ph: "phase_ok ph (conns s i)"
    and ans: "answers (conns s i) @ phase_answer ph = answers_of i (snd (spec_run (taken s) m0))"
    using I(4) [of i] by blast
  have "ok (Suc (n - Suc (length (taken s)))) (store s)" using I(1) n by (simp add: Suc_diff_Suc)
  from handle_ok [OF ph pc this I(3)] h consider (crash) e where "out = Crash e"
    | (answer) cl k d where "ph = Arrived cl" "allowed cl" "out = Answered k d" "ok (n - Suc (length (taken s))) d"
      "contents d = fst (spec_call cl (contents (store s)))"
      "phase_ok (Replying cl (snd (spec_call cl (contents (store s))))) ((conns s i)\<lparr>clerk := k, clerk_pc := K_poll\<rparr>)"
      "work ((conns s i)\<lparr>clerk := k, clerk_pc := K_poll\<rparr>) < work (conns s i)"
    by metis
  then show ?thesis
  proof cases
    case crash
    then show ?thesis by blast
  next
    case answer
    let ?s = "s\<lparr>conns := (conns s)(i := (conns s i)\<lparr>clerk := k, clerk_pc := K_poll\<rparr>), store := d, taken := taken s @ [(i, cl)]\<rparr>"
    have pend: "pending_call (client_pc (conns s i)) = Some cl" using phase_pending [OF ph] answer(1) by simp
    have run: "fst (spec_run (taken ?s) m0) = fst (spec_call cl (contents (store s)))"
      "snd (spec_run (taken ?s) m0) = snd (spec_run (taken s) m0) @ [(i, cl, snd (spec_call cl (contents (store s))))]"
      using I(2) by (simp_all add: spec_run_snoc Let_def case_prod_unfold)
    have "small_values val_max (contents d)"
      unfolding answer(5) by (rule small_values_spec [OF I(3) allowed_values [OF answer(2)]])
    moreover have "\<exists>ph. phase_ok ph (conns ?s j) \<and> answers (conns ?s j) @ phase_answer ph = answers_of j (snd (spec_run (taken ?s) m0))" for j
    proof (cases "j = i")
      case True
      then show ?thesis using answer(1,6) ans run(2) by (fastforce intro!: exI [of _ "Replying cl (snd (spec_call cl (contents (store s))))"])
    next
      case False
      then show ?thesis using I(4) [of j] run(2) by simp
    qed
    ultimately have "net_inv n m0 ?s" using answer(4,5) run(1) by (auto simp: net_inv_def)
    with answer(3,7) pend show ?thesis by blast
  qed
qed

lemma phase_answer_arrive [simp]: "phase_answer (arrive ph) = phase_answer ph" "phase_answer (deliver ph) = phase_answer ph"
  by (cases ph; simp)+

text \<open>One step of a connection, with what it does to the work ahead.\<close>

lemma conn_step_inv:
  assumes inv: "net_inv n m0 s" and n: "length (taken s) < n" and step: "conn_step v fe i s s'"
  shows "net_inv n m0 s' \<and> (crashed s' \<or> client_pc (conns s' i) = C_idle \<or> work (conns s' i) < work (conns s i))"
  using step
proof cases
  case (client_poll cl h ret)
  note c = client_poll_ok [OF _ client_poll(2,3)]
  obtain ph where "phase_ok ph (conns s i)" using net_invD(4) [OF inv n] by blast
  from c [OF this] show ?thesis
    by (intro conjI net_inv_local [OF inv client_poll(1)]) (use c in \<open>auto simp: client_poll(1)\<close>)
next
  case (client_finish cl c a)
  have "net_inv n m0 s'"
  proof (rule net_inv_local [OF inv client_finish(1)])
    fix ph assume ph: "phase_ok ph (conns s i)"
    from finish_ok [OF ph client_finish(2,3)] client_finish(4)
    have ph': "ph = Replied cl a" "phase_ok Idle ((conns s i)\<lparr>client := c, client_pc := C_idle\<rparr>)" by auto
    have "phase_ok Idle ((conns s i)\<lparr>client := c, client_pc := C_idle, answers := answers (conns s i) @ [(cl, a)]\<rparr>)"
      using ph'(2) answers_indep [where ph = Idle and cn = "(conns s i)\<lparr>client := c, client_pc := C_idle\<rparr>"] by simp
    with ph'(1) show "\<exists>ph'. phase_ok ph' ((conns s i)\<lparr>client := c, client_pc := C_idle, answers := answers (conns s i) @ [(cl, a)]\<rparr>) \<and>
        answers ((conns s i)\<lparr>client := c, client_pc := C_idle, answers := answers (conns s i) @ [(cl, a)]\<rparr>) @ phase_answer ph' =
        answers (conns s i) @ phase_answer ph"
      by (intro exI [of _ Idle]) simp
  qed
  then show ?thesis by (simp add: client_finish(1))
next
  case (client_adapter h h')
  note c = client_adapter_ok [OF _ client_adapter(2,3)]
  obtain ph where "phase_ok ph (conns s i)" using net_invD(4) [OF inv n] by blast
  from c [OF this] show ?thesis
    by (intro conjI net_inv_local [OF inv client_adapter(1)]) (use c in \<open>fastforce simp: client_adapter(1)\<close>)+
next
  case (clerk_adapter h' h)
  note c = clerk_adapter_ok [OF _ clerk_adapter(2,3)]
  obtain ph where "phase_ok ph (conns s i)" using net_invD(4) [OF inv n] by blast
  from c [OF this] show ?thesis
    by (intro conjI net_inv_local [OF inv clerk_adapter(1)]) (use c in \<open>fastforce simp: clerk_adapter(1)\<close>)+
next
  case (clerk_poll h ret)
  note c = clerk_poll_ok [OF _ clerk_poll(2,3)]
  obtain ph where "phase_ok ph (conns s i)" using net_invD(4) [OF inv n] by blast
  from c [OF this] show ?thesis
    by (intro conjI net_inv_local [OF inv clerk_poll(1)]) (use c in \<open>auto simp: clerk_poll(1)\<close>)
next
  case (clerk_answers k d)
  from net_inv_handle [OF inv n clerk_answers(2,3,4)] show ?thesis by (auto simp: clerk_answers(1))
next
  case (clerk_closes k)
  from net_inv_handle [OF inv n clerk_closes(2,3,4)] show ?thesis by simp
next
  case (clerk_crashes e)
  then show ?thesis using net_invD [OF inv n] by (simp add: net_inv_def)
qed

lemma taken_mono: "conn_step v fe i s s' \<Longrightarrow> length (taken s) \<le> length (taken s')"
  by (cases rule: conn_step.cases) (auto split: option.splits)

lemma net_step_inv:
  assumes inv: "net_inv n m0 s" and step: "net_step v fe allowed s s'"
  shows "net_inv n m0 s'"
  using step
proof cases
  case (client_call i cl c)
  show ?thesis
  proof (rule net_inv_local [OF inv client_call(1)])
    fix ph assume ph: "phase_ok ph (conns s i)"
    then have "phase_call ph = None" using phase_pending [OF ph] client_call(3) by simp
    then have "ph = Idle" by (cases ph) auto
    with issue_ok [of "conns s i" cl] ph client_call(4,5)
    show "\<exists>ph'. phase_ok ph' ((conns s i)\<lparr>client := c, client_pc := C_poll cl\<rparr>) \<and>
        answers ((conns s i)\<lparr>client := c, client_pc := C_poll cl\<rparr>) @ phase_answer ph' = answers (conns s i) @ phase_answer ph"
      by (intro exI [of _ "Sending cl"]) auto
  qed
next
  case (one_conn i)
  show ?thesis
  proof (cases "length (taken s) < n")
    case True
    then show ?thesis using conn_step_inv [OF inv True one_conn(2)] by blast
  next
    case False
    then show ?thesis using taken_mono [OF one_conn(2)] by (simp add: net_inv_def)
  qed
qed

lemma net_reach_inv:
  assumes "net_reach v fe allowed s0 s" "no_calls_yet s0" "\<And>i. phase_ok Idle (conns s0 i)"
    "ok n (store s0)" "small_values val_max (contents (store s0))"
  shows "net_inv n (contents (store s0)) s"
  using assms
proof (induction rule: net_reach.induct)
  case net_start
  then show ?case by (auto simp: net_inv_def no_calls_yet_def intro!: exI [of _ Idle])
next
  case (net_next s s')
  then show ?case using net_step_inv by blast
qed

lemma length_phase_answer: "length (phase_answer ph) \<le> 1"
  by (cases ph) auto

lemma net_inv_linearized:
  assumes "net_inv n m0 s" "length (taken s) < n"
  shows "linearized contents m0 s"
  unfolding linearized_def
proof (intro conjI allI)
  show "contents (store s) = fst (spec_run (taken s) m0)" by (rule net_invD [OF assms])
  fix i
  obtain ph where ph: "phase_ok ph (conns s i)"
    "answers (conns s i) @ phase_answer ph = answers_of i (snd (spec_run (taken s) m0))"
    using net_invD(4) [OF assms] by blast
  have "phase_answer ph = []" if "client_pc (conns s i) = C_idle"
    using phase_pending [OF ph(1)] that by (cases ph) auto
  with ph(2) length_phase_answer [of ph]
  show "\<exists>r. answers (conns s i) @ r = answers_of i (snd (spec_run (taken s) m0)) \<and> length r \<le> 1 \<and>
    (client_pc (conns s i) = C_idle \<longrightarrow> r = [])" by blast
qed

text \<open>A call under way always has a next step.\<close>

lemma conn_step_exists:
  assumes inv: "net_inv n m0 s" and n: "length (taken s) < n" and pc: "client_pc (conns s i) \<noteq> C_idle"
  shows "\<exists>s'. conn_step v fe i s s'"
proof -
  obtain ph where ph: "phase_ok ph (conns s i)" using net_invD(4) [OF inv n] by blast
  have "ph \<noteq> Idle" using phase_pending [OF ph] pc by (cases "client_pc (conns s i)") auto
  from progress [OF ph this] consider
      (ca) "send_queue (client_host fe (client (conns s i))) \<noteq> []"
    | (ka) "send_queue (clerk_host fe (clerk (conns s i))) \<noteq> []"
    | (cp) cl where "client_pc (conns s i) = C_poll cl"
        "poll_one_completion v True (client_host fe (client (conns s i))) \<noteq> None"
    | (cf) cl where "client_pc (conns s i) = C_wait cl" "client_ready fe (client (conns s i))"
    | (kp) "clerk_pc (conns s i) = K_poll" "poll_one_completion v True (clerk_host fe (clerk (conns s i))) \<noteq> None"
    | (kh) "clerk_pc (conns s i) = K_wait" "clerk_ready fe (clerk (conns s i))"
    by blast
  then show ?thesis
  proof cases
    case ca
    then show ?thesis by (metis client_adapter surj_pair)
  next
    case ka
    then show ?thesis by (metis clerk_adapter surj_pair)
  next
    case cp
    then show ?thesis by (metis client_poll option.exhaust surj_pair)
  next
    case cf
    then show ?thesis using finish_ok [OF ph cf] by (metis client_finish)
  next
    case kp
    then show ?thesis by (metis clerk_poll option.exhaust surj_pair)
  next
    case kh
    from net_inv_handle [OF inv n kh refl] show ?thesis using kh by (metis clerk_answers clerk_crashes)
  qed
qed

text \<open>So a call ends after a bounded number of steps of its connection, unless the store ends the process.\<close>

lemma call_ends:
  assumes "net_inv n m0 s" "length (taken s) + work (conns s i) < n" "\<not> crashed s"
  shows "\<exists>m s'. m \<le> Suc (work (conns s i)) \<and> (conn_step v fe i ^^ m) s s' \<and> (crashed s' \<or> client_pc (conns s' i) = C_idle)"
  using assms
proof (induction "work (conns s i)" arbitrary: s rule: less_induct)
  case less
  show ?case
  proof (cases "client_pc (conns s i) = C_idle")
    case True
    then show ?thesis by (intro exI [of _ 0] exI [of _ s]) simp
  next
    case False
    have n: "length (taken s) < n" using less.prems(2) by simp
    obtain s1 where s1: "conn_step v fe i s s1" using conn_step_exists [OF less.prems(1) n False] by blast
    have t: "length (taken s1) \<le> Suc (length (taken s))" using s1 by cases (auto split: option.splits)
    from conn_step_inv [OF less.prems(1) n s1] consider (stop) "crashed s1 \<or> client_pc (conns s1 i) = C_idle"
      | (more) "net_inv n m0 s1" "work (conns s1 i) < work (conns s i)" "\<not> crashed s1" by blast
    then show ?thesis
    proof cases
      case stop
      with s1 show ?thesis by (intro exI [of _ 1] exI [of _ s1]) auto
    next
      case more
      have "length (taken s1) + work (conns s1 i) < n" using more(2) t less.prems(2) by linarith
      from less.hyps [OF more(2,1) this more(3)] obtain m s2 where m: "m \<le> Suc (work (conns s1 i))"
        "(conn_step v fe i ^^ m) s1 s2" "crashed s2 \<or> client_pc (conns s2 i) = C_idle" by blast
      have "(conn_step v fe i ^^ Suc m) s s2" using s1 m(2) by (rule relpowp_Suc_I2)
      moreover have "Suc m \<le> Suc (work (conns s i))" using m(1) more(2) by linarith
      ultimately show ?thesis using m(3) by blast
    qed
  qed
qed

end

end
