(* ===== verification/Setup.thy ===== *)
theory Setup
  imports Request
begin

text \<open>
  How the two ends of a connection come up: the options (\<^verbatim>\<open>include/flags.h\<close>), the choice of
  the front end (\<^verbatim>\<open>include/front.h\<close>), and the code the constructors of the clients, their
  \<^verbatim>\<open>Connect\<close>, and the loop of \<^verbatim>\<open>Listen\<close> at the servers share. What the operating system and the
  device answer is gathered in a \<open>machine\<close>.
\<close>

section \<open>Definitions\<close>

record MyOption =
  opt_dir :: string
  opt_cmb_device :: string
  opt_rdma_device :: string
  opt_port :: int
  opt_gid :: int
  opt_ipaddr :: string
  opt_ipport :: int
  opt_front_type :: string
  opt_client_num :: int
  opt_lat_mode :: bool
  opt_db_type :: string
  opt_sync :: bool
  opt_opnum :: int
  opt_initnum :: int
  opt_valsize :: int
  opt_init_file :: string
  opt_txn_file :: string

definition default_opt :: MyOption where
  "default_opt =
     \<lparr>opt_dir = ''/data/nvme0'', opt_cmb_device = ''/dev/nvme0'', opt_rdma_device = ''mlx5_0'', opt_port = 1, opt_gid = 3,
      opt_ipaddr = ''192.168.2.1'', opt_ipport = 4040, opt_front_type = ''sync'', opt_client_num = 1, opt_lat_mode = False,
      opt_db_type = ''cuckoodb'', opt_sync = False, opt_opnum = 1000, opt_initnum = 0, opt_valsize = 40,
      opt_init_file = ''/home/lyp/logdirect/build/dataset.dat'', opt_txn_file = ''/home/lyp/logdirect/build/query.dat''\<rparr>"

datatype front_kind = Pmem | Sync | Hybrid | Group

definition NewClient :: "MyOption \<Rightarrow> front_kind option" where
  "NewClient opt =
     (if opt_front_type opt = ''pmem'' then Some Pmem
      else if opt_front_type opt = ''sync'' then Some Sync
      else if opt_front_type opt = ''hybrid'' then Some Hybrid
      else if opt_front_type opt = ''group'' then Some Group
      else None)"

definition NewServer :: "MyOption \<Rightarrow> front_kind option" where
  "NewServer opt =
     (if opt_front_type opt = ''pmem'' then Some Pmem
      else if opt_front_type opt = ''sync'' then Some Sync
      else if opt_front_type opt = ''hybrid'' then Some Hybrid
      else if opt_front_type opt = ''group'' then Some Group
      else None)"

text \<open>
  The answers of a machine: its devices, what the new send buffer holds, the new or mapped
  buffer with its address and what registering it gives, and the answers to the transitions
  of the queue pair and to the \<^verbatim>\<open>write\<close> of the certificate.
\<close>

record machine =
  mc_devices :: "(string \<times> rdma_device option) list option"
  mc_send_mem :: bytes
  mc_ptr :: u64
  mc_mem :: bytes
  mc_reg :: "ibv_mr option"
  mc_modify_qp :: "ibv_qp_attr \<Rightarrow> ibv_qp_attr_mask list \<Rightarrow> int"
  mc_written :: int

text \<open>
  The device, then a context on it with its buffer registered. The assertion that there is
  a device is compiled out, and so is nothing that would stop a failed \<^verbatim>\<open>open\<close>: both are a
  null pointer that is followed.
\<close>

definition open_device :: "machine \<Rightarrow> MyOption \<Rightarrow> db_error + rdma_device" where
  "open_device mc opt =
     (case make_rdma (mc_devices mc) (opt_rdma_device opt) (opt_port opt) (opt_gid opt) of
        None \<Rightarrow> Inl Undefined
      | Some dev \<Rightarrow> Inr dev)"

definition new_context :: "machine \<Rightarrow> rdma_device \<Rightarrow> db_error + host" where
  "new_context mc dev =
     (case set_up dev (mc_send_mem mc) (mc_reg mc) (mc_ptr mc) (mc_mem mc) of Inl _ \<Rightarrow> Inl Undefined | Inr h \<Rightarrow> Inr h)"

text \<open>The connection over the socket, which has delivered \<open>received\<close>; only the result -1 is looked at.\<close>

definition connect_context :: "machine \<Rightarrow> rdma_device \<Rightarrow> bytes option \<Rightarrow> host \<Rightarrow> db_error + host" where
  "connect_context mc dev received h =
     (case default_connect (mc_modify_qp mc) dev (mc_written mc) received h of
        (h, ret) \<Rightarrow> if ret = -1 then Inl Process_exit else Inr h)"

section \<open>Two working machines\<close>

definition machine_ok :: "machine \<Rightarrow> MyOption \<Rightarrow> rdma_device \<Rightarrow> bool" where
  "machine_ok mc opt dev \<longleftrightarrow> open_device mc opt = Inr dev \<and> (\<forall>attr flags. mc_modify_qp mc attr flags = 0) \<and>
     mc_written mc = int certificate_size \<and>
     (\<exists>smr wmr. mc_reg mc = Some wmr \<and> device_ok dev smr (mc_send_mem mc) wmr (mc_ptr mc) (mc_mem mc))"

lemma new_context_ok:
  assumes "machine_ok mc opt dev"
  shows "\<exists>h. new_context mc dev = Inr h \<and> host_ok h \<and> certified h \<and> write_mem h = mc_mem mc \<and> send_mem h = mc_send_mem mc \<and>
    send_queue h = [] \<and> out_cq h = []"
proof -
  obtain smr wmr where m: "mc_reg mc = Some wmr" "device_ok dev smr (mc_send_mem mc) wmr (mc_ptr mc) (mc_mem mc)"
    using assms by (auto simp: machine_ok_def)
  show ?thesis using set_up_ok [OF m(2)] m(1) by (auto simp: new_context_def certified_def)
qed

lemma connect_context_ok:
  "machine_ok mc opt dev \<Longrightarrow> certified b \<Longrightarrow>
    connect_context mc dev (Some (wire_certificate (local_cert b))) a = Inr (a\<lparr>remote_cert := local_cert b\<rparr>)"
  by (simp add: connect_context_def machine_ok_def default_connect_ok certified_def)

text \<open>A machine.\<close>

definition sample_machine :: "bytes \<Rightarrow> machine" where
  "sample_machine mem =
     \<lparr>mc_devices = Some [(''mlx5_0'', Some sample_device)], mc_send_mem = replicate 16384 0, mc_ptr = 0x100000, mc_mem = mem,
      mc_reg = Some (sample_mr 0x100000 mem 2), mc_modify_qp = (\<lambda>_ _. 0), mc_written = int certificate_size\<rparr>"

definition sample_opt :: MyOption where
  "sample_opt = default_opt\<lparr>opt_gid := -1\<rparr>"

lemma sample_machine_ok:
  assumes "length mem < 2 ^ 32"
  shows "machine_ok (sample_machine mem) sample_opt sample_device"
proof -
  have "open_device (sample_machine mem) sample_opt = Inr sample_device"
    by (simp add: open_device_def sample_machine_def sample_opt_def default_opt_def make_rdma_def sample_device_def)
  with sample_device_ok [OF assms] show ?thesis by (auto simp: machine_ok_def sample_machine_def)
qed

end
