(* ===== verification/Sync_Front.thy ===== *)
theory Sync_Front
  imports Front Setup
begin

text \<open>
  The synchronous front end, \<^verbatim>\<open>frontend/sync/sync.cc\<close>. A client lays its request out in its
  buffer behind the header, has it written to the same place of the clerk's buffer, then
  has the header word \<^verbatim>\<open>CLIENT_DONE\<close> written over the clerk's; the clerk, which spins on that
  word, takes it back to \<^verbatim>\<open>CLERK_DONE\<close>, serves the request, lays the reply out over the
  request, and writes reply and header back the same way.
\<close>

section \<open>The client\<close>

definition sync_buf_size :: nat where
  "sync_buf_size = MAX_REQUEST + RING_HEADER"

text \<open>The constructor and \<^verbatim>\<open>Connect\<close>.\<close>

definition SyncClient_new :: "machine \<Rightarrow> MyOption \<Rightarrow> db_error + rdma_device \<times> host" where
  "SyncClient_new mc opt =
     (case open_device mc opt of
        Inl e \<Rightarrow> Inl e
      | Inr dev \<Rightarrow> (case new_context mc dev of Inl e \<Rightarrow> Inl e | Inr h \<Rightarrow> Inr (dev, h)))"

definition SyncClient_Connect :: "machine \<Rightarrow> rdma_device \<Rightarrow> bytes option \<Rightarrow> host \<Rightarrow> db_error + host" where
  "SyncClient_Connect mc dev received h =
     (case connect_context mc dev received h of
        Inl e \<Rightarrow> Inl e
      | Inr h \<Rightarrow> Inr (h\<lparr>write_mem := set_header CLIENT_DONE (write_mem h)\<rparr>))"

text \<open>
  The functions of the client up to their wait for the completion. \<open>None\<close> is an access
  outside a buffer.
\<close>

definition SyncClient_SendWrite :: "verbs \<Rightarrow> bytes \<Rightarrow> bytes \<Rightarrow> Operation \<Rightarrow> host \<Rightarrow> host option" where
  "SyncClient_SendWrite v key val opr h =
     (let key_len = of_nat (strlen key) :: u16;
          val_len = of_nat (strlen val) :: u16;
          total_len = of_nat (sizeof_Request + unat key_len + unat val_len) :: u16;
          m = write_mem h;
          m = set_op RING_HEADER opr m;
          m = set_key_size RING_HEADER (unat key_len) m;
          m = set_val_size RING_HEADER (ucast val_len) m
      in do {
           k \<leftarrow> load key 0 (unat key_len);
           m \<leftarrow> memcpy m (RING_HEADER + sizeof_Request) k;
           x \<leftarrow> load val 0 (unat val_len);
           m \<leftarrow> memcpy m (RING_HEADER + sizeof_Request + unat key_len) x;
           (h, _) \<leftarrow> post_write v None (unat total_len) RING_HEADER RING_HEADER False (h\<lparr>write_mem := m\<rparr>);
           (h, _) \<leftarrow> post_write v None 4 0 0 True h;
           Some h })"

definition SyncClient_SendKey :: "verbs \<Rightarrow> bytes \<Rightarrow> Operation \<Rightarrow> host \<Rightarrow> host option" where
  "SyncClient_SendKey v key opr h =
     (let key_len = of_nat (strlen key) :: u16;
          total_len = of_nat (sizeof_Request + unat key_len) :: u16;
          m = write_mem h;
          m = set_op RING_HEADER opr m;
          m = set_key_size RING_HEADER (strlen key) m;
          m = set_val_size RING_HEADER 0 m
      in do {
           k \<leftarrow> load key 0 (strlen key);
           m \<leftarrow> memcpy m (RING_HEADER + sizeof_Request) k;
           (h, _) \<leftarrow> post_write v None (unat total_len) RING_HEADER RING_HEADER False (h\<lparr>write_mem := m\<rparr>);
           (h, _) \<leftarrow> post_write v None 4 0 0 True h;
           Some h })"

definition SyncClient_SendBare :: "verbs \<Rightarrow> Operation \<Rightarrow> host \<Rightarrow> host option" where
  "SyncClient_SendBare v opr h =
     (let m = write_mem h;
          m = set_op RING_HEADER opr m;
          m = set_key_size RING_HEADER 0 m;
          m = set_val_size RING_HEADER 0 m
      in do {
           (h, _) \<leftarrow> post_write v None sizeof_Request RING_HEADER RING_HEADER False (h\<lparr>write_mem := m\<rparr>);
           (h, _) \<leftarrow> post_write v None 4 0 0 True h;
           Some h })"

definition SyncClient_SendGet :: "verbs \<Rightarrow> bytes \<Rightarrow> host \<Rightarrow> host option" where
  "SyncClient_SendGet v key h = SyncClient_SendKey v key GET h"

definition SyncClient_SendDelete :: "verbs \<Rightarrow> bytes \<Rightarrow> host \<Rightarrow> host option" where
  "SyncClient_SendDelete v key h = SyncClient_SendKey v key DELETE h"

definition SyncClient_SendSync :: "verbs \<Rightarrow> host \<Rightarrow> host option" where
  "SyncClient_SendSync v h = SyncClient_SendBare v SYNC h"

definition SyncClient_SendClose :: "verbs \<Rightarrow> host \<Rightarrow> host option" where
  "SyncClient_SendClose v h = SyncClient_SendBare v CLOSE h"

text \<open>\<^verbatim>\<open>SendClose\<close> after its first completion: the message the clerk waits for.\<close>

definition SyncClient_SendClose_msg :: "verbs \<Rightarrow> host \<Rightarrow> (host \<times> int) option" where
  "SyncClient_SendClose_msg v h = post_send v None MAX_REQUEST 0 True h"

fun SyncClient_issue :: "verbs \<Rightarrow> call \<Rightarrow> host \<Rightarrow> host option" where
  "SyncClient_issue v (Call_put key val) h = SyncClient_SendWrite v key val PUT h"
| "SyncClient_issue v (Call_update key val) h = SyncClient_SendWrite v key val UPDATE h"
| "SyncClient_issue v (Call_get key) h = SyncClient_SendGet v key h"
| "SyncClient_issue v (Call_delete key) h = SyncClient_SendDelete v key h"
| "SyncClient_issue v Call_sync h = SyncClient_SendSync v h"

text \<open>What a client function does once the header reads \<^verbatim>\<open>CLERK_DONE\<close>.\<close>

fun SyncClient_finish :: "call \<Rightarrow> bytes \<Rightarrow> (bytes \<times> answer) option" where
  "SyncClient_finish (Call_get key) m =
     (let m = set_header CLIENT_DONE m
      in if get_status RING_HEADER m = status_code OK
         then do { val \<leftarrow> load m (RING_HEADER + sizeof_RequestReply) (unat (get_val_size RING_HEADER m));
                   Some (m, Ans_got (Some val)) }
         else Some (m, Ans_got None))"
| "SyncClient_finish (Call_delete key) m =
     (let m = set_header CLIENT_DONE m in Some (m, Ans_deleted (get_status RING_HEADER m = status_code OK)))"
| "SyncClient_finish _ m = Some (set_header CLIENT_DONE m, Ans_done)"

section \<open>The clerk\<close>

datatype 'd served =
    Served bytes 'd
  | Serve_close
  | Serve_fail db_error
  | Serve_hang

text \<open>The \<^verbatim>\<open>switch\<close> of \<^verbatim>\<open>SyncClerk::Run\<close> on the clerk's buffer, in which the reply overlays the request.\<close>

definition clerk_put :: "'d DBType \<Rightarrow> bytes \<Rightarrow> 'd \<Rightarrow> 'd served" where
  "clerk_put ops m d =
     (let key_size = get_key_size RING_HEADER m
      in case (load m (RING_HEADER + sizeof_Request) key_size,
               load m (RING_HEADER + sizeof_Request + key_size) (unat (get_val_size RING_HEADER m))) of
           (Some key, Some val) \<Rightarrow>
             (case db_put ops d key val of
                None \<Rightarrow> Serve_hang
              | Some (Inl e) \<Rightarrow> Serve_fail e
              | Some (Inr (d, good)) \<Rightarrow>
                  Served (set_val_size RING_HEADER 0 (set_status RING_HEADER (if good then OK else ERROR) m)) d)
         | _ \<Rightarrow> Serve_fail Undefined)"

definition clerk_get :: "'d DBType \<Rightarrow> bytes \<Rightarrow> 'd \<Rightarrow> 'd served" where
  "clerk_get ops m d =
     (case load m (RING_HEADER + sizeof_Request) (get_key_size RING_HEADER m) of
        None \<Rightarrow> Serve_fail Undefined
      | Some key \<Rightarrow>
          (case db_get ops d key of
             Inl e \<Rightarrow> Serve_fail e
           | Inr (d, Some val) \<Rightarrow>
               (let n = of_nat (length val) :: u32;
                    m = set_val_size RING_HEADER n (set_status RING_HEADER OK m)
                in case memcpy m (RING_HEADER + sizeof_RequestReply) (take (unat n) val) of
                     None \<Rightarrow> Serve_fail Undefined
                   | Some m \<Rightarrow> Served m d)
           | Inr (d, None) \<Rightarrow> Served (set_val_size RING_HEADER 0 (set_status RING_HEADER NOTFOUND m)) d))"

definition clerk_delete :: "'d DBType \<Rightarrow> bytes \<Rightarrow> 'd \<Rightarrow> 'd served" where
  "clerk_delete ops m d =
     (case load m (RING_HEADER + sizeof_Request) (get_key_size RING_HEADER m) of
        None \<Rightarrow> Serve_fail Undefined
      | Some key \<Rightarrow>
          (case db_delete ops d key of
             Inl e \<Rightarrow> Serve_fail e
           | Inr (d, good) \<Rightarrow>
               Served (set_val_size RING_HEADER 0 (set_status RING_HEADER (if good then OK else NOTFOUND) m)) d))"

definition SyncClerk_serve :: "'d DBType \<Rightarrow> bytes \<Rightarrow> 'd \<Rightarrow> 'd served" where
  "SyncClerk_serve ops m d =
     (case get_op RING_HEADER m of
        Some UPDATE \<Rightarrow> clerk_put ops m d
      | Some PUT \<Rightarrow> clerk_put ops m d
      | Some GET \<Rightarrow> clerk_get ops m d
      | Some SYNC \<Rightarrow> Served m (db_set_sync ops d)
      | Some DELETE \<Rightarrow> clerk_delete ops m d
      | Some CLOSE \<Rightarrow> Serve_close
      | _ \<Rightarrow> Serve_fail Process_exit)"

text \<open>One round of \<^verbatim>\<open>SyncClerk::Run\<close> after its spin loop, up to the wait for the completion.\<close>

definition SyncClerk_round :: "verbs \<Rightarrow> 'd DBType \<Rightarrow> host \<Rightarrow> 'd \<Rightarrow> (host, 'd) outcome" where
  "SyncClerk_round v ops h d =
     (case SyncClerk_serve ops (set_header CLERK_DONE (write_mem h)) d of
        Served m d \<Rightarrow>
          (case do { (h, _) \<leftarrow> post_write v None (sizeof_RequestReply + unat (get_val_size RING_HEADER m))
                                 RING_HEADER RING_HEADER False (h\<lparr>write_mem := m\<rparr>);
                     (h, _) \<leftarrow> post_write v None 4 0 0 True h;
                     Some h } of
             None \<Rightarrow> Crash Undefined
           | Some h \<Rightarrow> Answered h d)
      | Serve_close \<Rightarrow> Closed (fst (post_recv v MAX_REQUEST 0 (h\<lparr>write_mem := set_header CLERK_DONE (write_mem h)\<rparr>)))
      | Serve_fail e \<Rightarrow> Crash e
      | Serve_hang \<Rightarrow> No_answer)"

text \<open>
  The server: its constructor, and one round of the loop of \<^verbatim>\<open>Listen\<close>, which leaves a clerk
  with the context.
\<close>

definition SyncServer_new :: "machine \<Rightarrow> MyOption \<Rightarrow> db_error + rdma_device" where
  "SyncServer_new mc opt = open_device mc opt"

definition SyncServer_accept :: "machine \<Rightarrow> rdma_device \<Rightarrow> bytes option \<Rightarrow> db_error + host" where
  "SyncServer_accept mc dev received =
     (case new_context mc dev of Inl e \<Rightarrow> Inl e | Inr h \<Rightarrow> connect_context mc dev received h)"

definition sync_front :: "verbs \<Rightarrow> 'd DBType \<Rightarrow> (host, host, 'd) front" where
  "sync_front v ops =
     \<lparr>issue = SyncClient_issue v,
      client_ready = (\<lambda>h. header (write_mem h) = CLERK_DONE),
      finish = (\<lambda>cl h. map_option (\<lambda>(m, a). (h\<lparr>write_mem := m\<rparr>, a)) (SyncClient_finish cl (write_mem h))),
      clerk_ready = (\<lambda>h. header (write_mem h) = CLIENT_DONE),
      handle = SyncClerk_round v ops,
      client_host = (\<lambda>h. h), set_client_host = (\<lambda>h _. h), clerk_host = (\<lambda>h. h), set_clerk_host = (\<lambda>h _. h)\<rparr>"

section \<open>What goes over the wire\<close>

fun call_image :: "call \<Rightarrow> bytes" where
  "call_image (Call_put key val) = request_image PUT key val"
| "call_image (Call_update key val) = request_image UPDATE key val"
| "call_image (Call_get key) = request_image GET key []"
| "call_image (Call_delete key) = request_image DELETE key []"
| "call_image Call_sync = request_image SYNC [] []"

lemma length_call_image: "length (call_image cl) = sizeof_Request + call_size cl"
  by (cases cl) simp_all

text \<open>What the bytes of a reply mean to the client of a call.\<close>

definition reply_means :: "call \<Rightarrow> answer \<Rightarrow> bytes \<Rightarrow> bool" where
  "reply_means cl a r \<longleftrightarrow>
     length r = sizeof_RequestReply + unat (get_val_size 0 r) \<and>
     (case cl of
        Call_get key \<Rightarrow>
          a = Ans_got (if get_status 0 r = status_code OK then Some (drop sizeof_RequestReply r) else None)
      | Call_delete key \<Rightarrow> a = Ans_deleted (get_status 0 r = status_code OK)
      | _ \<Rightarrow> a = Ans_done)"

text \<open>The fields, key and value as one write.\<close>

lemma lay_out_request:
  assumes "RING_HEADER + sizeof_Request + length key + length val \<le> length m"
  shows "mwrite (mwrite (set_val_size RING_HEADER (of_nat (length val))
      (set_key_size RING_HEADER (length key) (set_op RING_HEADER opr m))) (RING_HEADER + sizeof_Request) key)
      (RING_HEADER + sizeof_Request + length key) val
    = mwrite m RING_HEADER (request_image opr key val)"
proof -
  note adj = mwrite_mwrite_adjacent [of 8]
  have l: "16 + length key + length val \<le> length m" using assms by (simp add: RING_HEADER_def sizeof_Request_def)
  have "mwrite (mwrite m 8 [op_code opr]) 9 (le_bytes 3 (length key)) = mwrite m 8 ([op_code opr] @ le_bytes 3 (length key))"
    using adj [of "[op_code opr]" "le_bytes 3 (length key)" m] l by simp
  moreover have "mwrite (mwrite m 8 ([op_code opr] @ le_bytes 3 (length key))) 12 (le32 (of_nat (length val)))
      = mwrite m 8 (([op_code opr] @ le_bytes 3 (length key)) @ le32 (of_nat (length val)))"
    using adj [of "[op_code opr] @ le_bytes 3 (length key)" "le32 (of_nat (length val))" m] l by simp
  moreover have "mwrite (mwrite m 8 (([op_code opr] @ le_bytes 3 (length key)) @ le32 (of_nat (length val)))) 16 key
      = mwrite m 8 ((([op_code opr] @ le_bytes 3 (length key)) @ le32 (of_nat (length val))) @ key)"
    using adj [of "([op_code opr] @ le_bytes 3 (length key)) @ le32 (of_nat (length val))" key m] l by simp
  moreover have "mwrite (mwrite m 8 ((([op_code opr] @ le_bytes 3 (length key)) @ le32 (of_nat (length val))) @ key)) (16 + length key) val
      = mwrite m 8 (((([op_code opr] @ le_bytes 3 (length key)) @ le32 (of_nat (length val))) @ key) @ val)"
    using adj [of "(([op_code opr] @ le_bytes 3 (length key)) @ le32 (of_nat (length val))) @ key" val m] l by simp
  ultimately show ?thesis
    by (simp add: set_op_def set_key_size_def set_val_size_def RING_HEADER_def sizeof_Request_def request_image_def)
qed

lemma lay_out_reply:
  assumes "RING_HEADER + sizeof_RequestReply + length val \<le> length m"
  shows "mwrite (set_val_size RING_HEADER (of_nat (length val)) (set_status RING_HEADER st m)) (RING_HEADER + sizeof_RequestReply) val
    = mwrite m RING_HEADER (reply_image st val)"
proof -
  note adj = mwrite_mwrite_adjacent [of 8]
  have l: "16 + length val \<le> length m" using assms by (simp add: RING_HEADER_def sizeof_RequestReply_def)
  have "mwrite (mwrite m 8 (le32 (status_code st))) 12 (le32 (of_nat (length val)))
      = mwrite m 8 (le32 (status_code st) @ le32 (of_nat (length val)))"
    using adj [of "le32 (status_code st)" "le32 (of_nat (length val))" m] l by simp
  moreover have "mwrite (mwrite m 8 (le32 (status_code st) @ le32 (of_nat (length val)))) 16 val
      = mwrite m 8 ((le32 (status_code st) @ le32 (of_nat (length val))) @ val)"
    using adj [of "le32 (status_code st) @ le32 (of_nat (length val))" val m] l by simp
  ultimately show ?thesis
    by (simp add: set_status_def set_val_size_def RING_HEADER_def sizeof_RequestReply_def reply_image_def)
qed

section \<open>The client lays out a request\<close>

text \<open>The client's host with a request laid out and the two writes of it queued.\<close>

definition laid_out :: "bytes \<Rightarrow> host \<Rightarrow> host" where
  "laid_out img h = h\<lparr>write_mem := mwrite (write_mem h) RING_HEADER img\<rparr>"

lemma u16_exact: "n \<le> 8192 \<Longrightarrow> unat (of_nat n :: u16) = n"
  by (simp add: unat_of_nat take_bit_nat_eq_self)

lemma ucast_of_nat_u16: "n \<le> 8192 \<Longrightarrow> (ucast (of_nat n :: u16) :: u32) = of_nat n"
  by (rule word_unat_eq_iff [THEN iffD2]) (simp add: unsigned_ucast_eq unat_of_nat take_bit_nat_eq_self)

lemma load_whole [simp]: "load d 0 (length d) = Some d"
  by (simp add: load_def)

lemma post_two:
  assumes "verbs_ok v" "send_queue h = []"
  shows "do { (h, _) \<leftarrow> post_write v None n lo ro False h; (h, _) \<leftarrow> post_write v None m lo' ro' True h; Some h }
    = Some (h\<lparr>send_queue := [queued h (wr_ww h n lo ro False), queued h (wr_ww h m lo' ro' True)]\<rparr>)"
  using assms by (simp add: post_write_queues MAX_QP_DEPTH_def)

definition sent :: "bytes \<Rightarrow> host \<Rightarrow> host" where
  "sent img h = (let h = laid_out img h in h\<lparr>send_queue :=
     [queued h (wr_ww h (length img) RING_HEADER RING_HEADER False), queued h (wr_ww h 4 0 0 True)]\<rparr>)"

lemma SendWrite_sent:
  assumes v: "verbs_ok v" "send_queue h = []" "length (write_mem h) = sync_buf_size"
    and f: "0 \<notin> set key" "0 \<notin> set val" "sizeof_Request + (length key + length val) \<le> MAX_REQUEST"
  shows "SyncClient_SendWrite v key val opr h = Some (sent (request_image opr key val) h)"
proof -
  have b: "length key \<le> 8192" "length val \<le> 8192" "8 + length key + length val \<le> 8192"
    "RING_HEADER + sizeof_Request + length key + length val \<le> length (write_mem h)"
    using f(3) v(3) by (simp_all add: sizeof_Request_def MAX_REQUEST_def sync_buf_size_def RING_HEADER_def)
  show ?thesis
    unfolding SyncClient_SendWrite_def Let_def sent_def
    using f(1,2) b(4) lay_out_request [OF b(4), of opr] post_two [OF v(1), of "laid_out (request_image opr key val) h"] v(2)
    by (simp add: u16_exact [OF b(1)] u16_exact [OF b(2)] u16_exact [OF b(3)] ucast_of_nat_u16 [OF b(2)] laid_out_def
        set_op_def set_key_size_def set_val_size_def sizeof_Request_def del: of_nat_add)
qed

lemma SendKey_sent:
  assumes v: "verbs_ok v" "send_queue h = []" "length (write_mem h) = sync_buf_size"
    and f: "0 \<notin> set key" "sizeof_Request + length key \<le> MAX_REQUEST"
  shows "SyncClient_SendKey v key opr h = Some (sent (request_image opr key []) h)"
proof -
  have b: "length key \<le> 8192" "8 + length key \<le> 8192"
    "RING_HEADER + sizeof_Request + length key + length ([] :: bytes) \<le> length (write_mem h)"
    using f(2) v(3) by (simp_all add: sizeof_Request_def MAX_REQUEST_def sync_buf_size_def RING_HEADER_def)
  show ?thesis
    unfolding SyncClient_SendKey_def Let_def sent_def
    using f(1) b(3) lay_out_request [OF b(3), of opr] post_two [OF v(1), of "laid_out (request_image opr key []) h"] v(2)
    by (simp add: u16_exact [OF b(1)] u16_exact [OF b(2)] laid_out_def
        set_op_def set_key_size_def set_val_size_def sizeof_Request_def del: of_nat_add)
qed

lemma SendBare_sent:
  assumes v: "verbs_ok v" "send_queue h = []" "length (write_mem h) = sync_buf_size"
  shows "SyncClient_SendBare v opr h = Some (sent (request_image opr [] []) h)"
proof -
  have b: "RING_HEADER + sizeof_Request + length ([] :: bytes) + length ([] :: bytes) \<le> length (write_mem h)"
    using v(3) by (simp add: sizeof_Request_def MAX_REQUEST_def sync_buf_size_def RING_HEADER_def)
  show ?thesis
    unfolding SyncClient_SendBare_def Let_def sent_def
    using b lay_out_request [OF b, of opr] post_two [OF v(1), of "laid_out (request_image opr [] []) h"] v(2)
    by (simp add: laid_out_def set_op_def set_key_size_def set_val_size_def sizeof_Request_def)
qed

lemma issue_sent:
  assumes "verbs_ok v" "send_queue h = []" "length (write_mem h) = sync_buf_size" "call_fits cl"
  shows "SyncClient_issue v cl h = Some (sent (call_image cl) h)"
  using assms(4) SendWrite_sent [OF assms(1-3)] SendKey_sent [OF assms(1-3)] SendBare_sent [OF assms(1-3)]
  by (cases cl) (simp_all add: call_fits_def SyncClient_SendGet_def SyncClient_SendDelete_def SyncClient_SendSync_def)

section \<open>The clerk serves a request\<close>

lemma reply_image_fields [simp]:
  "get_status 0 (reply_image st val) = status_code st" "get_val_size 0 (reply_image st val) = of_nat (length val)"
  "drop sizeof_RequestReply (reply_image st val) = val"
  using reply_fields [of "reply_image st val" 0 val st]
  by (simp_all add: mread_def)

lemma status_code_simps [simp]: "status_code OK = 0" "status_code NOTFOUND = 1" "status_code ERROR = 2"
  by (simp_all add: status_code_def)

text \<open>A buffer with a request in it.\<close>

definition holds :: "bytes \<Rightarrow> bytes \<Rightarrow> bool" where
  "holds img m \<longleftrightarrow> mread m RING_HEADER (length img) = img"

definition reply_in :: "nat \<Rightarrow> call \<Rightarrow> answer \<Rightarrow> bytes \<Rightarrow> bool" where
  "reply_in n cl a m \<longleftrightarrow> (\<exists>r. holds r m \<and> length r \<le> sizeof_RequestReply + n \<and> reply_means cl a r)"

lemma reply_inI:
  assumes "length val \<le> n" "n < 2 ^ 32" "RING_HEADER + sizeof_RequestReply + length val \<le> length m"
    "reply_means cl a (reply_image st val)"
  shows "reply_in n cl a (mwrite m RING_HEADER (reply_image st val))"
  using assms unfolding reply_in_def holds_def
  by (intro exI [of _ "reply_image st val"]) (simp add: mread_mwrite_same)

lemma header_mwrite [simp]: "RING_HEADER \<le> length m \<Longrightarrow> header (mwrite m RING_HEADER d) = header m"
  by (simp add: header_def mread_mwrite_before RING_HEADER_def)

lemma lay_out_reply_0:
  assumes "RING_HEADER + sizeof_RequestReply \<le> length m"
  shows "set_val_size RING_HEADER 0 (set_status RING_HEADER st m) = mwrite m RING_HEADER (reply_image st [])"
  using lay_out_reply [of "[]" m st] assms by (simp add: set_val_size_def set_status_def RING_HEADER_def sizeof_RequestReply_def)

lemma reply_means_simps:
  "reply_means (Call_put k x) Ans_done (reply_image st [])" "reply_means (Call_update k x) Ans_done (reply_image st [])"
  "reply_means (Call_get k) (Ans_got None) (reply_image NOTFOUND [])"
  "length val < 2 ^ 32 \<Longrightarrow> reply_means (Call_get k) (Ans_got (Some val)) (reply_image OK val)"
  "reply_means (Call_delete k) (Ans_deleted b) (reply_image (if b then OK else NOTFOUND) [])"
  by (simp_all add: reply_means_def unat_of_nat_len)

lemma reply_means_sync: "reply_means Call_sync Ans_done (request_image SYNC [] [])"
  by (simp add: reply_means_def request_image_def get_val_size_def mread_def sizeof_Request_def sizeof_RequestReply_def)

context kv_store
begin

lemma clerk_put_ok:
  assumes d: "ok (Suc n) d" and m: "holds (request_image opr key val) m" "sync_buf_size \<le> length m"
    and f: "fits MAX_REQUEST" "sizeof_Request + (length key + length val) \<le> MAX_REQUEST"
  shows "(\<exists>e. clerk_put ops m d = Serve_fail e) \<or>
    (\<exists>d'. clerk_put ops m d = Served (mwrite m RING_HEADER (reply_image OK [])) d' \<and> ok n d' \<and>
       contents d' = (contents d)(key \<mapsto> val))"
proof -
  have l: "length key < 2 ^ 24" "length val < 2 ^ 32" "RING_HEADER + sizeof_Request + length key + length val \<le> length m"
    "RING_HEADER + sizeof_RequestReply \<le> length m" "unat (of_nat (length val) :: u32) = length val"
    using f(2) m(2)
    by (auto simp: sizeof_Request_def MAX_REQUEST_def sync_buf_size_def RING_HEADER_def sizeof_RequestReply_def intro!: unat_of_nat_len)
  have "mread m RING_HEADER (sizeof_Request + length key + length val) = request_image opr key val"
    using m(1) by (simp add: holds_def)
  note r = request_fields [OF this l(1,2)]
  have "fits (length key + length val)" using fits_mono [OF f(1)] f(2) by simp
  from put_ok [OF d this] r l show ?thesis
    by (auto simp: clerk_put_def Let_def lay_out_reply_0)
qed

lemma key_request:
  assumes m: "holds (request_image opr key []) m" "sync_buf_size \<le> length m" "sizeof_Request + length key \<le> MAX_REQUEST"
  shows "load m (RING_HEADER + sizeof_Request) (get_key_size RING_HEADER m) = Some key"
proof -
  have l: "length key < 2 ^ 24" "length ([] :: bytes) < 2 ^ 32" "RING_HEADER + sizeof_Request + length key \<le> length m"
    using m(2,3) by (auto simp: sizeof_Request_def MAX_REQUEST_def sync_buf_size_def RING_HEADER_def)
  have "mread m RING_HEADER (sizeof_Request + length key + length ([] :: bytes)) = request_image opr key []"
    using m(1) by (simp add: holds_def)
  note r = request_fields [OF this l(1,2)]
  with l(3) show ?thesis by simp
qed

lemma clerk_get_ok:
  assumes d: "ok n d" "small_values vm (contents d)" and m: "holds (request_image GET key []) m" "sync_buf_size \<le> length m"
    and f: "sizeof_Request + length key \<le> MAX_REQUEST" "sizeof_RequestReply + vm \<le> MAX_REQUEST"
  shows "\<exists>d' m'. clerk_get ops m d = Served m' d' \<and> ok n d' \<and> contents d' = contents d \<and>
    length m' = length m \<and> header m' = header m \<and> reply_in vm (Call_get key) (Ans_got (contents d key)) m'"
proof -
  note k = key_request [OF m f(1)]
  obtain d' where d': "db_get ops d key = Inr (d', contents d key)" "ok n d'" "contents d' = contents d"
    using get_ok [OF d(1)] by blast
  have vm: "vm < 2 ^ 32" using f(2) by (simp add: sizeof_RequestReply_def MAX_REQUEST_def)
  have l: "RING_HEADER + sizeof_RequestReply + vm \<le> length m" "RING_HEADER \<le> length m"
    using f(2) m(2) by (auto simp: sizeof_RequestReply_def MAX_REQUEST_def sync_buf_size_def RING_HEADER_def)
  show ?thesis
  proof (cases "contents d key")
    case None
    have "reply_in vm (Call_get key) (Ans_got None) (mwrite m RING_HEADER (reply_image NOTFOUND []))"
      by (rule reply_inI) (use l vm in \<open>simp_all add: reply_means_simps\<close>)
    with None k d' l show ?thesis by (simp add: clerk_get_def lay_out_reply_0)
  next
    case (Some val)
    have v: "length val \<le> vm" using d(2) Some by (auto simp: small_values_def)
    then have v': "RING_HEADER + sizeof_RequestReply + length val \<le> length m" "unat (of_nat (length val) :: u32) = length val"
      using l vm by (auto intro!: unat_of_nat_len)
    have mc: "memcpy (set_val_size RING_HEADER (of_nat (length val)) (set_status RING_HEADER OK m)) (RING_HEADER + sizeof_RequestReply) val
        = Some (mwrite m RING_HEADER (reply_image OK val))"
      using v'(1) lay_out_reply [OF v'(1), of OK] by (simp add: set_val_size_def set_status_def RING_HEADER_def sizeof_RequestReply_def)
    have "reply_in vm (Call_get key) (Ans_got (Some val)) (mwrite m RING_HEADER (reply_image OK val))"
      by (rule reply_inI) (use v v' vm in \<open>simp_all add: reply_means_simps\<close>)
    with Some k d' l v' mc show ?thesis by (simp add: clerk_get_def Let_def)
  qed
qed

lemma clerk_delete_ok:
  assumes d: "ok n d" and m: "holds (request_image DELETE key []) m" "sync_buf_size \<le> length m"
    and f: "sizeof_Request + length key \<le> MAX_REQUEST"
  shows "\<exists>d'. clerk_delete ops m d = Served (mwrite m RING_HEADER (reply_image (if contents d key \<noteq> None then OK else NOTFOUND) [])) d' \<and>
    ok n d' \<and> contents d' = (contents d)(key := None)"
proof -
  note k = key_request [OF m f]
  obtain d' where d': "db_delete ops d key = Inr (d', contents d key \<noteq> None)" "ok n d'" "contents d' = (contents d)(key := None)"
    using delete_ok [OF d] by blast
  have "RING_HEADER + sizeof_RequestReply \<le> length m"
    using m(2) by (auto simp: sizeof_RequestReply_def MAX_REQUEST_def sync_buf_size_def RING_HEADER_def)
  with k d' show ?thesis by (simp add: clerk_delete_def lay_out_reply_0)
qed

lemma call_op:
  assumes "holds (call_image cl) m"
  shows "get_op RING_HEADER m = Some (case cl of Call_put _ _ \<Rightarrow> PUT | Call_update _ _ \<Rightarrow> UPDATE | Call_get _ \<Rightarrow> GET
    | Call_delete _ \<Rightarrow> DELETE | Call_sync \<Rightarrow> SYNC)"
proof -
  have "mread m RING_HEADER 1 = mread (call_image cl) 0 1"
    using mread_mread [of 0 1 "length (call_image cl)" m RING_HEADER] assms
    by (simp add: holds_def length_call_image sizeof_Request_def)
  then show ?thesis by (cases cl) (simp_all add: get_op_def request_image_def mread_def)
qed

text \<open>The answer a clerk lays out is the one the map gives.\<close>

lemma serve_ok:
  assumes d: "ok (Suc n) d" "small_values vm (contents d)" and m: "holds (call_image cl) m" "sync_buf_size \<le> length m"
    and f: "fits MAX_REQUEST" "call_fits cl" "sizeof_RequestReply + vm \<le> MAX_REQUEST"
  shows "(\<exists>e. SyncClerk_serve ops m d = Serve_fail e) \<or>
    (\<exists>m' d'. SyncClerk_serve ops m d = Served m' d' \<and> ok n d' \<and> contents d' = fst (spec_call cl (contents d)) \<and>
       length m' = length m \<and> header m' = header m \<and> reply_in vm cl (snd (spec_call cl (contents d))) m')"
proof -
  note opr = call_op [OF m(1)]
  have size: "sizeof_Request + call_size cl \<le> MAX_REQUEST" using f(2) by (simp add: call_fits_def)
  have l: "RING_HEADER + sizeof_RequestReply + length ([] :: bytes) \<le> length m" "RING_HEADER \<le> length m"
    "RING_HEADER + sizeof_RequestReply \<le> length m"
    using m(2) by (auto simp: sizeof_RequestReply_def MAX_REQUEST_def sync_buf_size_def RING_HEADER_def)
  have vm: "vm < 2 ^ 32" using f(3) by (simp add: sizeof_RequestReply_def MAX_REQUEST_def)
  note ri = reply_inI [OF _ vm l(1)] and d1 = ok_Suc [OF d(1)]
  show ?thesis
  proof (cases cl)
    case (Call_put key val)
    have r: "reply_in vm cl Ans_done (mwrite m RING_HEADER (reply_image OK []))"
      using Call_put by (intro ri) (simp_all add: reply_means_simps)
    from clerk_put_ok [OF d(1) _ m(2) f(1), of PUT key val] m(1) size Call_put show ?thesis
      using opr l r by (auto simp: SyncClerk_serve_def)
  next
    case (Call_update key val)
    have r: "reply_in vm cl Ans_done (mwrite m RING_HEADER (reply_image OK []))"
      using Call_update by (intro ri) (simp_all add: reply_means_simps)
    from clerk_put_ok [OF d(1) _ m(2) f(1), of UPDATE key val] m(1) size Call_update show ?thesis
      using opr l r by (auto simp: SyncClerk_serve_def)
  next
    case (Call_get key)
    from clerk_get_ok [OF d1 d(2) _ m(2) _ f(3), of key] m(1) size Call_get show ?thesis
      using opr by (auto simp: SyncClerk_serve_def)
  next
    case (Call_delete key)
    have r: "reply_in vm cl (Ans_deleted b) (mwrite m RING_HEADER (reply_image (if b then OK else NOTFOUND) []))" for b
      using Call_delete by (intro ri) (simp_all only: reply_means_simps list.size)
    from clerk_delete_ok [OF d1 _ m(2), of key] m(1) size Call_delete show ?thesis
      using opr l r [of "contents d key \<noteq> None"] by (auto simp: SyncClerk_serve_def)
  next
    case Call_sync
    have r: "reply_in vm cl Ans_done m"
      unfolding reply_in_def using m(1) Call_sync reply_means_sync
      by (intro exI [of _ "request_image SYNC [] []"]) (simp add: sizeof_Request_def sizeof_RequestReply_def)
    from set_sync_ok [OF d1] show ?thesis using opr r Call_sync by (simp add: SyncClerk_serve_def)
  qed
qed

end

section \<open>The client reads a reply\<close>

lemma finish_reply:
  assumes r: "reply_in n cl a m" and l: "length m = sync_buf_size" "sizeof_RequestReply + n \<le> MAX_REQUEST"
  shows "SyncClient_finish cl m = Some (set_header CLIENT_DONE m, a)"
proof -
  obtain r where r: "holds r m" "length r \<le> sizeof_RequestReply + n" "reply_means cl a r"
    using r by (auto simp: reply_in_def)
  let ?m = "set_header CLIENT_DONE m"
  have len: "length r = sizeof_RequestReply + unat (get_val_size 0 r)" using r(3) by (simp add: reply_means_def)
  have hd: "mread ?m p q = mread m p q" if "4 \<le> p" for p q
    using that by (simp add: set_header_def mread_mwrite_after)
  have sub: "mread ?m (RING_HEADER + b) c = mread r b c" if "b + c \<le> length r" for b c
    using mread_mread [OF that, of m RING_HEADER] r(1) hd [of "RING_HEADER + b" c] by (simp add: holds_def RING_HEADER_def)
  have st: "get_status RING_HEADER ?m = get_status 0 r" "get_val_size RING_HEADER ?m = get_val_size 0 r"
    using sub [of 0 4] sub [of 4 4] len by (simp_all add: get_status_def get_val_size_def sizeof_RequestReply_def)
  have "mread ?m (RING_HEADER + sizeof_RequestReply) (unat (get_val_size 0 r)) = drop sizeof_RequestReply r"
    using sub [of sizeof_RequestReply "unat (get_val_size 0 r)"] len by (simp add: mread_def)
  moreover have "RING_HEADER + sizeof_RequestReply + unat (get_val_size 0 r) \<le> length ?m"
    using len r(2) l by (simp add: sync_buf_size_def RING_HEADER_def MAX_REQUEST_def)
  ultimately have "load ?m (RING_HEADER + sizeof_RequestReply) (unat (get_val_size 0 r)) = Some (drop sizeof_RequestReply r)"
    by simp
  with st r(3) show ?thesis by (cases cl) (auto simp: reply_means_def Let_def)
qed

end
