(* ===== verification/Mailbox.thy ===== *)
theory Mailbox
  imports Sync_Front
begin

text \<open>
  The protocol of the two header words, for every front end that follows it: a connection
  passes through the phases of \<open>Front\<close>, whatever the order in which the client, the clerk
  and the two adapters take their steps. The locale \<open>mailbox\<close> states what the protocol needs
  of the client's and the clerk's code and of the writes they post, and gives the contract
  \<open>front_end\<close>.
\<close>

section \<open>The protocol\<close>

text \<open>
  What the protocol of the two header words asks of a front end. The clerk's buffer is
  \<open>box\<close>; \<open>req\<close> and \<open>rep\<close> are the writes of the client into it and of the clerk out of it.
  Between the request and its header a client may have other writes (\<open>extra\<close>) that leave the
  box alone. The laws are those of the two writes, and that client and clerk do their
  parts in the box.
\<close>

definition linked :: "verbs \<Rightarrow> (host \<Rightarrow> bytes) \<Rightarrow> host \<Rightarrow> host \<Rightarrow> bool" where
  "linked v box a b \<longleftrightarrow> verbs_ok v \<and> host_ok a \<and> host_ok b \<and> knows a b \<and> knows b a \<and>
     length (write_mem a) = sync_buf_size \<and> sync_buf_size \<le> length (box b)"

locale request_store = kv_store +
  assumes fits_request: "fits MAX_REQUEST"

locale mailbox = request_store ops ok contents fits
  for ops :: "'d DBType" and ok contents fits +
  fixes v :: verbs
    and fe :: "('c, host, 'd) front"
    and box :: "host \<Rightarrow> bytes"
    and set_box :: "bytes \<Rightarrow> host \<Rightarrow> host"
    and req rep :: "host \<Rightarrow> nat \<Rightarrow> nat \<Rightarrow> nat \<Rightarrow> bool \<Rightarrow> ibv_send_wr"
    and extra :: "host \<Rightarrow> host \<Rightarrow> ibv_send_wr \<times> bytes option \<Rightarrow> bool"
    and side_ok :: "'c \<Rightarrow> host \<Rightarrow> bool"
    and allowed :: "call \<Rightarrow> bool"
    and val_max :: nat
  assumes val_max: "sizeof_RequestReply + val_max \<le> MAX_REQUEST"
    and allowed: "allowed cl \<Longrightarrow> call_fits cl \<and> call_values val_max cl"
    and box_set: "box (set_box m h) = m"
    and box_frame: "send_queue (set_box m h) = send_queue h" "out_cq (set_box m h) = out_cq h"
      "box (h\<lparr>send_queue := q\<rparr>) = box h" "box (h\<lparr>out_cq := cq\<rparr>) = box h"
    and box_linked: "linked v box a b \<Longrightarrow> length m = length (box b) \<Longrightarrow> linked v box a (set_box m b)"
    and rep_frame: "rep (h\<lparr>send_queue := q\<rparr>) = rep h" "rep (h\<lparr>out_cq := cq\<rparr>) = rep h"
    and req_frame: "req (h\<lparr>send_queue := q\<rparr>) = req h" "req (h\<lparr>out_cq := cq\<rparr>) = req h"
    and extra_frame: "extra (a\<lparr>send_queue := q\<rparr>) = extra a" "extra (a\<lparr>out_cq := cq\<rparr>) = extra a"
      "length m = length (box b) \<Longrightarrow> extra a (set_box m b) = extra a b"
      "extra a (b\<lparr>send_queue := q\<rparr>) = extra a b" "extra a (b\<lparr>out_cq := cq\<rparr>) = extra a b"
    and side_frame: "side_ok (set_client_host fe h c) = side_ok c"
      "length m = length (box b) \<Longrightarrow> side_ok c (set_box m b) = side_ok c b"
      "side_ok c (b\<lparr>send_queue := q\<rparr>) = side_ok c b" "side_ok c (b\<lparr>out_cq := cq\<rparr>) = side_ok c b"
    and exec_req: "linked v box a b \<Longrightarrow> send_queue a = queued a (req a n lo ro sig) # q \<Longrightarrow>
      lo + n \<le> sync_buf_size \<Longrightarrow> ro + n \<le> sync_buf_size \<Longrightarrow>
      execute v a b = (a\<lparr>send_queue := q, out_cq := out_cq a @ (if sig then [True] else [])\<rparr>,
        set_box (mwrite (box b) ro (mread (write_mem a) lo n)) b)"
    and exec_rep: "linked v box a b \<Longrightarrow> send_queue b = queued b (rep b n lo ro sig) # q \<Longrightarrow>
      lo + n \<le> sync_buf_size \<Longrightarrow> ro + n \<le> sync_buf_size \<Longrightarrow> 0 < n \<Longrightarrow> n \<le> sizeof_RequestReply + val_max \<Longrightarrow>
      execute v b a = (b\<lparr>send_queue := q, out_cq := out_cq b @ (if sig then [True] else [])\<rparr>,
        a\<lparr>write_mem := mwrite (write_mem a) ro (mread (box b) lo n)\<rparr>)"
    and exec_extra: "linked v box a b \<Longrightarrow> extra a b e \<Longrightarrow> send_queue a = e # q \<Longrightarrow>
      \<exists>b'. execute v a b = (a\<lparr>send_queue := q\<rparr>, b') \<and> linked v box a b' \<and> box b' = box b \<and>
        send_queue b' = send_queue b \<and> out_cq b' = out_cq b \<and> extra a b' = extra a b \<and> (\<forall>c. side_ok c b' = side_ok c b)"
    and hosts: "client_host fe (set_client_host fe h c) = h" "clerk_host fe k = k" "set_clerk_host fe h k = h"
    and ready: "client_ready fe c \<longleftrightarrow> header (write_mem (client_host fe c)) = CLERK_DONE"
      "clerk_ready fe k \<longleftrightarrow> header (box k) = CLIENT_DONE"
    and issue_law: "linked v box (client_host fe c) k \<Longrightarrow> side_ok c k \<Longrightarrow> send_queue (client_host fe c) = [] \<Longrightarrow> allowed cl \<Longrightarrow>
      \<exists>c' es. issue fe cl c = Some c' \<and> side_ok c' k \<and>
        list_all (extra (laid_out (call_image cl) (client_host fe c)) k) es \<and> length es \<le> 1 \<and>
        client_host fe c' = (let h = laid_out (call_image cl) (client_host fe c) in h\<lparr>send_queue :=
          queued h (req h (length (call_image cl)) RING_HEADER RING_HEADER False) # es @ [queued h (req h 4 0 0 True)]\<rparr>)"
    and handle_served: "verbs_ok v \<Longrightarrow> send_queue k = [] \<Longrightarrow>
      SyncClerk_serve ops (set_header CLERK_DONE (box k)) d = Served m d' \<Longrightarrow>
      handle fe k d = Answered (let h = set_box m k in h\<lparr>send_queue :=
        [queued h (rep h (sizeof_RequestReply + unat (get_val_size RING_HEADER m)) RING_HEADER RING_HEADER False),
         queued h (rep h 4 0 0 True)]\<rparr>) d'"
    and handle_failed: "SyncClerk_serve ops (set_header CLERK_DONE (box k)) d = Serve_fail err \<Longrightarrow> handle fe k d = Crash err"
    and finish_law: "finish fe cl c = map_option (\<lambda>(m, a). (set_client_host fe ((client_host fe c)\<lparr>write_mem := m\<rparr>) c, a))
      (SyncClient_finish cl (write_mem (client_host fe c)))"
begin

text \<open>The phases of a call, as states of the two hosts.\<close>

definition clerk_quiet :: "('c, host) conn \<Rightarrow> bool" where
  "clerk_quiet cn \<longleftrightarrow> send_queue (clerk cn) = [] \<and>
     ((clerk_pc cn = K_wait \<and> out_cq (clerk cn) = []) \<or> (clerk_pc cn = K_poll \<and> out_cq (clerk cn) = [True]))"

definition client_waits :: "call \<Rightarrow> ('c, host) conn \<Rightarrow> bool" where
  "client_waits cl cn \<longleftrightarrow> send_queue (client_host fe (client cn)) = [] \<and>
     ((client_pc cn = C_poll cl \<and> out_cq (client_host fe (client cn)) = [True]) \<or>
      (client_pc cn = C_wait cl \<and> out_cq (client_host fe (client cn)) = []))"

definition req_queue :: "call \<Rightarrow> host \<Rightarrow> host \<Rightarrow> bool" where
  "req_queue cl a b \<longleftrightarrow> (\<exists>es. list_all (extra a b) es \<and> length es \<le> 1 \<and>
     (send_queue a = queued a (req a (length (call_image cl)) RING_HEADER RING_HEADER False) # es @ [queued a (req a 4 0 0 True)] \<or>
      holds (call_image cl) (box b) \<and> send_queue a = es @ [queued a (req a 4 0 0 True)]))"

definition rep_queue :: "call \<Rightarrow> answer \<Rightarrow> host \<Rightarrow> host \<Rightarrow> bool" where
  "rep_queue cl x a b \<longleftrightarrow> (\<exists>r. holds r (box b) \<and> length r \<le> sizeof_RequestReply + val_max \<and> reply_means cl x r \<and>
     (send_queue b = [queued b (rep b (length r) RING_HEADER RING_HEADER False), queued b (rep b 4 0 0 True)] \<or>
      holds r (write_mem a) \<and> send_queue b = [queued b (rep b 4 0 0 True)]))"

fun mb_phase :: "phase \<Rightarrow> ('c, host) conn \<Rightarrow> host \<Rightarrow> host \<Rightarrow> bool" where
  "mb_phase Idle cn a b \<longleftrightarrow> client_pc cn = C_idle \<and> send_queue a = [] \<and> out_cq a = [] \<and>
     header (write_mem a) = CLIENT_DONE \<and> clerk_quiet cn \<and> header (box b) \<noteq> CLIENT_DONE"
| "mb_phase (Sending cl) cn a b \<longleftrightarrow> allowed cl \<and> client_pc cn = C_poll cl \<and> out_cq a = [] \<and>
     header (write_mem a) = CLIENT_DONE \<and> holds (call_image cl) (write_mem a) \<and> clerk_quiet cn \<and>
     header (box b) \<noteq> CLIENT_DONE \<and> req_queue cl a b"
| "mb_phase (Arrived cl) cn a b \<longleftrightarrow> allowed cl \<and> client_waits cl cn \<and> header (write_mem a) = CLIENT_DONE \<and>
     clerk_quiet cn \<and> header (box b) = CLIENT_DONE \<and> holds (call_image cl) (box b)"
| "mb_phase (Replying cl x) cn a b \<longleftrightarrow> client_waits cl cn \<and> header (write_mem a) = CLIENT_DONE \<and>
     clerk_pc cn = K_poll \<and> out_cq b = [] \<and> header (box b) = CLERK_DONE \<and> rep_queue cl x a b"
| "mb_phase (Replied cl x) cn a b \<longleftrightarrow> client_waits cl cn \<and> header (write_mem a) = CLERK_DONE \<and>
     reply_in val_max cl x (write_mem a) \<and> clerk_quiet cn \<and> header (box b) \<noteq> CLIENT_DONE"

definition mb_ok :: "phase \<Rightarrow> ('c, host) conn \<Rightarrow> bool" where
  "mb_ok ph cn \<longleftrightarrow> linked v box (client_host fe (client cn)) (clerk cn) \<and> side_ok (client cn) (clerk cn) \<and>
     mb_phase ph cn (client_host fe (client cn)) (clerk cn)"

definition mb_work :: "('c, host) conn \<Rightarrow> nat" where
  "mb_work cn = 10 * length (send_queue (client_host fe (client cn))) +
     (if header (box (clerk cn)) = CLIENT_DONE then 6 else 0) + length (send_queue (clerk cn)) +
     (if clerk_pc cn = K_poll then 1 else 0) + (case client_pc cn of C_poll _ \<Rightarrow> 1 | _ \<Rightarrow> 0)"

lemmas frames = box_set box_frame rep_frame req_frame extra_frame side_frame hosts

lemma call_size_le: "allowed cl \<Longrightarrow> RING_HEADER + length (call_image cl) \<le> sync_buf_size"
  using allowed [of cl] by (simp add: call_fits_def length_call_image sync_buf_size_def)

lemma linked_simps [simp]:
  "linked v box (a\<lparr>send_queue := q\<rparr>) b = linked v box a b" "linked v box (a\<lparr>out_cq := cq\<rparr>) b = linked v box a b"
  "linked v box a (b\<lparr>send_queue := q\<rparr>) = linked v box a b" "linked v box a (b\<lparr>out_cq := cq\<rparr>) = linked v box a b"
  by (simp_all add: linked_def frames)

lemma linked_mem: "linked v box a b \<Longrightarrow> length m = length (write_mem a) \<Longrightarrow> linked v box (a\<lparr>write_mem := m\<rparr>) b"
  by (simp add: linked_def host_ok_mem)

lemma linked_len: "linked v box a b \<Longrightarrow> length (write_mem a) = sync_buf_size \<and> sync_buf_size \<le> length (box b)"
  by (simp add: linked_def)

lemma buf_bounds: "4 \<le> sync_buf_size" "RING_HEADER \<le> sync_buf_size" "4 \<le> RING_HEADER" "0 < sizeof_RequestReply" "4 \<le> sizeof_RequestReply"
  by (simp_all add: sync_buf_size_def RING_HEADER_def MAX_REQUEST_def sizeof_RequestReply_def)

lemma header_word: "4 \<le> length m \<Longrightarrow> header (mwrite m 0 (mread m' 0 4)) = header m'" if "4 \<le> length m'"
  using that by (simp add: header_def mread_mwrite_same)

lemma holds_header: "holds img m \<Longrightarrow> length d = 4 \<Longrightarrow> 4 \<le> length m \<Longrightarrow> holds img (mwrite m 0 d)"
  by (simp add: holds_def mread_mwrite_after RING_HEADER_def)

lemma mb_issue:
  assumes ok: "mb_ok Idle cn" and cl: "allowed cl"
  shows "\<exists>c. issue fe cl (client cn) = Some c \<and> mb_ok (Sending cl) (cn\<lparr>client := c, client_pc := C_poll cl\<rparr>)"
proof -
  let ?a = "client_host fe (client cn)" and ?h = "laid_out (call_image cl) (client_host fe (client cn))"
  have L: "linked v box ?a (clerk cn)" and S: "side_ok (client cn) (clerk cn)" and q: "send_queue ?a = []" "out_cq ?a = []"
    and hd: "header (write_mem ?a) = CLIENT_DONE" and k: "clerk_quiet cn" "header (box (clerk cn)) \<noteq> CLIENT_DONE"
    using ok by (auto simp: mb_ok_def)
  obtain c es where c: "issue fe cl (client cn) = Some c" "side_ok c (clerk cn)" "list_all (extra ?h (clerk cn)) es" "length es \<le> 1"
    "client_host fe c = ?h\<lparr>send_queue := queued ?h (req ?h (length (call_image cl)) RING_HEADER RING_HEADER False) # es
       @ [queued ?h (req ?h 4 0 0 True)]\<rparr>"
    using issue_law [OF L S q(1) cl] by (auto simp: Let_def)
  have len: "length (write_mem ?a) = sync_buf_size" using linked_len [OF L] by simp
  have b: "RING_HEADER + length (call_image cl) \<le> length (write_mem ?a)" using call_size_le [OF cl] len by simp
  then have hl: "holds (call_image cl) (write_mem ?h)" "header (write_mem ?h) = CLIENT_DONE" "length (write_mem ?h) = length (write_mem ?a)"
    using hd by (simp_all add: laid_out_def holds_def mread_mwrite_same)
  have "linked v box ?h (clerk cn)" unfolding laid_out_def by (rule linked_mem [OF L]) (use b in simp)
  moreover have "req_queue cl (client_host fe c) (clerk cn)"
    unfolding req_queue_def c(5) using c(3,4) by (intro exI [of _ es]) (simp add: frames)
  ultimately show ?thesis
    using c(1,2,5) hl k cl q by (intro exI [of _ c]) (simp add: mb_ok_def clerk_quiet_def laid_out_def)
qed

lemma poll_Some:
  assumes "verbs_ok v" "poll_one_completion v True h = Some (h', ret)"
  shows "\<exists>x cs. out_cq h = x # cs \<and> h' = h\<lparr>out_cq := cs\<rparr>"
  using assms by (auto simp: poll_simps split: list.splits)

lemma mb_client_poll:
  assumes ok: "mb_ok ph cn" and pc: "client_pc cn = C_poll cl"
    and p: "poll_one_completion v True (client_host fe (client cn)) = Some (h, ret)"
  shows "mb_ok ph (cn\<lparr>client := set_client_host fe h (client cn), client_pc := C_wait cl\<rparr>) \<and>
    mb_work (cn\<lparr>client := set_client_host fe h (client cn), client_pc := C_wait cl\<rparr>) < mb_work cn"
proof -
  have "verbs_ok v" using ok by (simp add: mb_ok_def linked_def)
  from poll_Some [OF this p] obtain x cs where h: "out_cq (client_host fe (client cn)) = x # cs"
    "h = (client_host fe (client cn))\<lparr>out_cq := cs\<rparr>" by blast
  have "mb_ok ph (cn\<lparr>client := set_client_host fe h (client cn), client_pc := C_wait cl\<rparr>)"
    using ok h pc by (cases ph) (auto simp: mb_ok_def frames client_waits_def clerk_quiet_def rep_queue_def)
  moreover have "mb_work (cn\<lparr>client := set_client_host fe h (client cn), client_pc := C_wait cl\<rparr>) < mb_work cn"
    using h pc by (simp add: mb_work_def frames)
  ultimately show ?thesis by blast
qed

lemma mb_clerk_poll:
  assumes ok: "mb_ok ph cn" and pc: "clerk_pc cn = K_poll"
    and p: "poll_one_completion v True (clerk_host fe (clerk cn)) = Some (h, ret)"
  shows "mb_ok ph (cn\<lparr>clerk := set_clerk_host fe h (clerk cn), clerk_pc := K_wait\<rparr>) \<and>
    mb_work (cn\<lparr>clerk := set_clerk_host fe h (clerk cn), clerk_pc := K_wait\<rparr>) < mb_work cn"
proof -
  have "verbs_ok v" using ok by (simp add: mb_ok_def linked_def)
  from poll_Some [OF this p] obtain x cs where h: "out_cq (clerk cn) = x # cs" "h = (clerk cn)\<lparr>out_cq := cs\<rparr>"
    by (auto simp: hosts)
  have "mb_ok ph (cn\<lparr>clerk := set_clerk_host fe h (clerk cn), clerk_pc := K_wait\<rparr>)"
    using ok h pc by (cases ph) (auto simp: mb_ok_def frames client_waits_def clerk_quiet_def req_queue_def)
  moreover have "mb_work (cn\<lparr>clerk := set_clerk_host fe h (clerk cn), clerk_pc := K_wait\<rparr>) < mb_work cn"
    using h pc by (simp add: mb_work_def frames)
  ultimately show ?thesis by blast
qed

text \<open>The three kinds of requests the client's adapter executes.\<close>

lemma mb_exec_request:
  assumes ok: "mb_ok (Sending cl) cn" and q: "send_queue (client_host fe (client cn)) =
      queued (client_host fe (client cn)) (req (client_host fe (client cn)) (length (call_image cl)) RING_HEADER RING_HEADER False) # qs"
    and es: "qs = es @ [queued (client_host fe (client cn)) (req (client_host fe (client cn)) 4 0 0 True)]"
      "list_all (extra (client_host fe (client cn)) (clerk cn)) es" "length es \<le> 1"
    and ex: "execute v (client_host fe (client cn)) (clerk cn) = (h, h')"
  shows "mb_ok (Sending cl) (cn\<lparr>client := set_client_host fe h (client cn), clerk := h'\<rparr>) \<and>
    mb_work (cn\<lparr>client := set_client_host fe h (client cn), clerk := h'\<rparr>) < mb_work cn"
proof -
  let ?a = "client_host fe (client cn)" and ?b = "clerk cn" and ?img = "call_image cl"
  have L: "linked v box ?a ?b" and S: "side_ok (client cn) ?b" and A: "allowed cl" "client_pc cn = C_poll cl" "out_cq ?a = []"
    "header (write_mem ?a) = CLIENT_DONE" "holds ?img (write_mem ?a)" "clerk_quiet cn" "header (box ?b) \<noteq> CLIENT_DONE"
    using ok by (auto simp: mb_ok_def)
  note len = linked_len [OF L] and sz = call_size_le [OF A(1)]
  have "execute v ?a ?b = (?a\<lparr>send_queue := qs, out_cq := out_cq ?a @ []\<rparr>, set_box (mwrite (box ?b) RING_HEADER ?img) ?b)"
    using exec_req [OF L q] sz A(5) by (simp add: holds_def)
  with ex A(3) have h: "h = ?a\<lparr>send_queue := qs\<rparr>" "h' = set_box (mwrite (box ?b) RING_HEADER ?img) ?b" by auto
  have b: "RING_HEADER + length ?img \<le> length (box ?b)" using sz len by simp
  then have m: "length (mwrite (box ?b) RING_HEADER ?img) = length (box ?b)" by simp
  have L': "linked v box h h'" unfolding h using box_linked [OF L m] by simp
  have hh: "holds ?img (box h')" "header (box h') = header (box ?b)"
    using b by (simp_all add: h box_set holds_def mread_mwrite_same)
  have rq: "req_queue cl h h'"
    unfolding req_queue_def using es hh m by (intro exI [of _ es]) (simp add: h frames)
  have "mb_ok (Sending cl) (cn\<lparr>client := set_client_host fe h (client cn), clerk := h'\<rparr>)"
    using L' rq hh A S m by (simp add: mb_ok_def frames h clerk_quiet_def)
  moreover have "mb_work (cn\<lparr>client := set_client_host fe h (client cn), clerk := h'\<rparr>) < mb_work cn"
    using q hh by (simp add: mb_work_def h frames)
  ultimately show ?thesis by blast
qed

lemma mb_exec_extra:
  assumes ok: "mb_ok (Sending cl) cn" and im: "holds (call_image cl) (box (clerk cn))"
    and q: "send_queue (client_host fe (client cn)) =
      [e, queued (client_host fe (client cn)) (req (client_host fe (client cn)) 4 0 0 True)]"
    and e: "extra (client_host fe (client cn)) (clerk cn) e"
    and ex: "execute v (client_host fe (client cn)) (clerk cn) = (h, h')"
  shows "mb_ok (Sending cl) (cn\<lparr>client := set_client_host fe h (client cn), clerk := h'\<rparr>) \<and>
    mb_work (cn\<lparr>client := set_client_host fe h (client cn), clerk := h'\<rparr>) < mb_work cn"
proof -
  let ?a = "client_host fe (client cn)" and ?b = "clerk cn"
  have L: "linked v box ?a ?b" using ok by (simp add: mb_ok_def)
  from exec_extra [OF L e q] ex have h: "h = ?a\<lparr>send_queue := [queued ?a (req ?a 4 0 0 True)]\<rparr>" "linked v box ?a h'" "box h' = box ?b"
    "send_queue h' = send_queue ?b" "out_cq h' = out_cq ?b" "\<And>c. side_ok c h' = side_ok c ?b" by auto
  have "req_queue cl h h'"
    unfolding req_queue_def using im by (intro exI [of _ "[]"]) (simp add: h(1,3) frames)
  then have "mb_ok (Sending cl) (cn\<lparr>client := set_client_host fe h (client cn), clerk := h'\<rparr>)"
    using ok h by (simp add: mb_ok_def frames clerk_quiet_def)
  moreover have "mb_work (cn\<lparr>client := set_client_host fe h (client cn), clerk := h'\<rparr>) < mb_work cn"
    using q h by (simp add: mb_work_def frames)
  ultimately show ?thesis by blast
qed

lemma mb_exec_header:
  assumes ok: "mb_ok (Sending cl) cn" and im: "holds (call_image cl) (box (clerk cn))"
    and q: "send_queue (client_host fe (client cn)) = [queued (client_host fe (client cn)) (req (client_host fe (client cn)) 4 0 0 True)]"
    and ex: "execute v (client_host fe (client cn)) (clerk cn) = (h, h')"
  shows "mb_ok (Arrived cl) (cn\<lparr>client := set_client_host fe h (client cn), clerk := h'\<rparr>) \<and>
    mb_work (cn\<lparr>client := set_client_host fe h (client cn), clerk := h'\<rparr>) < mb_work cn"
proof -
  let ?a = "client_host fe (client cn)" and ?b = "clerk cn"
  have L: "linked v box ?a ?b" and S: "side_ok (client cn) ?b" and A: "allowed cl" "client_pc cn = C_poll cl" "out_cq ?a = []"
    "header (write_mem ?a) = CLIENT_DONE" "clerk_quiet cn"
    using ok by (auto simp: mb_ok_def)
  note len = linked_len [OF L]
  let ?m = "mwrite (box ?b) 0 (mread (write_mem ?a) 0 4)"
  have "execute v ?a ?b = (?a\<lparr>send_queue := [], out_cq := [True]\<rparr>, set_box ?m ?b)"
    using exec_req [OF L q] A(3) buf_bounds by simp
  with ex have h: "h = ?a\<lparr>send_queue := [], out_cq := [True]\<rparr>" "h' = set_box ?m ?b" by auto
  have m: "length ?m = length (box ?b)" "holds (call_image cl) ?m" "header ?m = CLIENT_DONE"
    using len buf_bounds im A(4) by (simp_all add: holds_header header_word)
  have "mb_ok (Arrived cl) (cn\<lparr>client := set_client_host fe h (client cn), clerk := h'\<rparr>)"
    using box_linked [OF L m(1)] S A m by (simp add: mb_ok_def h frames client_waits_def clerk_quiet_def)
  moreover have "mb_work (cn\<lparr>client := set_client_host fe h (client cn), clerk := h'\<rparr>) < mb_work cn"
    using q by (simp add: mb_work_def h frames)
  ultimately show ?thesis by blast
qed

lemma mb_client_adapter:
  assumes ok: "mb_ok ph cn" and ne: "send_queue (client_host fe (client cn)) \<noteq> []"
    and ex: "execute v (client_host fe (client cn)) (clerk_host fe (clerk cn)) = (h, h')"
  shows "(\<exists>ph'\<in>{ph, arrive ph}. mb_ok ph' (cn\<lparr>client := set_client_host fe h (client cn), clerk := set_clerk_host fe h' (clerk cn)\<rparr>)) \<and>
    mb_work (cn\<lparr>client := set_client_host fe h (client cn), clerk := set_clerk_host fe h' (clerk cn)\<rparr>) < mb_work cn"
proof -
  let ?a = "client_host fe (client cn)"
  obtain cl where ph: "ph = Sending cl" using ok ne by (cases ph) (auto simp: mb_ok_def client_waits_def)
  note ok = ok [unfolded ph] and ex = ex [unfolded hosts]
  obtain es where es: "list_all (extra ?a (clerk cn)) es" "length es \<le> 1"
    and q: "send_queue ?a = queued ?a (req ?a (length (call_image cl)) RING_HEADER RING_HEADER False) # es @ [queued ?a (req ?a 4 0 0 True)] \<or>
      holds (call_image cl) (box (clerk cn)) \<and> send_queue ?a = es @ [queued ?a (req ?a 4 0 0 True)]"
    using ok by (auto simp: mb_ok_def req_queue_def)
  from q show ?thesis
  proof (elim disjE conjE)
    assume "send_queue ?a = queued ?a (req ?a (length (call_image cl)) RING_HEADER RING_HEADER False) # es @ [queued ?a (req ?a 4 0 0 True)]"
    from mb_exec_request [OF ok this refl es ex] show ?thesis by (simp add: ph hosts)
  next
    assume im: "holds (call_image cl) (box (clerk cn))" and q: "send_queue ?a = es @ [queued ?a (req ?a 4 0 0 True)]"
    show ?thesis
    proof (cases es)
      case Nil
      with mb_exec_header [OF ok im _ ex] q show ?thesis by (simp add: ph hosts)
    next
      case (Cons e es')
      with mb_exec_extra [OF ok im _ _ ex, of e] q es show ?thesis by (simp add: ph hosts)
    qed
  qed
qed

lemma mb_exec_reply:
  assumes ok: "mb_ok (Replying cl x) cn" and ex: "execute v (clerk cn) (client_host fe (client cn)) = (h', h)"
    and r: "holds r (box (clerk cn))" "length r \<le> sizeof_RequestReply + val_max" "reply_means cl x r"
    and q: "send_queue (clerk cn) = [queued (clerk cn) (rep (clerk cn) (length r) RING_HEADER RING_HEADER False), queued (clerk cn) (rep (clerk cn) 4 0 0 True)]"
  shows "mb_ok (Replying cl x) (cn\<lparr>client := set_client_host fe h (client cn), clerk := h'\<rparr>) \<and>
    mb_work (cn\<lparr>client := set_client_host fe h (client cn), clerk := h'\<rparr>) < mb_work cn"
proof -
  let ?a = "client_host fe (client cn)" and ?b = "clerk cn"
  have L: "linked v box ?a ?b" and S: "side_ok (client cn) ?b" and A: "client_waits cl cn" "header (write_mem ?a) = CLIENT_DONE"
    "clerk_pc cn = K_poll" "out_cq ?b = []" "header (box ?b) = CLERK_DONE"
    using ok by (auto simp: mb_ok_def)
  note len = linked_len [OF L]
  have sz: "RING_HEADER + length r \<le> sync_buf_size" "0 < length r"
    using r(2,3) val_max by (simp_all add: sync_buf_size_def reply_means_def sizeof_RequestReply_def)
  have "execute v ?b ?a = (?b\<lparr>send_queue := [queued ?b (rep ?b 4 0 0 True)], out_cq := out_cq ?b @ []\<rparr>,
      ?a\<lparr>write_mem := mwrite (write_mem ?a) RING_HEADER r\<rparr>)"
    using exec_rep [OF L q] sz r by (simp add: holds_def)
  with ex A(4) have h: "h = ?a\<lparr>write_mem := mwrite (write_mem ?a) RING_HEADER r\<rparr>" "h' = ?b\<lparr>send_queue := [queued ?b (rep ?b 4 0 0 True)]\<rparr>"
    by auto
  have m: "length (mwrite (write_mem ?a) RING_HEADER r) = length (write_mem ?a)" "holds r (write_mem h)" "header (write_mem h) = CLIENT_DONE"
    using sz len A(2) by (simp_all add: h holds_def mread_mwrite_same)
  have L': "linked v box h h'" unfolding h using linked_mem [OF L m(1)] by simp
  have "rep_queue cl x h h'" unfolding rep_queue_def using r m by (intro exI [of _ r]) (simp add: h frames)
  then have "mb_ok (Replying cl x) (cn\<lparr>client := set_client_host fe h (client cn), clerk := h'\<rparr>)"
    using L' S A m by (simp add: mb_ok_def frames h client_waits_def)
  moreover have "mb_work (cn\<lparr>client := set_client_host fe h (client cn), clerk := h'\<rparr>) < mb_work cn"
    using q by (simp add: mb_work_def h frames)
  ultimately show ?thesis by blast
qed

lemma mb_exec_reply_header:
  assumes ok: "mb_ok (Replying cl x) cn" and ex: "execute v (clerk cn) (client_host fe (client cn)) = (h', h)"
    and r: "holds r (write_mem (client_host fe (client cn)))" "length r \<le> sizeof_RequestReply + val_max" "reply_means cl x r"
    and q: "send_queue (clerk cn) = [queued (clerk cn) (rep (clerk cn) 4 0 0 True)]"
  shows "mb_ok (Replied cl x) (cn\<lparr>client := set_client_host fe h (client cn), clerk := h'\<rparr>) \<and>
    mb_work (cn\<lparr>client := set_client_host fe h (client cn), clerk := h'\<rparr>) < mb_work cn"
proof -
  let ?a = "client_host fe (client cn)" and ?b = "clerk cn"
  have L: "linked v box ?a ?b" and S: "side_ok (client cn) ?b" and A: "client_waits cl cn" "header (write_mem ?a) = CLIENT_DONE"
    "clerk_pc cn = K_poll" "out_cq ?b = []" "header (box ?b) = CLERK_DONE"
    using ok by (auto simp: mb_ok_def)
  note len = linked_len [OF L]
  let ?m = "mwrite (write_mem ?a) 0 (mread (box ?b) 0 4)"
  have "execute v ?b ?a = (?b\<lparr>send_queue := [], out_cq := [True]\<rparr>, ?a\<lparr>write_mem := ?m\<rparr>)"
    using exec_rep [OF L q] A(4) buf_bounds by simp
  with ex have h: "h = ?a\<lparr>write_mem := ?m\<rparr>" "h' = ?b\<lparr>send_queue := [], out_cq := [True]\<rparr>" by auto
  have b4: "4 \<le> length (write_mem ?a)" "4 \<le> length (box ?b)" using len buf_bounds(1) by linarith+
  have m: "length ?m = length (write_mem ?a)" "holds r ?m" "header ?m = CLERK_DONE"
    using b4 r(1) A(5) by (simp_all add: holds_header header_word)
  have L': "linked v box h h'" unfolding h using linked_mem [OF L m(1)] by simp
  have "reply_in val_max cl x ?m" using m(2) r by (auto simp: reply_in_def)
  then have "mb_ok (Replied cl x) (cn\<lparr>client := set_client_host fe h (client cn), clerk := h'\<rparr>)"
    using L' S A m by (simp add: mb_ok_def frames h client_waits_def clerk_quiet_def)
  moreover have "mb_work (cn\<lparr>client := set_client_host fe h (client cn), clerk := h'\<rparr>) < mb_work cn"
    using q by (simp add: mb_work_def h frames)
  ultimately show ?thesis by blast
qed

lemma mb_clerk_adapter:
  assumes ok: "mb_ok ph cn" and ne: "send_queue (clerk_host fe (clerk cn)) \<noteq> []"
    and ex: "execute v (clerk_host fe (clerk cn)) (client_host fe (client cn)) = (h', h)"
  shows "(\<exists>ph'\<in>{ph, deliver ph}. mb_ok ph' (cn\<lparr>client := set_client_host fe h (client cn), clerk := set_clerk_host fe h' (clerk cn)\<rparr>)) \<and>
    mb_work (cn\<lparr>client := set_client_host fe h (client cn), clerk := set_clerk_host fe h' (clerk cn)\<rparr>) < mb_work cn"
proof -
  note ne = ne [unfolded hosts] and ex = ex [unfolded hosts]
  obtain cl x where ph: "ph = Replying cl x" using ok ne by (cases ph) (auto simp: mb_ok_def clerk_quiet_def)
  note ok = ok [unfolded ph]
  obtain r where r: "holds r (box (clerk cn))" "length r \<le> sizeof_RequestReply + val_max" "reply_means cl x r"
    and q: "send_queue (clerk cn) = [queued (clerk cn) (rep (clerk cn) (length r) RING_HEADER RING_HEADER False), queued (clerk cn) (rep (clerk cn) 4 0 0 True)] \<or>
      holds r (write_mem (client_host fe (client cn))) \<and> send_queue (clerk cn) = [queued (clerk cn) (rep (clerk cn) 4 0 0 True)]"
    using ok by (auto simp: mb_ok_def rep_queue_def)
  from q show ?thesis
    using mb_exec_reply [OF ok ex r] mb_exec_reply_header [OF ok ex _ r(2,3)] by (auto simp: ph hosts)
qed

lemma mb_handle:
  assumes ok: "mb_ok ph cn" and pc: "clerk_pc cn = K_wait" and rd: "clerk_ready fe (clerk cn)"
    and d: "ok (Suc n) d" "small_values val_max (contents d)"
  shows "(\<exists>e. handle fe (clerk cn) d = Crash e) \<or>
    (\<exists>cl k d'. ph = Arrived cl \<and> allowed cl \<and> handle fe (clerk cn) d = Answered k d' \<and> ok n d' \<and>
       contents d' = fst (spec_call cl (contents d)) \<and>
       mb_ok (Replying cl (snd (spec_call cl (contents d)))) (cn\<lparr>clerk := k, clerk_pc := K_poll\<rparr>) \<and>
       mb_work (cn\<lparr>clerk := k, clerk_pc := K_poll\<rparr>) < mb_work cn)"
proof -
  let ?a = "client_host fe (client cn)" and ?b = "clerk cn" and ?m = "set_header CLERK_DONE (box (clerk cn))"
  have hd: "header (box ?b) = CLIENT_DONE" using rd by (simp add: ready)
  obtain cl where ph: "ph = Arrived cl" using ok pc hd by (cases ph) (auto simp: mb_ok_def)
  have L: "linked v box ?a ?b" and S: "side_ok (client cn) ?b" and A: "allowed cl" "client_waits cl cn"
    "header (write_mem ?a) = CLIENT_DONE" "clerk_quiet cn" "holds (call_image cl) (box ?b)"
    using ok by (auto simp: mb_ok_def ph)
  have q: "send_queue ?b = []" "out_cq ?b = []" using A(4) pc by (auto simp: clerk_quiet_def)
  have b4: "4 \<le> length (box ?b)" "sync_buf_size \<le> length (box ?b)" using linked_len [OF L] buf_bounds(1) by linarith+
  have im: "holds (call_image cl) ?m" "sync_buf_size \<le> length ?m"
    using b4 A(5) by (simp_all add: set_header_def holds_header)
  have v: "verbs_ok v" using L by (simp add: linked_def)
  consider (fail) e where "SyncClerk_serve ops ?m d = Serve_fail e"
    | (served) m' d' where "SyncClerk_serve ops ?m d = Served m' d'" "ok n d'" "contents d' = fst (spec_call cl (contents d))"
      "length m' = length ?m" "header m' = header ?m" "reply_in val_max cl (snd (spec_call cl (contents d))) m'"
    using serve_ok [OF d im fits_request _ val_max] allowed [OF A(1)] by blast
  then show ?thesis
  proof cases
    case fail
    then show ?thesis using handle_failed by blast
  next
    case served
    let ?x = "snd (spec_call cl (contents d))" and ?h = "set_box m' ?b"
    obtain r where r: "holds r m'" "length r \<le> sizeof_RequestReply + val_max" "reply_means cl ?x r"
      using served(6) by (auto simp: reply_in_def)
    have "mread m' (RING_HEADER + 4) 4 = mread r 4 4"
      using mread_mread [of 4 4 "length r" m' RING_HEADER] r by (simp add: holds_def reply_means_def sizeof_RequestReply_def)
    then have n: "sizeof_RequestReply + unat (get_val_size RING_HEADER m') = length r"
      using r(3) by (simp add: reply_means_def get_val_size_def)
    define k where "k = ?h\<lparr>send_queue := [queued ?h (rep ?h (length r) RING_HEADER RING_HEADER False), queued ?h (rep ?h 4 0 0 True)]\<rparr>"
    have hk: "handle fe ?b d = Answered k d'" using handle_served [OF v q(1) served(1)] n by (simp add: k_def Let_def)
    have lm: "length m' = length (box ?b)" using served(4) b4 by simp
    have "header m' = CLERK_DONE" using served(5) b4 by simp
    moreover have "rep_queue cl ?x ?a k" unfolding rep_queue_def using r by (intro exI [of _ r]) (simp add: k_def frames)
    ultimately have "mb_ok (Replying cl ?x) (cn\<lparr>clerk := k, clerk_pc := K_poll\<rparr>)"
      using box_linked [OF L lm] S A q lm by (simp add: mb_ok_def k_def frames client_waits_def)
    moreover have "mb_work (cn\<lparr>clerk := k, clerk_pc := K_poll\<rparr>) < mb_work cn"
      using hd pc q \<open>header m' = CLERK_DONE\<close> by (simp add: mb_work_def k_def frames)
    ultimately show ?thesis using ph A(1) hk served(2,3) by blast
  qed
qed

lemma mb_finish:
  assumes ok: "mb_ok ph cn" and pc: "client_pc cn = C_wait cl" and rd: "client_ready fe (client cn)"
  shows "\<exists>x c. ph = Replied cl x \<and> finish fe cl (client cn) = Some (c, x) \<and> mb_ok Idle (cn\<lparr>client := c, client_pc := C_idle\<rparr>)"
proof -
  let ?a = "client_host fe (client cn)" and ?b = "clerk cn"
  have hd: "header (write_mem ?a) = CLERK_DONE" using rd by (simp add: ready)
  obtain x where ph: "ph = Replied cl x" using ok pc hd by (cases ph) (auto simp: mb_ok_def client_waits_def)
  have L: "linked v box ?a ?b" and S: "side_ok (client cn) ?b" and A: "client_waits cl cn" "reply_in val_max cl x (write_mem ?a)"
    "clerk_quiet cn" "header (box ?b) \<noteq> CLIENT_DONE"
    using ok by (auto simp: mb_ok_def ph)
  have len: "length (write_mem ?a) = sync_buf_size" using linked_len [OF L] by simp
  then have b4: "4 \<le> length (write_mem ?a)" using buf_bounds by simp
  let ?h = "?a\<lparr>write_mem := set_header CLIENT_DONE (write_mem ?a)\<rparr>"
  have f: "finish fe cl (client cn) = Some (set_client_host fe ?h (client cn), x)"
    by (simp add: finish_law finish_reply [OF A(2) len val_max])
  have "linked v box ?h ?b" by (rule linked_mem [OF L]) (use b4 in simp)
  then have "mb_ok Idle (cn\<lparr>client := set_client_host fe ?h (client cn), client_pc := C_idle\<rparr>)"
    using S A pc b4 by (simp add: mb_ok_def frames client_waits_def clerk_quiet_def)
  with f ph show ?thesis by blast
qed

lemma mb_progress:
  assumes ok: "mb_ok ph cn" and ph: "ph \<noteq> Idle"
  shows "send_queue (client_host fe (client cn)) \<noteq> [] \<or> send_queue (clerk_host fe (clerk cn)) \<noteq> [] \<or>
    (\<exists>cl. client_pc cn = C_poll cl \<and> poll_one_completion v True (client_host fe (client cn)) \<noteq> None) \<or>
    (\<exists>cl. client_pc cn = C_wait cl \<and> client_ready fe (client cn)) \<or>
    (clerk_pc cn = K_poll \<and> poll_one_completion v True (clerk_host fe (clerk cn)) \<noteq> None) \<or>
    (clerk_pc cn = K_wait \<and> clerk_ready fe (clerk cn))"
proof -
  have v: "verbs_ok v" using ok by (simp add: mb_ok_def linked_def)
  show ?thesis
    using ok ph
    by (cases ph) (auto simp: mb_ok_def hosts ready poll_simps [OF v] client_waits_def clerk_quiet_def req_queue_def rep_queue_def)
qed

lemma mb_work_bound: "mb_ok ph cn \<Longrightarrow> mb_work cn \<le> 38"
  by (cases ph) (auto simp: mb_ok_def mb_work_def client_waits_def clerk_quiet_def req_queue_def rep_queue_def split: client_pc.splits)

end

sublocale mailbox \<subseteq> front_end ops ok contents fits v fe mb_ok allowed val_max mb_work
proof
  show "pending_call (client_pc cn) = phase_call ph" if "mb_ok ph cn" for ph cn
    using that by (cases ph) (auto simp: mb_ok_def client_waits_def)
  show "mb_ok ph (cn\<lparr>answers := as\<rparr>) = mb_ok ph cn" for ph cn as
    by (cases ph) (simp_all add: mb_ok_def client_waits_def clerk_quiet_def)
qed (use allowed in blast, (rule mb_issue; assumption), (rule mb_client_poll; assumption), (rule mb_clerk_poll; assumption),
    (rule mb_client_adapter; assumption), (rule mb_clerk_adapter; assumption), (rule mb_handle; assumption),
    (rule mb_finish; assumption), (rule mb_progress; assumption))

context mailbox
begin

lemma linearizable:
  assumes "net_reach v fe allowed s0 s" "no_calls_yet s0" "\<And>i. mb_ok Idle (conns s0 i)"
    "ok n (store s0)" "small_values val_max (contents (store s0))" "length (taken s) < n"
  shows "linearized contents (contents (store s0)) s"
  by (rule net_inv_linearized [OF net_reach_inv assms(6)]) (use assms in simp_all)

lemma call_ends_soon:
  assumes "net_reach v fe allowed s0 s" "no_calls_yet s0" "\<And>i. mb_ok Idle (conns s0 i)"
    "ok n (store s0)" "small_values val_max (contents (store s0))" "length (taken s) + 39 \<le> n" "\<not> crashed s"
  shows "\<exists>m s'. m \<le> 39 \<and> (conn_step v fe i ^^ m) s s' \<and> (crashed s' \<or> client_pc (conns s' i) = C_idle)"
proof -
  have inv: "net_inv n (contents (store s0)) s" by (rule net_reach_inv) (use assms in simp_all)
  have "length (taken s) < n" using assms(6) by simp
  then obtain ph where ph: "mb_ok ph (conns s i)" using net_invD(4) [OF inv, of i] by blast
  have w: "mb_work (conns s i) \<le> 38" by (rule mb_work_bound [OF ph])
  then have "length (taken s) + mb_work (conns s i) < n" using assms(6) by simp
  from call_ends [OF inv this assms(7)] obtain m s' where m: "m \<le> Suc (mb_work (conns s i))" "(conn_step v fe i ^^ m) s s'"
    "crashed s' \<or> client_pc (conns s' i) = C_idle" by blast
  have "m \<le> 39" using m(1) w by simp
  with m(2,3) show ?thesis by blast
qed

end

end
