(* ===== verification/Sync_Net.thy ===== *)
theory Sync_Net
  imports Mailbox
begin

text \<open>
  The synchronous front end as a system: its client and its clerk follow the protocol, so
  a server with any number of clients is linearizable and no call gets stuck.
\<close>

section \<open>The synchronous front end follows the protocol\<close>

definition sync_val_max :: nat where
  "sync_val_max = MAX_REQUEST - sizeof_RequestReply"

lemma call_fits_values: "call_fits cl \<Longrightarrow> call_values sync_val_max cl"
  by (cases cl) (auto simp: call_fits_def sync_val_max_def sizeof_Request_def sizeof_RequestReply_def)

lemma sync_round_served:
  assumes "verbs_ok v" "send_queue k = []" "SyncClerk_serve ops (set_header CLERK_DONE (write_mem k)) d = Served m d'"
  shows "SyncClerk_round v ops k d = Answered (let h = k\<lparr>write_mem := m\<rparr> in h\<lparr>send_queue :=
    [queued h (wr_ww h (sizeof_RequestReply + unat (get_val_size RING_HEADER m)) RING_HEADER RING_HEADER False),
     queued h (wr_ww h 4 0 0 True)]\<rparr>) d'"
  using assms post_two [OF assms(1), of "k\<lparr>write_mem := m\<rparr>"] by (simp add: SyncClerk_round_def Let_def)

sublocale request_store \<subseteq> sync: mailbox ops ok contents fits v "sync_front v ops" write_mem "\<lambda>m h. h\<lparr>write_mem := m\<rparr>"
  wr_ww wr_ww "\<lambda>_ _ _. False" "\<lambda>_ _. True" call_fits sync_val_max for v
proof
  show "sizeof_RequestReply + sync_val_max \<le> MAX_REQUEST"
    by (simp add: sync_val_max_def sizeof_RequestReply_def MAX_REQUEST_def)
  show "call_fits cl \<and> call_values sync_val_max cl" if "call_fits cl" for cl
    using that call_fits_values by blast
  show "linked v write_mem a (b\<lparr>write_mem := m\<rparr>)" if "linked v write_mem a b" "length m = length (write_mem b)" for a b m
    using that by (simp add: linked_def host_ok_mem)
  show "execute v a b = (a\<lparr>send_queue := q, out_cq := out_cq a @ (if sig then [True] else [])\<rparr>,
      b\<lparr>write_mem := mwrite (write_mem b) ro (mread (write_mem a) lo n)\<rparr>)"
    if "linked v write_mem a b" "send_queue a = queued a (wr_ww a n lo ro sig) # q" "lo + n \<le> sync_buf_size" "ro + n \<le> sync_buf_size"
    for a b n lo ro sig q
    using that by (intro execute_ww) (auto simp: linked_def)
  show "execute v b a = (b\<lparr>send_queue := q, out_cq := out_cq b @ (if sig then [True] else [])\<rparr>,
      a\<lparr>write_mem := mwrite (write_mem a) ro (mread (write_mem b) lo n)\<rparr>)"
    if "linked v write_mem a b" "send_queue b = queued b (wr_ww b n lo ro sig) # q" "lo + n \<le> sync_buf_size" "ro + n \<le> sync_buf_size"
    for a b n lo ro sig q
    using that by (intro execute_ww) (auto simp: linked_def)
  show "\<exists>c' es. issue (sync_front v ops) cl c = Some c' \<and> True \<and>
      list_all (\<lambda>_. False) es \<and> length es \<le> 1 \<and>
      client_host (sync_front v ops) c' = (let h = laid_out (call_image cl) (client_host (sync_front v ops) c) in h\<lparr>send_queue :=
        queued h (wr_ww h (length (call_image cl)) RING_HEADER RING_HEADER False) # es @ [queued h (wr_ww h 4 0 0 True)]\<rparr>)"
    if "linked v write_mem (client_host (sync_front v ops) c) k" "send_queue (client_host (sync_front v ops) c) = []" "call_fits cl" for c k cl
    using that issue_sent [of v c cl]
    by (intro exI [of _ "sent (call_image cl) c"] exI [of _ "[]"]) (simp add: sync_front_def linked_def sent_def)
  show "handle (sync_front v ops) k d = Answered (let h = k\<lparr>write_mem := m\<rparr> in h\<lparr>send_queue :=
      [queued h (wr_ww h (sizeof_RequestReply + unat (get_val_size RING_HEADER m)) RING_HEADER RING_HEADER False),
       queued h (wr_ww h 4 0 0 True)]\<rparr>) d'"
    if "verbs_ok v" "send_queue k = []" "SyncClerk_serve ops (set_header CLERK_DONE (write_mem k)) d = Served m d'" for k d m d'
    using sync_round_served [OF that] by (simp add: sync_front_def)
qed (simp_all add: sync_front_def SyncClerk_round_def)

interpretation bcr: request_store "BitCask append_pwrite mem" bitcask_ok db_map record_fits for mem
  by unfold_locales (simp add: record_fits_def MAX_REQUEST_def)

section \<open>Properties\<close>

text \<open>
  A connection before its first call: both buffers registered and known to the peer, the
  client's header set by \<^verbatim>\<open>Connect\<close>. The clerk's buffer comes from \<^verbatim>\<open>new\<close> and is not
  initialised; that its first word is not by chance \<^verbatim>\<open>CLIENT_DONE\<close> is an assumption the code makes.
\<close>

definition sync_connected :: "(host, host) conn \<Rightarrow> bool" where
  "sync_connected cn \<longleftrightarrow>
     host_ok (client cn) \<and> host_ok (clerk cn) \<and> knows (client cn) (clerk cn) \<and> knows (clerk cn) (client cn) \<and>
     length (write_mem (client cn)) = sync_buf_size \<and> length (write_mem (clerk cn)) = sync_buf_size \<and>
     send_queue (client cn) = [] \<and> out_cq (client cn) = [] \<and> send_queue (clerk cn) = [] \<and> out_cq (clerk cn) = [] \<and>
     header (write_mem (client cn)) = CLIENT_DONE \<and> header (write_mem (clerk cn)) \<noteq> CLIENT_DONE \<and>
     client_pc cn = C_idle \<and> clerk_pc cn = K_wait"

lemma le_val_replicate: "le_val (replicate n 0) = 0"
  by (induction n) simp_all

lemma sync_front_host [simp]: "client_host (sync_front v ops) h = h"
  by (simp add: sync_front_def)

lemma sync_connected_idle: "verbs_ok v \<Longrightarrow> sync_connected cn \<Longrightarrow> bcr.sync.mb_ok v mem Idle cn"
  by (simp add: sync_connected_def bcr.sync.mb_ok_def linked_def bcr.sync.clerk_quiet_def)



text \<open>
  A client built by its constructor and connected by \<^verbatim>\<open>Connect\<close>, and the clerk that a round
  of the server's \<^verbatim>\<open>Listen\<close> leaves, are in the state the other properties start from, if the
  devices work and the clerk's fresh buffer does not by chance begin with \<^verbatim>\<open>CLIENT_DONE\<close>.
\<close>

theorem sync_set_up_connects:
  assumes "machine_ok mc1 opt dev1" "machine_ok mc2 opt dev2" "length (mc_mem mc1) = sync_buf_size"
    "length (mc_mem mc2) = sync_buf_size" "header (mc_mem mc2) \<noteq> CLIENT_DONE"
  shows "\<exists>a b a' b'. SyncClient_new mc1 opt = Inr (dev1, a) \<and> SyncServer_new mc2 opt = Inr dev2 \<and> new_context mc2 dev2 = Inr b \<and>
    SyncClient_Connect mc1 dev1 (Some (wire_certificate (local_cert b))) a = Inr a' \<and>
    SyncServer_accept mc2 dev2 (Some (wire_certificate (local_cert a))) = Inr b' \<and>
    sync_connected \<lparr>client = a', client_pc = C_idle, answers = [], clerk = b', clerk_pc = K_wait\<rparr>"
proof -
  obtain a where a: "new_context mc1 dev1 = Inr a" "host_ok a" "certified a" "write_mem a = mc_mem mc1" "send_queue a = []" "out_cq a = []"
    using new_context_ok [OF assms(1)] by blast
  obtain b where b: "new_context mc2 dev2 = Inr b" "host_ok b" "certified b" "write_mem b = mc_mem mc2" "send_queue b = []" "out_cq b = []"
    using new_context_ok [OF assms(2)] by blast
  let ?a = "a\<lparr>remote_cert := local_cert b, write_mem := set_header CLIENT_DONE (mc_mem mc1)\<rparr>"
  let ?b = "b\<lparr>remote_cert := local_cert a\<rparr>"
  have m: "4 \<le> length (mc_mem mc1)" using assms(3) by (simp add: sync_buf_size_def MAX_REQUEST_def)
  have "SyncClient_Connect mc1 dev1 (Some (wire_certificate (local_cert b))) a = Inr ?a"
    using connect_context_ok [OF assms(1) b(3), of a] a(4) by (simp add: SyncClient_Connect_def)
  moreover have "SyncServer_accept mc2 dev2 (Some (wire_certificate (local_cert a))) = Inr ?b"
    using connect_context_ok [OF assms(2) a(3), of b] b(1) by (simp add: SyncServer_accept_def)
  moreover have "sync_connected \<lparr>client = ?a, client_pc = C_idle, answers = [], clerk = ?b, clerk_pc = K_wait\<rparr>"
    using a b assms(3-5) m by (simp add: sync_connected_def host_ok_def knows_def certified_def)
  moreover have "SyncClient_new mc1 opt = Inr (dev1, a)" "SyncServer_new mc2 opt = Inr dev2"
    using assms(1,2) a(1) by (simp_all add: SyncClient_new_def SyncServer_new_def machine_ok_def)
  ultimately show ?thesis using b(1) by blast
qed

theorem sync_set_up_connects_witness:
  "\<exists>a b a' b'. SyncClient_new (sample_machine (replicate sync_buf_size 0)) sample_opt = Inr (sample_device, a) \<and>
    new_context (sample_machine (replicate sync_buf_size 0)) sample_device = Inr b \<and>
    SyncClient_Connect (sample_machine (replicate sync_buf_size 0)) sample_device (Some (wire_certificate (local_cert b))) a = Inr a' \<and>
    SyncServer_accept (sample_machine (replicate sync_buf_size 0)) sample_device (Some (wire_certificate (local_cert a))) = Inr b' \<and>
    sync_connected \<lparr>client = a', client_pc = C_idle, answers = [], clerk = b', clerk_pc = K_wait\<rparr>"
proof -
  let ?m = "replicate sync_buf_size (0 :: byte)"
  have m: "machine_ok (sample_machine ?m) sample_opt sample_device"
    by (rule sample_machine_ok) (simp add: sync_buf_size_def MAX_REQUEST_def RING_HEADER_def)
  have h: "mc_mem (sample_machine ?m) = ?m" "length ?m = sync_buf_size" "header ?m \<noteq> CLIENT_DONE"
    by (simp_all add: sample_machine_def sync_buf_size_def header_def mread_def un_le32_def le_val_replicate CLIENT_DONE_def MAX_REQUEST_def RING_HEADER_def)
  show ?thesis using sync_set_up_connects [OF m m] h by auto
qed

text \<open>
  \<^verbatim>\<open>Connect\<close> does not notice that the queue pair failed to come up: whatever error number
  the device answers to the three transitions, as long as the certificates are exchanged it
  returns as if connected.
\<close>

theorem Connect_misses_qp_failure:
  assumes "\<forall>attr flags. 0 \<le> mc_modify_qp mc attr flags" "mc_written mc = int certificate_size" "length d = certificate_size"
  shows "SyncClient_Connect mc dev (Some d) h =
    Inr (h\<lparr>remote_cert := unwire_certificate d, write_mem := set_header CLIENT_DONE (write_mem h)\<rparr>)"
proof -
  have "modify_qp (mc_modify_qp mc) attr flags \<noteq> (status, -1)" for attr flags status
    using assms(1) [rule_format, of attr flags] by (auto simp: modify_qp_def Let_def)
  then show ?thesis
    using assms(2,3) by (auto simp: SyncClient_Connect_def connect_context_def default_connect_def exchange_certificate_def split: prod.splits)
qed

theorem Connect_misses_qp_failure_witness:
  "\<exists>h. SyncClient_Connect ((sample_machine [])\<lparr>mc_modify_qp := (\<lambda>_ _. 22)\<rparr>) sample_device (Some (replicate 54 0)) make_rdma_context = Inr h"
  using Connect_misses_qp_failure [of "(sample_machine [])\<lparr>mc_modify_qp := (\<lambda>_ _. 22)\<rparr>" "replicate 54 0" sample_device make_rdma_context]
  by (simp add: sample_machine_def certificate_size_def)

text \<open>A server to apply the properties to, and a client that has started to put a pair.\<close>

definition sample_net :: "host \<Rightarrow> host \<Rightarrow> db_impl \<Rightarrow> (host, host, db_impl) net" where
  "sample_net a b db =
     \<lparr>conns = (\<lambda>_. \<lparr>client = a, client_pc = C_idle, answers = [], clerk = b, clerk_pc = K_wait\<rparr>), store = db,
      taken = [], crashed = False\<rparr>"

lemma sample_net:
  "\<exists>a b db. no_calls_yet (sample_net a b db) \<and> (\<forall>i. sync_connected (conns (sample_net a b db) i)) \<and>
    bitcask_ok 1000 (store (sample_net a b db)) \<and> db_map (store (sample_net a b db)) = Map.empty"
proof -
  obtain a b where ab: "host_ok a" "host_ok b" "knows a b" "knows b a"
    "write_mem a = set_header CLIENT_DONE (replicate 8200 0)" "write_mem b = replicate 8200 0"
    "send_queue a = []" "out_cq a = []" "send_queue b = []" "out_cq b = []"
    using sample_peers [of "set_header CLIENT_DONE (replicate 8200 0)" "replicate 8200 0"] by auto
  obtain db where db: "db_ok db" "db_map db = Map.empty" "length (data_files db) = 1" using sample_db by blast
  have h: "header (set_header CLIENT_DONE (replicate 8200 0)) = CLIENT_DONE" by simp
  have "header (replicate 8200 0) = 0" by (simp add: header_def mread_def un_le32_def le_val_replicate)
  with ab db h have "sync_connected (conns (sample_net a b db) i)" for i
    by (simp add: sample_net_def sync_connected_def sync_buf_size_def MAX_REQUEST_def RING_HEADER_def CLIENT_DONE_def)
  with db show ?thesis
    by (intro exI [of _ a] exI [of _ b] exI [of _ db]) (simp add: sample_net_def no_calls_yet_def bitcask_ok_def)
qed

definition sample_call :: call where
  "sample_call = Call_put [107] [118]"

definition sample_calling :: "(host, host, db_impl) net \<Rightarrow> (host, host, db_impl) net" where
  "sample_calling s = s\<lparr>conns := (conns s)(0 := (conns s 0)\<lparr>client := sent (call_image sample_call) (client (conns s 0)),
     client_pc := C_poll sample_call\<rparr>)\<rparr>"

lemma sample_call_fits: "call_fits sample_call"
  by (simp add: sample_call_def call_fits_def sizeof_Request_def MAX_REQUEST_def)

lemma sample_reach:
  assumes "no_calls_yet s" "sync_connected (conns s 0)"
  shows "net_reach rc_verbs (sync_front rc_verbs ops) call_fits s (sample_calling s)"
proof (rule net_next [OF net_start])
  have "issue (sync_front rc_verbs ops) sample_call (client (conns s 0)) = Some (sent (call_image sample_call) (client (conns s 0)))"
    using assms(2) issue_sent [OF rc_verbs_ok] sample_call_fits by (simp add: sync_front_def sync_connected_def)
  then show "net_step rc_verbs (sync_front rc_verbs ops) call_fits s (sample_calling s)"
    unfolding sample_calling_def using assms sample_call_fits
    by (intro client_call) (auto simp: no_calls_yet_def sync_connected_def)
qed

lemma sample_calling_simps [simp]: "taken (sample_calling s) = taken s" "crashed (sample_calling s) = crashed s"
  by (simp_all add: sample_calling_def)



end
