(* ===== verification/Pmem_Front.thy ===== *)
theory Pmem_Front
  imports Sync_Net
begin

text \<open>
  The persistent-memory front end, \<^verbatim>\<open>frontend/pmem/pmem.cc\<close>. It speaks the protocol of the
  synchronous one, but the mailbox is the clerk's send buffer, and a write also puts its
  request into a ring in persistent memory, the clerk's registered buffer, before the header
  that makes the clerk look.
\<close>

section \<open>The client\<close>

definition BUFSIZE :: u64 where
  "BUFSIZE = 1024 * 1024 * 1024"

record pmem_client =
  pm_host :: host
  buf_head :: u64

definition PMemClient_new :: "machine \<Rightarrow> MyOption \<Rightarrow> db_error + rdma_device \<times> pmem_client" where
  "PMemClient_new mc opt =
     (case open_device mc opt of
        Inl e \<Rightarrow> Inl e
      | Inr dev \<Rightarrow> (case new_context mc dev of Inl e \<Rightarrow> Inl e | Inr h \<Rightarrow> Inr (dev, \<lparr>pm_host = h, buf_head = 0\<rparr>)))"

definition PMemClient_Connect :: "machine \<Rightarrow> rdma_device \<Rightarrow> bytes option \<Rightarrow> pmem_client \<Rightarrow> db_error + pmem_client" where
  "PMemClient_Connect mc dev received c =
     (case connect_context mc dev received (pm_host c) of
        Inl e \<Rightarrow> Inl e
      | Inr h \<Rightarrow> Inr (c\<lparr>pm_host := h\<lparr>write_mem := set_header CLIENT_DONE (write_mem h)\<rparr>\<rparr>))"

text \<open>The rewind of the ring before a write that would reach its end.\<close>

definition next_head :: "pmem_client \<Rightarrow> u16 \<Rightarrow> u64" where
  "next_head c total_len = (if buf_head c + ucast total_len \<ge> BUFSIZE then 0 else buf_head c)"

definition PMemClient_SendWrite :: "verbs \<Rightarrow> bytes \<Rightarrow> bytes \<Rightarrow> Operation \<Rightarrow> pmem_client \<Rightarrow> pmem_client option" where
  "PMemClient_SendWrite v key val opr c =
     (let key_len = of_nat (strlen key) :: u16;
          val_len = of_nat (strlen val) :: u16;
          total_len = of_nat (sizeof_Request + unat key_len + unat val_len) :: u16;
          hd = next_head c total_len;
          h = pm_host c;
          m = write_mem h;
          m = set_op RING_HEADER opr m;
          m = set_key_size RING_HEADER (unat key_len) m;
          m = set_val_size RING_HEADER (ucast val_len) m
      in do {
           k \<leftarrow> load key 0 (unat key_len);
           m \<leftarrow> memcpy m (RING_HEADER + sizeof_Request) k;
           x \<leftarrow> load val 0 (unat val_len);
           m \<leftarrow> memcpy m (RING_HEADER + sizeof_Request + unat key_len) x;
           (h, _) \<leftarrow> post_write0 v None (unat total_len) RING_HEADER RING_HEADER False (h\<lparr>write_mem := m\<rparr>);
           (h, _) \<leftarrow> post_write v None (unat total_len) RING_HEADER (unat hd) False h;
           (h, _) \<leftarrow> post_write0 v None 4 0 0 True h;
           Some \<lparr>pm_host = h, buf_head = hd + ucast total_len\<rparr> })"

definition PMemClient_SendKey :: "verbs \<Rightarrow> bytes \<Rightarrow> Operation \<Rightarrow> pmem_client \<Rightarrow> pmem_client option" where
  "PMemClient_SendKey v key opr c =
     (let key_len = of_nat (strlen key) :: u16;
          total_len = of_nat (sizeof_Request + unat key_len) :: u16;
          h = pm_host c;
          m = write_mem h;
          m = set_op RING_HEADER opr m;
          m = set_key_size RING_HEADER (strlen key) m;
          m = set_val_size RING_HEADER 0 m
      in do {
           k \<leftarrow> load key 0 (strlen key);
           m \<leftarrow> memcpy m (RING_HEADER + sizeof_Request) k;
           (h, _) \<leftarrow> post_write0 v None (unat total_len) RING_HEADER RING_HEADER False (h\<lparr>write_mem := m\<rparr>);
           (h, _) \<leftarrow> post_write0 v None 4 0 0 True h;
           Some (c\<lparr>pm_host := h\<rparr>) })"

definition PMemClient_SendBare :: "verbs \<Rightarrow> Operation \<Rightarrow> pmem_client \<Rightarrow> pmem_client option" where
  "PMemClient_SendBare v opr c =
     (let h = pm_host c;
          m = write_mem h;
          m = set_op RING_HEADER opr m;
          m = set_key_size RING_HEADER 0 m;
          m = set_val_size RING_HEADER 0 m
      in do {
           (h, _) \<leftarrow> post_write0 v None sizeof_Request RING_HEADER RING_HEADER False (h\<lparr>write_mem := m\<rparr>);
           (h, _) \<leftarrow> post_write0 v None 4 0 0 True h;
           Some (c\<lparr>pm_host := h\<rparr>) })"

definition PMemClient_SendGet :: "verbs \<Rightarrow> bytes \<Rightarrow> pmem_client \<Rightarrow> pmem_client option" where
  "PMemClient_SendGet v key c = PMemClient_SendKey v key GET c"

definition PMemClient_SendDelete :: "verbs \<Rightarrow> bytes \<Rightarrow> pmem_client \<Rightarrow> pmem_client option" where
  "PMemClient_SendDelete v key c = PMemClient_SendKey v key DELETE c"

definition PMemClient_SendSync :: "verbs \<Rightarrow> pmem_client \<Rightarrow> pmem_client option" where
  "PMemClient_SendSync v c = PMemClient_SendBare v SYNC c"

definition PMemClient_SendClose :: "verbs \<Rightarrow> pmem_client \<Rightarrow> pmem_client option" where
  "PMemClient_SendClose v c = PMemClient_SendBare v CLOSE c"

fun PMemClient_issue :: "verbs \<Rightarrow> call \<Rightarrow> pmem_client \<Rightarrow> pmem_client option" where
  "PMemClient_issue v (Call_put key val) c = PMemClient_SendWrite v key val PUT c"
| "PMemClient_issue v (Call_update key val) c = PMemClient_SendWrite v key val UPDATE c"
| "PMemClient_issue v (Call_get key) c = PMemClient_SendGet v key c"
| "PMemClient_issue v (Call_delete key) c = PMemClient_SendDelete v key c"
| "PMemClient_issue v Call_sync c = PMemClient_SendSync v c"

section \<open>The clerk\<close>

text \<open>
  \<^verbatim>\<open>PMemClerk::Run\<close> has the \<^verbatim>\<open>switch\<close> of \<^verbatim>\<open>SyncClerk::Run\<close>, on the send buffer, and replies out of it.
\<close>

definition PMemClerk_round :: "verbs \<Rightarrow> 'd DBType \<Rightarrow> host \<Rightarrow> 'd \<Rightarrow> (host, 'd) outcome" where
  "PMemClerk_round v ops h d =
     (case SyncClerk_serve ops (set_header CLERK_DONE (send_mem h)) d of
        Served m d \<Rightarrow>
          (case do { (h, _) \<leftarrow> post_write1 v None (sizeof_RequestReply + unat (get_val_size RING_HEADER m))
                                 RING_HEADER RING_HEADER False (h\<lparr>send_mem := m\<rparr>);
                     (h, _) \<leftarrow> post_write1 v None 4 0 0 True h;
                     Some h } of
             None \<Rightarrow> Crash Undefined
           | Some h \<Rightarrow> Answered h d)
      | Serve_close \<Rightarrow> Closed (fst (post_recv v MAX_REQUEST 0 (h\<lparr>send_mem := set_header CLERK_DONE (send_mem h)\<rparr>)))
      | Serve_fail e \<Rightarrow> Crash e
      | Serve_hang \<Rightarrow> No_answer)"

text \<open>
  One round of the loop of \<^verbatim>\<open>Listen\<close>: \<open>mapped\<close> tells whether \<^verbatim>\<open>mmap\<close> gave the clerk its part of
  the device.
\<close>

definition PMemServer_accept :: "machine \<Rightarrow> bool \<Rightarrow> rdma_device \<Rightarrow> bytes option \<Rightarrow> db_error + host" where
  "PMemServer_accept mc mapped dev received =
     (case open_context dev (mc_send_mem mc) of
        Inl _ \<Rightarrow> Inl (if mapped then Undefined else Process_exit)
      | Inr h \<Rightarrow>
          if \<not> mapped then Inl Process_exit
          else connect_context mc dev received (fst (register_write_buf (mc_reg mc) (mc_ptr mc) (mc_mem mc) h)))"

definition pmem_front :: "verbs \<Rightarrow> 'd DBType \<Rightarrow> (pmem_client, host, 'd) front" where
  "pmem_front v ops =
     \<lparr>issue = PMemClient_issue v,
      client_ready = (\<lambda>c. header (write_mem (pm_host c)) = CLERK_DONE),
      finish = (\<lambda>cl c. map_option (\<lambda>(m, a). (c\<lparr>pm_host := (pm_host c)\<lparr>write_mem := m\<rparr>\<rparr>, a)) (SyncClient_finish cl (write_mem (pm_host c)))),
      clerk_ready = (\<lambda>h. header (send_mem h) = CLIENT_DONE),
      handle = PMemClerk_round v ops,
      client_host = pm_host, set_client_host = (\<lambda>h c. c\<lparr>pm_host := h\<rparr>), clerk_host = (\<lambda>h. h), set_clerk_host = (\<lambda>h _. h)\<rparr>"

section \<open>The client lays out a request\<close>

text \<open>Where in the ring the next write goes.\<close>

definition ring_pos :: "pmem_client \<Rightarrow> nat \<Rightarrow> nat" where
  "ring_pos c n = (if unat (buf_head c) + n \<ge> unat BUFSIZE then 0 else unat (buf_head c))"

lemma BUFSIZE_nat [simp]: "unat BUFSIZE = 1073741824"
  by (simp add: BUFSIZE_def)

definition ring_ok :: "pmem_client \<Rightarrow> host \<Rightarrow> bool" where
  "ring_ok c k \<longleftrightarrow> unat (buf_head c) < unat BUFSIZE \<and> length (write_mem k) = unat BUFSIZE"

lemma post_three:
  assumes "verbs_ok v" "send_queue h = []"
  shows "do { (h, _) \<leftarrow> post_write0 v None n lo ro False h; (h, _) \<leftarrow> post_write v None n lo p False h;
              (h, _) \<leftarrow> post_write0 v None m lo' ro' True h; f h }
    = f (h\<lparr>send_queue := [queued h (wr_ws h n lo ro False), queued h (wr_ww h n lo p False), queued h (wr_ws h m lo' ro' True)]\<rparr>)"
  using assms by (simp add: post_write_queues MAX_QP_DEPTH_def)

lemma post_two0:
  assumes "verbs_ok v" "send_queue h = []"
  shows "do { (h, _) \<leftarrow> post_write0 v None n lo ro False h; (h, _) \<leftarrow> post_write0 v None m lo' ro' True h; f h }
    = f (h\<lparr>send_queue := [queued h (wr_ws h n lo ro False), queued h (wr_ws h m lo' ro' True)]\<rparr>)"
  using assms by (simp add: post_write_queues MAX_QP_DEPTH_def)

lemma ring_word:
  assumes "unat (buf_head c) < unat BUFSIZE" "n \<le> 8192"
  shows "unat (buf_head c + ucast (of_nat n :: u16)) = unat (buf_head c) + n" "unat (ucast (of_nat n :: u16) :: u64) = n"
proof -
  show n: "unat (ucast (of_nat n :: u16) :: u64) = n"
    using assms(2) by (simp add: unsigned_ucast_eq unat_of_nat take_bit_nat_eq_self)
  then show "unat (buf_head c + ucast (of_nat n :: u16)) = unat (buf_head c) + n"
    using assms by (simp add: unat_word_ariths)
qed

definition sent_ring :: "bytes \<Rightarrow> pmem_client \<Rightarrow> host" where
  "sent_ring img c = (let h = laid_out img (pm_host c) in h\<lparr>send_queue :=
     [queued h (wr_ws h (length img) RING_HEADER RING_HEADER False),
      queued h (wr_ww h (length img) RING_HEADER (ring_pos c (length img)) False),
      queued h (wr_ws h 4 0 0 True)]\<rparr>)"

definition sent0 :: "bytes \<Rightarrow> host \<Rightarrow> host" where
  "sent0 img h = (let h = laid_out img h in h\<lparr>send_queue :=
     [queued h (wr_ws h (length img) RING_HEADER RING_HEADER False), queued h (wr_ws h 4 0 0 True)]\<rparr>)"

lemma PMem_SendWrite_sent:
  assumes v: "verbs_ok v" "send_queue (pm_host c) = []" "length (write_mem (pm_host c)) = sync_buf_size"
    and f: "0 \<notin> set key" "0 \<notin> set val" "sizeof_Request + (length key + length val) \<le> MAX_REQUEST"
    and r: "unat (buf_head c) < unat BUFSIZE"
  shows "\<exists>hd. PMemClient_SendWrite v key val opr c = Some \<lparr>pm_host = sent_ring (request_image opr key val) c, buf_head = hd\<rparr> \<and>
    unat hd < unat BUFSIZE"
proof -
  let ?img = "request_image opr key val" and ?n = "8 + length key + length val"
  have b: "length key \<le> 8192" "length val \<le> 8192" "?n \<le> 8192"
    "RING_HEADER + sizeof_Request + length key + length val \<le> length (write_mem (pm_host c))"
    using f(3) v(3) by (simp_all add: sizeof_Request_def MAX_REQUEST_def sync_buf_size_def RING_HEADER_def)
  have rw: "unat (buf_head c + ucast (of_nat ?n :: u16)) = unat (buf_head c) + ?n" "unat (ucast (of_nat ?n :: u16) :: u64) = ?n"
    using ring_word [OF r b(3)] by (simp_all del: of_nat_add)
  let ?hd = "next_head c (of_nat ?n)"
  have hd: "unat ?hd = ring_pos c ?n"
    using rw(1) by (simp add: ring_pos_def next_head_def word_le_nat_alt del: of_nat_add)
  have fits: "unat (?hd + ucast (of_nat ?n :: u16)) < unat BUFSIZE"
  proof (cases "buf_head c + ucast (of_nat ?n :: u16) \<ge> BUFSIZE")
    case True
    then show ?thesis using rw(2) b(3) by (simp add: next_head_def del: of_nat_add)
  next
    case False
    then have "?hd = buf_head c" by (simp only: next_head_def if_False)
    with False show ?thesis by (simp only: not_le word_less_nat_alt)
  qed
  have "PMemClient_SendWrite v key val opr c = Some \<lparr>pm_host = sent_ring ?img c, buf_head = ?hd + ucast (of_nat ?n :: u16)\<rparr>"
    unfolding PMemClient_SendWrite_def Let_def sent_ring_def
    using f(1,2) b(4) lay_out_request [OF b(4), of opr] post_three [OF v(1), of "laid_out ?img (pm_host c)"] v(2) hd
    by (simp add: u16_exact [OF b(1)] u16_exact [OF b(2)] u16_exact [OF b(3)] ucast_of_nat_u16 [OF b(2)] laid_out_def
        set_op_def set_key_size_def set_val_size_def sizeof_Request_def del: of_nat_add)
  with fits show ?thesis by blast
qed

lemma PMem_SendKey_sent:
  assumes v: "verbs_ok v" "send_queue (pm_host c) = []" "length (write_mem (pm_host c)) = sync_buf_size"
    and f: "0 \<notin> set key" "sizeof_Request + length key \<le> MAX_REQUEST"
  shows "PMemClient_SendKey v key opr c = Some (c\<lparr>pm_host := sent0 (request_image opr key []) (pm_host c)\<rparr>)"
proof -
  have b: "length key \<le> 8192" "8 + length key \<le> 8192"
    "RING_HEADER + sizeof_Request + length key + length ([] :: bytes) \<le> length (write_mem (pm_host c))"
    using f(2) v(3) by (simp_all add: sizeof_Request_def MAX_REQUEST_def sync_buf_size_def RING_HEADER_def)
  show ?thesis
    unfolding PMemClient_SendKey_def Let_def sent0_def
    using f(1) b(3) lay_out_request [OF b(3), of opr] post_two0 [OF v(1), of "laid_out (request_image opr key []) (pm_host c)"] v(2)
    by (simp add: u16_exact [OF b(1)] u16_exact [OF b(2)] laid_out_def
        set_op_def set_key_size_def set_val_size_def sizeof_Request_def del: of_nat_add)
qed

lemma PMem_SendBare_sent:
  assumes v: "verbs_ok v" "send_queue (pm_host c) = []" "length (write_mem (pm_host c)) = sync_buf_size"
  shows "PMemClient_SendBare v opr c = Some (c\<lparr>pm_host := sent0 (request_image opr [] []) (pm_host c)\<rparr>)"
proof -
  have b: "RING_HEADER + sizeof_Request + length ([] :: bytes) + length ([] :: bytes) \<le> length (write_mem (pm_host c))"
    using v(3) by (simp add: sizeof_Request_def MAX_REQUEST_def sync_buf_size_def RING_HEADER_def)
  show ?thesis
    unfolding PMemClient_SendBare_def Let_def sent0_def
    using b lay_out_request [OF b, of opr] post_two0 [OF v(1), of "laid_out (request_image opr [] []) (pm_host c)"] v(2)
    by (simp add: laid_out_def set_op_def set_key_size_def set_val_size_def sizeof_Request_def)
qed

section \<open>The persistent-memory front end follows the protocol\<close>

definition pmem_val_max :: nat where
  "pmem_val_max = MAX_INLINE_SIZE - sizeof_RequestReply"

definition pmem_allowed :: "call \<Rightarrow> bool" where
  "pmem_allowed cl \<longleftrightarrow> call_fits cl \<and> call_values pmem_val_max cl"

definition ring_write :: "host \<Rightarrow> host \<Rightarrow> ibv_send_wr \<times> bytes option \<Rightarrow> bool" where
  "ring_write a b e \<longleftrightarrow> (\<exists>n p. e = queued a (wr_ww a n RING_HEADER p False) \<and> RING_HEADER + n \<le> sync_buf_size \<and> p + n \<le> length (write_mem b))"

lemma pmem_round_served:
  assumes "verbs_ok v" "send_queue k = []" "SyncClerk_serve ops (set_header CLERK_DONE (send_mem k)) d = Served m d'"
  shows "PMemClerk_round v ops k d = Answered (let h = k\<lparr>send_mem := m\<rparr> in h\<lparr>send_queue :=
    [queued h (wr_sw h (sizeof_RequestReply + unat (get_val_size RING_HEADER m)) RING_HEADER RING_HEADER False),
     queued h (wr_sw h 4 0 0 True)]\<rparr>) d'"
  using assms by (simp add: PMemClerk_round_def Let_def post_write_queues MAX_QP_DEPTH_def)

lemma linked_bounds:
  assumes "linked v send_mem a b" "RING_HEADER + n \<le> sync_buf_size"
  shows "RING_HEADER + n \<le> length (write_mem a)"
  using assms by (simp add: linked_def)

lemma ring_pos_fits: "n \<le> 8192 \<Longrightarrow> ring_ok c k \<Longrightarrow> ring_pos c n + n \<le> length (write_mem k)"
  by (simp add: ring_pos_def ring_ok_def)

lemma pmem_issue:
  assumes l: "linked v send_mem (pm_host c) k" "ring_ok c k" "send_queue (pm_host c) = []" "pmem_allowed cl"
  shows "\<exists>c' es. PMemClient_issue v cl c = Some c' \<and> ring_ok c' k \<and>
    list_all (ring_write (laid_out (call_image cl) (pm_host c)) k) es \<and> length es \<le> 1 \<and>
    pm_host c' = (let h = laid_out (call_image cl) (pm_host c) in h\<lparr>send_queue :=
      queued h (wr_ws h (length (call_image cl)) RING_HEADER RING_HEADER False) # es @ [queued h (wr_ws h 4 0 0 True)]\<rparr>)"
proof -
  have v: "verbs_ok v" "send_queue (pm_host c) = []" "length (write_mem (pm_host c)) = sync_buf_size"
    using l by (auto simp: linked_def)
  have f: "call_strings cl" "sizeof_Request + call_size cl \<le> MAX_REQUEST" using l(4) by (auto simp: pmem_allowed_def call_fits_def)
  have hd: "unat (buf_head c) < unat BUFSIZE" using l(2) by (simp add: ring_ok_def)
  have put: ?thesis if cl: "call_image cl = request_image opr key val" "0 \<notin> set key" "0 \<notin> set val"
    "sizeof_Request + (length key + length val) \<le> MAX_REQUEST" "PMemClient_issue v cl c = PMemClient_SendWrite v key val opr c" for key val opr
  proof -
    let ?img = "request_image opr key val" and ?h = "laid_out (request_image opr key val) (pm_host c)"
    obtain h where h: "PMemClient_SendWrite v key val opr c = Some \<lparr>pm_host = sent_ring ?img c, buf_head = h\<rparr>" "unat h < unat BUFSIZE"
      using PMem_SendWrite_sent [OF v cl(2-4) hd] by blast
    have n: "length ?img \<le> 8192" "RING_HEADER + length ?img \<le> sync_buf_size"
      using cl(4) by (simp_all add: MAX_REQUEST_def sync_buf_size_def)
    have "ring_write ?h k (queued ?h (wr_ww ?h (length ?img) RING_HEADER (ring_pos c (length ?img)) False))"
      unfolding ring_write_def using n ring_pos_fits [OF n(1) l(2)] by blast
    with h cl(1,5) l(2) show ?thesis
      by (intro exI [of _ "\<lparr>pm_host = sent_ring ?img c, buf_head = h\<rparr>"]
          exI [of _ "[queued ?h (wr_ww ?h (length ?img) RING_HEADER (ring_pos c (length ?img)) False)]"])
        (simp add: ring_ok_def sent_ring_def Let_def)
  qed
  have other: ?thesis if "PMemClient_issue v cl c = Some (c\<lparr>pm_host := sent0 (call_image cl) (pm_host c)\<rparr>)"
    using that l(2) by (intro exI [of _ "c\<lparr>pm_host := sent0 (call_image cl) (pm_host c)\<rparr>"] exI [of _ "[]"])
      (simp add: sent0_def ring_ok_def Let_def)
  show ?thesis
  proof (cases cl)
    case (Call_put key val)
    then show ?thesis using f by (intro put [of PUT key val]) simp_all
  next
    case (Call_update key val)
    then show ?thesis using f by (intro put [of UPDATE key val]) simp_all
  next
    case (Call_get key)
    then show ?thesis using f PMem_SendKey_sent [OF v, of key GET] by (intro other) (simp add: PMemClient_SendGet_def)
  next
    case (Call_delete key)
    then show ?thesis using f PMem_SendKey_sent [OF v, of key DELETE] by (intro other) (simp add: PMemClient_SendDelete_def)
  next
    case Call_sync
    then show ?thesis using PMem_SendBare_sent [OF v, of SYNC] by (intro other) (simp add: PMemClient_SendSync_def)
  qed
qed

lemma ring_write_executed:
  assumes l: "linked v send_mem a b" and e: "ring_write a b e" and q: "send_queue a = e # q"
  shows "\<exists>b'. execute v a b = (a\<lparr>send_queue := q\<rparr>, b') \<and> linked v send_mem a b' \<and> send_mem b' = send_mem b \<and>
    send_queue b' = send_queue b \<and> out_cq b' = out_cq b \<and> ring_write a b' = ring_write a b \<and> (\<forall>c. ring_ok c b' = ring_ok c b)"
proof -
  obtain n p where e: "e = queued a (wr_ww a n RING_HEADER p False)" "RING_HEADER + n \<le> sync_buf_size" "p + n \<le> length (write_mem b)"
    using e by (auto simp: ring_write_def)
  have n: "RING_HEADER + n \<le> length (write_mem a)" by (rule linked_bounds [OF l e(2)])
  let ?m = "mwrite (write_mem b) p (mread (write_mem a) RING_HEADER n)"
  have m: "length ?m = length (write_mem b)" using n e(3) by simp
  have "execute v a b = (a\<lparr>send_queue := q\<rparr>, b\<lparr>write_mem := ?m\<rparr>)"
    using execute_ww [of v a b n RING_HEADER p False q] l q e n by (simp add: linked_def)
  moreover have "linked v send_mem a (b\<lparr>write_mem := ?m\<rparr>)" using l m by (simp add: linked_def host_ok_mem)
  moreover have "ring_write a (b\<lparr>write_mem := ?m\<rparr>) = ring_write a b" using m by (simp add: ring_write_def fun_eq_iff)
  ultimately show ?thesis using m by (auto simp: ring_ok_def)
qed

sublocale request_store \<subseteq> pmem: mailbox ops ok contents fits v "pmem_front v ops" send_mem "\<lambda>m h. h\<lparr>send_mem := m\<rparr>"
  wr_ws wr_sw ring_write ring_ok pmem_allowed pmem_val_max for v
proof
  show "sizeof_RequestReply + pmem_val_max \<le> MAX_REQUEST"
    by (simp add: pmem_val_max_def sizeof_RequestReply_def MAX_REQUEST_def MAX_INLINE_SIZE_def)
  show "call_fits cl \<and> call_values pmem_val_max cl" if "pmem_allowed cl" for cl
    using that by (simp add: pmem_allowed_def)
  show "linked v send_mem a (b\<lparr>send_mem := m\<rparr>)" if "linked v send_mem a b" "length m = length (send_mem b)" for a b m
    using that by (simp add: linked_def host_ok_mem)
  show "execute v a b = (a\<lparr>send_queue := q, out_cq := out_cq a @ (if sig then [True] else [])\<rparr>,
      b\<lparr>send_mem := mwrite (send_mem b) ro (mread (write_mem a) lo n)\<rparr>)"
    if "linked v send_mem a b" "send_queue a = queued a (wr_ws a n lo ro sig) # q" "lo + n \<le> sync_buf_size" "ro + n \<le> sync_buf_size"
    for a b n lo ro sig q
    using that by (intro execute_ws) (auto simp: linked_def)
  show "execute v b a = (b\<lparr>send_queue := q, out_cq := out_cq b @ (if sig then [True] else [])\<rparr>,
      a\<lparr>write_mem := mwrite (write_mem a) ro (mread (send_mem b) lo n)\<rparr>)"
    if "linked v send_mem a b" "send_queue b = queued b (wr_sw b n lo ro sig) # q" "lo + n \<le> sync_buf_size" "ro + n \<le> sync_buf_size"
      "0 < n" "n \<le> sizeof_RequestReply + pmem_val_max"
    for a b n lo ro sig q
    using that by (intro execute_sw) (auto simp: linked_def pmem_val_max_def MAX_INLINE_SIZE_def sizeof_RequestReply_def)
  show "\<exists>b'. execute v a b = (a\<lparr>send_queue := q\<rparr>, b') \<and> linked v send_mem a b' \<and> send_mem b' = send_mem b \<and>
      send_queue b' = send_queue b \<and> out_cq b' = out_cq b \<and> ring_write a b' = ring_write a b \<and> (\<forall>c. ring_ok c b' = ring_ok c b)"
    if "linked v send_mem a b" "ring_write a b e" "send_queue a = e # q" for a b e q
    using that by (rule ring_write_executed)
  show "\<exists>c' es. issue (pmem_front v ops) cl c = Some c' \<and> ring_ok c' k \<and>
      list_all (ring_write (laid_out (call_image cl) (client_host (pmem_front v ops) c)) k) es \<and> length es \<le> 1 \<and>
      client_host (pmem_front v ops) c' = (let h = laid_out (call_image cl) (client_host (pmem_front v ops) c) in h\<lparr>send_queue :=
        queued h (wr_ws h (length (call_image cl)) RING_HEADER RING_HEADER False) # es @ [queued h (wr_ws h 4 0 0 True)]\<rparr>)"
    if "linked v send_mem (client_host (pmem_front v ops) c) k" "ring_ok c k" "send_queue (client_host (pmem_front v ops) c) = []"
      "pmem_allowed cl" for c k cl
    using pmem_issue [of v c k cl] that by (simp add: pmem_front_def)
  show "handle (pmem_front v ops) k d = Answered (let h = k\<lparr>send_mem := m\<rparr> in h\<lparr>send_queue :=
      [queued h (wr_sw h (sizeof_RequestReply + unat (get_val_size RING_HEADER m)) RING_HEADER RING_HEADER False),
       queued h (wr_sw h 4 0 0 True)]\<rparr>) d'"
    if "verbs_ok v" "send_queue k = []" "SyncClerk_serve ops (set_header CLERK_DONE (send_mem k)) d = Served m d'" for k d m d'
    using pmem_round_served [OF that] by (simp add: pmem_front_def)
qed (simp_all add: pmem_front_def PMemClerk_round_def ring_write_def ring_ok_def fun_eq_iff)

section \<open>Properties\<close>

definition pmem_connected :: "(pmem_client, host) conn \<Rightarrow> bool" where
  "pmem_connected cn \<longleftrightarrow>
     host_ok (pm_host (client cn)) \<and> host_ok (clerk cn) \<and> knows (pm_host (client cn)) (clerk cn) \<and> knows (clerk cn) (pm_host (client cn)) \<and>
     length (write_mem (pm_host (client cn))) = sync_buf_size \<and> sync_buf_size \<le> length (send_mem (clerk cn)) \<and> ring_ok (client cn) (clerk cn) \<and>
     send_queue (pm_host (client cn)) = [] \<and> out_cq (pm_host (client cn)) = [] \<and> send_queue (clerk cn) = [] \<and> out_cq (clerk cn) = [] \<and>
     header (write_mem (pm_host (client cn))) = CLIENT_DONE \<and> header (send_mem (clerk cn)) \<noteq> CLIENT_DONE \<and>
     client_pc cn = C_idle \<and> clerk_pc cn = K_wait"

lemma pmem_front_host [simp]: "client_host (pmem_front v ops) c = pm_host c"
  by (simp add: pmem_front_def)

lemma pmem_connected_idle: "verbs_ok v \<Longrightarrow> pmem_connected cn \<Longrightarrow> bcr.pmem.mb_ok v mem Idle cn"
  by (simp add: pmem_connected_def bcr.pmem.mb_ok_def linked_def bcr.pmem.clerk_quiet_def)


text \<open>
  The state these properties start from is the one the constructor, \<^verbatim>\<open>Connect\<close> and \<^verbatim>\<open>Listen\<close> lead to.
\<close>

lemma pmem_set_up_connects:
  assumes "machine_ok mc1 opt dev1" "machine_ok mc2 opt dev2" "length (mc_mem mc1) = sync_buf_size"
    "length (mc_mem mc2) = unat BUFSIZE" "sync_buf_size \<le> length (mc_send_mem mc2)" "header (mc_send_mem mc2) \<noteq> CLIENT_DONE"
  shows "\<exists>a b a' b'. PMemClient_new mc1 opt = Inr (dev1, a) \<and> new_context mc2 dev2 = Inr b \<and>
    PMemClient_Connect mc1 dev1 (Some (wire_certificate (local_cert b))) a = Inr a' \<and>
    PMemServer_accept mc2 True dev2 (Some (wire_certificate (local_cert (pm_host a)))) = Inr b' \<and>
    pmem_connected \<lparr>client = a', client_pc = C_idle, answers = [], clerk = b', clerk_pc = K_wait\<rparr>"
proof -
  obtain a where a: "new_context mc1 dev1 = Inr a" "host_ok a" "certified a" "write_mem a = mc_mem mc1" "send_queue a = []" "out_cq a = []"
    using new_context_ok [OF assms(1)] by blast
  obtain b where b: "new_context mc2 dev2 = Inr b" "host_ok b" "certified b" "write_mem b = mc_mem mc2" "send_mem b = mc_send_mem mc2"
    "send_queue b = []" "out_cq b = []"
    using new_context_ok [OF assms(2)] by blast
  let ?a = "\<lparr>pm_host = a\<lparr>remote_cert := local_cert b, write_mem := set_header CLIENT_DONE (mc_mem mc1)\<rparr>, buf_head = 0\<rparr>"
  let ?b = "b\<lparr>remote_cert := local_cert a\<rparr>"
  have m: "4 \<le> length (mc_mem mc1)" using assms(3) by (simp add: sync_buf_size_def MAX_REQUEST_def)
  have "PMemClient_Connect mc1 dev1 (Some (wire_certificate (local_cert b))) \<lparr>pm_host = a, buf_head = 0\<rparr> = Inr ?a"
    using connect_context_ok [OF assms(1) b(3), of a] a(4) by (simp add: PMemClient_Connect_def)
  moreover have "PMemServer_accept mc2 True dev2 (Some (wire_certificate (local_cert a))) = Inr ?b"
    using connect_context_ok [OF assms(2) a(3), of b] b(1)
    by (auto simp: PMemServer_accept_def new_context_def set_up_def split: sum.splits)
  moreover have "pmem_connected \<lparr>client = ?a, client_pc = C_idle, answers = [], clerk = ?b, clerk_pc = K_wait\<rparr>"
    using a b assms(3-6) m by (simp add: pmem_connected_def host_ok_def knows_def certified_def ring_ok_def BUFSIZE_nat)
  moreover have "PMemClient_new mc1 opt = Inr (dev1, \<lparr>pm_host = a, buf_head = 0\<rparr>)"
    using assms(1) a(1) by (simp add: PMemClient_new_def machine_ok_def)
  ultimately show ?thesis using b(1) by (intro exI [of _ "\<lparr>pm_host = a, buf_head = 0\<rparr>"]) auto
qed

text \<open>A server to apply the properties to.\<close>

definition sample_pmem :: "host \<Rightarrow> host \<Rightarrow> db_impl \<Rightarrow> (pmem_client, host, db_impl) net" where
  "sample_pmem a b db =
     \<lparr>conns = (\<lambda>_. \<lparr>client = \<lparr>pm_host = a, buf_head = 0\<rparr>, client_pc = C_idle, answers = [], clerk = b, clerk_pc = K_wait\<rparr>),
      store = db, taken = [], crashed = False\<rparr>"

lemma header_zero: "header (replicate 16384 0) = 0"
  by (simp add: header_def mread_def un_le32_def le_val_replicate)

lemma sample_pmem:
  "\<exists>a b db. no_calls_yet (sample_pmem a b db) \<and> (\<forall>i. pmem_connected (conns (sample_pmem a b db) i)) \<and>
    bitcask_ok 1000 (store (sample_pmem a b db)) \<and> db_map (store (sample_pmem a b db)) = Map.empty"
proof -
  have len: "length (set_header CLIENT_DONE (replicate 8200 0)) < 2 ^ 32" "length (replicate (unat BUFSIZE) (0 :: byte)) < 2 ^ 32"
    by (simp_all only: length_replicate length_set_header BUFSIZE_nat) simp_all
  obtain a b where ab: "host_ok a" "host_ok b" "knows a b" "knows b a"
    "write_mem a = set_header CLIENT_DONE (replicate 8200 0)" "write_mem b = replicate (unat BUFSIZE) 0" "send_mem b = replicate 16384 0"
    "send_queue a = []" "out_cq a = []" "send_queue b = []" "out_cq b = []"
    using sample_peers [OF len] by blast
  obtain db where db: "db_ok db" "db_map db = Map.empty" "length (data_files db) = 1" using sample_db by blast
  have h: "header (set_header CLIENT_DONE (replicate 8200 0)) = CLIENT_DONE" by simp
  have "pmem_connected (conns (sample_pmem a b db) i)" for i
    using ab h header_zero
    by (simp add: sample_pmem_def pmem_connected_def sync_buf_size_def MAX_REQUEST_def RING_HEADER_def CLIENT_DONE_def ring_ok_def)
  with db show ?thesis
    by (intro exI [of _ a] exI [of _ b] exI [of _ db]) (simp add: sample_pmem_def no_calls_yet_def bitcask_ok_def)
qed

lemma sample_call_pmem: "pmem_allowed sample_call"
  by (simp add: pmem_allowed_def sample_call_fits) (simp add: sample_call_def pmem_val_max_def MAX_INLINE_SIZE_def sizeof_RequestReply_def)


text \<open>
  C32: A put is in persistent memory before the clerk can see it: of the three writes a put
  posts, the second stores the whole request in the ring while the clerk's header word is
  still what it was, and only the third changes that word.
\<close>

theorem pmem_put_is_logged_first:
  assumes "linked v send_mem (pm_host c) k" "ring_ok c k" "send_queue (pm_host c) = []" "out_cq (pm_host c) = []"
    "header (write_mem (pm_host c)) = CLIENT_DONE" "call_fits (Call_put key val)"
  shows "\<exists>c' a1 k1 a2 k2 a3 k3. PMemClient_issue v (Call_put key val) c = Some c' \<and>
    execute v (pm_host c') k = (a1, k1) \<and> execute v a1 k1 = (a2, k2) \<and> execute v a2 k2 = (a3, k3) \<and>
    header (send_mem k2) = header (send_mem k) \<and>
    mread (write_mem k2) (ring_pos c (8 + length key + length val)) (8 + length key + length val) = request_image PUT key val \<and>
    write_mem k3 = write_mem k2 \<and> header (send_mem k3) = CLIENT_DONE \<and> send_queue a3 = [] \<and> out_cq a3 = [True]"
proof -
  let ?img = "request_image PUT key val" and ?n = "8 + length key + length val"
  have f: "0 \<notin> set key" "0 \<notin> set val" "sizeof_Request + (length key + length val) \<le> MAX_REQUEST" using assms(6) by (auto simp: call_fits_def)
  have l: "verbs_ok v" "host_ok (pm_host c)" "host_ok k" "knows (pm_host c) k" "length (write_mem (pm_host c)) = sync_buf_size"
    "sync_buf_size \<le> length (send_mem k)" using assms(1) by (auto simp: linked_def)
  have hd: "unat (buf_head c) < unat BUFSIZE" using assms(2) by (simp add: ring_ok_def)
  obtain h where c: "PMemClient_issue v (Call_put key val) c = Some \<lparr>pm_host = sent_ring ?img c, buf_head = h\<rparr>"
    using PMem_SendWrite_sent [OF l(1) assms(3) l(5) f hd] by auto
  let ?h = "laid_out ?img (pm_host c)" and ?p = "ring_pos c ?n"
  have n: "length ?img = ?n" "?n \<le> 8192" "RING_HEADER + ?n \<le> sync_buf_size"
    using f(3) by (simp_all add: sizeof_Request_def MAX_REQUEST_def sync_buf_size_def)
  have p: "?p + ?n \<le> length (write_mem k)" by (rule ring_pos_fits [OF n(2) assms(2)])
  have m: "length (mwrite (write_mem (pm_host c)) RING_HEADER ?img) = length (write_mem (pm_host c))" using n l(5) by simp
  have h: "host_ok ?h" "knows ?h k" "length (write_mem ?h) = sync_buf_size" "out_cq ?h = []" "mread (write_mem ?h) RING_HEADER ?n = ?img"
    using l m n assms(4) by (simp_all add: laid_out_def host_ok_mem mread_mwrite_same RING_HEADER_def sync_buf_size_def)
  have "RING_HEADER \<le> length (write_mem (pm_host c))" using l(5) n by linarith
  then have hh: "header (write_mem ?h) = CLIENT_DONE" using assms(5) by (simp add: laid_out_def)
  let ?q2 = "queued ?h (wr_ww ?h ?n RING_HEADER ?p False)" and ?q3 = "queued ?h (wr_ws ?h 4 0 0 True)"
  let ?k1 = "k\<lparr>send_mem := mwrite (send_mem k) RING_HEADER ?img\<rparr>"
  have lk: "RING_HEADER + ?n \<le> length (send_mem k)" "4 \<le> length (send_mem k)" "RING_HEADER \<le> length (send_mem k)"
    using n l(6) by (auto simp: sync_buf_size_def MAX_REQUEST_def RING_HEADER_def)
  have k1: "host_ok ?k1" using l(3) lk n by (simp add: host_ok_mem)
  have e1: "execute v (sent_ring ?img c) k = (?h\<lparr>send_queue := [?q2, ?q3], out_cq := []\<rparr>, ?k1)"
    using execute_ws [of v "sent_ring ?img c" k ?n RING_HEADER RING_HEADER False "[?q2, ?q3]"] l h n lk
    by (simp add: sent_ring_def Let_def)
  let ?k2 = "?k1\<lparr>write_mem := mwrite (write_mem k) ?p ?img\<rparr>" and ?a1 = "?h\<lparr>send_queue := [?q2, ?q3], out_cq := []\<rparr>"
  have e2: "execute v ?a1 ?k1 = (?h\<lparr>send_queue := [?q3], out_cq := []\<rparr>, ?k2)"
    using execute_ww [of v ?a1 ?k1 ?n RING_HEADER ?p False "[?q3]"] l h n k1 p by simp
  have k2: "host_ok ?k2" using k1 p n by (simp add: host_ok_mem)
  let ?a2 = "?h\<lparr>send_queue := [?q3], out_cq := []\<rparr>"
  have e3: "execute v ?a2 ?k2 = (?h\<lparr>send_queue := [], out_cq := [True]\<rparr>, ?k2\<lparr>send_mem := mwrite (send_mem ?k2) 0 (mread (write_mem ?h) 0 4)\<rparr>)"
    using execute_ws [of v ?a2 ?k2 4 0 0 True "[]"] l h n k2 lk by (simp add: sync_buf_size_def)
  show ?thesis
  proof (intro exI conjI)
    show "PMemClient_issue v (Call_put key val) c = Some \<lparr>pm_host = sent_ring ?img c, buf_head = h\<rparr>" by (rule c)
    show "execute v (pm_host \<lparr>pm_host = sent_ring ?img c, buf_head = h\<rparr>) k = (?a1, ?k1)" using e1 by simp
    show "execute v ?a1 ?k1 = (?a2, ?k2)" by (rule e2)
    show "execute v ?a2 ?k2 = (?h\<lparr>send_queue := [], out_cq := [True]\<rparr>, ?k2\<lparr>send_mem := mwrite (send_mem ?k2) 0 (mread (write_mem ?h) 0 4)\<rparr>)"
      by (rule e3)
  qed (use p n lk h hh in \<open>simp_all add: mread_mwrite_same bcr.pmem.header_word\<close>)
qed

theorem pmem_put_is_logged_first_witness:
  "\<exists>c k c' a1 k1 a2 k2. PMemClient_issue rc_verbs (Call_put [1] [2]) c = Some c' \<and>
    execute rc_verbs (pm_host c') k = (a1, k1) \<and> execute rc_verbs a1 k1 = (a2, k2) \<and>
    header (send_mem k2) = header (send_mem k) \<and> mread (write_mem k2) (ring_pos c 10) 10 = request_image PUT [1] [2]"
proof -
  obtain a b db where "\<forall>i. pmem_connected (conns (sample_pmem a b db) i)" using sample_pmem by blast
  then have "pmem_connected (conns (sample_pmem a b db) 0)" by blast
  moreover have "call_fits (Call_put [1] [2])" by (simp add: call_fits_def sizeof_Request_def MAX_REQUEST_def)
  ultimately obtain c' a1 k1 a2 k2 where "PMemClient_issue rc_verbs (Call_put [1] [2]) (client (conns (sample_pmem a b db) 0)) = Some c'"
    "execute rc_verbs (pm_host c') (clerk (conns (sample_pmem a b db) 0)) = (a1, k1)" "execute rc_verbs a1 k1 = (a2, k2)"
    "header (send_mem k2) = header (send_mem (clerk (conns (sample_pmem a b db) 0)))"
    "mread (write_mem k2) (ring_pos (client (conns (sample_pmem a b db) 0)) (8 + length [1 :: byte] + length [2 :: byte]))
       (8 + length [1 :: byte] + length [2 :: byte]) = request_image PUT [1] [2]"
    using pmem_put_is_logged_first [of rc_verbs "client (conns (sample_pmem a b db) 0)" "clerk (conns (sample_pmem a b db) 0)" "[1]" "[2]"] rc_verbs_ok
    unfolding pmem_connected_def linked_def by blast
  moreover have "8 + length [1 :: byte] + length [2 :: byte] = 10" by simp
  ultimately show ?thesis by metis
qed

end
