(* ===== verification/Group_Front.thy ===== *)
theory Group_Front
  imports Sync_Net
begin

text \<open>
  The group-commit front end, \<^verbatim>\<open>frontend/group/group.cc\<close>. Clients and transport are those of the
  synchronous front end, statement by statement. The clerks differ: one that has a request to
  log enters a queue; the clerk at the head of the queue leads, collects the requests of the
  queue into one batch, stores the batch, and lets the clerks behind it go.

  A step of the model is what a clerk does between two points at which another clerk can
  interfere: a section under \<^verbatim>\<open>global_mutex\<close>, or the call of the store between two of them. A
  request appears in the buffer of an idle clerk, and a reply is the bytes the clerk posts.
\<close>

section \<open>The client and the server\<close>

text \<open>Their code is that of the synchronous front end, statement by statement.\<close>

definition GroupClient_new :: "machine \<Rightarrow> MyOption \<Rightarrow> db_error + rdma_device \<times> host" where
  "GroupClient_new mc opt = SyncClient_new mc opt"

definition GroupClient_Connect :: "machine \<Rightarrow> rdma_device \<Rightarrow> bytes option \<Rightarrow> host \<Rightarrow> db_error + host" where
  "GroupClient_Connect mc dev received h = SyncClient_Connect mc dev received h"

definition GroupClient_SendWrite :: "verbs \<Rightarrow> bytes \<Rightarrow> bytes \<Rightarrow> Operation \<Rightarrow> host \<Rightarrow> host option" where
  "GroupClient_SendWrite v key val opr h = SyncClient_SendWrite v key val opr h"

definition GroupClient_SendGet :: "verbs \<Rightarrow> bytes \<Rightarrow> host \<Rightarrow> host option" where
  "GroupClient_SendGet v key h = SyncClient_SendGet v key h"

definition GroupClient_SendDelete :: "verbs \<Rightarrow> bytes \<Rightarrow> host \<Rightarrow> host option" where
  "GroupClient_SendDelete v key h = SyncClient_SendDelete v key h"

definition GroupClient_SendSync :: "verbs \<Rightarrow> host \<Rightarrow> host option" where
  "GroupClient_SendSync v h = SyncClient_SendSync v h"

definition GroupClient_SendClose :: "verbs \<Rightarrow> host \<Rightarrow> host option" where
  "GroupClient_SendClose v h = SyncClient_SendClose v h"

definition GroupClient_finish :: "call \<Rightarrow> bytes \<Rightarrow> (bytes \<times> answer) option" where
  "GroupClient_finish cl m = SyncClient_finish cl m"

definition GroupServer_new :: "machine \<Rightarrow> MyOption \<Rightarrow> db_error + rdma_device" where
  "GroupServer_new mc opt = SyncServer_new mc opt"

definition GroupServer_accept :: "machine \<Rightarrow> rdma_device \<Rightarrow> bytes option \<Rightarrow> db_error + host" where
  "GroupServer_accept mc dev received = SyncServer_accept mc dev received"

section \<open>The batch\<close>

record WriteBatch =
  batch_length :: nat
  batch_keys :: "bytes list"
  batch_DBIndexes :: "Index list"
  batch_buffer :: bytes

text \<open>
  The loop of \<^verbatim>\<open>BuildBatchGroup\<close> over the queue, each writer with the buffer its request lies in.
  The result is the batch and the last writer taken into it; \<open>None\<close> is an access outside a buffer.
\<close>

fun build_loop :: "(nat \<times> bytes) list \<Rightarrow> nat option \<Rightarrow> WriteBatch \<Rightarrow> (WriteBatch \<times> nat option) option" where
  "build_loop [] last_writer b = Some (b, last_writer)"
| "build_loop ((w, m) # ws) last_writer b =
     (let key_sz = get_key_size RING_HEADER m
      in do {
           key \<leftarrow> load m (RING_HEADER + sizeof_Request) key_sz;
           d \<leftarrow> load m RING_HEADER (unat (Length RING_HEADER m));
           buf \<leftarrow> memcpy (batch_buffer b) (batch_length b) d;
           let b = \<lparr>batch_length = batch_length b + unat (Length RING_HEADER m),
                    batch_keys = batch_keys b @ [key],
                    batch_DBIndexes = batch_DBIndexes b @
                      [file_Index 0 (of_nat (batch_length b + sizeof_Request)) (of_nat key_sz) (get_val_size RING_HEADER m)],
                    batch_buffer = buf\<rparr>;
           if batch_length b \<ge> BATCH_SIZE then Some (b, Some w) else build_loop ws (Some w) b })"

definition BuildBatchGroup :: "(nat \<times> bytes) list \<Rightarrow> WriteBatch \<Rightarrow> (WriteBatch \<times> nat option) option" where
  "BuildBatchGroup writers b = build_loop writers None (b\<lparr>batch_length := 0, batch_keys := [], batch_DBIndexes := []\<rparr>)"

section \<open>The clerks\<close>

text \<open>
  Where a clerk is: spinning on its header, in \<^verbatim>\<open>Wait\<close> for its writer, out of the mutex as the
  leader before the batch is built, before it is stored, after it is stored, or gone.
\<close>

datatype group_pc =
    G_wait
  | G_queued
  | G_lead
  | G_batch "nat option"
  | G_stored "nat option"
  | G_closed

text \<open>
  A clerk with the \<^verbatim>\<open>Writer\<close> on its stack. \<open>gk_signalled\<close> is a \<^verbatim>\<open>Signal\<close> to its condition variable
  it has not woken up from. \<open>gk_replies\<close> and \<open>gk_acked\<close> record what it has posted, \<open>group_log\<close>
  and \<open>group_batches\<close> what has been stored; they are not part of the program.
\<close>

record group_clerk =
  gk_mem :: bytes
  gk_pc :: group_pc
  gk_done :: bool
  gk_signalled :: bool
  gk_replies :: "bytes list"
  gk_acked :: "(bytes \<times> bytes) list"

record 'd group =
  clerks :: "group_clerk list"
  writers_queue :: "nat list"
  group_batch :: WriteBatch
  group_store :: 'd
  group_log :: "(nat \<times> bytes \<times> bytes) list"
  group_batches :: nat
  group_crashed :: bool

definition set_clerk :: "nat \<Rightarrow> group_clerk \<Rightarrow> 'd group \<Rightarrow> 'd group" where
  "set_clerk i k s = s\<lparr>clerks := (clerks s)[i := k]\<rparr>"

text \<open>What is posted at \<^verbatim>\<open>send_reply\<close>; the clerk is then back in its loop.\<close>

definition send_reply :: "bytes \<Rightarrow> group_clerk \<Rightarrow> group_clerk" where
  "send_reply m k =
     k\<lparr>gk_mem := m, gk_pc := G_wait,
       gk_replies := gk_replies k @ [mread m RING_HEADER (sizeof_RequestReply + unat (get_val_size RING_HEADER m))]\<rparr>"

text \<open>The key and value of a logged request, for the records the model keeps.\<close>

definition request_pair :: "bytes \<Rightarrow> bytes \<times> bytes" where
  "request_pair m =
     (mread m (RING_HEADER + sizeof_Request) (get_key_size RING_HEADER m),
      mread m (RING_HEADER + sizeof_Request + get_key_size RING_HEADER m) (unat (get_val_size RING_HEADER m)))"

definition ack :: "bytes \<Rightarrow> group_clerk \<Rightarrow> group_clerk" where
  "ack m k = k\<lparr>gk_acked := gk_acked k @ [request_pair m]\<rparr>"

definition group_get :: "'d DBType \<Rightarrow> bytes \<Rightarrow> 'd \<Rightarrow> 'd served" where
  "group_get ops m d =
     (case load m (RING_HEADER + sizeof_Request) (get_key_size RING_HEADER m) of
        None \<Rightarrow> Serve_fail Undefined
      | Some key \<Rightarrow>
          (case db_get ops d key of
             Inl e \<Rightarrow> Serve_fail e
           | Inr (d, Some val) \<Rightarrow>
               (let n = of_nat (length val) :: u32;
                    m = set_val_size RING_HEADER n (set_status RING_HEADER OK m)
                in case memcpy m (RING_HEADER + sizeof_RequestReply) (take (unat n) val) of
                     None \<Rightarrow> Serve_fail Undefined
                   | Some m \<Rightarrow> Served m d)
           | Inr (d, None) \<Rightarrow> Served (set_status RING_HEADER NOTFOUND m) d))"

text \<open>A clerk that finds a request: the part of its round up to the first wait, or to the reply.\<close>

definition take_request :: "'d DBType \<Rightarrow> nat \<Rightarrow> 'd group \<Rightarrow> 'd group" where
  "take_request ops i s =
     (let k = clerks s ! i;
          m = set_header CLERK_DONE (gk_mem k)
      in case get_op RING_HEADER m of
           Some CLOSE \<Rightarrow> set_clerk i (k\<lparr>gk_mem := m, gk_pc := G_closed\<rparr>) s
         | Some GET \<Rightarrow>
             (case group_get ops m (group_store s) of
                Served m d \<Rightarrow> (set_clerk i (send_reply m k) s)\<lparr>group_store := d\<rparr>
              | _ \<Rightarrow> s\<lparr>group_crashed := True\<rparr>)
         | Some SYNC \<Rightarrow> (set_clerk i (send_reply m k) s)\<lparr>group_store := db_set_sync ops (group_store s)\<rparr>
         | _ \<Rightarrow>
             (set_clerk i (k\<lparr>gk_mem := m, gk_done := False, gk_signalled := False,
                             gk_pc := (if writers_queue s = [] then G_lead else G_queued)\<rparr>) s)
               \<lparr>writers_queue := writers_queue s @ [i]\<rparr>)"

text \<open>A clerk that wakes up in \<^verbatim>\<open>Wait\<close> and looks at its writer and the head of the queue again.\<close>

definition wake_up :: "nat \<Rightarrow> 'd group \<Rightarrow> 'd group" where
  "wake_up i s =
     (let k = (clerks s ! i)\<lparr>gk_signalled := False\<rparr>
      in if gk_done k
         then set_clerk i (ack (gk_mem k) (send_reply (set_val_size RING_HEADER 0 (set_status RING_HEADER OK (gk_mem k))) k)) s
         else if writers_queue s \<noteq> [] \<and> hd (writers_queue s) = i then set_clerk i (k\<lparr>gk_pc := G_lead\<rparr>) s
         else set_clerk i k s)"

text \<open>The end of the batch: the loop that takes the writers of the batch off the queue.\<close>

fun pop_writers :: "nat \<Rightarrow> nat option \<Rightarrow> nat list \<Rightarrow> group_clerk list \<Rightarrow> (nat list \<times> group_clerk list) option" where
  "pop_writers me last_writer [] ks = None"
| "pop_writers me last_writer (ready # ws) ks =
     (let ks = (if ready \<noteq> me then ks[ready := (ks ! ready)\<lparr>gk_done := True, gk_signalled := True\<rparr>] else ks)
      in if Some ready = last_writer then Some (ws, ks) else pop_writers me last_writer ws ks)"

definition signal_head :: "nat list \<Rightarrow> group_clerk list \<Rightarrow> group_clerk list" where
  "signal_head ws ks = (if ws = [] then ks else ks[hd ws := (ks ! hd ws)\<lparr>gk_signalled := True\<rparr>])"

definition finish_batch :: "nat \<Rightarrow> nat option \<Rightarrow> 'd group \<Rightarrow> 'd group" where
  "finish_batch i last_writer s =
     (case pop_writers i last_writer (writers_queue s) (clerks s) of
        None \<Rightarrow> s\<lparr>group_crashed := True\<rparr>
      | Some (ws, ks) \<Rightarrow>
          let ks = signal_head ws ks; k = ks ! i
          in s\<lparr>writers_queue := ws, clerks := ks[i := ack (gk_mem k) (send_reply (gk_mem k) k)]\<rparr>)"

text \<open>The writers of the queue up to the last one of the batch.\<close>

fun upto_last :: "nat option \<Rightarrow> nat list \<Rightarrow> nat list" where
  "upto_last last_writer [] = []"
| "upto_last last_writer (w # ws) = w # (if Some w = last_writer then [] else upto_last last_writer ws)"

definition queue_mem :: "'d group \<Rightarrow> (nat \<times> bytes) list" where
  "queue_mem s = map (\<lambda>w. (w, gk_mem (clerks s ! w))) (writers_queue s)"

text \<open>
  The next step of a clerk; \<open>None\<close> is a clerk that cannot go on, because it waits for a request or
  for a signal, because it is gone, or because the store does not return.
\<close>

definition clerk_step :: "'d DBType \<Rightarrow> nat \<Rightarrow> 'd group \<Rightarrow> 'd group option" where
  "clerk_step ops i s =
     (let k = clerks s ! i
      in case gk_pc k of
           G_wait \<Rightarrow> if header (gk_mem k) = CLIENT_DONE then Some (take_request ops i s) else None
         | G_queued \<Rightarrow> if gk_signalled k then Some (wake_up i s) else None
         | G_lead \<Rightarrow>
             (case BuildBatchGroup (queue_mem s) (group_batch s) of
                None \<Rightarrow> Some (s\<lparr>group_crashed := True\<rparr>)
              | Some (b, last_writer) \<Rightarrow> Some ((set_clerk i (k\<lparr>gk_pc := G_batch last_writer\<rparr>) s)\<lparr>group_batch := b\<rparr>))
         | G_batch last_writer \<Rightarrow>
             (case db_put_batch ops (group_store s) (batch_keys (group_batch s)) (batch_DBIndexes (group_batch s))
                     (batch_buffer (group_batch s)) (batch_length (group_batch s)) of
                None \<Rightarrow> None
              | Some (Inl _) \<Rightarrow> Some (s\<lparr>group_crashed := True\<rparr>)
              | Some (Inr (d, _)) \<Rightarrow>
                  Some ((set_clerk i (k\<lparr>gk_pc := G_stored last_writer\<rparr>) s)
                    \<lparr>group_store := d, group_batches := Suc (group_batches s),
                     group_log := group_log s @
                       map (\<lambda>w. (w, request_pair (gk_mem (clerks s ! w)))) (upto_last last_writer (writers_queue s))\<rparr>))
         | G_stored last_writer \<Rightarrow> Some (finish_batch i last_writer s)
         | G_closed \<Rightarrow> None)"

text \<open>
  The whole server: a clerk goes on, or the request of a client, laid out as the clients do,
  has arrived at an idle clerk.
\<close>

inductive server_step :: "'d DBType \<Rightarrow> 'd group \<Rightarrow> 'd group \<Rightarrow> bool" for ops where
  clerk_goes_on: "\<not> group_crashed s \<Longrightarrow> i < length (clerks s) \<Longrightarrow> clerk_step ops i s = Some s' \<Longrightarrow> server_step ops s s'"

inductive request_arrives :: "'d group \<Rightarrow> 'd group \<Rightarrow> bool" where
  arrives: "\<not> group_crashed s \<Longrightarrow> i < length (clerks s) \<Longrightarrow> gk_pc (clerks s ! i) = G_wait \<Longrightarrow>
    header (gk_mem (clerks s ! i)) \<noteq> CLIENT_DONE \<Longrightarrow> call_fits cl \<Longrightarrow>
    request_arrives s (set_clerk i ((clerks s ! i)\<lparr>gk_mem := set_header CLIENT_DONE (mwrite (gk_mem (clerks s ! i)) RING_HEADER (call_image cl))\<rparr>) s)"

inductive group_reach :: "'d DBType \<Rightarrow> 'd group \<Rightarrow> 'd group \<Rightarrow> bool" for ops s0 where
  group_start: "group_reach ops s0 s0"
| group_serves: "group_reach ops s0 s \<Longrightarrow> server_step ops s s' \<Longrightarrow> group_reach ops s0 s'"
| group_request: "group_reach ops s0 s \<Longrightarrow> request_arrives s s' \<Longrightarrow> group_reach ops s0 s'"

section \<open>Building a batch\<close>

definition write_request :: "bytes \<Rightarrow> bool" where
  "write_request m \<longleftrightarrow> length m = sync_buf_size \<and>
     (\<exists>opr key val. holds (request_image opr key val) m \<and> sizeof_Request + (length key + length val) \<le> MAX_REQUEST \<and>
        opr \<in> {PUT, UPDATE, DELETE})"

definition request_bytes :: "bytes \<Rightarrow> bytes" where
  "request_bytes m = mread m RING_HEADER (unat (Length RING_HEADER m))"

lemma write_requestD:
  assumes "write_request m"
  shows "\<exists>key val. request_pair m = (key, val) \<and> get_key_size RING_HEADER m = length key \<and>
    get_val_size RING_HEADER m = of_nat (length val) \<and> unat (Length RING_HEADER m) = 8 + (length key + length val) \<and>
    8 + (length key + length val) \<le> 8192 \<and> length m = 8200 \<and> request_bytes m = mread m 8 (8 + (length key + length val)) \<and>
    mread m 16 (length key) = key \<and> mread m (16 + length key) (length val) = val"
proof -
  obtain opr key val where m: "length m = sync_buf_size" "holds (request_image opr key val) m"
    "sizeof_Request + (length key + length val) \<le> MAX_REQUEST"
    using assms by (auto simp: write_request_def)
  have l: "length key < 2 ^ 24" "length val < 2 ^ 32" "unat (of_nat (length val) :: u32) = length val"
    using m(3) by (auto simp: sizeof_Request_def MAX_REQUEST_def intro!: unat_of_nat_len)
  have "mread m RING_HEADER (sizeof_Request + length key + length val) = request_image opr key val"
    using m(2) by (simp add: holds_def)
  note r = request_fields [OF this l(1,2)]
  have n: "unat (of_nat (8 + (length key + length val)) :: u32) = 8 + (length key + length val)"
    using m(3) by (intro unat_of_nat_len) (simp add: sizeof_Request_def MAX_REQUEST_def)
  have "Length RING_HEADER m = of_nat (8 + (length key + length val))"
    using r(2,3) by (simp add: Length_def sizeof_Request_def)
  with n have "unat (Length RING_HEADER m) = 8 + (length key + length val)" by metis
  with r l(3) m show ?thesis
    by (simp add: request_pair_def request_bytes_def RING_HEADER_def sizeof_Request_def MAX_REQUEST_def sync_buf_size_def)
qed

lemma length_request_bytes:
  "write_request m \<Longrightarrow> length (request_bytes m) = 8 + (length (fst (request_pair m)) + length (snd (request_pair m)))"
  by (drule write_requestD) auto

fun idx_list :: "nat \<Rightarrow> (bytes \<times> bytes) list \<Rightarrow> Index list" where
  "idx_list off [] = []"
| "idx_list off ((k, v) # ps) =
     file_Index 0 (of_nat (off + 8)) (of_nat (length k)) (of_nat (length v)) # idx_list (off + (8 + (length k + length v))) ps"

lemma idx_list_snoc:
  "idx_list off (ps @ [(k, v)]) = idx_list off ps @
     [file_Index 0 (of_nat (off + sum_list (map (\<lambda>p. 8 + (length (fst p) + length (snd p))) ps) + 8)) (of_nat (length k)) (of_nat (length v))]"
  by (induction off ps rule: idx_list.induct) (simp_all add: add.assoc)

text \<open>The batch that has taken in the requests of the buffers \<open>ms\<close>.\<close>

definition batch_of :: "bytes list \<Rightarrow> WriteBatch \<Rightarrow> bool" where
  "batch_of ms b \<longleftrightarrow> length (batch_buffer b) = BATCH_SIZE + MAX_REQUEST \<and>
     batch_length b = length (concat (map request_bytes ms)) \<and>
     take (batch_length b) (batch_buffer b) = concat (map request_bytes ms) \<and>
     batch_keys b = map (\<lambda>m. fst (request_pair m)) ms \<and> batch_DBIndexes b = idx_list 0 (map request_pair ms)"

lemma batch_ofD:
  assumes "batch_of ms b"
  shows "length (batch_buffer b) = BATCH_SIZE + MAX_REQUEST" "batch_length b = length (concat (map request_bytes ms))"
    "take (length (concat (map request_bytes ms))) (batch_buffer b) = concat (map request_bytes ms)"
    "batch_keys b = map (\<lambda>m. fst (request_pair m)) ms" "batch_DBIndexes b = idx_list 0 (map request_pair ms)"
  using assms unfolding batch_of_def by metis+

lemma batch_of_length:
  "\<forall>m\<in>set ms. write_request m \<Longrightarrow>
    length (concat (map request_bytes ms)) = sum_list (map (\<lambda>p. 8 + (length (fst p) + length (snd p))) (map request_pair ms))"
  by (induction ms) (simp_all add: length_request_bytes)

lemma batch_of_snoc:
  assumes "batch_of ms b" "\<forall>m\<in>set ms. write_request m" "write_request m" "batch_length b < BATCH_SIZE"
  shows "\<exists>buf key. load m (RING_HEADER + sizeof_Request) (get_key_size RING_HEADER m) = Some key \<and>
    load m RING_HEADER (unat (Length RING_HEADER m)) = Some (request_bytes m) \<and>
    memcpy (batch_buffer b) (batch_length b) (request_bytes m) = Some buf \<and>
    batch_of (ms @ [m]) \<lparr>batch_length = batch_length b + unat (Length RING_HEADER m), batch_keys = batch_keys b @ [key],
      batch_DBIndexes = batch_DBIndexes b @
        [file_Index 0 (of_nat (batch_length b + sizeof_Request)) (of_nat (get_key_size RING_HEADER m)) (get_val_size RING_HEADER m)],
      batch_buffer = buf\<rparr> \<and> unat (Length RING_HEADER m) \<le> MAX_REQUEST"
proof -
  obtain key val where m: "request_pair m = (key, val)" "get_key_size RING_HEADER m = length key"
    "get_val_size RING_HEADER m = of_nat (length val)" "unat (Length RING_HEADER m) = 8 + (length key + length val)"
    "8 + (length key + length val) \<le> 8192" "length m = 8200" "request_bytes m = mread m 8 (8 + (length key + length val))"
    "mread m 16 (length key) = key"
    using write_requestD [OF assms(3)] by blast
  let ?buf = "mwrite (batch_buffer b) (batch_length b) (request_bytes m)"
  have lr: "length (request_bytes m) = 8 + (length key + length val)" using m by simp
  have b: "batch_length b + length (request_bytes m) \<le> length (batch_buffer b)"
    using assms(1,4) lr m(5) by (simp add: batch_of_def MAX_REQUEST_def)
  have "take (batch_length b + length (request_bytes m)) ?buf = take (batch_length b) (batch_buffer b) @ request_bytes m"
    using b by (simp add: mwrite_def)
  then have "batch_of (ms @ [m]) \<lparr>batch_length = batch_length b + unat (Length RING_HEADER m), batch_keys = batch_keys b @ [key],
      batch_DBIndexes = batch_DBIndexes b @
        [file_Index 0 (of_nat (batch_length b + sizeof_Request)) (of_nat (get_key_size RING_HEADER m)) (get_val_size RING_HEADER m)],
      batch_buffer = ?buf\<rparr>"
    using batch_ofD [OF assms(1)] b m lr batch_of_length [OF assms(2)]
    by (simp add: batch_of_def idx_list_snoc sizeof_Request_def)
  with m b lr show ?thesis by (simp add: RING_HEADER_def sizeof_Request_def MAX_REQUEST_def)
qed

lemma build_loop_ok:
  assumes "distinct q" "\<forall>w\<in>set q. write_request (f w)" "q \<noteq> []" "batch_of ms b" "\<forall>m\<in>set ms. write_request m" "batch_length b < BATCH_SIZE"
  shows "\<exists>b' l. build_loop (map (\<lambda>w. (w, f w)) q) lw b = Some (b', Some l) \<and> l \<in> set q \<and>
    batch_of (ms @ map f (upto_last (Some l) q)) b' \<and> batch_length b' < BATCH_SIZE + MAX_REQUEST"
  using assms
proof (induction q arbitrary: lw b ms)
  case (Cons w ws)
  let ?m = "f w"
  have wr: "write_request ?m" using Cons.prems(2) by simp
  obtain buf key where s: "load ?m (RING_HEADER + sizeof_Request) (get_key_size RING_HEADER ?m) = Some key"
    "load ?m RING_HEADER (unat (Length RING_HEADER ?m)) = Some (request_bytes ?m)"
    "memcpy (batch_buffer b) (batch_length b) (request_bytes ?m) = Some buf"
    "unat (Length RING_HEADER ?m) \<le> MAX_REQUEST" and
    b1: "batch_of (ms @ [?m]) \<lparr>batch_length = batch_length b + unat (Length RING_HEADER ?m), batch_keys = batch_keys b @ [key],
      batch_DBIndexes = batch_DBIndexes b @
        [file_Index 0 (of_nat (batch_length b + sizeof_Request)) (of_nat (get_key_size RING_HEADER ?m)) (get_val_size RING_HEADER ?m)],
      batch_buffer = buf\<rparr>" (is "batch_of _ ?b1")
    using batch_of_snoc [OF Cons.prems(4,5) wr Cons.prems(6)] by blast
  have len: "batch_length ?b1 < BATCH_SIZE + MAX_REQUEST" using s(4) Cons.prems(6) by simp
  have step: "build_loop (map (\<lambda>w. (w, f w)) (w # ws)) lw b =
      (if BATCH_SIZE \<le> batch_length ?b1 then Some (?b1, Some w) else build_loop (map (\<lambda>w. (w, f w)) ws) (Some w) ?b1)"
    using s(1-3) by (simp add: Let_def)
  show ?case
  proof (cases "BATCH_SIZE \<le> batch_length ?b1 \<or> ws = []")
    case True
    then have "build_loop (map (\<lambda>w. (w, f w)) (w # ws)) lw b = Some (?b1, Some w)" using step by auto
    with b1 len show ?thesis by (intro exI [of _ ?b1] exI [of _ w]) simp
  next
    case False
    then obtain b' l where "build_loop (map (\<lambda>w. (w, f w)) ws) (Some w) ?b1 = Some (b', Some l)" "l \<in> set ws"
      "batch_of ((ms @ [?m]) @ map f (upto_last (Some l) ws)) b'" "batch_length b' < BATCH_SIZE + MAX_REQUEST"
      using Cons.IH [OF _ _ _ b1, of "Some w"] Cons.prems wr by auto
    with False step Cons.prems(1) show ?thesis by (intro exI [of _ b'] exI [of _ l]) auto
  qed
qed simp

lemma BuildBatchGroup_ok:
  assumes "distinct q" "\<forall>w\<in>set q. write_request (f w)" "q \<noteq> []" "length (batch_buffer b) = BATCH_SIZE + MAX_REQUEST"
  shows "\<exists>b' l. BuildBatchGroup (map (\<lambda>w. (w, f w)) q) b = Some (b', Some l) \<and> l \<in> set q \<and>
    batch_of (map f (upto_last (Some l) q)) b' \<and> batch_length b' < BATCH_SIZE + MAX_REQUEST"
  using build_loop_ok [OF assms(1-3), of "[]" "b\<lparr>batch_length := 0, batch_keys := [], batch_DBIndexes := []\<rparr>" None] assms(4)
  by (simp add: BuildBatchGroup_def batch_of_def BATCH_SIZE_def)

text \<open>What the store makes of such a batch.\<close>

definition framed :: "(bytes \<times> bytes) \<times> bytes \<Rightarrow> bool" where
  "framed = (\<lambda>((key, val), d). length d = 8 + (length key + length val) \<and> mread d (8 + length key) (length val) = val)"

lemma framed_idx:
  assumes "\<forall>f\<in>set fs. framed f" "length (pre @ concat (map snd fs)) < 2 ^ 16"
  shows "list_all (batch_entry_ok (length (pre @ concat (map snd fs)))) (zip (map (\<lambda>f. fst (fst f)) fs) (idx_list (length pre) (map fst fs))) \<and>
    length (idx_list (length pre) (map fst fs)) = length fs \<and>
    map (batch_value (pre @ concat (map snd fs))) (idx_list (length pre) (map fst fs)) = map (\<lambda>f. snd (fst f)) fs"
  using assms
proof (induction fs arbitrary: pre)
  case (Cons f fs)
  obtain key val d where f: "f = ((key, val), d)" by (metis prod.exhaust)
  then have d: "length d = 8 + (length key + length val)" "mread d (8 + length key) (length val) = val"
    using Cons.prems(1) by (simp_all add: framed_def)
  let ?D = "pre @ concat (map snd (f # fs))" and ?n = "length pre + (8 + (length key + length val))"
  have D: "?D = (pre @ d) @ concat (map snd fs)" "length (pre @ d) = ?n" using f d by simp_all
  have IH: "list_all (batch_entry_ok (length ?D)) (zip (map (\<lambda>f. fst (fst f)) fs) (idx_list ?n (map fst fs)))"
    "length (idx_list ?n (map fst fs)) = length fs" "map (batch_value ?D) (idx_list ?n (map fst fs)) = map (\<lambda>f. snd (fst f)) fs"
    using Cons.IH [of "pre @ d"] Cons.prems D by simp_all
  let ?i = "file_Index 0 (of_nat (length pre + 8)) (of_nat (length key)) (of_nat (length val))"
  have u: "unat (file_offset ?i) = length pre + 8" "unat (key_size ?i) = length key" "unat (value_size ?i) = length val" "flag ?i = 1"
  proof -
    have n: "length pre + 8 < 2 ^ 32" "length key < 2 ^ 31" "length val < 2 ^ 32" using Cons.prems(2) D by simp_all
    show "unat (file_offset ?i) = length pre + 8" using unat_of_nat_len [OF n(1)] by simp
    show "unat (key_size ?i) = length key" using n(2) by (simp add: ucast_of_nat_31 unat_of_nat take_bit_nat_eq_self)
    show "unat (value_size ?i) = length val" using unat_of_nat_len [OF n(3)] by simp
  qed simp
  have "mread ?D (length pre + 8 + length key) (length val) = val"
    using D d by (simp add: mread_append_right mread_append_left)
  then have v: "batch_value ?D ?i = val" using u by (simp add: batch_value_def)
  have "batch_entry_ok (length ?D) (key, ?i)"
    using u D Cons.prems(2) by (simp add: batch_entry_ok_def record_fits_def)
  with IH v f show ?case by simp
qed simp

lemma batch_idx:
  assumes "\<forall>m\<in>set ms. write_request m" "length (concat (map request_bytes ms)) < 2 ^ 16"
  shows "list_all (batch_entry_ok (length (concat (map request_bytes ms))))
      (zip (map (\<lambda>m. fst (request_pair m)) ms) (idx_list 0 (map request_pair ms))) \<and>
    length (idx_list 0 (map request_pair ms)) = length ms \<and>
    map (batch_value (concat (map request_bytes ms))) (idx_list 0 (map request_pair ms)) = map (\<lambda>m. snd (request_pair m)) ms"
proof -
  have "framed (request_pair m, request_bytes m)" if "write_request m" for m
    using write_requestD [OF that] by (auto simp: framed_def mread_mread)
  then have "\<forall>f\<in>set (map (\<lambda>m. (request_pair m, request_bytes m)) ms). framed f" using assms(1) by auto
  from framed_idx [OF this, of "[]"] assms(2) show ?thesis by (simp add: comp_def)
qed

lemma batch_of_ok:
  assumes "batch_of ms b" "\<forall>m\<in>set ms. write_request m" "batch_length b < BATCH_SIZE + MAX_REQUEST"
  shows "batch_ok (batch_length b) (batch_keys b) (batch_DBIndexes b)" "batch_length b \<le> length (batch_buffer b)"
    "zip (batch_keys b) (map (batch_value (take (batch_length b) (batch_buffer b))) (batch_DBIndexes b)) = map request_pair ms"
proof -
  have l: "length (concat (map request_bytes ms)) < 2 ^ 16" using assms(1,3) by (simp add: batch_of_def BATCH_SIZE_def MAX_REQUEST_def)
  note i = batch_idx [OF assms(2) l]
  show "batch_ok (batch_length b) (batch_keys b) (batch_DBIndexes b)" "batch_length b \<le> length (batch_buffer b)"
    using i assms(1,3) by (simp_all add: batch_of_def batch_ok_def)
  show "zip (batch_keys b) (map (batch_value (take (batch_length b) (batch_buffer b))) (batch_DBIndexes b)) = map request_pair ms"
    using i batch_ofD [OF assms(1)] by (simp add: zip_map_map zip_same_conv_map)
qed

section \<open>The queue of writers\<close>

definition logging :: "bytes \<Rightarrow> bool" where
  "logging m \<longleftrightarrow> write_request m \<and> header m = CLERK_DONE"

lemma loggingD: "logging m \<Longrightarrow> length m = sync_buf_size" "logging m \<Longrightarrow> header m \<noteq> CLIENT_DONE" "logging m \<Longrightarrow> write_request m"
  by (auto simp: logging_def write_request_def)

text \<open>A clerk and the queue: who is in it, who leads, and who has been signalled.\<close>

definition clerk_ok :: "nat list \<Rightarrow> nat \<Rightarrow> group_clerk \<Rightarrow> bool" where
  "clerk_ok q i k \<longleftrightarrow> length (gk_mem k) = sync_buf_size \<and>
     (case gk_pc k of
        G_wait \<Rightarrow> i \<notin> set q \<and>
          (header (gk_mem k) = CLIENT_DONE \<longrightarrow> (\<exists>cl. call_fits cl \<and> holds (call_image cl) (gk_mem k)))
      | G_queued \<Rightarrow> logging (gk_mem k) \<and>
          (if gk_done k then i \<notin> set q \<and> gk_signalled k else i \<in> set q \<and> (gk_signalled k \<longleftrightarrow> hd q = i))
      | G_lead \<Rightarrow> logging (gk_mem k) \<and> q \<noteq> [] \<and> hd q = i
      | G_batch lw \<Rightarrow> logging (gk_mem k) \<and> q \<noteq> [] \<and> hd q = i \<and> lw \<in> Some ` set q
      | G_stored lw \<Rightarrow> logging (gk_mem k) \<and> q \<noteq> [] \<and> hd q = i \<and> lw \<in> Some ` set q
      | G_closed \<Rightarrow> i \<notin> set q)"

definition queue_ok :: "'d group \<Rightarrow> bool" where
  "queue_ok s \<longleftrightarrow> distinct (writers_queue s) \<and> (\<forall>w\<in>set (writers_queue s). w < length (clerks s)) \<and>
     (\<forall>i<length (clerks s). clerk_ok (writers_queue s) i (clerks s ! i))"

definition batch_mems :: "'d group \<Rightarrow> nat \<Rightarrow> bytes list" where
  "batch_mems s l = map (\<lambda>w. gk_mem (clerks s ! w)) (upto_last (Some l) (writers_queue s))"

definition batch_inv :: "'d group \<Rightarrow> bool" where
  "batch_inv s \<longleftrightarrow> length (batch_buffer (group_batch s)) = BATCH_SIZE + MAX_REQUEST \<and>
     (\<forall>i<length (clerks s). \<forall>l. gk_pc (clerks s ! i) = G_batch (Some l) \<longrightarrow>
        batch_of (batch_mems s l) (group_batch s) \<and>
        batch_length (group_batch s) < BATCH_SIZE + MAX_REQUEST)"

text \<open>The writers of a clerk in the log: those it has acknowledged, and at most one that it still has to.\<close>

definition stored :: "'d group \<Rightarrow> nat \<Rightarrow> bool" where
  "stored s i \<longleftrightarrow> gk_pc (clerks s ! i) = G_queued \<and> gk_done (clerks s ! i) \<or>
     (\<exists>j<length (clerks s). \<exists>lw. gk_pc (clerks s ! j) = G_stored lw \<and> i \<in> set (upto_last lw (writers_queue s)))"

definition log_ok :: "'d group \<Rightarrow> nat \<Rightarrow> bool" where
  "log_ok s i \<longleftrightarrow> map snd (filter (\<lambda>e. fst e = i) (group_log s)) =
     gk_acked (clerks s ! i) @ (if stored s i then [request_pair (gk_mem (clerks s ! i))] else [])"

definition queue_inv :: "'d group \<Rightarrow> bool" where
  "queue_inv s \<longleftrightarrow> queue_ok s \<and> batch_inv s \<and> (\<forall>i<length (clerks s). log_ok s i)"

lemma upto_last_subset: "set (upto_last lw q) \<subseteq> set q"
  by (induction q) auto

lemma upto_last_append: "lw \<in> Some ` set q \<Longrightarrow> upto_last lw (q @ ws) = upto_last lw q"
  by (induction q) auto

lemma upto_last_distinct: "distinct q \<Longrightarrow> distinct (upto_last lw q)"
proof (induction q)
  case (Cons w ws)
  then show ?case using upto_last_subset [of lw ws] by auto
qed simp

lemma upto_last_hd: "q \<noteq> [] \<Longrightarrow> hd q \<in> set (upto_last lw q)"
  by (cases q) auto

lemma queue_clerk: "queue_ok s \<Longrightarrow> i < length (clerks s) \<Longrightarrow> clerk_ok (writers_queue s) i (clerks s ! i)"
  by (simp add: queue_ok_def)

text \<open>The clerks of the queue are all logging; only the head can lead.\<close>

lemma queued_logging:
  assumes "queue_ok s" "w \<in> set (writers_queue s)"
  shows "logging (gk_mem (clerks s ! w))" "w < length (clerks s)"
    "w \<noteq> hd (writers_queue s) \<Longrightarrow> gk_pc (clerks s ! w) = G_queued \<and> \<not> gk_done (clerks s ! w) \<and> \<not> gk_signalled (clerks s ! w)"
proof -
  show w: "w < length (clerks s)" using assms by (simp add: queue_ok_def)
  note c = queue_clerk [OF assms(1) w]
  show "logging (gk_mem (clerks s ! w))"
    using c assms(2) by (cases "gk_pc (clerks s ! w)") (auto simp: clerk_ok_def)
  show "w \<noteq> hd (writers_queue s) \<Longrightarrow> gk_pc (clerks s ! w) = G_queued \<and> \<not> gk_done (clerks s ! w) \<and> \<not> gk_signalled (clerks s ! w)"
    using c assms(2) by (cases "gk_pc (clerks s ! w)") (auto simp: clerk_ok_def split: if_splits)
qed

lemma one_leader:
  assumes "queue_ok s" "i < length (clerks s)" "gk_pc (clerks s ! i) \<in> {G_lead} \<union> range G_batch \<union> range G_stored"
  shows "writers_queue s \<noteq> []" "hd (writers_queue s) = i"
  using queue_clerk [OF assms(1,2)] assms(3) by (auto simp: clerk_ok_def)

lemma no_batch_idle: "queue_ok s \<Longrightarrow> i < length (clerks s) \<Longrightarrow> writers_queue s = [] \<Longrightarrow> gk_pc (clerks s ! i) \<notin> range G_batch \<union> range G_stored"
  using one_leader [of s i] by auto

subsection \<open>Clerks outside the queue\<close>

text \<open>A clerk that is not in the queue, before and after, can change without the others noticing.\<close>

lemma outside_update:
  assumes inv: "queue_inv s" and i: "i < length (clerks s)" "i \<notin> set (writers_queue s)"
    and k: "clerk_ok (writers_queue s) i k" "gk_pc k \<in> {G_wait, G_closed}" "gk_pc (clerks s ! i) \<in> {G_wait, G_queued}"
    and a: "gk_acked k = map snd (filter (\<lambda>e. fst e = i) (group_log s))"
    and s': "clerks s' = (clerks s)[i := k]" "writers_queue s' = writers_queue s" "group_batch s' = group_batch s" "group_log s' = group_log s"
  shows "queue_inv s'"
proof -
  let ?q = "writers_queue s"
  have q: "queue_ok s" "batch_inv s" "\<And>j. j < length (clerks s) \<Longrightarrow> log_ok s j" using inv by (auto simp: queue_inv_def)
  have nth: "clerks s' ! j = (if j = i then k else clerks s ! j)" for j using i(1) s' by (simp add: nth_list_update)
  have same: "clerks s' ! w = clerks s ! w" if "w \<in> set ?q" for w using that i(2) nth by auto
  have pc: "gk_pc (clerks s' ! j) = G_batch lw \<longleftrightarrow> gk_pc (clerks s ! j) = G_batch lw"
    "gk_pc (clerks s' ! j) = G_stored lw \<longleftrightarrow> gk_pc (clerks s ! j) = G_stored lw" for j lw
    using k(2,3) nth by auto
  have "queue_ok s'" using q(1) k(1) nth s' by (auto simp: queue_ok_def)
  moreover have "batch_inv s'"
  proof -
    have "batch_mems s' l = batch_mems s l" for l
      using upto_last_subset [of "Some l" ?q] same s'(2) by (auto simp: batch_mems_def)
    then show ?thesis using q(2) s' pc by (simp add: batch_inv_def)
  qed
  moreover have "log_ok s' j" if j: "j < length (clerks s')" for j
  proof (cases "j = i")
    case True
    have "i \<notin> set (upto_last lw ?q)" for lw using upto_last_subset [of lw ?q] i(2) by auto
    then have "\<not> stored s' i" using k(2) nth s' by (auto simp: stored_def)
    with True a nth s' show ?thesis by (simp add: log_ok_def)
  next
    case False
    then have "stored s' j \<longleftrightarrow> stored s j" using nth s' pc by (simp add: stored_def)
    with False q(3) j nth s' show ?thesis by (simp add: log_ok_def)
  qed
  ultimately show ?thesis by (simp add: queue_inv_def)
qed

subsection \<open>Entering the queue\<close>

lemma enqueue_inv:
  assumes inv: "queue_inv s" and i: "i < length (clerks s)" "gk_pc (clerks s ! i) = G_wait"
    and m: "logging m" and k: "k = (clerks s ! i)\<lparr>gk_mem := m, gk_done := False, gk_signalled := False,
      gk_pc := (if writers_queue s = [] then G_lead else G_queued)\<rparr>"
  shows "queue_inv ((set_clerk i k s)\<lparr>writers_queue := writers_queue s @ [i]\<rparr>)"
proof -
  let ?q = "writers_queue s" and ?s = "(set_clerk i k s)\<lparr>writers_queue := writers_queue s @ [i]\<rparr>"
  have q: "queue_ok s" "batch_inv s" "\<And>j. j < length (clerks s) \<Longrightarrow> log_ok s j" using inv by (auto simp: queue_inv_def)
  have iq: "i \<notin> set ?q" using queue_clerk [OF q(1) i(1)] i(2) by (simp add: clerk_ok_def)
  have nth: "clerks ?s ! j = (if j = i then k else clerks s ! j)" for j using i(1) by (simp add: set_clerk_def nth_list_update)
  have len: "length m = sync_buf_size" using m by (simp add: logging_def write_request_def)
  have pc: "gk_pc (clerks ?s ! j) = G_batch lw \<longleftrightarrow> gk_pc (clerks s ! j) = G_batch lw"
    "gk_pc (clerks ?s ! j) = G_stored lw \<longleftrightarrow> gk_pc (clerks s ! j) = G_stored lw" for j lw
    using i(2) k nth by auto
  have up: "upto_last lw (?q @ [i]) = upto_last lw ?q" if "j < length (clerks s)" "gk_pc (clerks s ! j) \<in> {G_batch lw, G_stored lw}" for j lw
    using queue_clerk [OF q(1) that(1)] that(2) by (auto simp: clerk_ok_def intro: upto_last_append)
  have "clerk_ok (?q @ [i]) j (clerks ?s ! j)" if j: "j < length (clerks s)" for j
  proof (cases "j = i")
    case True
    then show ?thesis using m len k nth iq by (cases ?q) (auto simp: clerk_ok_def)
  next
    case False
    then show ?thesis using queue_clerk [OF q(1) j] nth by (cases ?q) (auto simp: clerk_ok_def split: group_pc.splits if_splits)
  qed
  then have "queue_ok ?s" using q(1) iq i(1) by (auto simp: queue_ok_def set_clerk_def)
  moreover have "batch_inv ?s"
  proof -
    have "batch_mems ?s l = batch_mems s l" if "j < length (clerks s)" "gk_pc (clerks s ! j) = G_batch (Some l)" for j l
      using up [OF that(1), of "Some l"] that upto_last_subset [of "Some l" ?q] iq nth by (auto simp: batch_mems_def)
    then show ?thesis using q(2) pc by (simp add: batch_inv_def set_clerk_def)
  qed
  moreover have "log_ok ?s j" if j: "j < length (clerks ?s)" for j
  proof -
    have lc: "length (clerks ?s) = length (clerks s)" by (simp add: set_clerk_def)
    have "stored ?s j \<longleftrightarrow> stored s j"
    proof -
      have "gk_pc (clerks ?s ! j) = G_queued \<and> gk_done (clerks ?s ! j) \<longleftrightarrow> gk_pc (clerks s ! j) = G_queued \<and> gk_done (clerks s ! j)"
        using nth k i(2) by auto
      then show ?thesis unfolding stored_def lc using pc up by auto
    qed
    moreover have "j = i \<Longrightarrow> \<not> stored s j"
      using i(2) upto_last_subset iq by (fastforce simp: stored_def)
    ultimately show ?thesis using q(3) [of j] j nth k by (auto simp: log_ok_def set_clerk_def)
  qed
  ultimately show ?thesis by (simp add: queue_inv_def)
qed

subsection \<open>Leading\<close>

text \<open>A step of the leader, or of the clerk that becomes it, up to the batch being in the store.\<close>

lemma leader_inv:
  assumes inv: "queue_inv s" and i: "i < length (clerks s)" "writers_queue s \<noteq> []" "hd (writers_queue s) = i" "\<not> stored s i"
    and k: "clerk_ok (writers_queue s) i k" "gk_mem k = gk_mem (clerks s ! i)" "gk_acked k = gk_acked (clerks s ! i)"
      "gk_pc k = G_lead \<or> (\<exists>l. gk_pc k = G_batch (Some l) \<and> batch_of (batch_mems s l) b \<and> batch_length b < BATCH_SIZE + MAX_REQUEST)"
    and b: "length (batch_buffer b) = BATCH_SIZE + MAX_REQUEST"
  shows "queue_inv ((set_clerk i k s)\<lparr>group_batch := b\<rparr>)"
proof -
  let ?q = "writers_queue s" and ?s = "(set_clerk i k s)\<lparr>group_batch := b\<rparr>"
  have q: "queue_ok s" "\<And>j. j < length (clerks s) \<Longrightarrow> log_ok s j" using inv by (auto simp: queue_inv_def)
  have nth: "clerks ?s ! j = (if j = i then k else clerks s ! j)" for j using i(1) by (simp add: set_clerk_def nth_list_update)
  have others: "gk_pc (clerks s ! j) \<notin> range G_batch \<union> range G_stored" if "j < length (clerks s)" "j \<noteq> i" for j
    using one_leader [OF q(1) that(1)] i(3) that(2) by auto
  have mems: "batch_mems ?s l = batch_mems s l" for l using nth k(2) by (auto simp: batch_mems_def set_clerk_def)
  have "queue_ok ?s" using q(1) k(1) nth by (auto simp: queue_ok_def set_clerk_def)
  moreover have "batch_inv ?s"
    unfolding batch_inv_def
  proof (intro conjI allI impI)
    show "length (batch_buffer (group_batch ?s)) = BATCH_SIZE + MAX_REQUEST" using b by simp
    fix j l
    assume j: "j < length (clerks ?s)" "gk_pc (clerks ?s ! j) = G_batch (Some l)"
    then have "j = i" using others nth by (cases "j = i") (auto simp: set_clerk_def)
    then show "batch_of (batch_mems ?s l) (group_batch ?s)" "batch_length (group_batch ?s) < BATCH_SIZE + MAX_REQUEST"
      using j(2) k(4) nth mems by auto
  qed
  moreover have "log_ok ?s j" if j: "j < length (clerks ?s)" for j
  proof -
    have lc: "length (clerks ?s) = length (clerks s)" "writers_queue ?s = ?q" by (simp_all add: set_clerk_def)
    have no: "\<not> (\<exists>j'<length (clerks s). \<exists>lw. gk_pc (clerks ?s ! j') = G_stored lw \<and> j \<in> set (upto_last lw ?q))"
      using others nth k(4) by auto
    have no': "\<not> (\<exists>j'<length (clerks s). \<exists>lw. gk_pc (clerks s ! j') = G_stored lw \<and> j \<in> set (upto_last lw ?q))"
    proof (intro notI, elim exE conjE)
      fix j' lw
      assume "j' < length (clerks s)" "gk_pc (clerks s ! j') = G_stored lw"
      moreover from this have "j' = i" using others by auto
      ultimately have "stored s i" using upto_last_hd [OF i(2), of lw] i(3) by (auto simp: stored_def)
      with i(4) show False by simp
    qed
    have "stored ?s j \<longleftrightarrow> stored s j"
      unfolding stored_def lc using no no' nth k(4) i(4) by (auto simp: stored_def)
    then show ?thesis using q(2) [of j] j nth k(2,3) by (auto simp: log_ok_def set_clerk_def)
  qed
  ultimately show ?thesis by (simp add: queue_inv_def)
qed

lemma filter_map_one: "distinct ws \<Longrightarrow> map snd (filter (\<lambda>e. fst e = i) (map (\<lambda>w. (w, f w)) ws)) = (if i \<in> set ws then [f i] else [])"
  by (induction ws) (auto simp: filter_empty_conv)

lemma store_inv:
  assumes inv: "queue_inv s" and i: "i < length (clerks s)" "gk_pc (clerks s ! i) = G_batch lw"
  shows "queue_inv ((set_clerk i ((clerks s ! i)\<lparr>gk_pc := G_stored lw\<rparr>) s)
    \<lparr>group_store := d, group_batches := n, group_log := group_log s @ map (\<lambda>w. (w, request_pair (gk_mem (clerks s ! w)))) (upto_last lw (writers_queue s))\<rparr>)"
proof -
  let ?k = "(clerks s ! i)\<lparr>gk_pc := G_stored lw\<rparr>" and ?q = "writers_queue s"
  let ?l = "map (\<lambda>w. (w, request_pair (gk_mem (clerks s ! w)))) (upto_last lw ?q)"
  let ?s = "(set_clerk i ?k s)\<lparr>group_store := d, group_batches := n, group_log := group_log s @ ?l\<rparr>"
  have q: "queue_ok s" "batch_inv s" "\<And>j. j < length (clerks s) \<Longrightarrow> log_ok s j" using inv by (auto simp: queue_inv_def)
  have nth: "clerks ?s ! j = (if j = i then ?k else clerks s ! j)" for j using i(1) by (simp add: set_clerk_def nth_list_update)
  have hd: "?q \<noteq> []" "hd ?q = i" using one_leader [OF q(1) i(1)] i(2) by auto
  have others: "gk_pc (clerks s ! j) \<notin> range G_batch \<union> range G_stored" if "j < length (clerks s)" "j \<noteq> i" for j
    using one_leader [OF q(1) that(1)] hd that(2) by auto
  have "clerk_ok ?q j (clerks ?s ! j)" if "j < length (clerks s)" for j
    using queue_clerk [OF q(1) that] i(2) nth by (auto simp: clerk_ok_def)
  then have "queue_ok ?s" using q(1) by (simp add: queue_ok_def set_clerk_def)
  moreover have "batch_inv ?s" using q(2) others nth by (auto simp: batch_inv_def set_clerk_def nth_list_update)
  moreover have "log_ok ?s j" if j: "j < length (clerks ?s)" for j
  proof -
    have lc: "length (clerks ?s) = length (clerks s)" "writers_queue ?s = ?q" by (simp_all add: set_clerk_def)
    have no: "gk_pc (clerks s ! j') \<noteq> G_stored lw'" if "j' < length (clerks s)" for j' lw'
      using others [OF that] i(2) by (cases "j' = i") auto
    have "(\<exists>j'<length (clerks s). \<exists>lw'. gk_pc (clerks ?s ! j') = G_stored lw' \<and> j \<in> set (upto_last lw' ?q)) \<longleftrightarrow> j \<in> set (upto_last lw ?q)"
      using no nth i(1) by (auto split: if_splits)
    then have st: "stored ?s j \<longleftrightarrow> stored s j \<or> j \<in> set (upto_last lw ?q)"
      unfolding stored_def lc using no nth i(2) by auto
    have "\<not> stored s j" if jq: "j \<in> set (upto_last lw ?q)"
    proof -
      have jq': "j \<in> set ?q" using jq upto_last_subset by blast
      have "\<not> (gk_pc (clerks s ! j) = G_queued \<and> gk_done (clerks s ! j))"
        using queued_logging(3) [OF q(1) jq'] hd i(2) by (cases "j = i") auto
      then show ?thesis using no by (auto simp: stored_def)
    qed
    moreover have "log_ok s j" using q(3) j lc by simp
    moreover have "distinct (upto_last lw ?q)" using q(1) by (simp add: queue_ok_def upto_last_distinct)
    ultimately show ?thesis using st nth filter_map_one [of "upto_last lw ?q" j "\<lambda>w. request_pair (gk_mem (clerks s ! w))"]
      by (auto simp: log_ok_def)
  qed
  ultimately show ?thesis by (simp add: queue_inv_def)
qed

subsection \<open>Letting the batch go\<close>

definition mark :: "group_clerk \<Rightarrow> group_clerk" where
  "mark k = k\<lparr>gk_done := True, gk_signalled := True\<rparr>"

lemma pop_writers_ok:
  assumes "l \<in> set q" "distinct q" "\<forall>w\<in>set q. w < length ks"
  shows "\<exists>ws ks'. pop_writers me (Some l) q ks = Some (ws, ks') \<and> q = upto_last (Some l) q @ ws \<and> length ks' = length ks \<and>
    (\<forall>j<length ks. ks' ! j = (if j \<in> set (upto_last (Some l) q) \<and> j \<noteq> me then mark (ks ! j) else ks ! j))"
  using assms
proof (induction q arbitrary: ks)
  case (Cons w q)
  let ?ks = "if w \<noteq> me then ks[w := (ks ! w)\<lparr>gk_done := True, gk_signalled := True\<rparr>] else ks"
  show ?case
  proof (cases "w = l")
    case True
    with Cons.prems(3) show ?thesis
      by (intro exI [of _ q] exI [of _ ?ks]) (simp add: mark_def nth_list_update)
  next
    case False
    define ks1 where "ks1 = ?ks"
    have lk: "length ks1 = length ks" by (simp add: ks1_def)
    have "l \<in> set q" "distinct q" "\<forall>w\<in>set q. w < length ks1" using Cons.prems False lk by auto
    from Cons.IH [OF this] lk obtain ws ks' where ih: "pop_writers me (Some l) q ks1 = Some (ws, ks')" "q = upto_last (Some l) q @ ws"
      "length ks' = length ks"
      "\<forall>j<length ks. ks' ! j = (if j \<in> set (upto_last (Some l) q) \<and> j \<noteq> me then mark (ks1 ! j) else ks1 ! j)"
      by auto
    have "w \<notin> set (upto_last (Some l) q)" using Cons.prems(2) upto_last_subset by fastforce
    with ih(4) Cons.prems(3) have "\<forall>j<length ks. ks' ! j = (if j \<in> set (upto_last (Some l) (w # q)) \<and> j \<noteq> me then mark (ks ! j) else ks ! j)"
      using False by (auto simp: mark_def nth_list_update ks1_def)
    with ih(1-3) False show ?thesis by (intro exI [of _ ws] exI [of _ ks']) (simp add: ks1_def)
  qed
qed simp

lemma finish_batch_clerks:
  assumes q: "queue_ok s" and i: "i < length (clerks s)" "gk_pc (clerks s ! i) = G_stored (Some l)"
  shows "\<exists>ws ks. finish_batch i (Some l) s = s\<lparr>writers_queue := ws, clerks := ks\<rparr> \<and> writers_queue s = upto_last (Some l) (writers_queue s) @ ws \<and>
    length ks = length (clerks s) \<and> i \<in> set (upto_last (Some l) (writers_queue s)) \<and>
    (\<forall>j<length (clerks s). ks ! j =
       (if j = i then ack (gk_mem (clerks s ! i)) (send_reply (gk_mem (clerks s ! i)) (clerks s ! i))
        else if j \<in> set (upto_last (Some l) (writers_queue s)) then mark (clerks s ! j)
        else if ws \<noteq> [] \<and> j = hd ws then (clerks s ! j)\<lparr>gk_signalled := True\<rparr>
        else clerks s ! j))"
proof -
  let ?q = "writers_queue s" and ?U = "upto_last (Some l) (writers_queue s)"
  have hd: "?q \<noteq> []" "hd ?q = i" using one_leader [OF q i(1)] i(2) by auto
  have l: "l \<in> set ?q" using queue_clerk [OF q i(1)] i(2) by (auto simp: clerk_ok_def)
  have d: "distinct ?q" "\<forall>w\<in>set ?q. w < length (clerks s)" using q by (auto simp: queue_ok_def)
  obtain ws ks' where p: "pop_writers i (Some l) ?q (clerks s) = Some (ws, ks')" "?q = ?U @ ws" "length ks' = length (clerks s)"
    "\<forall>j<length (clerks s). ks' ! j = (if j \<in> set ?U \<and> j \<noteq> i then mark (clerks s ! j) else clerks s ! j)"
    using pop_writers_ok [OF l d] by blast
  have iU: "i \<in> set ?U" using upto_last_hd [OF hd(1)] hd(2) by blast
  have disj: "set ?U \<inter> set ws = {}" using d(1) p(2) by (metis distinct_append)
  have w: "ws \<noteq> [] \<Longrightarrow> hd ws < length (clerks s) \<and> hd ws \<notin> set ?U"
    using disj d(2) p(2) by (metis IntI UnCI empty_iff list.set_sel(1) set_append)
  let ?ks = "(signal_head ws ks')[i := ack (gk_mem (signal_head ws ks' ! i)) (send_reply (gk_mem (signal_head ws ks' ! i)) (signal_head ws ks' ! i))]"
  have sh: "signal_head ws ks' ! j = (if ws \<noteq> [] \<and> j = hd ws then (ks' ! j)\<lparr>gk_signalled := True\<rparr> else ks' ! j)" if "j < length (clerks s)" for j
    using w p(3) that by (auto simp: signal_head_def nth_list_update)
  have shi: "signal_head ws ks' ! i = clerks s ! i" using sh [OF i(1)] p(4) i(1) w iU by auto
  have len: "length (signal_head ws ks') = length (clerks s)" using p(3) by (simp add: signal_head_def)
  have "finish_batch i (Some l) s = s\<lparr>writers_queue := ws, clerks := ?ks\<rparr>" using p(1) by (simp add: finish_batch_def Let_def)
  moreover have "\<forall>j<length (clerks s). ?ks ! j =
       (if j = i then ack (gk_mem (clerks s ! i)) (send_reply (gk_mem (clerks s ! i)) (clerks s ! i))
        else if j \<in> set ?U then mark (clerks s ! j)
        else if ws \<noteq> [] \<and> j = hd ws then (clerks s ! j)\<lparr>gk_signalled := True\<rparr>
        else clerks s ! j)"
    using sh shi p(4) w len i(1) by (auto simp: nth_list_update)
  ultimately show ?thesis using p(2) iU len by (intro exI [of _ ws] exI [of _ ?ks]) simp
qed

lemma finish_inv:
  assumes inv: "queue_inv s" and i: "i < length (clerks s)" "gk_pc (clerks s ! i) = G_stored lw"
  shows "\<exists>ws ks. finish_batch i lw s = s\<lparr>writers_queue := ws, clerks := ks\<rparr> \<and> queue_inv (s\<lparr>writers_queue := ws, clerks := ks\<rparr>) \<and>
    length ks = length (clerks s)"
proof -
  have q: "queue_ok s" "batch_inv s" "\<And>j. j < length (clerks s) \<Longrightarrow> log_ok s j" using inv by (auto simp: queue_inv_def)
  obtain l where l: "lw = Some l" using queue_clerk [OF q(1) i(1)] i(2) by (auto simp: clerk_ok_def)
  let ?q = "writers_queue s" and ?U = "upto_last (Some l) (writers_queue s)"
  obtain ws ks where f: "finish_batch i (Some l) s = s\<lparr>writers_queue := ws, clerks := ks\<rparr>" "?q = ?U @ ws"
    "length ks = length (clerks s)" "i \<in> set ?U" and
    nth: "\<And>j. j < length (clerks s) \<Longrightarrow> ks ! j =
       (if j = i then ack (gk_mem (clerks s ! i)) (send_reply (gk_mem (clerks s ! i)) (clerks s ! i))
        else if j \<in> set ?U then mark (clerks s ! j)
        else if ws \<noteq> [] \<and> j = hd ws then (clerks s ! j)\<lparr>gk_signalled := True\<rparr>
        else clerks s ! j)"
    using finish_batch_clerks [OF q(1) i(1)] i(2) l by blast
  let ?s = "s\<lparr>writers_queue := ws, clerks := ks\<rparr>"
  have hd: "?q \<noteq> []" "hd ?q = i" using one_leader [OF q(1) i(1)] i(2) by auto
  have d: "distinct ?q" "\<forall>w\<in>set ?q. w < length (clerks s)" using q(1) by (auto simp: queue_ok_def)
  have disj: "set ?U \<inter> set ws = {}" "distinct ws" using d(1) f(2) by (metis distinct_append)+
  have sub: "set ?U \<subseteq> set ?q" "set ws \<subseteq> set ?q" using f(2) by (metis set_append sup_ge1, metis set_append sup_ge2)
  have foll: "gk_pc (clerks s ! j) = G_queued \<and> \<not> gk_done (clerks s ! j) \<and> \<not> gk_signalled (clerks s ! j) \<and> logging (gk_mem (clerks s ! j))"
    if "j \<in> set ?q" "j \<noteq> i" for j
    using queued_logging [OF q(1) that(1)] that(2) hd(2) by blast
  have out: "j \<notin> set ?q \<longleftrightarrow> j \<notin> set ?U \<and> j \<notin> set ws" for j using f(2) by (metis UnE UnI1 UnI2 set_append)
  have lg: "logging (gk_mem (clerks s ! i))" using queue_clerk [OF q(1) i(1)] i(2) by (simp add: clerk_ok_def)
  note li = loggingD [OF lg]
  have c: "clerk_ok ws j (ks ! j)" if j: "j < length (clerks s)" for j
  proof -
    consider "j = i" | "j \<in> set ?U" "j \<noteq> i" | "j \<in> set ws" "j \<noteq> i" | "j \<notin> set ?q" using out by blast
    then show ?thesis
    proof cases
      case 1
      then show ?thesis using nth [OF j] li f(4) disj(1) by (auto simp: clerk_ok_def ack_def send_reply_def)
    next
      case 2
      then have "j \<in> set ?q" using sub by blast
      with 2 show ?thesis using nth [OF j] foll [of j] disj(1) by (auto simp: clerk_ok_def mark_def loggingD)
    next
      case 3
      then have "j \<in> set ?q" "j \<notin> set ?U" "ws \<noteq> []" using sub disj(1) by auto
      with 3 show ?thesis using nth [OF j] foll [of j] by (auto simp: clerk_ok_def loggingD)
    next
      case 4
      then have "ks ! j = clerks s ! j" using nth [OF j] out f(4) by (cases ws) auto
      then show ?thesis using queue_clerk [OF q(1) j] 4 sub hd one_leader [OF q(1) j]
        by (auto simp: clerk_ok_def split: group_pc.splits if_splits)
    qed
  qed
  have nl: "gk_pc (ks ! j) \<notin> range G_batch \<union> range G_stored" if j: "j < length (clerks s)" for j
  proof (cases "j = i")
    case True
    then show ?thesis using nth [OF j] by (auto simp: ack_def send_reply_def)
  next
    case False
    then have "gk_pc (clerks s ! j) \<notin> range G_batch \<union> range G_stored" using one_leader(2) [OF q(1) j] hd(2) by blast
    moreover have "gk_pc (ks ! j) = gk_pc (clerks s ! j)" using nth [OF j] False by (simp add: mark_def)
    ultimately show ?thesis by simp
  qed
  have "queue_ok ?s" using c disj(2) d(2) sub(2) f(3) by (auto simp: queue_ok_def)
  moreover have "batch_inv ?s" using q(2) nl f(3) by (force simp: batch_inv_def)
  moreover have "log_ok ?s j" if j: "j < length (clerks ?s)" for j
  proof -
    have j': "j < length (clerks s)" using j f(3) by simp
    have s1: "stored ?s j \<longleftrightarrow> gk_pc (ks ! j) = G_queued \<and> gk_done (ks ! j)" using nl f(3) by (force simp: stored_def)
    have s2: "stored s j \<longleftrightarrow> gk_pc (clerks s ! j) = G_queued \<and> gk_done (clerks s ! j) \<or> j \<in> set ?U"
    proof -
      have "lw' = Some l" if "j' < length (clerks s)" "gk_pc (clerks s ! j') = G_stored lw'" for j' lw'
      proof -
        have "j' = i" using one_leader(2) [OF q(1) that(1)] that(2) hd(2) by blast
        then show ?thesis using that(2) i(2) l by simp
      qed
      then have "(\<exists>j'<length (clerks s). \<exists>lw'. gk_pc (clerks s ! j') = G_stored lw' \<and> j \<in> set (upto_last lw' ?q)) \<longleftrightarrow> j \<in> set ?U"
        using i l by metis
      then show ?thesis by (simp add: stored_def)
    qed
    note lj = q(3) [OF j'] nth [OF j']
    show ?thesis
    proof (cases "j = i")
      case True
      then show ?thesis using lj f(4) s1 s2 by (simp add: log_ok_def ack_def send_reply_def)
    next
      case False
      have "j \<in> set ?U \<Longrightarrow> gk_pc (clerks s ! j) = G_queued" using foll sub False by blast
      with False show ?thesis using lj s1 s2 by (auto simp: log_ok_def mark_def)
    qed
  qed
  ultimately have "queue_inv ?s" by (simp add: queue_inv_def)
  then show ?thesis using f(1,3) l by blast
qed

end
