(* ===== verification/Group_Commit.thy ===== *)
theory Group_Commit
  imports Group_Front
begin

text \<open>
  The group-commit server on a store: every step of a clerk keeps the queue in order and the
  store in step with the log of what the clerks have acknowledged, and brings the work that is
  left closer to its end. The properties of the front end follow for BitCask.
\<close>

section \<open>On a store\<close>

definition clerk_weight :: "group_clerk \<Rightarrow> nat" where
  "clerk_weight k =
     (case gk_pc k of
        G_wait \<Rightarrow> if header (gk_mem k) = CLIENT_DONE then 5 else 0
      | G_queued \<Rightarrow> 4 | G_lead \<Rightarrow> 3 | G_batch _ \<Rightarrow> 2 | G_stored _ \<Rightarrow> 1 | G_closed \<Rightarrow> 0)"

definition group_work :: "'d group \<Rightarrow> nat" where
  "group_work s = sum_list (map clerk_weight (clerks s))"

lemma sum_list_decr:
  fixes xs ys :: "nat list"
  assumes "length xs = length ys" "\<forall>j<length ys. xs ! j \<le> ys ! j" "i < length ys" "xs ! i < ys ! i"
  shows "sum_list xs < sum_list ys"
  using assms
proof (induction xs ys arbitrary: i rule: list_induct2)
  case (Cons x xs y ys)
  have le: "x \<le> y" "\<forall>j<length ys. xs ! j \<le> ys ! j" using Cons.prems(1) by auto
  show ?case
  proof (cases i)
    case 0
    have "sum_list xs \<le> sum_list ys" using le(2) Cons.hyps by (intro sum_list_mono2) simp_all
    with 0 Cons.prems(3) show ?thesis by simp
  next
    case (Suc k)
    with Cons.IH [of k] Cons.prems le show ?thesis by simp
  qed
qed simp

lemma work_set_clerk:
  assumes "clerks s' = (clerks s)[i := k]" "i < length (clerks s)" "clerk_weight k < clerk_weight (clerks s ! i)"
  shows "group_work s' < group_work s"
  unfolding group_work_def by (rule sum_list_decr [of _ _ i]) (use assms in \<open>auto simp: nth_list_update\<close>)

lemma set_clerk_fields [simp]:
  "writers_queue (set_clerk i k s) = writers_queue s" "group_batch (set_clerk i k s) = group_batch s"
  "group_store (set_clerk i k s) = group_store s" "group_log (set_clerk i k s) = group_log s"
  "group_batches (set_clerk i k s) = group_batches s" "group_crashed (set_clerk i k s) = group_crashed s"
  "clerks (set_clerk i k s) = (clerks s)[i := k]"
  by (simp_all add: set_clerk_def)

lemma send_reply_fields [simp]:
  "gk_mem (send_reply m k) = m" "gk_pc (send_reply m k) = G_wait" "gk_acked (send_reply m k) = gk_acked k"
  "gk_mem (ack m k) = gk_mem k" "gk_pc (ack m k) = gk_pc k" "gk_acked (ack m k) = gk_acked k @ [request_pair m]"
  by (simp_all add: send_reply_def ack_def)

lemma holds_set_header: "holds img m \<Longrightarrow> 4 \<le> length m \<Longrightarrow> holds img (set_header w m)"
  by (simp add: holds_def set_header_def mread_mwrite_after RING_HEADER_def)

lemma holds_write_request:
  assumes "holds (call_image cl) m" "call_fits cl" "length m = sync_buf_size" "(\<exists>k v. cl = Call_put k v) \<or> (\<exists>k v. cl = Call_update k v) \<or> (\<exists>k. cl = Call_delete k)"
  shows "write_request m"
proof -
  have I: "write_request m" if "holds (request_image opr k v) m" "sizeof_Request + (length k + length v) \<le> MAX_REQUEST" "opr \<in> {PUT, UPDATE, DELETE}" for opr k v
    using that assms(3) unfolding write_request_def by blast
  from assms(4) consider k v where "cl = Call_put k v" | k v where "cl = Call_update k v" | k where "cl = Call_delete k" by blast
  then show ?thesis
    by cases (use assms(1,2) I [of PUT] I [of UPDATE] I [of DELETE _ "[]"] in \<open>auto simp: call_fits_def\<close>)
qed

lemma idle_step:
  assumes inv: "queue_inv s" and i: "i < length (clerks s)" "gk_pc (clerks s ! i) = G_wait" "header (gk_mem (clerks s ! i)) = CLIENT_DONE"
    and m: "length m = sync_buf_size" "header m = CLERK_DONE"
    and s': "s' = (set_clerk i (send_reply m (clerks s ! i)) s)\<lparr>group_store := d\<rparr>"
  shows "queue_inv s' \<and> group_work s' < group_work s"
proof
  have q: "queue_ok s" "log_ok s i" using inv i(1) by (auto simp: queue_inv_def)
  have iq: "i \<notin> set (writers_queue s)" using queue_clerk [OF q(1) i(1)] i(2) by (simp add: clerk_ok_def)
  have "\<not> stored s i" using i(2) upto_last_subset iq by (fastforce simp: stored_def)
  with q(2) have a: "gk_acked (clerks s ! i) = map snd (filter (\<lambda>e. fst e = i) (group_log s))" by (simp add: log_ok_def)
  show "queue_inv s'"
    by (rule outside_update [OF inv i(1) iq, of "send_reply m (clerks s ! i)"]) (use i m iq a s' in \<open>simp_all add: clerk_ok_def\<close>)
  show "group_work s' < group_work s"
    by (rule work_set_clerk [OF _ i(1), of _ "send_reply m (clerks s ! i)"]) (use i m s' in \<open>simp_all add: clerk_weight_def\<close>)
qed

lemma enqueue_step:
  assumes inv: "queue_inv s" and i: "i < length (clerks s)" "gk_pc (clerks s ! i) = G_wait" "header (gk_mem (clerks s ! i)) = CLIENT_DONE"
    and m: "logging m"
    and s': "s' = (set_clerk i ((clerks s ! i)\<lparr>gk_mem := m, gk_done := False, gk_signalled := False,
       gk_pc := (if writers_queue s = [] then G_lead else G_queued)\<rparr>) s)\<lparr>writers_queue := writers_queue s @ [i]\<rparr>"
  shows "queue_inv s' \<and> group_work s' < group_work s"
proof
  show "queue_inv s'" unfolding s' by (rule enqueue_inv [OF inv i(1,2) m refl])
  show "group_work s' < group_work s"
    unfolding s' by (rule work_set_clerk [OF _ i(1)]) (use i in \<open>auto simp: clerk_weight_def\<close>)
qed

lemma wake_step:
  assumes inv: "queue_inv s" and i: "i < length (clerks s)" "gk_pc (clerks s ! i) = G_queued" "gk_signalled (clerks s ! i)"
  shows "queue_inv (wake_up i s) \<and> group_work (wake_up i s) < group_work s"
proof -
  let ?k = "clerks s ! i"
  have q: "queue_ok s" "log_ok s i" "batch_inv s" using inv i(1) by (auto simp: queue_inv_def)
  note c = queue_clerk [OF q(1) i(1)]
  have lg: "logging (gk_mem ?k)" using c i(2) by (simp add: clerk_ok_def)
  show ?thesis
  proof (cases "gk_done ?k")
    case True
    let ?m = "set_val_size RING_HEADER 0 (set_status RING_HEADER OK (gk_mem ?k))"
    let ?n = "ack (gk_mem ?k) (send_reply ?m (?k\<lparr>gk_signalled := False\<rparr>))"
    have iq: "i \<notin> set (writers_queue s)" using c True i(2) by (simp add: clerk_ok_def)
    have "?m = mwrite (gk_mem ?k) RING_HEADER (reply_image OK [])"
      by (rule lay_out_reply_0) (simp add: loggingD [OF lg] sync_buf_size_def MAX_REQUEST_def sizeof_RequestReply_def)
    moreover have "RING_HEADER + sizeof_RequestReply \<le> length (gk_mem ?k)" "RING_HEADER \<le> length (gk_mem ?k)"
      using loggingD [OF lg] by (simp_all add: sync_buf_size_def MAX_REQUEST_def sizeof_RequestReply_def)
    ultimately have m: "length ?m = sync_buf_size" "header ?m \<noteq> CLIENT_DONE" using loggingD [OF lg] by simp_all
    have w: "wake_up i s = set_clerk i ?n s" using True by (simp add: wake_up_def Let_def)
    have "stored s i" using True i(2) by (simp add: stored_def)
    then have a: "gk_acked ?n = map snd (filter (\<lambda>e. fst e = i) (group_log s))" using q(2) by (simp add: log_ok_def)
    have "queue_inv (wake_up i s)"
      by (rule outside_update [OF inv i(1) iq, of ?n]) (use i m iq a w in \<open>simp_all add: clerk_ok_def\<close>)
    moreover have "group_work (wake_up i s) < group_work s"
      by (rule work_set_clerk [OF _ i(1), of _ ?n]) (use i m w in \<open>simp_all add: clerk_weight_def\<close>)
    ultimately show ?thesis by blast
  next
    case False
    let ?n = "?k\<lparr>gk_signalled := False, gk_pc := G_lead\<rparr>"
    have hd: "writers_queue s \<noteq> []" "hd (writers_queue s) = i" using c False i(2,3) by (auto simp: clerk_ok_def)
    have w: "wake_up i s = (set_clerk i ?n s)\<lparr>group_batch := group_batch s\<rparr>" using False hd by (simp add: wake_up_def Let_def)
    have "\<not> stored s i"
    proof -
      have "gk_pc (clerks s ! j) \<noteq> G_stored lw" if "j < length (clerks s)" for j lw
        using one_leader(2) [OF q(1) that] hd(2) i(2) by fastforce
      then show ?thesis using False by (auto simp: stored_def)
    qed
    then have "queue_inv (wake_up i s)"
      unfolding w by (intro leader_inv [OF inv i(1) hd]) (use lg hd q(3) in \<open>auto simp: clerk_ok_def loggingD batch_inv_def\<close>)
    moreover have "group_work (wake_up i s) < group_work s"
      by (rule work_set_clerk [OF _ i(1), of _ ?n]) (use i w in \<open>simp_all add: clerk_weight_def\<close>)
    ultimately show ?thesis by blast
  qed
qed

lemma finish_work:
  assumes q: "queue_ok s" and i: "i < length (clerks s)" "gk_pc (clerks s ! i) = G_stored lw"
  shows "group_work (finish_batch i lw s) < group_work s"
proof -
  obtain l where l: "lw = Some l" using queue_clerk [OF q i(1)] i(2) by (auto simp: clerk_ok_def)
  let ?U = "upto_last (Some l) (writers_queue s)"
  obtain ws ks where f: "finish_batch i (Some l) s = s\<lparr>writers_queue := ws, clerks := ks\<rparr>" "length ks = length (clerks s)" and
    nth: "\<forall>j<length (clerks s). ks ! j =
       (if j = i then ack (gk_mem (clerks s ! i)) (send_reply (gk_mem (clerks s ! i)) (clerks s ! i))
        else if j \<in> set ?U then mark (clerks s ! j)
        else if ws \<noteq> [] \<and> j = hd ws then (clerks s ! j)\<lparr>gk_signalled := True\<rparr>
        else clerks s ! j)"
    using finish_batch_clerks [OF q i(1)] i(2) l by blast
  have "header (gk_mem (clerks s ! i)) \<noteq> CLIENT_DONE" using queue_clerk [OF q i(1)] i(2) by (auto simp: clerk_ok_def loggingD)
  then have wi: "clerk_weight (ks ! i) < clerk_weight (clerks s ! i)" using nth i by (simp add: clerk_weight_def)
  have "clerk_weight (ks ! j) \<le> clerk_weight (clerks s ! j)" if "j < length (clerks s)" for j
    using nth that wi by (cases "j = i") (auto simp: clerk_weight_def mark_def)
  then show ?thesis
    using wi f l i(1) unfolding group_work_def by (intro sum_list_decr [of _ _ i]) auto
qed

lemma arrive_inv:
  assumes inv: "queue_inv s" and i: "i < length (clerks s)" "gk_pc (clerks s ! i) = G_wait" and cl: "call_fits cl"
  shows "queue_inv (set_clerk i ((clerks s ! i)\<lparr>gk_mem := set_header CLIENT_DONE (mwrite (gk_mem (clerks s ! i)) RING_HEADER (call_image cl))\<rparr>) s)"
proof -
  let ?m = "mwrite (gk_mem (clerks s ! i)) RING_HEADER (call_image cl)" and ?k = "clerks s ! i"
  let ?n = "?k\<lparr>gk_mem := set_header CLIENT_DONE ?m\<rparr>"
  have q: "queue_ok s" "log_ok s i" using inv i(1) by (auto simp: queue_inv_def)
  note c = queue_clerk [OF q(1) i(1)]
  have iq: "i \<notin> set (writers_queue s)" and l: "length (gk_mem ?k) = sync_buf_size" using c i(2) by (auto simp: clerk_ok_def)
  have fit: "RING_HEADER + length (call_image cl) \<le> length (gk_mem ?k)"
    using l cl by (simp add: call_fits_def length_call_image sync_buf_size_def)
  then have m: "length ?m = sync_buf_size" "holds (call_image cl) ?m" using l by (simp_all add: holds_def mread_mwrite_same)
  have "4 \<le> length ?m" using m(1) by (simp add: sync_buf_size_def MAX_REQUEST_def)
  note sh = length_set_header [OF this] holds_set_header [OF m(2) this]
  have "\<not> stored s i" using i(2) upto_last_subset iq by (fastforce simp: stored_def)
  with q(2) have a: "gk_acked ?n = map snd (filter (\<lambda>e. fst e = i) (group_log s))" by (simp add: log_ok_def)
  show ?thesis
    by (rule outside_update [OF inv i(1) iq, of ?n]) (use i m sh iq a cl in \<open>auto simp: clerk_ok_def\<close>)
qed

lemma clerk_step_frame:
  assumes "clerk_step ops i s = Some s'"
  shows "group_batches s \<le> group_batches s'" "length (clerks s') = length (clerks s)"
proof -
  have p: "length ks' = length ks" if "pop_writers me lw q ks = Some (ws, ks')" for me lw q ks ws ks'
    using that by (induction me lw q ks rule: pop_writers.induct) (auto simp: Let_def split: if_splits)
  have f: "group_batches (finish_batch i lw s) = group_batches s" "length (clerks (finish_batch i lw s)) = length (clerks s)" for lw
    using p [of i lw "writers_queue s" "clerks s"] by (auto simp: finish_batch_def signal_head_def Let_def split: option.split)
  show "group_batches s \<le> group_batches s'" "length (clerks s') = length (clerks s)"
    using assms f
    by (auto simp: clerk_step_def take_request_def wake_up_def Let_def
        split: group_pc.splits if_splits option.splits Operation.splits served.splits sum.splits prod.splits)
qed

lemma relpowp_two: "P a b \<Longrightarrow> P b c \<Longrightarrow> (P ^^ 2) a c"
  by (auto simp: numeral_2_eq_2)

locale batch_store = kv_store +
  assumes fits_batch: "fits (BATCH_SIZE + MAX_REQUEST)"
begin

definition group_inv :: "(bytes \<rightharpoonup> bytes) \<Rightarrow> nat \<Rightarrow> 'a group \<Rightarrow> bool" where
  "group_inv base n s \<longleftrightarrow> queue_inv s \<and> ok (n - group_batches s) (group_store s) \<and>
     contents (group_store s) = base ++ map_of (rev (map snd (group_log s)))"

lemma take_request_ok:
  assumes inv: "queue_inv s" and d: "ok n (group_store s)" and i: "i < length (clerks s)" "gk_pc (clerks s ! i) = G_wait"
    "header (gk_mem (clerks s ! i)) = CLIENT_DONE"
  shows "group_crashed (take_request ops i s) \<or>
    queue_inv (take_request ops i s) \<and> group_work (take_request ops i s) < group_work s \<and> ok n (group_store (take_request ops i s)) \<and>
    contents (group_store (take_request ops i s)) = contents (group_store s) \<and> group_log (take_request ops i s) = group_log s \<and>
    group_batches (take_request ops i s) = group_batches s \<and> length (clerks (take_request ops i s)) = length (clerks s) \<and>
    group_crashed (take_request ops i s) = group_crashed s"
proof -
  let ?k = "clerks s ! i" and ?m = "set_header CLERK_DONE (gk_mem (clerks s ! i))"
  have q: "queue_ok s" using inv by (simp add: queue_inv_def)
  obtain cl where cl: "call_fits cl" "holds (call_image cl) (gk_mem ?k)" and l: "length (gk_mem ?k) = sync_buf_size"
    using queue_clerk [OF q i(1)] i(2,3) by (auto simp: clerk_ok_def)
  have l4: "4 \<le> length (gk_mem ?k)" "RING_HEADER \<le> length ?m" using l by (simp_all add: sync_buf_size_def MAX_REQUEST_def RING_HEADER_def)
  then have m: "length ?m = sync_buf_size" "header ?m = CLERK_DONE" "holds (call_image cl) ?m" using l cl by (simp_all add: holds_set_header)
  note opr = call_op [OF m(3)]
  have wr: "logging ?m" if "(\<exists>k v. cl = Call_put k v) \<or> (\<exists>k v. cl = Call_update k v) \<or> (\<exists>k. cl = Call_delete k)"
    using holds_write_request [OF m(3) cl(1) m(1) that] m(2) by (simp add: logging_def)
  show ?thesis
  proof (cases "(\<exists>k v. cl = Call_put k v) \<or> (\<exists>k v. cl = Call_update k v) \<or> (\<exists>k. cl = Call_delete k)")
    case True
    then have t: "take_request ops i s = (set_clerk i (?k\<lparr>gk_mem := ?m, gk_done := False, gk_signalled := False,
       gk_pc := (if writers_queue s = [] then G_lead else G_queued)\<rparr>) s)\<lparr>writers_queue := writers_queue s @ [i]\<rparr>"
      using opr by (auto simp: take_request_def Let_def)
    from enqueue_step [OF inv i wr [OF True] t] d show ?thesis unfolding t by simp
  next
    case False
    then consider key where "cl = Call_get key" | "cl = Call_sync" by (cases cl) auto
    then show ?thesis
    proof cases
      case 1
      show ?thesis
      proof (cases "group_get ops ?m (group_store s)")
        case (Served m' d')
        have t: "take_request ops i s = (set_clerk i (send_reply m' ?k) s)\<lparr>group_store := d'\<rparr>"
          using opr 1 Served by (simp add: take_request_def Let_def)
        obtain d2 v where g: "db_get ops (group_store s) (mread ?m (RING_HEADER + sizeof_Request) (get_key_size RING_HEADER ?m)) = Inr (d2, v)"
          "ok n d2" "contents d2 = contents (group_store s)"
          using get_ok [OF d] by blast
        have "length m' = length ?m \<and> header m' = header ?m \<and> d' = d2"
          using Served g(1) l4(2) m(1)
          by (auto simp: group_get_def load_def memcpy_def Let_def set_val_size_def set_status_def RING_HEADER_def header_def mread_mwrite_before
              sync_buf_size_def MAX_REQUEST_def split: if_splits option.splits)
        with idle_step [OF inv i _ _ t] m g(2,3) show ?thesis unfolding t by simp
      qed (use opr 1 in \<open>simp_all add: take_request_def Let_def\<close>)
    next
      case 2
      have t: "take_request ops i s = (set_clerk i (send_reply ?m ?k) s)\<lparr>group_store := db_set_sync ops (group_store s)\<rparr>"
        using opr 2 by (simp add: take_request_def Let_def)
      from idle_step [OF inv i m(1,2) t] set_sync_ok [OF d] show ?thesis unfolding t by simp
    qed
  qed
qed

text \<open>
  One step of one clerk, unless an exception of the store ends the process: the invariant holds,
  and there is less left to do.
\<close>

lemma put_batch_ok:
  assumes inv: "group_inv base n s" and i: "i < length (clerks s)" "gk_pc (clerks s ! i) = G_batch lw" and b: "group_batches s < n"
  shows "(\<exists>e. db_put_batch ops (group_store s) (batch_keys (group_batch s)) (batch_DBIndexes (group_batch s))
       (batch_buffer (group_batch s)) (batch_length (group_batch s)) = Some (Inl e)) \<or>
    (\<exists>d. db_put_batch ops (group_store s) (batch_keys (group_batch s)) (batch_DBIndexes (group_batch s))
       (batch_buffer (group_batch s)) (batch_length (group_batch s)) = Some (Inr (d, True)) \<and> ok (n - Suc (group_batches s)) d \<and>
       contents d = contents (group_store s) ++
         map_of (rev (map (\<lambda>w. request_pair (gk_mem (clerks s ! w))) (upto_last lw (writers_queue s)))))"
proof -
  have q: "queue_ok s" "batch_inv s" using inv by (auto simp: group_inv_def queue_inv_def)
  obtain l where l: "lw = Some l" using queue_clerk [OF q(1) i(1)] i(2) by (auto simp: clerk_ok_def)
  have bo: "batch_of (batch_mems s l) (group_batch s)" "batch_length (group_batch s) < BATCH_SIZE + MAX_REQUEST"
    using q(2) i l by (auto simp: batch_inv_def)
  have "\<forall>m\<in>set (batch_mems s l). write_request m"
    using queued_logging(1) [OF q(1)] upto_last_subset [of "Some l" "writers_queue s"] by (auto simp: batch_mems_def intro: loggingD(3))
  note ok' = batch_of_ok [OF bo(1) this bo(2)]
  have "ok (Suc (n - Suc (group_batches s))) (group_store s)" using inv b by (simp add: group_inv_def Suc_diff_Suc)
  moreover have "fits (batch_length (group_batch s))" using fits_mono [OF fits_batch] bo(2) by simp
  ultimately show ?thesis using batch_ok [OF _ _ ok'(2,1)] ok'(3) l by (fastforce simp: batch_mems_def comp_def)
qed

lemma lead_step:
  assumes inv: "group_inv base n s" and i: "i < length (clerks s)" and G_lead: "gk_pc (clerks s ! i) = G_lead"
    and st: "clerk_step ops i s = Some s'"
  shows "group_inv base n s' \<and> group_crashed s' = group_crashed s \<and> group_work s' < group_work s \<and>
    length (clerks s') = length (clerks s) \<and> group_batches s' = group_batches s"
proof -
  let ?k = "clerks s ! i"
  have q: "queue_inv s" "queue_ok s" "batch_inv s" "ok (n - group_batches s) (group_store s)"
    "contents (group_store s) = base ++ map_of (rev (map snd (group_log s)))"
    using inv by (auto simp: group_inv_def queue_inv_def)
  have hd: "writers_queue s \<noteq> []" "hd (writers_queue s) = i" using one_leader [OF q(2) i] G_lead by auto
  have "distinct (writers_queue s)" "\<forall>w\<in>set (writers_queue s). write_request (gk_mem (clerks s ! w))"
    "length (batch_buffer (group_batch s)) = BATCH_SIZE + MAX_REQUEST"
    using q(2,3) queued_logging(1) [OF q(2)] loggingD(3) by (auto simp: queue_ok_def batch_inv_def)
  from BuildBatchGroup_ok [OF this(1,2) hd(1) this(3)]
  obtain b l where bb: "BuildBatchGroup (queue_mem s) (group_batch s) = Some (b, Some l)" "l \<in> set (writers_queue s)"
    "batch_of (batch_mems s l) b" "batch_length b < BATCH_SIZE + MAX_REQUEST"
    by (auto simp: queue_mem_def batch_mems_def)
  let ?n = "?k\<lparr>gk_pc := G_batch (Some l)\<rparr>"
  have s': "s' = (set_clerk i ?n s)\<lparr>group_batch := b\<rparr>" using st G_lead bb(1) by (simp add: clerk_step_def Let_def)
  have "\<not> stored s i"
  proof -
    have "gk_pc (clerks s ! j) \<noteq> G_stored lw" if "j < length (clerks s)" for j lw
      using one_leader(2) [OF q(2) that] hd(2) G_lead by fastforce
    then show ?thesis using G_lead by (auto simp: stored_def)
  qed
  then have "queue_inv s'"
    unfolding s' by (intro leader_inv [OF q(1) i hd])
      (use queue_clerk [OF q(2) i] G_lead bb hd batch_ofD(1) [OF bb(3)] in \<open>auto simp: clerk_ok_def\<close>)
  moreover have "group_work s' < group_work s"
    by (rule work_set_clerk [OF _ i, of _ ?n]) (use G_lead s' in \<open>simp_all add: clerk_weight_def\<close>)
  ultimately show ?thesis using q(4,5) s' by (simp add: group_inv_def)
qed

lemma store_step:
  assumes inv: "group_inv base n s" and i: "i < length (clerks s)" and G_batch: "gk_pc (clerks s ! i) = G_batch lw" and b: "group_batches s < n"
    and st: "clerk_step ops i s = Some s'"
  shows "group_crashed s' \<or> group_inv base n s' \<and> group_crashed s' = group_crashed s \<and> group_work s' < group_work s \<and>
    length (clerks s') = length (clerks s) \<and> group_batches s' = Suc (group_batches s)"
proof -
  let ?k = "clerks s ! i"
  have q: "queue_inv s" "queue_ok s" "batch_inv s" "ok (n - group_batches s) (group_store s)"
    "contents (group_store s) = base ++ map_of (rev (map snd (group_log s)))"
    using inv by (auto simp: group_inv_def queue_inv_def)
  from put_batch_ok [OF inv i G_batch b] show ?thesis
  proof (elim disjE exE conjE)
    fix e
    assume "db_put_batch ops (group_store s) (batch_keys (group_batch s)) (batch_DBIndexes (group_batch s))
       (batch_buffer (group_batch s)) (batch_length (group_batch s)) = Some (Inl e)"
    then show ?thesis using st G_batch by (auto simp: clerk_step_def Let_def)
  next
    fix d
    assume d: "db_put_batch ops (group_store s) (batch_keys (group_batch s)) (batch_DBIndexes (group_batch s))
         (batch_buffer (group_batch s)) (batch_length (group_batch s)) = Some (Inr (d, True))"
      "ok (n - Suc (group_batches s)) d"
      "contents d = contents (group_store s) ++ map_of (rev (map (\<lambda>w. request_pair (gk_mem (clerks s ! w))) (upto_last lw (writers_queue s))))"
    let ?n = "?k\<lparr>gk_pc := G_stored lw\<rparr>"
    let ?s = "(set_clerk i ?n s)\<lparr>group_store := d, group_batches := Suc (group_batches s),
      group_log := group_log s @ map (\<lambda>w. (w, request_pair (gk_mem (clerks s ! w)))) (upto_last lw (writers_queue s))\<rparr>"
    have s': "s' = ?s" using st G_batch d(1) by (simp add: clerk_step_def Let_def)
    have "queue_inv s'" unfolding s' by (rule store_inv [OF q(1) i G_batch])
    moreover have "group_work s' < group_work s"
      by (rule work_set_clerk [OF _ i, of _ ?n]) (use G_batch s' in \<open>simp_all add: clerk_weight_def\<close>)
    moreover have "contents d = base ++ map_of (rev (map snd (group_log s')))"
      using d(3) q(5) s' by (simp add: comp_def)
    ultimately show ?thesis using d(2) s' by (simp add: group_inv_def)
  qed
qed

lemma clerk_step_ok:
  assumes inv: "group_inv base n s" and c: "\<not> group_crashed s" and i: "i < length (clerks s)" and b: "group_batches s < n"
    and st: "clerk_step ops i s = Some s'"
  shows "group_crashed s' \<or> group_inv base n s' \<and> \<not> group_crashed s' \<and> group_work s' < group_work s \<and>
    length (clerks s') = length (clerks s) \<and> group_batches s' \<le> Suc (group_batches s)"
proof -
  let ?k = "clerks s ! i"
  have q: "queue_inv s" "queue_ok s" "batch_inv s" "ok (n - group_batches s) (group_store s)"
    "contents (group_store s) = base ++ map_of (rev (map snd (group_log s)))"
    using inv by (auto simp: group_inv_def queue_inv_def)
  show ?thesis
  proof (cases "gk_pc ?k")
    case G_wait
    then have "header (gk_mem ?k) = CLIENT_DONE" "s' = take_request ops i s" using st by (auto simp: clerk_step_def Let_def split: if_splits)
    with take_request_ok [OF q(1,4) i G_wait] q(5) c show ?thesis by (auto simp: group_inv_def)
  next
    case G_queued
    then have "gk_signalled ?k" "s' = wake_up i s" using st by (auto simp: clerk_step_def Let_def split: if_splits)
    moreover have "group_store (wake_up i s) = group_store s" "group_log (wake_up i s) = group_log s" "group_batches (wake_up i s) = group_batches s"
      "group_crashed (wake_up i s) = group_crashed s" "length (clerks (wake_up i s)) = length (clerks s)"
      by (simp_all add: wake_up_def Let_def)
    ultimately show ?thesis using wake_step [OF q(1) i G_queued] q(4,5) c by (auto simp: group_inv_def)
  next
    case G_lead
    from lead_step [OF inv i this st] c show ?thesis by simp
  next
    case (G_batch lw)
    from store_step [OF inv i this b st] c show ?thesis by auto
  next
    case (G_stored lw)
    then have s': "s' = finish_batch i lw s" using st by (simp add: clerk_step_def Let_def)
    from finish_inv [OF q(1) i G_stored] obtain ws ks where f: "s' = s\<lparr>writers_queue := ws, clerks := ks\<rparr>"
      "queue_inv (s\<lparr>writers_queue := ws, clerks := ks\<rparr>)" "length ks = length (clerks s)" using s' by auto
    have "group_work s' < group_work s" using finish_work [OF q(2) i G_stored] s' by simp
    then show ?thesis using f q(4,5) c by (simp add: group_inv_def)
  next
    case G_closed
    then show ?thesis using st by (simp add: clerk_step_def Let_def)
  qed
qed

lemma reach_inv:
  assumes r: "group_reach ops s0 s" and s0: "group_inv base n s0" "\<not> group_crashed s0" and b: "group_batches s < n"
  shows "length (clerks s) = length (clerks s0) \<and> (\<not> group_crashed s \<longrightarrow> group_inv base n s)"
  using r b
proof induction
  case (group_serves s s')
  from group_serves.hyps(2) obtain i where i: "\<not> group_crashed s" "i < length (clerks s)" "clerk_step ops i s = Some s'"
    by (auto simp: server_step.simps)
  have "group_batches s < n" using clerk_step_frame(1) [OF i(3)] group_serves.prems by simp
  with group_serves.IH i(1) have "group_inv base n s" "length (clerks s) = length (clerks s0)" by auto
  from clerk_step_ok [OF this(1) i(1,2) \<open>group_batches s < n\<close> i(3)] this(2) clerk_step_frame(2) [OF i(3)] show ?case by auto
next
  case (group_request s s')
  from group_request.hyps(2) show ?case
  proof cases
    case (arrives i cl)
    then show ?thesis using group_request arrive_inv [of s i cl] by (auto simp: group_inv_def)
  qed
qed (use s0 in simp)

lemma step_enabled:
  assumes inv: "group_inv base n s" and b: "group_batches s < n" and i: "i < length (clerks s)" "0 < clerk_weight (clerks s ! i)"
    "gk_pc (clerks s ! i) = G_queued \<longrightarrow> gk_signalled (clerks s ! i)"
  shows "\<exists>s'. clerk_step ops i s = Some s'"
proof (cases "gk_pc (clerks s ! i)")
  case (G_batch lw)
  from put_batch_ok [OF inv i(1) G_batch b] G_batch show ?thesis by (auto simp: clerk_step_def Let_def)
qed (use i in \<open>auto simp: clerk_step_def clerk_weight_def Let_def split: if_splits option.splits\<close>)

lemma some_step_enabled:
  assumes inv: "group_inv base n s" and c: "\<not> group_crashed s" and b: "group_batches s < n" and w: "0 < group_work s"
  shows "\<exists>s'. server_step ops s s'"
proof -
  have q: "queue_ok s" using inv by (simp add: group_inv_def queue_inv_def)
  obtain i where i: "i < length (clerks s)" "0 < clerk_weight (clerks s ! i)"
  proof (cases "\<forall>i<length (clerks s). clerk_weight (clerks s ! i) = 0")
    case True
    then have "map clerk_weight (clerks s) = replicate (length (clerks s)) 0" by (intro nth_equalityI) simp_all
    with w show ?thesis by (simp add: group_work_def sum_list_replicate)
  qed (use that in auto)
  have "\<exists>j<length (clerks s). \<exists>s'. clerk_step ops j s = Some s'"
  proof (cases "gk_pc (clerks s ! i) = G_queued \<longrightarrow> gk_signalled (clerks s ! i)")
    case True
    then show ?thesis using step_enabled [OF inv b i] i(1) by blast
  next
    case False
    let ?h = "hd (writers_queue s)"
    have "i \<in> set (writers_queue s)" using queue_clerk [OF q i(1)] False by (auto simp: clerk_ok_def split: if_splits)
    then have h: "?h \<in> set (writers_queue s)" by (cases "writers_queue s") auto
    have hl: "?h < length (clerks s)" using q h by (simp add: queue_ok_def)
    have "0 < clerk_weight (clerks s ! ?h)" "gk_pc (clerks s ! ?h) = G_queued \<longrightarrow> gk_signalled (clerks s ! ?h)"
      using queue_clerk [OF q hl] h by (auto simp: clerk_ok_def clerk_weight_def split: group_pc.splits if_splits)
    from step_enabled [OF inv b hl this] hl show ?thesis by blast
  qed
  with c show ?thesis by (auto intro: clerk_goes_on)
qed

lemma run_ok:
  assumes r: "(server_step ops ^^ m) s s'" and s: "group_inv base n s" "\<not> group_crashed s" "group_batches s + group_work s < n"
  shows "m \<le> group_work s \<and> length (clerks s') = length (clerks s) \<and>
    (\<not> group_crashed s' \<longrightarrow> group_inv base n s' \<and> group_work s' + m \<le> group_work s \<and> group_batches s' \<le> group_batches s + m)"
  using r
proof (induction m arbitrary: s')
  case (Suc m)
  then obtain t where t: "(server_step ops ^^ m) s t" "server_step ops t s'" by (auto elim: relpowp_Suc_E)
  then obtain i where i: "\<not> group_crashed t" "i < length (clerks t)" "clerk_step ops i t = Some s'" by (auto simp: server_step.simps)
  have ih: "group_inv base n t" "group_work t + m \<le> group_work s" "group_batches t \<le> group_batches s + m" "length (clerks t) = length (clerks s)"
    using Suc.IH [OF t(1)] i(1) by auto
  have "0 < clerk_weight (clerks t ! i)" using i(3) by (auto simp: clerk_step_def clerk_weight_def Let_def split: group_pc.splits if_splits)
  then have w: "0 < group_work t" using i(2) member_le_sum_list [of "clerk_weight (clerks t ! i)" "map clerk_weight (clerks t)"]
    by (auto simp: group_work_def)
  then have b: "group_batches t < n" using ih s(3) by simp
  from clerk_step_ok [OF ih(1) i(1,2) b i(3)] ih w clerk_step_frame(2) [OF i(3)] show ?case by auto
qed (use s in simp)

lemma run_ends:
  assumes "group_inv base n s" "\<not> group_crashed s" "group_batches s + group_work s < n"
  shows "\<exists>m s'. (server_step ops ^^ m) s s' \<and> (group_crashed s' \<or> group_work s' = 0)"
  using assms
proof (induction "group_work s" arbitrary: s rule: less_induct)
  case less
  show ?case
  proof (cases "group_work s = 0")
    case True
    then show ?thesis by (intro exI [of _ 0] exI [of _ s]) simp
  next
    case False
    have b: "group_batches s < n" using less.prems(3) by simp
    from some_step_enabled [OF less.prems(1,2) b] False obtain t where t: "server_step ops s t" by auto
    have one: "(server_step ops ^^ 1) s t" using t by (simp only: relpowp_1)
    show ?thesis
    proof (cases "group_crashed t")
      case True
      with one show ?thesis by blast
    next
      case False
      with run_ok [OF one less.prems] have t': "group_inv base n t" "group_work t < group_work s" "group_batches t + group_work t < n"
        using less.prems(3) by auto
      from less.hyps [OF t'(2,1) False t'(3)] obtain m s' where "(server_step ops ^^ m) t s'" "group_crashed s' \<or> group_work s' = 0" by blast
      with relpowp_Suc_I2 [OF t this(1)] show ?thesis by blast
    qed
  qed
qed

text \<open>A write that finds the queue empty, with its clerk left alone.\<close>

lemma lone_batch:
  assumes inv: "group_inv base n s" and c: "\<not> group_crashed s" "writers_queue s = [i]" "group_batches s < n"
    and i: "i < length (clerks s)" "gk_pc (clerks s ! i) = G_batch (Some i)" "gk_mem (clerks s ! i) = m"
  shows "\<exists>j\<le>2. \<exists>s'. (server_step ops ^^ j) s s' \<and> (group_crashed s' \<or>
    contents (group_store s') = (contents (group_store s))(fst (request_pair m) \<mapsto> snd (request_pair m)) \<and>
    last (gk_replies (clerks s' ! i)) = mread m RING_HEADER (sizeof_RequestReply + unat (get_val_size RING_HEADER m)))"
proof -
  from put_batch_ok [OF inv i(1,2) c(3)] show ?thesis
  proof (elim disjE exE conjE)
    fix e
    assume "db_put_batch ops (group_store s) (batch_keys (group_batch s)) (batch_DBIndexes (group_batch s))
       (batch_buffer (group_batch s)) (batch_length (group_batch s)) = Some (Inl e)"
    then have "clerk_step ops i s = Some (s\<lparr>group_crashed := True\<rparr>)" using i(2) by (simp add: clerk_step_def Let_def)
    then have "server_step ops s (s\<lparr>group_crashed := True\<rparr>)" using clerk_goes_on i(1) c(1) by blast
    then have "(server_step ops ^^ 1) s (s\<lparr>group_crashed := True\<rparr>)" by (simp only: relpowp_1)
    then show ?thesis by (intro exI [of _ 1]) auto
  next
    fix d
    assume d: "db_put_batch ops (group_store s) (batch_keys (group_batch s)) (batch_DBIndexes (group_batch s))
         (batch_buffer (group_batch s)) (batch_length (group_batch s)) = Some (Inr (d, True))"
      "contents d = contents (group_store s) ++ map_of (rev (map (\<lambda>w. request_pair (gk_mem (clerks s ! w))) (upto_last (Some i) (writers_queue s))))"
    let ?k = "(clerks s ! i)\<lparr>gk_pc := G_stored (Some i)\<rparr>"
    let ?s1 = "(set_clerk i ?k s)\<lparr>group_store := d, group_batches := Suc (group_batches s),
      group_log := group_log s @ map (\<lambda>w. (w, request_pair (gk_mem (clerks s ! w)))) (upto_last (Some i) (writers_queue s))\<rparr>"
    let ?s2 = "?s1\<lparr>writers_queue := [], clerks := (clerks ?s1)[i := ack m (send_reply m ?k)]\<rparr>"
    have st1: "clerk_step ops i s = Some ?s1" using d(1) i(2) by (simp add: clerk_step_def Let_def)
    have "finish_batch i (Some i) ?s1 = ?s2" using i c(2) by (simp add: finish_batch_def signal_head_def Let_def)
    then have st2: "clerk_step ops i ?s1 = Some ?s2" using i(1) by (simp add: clerk_step_def Let_def)
    have "server_step ops s ?s1" "server_step ops ?s1 ?s2"
      using clerk_goes_on [OF c(1) i(1) st1] clerk_goes_on [OF _ _ st2] c(1) i(1) by simp_all
    then have "(server_step ops ^^ 2) s ?s2" by (rule relpowp_two)
    moreover have "contents (group_store ?s2) = (contents (group_store s))(fst (request_pair m) \<mapsto> snd (request_pair m))"
      using d(2) i c(2) by (simp add: map_add_def fun_eq_iff)
    moreover have "last (gk_replies (clerks ?s2 ! i)) = mread m RING_HEADER (sizeof_RequestReply + unat (get_val_size RING_HEADER m))"
      using i(1) by (simp add: ack_def send_reply_def)
    ultimately show ?thesis by (intro exI [of _ 2]) auto
  qed
qed

lemma lone_writer:
  assumes inv: "group_inv base n s" and c: "\<not> group_crashed s" "writers_queue s = []" "group_batches s < n"
    and i: "i < length (clerks s)" "gk_pc (clerks s ! i) = G_wait" "header (gk_mem (clerks s ! i)) = CLIENT_DONE"
    and cl: "holds (call_image cl) (gk_mem (clerks s ! i))" "call_fits cl" "(\<exists>k v. cl = Call_put k v) \<or> (\<exists>k v. cl = Call_update k v) \<or> (\<exists>k. cl = Call_delete k)"
    and m: "m = set_header CLERK_DONE (gk_mem (clerks s ! i))"
  shows "\<exists>j\<le>4. \<exists>s'. (server_step ops ^^ j) s s' \<and> (group_crashed s' \<or>
    contents (group_store s') = (contents (group_store s))(fst (request_pair m) \<mapsto> snd (request_pair m)) \<and>
    last (gk_replies (clerks s' ! i)) = mread m RING_HEADER (sizeof_RequestReply + unat (get_val_size RING_HEADER m)))"
proof -
  let ?k = "clerks s ! i"
  have q: "queue_ok s" "batch_inv s" using inv by (simp_all add: group_inv_def queue_inv_def)
  have l: "length (gk_mem ?k) = sync_buf_size" using queue_clerk [OF q(1) i(1)] by (simp add: clerk_ok_def)
  have hm: "holds (call_image cl) m" "length m = sync_buf_size" using cl(1) l m by (simp_all add: holds_set_header sync_buf_size_def MAX_REQUEST_def)
  have wr: "write_request m" by (rule holds_write_request [OF hm(1) cl(2) hm(2) cl(3)])
  let ?k2 = "?k\<lparr>gk_mem := m, gk_done := False, gk_signalled := False, gk_pc := G_lead\<rparr>"
  let ?s2 = "(set_clerk i ?k2 s)\<lparr>writers_queue := [i]\<rparr>"
  have st1: "clerk_step ops i s = Some ?s2"
    using call_op [OF hm(1)] cl(3) i m c(2) by (auto simp: clerk_step_def take_request_def Let_def)
  from clerk_step_ok [OF inv c(1) i(1) c(3) st1] c(1) have inv2: "group_inv base n ?s2" by simp
  have k2: "clerks ?s2 ! i = ?k2" "i < length (clerks ?s2)" using i(1) by simp_all
  obtain b where b: "BuildBatchGroup (queue_mem ?s2) (group_batch ?s2) = Some (b, Some i)"
    using BuildBatchGroup_ok [of "[i]" "\<lambda>_. m" "group_batch s"] wr q(2) i(1) by (auto simp: queue_mem_def batch_inv_def)
  let ?s3 = "(set_clerk i (?k2\<lparr>gk_pc := G_batch (Some i)\<rparr>) ?s2)\<lparr>group_batch := b\<rparr>"
  have st2: "clerk_step ops i ?s2 = Some ?s3" using b k2 by (simp add: clerk_step_def Let_def)
  from lead_step [OF inv2 k2(2) _ st2] k2 have inv3: "group_inv base n ?s3" by simp
  have "server_step ops s ?s2" "server_step ops ?s2 ?s3"
    using clerk_goes_on [OF c(1) i(1) st1] clerk_goes_on [OF _ k2(2) st2] c(1) by simp_all
  then have run: "(server_step ops ^^ 2) s ?s3" by (rule relpowp_two)
  obtain j s' where j: "j \<le> 2" "(server_step ops ^^ j) ?s3 s'" "group_crashed s' \<or>
      contents (group_store s') = (contents (group_store s))(fst (request_pair m) \<mapsto> snd (request_pair m)) \<and>
      last (gk_replies (clerks s' ! i)) = mread m RING_HEADER (sizeof_RequestReply + unat (get_val_size RING_HEADER m))"
    using lone_batch [OF inv3, of i m] c i(1) by auto
  have "(server_step ops ^^ (2 + j)) s s'" using run j(2) unfolding relpowp_add by blast
  with j(1,3) show ?thesis by (intro exI [of _ "2 + j"]) auto
qed

end

section \<open>Properties\<close>

interpretation bcb: batch_store "BitCask append_pwrite mem" bitcask_ok db_map record_fits for mem
  by unfold_locales (simp add: record_fits_def BATCH_SIZE_def MAX_REQUEST_def)

text \<open>A server whose clerks have all just started.\<close>

definition group_fresh :: "'d group \<Rightarrow> bool" where
  "group_fresh s \<longleftrightarrow> writers_queue s = [] \<and> length (batch_buffer (group_batch s)) = BATCH_SIZE + MAX_REQUEST \<and>
     group_log s = [] \<and> group_batches s = 0 \<and> \<not> group_crashed s \<and>
     (\<forall>k\<in>set (clerks s). length (gk_mem k) = sync_buf_size \<and> gk_pc k = G_wait \<and> header (gk_mem k) \<noteq> CLIENT_DONE \<and> gk_acked k = [])"

definition leading :: "group_clerk \<Rightarrow> bool" where
  "leading k \<longleftrightarrow> gk_pc k \<in> {G_lead} \<union> range G_batch \<union> range G_stored"

definition idle :: "group_clerk \<Rightarrow> bool" where
  "idle k \<longleftrightarrow> gk_pc k = G_wait \<and> header (gk_mem k) \<noteq> CLIENT_DONE \<or> gk_pc k = G_closed"

lemma group_fresh_inv:
  assumes "group_fresh s" "bitcask_ok n (group_store s)"
  shows "bcb.group_inv (db_map (group_store s)) n s"
proof -
  have "clerk_ok [] i (clerks s ! i)" "log_ok s i" if "i < length (clerks s)" for i
  proof -
    have "clerks s ! i \<in> set (clerks s)" using that by simp
    then have k: "length (gk_mem (clerks s ! i)) = sync_buf_size" "gk_pc (clerks s ! i) = G_wait"
      "header (gk_mem (clerks s ! i)) \<noteq> CLIENT_DONE" "gk_acked (clerks s ! i) = []"
      using assms(1) by (auto simp: group_fresh_def)
    then show "clerk_ok [] i (clerks s ! i)" by (simp add: clerk_ok_def)
    show "log_ok s i" using k assms(1) by (auto simp: log_ok_def stored_def group_fresh_def)
  qed
  moreover have "gk_pc (clerks s ! i) \<noteq> G_batch lw" if "i < length (clerks s)" for i lw
    using assms(1) nth_mem [OF that] by (auto simp: group_fresh_def)
  ultimately have "queue_inv s" using assms(1) by (auto simp: queue_inv_def queue_ok_def batch_inv_def group_fresh_def)
  then show ?thesis using assms by (auto simp: bcb.group_inv_def group_fresh_def)
qed

lemma clerk_weight_0: "clerk_weight k = 0 \<longleftrightarrow> idle k"
  by (auto simp: clerk_weight_def idle_def split: group_pc.splits)

lemma group_work_bound: "group_work s \<le> 5 * length (clerks s)"
proof -
  have "sum_list (map clerk_weight ks) \<le> 5 * length ks" for ks
    by (induction ks) (auto simp: clerk_weight_def split: group_pc.splits)
  then show ?thesis by (simp add: group_work_def)
qed

text \<open>
  C4: The group-commit server on a BitCask store, with any number of clerks in any interleaving:
  the store holds what the writes of the batches so far lead to, one after the other, and of
  each clerk's writes exactly those it has acknowledged are among them, in order, up to one
  that is stored and still to be acknowledged.
\<close>

theorem group_commit_stores:
  assumes "pwrite_ok pw" "group_fresh s0" "bitcask_ok n (group_store s0)"
    "group_reach (BitCask pw mem) s0 s" "\<not> group_crashed s" "group_batches s < n"
  shows "db_map (group_store s) = db_map (group_store s0) ++ map_of (rev (map snd (group_log s))) \<and>
    (\<forall>i<length (clerks s). \<exists>rest. length rest \<le> 1 \<and>
       map snd (filter (\<lambda>e. fst e = i) (group_log s)) = gk_acked (clerks s ! i) @ rest)"
proof -
  have r: "group_reach (BitCask append_pwrite mem) s0 s" using assms(1,4) by (simp add: pwrite_ok_append)
  have "\<not> group_crashed s0" using assms(2) by (simp add: group_fresh_def)
  from bcb.reach_inv [OF r group_fresh_inv [OF assms(2,3)] this assms(6)] assms(5)
  have inv: "bcb.group_inv (db_map (group_store s0)) n s" by blast
  have "\<exists>rest. length rest \<le> 1 \<and> map snd (filter (\<lambda>e. fst e = i) (group_log s)) = gk_acked (clerks s ! i) @ rest"
    if "i < length (clerks s)" for i
    using inv that by (intro exI [of _ "if stored s i then [request_pair (gk_mem (clerks s ! i))] else []"])
      (simp add: bcb.group_inv_def queue_inv_def log_ok_def)
  with inv show ?thesis by (simp add: bcb.group_inv_def)
qed

text \<open>
  C23: At every moment at most one clerk of the group-commit server is a leader, so that the one
  batch they share has one user, and it is the clerk at the head of the queue.
\<close>

theorem group_one_leader:
  assumes "pwrite_ok pw" "group_fresh s0" "bitcask_ok n (group_store s0)"
    "group_reach (BitCask pw mem) s0 s" "\<not> group_crashed s" "group_batches s < n"
    "i < length (clerks s)" "leading (clerks s ! i)" "j < length (clerks s)" "leading (clerks s ! j)"
  shows "i = j \<and> writers_queue s \<noteq> [] \<and> hd (writers_queue s) = i"
proof -
  have r: "group_reach (BitCask append_pwrite mem) s0 s" using assms(1,4) by (simp add: pwrite_ok_append)
  have "\<not> group_crashed s0" using assms(2) by (simp add: group_fresh_def)
  from bcb.reach_inv [OF r group_fresh_inv [OF assms(2,3)] this assms(6)] assms(5)
  have q: "queue_ok s" by (simp add: bcb.group_inv_def queue_inv_def)
  show ?thesis
    using one_leader [OF q assms(7)] one_leader [OF q assms(9)] assms(8,10) unfolding leading_def by blast
qed


text \<open>
  C31: However many writers are queued, \<^verbatim>\<open>BuildBatchGroup\<close> stays inside its buffer, takes at least one
  of them, and hands the store a batch whose keys and values are those of the requests taken,
  in the order of the queue.
\<close>

theorem BuildBatchGroup_fits:
  assumes "distinct ws" "\<forall>w\<in>set ws. write_request (f w)" "ws \<noteq> []" "length (batch_buffer b) = BATCH_SIZE + MAX_REQUEST"
  shows "\<exists>b' l. BuildBatchGroup (map (\<lambda>w. (w, f w)) ws) b = Some (b', Some l) \<and> l \<in> set ws \<and>
    batch_length b' < BATCH_SIZE + MAX_REQUEST \<and> length (batch_buffer b') = BATCH_SIZE + MAX_REQUEST \<and>
    batch_ok (batch_length b') (batch_keys b') (batch_DBIndexes b') \<and>
    zip (batch_keys b') (map (batch_value (take (batch_length b') (batch_buffer b'))) (batch_DBIndexes b')) =
      map (\<lambda>w. request_pair (f w)) (upto_last (Some l) ws)"
proof -
  obtain b' l where b: "BuildBatchGroup (map (\<lambda>w. (w, f w)) ws) b = Some (b', Some l)" "l \<in> set ws"
    "batch_of (map f (upto_last (Some l) ws)) b'" "batch_length b' < BATCH_SIZE + MAX_REQUEST"
    using BuildBatchGroup_ok [OF assms] by blast
  have "\<forall>m\<in>set (map f (upto_last (Some l) ws)). write_request m" using assms(2) upto_last_subset [of "Some l" ws] by auto
  from batch_of_ok [OF b(3) this b(4)] b batch_ofD(1) [OF b(3)] show ?thesis by (auto simp: comp_def)
qed

text \<open>Requests in a buffer, and a server to apply the properties to.\<close>

definition sample_mem :: "call \<Rightarrow> bytes" where
  "sample_mem cl = set_header CLIENT_DONE (mwrite (replicate sync_buf_size 0) RING_HEADER (call_image cl))"

lemma sample_mem: "call_fits cl \<Longrightarrow> length (sample_mem cl) = sync_buf_size \<and> header (sample_mem cl) = CLIENT_DONE \<and> holds (call_image cl) (sample_mem cl)"
proof -
  assume "call_fits cl"
  then have l: "RING_HEADER + length (call_image cl) \<le> length (replicate sync_buf_size (0 :: byte))"
    by (simp add: call_fits_def length_call_image sync_buf_size_def)
  let ?m = "mwrite (replicate sync_buf_size 0) RING_HEADER (call_image cl)"
  have m: "length ?m = sync_buf_size" using l by simp
  then have "4 \<le> length ?m" by (simp add: sync_buf_size_def MAX_REQUEST_def)
  moreover have "holds (call_image cl) ?m" using l by (simp add: holds_def mread_mwrite_same)
  ultimately show ?thesis using m by (simp add: sample_mem_def holds_set_header)
qed

definition sample_clerk :: group_clerk where
  "sample_clerk = \<lparr>gk_mem = replicate sync_buf_size 0, gk_pc = G_wait, gk_done = False, gk_signalled = False, gk_replies = [], gk_acked = []\<rparr>"

definition sample_batch :: WriteBatch where
  "sample_batch = \<lparr>batch_length = 0, batch_keys = [], batch_DBIndexes = [], batch_buffer = replicate (BATCH_SIZE + MAX_REQUEST) 0\<rparr>"

definition sample_group :: "'d \<Rightarrow> 'd group" where
  "sample_group d = \<lparr>clerks = [sample_clerk, sample_clerk], writers_queue = [], group_batch = sample_batch, group_store = d,
     group_log = [], group_batches = 0, group_crashed = False\<rparr>"

definition sample_asked :: "call \<Rightarrow> 'd \<Rightarrow> 'd group" where
  "sample_asked cl d = set_clerk 0 (sample_clerk\<lparr>gk_mem := sample_mem cl\<rparr>) (sample_group d)"

lemma header_sample: "header (replicate sync_buf_size 0) \<noteq> CLIENT_DONE"
  by (simp add: sync_buf_size_def header_def mread_def un_le32_def le_val_replicate CLIENT_DONE_def MAX_REQUEST_def RING_HEADER_def)

lemma sample_group_fresh: "group_fresh (sample_group d)"
  using header_sample by (simp add: group_fresh_def sample_group_def sample_clerk_def sample_batch_def)

lemma sample_asked_reach: "call_fits cl \<Longrightarrow> group_reach ops (sample_group d) (sample_asked cl d)"
proof (rule group_request [OF group_start])
  assume "call_fits cl"
  then show "request_arrives (sample_group d) (sample_asked cl d)"
    using arrives [of "sample_group d" 0 cl] header_sample
    by (simp add: sample_group_def sample_asked_def sample_clerk_def sample_mem_def)
qed

lemma sample_taken:
  "group_reach ops (sample_group d) (take_request ops 0 (sample_asked sample_call d)) \<and>
   leading (clerks (take_request ops 0 (sample_asked sample_call d)) ! 0) \<and> group_batches (take_request ops 0 (sample_asked sample_call d)) = 0 \<and>
   length (clerks (take_request ops 0 (sample_asked sample_call d))) = 2 \<and> \<not> group_crashed (take_request ops 0 (sample_asked sample_call d))"
proof -
  let ?s = "sample_asked sample_call d"
  have m: "length (sample_mem sample_call) = sync_buf_size" "header (sample_mem sample_call) = CLIENT_DONE"
    "holds (call_image sample_call) (sample_mem sample_call)" using sample_mem [OF sample_call_fits] by auto
  have k: "clerks ?s ! 0 = sample_clerk\<lparr>gk_mem := sample_mem sample_call\<rparr>" by (simp add: sample_asked_def sample_group_def)
  have "4 \<le> length (sample_mem sample_call)" using m(1) by (simp add: sync_buf_size_def MAX_REQUEST_def)
  then have opr: "get_op RING_HEADER (set_header CLERK_DONE (sample_mem sample_call)) = Some PUT"
    using bc.call_op [OF holds_set_header [OF m(3)]] by (simp add: sample_call_def)
  have "server_step ops ?s (take_request ops 0 ?s)"
    by (rule clerk_goes_on [of _ 0]) (use m k in \<open>simp_all add: clerk_step_def sample_asked_def sample_group_def sample_clerk_def\<close>)
  with sample_asked_reach [OF sample_call_fits] have "group_reach ops (sample_group d) (take_request ops 0 ?s)" by (rule group_serves)
  then show ?thesis using opr k by (simp add: take_request_def Let_def leading_def sample_asked_def sample_group_def)
qed

theorem group_commit_stores_witness:
  "\<exists>s0 s. group_fresh s0 \<and> group_reach (BitCask append_pwrite (\<lambda>_ _. None)) s0 s \<and> writers_queue s = [] \<and>
    header (gk_mem (clerks s ! 0)) = CLIENT_DONE \<and> db_map (group_store s) = db_map (group_store s0)"
proof -
  obtain db where db: "db_ok db" "length (data_files db) = 1" using sample_db by blast
  then have ok: "bitcask_ok 1000 (group_store (sample_group db))" by (simp add: bitcask_ok_def sample_group_def)
  have "\<not> group_crashed (sample_asked sample_call db)" "group_batches (sample_asked sample_call db) < 1000"
    by (simp_all add: sample_asked_def sample_group_def)
  from group_commit_stores [OF append_pwrite_ok sample_group_fresh ok sample_asked_reach [OF sample_call_fits] this]
  show ?thesis
    using sample_group_fresh [of db] sample_asked_reach [OF sample_call_fits, of "BitCask append_pwrite (\<lambda>_ _. None)" db] sample_mem [OF sample_call_fits]
    by (intro exI [of _ "sample_group db"] exI [of _ "sample_asked sample_call db"]) (simp add: sample_asked_def sample_group_def)
qed

theorem group_one_leader_witness:
  "\<exists>s0 s. group_fresh s0 \<and> group_reach (BitCask append_pwrite (\<lambda>_ _. None)) s0 s \<and> leading (clerks s ! 0) \<and>
    writers_queue s \<noteq> [] \<and> hd (writers_queue s) = 0"
proof -
  obtain db where db: "db_ok db" "length (data_files db) = 1" using sample_db by blast
  then have ok: "bitcask_ok 1000 (group_store (sample_group db))" by (simp add: bitcask_ok_def sample_group_def)
  note t = sample_taken [of "BitCask append_pwrite (\<lambda>_ _. None)" db]
  show ?thesis
    using group_one_leader [OF append_pwrite_ok sample_group_fresh ok, of "\<lambda>_ _. None" _ 0 0] t sample_group_fresh by fastforce
qed


theorem BuildBatchGroup_fits_witness:
  "\<exists>b'. BuildBatchGroup [(7, sample_mem sample_call)] sample_batch = Some (b', Some 7) \<and> batch_length b' < BATCH_SIZE + MAX_REQUEST \<and>
    zip (batch_keys b') (map (batch_value (take (batch_length b') (batch_buffer b'))) (batch_DBIndexes b')) = [request_pair (sample_mem sample_call)]"
proof -
  have "write_request (sample_mem sample_call)"
    by (rule holds_write_request [of sample_call]) (use sample_mem [OF sample_call_fits] sample_call_fits in \<open>auto simp: sample_call_def\<close>)
  then show ?thesis
    using BuildBatchGroup_fits [of "[7]" "\<lambda>_. sample_mem sample_call" sample_batch] by (auto simp: sample_batch_def)
qed

lemma delete_status:
  assumes "mread m RING_HEADER (sizeof_Request + length key + length ([] :: bytes)) = request_image DELETE key []" "get_val_size RING_HEADER m = of_nat (length ([] :: bytes))"
  shows "get_status 0 (mread m RING_HEADER (sizeof_RequestReply + unat (get_val_size RING_HEADER m))) \<noteq> status_code OK"
proof -
  have "mread (mread m RING_HEADER (sizeof_Request + length key + length ([] :: bytes))) 0 8 = mread m RING_HEADER 8"
    using mread_mread [of 0 8 "sizeof_Request + length key + length ([] :: bytes)" m RING_HEADER] by (simp add: sizeof_Request_def)
  then have "mread m RING_HEADER 8 = mread (request_image DELETE key []) 0 8" using assms(1) by simp
  then have st: "get_status 0 (mread m RING_HEADER (sizeof_RequestReply + unat (get_val_size RING_HEADER m))) =
      of_nat (3 + 256 * le_val (le_bytes 3 (length key)))"
    using assms(2) by (simp add: get_status_def request_image_def mread_def un_le32_def sizeof_RequestReply_def op_code_def del: of_nat_add of_nat_mult)
  have "\<not> (2 :: nat) ^ 32 dvd 3 + 256 * le_val (le_bytes 3 (length key))"
  proof
    assume "(2 :: nat) ^ 32 dvd 3 + 256 * le_val (le_bytes 3 (length key))"
    then have "(256 :: nat) dvd 3 + 256 * le_val (le_bytes 3 (length key))" by (rule dvd_trans [rotated]) simp
    then show False by presburger
  qed
  then show ?thesis unfolding st by (simp only: status_code_def RequestStatus.case word_of_nat_eq_0_iff) simp
qed

text \<open>
  A delete through the group-commit front end does not delete: the clerk that leads puts the
  empty string under the key, and the reply its client reads says that nothing was there.
\<close>

theorem group_delete_puts_empty:
  assumes "pwrite_ok pw" "group_fresh s0" "bitcask_ok n (group_store s0)" "0 < n" "i < length (clerks s0)" "call_fits (Call_delete key)"
  shows "\<exists>m\<le>4. \<exists>s'. (server_step (BitCask pw mem) ^^ m)
      (set_clerk i ((clerks s0 ! i)\<lparr>gk_mem := set_header CLIENT_DONE (mwrite (gk_mem (clerks s0 ! i)) RING_HEADER (call_image (Call_delete key)))\<rparr>) s0) s' \<and>
    (group_crashed s' \<or> db_map (group_store s') = (db_map (group_store s0))(key \<mapsto> []) \<and>
       get_status 0 (last (gk_replies (clerks s' ! i))) \<noteq> status_code OK)"
proof -
  let ?cl = "Call_delete key" and ?ops = "BitCask append_pwrite mem"
  let ?k1 = "(clerks s0 ! i)\<lparr>gk_mem := set_header CLIENT_DONE (mwrite (gk_mem (clerks s0 ! i)) RING_HEADER (call_image ?cl))\<rparr>"
  let ?s1 = "set_clerk i ?k1 s0"
  have pw: "pw = append_pwrite" using assms(1) by (simp add: pwrite_ok_append)
  have fr: "\<not> group_crashed s0" "group_batches s0 = 0" "writers_queue s0 = []" "gk_pc (clerks s0 ! i) = G_wait"
    "length (gk_mem (clerks s0 ! i)) = sync_buf_size" "length (batch_buffer (group_batch s0)) = BATCH_SIZE + MAX_REQUEST"
    using assms(2) nth_mem [OF assms(5)] by (auto simp: group_fresh_def)
  have inv0: "bcb.group_inv (db_map (group_store s0)) n s0" by (rule group_fresh_inv [OF assms(2,3)])
  then have inv1: "bcb.group_inv (db_map (group_store s0)) n ?s1"
    using arrive_inv [OF _ assms(5) fr(4) assms(6)] by (simp add: bcb.group_inv_def)
  let ?m = "gk_mem ?k1" and ?m' = "set_header CLERK_DONE (gk_mem ?k1)"
  have fit: "RING_HEADER + length (call_image ?cl) \<le> length (gk_mem (clerks s0 ! i))"
    using fr(5) assms(6) unfolding call_fits_def length_call_image sync_buf_size_def by simp
  have h: "holds (call_image ?cl) (mwrite (gk_mem (clerks s0 ! i)) RING_HEADER (call_image ?cl))"
    using fit unfolding holds_def by (rule mread_mwrite_same) simp
  have l: "length (mwrite (gk_mem (clerks s0 ! i)) RING_HEADER (call_image ?cl)) = sync_buf_size" using fit fr(5) by simp
  then have l4: "4 \<le> length (mwrite (gk_mem (clerks s0 ! i)) RING_HEADER (call_image ?cl))" by (simp add: sync_buf_size_def MAX_REQUEST_def)
  have m: "holds (call_image ?cl) ?m" "header ?m = CLIENT_DONE" "4 \<le> length ?m" using holds_set_header [OF h l4] l4 by simp_all
  have m': "holds (request_image DELETE key []) ?m'" using holds_set_header [OF m(1,3)] by simp
  then have r: "mread ?m' RING_HEADER (sizeof_Request + length key + length ([] :: bytes)) = request_image DELETE key []" by (simp add: holds_def)
  have k: "length key < 2 ^ 24" using assms(6) by (simp add: call_fits_def MAX_REQUEST_def)
  note f = request_fields [OF r k]
  have pair: "request_pair ?m' = (key, [])" using f by (simp add: request_pair_def)
  let ?r = "mread ?m' RING_HEADER (sizeof_RequestReply + unat (get_val_size RING_HEADER ?m'))"
  have "get_status 0 ?r \<noteq> status_code OK" by (rule delete_status) (use r f(3) in simp_all)
  moreover obtain j s' where "j \<le> 4" "(server_step ?ops ^^ j) ?s1 s'" "group_crashed s' \<or>
      db_map (group_store s') = (db_map (group_store s0))(fst (request_pair ?m') \<mapsto> snd (request_pair ?m')) \<and> last (gk_replies (clerks s' ! i)) = ?r"
    using bcb.lone_writer [OF inv1, of i ?cl ?m' mem] fr assms(4-6) m by (auto simp del: call_image.simps)
  ultimately show ?thesis
    unfolding pw using pair by (intro exI [of _ j]) (auto simp del: call_image.simps)
qed

theorem group_delete_puts_empty_witness:
  "\<exists>s0 s m s'. group_fresh s0 \<and> db_map (group_store s0) = Map.empty \<and> (server_step (BitCask append_pwrite (\<lambda>_ _. None)) ^^ m) s s' \<and>
    (group_crashed s' \<or> db_map (group_store s') = [[107] \<mapsto> []])"
proof -
  obtain db where db: "db_ok db" "db_map db = Map.empty" "length (data_files db) = 1" using sample_db by blast
  then have ok: "bitcask_ok 1000 (group_store (sample_group db))" by (simp add: bitcask_ok_def sample_group_def)
  have f: "call_fits (Call_delete [107])" by (simp add: call_fits_def sizeof_Request_def MAX_REQUEST_def)
  have n: "(0 :: nat) < 1000" "0 < length (clerks (sample_group db))" by (simp_all add: sample_group_def)
  from group_delete_puts_empty [OF append_pwrite_ok sample_group_fresh ok n f, of "\<lambda>_ _. None"] obtain m s' where
    "(server_step (BitCask append_pwrite (\<lambda>_ _. None)) ^^ m)
      (set_clerk 0 ((clerks (sample_group db) ! 0)\<lparr>gk_mem := set_header CLIENT_DONE (mwrite (gk_mem (clerks (sample_group db) ! 0)) RING_HEADER (call_image (Call_delete [107])))\<rparr>)
        (sample_group db)) s'"
    "group_crashed s' \<or> db_map (group_store s') = (db_map (group_store (sample_group db)))([107] \<mapsto> [])"
    by blast
  moreover have "db_map (group_store (sample_group db)) = Map.empty" using db(2) by (simp add: sample_group_def)
  ultimately show ?thesis using sample_group_fresh [of db] by metis
qed

end
