(* ===== verification/Hybrid_Front.thy ===== *)
theory Hybrid_Front
  imports Pmem_Front Group_Commit
begin

text \<open>
  The hybrid front end, \<^verbatim>\<open>frontend/hybrid/hybrid.cc\<close>, in the configuration of the sources
  (\<^verbatim>\<open>COPY2DRAM\<close>, \<^verbatim>\<open>BG_SYNC\<close>). A client puts the bytes of a write into a ring in the clerk's
  buffer and its meta data into the clerk's send buffer. The clerk only notes the write: the key
  in its batch, and where the bytes lie in an index of the server that all clerks share. When
  enough has come together it hands the batch to the store, takes the keys out of the index,
  and starts a thread that appends the batch to a log and tells the client how far the ring is
  free again. A read looks into the index first, and then into the store.
\<close>

section \<open>The client\<close>

record hybrid_client =
  hc_host :: host
  hc_head :: u32

definition HybridClient_new :: "machine \<Rightarrow> MyOption \<Rightarrow> db_error + rdma_device \<times> hybrid_client" where
  "HybridClient_new mc opt =
     (case open_device mc opt of
        Inl e \<Rightarrow> Inl e
      | Inr dev \<Rightarrow> (case new_context mc dev of Inl e \<Rightarrow> Inl e | Inr h \<Rightarrow> Inr (dev, \<lparr>hc_host = h, hc_head = of_nat RING_HEADER\<rparr>)))"

text \<open>The second word of the buffer is the tail of the ring, which the clerk writes.\<close>

definition set_tail :: "u32 \<Rightarrow> bytes \<Rightarrow> bytes" where
  "set_tail w m = mwrite m 4 (le32 w)"

definition tail_word :: "bytes \<Rightarrow> u32" where
  "tail_word m = un_le32 (mread m 4 4)"

definition HybridClient_Connect :: "machine \<Rightarrow> rdma_device \<Rightarrow> bytes option \<Rightarrow> hybrid_client \<Rightarrow> db_error + hybrid_client" where
  "HybridClient_Connect mc dev received c =
     (case connect_context mc dev received (hc_host c) of
        Inl e \<Rightarrow> Inl e
      | Inr h \<Rightarrow> Inr (c\<lparr>hc_host := h\<lparr>write_mem := set_tail (of_nat RING_HEADER) (set_header CLIENT_DONE (write_mem h))\<rparr>\<rparr>))"

definition write_len :: "bytes \<Rightarrow> bytes \<Rightarrow> u16" where
  "write_len key val = of_nat (sizeof_Request + unat (of_nat (strlen key) :: u16) + unat (of_nat (strlen val) :: u16))"

text \<open>
  \<^verbatim>\<open>SendWrite\<close> in its parts: whether the ring has to be rewound, the empty request that asks the
  clerk for it, the condition of the loop after it, the rewinding, the condition of the loop
  that waits for the tail otherwise, and the write itself.
\<close>

definition HybridClient_rewinds :: "bytes \<Rightarrow> bytes \<Rightarrow> hybrid_client \<Rightarrow> bool" where
  "HybridClient_rewinds key val c \<longleftrightarrow> hc_head c + ucast (write_len key val) \<ge> of_nat MAX_ASYNC_SIZE"

definition HybridClient_SendNop :: "verbs \<Rightarrow> hybrid_client \<Rightarrow> hybrid_client option" where
  "HybridClient_SendNop v c =
     (let h = hc_host c
      in do {
           (h, _) \<leftarrow> post_write0 v None sizeof_Request RING_HEADER RING_HEADER False (h\<lparr>write_mem := set_op RING_HEADER NOP (write_mem h)\<rparr>);
           (h, _) \<leftarrow> post_write0 v None 4 0 0 True h;
           Some (c\<lparr>hc_host := h\<rparr>) })"

definition HybridClient_waits_for_rewind :: "hybrid_client \<Rightarrow> bool" where
  "HybridClient_waits_for_rewind c \<longleftrightarrow> hc_head c \<le> tail_word (write_mem (hc_host c))"

definition HybridClient_rewind :: "hybrid_client \<Rightarrow> hybrid_client" where
  "HybridClient_rewind c = c\<lparr>hc_head := of_nat RING_HEADER\<rparr>"

definition HybridClient_waits_for_tail :: "bytes \<Rightarrow> bytes \<Rightarrow> hybrid_client \<Rightarrow> bool" where
  "HybridClient_waits_for_tail key val c \<longleftrightarrow>
     hc_head c < tail_word (write_mem (hc_host c)) \<and>
     hc_head c + ucast (write_len key val) \<ge> tail_word (write_mem (hc_host c))"

definition HybridClient_write :: "verbs \<Rightarrow> bytes \<Rightarrow> bytes \<Rightarrow> Operation \<Rightarrow> hybrid_client \<Rightarrow> hybrid_client option" where
  "HybridClient_write v key val opr c =
     (let h = hc_host c;
          key_len = of_nat (strlen key) :: u16;
          val_len = of_nat (strlen val) :: u16;
          meta_len = of_nat (sizeof_Request + unat key_len) :: u16;
          total_len = write_len key val;
          m = write_mem h;
          m = set_op RING_HEADER opr m;
          m = set_key_size RING_HEADER (unat key_len) m;
          m = set_val_size RING_HEADER (ucast val_len) m
      in do {
           k \<leftarrow> load key 0 (unat key_len);
           m \<leftarrow> memcpy m (RING_HEADER + sizeof_Request) k;
           x \<leftarrow> load val 0 (unat val_len);
           m \<leftarrow> memcpy m (RING_HEADER + sizeof_Request + unat key_len) x;
           (h, _) \<leftarrow> post_write0 v None (unat meta_len) RING_HEADER RING_HEADER False (h\<lparr>write_mem := m\<rparr>);
           (h, _) \<leftarrow> post_write v None (unat total_len) RING_HEADER (unat (hc_head c)) False h;
           (h, _) \<leftarrow> post_write0 v None 4 0 0 True h;
           Some \<lparr>hc_host = h, hc_head = hc_head c + ucast total_len\<rparr> })"

definition HybridClient_SendKey :: "verbs \<Rightarrow> bytes \<Rightarrow> Operation \<Rightarrow> hybrid_client \<Rightarrow> hybrid_client option" where
  "HybridClient_SendKey v key opr c =
     (let h = hc_host c;
          key_len = of_nat (strlen key) :: u16;
          total_len = of_nat (sizeof_Request + unat key_len) :: u16;
          m = write_mem h;
          m = set_op RING_HEADER opr m;
          m = set_key_size RING_HEADER (strlen key) m;
          m = set_val_size RING_HEADER 0 m
      in do {
           k \<leftarrow> load key 0 (strlen key);
           m \<leftarrow> memcpy m (RING_HEADER + sizeof_Request) k;
           (h, _) \<leftarrow> post_write0 v None (unat total_len) RING_HEADER RING_HEADER False (h\<lparr>write_mem := m\<rparr>);
           (h, _) \<leftarrow> post_write0 v None 4 0 0 True h;
           Some (c\<lparr>hc_host := h\<rparr>) })"

definition HybridClient_SendBare :: "verbs \<Rightarrow> Operation \<Rightarrow> hybrid_client \<Rightarrow> hybrid_client option" where
  "HybridClient_SendBare v opr c =
     (let h = hc_host c;
          m = write_mem h;
          m = set_op RING_HEADER opr m;
          m = set_key_size RING_HEADER 0 m;
          m = set_val_size RING_HEADER 0 m
      in do {
           (h, _) \<leftarrow> post_write0 v None sizeof_Request RING_HEADER RING_HEADER False (h\<lparr>write_mem := m\<rparr>);
           (h, _) \<leftarrow> post_write0 v None 4 0 0 True h;
           Some (c\<lparr>hc_host := h\<rparr>) })"

definition HybridClient_SendGet :: "verbs \<Rightarrow> bytes \<Rightarrow> hybrid_client \<Rightarrow> hybrid_client option" where
  "HybridClient_SendGet v key c = HybridClient_SendKey v key GET c"

definition HybridClient_SendDelete :: "verbs \<Rightarrow> bytes \<Rightarrow> hybrid_client \<Rightarrow> hybrid_client option" where
  "HybridClient_SendDelete v key c = HybridClient_SendKey v key DELETE c"

definition HybridClient_SendSync :: "verbs \<Rightarrow> hybrid_client \<Rightarrow> hybrid_client option" where
  "HybridClient_SendSync v c = HybridClient_SendBare v SYNC c"

definition HybridClient_SendClose :: "verbs \<Rightarrow> hybrid_client \<Rightarrow> hybrid_client option" where
  "HybridClient_SendClose v c = HybridClient_SendBare v CLOSE c"

section \<open>The clerks\<close>

text \<open>
  A clerk: its send buffer, the ring and the address of the ring in memory, the tail, and the
  batch it collects, the local variables of \<^verbatim>\<open>Run\<close>. \<open>hk_replies\<close> records what it has posted.
\<close>

record hybrid_clerk =
  hk_send :: bytes
  hk_ring :: bytes
  hk_addr :: u64
  hk_tail :: u32
  hk_keys :: "bytes list"
  hk_idxs :: "Index list"
  hk_len :: u32
  hk_replies :: "bytes list"

text \<open>
  The server: the index is shared by the clerks; a job is a persisting thread that has been
  started, with its clerk, its copy of the batch, and the tail it will send to the client.
\<close>

record 'd hybrid =
  hy_clerks :: "hybrid_clerk list"
  hy_index :: "(bytes, Index) cuckoohash_map"
  hy_store :: 'd
  hy_jobs :: "(nat \<times> bytes \<times> u32) list"
  hy_log :: bytes

datatype 'd hybrid_round =
    Hy_reply "'d hybrid"
  | Hy_closed "'d hybrid"
  | Hy_fail db_error
  | Hy_hang

definition HybridClerk :: "host \<Rightarrow> hybrid_clerk" where
  "HybridClerk h =
     \<lparr>hk_send = send_mem h, hk_ring = mwrite (drop (get_write_off h) (write_mem h)) 0 (le32 (of_nat RING_HEADER)),
      hk_addr = write_buf h + dmaoff h, hk_tail = of_nat RING_HEADER, hk_keys = [], hk_idxs = [], hk_len = 0, hk_replies = []\<rparr>"

text \<open>The bytes at an address, which the rings of all clerks can hold.\<close>

fun ring_read :: "hybrid_clerk list \<Rightarrow> u64 \<Rightarrow> nat \<Rightarrow> bytes option" where
  "ring_read [] a n = None"
| "ring_read (k # ks) a n =
     (if unat (a - hk_addr k) + n \<le> length (hk_ring k) then Some (mread (hk_ring k) (unat (a - hk_addr k)) n) else ring_read ks a n)"

text \<open>The tail after a batch.\<close>

definition next_tail :: "hybrid_clerk \<Rightarrow> u32" where
  "next_tail k =
     (let tl = hk_tail k + hk_len k
      in if hk_len k < of_nat BATCH_SIZE \<or> tl = of_nat MAX_ASYNC_SIZE then of_nat RING_HEADER else tl)"

text \<open>
  The batch goes to the store, from a copy of its bytes. \<open>Inl None\<close> is a store that does not return.
\<close>

definition store_batch :: "'d DBType \<Rightarrow> hybrid_clerk \<Rightarrow> 'd \<Rightarrow> db_error option + bytes \<times> 'd" where
  "store_batch ops k d =
     (case load (hk_ring k) (unat (hk_tail k)) (unat (hk_len k)) of
        None \<Rightarrow> Inl (Some Undefined)
      | Some tmp_buf \<Rightarrow>
          (case db_put_batch ops d (hk_keys k) (hk_idxs k) tmp_buf (unat (hk_len k)) of
             None \<Rightarrow> Inl None
           | Some (Inl e) \<Rightarrow> Inl (Some e)
           | Some (Inr (d, _)) \<Rightarrow> Inr (tmp_buf, d)))"

definition hy_error :: "db_error option \<Rightarrow> 'd hybrid_round" where
  "hy_error e = (case e of None \<Rightarrow> Hy_hang | Some e \<Rightarrow> Hy_fail e)"

definition new_batch :: "hybrid_clerk \<Rightarrow> hybrid_clerk" where
  "new_batch k = k\<lparr>hk_tail := next_tail k, hk_keys := [], hk_idxs := [], hk_len := 0\<rparr>"

text \<open>A batch is full, or the ring is rewound: its keys leave the index, and a thread is started to persist it.\<close>

definition hybrid_flush :: "'d DBType \<Rightarrow> nat \<Rightarrow> hybrid_clerk \<Rightarrow> 'd hybrid \<Rightarrow> 'd hybrid_round" where
  "hybrid_flush ops i k s =
     (case store_batch ops k (hy_store s) of
        Inl e \<Rightarrow> hy_error e
      | Inr (tmp_buf, d) \<Rightarrow>
          Hy_reply (s\<lparr>hy_clerks := (hy_clerks s)[i := new_batch k], hy_index := erase_all erase (hy_index s) (hk_keys k),
                      hy_store := d, hy_jobs := hy_jobs s @ [(i, tmp_buf, next_tail k)]\<rparr>))"

text \<open>A write is noted. \<open>Inl None\<close> is an insertion into the index that does not return.\<close>

definition hybrid_note :: "nat \<Rightarrow> bytes \<Rightarrow> hybrid_clerk \<Rightarrow> 'd hybrid \<Rightarrow> db_error option + hybrid_clerk \<times> 'd hybrid" where
  "hybrid_note i m k s =
     (let ks = get_key_size RING_HEADER m;
          vs = get_val_size RING_HEADER m;
          mem_idx = mem_Index (hk_addr k + ucast (hk_tail k) + ucast (hk_len k) + of_nat sizeof_Request) (of_nat ks) vs
      in case load m (RING_HEADER + sizeof_Request) ks of
           None \<Rightarrow> Inl (Some Undefined)
         | Some key \<Rightarrow>
             (case insert_or_assign (hy_index s) key mem_idx of
                Inl e \<Rightarrow> Inl (if e = No_return then None else Some (Table_error e))
              | Inr (t, _) \<Rightarrow>
                  Inr (k\<lparr>hk_keys := hk_keys k @ [key],
                         hk_idxs := hk_idxs k @ [file_Index 0 (hk_len k + of_nat sizeof_Request) (of_nat ks) vs],
                         hk_len := hk_len k + Length RING_HEADER m\<rparr>,
                       s\<lparr>hy_index := t\<rparr>)))"

text \<open>The reply, at the end of a round.\<close>

definition hybrid_reply :: "nat \<Rightarrow> bytes \<Rightarrow> 'd hybrid \<Rightarrow> 'd hybrid_round" where
  "hybrid_reply i m s =
     Hy_reply (s\<lparr>hy_clerks := (hy_clerks s)[i := (hy_clerks s ! i)\<lparr>hk_send := m,
       hk_replies := hk_replies (hy_clerks s ! i) @ [mread m RING_HEADER (sizeof_RequestReply + unat (get_val_size RING_HEADER m))]\<rparr>]\<rparr>)"

definition then_reply :: "nat \<Rightarrow> bytes \<Rightarrow> 'd hybrid_round \<Rightarrow> 'd hybrid_round" where
  "then_reply i m r = (case r of Hy_reply s \<Rightarrow> hybrid_reply i m s | _ \<Rightarrow> r)"

definition hybrid_put :: "'d DBType \<Rightarrow> nat \<Rightarrow> bytes \<Rightarrow> 'd hybrid \<Rightarrow> 'd hybrid_round" where
  "hybrid_put ops i m s =
     (let k = hy_clerks s ! i;
          nop = (get_op RING_HEADER m = Some NOP);
          m' = set_val_size RING_HEADER 0 (set_status RING_HEADER OK m)
      in case (if nop then Inr (k, s) else hybrid_note i m k s) of
           Inl e \<Rightarrow> hy_error e
         | Inr (k, s) \<Rightarrow>
             then_reply i m'
               (if hk_len k \<ge> of_nat BATCH_SIZE \<or> hk_tail k + hk_len k = of_nat MAX_ASYNC_SIZE \<or> nop
                then hybrid_flush ops i k s
                else Hy_reply (s\<lparr>hy_clerks := (hy_clerks s)[i := k]\<rparr>)))"

definition hybrid_get :: "'d DBType \<Rightarrow> nat \<Rightarrow> bytes \<Rightarrow> 'd hybrid \<Rightarrow> 'd hybrid_round" where
  "hybrid_get ops i m s =
     (let ks = get_key_size RING_HEADER m
      in case load m (RING_HEADER + sizeof_Request) ks of
           None \<Rightarrow> Hy_fail Undefined
         | Some key \<Rightarrow>
             (case find_fn (hy_index s) key of
                (t, Some mem_idx) \<Rightarrow>
                  (let m = set_val_size RING_HEADER (value_size mem_idx) (set_status RING_HEADER OK m)
                   in case ring_read (hy_clerks s) (addr mem_idx + of_nat ks) (unat (value_size mem_idx)) of
                        None \<Rightarrow> Hy_fail Undefined
                      | Some val \<Rightarrow>
                          (case memcpy m (RING_HEADER + sizeof_RequestReply) val of
                             None \<Rightarrow> Hy_fail Undefined
                           | Some m \<Rightarrow> hybrid_reply i m (s\<lparr>hy_index := t\<rparr>)))
              | (t, None) \<Rightarrow>
                  (case db_get ops (hy_store s) key of
                     Inl e \<Rightarrow> Hy_fail e
                   | Inr (d, Some val) \<Rightarrow>
                       (let n = of_nat (length val) :: u32;
                            m = set_val_size RING_HEADER n (set_status RING_HEADER OK m)
                        in case memcpy m (RING_HEADER + sizeof_RequestReply) (take (unat n) val) of
                             None \<Rightarrow> Hy_fail Undefined
                           | Some m \<Rightarrow> hybrid_reply i m (s\<lparr>hy_index := t, hy_store := d\<rparr>))
                   | Inr (d, None) \<Rightarrow>
                       hybrid_reply i (set_val_size RING_HEADER 0 (set_status RING_HEADER NOTFOUND m)) (s\<lparr>hy_index := t, hy_store := d\<rparr>))))"

definition hybrid_delete :: "'d DBType \<Rightarrow> nat \<Rightarrow> bytes \<Rightarrow> 'd hybrid \<Rightarrow> 'd hybrid_round" where
  "hybrid_delete ops i m s =
     (case load m (RING_HEADER + sizeof_Request) (get_key_size RING_HEADER m) of
        None \<Rightarrow> Hy_fail Undefined
      | Some key \<Rightarrow>
          (case db_delete ops (hy_store s) key of
             Inl e \<Rightarrow> Hy_fail e
           | Inr (d, good) \<Rightarrow>
               hybrid_reply i (set_val_size RING_HEADER 0 (set_status RING_HEADER (if good then OK else NOTFOUND) m)) (s\<lparr>hy_store := d\<rparr>)))"

text \<open>
  \<^verbatim>\<open>persist_func\<close>, once it has got the mutex of its clerk: the batch goes to the end of the log, and
  the tail, by way of the first word of the ring, into the second word of the client's buffer.
\<close>

definition persist_func :: "write_fn \<Rightarrow> nat \<Rightarrow> bytes \<Rightarrow> u32 \<Rightarrow> 'd hybrid \<Rightarrow> 'd hybrid" where
  "persist_func wr i buffer client_buf_tail s =
     s\<lparr>hy_log := hy_log s @ take (nat (wr (length (hy_log s)) (length buffer))) buffer,
       hy_clerks := (hy_clerks s)[i := (hy_clerks s ! i)\<lparr>hk_ring := mwrite (hk_ring (hy_clerks s ! i)) 0 (le32 client_buf_tail)\<rparr>]\<rparr>"

text \<open>The end of a connection; the batch is stored and persisted here and now, and its keys stay in the index.\<close>

definition hybrid_close :: "'d DBType \<Rightarrow> write_fn \<Rightarrow> nat \<Rightarrow> 'd hybrid \<Rightarrow> 'd hybrid_round" where
  "hybrid_close ops wr i s =
     (let k = hy_clerks s ! i
      in if hk_len k > 0
         then (case store_batch ops k (hy_store s) of
                 Inl e \<Rightarrow> hy_error e
               | Inr (tmp_buf, d) \<Rightarrow>
                   Hy_closed (persist_func wr i tmp_buf (next_tail k)
                     (s\<lparr>hy_clerks := (hy_clerks s)[i := k\<lparr>hk_tail := next_tail k\<rparr>], hy_store := d\<rparr>)))
         else Hy_closed s)"

text \<open>One round of \<^verbatim>\<open>HybridClerk::Run\<close> after its spin loop.\<close>

definition HybridClerk_round :: "'d DBType \<Rightarrow> write_fn \<Rightarrow> nat \<Rightarrow> 'd hybrid \<Rightarrow> 'd hybrid_round" where
  "HybridClerk_round ops wr i s =
     (let m = set_header CLERK_DONE (hk_send (hy_clerks s ! i))
      in case get_op RING_HEADER m of
           Some NOP \<Rightarrow> hybrid_put ops i m s
         | Some UPDATE \<Rightarrow> hybrid_put ops i m s
         | Some PUT \<Rightarrow> hybrid_put ops i m s
         | Some GET \<Rightarrow> hybrid_get ops i m s
         | Some SYNC \<Rightarrow> hybrid_reply i m (s\<lparr>hy_store := db_set_sync ops (hy_store s)\<rparr>)
         | Some DELETE \<Rightarrow> hybrid_delete ops i m s
         | Some CLOSE \<Rightarrow> hybrid_close ops wr i s
         | None \<Rightarrow> Hy_fail Process_exit)"

text \<open>A persisting thread runs; the threads of a clerk may get its mutex in any order.\<close>

definition run_job :: "write_fn \<Rightarrow> nat \<Rightarrow> 'd hybrid \<Rightarrow> 'd hybrid" where
  "run_job wr n s =
     (case hy_jobs s ! n of
        (i, buffer, client_buf_tail) \<Rightarrow>
          (persist_func wr i buffer client_buf_tail s)\<lparr>hy_jobs := take n (hy_jobs s) @ drop (Suc n) (hy_jobs s)\<rparr>)"

section \<open>The buffers of the server\<close>

text \<open>
  \<^verbatim>\<open>Listen\<close> with \<^verbatim>\<open>DMABUF\<close>: a new connection gets the first free slot of the device memory, counted
  from the top bit of the bitmap, and a buffer on the heap (\<open>None\<close>) when the slots are used up.
\<close>

definition MAX_DMABUF_SIZE :: nat where
  "MAX_DMABUF_SIZE = 4 * 1024 * 1024"

fun clz_from :: "nat \<Rightarrow> u64 \<Rightarrow> nat" where
  "clz_from 0 w = 0"
| "clz_from (Suc n) w = (if bit w n then 0 else Suc (clz_from n w))"

definition take_slot :: "u64 \<Rightarrow> u64 \<times> nat option" where
  "take_slot bitmap =
     (let slot = clz_from 64 (NOT bitmap)
      in if slot < MAX_DMABUF_SIZE div MAX_ASYNC_SIZE then (bitmap + push_bit (63 - slot) 1, Some slot) else (bitmap, None))"

definition clear_slot :: "nat \<Rightarrow> u64 \<Rightarrow> u64" where
  "clear_slot slot bitmap = bitmap - push_bit (63 - slot) 1"

definition HybridServer_accept :: "machine \<Rightarrow> rdma_device \<Rightarrow> u64 \<Rightarrow> bytes option \<Rightarrow> db_error + u64 \<times> hybrid_clerk" where
  "HybridServer_accept mc dev bitmap received =
     (case open_context dev (mc_send_mem mc) of
        Inl _ \<Rightarrow> Inl Undefined
      | Inr h \<Rightarrow>
          (let (bitmap, slot) = take_slot bitmap;
               h = (case slot of
                      Some slot \<Rightarrow> fst (register_write_dmabuf (mc_reg mc) (mc_ptr mc) (mc_mem mc) (of_nat (MAX_ASYNC_SIZE * slot)) h)
                    | None \<Rightarrow> fst (register_write_buf (mc_reg mc) (mc_ptr mc) (mc_mem mc) h))
           in case connect_context mc dev received h of
                Inl e \<Rightarrow> Inl e
              | Inr h \<Rightarrow> Inr (bitmap, HybridClerk h)))"

section \<open>The pending batch\<close>

text \<open>The meta data of a write, without its value.\<close>

lemma take_length_append: "take (length a) (a @ b) = a"
  by simp

lemma meta_fields:
  assumes m: "mread m b (sizeof_Request + length key) = take (sizeof_Request + length key) (request_image opr key val)"
    and k: "length key < 2 ^ 24" and v: "length val < 2 ^ 32"
  shows "get_op b m = Some opr" "get_key_size b m = length key" "get_val_size b m = of_nat (length val)"
    "mread m (b + sizeof_Request) (length key) = key"
proof -
  let ?x = "[op_code opr] @ le_bytes 3 (length key) @ le32 (of_nat (length val)) @ key"
  have "take (sizeof_Request + length key) (request_image opr key val) = take (length ?x) (?x @ val)"
    by (simp add: request_image_def sizeof_Request_def)
  then have img: "take (sizeof_Request + length key) (request_image opr key val) = ?x" by (rule trans [OF _ take_length_append])
  have sub: "mread m (b + c) d = mread ?x c d" if "c + d \<le> sizeof_Request + length key" for c d
    using mread_mread [OF that, of m b] m unfolding img by simp
  show "get_op b m = Some opr"
    using sub [of 0 1] by (simp add: get_op_def request_image_def mread_def sizeof_Request_def)
  have "mread m (b + 1) 3 = le_bytes 3 (length key)"
    using sub [of 1 3] by (simp add: request_image_def mread_def sizeof_Request_def)
  then show "get_key_size b m = length key" using k by (simp add: get_key_size_def le_val_le_bytes)
  have "mread m (b + 4) 4 = le32 (of_nat (length val))"
    using sub [of 4 4] by (simp add: request_image_def mread_def sizeof_Request_def)
  then show "get_val_size b m = of_nat (length val)" by (simp add: get_val_size_def)
  show "mread m (b + sizeof_Request) (length key) = key"
    using sub [of sizeof_Request "length key"] by (simp add: request_image_def mread_def sizeof_Request_def)
qed

lemma framed_image: "framed ((key, val), request_image opr key val)"
proof -
  have "mread (request_image opr key val) (8 + length key) (length val) = val"
    using mread_append_right [of "[op_code opr] @ le_bytes 3 (length key) @ le32 (of_nat (length val)) @ key" "8 + length key" val "length val"]
    by (simp add: request_image_def)
  then show ?thesis by (simp add: framed_def sizeof_Request_def)
qed

text \<open>The writes a clerk has noted, each with its bytes in the ring.\<close>

definition pending :: "hybrid_clerk \<Rightarrow> ((bytes \<times> bytes) \<times> bytes) list \<Rightarrow> bool" where
  "pending k fs \<longleftrightarrow> (\<forall>f\<in>set fs. framed f) \<and> unat (hk_len k) = length (concat (map snd fs)) \<and>
     mread (hk_ring k) (unat (hk_tail k)) (length (concat (map snd fs))) = concat (map snd fs) \<and>
     hk_keys k = map (\<lambda>f. fst (fst f)) fs \<and> hk_idxs k = idx_list 0 (map fst fs) \<and> RING_HEADER \<le> unat (hk_tail k) \<and>
     unat (hk_tail k) + unat (hk_len k) < MAX_ASYNC_SIZE \<and> length (hk_ring k) = MAX_ASYNC_SIZE"

fun mem_list :: "u64 \<Rightarrow> nat \<Rightarrow> (bytes \<times> bytes) list \<Rightarrow> (bytes \<times> Index) list" where
  "mem_list a off [] = []"
| "mem_list a off ((k, v) # ps) =
     (k, mem_Index (a + of_nat (off + 8)) (of_nat (length k)) (of_nat (length v))) # mem_list a (off + (8 + (length k + length v))) ps"

lemma mem_list_snoc:
  "mem_list a off (ps @ [(k, v)]) = mem_list a off ps @
     [(k, mem_Index (a + of_nat (off + sum_list (map (\<lambda>p. 8 + (length (fst p) + length (snd p))) ps) + 8)) (of_nat (length k)) (of_nat (length v)))]"
  by (induction a off ps rule: mem_list.induct) (simp_all add: add.assoc)

lemma framed_length:
  "\<forall>f\<in>set fs. framed f \<Longrightarrow> length (concat (map snd fs)) = sum_list (map (\<lambda>p. 8 + (length (fst p) + length (snd p))) (map fst fs))"
  by (induction fs) (auto simp: framed_def)

lemma mem_list_lookup:
  assumes "\<forall>f\<in>set fs. framed f" "mread m off (length (concat (map snd fs))) = concat (map snd fs)"
    "off + length (concat (map snd fs)) \<le> length m" "length m < 2 ^ 32"
  shows "case map_of (rev (mem_list a off (map fst fs))) key of
      None \<Rightarrow> map_of (rev (map fst fs)) key = None
    | Some idx \<Rightarrow> \<exists>val. map_of (rev (map fst fs)) key = Some val \<and> value_size idx = of_nat (length val) \<and> length val < 2 ^ 32 \<and>
        unat (addr idx + of_nat (length key) - a) + length val \<le> length m \<and>
        mread m (unat (addr idx + of_nat (length key) - a)) (length val) = val"
  using assms
proof (induction fs arbitrary: off)
  case (Cons f fs)
  obtain k v d where f: "f = ((k, v), d)" by (metis prod.exhaust)
  then have d: "length d = 8 + (length k + length v)" "mread d (8 + length k) (length v) = v"
    using Cons.prems(1) by (simp_all add: framed_def)
  let ?r = "concat (map snd fs)"
  have "mread m off (length d + length ?r) = d @ ?r" using Cons.prems(2) f by simp
  then have sp: "mread m off (length d) = d" "mread m (off + length d) (length ?r) = ?r"
    unfolding mread_split using Cons.prems(3) f by (simp_all add: append_eq_append_conv)
  note IH = Cons.IH [OF _ sp(2)]
  have "mread m (off + (8 + length k)) (length v) = v"
    using mread_mread [of "8 + length k" "length v" "length d" m off] sp(1) d by simp
  moreover have "unat (of_nat (off + 8 + length k) :: u64) = off + 8 + length k"
    using Cons.prems(3,4) f d by (simp add: unat_of_nat take_bit_nat_eq_self del: of_nat_add)
  moreover have "off + 8 + length k + length v \<le> length m" "length v < 2 ^ 32" using Cons.prems(3,4) f d by simp_all
  ultimately show ?case
    using IH Cons.prems f d
    by (auto simp: map_add_def mem_Index_def add.assoc split: option.splits)
qed simp

text \<open>The client's bytes arrive behind the pending ones, and the clerk notes the write.\<close>

lemma pendingD:
  assumes "pending k fs"
  shows "\<forall>f\<in>set fs. framed f" "unat (hk_len k) = length (concat (map snd fs))"
    "mread (hk_ring k) (unat (hk_tail k)) (length (concat (map snd fs))) = concat (map snd fs)"
    "hk_keys k = map (\<lambda>f. fst (fst f)) fs" "hk_idxs k = idx_list 0 (map fst fs)" "RING_HEADER \<le> unat (hk_tail k)"
    "unat (hk_tail k) + unat (hk_len k) < MAX_ASYNC_SIZE" "length (hk_ring k) = MAX_ASYNC_SIZE"
  using assms unfolding pending_def by auto

lemma pending_snoc:
  assumes p: "pending k fs" and n: "unat (hk_tail k) + unat (hk_len k) + (8 + (length key + length val)) < MAX_ASYNC_SIZE"
    and k': "hk_ring k' = mwrite (hk_ring k) (unat (hk_tail k) + unat (hk_len k)) (request_image opr key val)" "hk_tail k' = hk_tail k"
      "hk_keys k' = hk_keys k @ [key]" "hk_len k' = hk_len k + of_nat (8 + (length key + length val))"
      "hk_idxs k' = hk_idxs k @ [file_Index 0 (hk_len k + of_nat sizeof_Request) (of_nat (length key)) (of_nat (length val))]"
  shows "pending k' (fs @ [((key, val), request_image opr key val)])"
proof -
  note d = pendingD [OF p]
  let ?n = "length (concat (map snd fs))" and ?img = "request_image opr key val"
  have li: "length ?img = 8 + (length key + length val)" by (simp add: sizeof_Request_def)
  have ring: "length (hk_ring k') = MAX_ASYNC_SIZE" using k'(1) d(8) n li by simp
  have "unat (of_nat (8 + (length key + length val)) :: u32) = 8 + (length key + length val)"
    by (rule unat_of_nat_len) (use n in \<open>simp add: MAX_ASYNC_SIZE_def\<close>)
  then have len: "unat (hk_len k') = ?n + (8 + (length key + length val))"
    using k'(4) unat_add_u32 [of "hk_len k" "of_nat (8 + (length key + length val))"] n d(2) by (simp add: MAX_ASYNC_SIZE_def)
  have "mread (hk_ring k') (unat (hk_tail k)) (?n + length ?img) =
      mread (hk_ring k') (unat (hk_tail k)) ?n @ mread (hk_ring k') (unat (hk_tail k) + ?n) (length ?img)"
    by (rule mread_split)
  moreover have "mread (hk_ring k') (unat (hk_tail k)) ?n = concat (map snd fs)"
    unfolding k'(1) using d(2,3,8) n by (subst mread_mwrite_before) simp_all
  moreover have "mread (hk_ring k') (unat (hk_tail k) + ?n) (length ?img) = ?img"
    unfolding k'(1) using d(2,8) n li by (simp add: mread_mwrite_same)
  ultimately have bytes: "mread (hk_ring k') (unat (hk_tail k')) (?n + length ?img) = concat (map snd fs) @ ?img" using k'(2) by simp
  have "hk_len k + of_nat sizeof_Request = of_nat (?n + 8)" using d(2) by (simp add: sizeof_Request_def flip: d(2))
  then have "hk_idxs k' = idx_list 0 (map fst fs @ [(key, val)])"
    using k'(5) d(5) by (simp add: idx_list_snoc framed_length [OF d(1)] comp_def)
  then show ?thesis
    using d k' ring len bytes li n framed_image [of key val opr] by (simp add: pending_def)
qed

lemma pending_empty:
  "length (hk_ring k) = MAX_ASYNC_SIZE \<Longrightarrow> hk_keys k = [] \<Longrightarrow> hk_idxs k = [] \<Longrightarrow> hk_len k = 0 \<Longrightarrow>
    RING_HEADER \<le> unat (hk_tail k) \<Longrightarrow> unat (hk_tail k) < MAX_ASYNC_SIZE \<Longrightarrow> pending k []"
  by (simp add: pending_def)

lemma next_tail_bounds:
  assumes "pending k fs"
  shows "RING_HEADER \<le> unat (next_tail k) \<and> unat (next_tail k) < MAX_ASYNC_SIZE"
proof -
  note d = pendingD [OF assms]
  have "unat (hk_tail k + hk_len k) = unat (hk_tail k) + unat (hk_len k)"
    using unat_add_u32 [of "hk_tail k" "hk_len k"] d(7) by (simp add: MAX_ASYNC_SIZE_def)
  with d(6,7) show ?thesis by (simp add: next_tail_def Let_def RING_HEADER_def MAX_ASYNC_SIZE_def)
qed

context batch_store
begin

text \<open>A batch that is stored adds its pairs to the store.\<close>

lemma store_batch_ok:
  assumes "pending k fs" "unat (hk_len k) < BATCH_SIZE + MAX_REQUEST" "ok (Suc n) d"
  shows "(\<exists>e. store_batch ops k d = Inl (Some e)) \<or>
    (\<exists>d'. store_batch ops k d = Inr (concat (map snd fs), d') \<and> ok n d' \<and> contents d' = contents d ++ map_of (rev (map fst fs)))"
proof -
  note p = pendingD [OF assms(1)]
  let ?b = "concat (map snd fs)"
  have ld: "load (hk_ring k) (unat (hk_tail k)) (unat (hk_len k)) = Some ?b" using p(2,3,7,8) by (simp add: load_def)
  have l: "length ([] @ ?b) < 2 ^ 16" using assms(2) p(2) by (simp add: BATCH_SIZE_def MAX_REQUEST_def)
  note fi = framed_idx [OF p(1) l]
  have bo: "batch_ok (length ?b) (hk_keys k) (hk_idxs k)" using fi p(4,5) by (simp add: batch_ok_def)
  have "fits (length ?b)" using fits_mono [OF fits_batch] assms(2) p(2) by simp
  from batch_ok [OF assms(3) this _ bo, of ?b]
  consider e where "db_put_batch ops d (hk_keys k) (hk_idxs k) ?b (length ?b) = Some (Inl e)" |
    d' where "db_put_batch ops d (hk_keys k) (hk_idxs k) ?b (length ?b) = Some (Inr (d', True))" "ok n d'"
      "contents d' = contents d ++ map_of (rev (zip (hk_keys k) (map (batch_value ?b) (hk_idxs k))))"
    by auto
  then show ?thesis
  proof cases
    case 1
    then show ?thesis using ld p(2) by (simp add: store_batch_def)
  next
    case (2 d')
    have "zip (hk_keys k) (map (batch_value ?b) (hk_idxs k)) = map fst fs"
      using fi p(4,5) by (simp add: zip_map_map zip_same_conv_map)
    with 2 ld p(2) show ?thesis by (simp add: store_batch_def)
  qed
qed

end

end
