(* ===== verification/Hybrid_Map.thy ===== *)
theory Hybrid_Map
  imports Hybrid_Front
begin

text \<open>
  The hybrid front end seen from one client: its reads see its writes, whether they wait in the
  ring or have reached the store.
\<close>

section \<open>One client\<close>

text \<open>
  What a client's request looks like when it has arrived at its clerk: a write brings its meta data
  to the send buffer and its bytes to the ring, at the client's head; the other requests bring
  their bytes to the send buffer. Of the empty request only the operation is set, the rest of
  its fields is what the client's buffer happened to hold.
\<close>

definition ask_write :: "Operation \<Rightarrow> bytes \<Rightarrow> bytes \<Rightarrow> u32 \<Rightarrow> hybrid_clerk \<Rightarrow> hybrid_clerk" where
  "ask_write opr key val head k =
     k\<lparr>hk_ring := mwrite (hk_ring k) (unat head) (request_image opr key val),
       hk_send := set_header CLIENT_DONE (mwrite (hk_send k) RING_HEADER (take (sizeof_Request + length key) (request_image opr key val)))\<rparr>"

definition ask_bytes :: "bytes \<Rightarrow> hybrid_clerk \<Rightarrow> hybrid_clerk" where
  "ask_bytes d k = k\<lparr>hk_send := set_header CLIENT_DONE (mwrite (hk_send k) RING_HEADER d)\<rparr>"

definition round_result :: "'d hybrid_round \<Rightarrow> db_error option + 'd hybrid" where
  "round_result r = (case r of Hy_reply s \<Rightarrow> Inr s | Hy_closed s \<Rightarrow> Inr s | Hy_fail e \<Rightarrow> Inl (Some e) | Hy_hang \<Rightarrow> Inl None)"

definition asked :: "'d DBType \<Rightarrow> write_fn \<Rightarrow> nat \<Rightarrow> (hybrid_clerk \<Rightarrow> hybrid_clerk) \<Rightarrow> 'd hybrid \<Rightarrow> db_error option + 'd hybrid" where
  "asked ops wr i f s = round_result (HybridClerk_round ops wr i (s\<lparr>hy_clerks := (hy_clerks s)[i := f (hy_clerks s ! i)]\<rparr>))"

text \<open>
  A call of a client with its head, once the loops that wait for the tail have let it through:
  \<^verbatim>\<open>SendWrite\<close> with the empty request before a rewind, and the other functions.
\<close>

definition hybrid_write :: "'d DBType \<Rightarrow> write_fn \<Rightarrow> bytes \<Rightarrow> nat \<Rightarrow> Operation \<Rightarrow> bytes \<Rightarrow> bytes \<Rightarrow> u32 \<times> 'd hybrid
    \<Rightarrow> db_error option + u32 \<times> 'd hybrid" where
  "hybrid_write ops wr stale i opr key val = (\<lambda>(head, s).
     let n = ucast (write_len key val) :: u32
     in case (if head + n \<ge> of_nat MAX_ASYNC_SIZE
              then map_sum id (Pair (of_nat RING_HEADER)) (asked ops wr i (ask_bytes (op_code NOP # stale)) s)
              else Inr (head, s)) of
          Inl e \<Rightarrow> Inl e
        | Inr (head, s) \<Rightarrow> map_sum id (Pair (head + n)) (asked ops wr i (ask_write opr key val head) s))"

fun hybrid_call :: "'d DBType \<Rightarrow> write_fn \<Rightarrow> bytes \<Rightarrow> nat \<Rightarrow> call \<Rightarrow> u32 \<times> 'd hybrid \<Rightarrow> db_error option + u32 \<times> 'd hybrid" where
  "hybrid_call ops wr stale i (Call_put key val) c = hybrid_write ops wr stale i PUT key val c"
| "hybrid_call ops wr stale i (Call_update key val) c = hybrid_write ops wr stale i UPDATE key val c"
| "hybrid_call ops wr stale i cl (head, s) = map_sum id (Pair head) (asked ops wr i (ask_bytes (call_image cl)) s)"

text \<open>
  The calls of a client one after the other, with the reply to each of them, while the persisting
  threads run between them.
\<close>

datatype hybrid_event =
    Ev_call call
  | Ev_job nat

fun hybrid_run :: "'d DBType \<Rightarrow> write_fn \<Rightarrow> bytes \<Rightarrow> nat \<Rightarrow> hybrid_event list \<Rightarrow> u32 \<times> 'd hybrid \<Rightarrow> db_error option + (u32 \<times> 'd hybrid) \<times> bytes list" where
  "hybrid_run ops wr stale i [] c = Inr (c, [])"
| "hybrid_run ops wr stale i (Ev_job n # evs) (head, s) =
     hybrid_run ops wr stale i evs (head, if n < length (hy_jobs s) then run_job wr n s else s)"
| "hybrid_run ops wr stale i (Ev_call cl # evs) c =
     (case hybrid_call ops wr stale i cl c of
        Inl e \<Rightarrow> Inl e
      | Inr (head, s) \<Rightarrow> map_sum id (apsnd (Cons (last (hk_replies (hy_clerks s ! i))))) (hybrid_run ops wr stale i evs (head, s)))"

fun calls_of :: "hybrid_event list \<Rightarrow> call list" where
  "calls_of [] = []"
| "calls_of (Ev_job n # evs) = calls_of evs"
| "calls_of (Ev_call cl # evs) = cl # calls_of evs"

text \<open>The bytes a call leaves for the log, and whether it is a delete.\<close>

fun write_image :: "call \<Rightarrow> bytes" where
  "write_image (Call_put key val) = request_image PUT key val"
| "write_image (Call_update key val) = request_image UPDATE key val"
| "write_image cl = []"

fun is_delete :: "call \<Rightarrow> bool" where
  "is_delete (Call_delete key) \<longleftrightarrow> True"
| "is_delete cl \<longleftrightarrow> False"

text \<open>The requests that fit the buffer of the client, which has no extra room for the header words.\<close>

definition hybrid_fits :: "call \<Rightarrow> bool" where
  "hybrid_fits cl \<longleftrightarrow> call_strings cl \<and> RING_HEADER + sizeof_Request + call_size cl \<le> MAX_REQUEST"

lemma hybrid_fits_call_fits: "hybrid_fits cl \<Longrightarrow> call_fits cl"
  by (simp add: hybrid_fits_def call_fits_def)

text \<open>A server with one clerk, between two calls of its client.\<close>

definition index_ok :: "hybrid_clerk \<Rightarrow> ((bytes \<times> bytes) \<times> bytes) list \<Rightarrow> (bytes, Index) cuckoohash_map \<Rightarrow> bool" where
  "index_ok k fs t \<longleftrightarrow> cuckoo_invar t \<and> cuckoo_lookup t = map_of (rev (mem_list (hk_addr k) (unat (hk_tail k)) (map fst fs)))"

lemma fst_mem_list: "map fst (mem_list a off ps) = map fst ps"
  by (induction a off ps rule: mem_list.induct) simp_all

lemma index_ok_erased:
  assumes "index_ok k fs t" "pending k fs"
  shows "index_ok k' [] (erase_all erase t (hk_keys k))"
proof -
  have inv: "cuckoo_invar t" using assms(1) by (simp add: index_ok_def)
  have "cuckoo_lookup t key = None" if "key \<notin> set (hk_keys k)" for key
  proof -
    have "set (hk_keys k) = fst ` set (mem_list (hk_addr k) (unat (hk_tail k)) (map fst fs))"
      using pendingD(4) [OF assms(2)] arg_cong [OF fst_mem_list, of set "hk_addr k" "unat (hk_tail k)" "map fst fs"] by (simp add: image_image)
    with that assms(1) show ?thesis by (simp add: index_ok_def map_of_eq_None_iff)
  qed
  then show ?thesis using cm.erase_all_spec [OF inv, of "hk_keys k"] by (auto simp: index_ok_def fun_eq_iff)
qed

lemma index_ok_read:
  assumes "index_ok k fs t" "pending k fs"
  shows "case cuckoo_lookup t key of
      None \<Rightarrow> map_of (rev (map fst fs)) key = None
    | Some idx \<Rightarrow> \<exists>val. map_of (rev (map fst fs)) key = Some val \<and> value_size idx = of_nat (length val) \<and> length val < 2 ^ 32 \<and>
        ring_read [k] (addr idx + of_nat (length key)) (length val) = Some val"
proof -
  note p = pendingD [OF assms(2)]
  have "unat (hk_tail k) + length (concat (map snd fs)) \<le> length (hk_ring k)" "length (hk_ring k) < 2 ^ 32"
    using p(2,7,8) by (simp_all add: MAX_ASYNC_SIZE_def)
  from mem_list_lookup [OF p(1,3) this, where a = "hk_addr k" and key = key] assms(1) show ?thesis
    by (fastforce simp: index_ok_def split: option.splits)
qed

lemma pending_send [simp]:
  "pending (k\<lparr>hk_send := m\<rparr>) fs = pending k fs" "pending (k\<lparr>hk_replies := rs\<rparr>) fs = pending k fs"
  "index_ok (k\<lparr>hk_send := m\<rparr>) fs t = index_ok k fs t" "index_ok (k\<lparr>hk_replies := rs\<rparr>) fs t = index_ok k fs t"
  by (simp_all add: pending_def index_ok_def)

text \<open>The bytes of a request as they lie in the clerk's buffer when it takes it up.\<close>

lemma asked_bytes:
  assumes "sync_buf_size \<le> length b" "RING_HEADER + length d \<le> length b"
  shows "mread (set_header CLERK_DONE (set_header CLIENT_DONE (mwrite b RING_HEADER d))) RING_HEADER (length d) = d"
  using assms by (simp add: set_header_def mread_mwrite_after mread_mwrite_same RING_HEADER_def)

lemma length_asked:
  assumes "sync_buf_size \<le> length b" "RING_HEADER + length d \<le> length b"
  shows "length (set_header CLERK_DONE (set_header CLIENT_DONE (mwrite b RING_HEADER d))) = length b"
    "length (set_header CLIENT_DONE (mwrite b RING_HEADER d)) = length b"
  using assms by (simp_all add: set_header_def sync_buf_size_def RING_HEADER_def)

definition full :: "hybrid_clerk \<Rightarrow> bool" where
  "full k \<longleftrightarrow> hk_len k \<ge> of_nat BATCH_SIZE \<or> hk_tail k + hk_len k = of_nat MAX_ASYNC_SIZE"

text \<open>A write is noted behind the pending ones.\<close>

lemma hybrid_note_ok:
  fixes s :: "'d hybrid"
  assumes k: "pending k fs" "index_ok k fs (hy_index s)" "head = hk_tail k + hk_len k"
    and m: "mread m RING_HEADER (sizeof_Request + length key) = take (sizeof_Request + length key) (request_image opr key val)"
      "RING_HEADER + sizeof_Request + length key \<le> length m"
    and l: "sizeof_Request + (length key + length val) \<le> MAX_REQUEST" "unat head + (sizeof_Request + (length key + length val)) < MAX_ASYNC_SIZE"
  shows "(\<exists>e. hybrid_note i m (ask_write opr key val head k) s = Inl (Some e)) \<or>
    (\<exists>k' t. hybrid_note i m (ask_write opr key val head k) s = Inr (k', s\<lparr>hy_index := t\<rparr>) \<and>
       pending k' (fs @ [((key, val), request_image opr key val)]) \<and> index_ok k' (fs @ [((key, val), request_image opr key val)]) t \<and>
       hk_send k' = hk_send (ask_write opr key val head k) \<and> hk_replies k' = hk_replies k \<and> hk_tail k' = hk_tail k \<and>
       hk_len k' = hk_len k + of_nat (8 + (length key + length val)))"
proof -
  let ?k = "ask_write opr key val head k"
  note p = pendingD [OF k(1)]
  have sz: "length key < 2 ^ 24" "length val < 2 ^ 32" using l(1) by (simp_all add: sizeof_Request_def MAX_REQUEST_def)
  note f = meta_fields [OF m(1) sz]
  have ld: "load m (RING_HEADER + sizeof_Request) (length key) = Some key" using f(4) m(2) by (simp add: load_def)
  have len: "Length RING_HEADER m = of_nat (8 + (length key + length val))" using f(2,3) by (simp add: Length_def sizeof_Request_def)
  have hd: "unat head = unat (hk_tail k) + unat (hk_len k)"
    using unat_add_u32 [of "hk_tail k" "hk_len k"] p(7) k(3) by (simp add: MAX_ASYNC_SIZE_def)
  have inv: "cuckoo_invar (hy_index s)" using k(2) by (simp add: index_ok_def)
  let ?i = "mem_Index (hk_addr k + ucast (hk_tail k) + ucast (hk_len k) + of_nat sizeof_Request) (of_nat (length key)) (of_nat (length val))"
  show ?thesis
  proof (cases "insert_or_assign (hy_index s) key ?i")
    case (Inl e)
    then have "e \<noteq> No_return" using cm.insert_returns [OF inv] by metis
    with Inl show ?thesis using f ld by (simp add: hybrid_note_def Let_def ask_write_def)
  next
    case (Inr r)
    then obtain t x where ins: "insert_or_assign (hy_index s) key ?i = Inr (t, x)" by (cases r) simp
    let ?k' = "?k\<lparr>hk_keys := hk_keys k @ [key],
      hk_idxs := hk_idxs k @ [file_Index 0 (hk_len k + of_nat sizeof_Request) (of_nat (length key)) (of_nat (length val))],
      hk_len := hk_len k + of_nat (8 + (length key + length val))\<rparr>"
    have "hk_addr k + ucast (hk_tail k) + ucast (hk_len k) + of_nat sizeof_Request =
        hk_addr k + of_nat (unat (hk_tail k) + length (concat (map snd fs)) + 8)"
      by (simp add: sizeof_Request_def flip: p(2))
    then have "index_ok ?k' (fs @ [((key, val), request_image opr key val)]) t"
      using cm.insert_invar [OF inv ins] cm.insert_lookup [OF inv ins] k(2)
      by (simp add: index_ok_def ask_write_def mem_list_snoc framed_length [OF p(1)] comp_def add.assoc)
    moreover have "pending ?k' (fs @ [((key, val), request_image opr key val)])"
      by (rule pending_snoc [OF k(1)]) (use l(2) hd in \<open>simp_all add: ask_write_def sizeof_Request_def\<close>)
    moreover have "hybrid_note i m ?k s = Inr (?k', s\<lparr>hy_index := t\<rparr>)"
      using ins f ld len by (simp add: hybrid_note_def Let_def ask_write_def)
    ultimately show ?thesis
      by (intro disjI2 exI [of _ ?k'] exI [of _ t] conjI) (simp_all add: ask_write_def)
  qed
qed

lemma write_len_u32:
  assumes "8 + (length key + length val) \<le> 8192" "0 \<notin> set key" "0 \<notin> set val"
  shows "(ucast (write_len key val) :: u32) = of_nat (8 + (length key + length val))"
proof -
  have "unat (of_nat (length key) :: u16) = length key" "unat (of_nat (length val) :: u16) = length val"
    using assms(1) by (simp_all add: unat_of_nat take_bit_nat_eq_self)
  then have "write_len key val = of_nat (8 + (length key + length val))"
    using assms(2,3) by (simp add: write_len_def sizeof_Request_def)
  then show ?thesis using ucast_of_nat_u16 [OF assms(1)] by metis
qed

context batch_store
begin

definition hybrid_inv :: "nat \<Rightarrow> ((bytes \<times> bytes) \<times> bytes) list \<Rightarrow> u32 \<Rightarrow> 'a hybrid \<Rightarrow> bool" where
  "hybrid_inv n fs head s \<longleftrightarrow> ok n (hy_store s) \<and>
     (\<exists>k. hy_clerks s = [k] \<and> pending k fs \<and> unat (hk_len k) < BATCH_SIZE \<and> head = hk_tail k + hk_len k \<and>
        sync_buf_size \<le> length (hk_send k) \<and> index_ok k fs (hy_index s))"

definition hybrid_view :: "((bytes \<times> bytes) \<times> bytes) list \<Rightarrow> 'a hybrid \<Rightarrow> bytes \<rightharpoonup> bytes" where
  "hybrid_view fs s = contents (hy_store s) ++ map_of (rev (map fst fs))"

text \<open>The writes so far: in the log, under way to it, and pending.\<close>

definition hybrid_bytes :: "((bytes \<times> bytes) \<times> bytes) list \<Rightarrow> 'a hybrid \<Rightarrow> bytes" where
  "hybrid_bytes fs s = hy_log s @ concat (map (\<lambda>(i, buffer, t). buffer) (hy_jobs s)) @ concat (map snd fs)"

lemmas hybrid_abs_defs = hybrid_view_def hybrid_bytes_def

lemma hybrid_reply_inv:
  assumes "hybrid_inv n fs head s" "sync_buf_size \<le> length m"
  shows "\<exists>s'. hybrid_reply 0 m s = Hy_reply s' \<and> hybrid_inv n fs head s' \<and> hy_store s' = hy_store s \<and>
    hybrid_bytes fs s' = hybrid_bytes fs s \<and> hk_replies (hy_clerks s' ! 0) =
      hk_replies (hy_clerks s ! 0) @ [mread m RING_HEADER (sizeof_RequestReply + unat (get_val_size RING_HEADER m))]"
  using assms by (auto simp: hybrid_reply_def hybrid_inv_def hybrid_bytes_def)

lemma hybrid_flush_inv:
  assumes k: "pending k fs" "unat (hk_len k) < BATCH_SIZE + MAX_REQUEST" "sync_buf_size \<le> length (hk_send k)"
    and s: "hy_clerks s = [k0]" "index_ok k fs (hy_index s)" "ok (Suc n) (hy_store s)"
  shows "(\<exists>e. hybrid_flush ops 0 k s = Hy_fail e) \<or>
    (\<exists>s'. hybrid_flush ops 0 k s = Hy_reply s' \<and> hybrid_inv n [] (next_tail k) s' \<and> hybrid_view [] s' = hybrid_view fs s \<and>
       hybrid_bytes [] s' = hybrid_bytes fs s)"
proof -
  from store_batch_ok [OF k(1,2) s(3)] consider e where "store_batch ops k (hy_store s) = Inl (Some e)" |
    d where "store_batch ops k (hy_store s) = Inr (concat (map snd fs), d)" "ok n d"
      "contents d = contents (hy_store s) ++ map_of (rev (map fst fs))"
    by blast
  then show ?thesis
  proof cases
    case 1
    then show ?thesis by (simp add: hybrid_flush_def hy_error_def)
  next
    case (2 d)
    have "pending (new_batch k) []"
      using next_tail_bounds [OF k(1)] pendingD(8) [OF k(1)] by (intro pending_empty) (simp_all add: new_batch_def)
    moreover have "index_ok (new_batch k) [] (erase_all erase (hy_index s) (hk_keys k))" by (rule index_ok_erased [OF s(2) k(1)])
    ultimately show ?thesis
      using 2 k(3) s(1) by (simp add: hybrid_flush_def hybrid_inv_def hybrid_abs_defs new_batch_def BATCH_SIZE_def)
  qed
qed

text \<open>The empty request.\<close>

lemma nop_round:
  assumes s: "hybrid_inv (Suc n) fs head s" and l: "length stale = 7"
  shows "(\<exists>e. asked ops wr 0 (ask_bytes (op_code NOP # stale)) s = Inl (Some e)) \<or>
    (\<exists>s'. asked ops wr 0 (ask_bytes (op_code NOP # stale)) s = Inr s' \<and> hybrid_inv n [] (of_nat RING_HEADER) s' \<and>
       hybrid_view [] s' = hybrid_view fs s \<and> hybrid_bytes [] s' = hybrid_bytes fs s)"
proof -
  obtain k where k: "hy_clerks s = [k]" "pending k fs" "unat (hk_len k) < BATCH_SIZE" "sync_buf_size \<le> length (hk_send k)"
    "index_ok k fs (hy_index s)" and d: "ok (Suc n) (hy_store s)"
    using s by (auto simp: hybrid_inv_def)
  let ?r = "op_code NOP # stale"
  let ?k = "ask_bytes ?r k"
  let ?s = "s\<lparr>hy_clerks := [?k]\<rparr>"
  let ?m = "set_header CLERK_DONE (hk_send ?k)"
  have len: "RING_HEADER + length ?r \<le> length (hk_send k)" using l k(4) by (simp add: sync_buf_size_def MAX_REQUEST_def)
  have "mread ?m RING_HEADER 8 = ?r" using asked_bytes [OF k(4) len] l by (simp add: ask_bytes_def)
  then have "mread ?m RING_HEADER 1 = [op_code NOP]" using mread_mread [of 0 1 8 ?m RING_HEADER] by (simp add: mread_def)
  then have op: "get_op RING_HEADER ?m = Some NOP" by (simp add: get_op_def)
  have lm: "length ?m = length (hk_send k)" using length_asked(1) [OF k(4) len] by (simp add: ask_bytes_def)
  let ?m' = "set_val_size RING_HEADER 0 (set_status RING_HEADER OK ?m)"
  have m': "sync_buf_size \<le> length ?m'"
    using lm k(4) by (simp add: set_val_size_def set_status_def sync_buf_size_def MAX_REQUEST_def RING_HEADER_def)
  have "hk_len k < of_nat BATCH_SIZE" using k(3) by (simp add: word_less_nat_alt BATCH_SIZE_def)
  then have nt: "next_tail ?k = of_nat RING_HEADER" by (simp add: next_tail_def Let_def ask_bytes_def)
  have fl: "(\<exists>e. hybrid_flush ops 0 ?k ?s = Hy_fail e) \<or>
      (\<exists>s'. hybrid_flush ops 0 ?k ?s = Hy_reply s' \<and> hybrid_inv n [] (next_tail ?k) s' \<and> hybrid_view [] s' = hybrid_view fs ?s \<and>
        hybrid_bytes [] s' = hybrid_bytes fs ?s)"
    by (rule hybrid_flush_inv) (use k d len in \<open>auto simp: ask_bytes_def set_header_def sync_buf_size_def RING_HEADER_def\<close>)
  have rd: "asked ops wr 0 (ask_bytes ?r) s = round_result (then_reply 0 ?m' (hybrid_flush ops 0 ?k ?s))"
    using k(1) op by (simp add: asked_def HybridClerk_round_def hybrid_put_def Let_def)
  from fl show ?thesis
  proof (elim disjE exE conjE)
    fix s' assume f: "hybrid_flush ops 0 ?k ?s = Hy_reply s'" "hybrid_inv n [] (next_tail ?k) s'" "hybrid_view [] s' = hybrid_view fs ?s"
      "hybrid_bytes [] s' = hybrid_bytes fs ?s"
    from hybrid_reply_inv [OF f(2) m'] f(1,3,4) rd nt show ?thesis
      by (auto simp: then_reply_def round_result_def hybrid_abs_defs)
  qed (simp add: rd then_reply_def round_result_def)
qed

text \<open>After a write has been noted, the batch is full and flushed, or not.\<close>

lemma noted_inv:
  assumes k: "pending k fs" "unat (hk_len k) < BATCH_SIZE + MAX_REQUEST" "sync_buf_size \<le> length (hk_send k)"
    and s: "hy_clerks s = [k0]" "index_ok k fs (hy_index s)" "ok (Suc n) (hy_store s)"
    and r: "r = (if full k then hybrid_flush ops 0 k s else Hy_reply (s\<lparr>hy_clerks := [k]\<rparr>))"
  shows "(\<exists>e. r = Hy_fail e) \<or>
    (\<exists>s' fs'. r = Hy_reply s' \<and> hybrid_inv n fs' (hk_tail k + hk_len k) s' \<and> hybrid_view fs' s' = hybrid_view fs s \<and>
       hybrid_bytes fs' s' = hybrid_bytes fs s \<and> (hk_len k < of_nat BATCH_SIZE \<longrightarrow> fs' = fs))"
proof -
  note p = pendingD [OF k(1)]
  have "unat (hk_tail k + hk_len k) = unat (hk_tail k) + unat (hk_len k)"
    using unat_add_u32 [of "hk_tail k" "hk_len k"] p(7) by (simp add: MAX_ASYNC_SIZE_def)
  then have nm: "hk_tail k + hk_len k \<noteq> of_nat MAX_ASYNC_SIZE" using p(7) by (auto simp: MAX_ASYNC_SIZE_def)
  show ?thesis
  proof (cases "full k")
    case True
    then have "next_tail k = hk_tail k + hk_len k" "\<not> hk_len k < of_nat BATCH_SIZE" using nm by (auto simp: full_def next_tail_def Let_def)
    with hybrid_flush_inv [OF k s] r True show ?thesis by auto
  next
    case False
    then have "unat (hk_len k) < BATCH_SIZE" by (simp add: full_def word_le_nat_alt BATCH_SIZE_def)
    with False r k s ok_Suc show ?thesis by (auto simp: hybrid_inv_def hybrid_abs_defs)
  qed
qed

lemma reply_bytes:
  assumes "RING_HEADER + sizeof_RequestReply + length val \<le> length m" "length val < 2 ^ 32"
  shows "mread (mwrite m RING_HEADER (reply_image st val)) RING_HEADER
    (sizeof_RequestReply + unat (get_val_size RING_HEADER (mwrite m RING_HEADER (reply_image st val)))) = reply_image st val"
proof -
  have m: "mread (mwrite m RING_HEADER (reply_image st val)) RING_HEADER (sizeof_RequestReply + length val) = reply_image st val"
    using assms(1) by (simp add: mread_mwrite_same)
  with reply_fields(2) [OF m] assms(2) show ?thesis by (simp add: unat_of_nat_len)
qed

lemma then_reply_round:
  assumes "(\<exists>e. f = Hy_fail e) \<or> (\<exists>s' fs'. f = Hy_reply s' \<and> hybrid_inv n fs' head s' \<and> hybrid_view fs' s' = v \<and> hybrid_bytes fs' s' = b \<and> P fs')"
    "sync_buf_size \<le> length m"
    "mread m RING_HEADER (sizeof_RequestReply + unat (get_val_size RING_HEADER m)) = r"
  shows "(\<exists>e. round_result (then_reply 0 m f) = Inl (Some e)) \<or>
    (\<exists>s' fs'. round_result (then_reply 0 m f) = Inr s' \<and> hybrid_inv n fs' head s' \<and> hybrid_view fs' s' = v \<and>
       hybrid_bytes fs' s' = b \<and> P fs' \<and> last (hk_replies (hy_clerks s' ! 0)) = r)"
  using assms(1)
proof (elim disjE exE conjE)
  fix s' fs' assume f: "f = Hy_reply s'" "hybrid_inv n fs' head s'" "hybrid_view fs' s' = v" "hybrid_bytes fs' s' = b" "P fs'"
  obtain s'' where r: "hybrid_reply 0 m s' = Hy_reply s''" "hybrid_inv n fs' head s''" "hy_store s'' = hy_store s'"
    "hybrid_bytes fs' s'' = hybrid_bytes fs' s'" "last (hk_replies (hy_clerks s'' ! 0)) = r"
    using hybrid_reply_inv [OF f(2) assms(2)] assms(3) by auto
  then have "round_result (then_reply 0 m f) = Inr s''" "hybrid_view fs' s'' = v" "hybrid_bytes fs' s'' = b"
    using f by (simp_all add: then_reply_def round_result_def hybrid_view_def)
  with r f(5) show ?thesis by blast
qed (simp add: then_reply_def round_result_def)

text \<open>A write, for which there is room in the ring.\<close>

lemma write_round:
  assumes s: "hybrid_inv (Suc n) fs head s" and opr: "opr \<in> {PUT, UPDATE}"
    and l: "sizeof_Request + (length key + length val) \<le> MAX_REQUEST" "unat head + (sizeof_Request + (length key + length val)) < MAX_ASYNC_SIZE"
  shows "(\<exists>e. asked ops wr 0 (ask_write opr key val head) s = Inl (Some e)) \<or>
    (\<exists>s' fs'. asked ops wr 0 (ask_write opr key val head) s = Inr s' \<and>
       hybrid_inv n fs' (head + of_nat (8 + (length key + length val))) s' \<and>
       hybrid_view fs' s' = (hybrid_view fs s)(key \<mapsto> val) \<and> hybrid_bytes fs' s' = hybrid_bytes fs s @ request_image opr key val \<and>
       (fs = [] \<longrightarrow> fs' = [((key, val), request_image opr key val)]) \<and> last (hk_replies (hy_clerks s' ! 0)) = reply_image OK [])"
proof -
  obtain k where k: "hy_clerks s = [k]" "pending k fs" "unat (hk_len k) < BATCH_SIZE" "sync_buf_size \<le> length (hk_send k)"
    "index_ok k fs (hy_index s)" and hd: "head = hk_tail k + hk_len k" and d: "ok (Suc n) (hy_store s)"
    using s by (auto simp: hybrid_inv_def)
  let ?r = "take (sizeof_Request + length key) (request_image opr key val)"
  let ?k = "ask_write opr key val head k"
  let ?s = "s\<lparr>hy_clerks := [?k]\<rparr>"
  let ?m = "set_header CLERK_DONE (hk_send ?k)"
  let ?fs = "fs @ [((key, val), request_image opr key val)]"
  have len: "RING_HEADER + length ?r \<le> length (hk_send k)" using l(1) k(4) by (simp add: sync_buf_size_def)
  have m: "mread ?m RING_HEADER (sizeof_Request + length key) = ?r" using asked_bytes [OF k(4) len] by (simp add: ask_write_def)
  have lm: "length ?m = length (hk_send k)" using length_asked(1) [OF k(4) len] by (simp add: ask_write_def)
  have lmk: "RING_HEADER + sizeof_Request + length key \<le> length ?m" using lm l(1) k(4) by (simp add: sync_buf_size_def)
  have sz: "length key < 2 ^ 24" "length val < 2 ^ 32" using l(1) by (simp_all add: sizeof_Request_def MAX_REQUEST_def)
  note op = meta_fields(1) [OF m sz]
  let ?m' = "set_val_size RING_HEADER 0 (set_status RING_HEADER OK ?m)"
  have lr: "RING_HEADER + sizeof_RequestReply \<le> length ?m"
    using lm k(4) by (simp add: sync_buf_size_def MAX_REQUEST_def sizeof_RequestReply_def)
  note rep = lay_out_reply_0 [OF lr, of OK]
  have m': "sync_buf_size \<le> length ?m'" unfolding rep using lm k(4) lr by simp
  have rd: "mread ?m' RING_HEADER (sizeof_RequestReply + unat (get_val_size RING_HEADER ?m')) = reply_image OK []"
    unfolding rep by (rule reply_bytes) (use lr in simp_all)
  from hybrid_note_ok [OF k(2) _ hd m lmk l, of ?s 0] k(5) consider e where "hybrid_note 0 ?m ?k ?s = Inl (Some e)" |
    k' t where "hybrid_note 0 ?m ?k ?s = Inr (k', ?s\<lparr>hy_index := t\<rparr>)" "pending k' ?fs" "index_ok k' ?fs t"
      "hk_send k' = hk_send ?k" "hk_tail k' = hk_tail k" "hk_len k' = hk_len k + of_nat (8 + (length key + length val))"
    by auto
  then show ?thesis
  proof cases
    case 1
    then show ?thesis using k(1) op opr by (auto simp: asked_def HybridClerk_round_def hybrid_put_def Let_def hy_error_def round_result_def)
  next
    case (2 k' t)
    let ?s' = "?s\<lparr>hy_index := t\<rparr>"
    let ?f = "if full k' then hybrid_flush ops 0 k' ?s' else Hy_reply (?s'\<lparr>hy_clerks := [k']\<rparr>)"
    have ln: "unat (of_nat (8 + (length key + length val)) :: u32) = 8 + (length key + length val)"
      by (rule unat_of_nat_len) (use l(1) in \<open>simp add: sizeof_Request_def MAX_REQUEST_def\<close>)
    then have "unat (hk_len k') \<le> unat (hk_len k) + (8 + (length key + length val))"
      unfolding 2(6) by (metis unat_plus_if' diff_le_self order_refl)
    with k(3) l(1) have lk: "unat (hk_len k') < BATCH_SIZE + MAX_REQUEST" by (simp add: sizeof_Request_def)
    have sm: "hk_len k + of_nat (8 + (length key + length val)) < of_nat BATCH_SIZE" if "fs = []"
    proof -
      have "hk_len k = 0" using pendingD(2) [OF k(2)] that by (simp add: unat_eq_0)
      moreover have "unat (of_nat BATCH_SIZE :: u32) = BATCH_SIZE" by (simp add: BATCH_SIZE_def)
      moreover have "8 + (length key + length val) < BATCH_SIZE" using l(1) by (simp add: sizeof_Request_def MAX_REQUEST_def BATCH_SIZE_def)
      ultimately show ?thesis using ln by (simp add: word_less_nat_alt del: of_nat_add)
    qed
    have ls: "sync_buf_size \<le> length (hk_send k')" using 2(4) length_asked(2) [OF k(4) len] k(4) by (simp add: ask_write_def)
    have ask: "asked ops wr 0 (ask_write opr key val head) s = round_result (then_reply 0 ?m' ?f)"
      using k(1) op opr 2(1) by (auto simp: asked_def HybridClerk_round_def hybrid_put_def Let_def full_def)
    have f: "(\<exists>e. ?f = Hy_fail e) \<or> (\<exists>s' fs'. ?f = Hy_reply s' \<and>
        hybrid_inv n fs' (head + of_nat (8 + (length key + length val))) s' \<and> hybrid_view fs' s' = (hybrid_view fs s)(key \<mapsto> val) \<and>
        hybrid_bytes fs' s' = hybrid_bytes fs s @ request_image opr key val \<and> (fs = [] \<longrightarrow> fs' = [((key, val), request_image opr key val)]))"
    proof -
      have ab: "hybrid_view ?fs ?s' = (hybrid_view fs s)(key \<mapsto> val)" "hybrid_bytes ?fs ?s' = hybrid_bytes fs s @ request_image opr key val"
        by (simp_all add: hybrid_abs_defs)
      have hk: "hk_tail k' + hk_len k' = head + of_nat (8 + (length key + length val))" using 2(5,6) hd by (simp add: add.assoc)
      have one: "fs = [] \<longrightarrow> fs' = [((key, val), request_image opr key val)]" if "hk_len k' < of_nat BATCH_SIZE \<longrightarrow> fs' = ?fs" for fs'
        using that sm 2(6) by auto
      have "index_ok k' ?fs (hy_index ?s')" "ok (Suc n) (hy_store ?s')" "hy_clerks ?s' = [?k]" using 2(3) d by simp_all
      from noted_inv [OF 2(2) lk ls this(3,1,2) refl] show ?thesis unfolding ab hk using one by blast
    qed
    show ?thesis unfolding ask using then_reply_round [OF f m' rd] by blast
  qed
qed

text \<open>A read sees the pending writes, and the store behind them.\<close>

lemma memcpy_reply:
  assumes "RING_HEADER + sizeof_RequestReply + length val \<le> length m"
  shows "memcpy (set_val_size RING_HEADER (of_nat (length val)) (set_status RING_HEADER st m)) (RING_HEADER + sizeof_RequestReply) val
    = Some (mwrite m RING_HEADER (reply_image st val))"
  using assms lay_out_reply [OF assms, of st] by (simp add: set_val_size_def set_status_def RING_HEADER_def sizeof_RequestReply_def)

lemma get_reply:
  assumes s: "hybrid_inv n fs head s" "small_values vm (hybrid_view fs s)"
    and m: "holds (request_image GET key []) m" "sync_buf_size \<le> length m"
    and l: "sizeof_Request + length key \<le> MAX_REQUEST" "sizeof_RequestReply + vm \<le> MAX_REQUEST"
  shows "\<exists>s' m'. hybrid_get ops 0 m s = hybrid_reply 0 m' s' \<and> hybrid_inv n fs head s' \<and> hybrid_view fs s' = hybrid_view fs s \<and>
    hybrid_bytes fs s' = hybrid_bytes fs s \<and> sync_buf_size \<le> length m' \<and>
    reply_means (Call_get key) (Ans_got (hybrid_view fs s key)) (mread m' RING_HEADER (sizeof_RequestReply + unat (get_val_size RING_HEADER m')))"
proof -
  obtain k where k: "hy_clerks s = [k]" "pending k fs" "index_ok k fs (hy_index s)" and d: "ok n (hy_store s)"
    using s(1) by (auto simp: hybrid_inv_def)
  have "mread m RING_HEADER (sizeof_Request + length key + length ([] :: bytes)) = request_image GET key []"
    using m(1) by (simp add: holds_def)
  note r = request_fields [OF this]
  have ks: "get_key_size RING_HEADER m = length key" using r(2) l(1) by (simp add: sizeof_Request_def MAX_REQUEST_def)
  note key = key_request [OF m l(1), unfolded ks]
  have vm: "vm < 2 ^ 32" "RING_HEADER + sizeof_RequestReply + vm \<le> length m"
    using l(2) m(2) by (auto simp: sizeof_RequestReply_def MAX_REQUEST_def sync_buf_size_def)
  have inv: "cuckoo_invar (hy_index s)" using k(3) by (simp add: index_ok_def)
  obtain t where t: "find_fn (hy_index s) key = (t, cuckoo_lookup (hy_index s) key)" "cuckoo_invar t" "cuckoo_lookup t = cuckoo_lookup (hy_index s)"
    using cm.find_result [OF inv, of key] cm.find_invar [OF inv, of key] cm.find_lookup [OF inv, of key] by (metis prod.collapse)
  have inv': "hybrid_inv n fs head (s\<lparr>hy_index := t\<rparr>)" using s(1) t(2,3) by (auto simp: hybrid_inv_def index_ok_def)
  have found: ?thesis if v: "hybrid_view fs s key = Some val" and g: "hybrid_get ops 0 m s = hybrid_reply 0 (mwrite m RING_HEADER (reply_image OK val)) s'"
      and s': "hybrid_inv n fs head s'" "hybrid_view fs s' = hybrid_view fs s" "hybrid_bytes fs s' = hybrid_bytes fs s" for val s'
  proof -
    have "length val \<le> vm" using s(2) v by (auto simp: small_values_def)
    with vm have lv: "RING_HEADER + sizeof_RequestReply + length val \<le> length m" "length val < 2 ^ 32" by simp_all
    show ?thesis using g s' v lv m(2) reply_bytes [OF lv, of OK] by (fastforce simp: reply_means_simps)
  qed
  have sized: "RING_HEADER + sizeof_RequestReply + length val \<le> length m \<and> unat (of_nat (length val) :: u32) = length val"
    if "hybrid_view fs s key = Some val" for val
    using that s(2) vm by (force simp: small_values_def intro!: unat_of_nat_len)
  show ?thesis
  proof (cases "cuckoo_lookup (hy_index s) key")
    case (Some idx)
    then obtain val where v: "map_of (rev (map fst fs)) key = Some val" "value_size idx = of_nat (length val)"
      "ring_read [k] (addr idx + of_nat (length key)) (length val) = Some val"
      using index_ok_read [OF k(3,2), of key] by auto
    have view: "hybrid_view fs s key = Some val" using v(1) by (simp add: hybrid_view_def)
    show ?thesis
      by (rule found [OF view _ inv'])
        (use sized [OF view] memcpy_reply [of val m] v k(1) key ks t(1) Some in \<open>auto simp: hybrid_get_def Let_def hybrid_abs_defs\<close>)
  next
    case None
    then have nf: "map_of (rev (map fst fs)) key = None" using index_ok_read [OF k(3,2), of key] by auto
    then have view: "hybrid_view fs s key = contents (hy_store s) key" by (simp add: hybrid_view_def map_add_def)
    obtain d' where d': "db_get ops (hy_store s) key = Inr (d', contents (hy_store s) key)" "ok n d'" "contents d' = contents (hy_store s)"
      using get_ok [OF d] by blast
    let ?s = "s\<lparr>hy_index := t, hy_store := d'\<rparr>"
    have inv'': "hybrid_inv n fs head ?s" "hybrid_view fs ?s = hybrid_view fs s" "hybrid_bytes fs ?s = hybrid_bytes fs s"
      using inv' d' by (simp_all add: hybrid_inv_def hybrid_abs_defs)
    show ?thesis
    proof (cases "contents (hy_store s) key")
      case (Some val)
      with view have v: "hybrid_view fs s key = Some val" by simp
      show ?thesis
        by (rule found [OF v _ inv'']) (use sized [OF v] memcpy_reply [of val m] key ks t(1) None Some d' in \<open>simp add: hybrid_get_def Let_def\<close>)
    next
      case not_there: None
      have lr: "RING_HEADER + sizeof_RequestReply + length ([] :: bytes) \<le> length m" using vm(2) by simp
      have "hybrid_get ops 0 m s = hybrid_reply 0 (mwrite m RING_HEADER (reply_image NOTFOUND [])) ?s"
        using key ks t(1) None not_there d' lr by (simp add: hybrid_get_def Let_def lay_out_reply_0)
      then show ?thesis using inv'' m(2) lr reply_bytes [OF lr, of NOTFOUND] view not_there by (fastforce simp: reply_means_simps)
    qed
  qed
qed

lemma get_round:
  assumes s: "hybrid_inv n fs head s" "small_values vm (hybrid_view fs s)"
    and l: "sizeof_Request + length key \<le> MAX_REQUEST" "sizeof_RequestReply + vm \<le> MAX_REQUEST"
  shows "\<exists>s'. asked ops wr 0 (ask_bytes (call_image (Call_get key))) s = Inr s' \<and> hybrid_inv n fs head s' \<and>
    hybrid_view fs s' = hybrid_view fs s \<and> hybrid_bytes fs s' = hybrid_bytes fs s \<and>
    reply_means (Call_get key) (Ans_got (hybrid_view fs s key)) (last (hk_replies (hy_clerks s' ! 0)))"
proof -
  obtain k where k: "hy_clerks s = [k]" "sync_buf_size \<le> length (hk_send k)" using s(1) by (auto simp: hybrid_inv_def)
  let ?r = "request_image GET key []"
  let ?s = "s\<lparr>hy_clerks := [ask_bytes ?r k]\<rparr>"
  let ?m = "set_header CLERK_DONE (hk_send (ask_bytes ?r k))"
  have len: "RING_HEADER + length ?r \<le> length (hk_send k)" using l(1) k(2) by (simp add: sync_buf_size_def)
  have h: "holds ?r ?m" using asked_bytes [OF k(2) len] by (simp add: holds_def ask_bytes_def)
  have lm: "sync_buf_size \<le> length ?m" using length_asked(1) [OF k(2) len] k(2) by (simp add: ask_bytes_def)
  have inv: "hybrid_inv n fs head ?s" "hybrid_view fs ?s = hybrid_view fs s" "hybrid_bytes fs ?s = hybrid_bytes fs s"
    using s(1) k(1) length_asked(2) [OF k(2) len] by (auto simp: hybrid_inv_def hybrid_abs_defs ask_bytes_def)
  obtain s' m' where g: "hybrid_get ops 0 ?m ?s = hybrid_reply 0 m' s'" "hybrid_inv n fs head s'" "hybrid_view fs s' = hybrid_view fs s"
    "hybrid_bytes fs s' = hybrid_bytes fs s" "sync_buf_size \<le> length m'" "reply_means (Call_get key) (Ans_got (hybrid_view fs s key))
      (mread m' RING_HEADER (sizeof_RequestReply + unat (get_val_size RING_HEADER m')))"
    using get_reply [OF inv(1) _ h lm l] inv(2,3) s(2) by auto
  have "mread ?m RING_HEADER (sizeof_Request + length key + length ([] :: bytes)) = ?r" using h by (simp add: holds_def)
  then have "get_op RING_HEADER ?m = Some GET" by (rule request_fields) (use l(1) in \<open>simp_all add: sizeof_Request_def MAX_REQUEST_def\<close>)
  then have "asked ops wr 0 (ask_bytes (call_image (Call_get key))) s = round_result (hybrid_reply 0 m' s')"
    using k(1) g(1) by (simp add: asked_def HybridClerk_round_def)
  with hybrid_reply_inv [OF g(2,5)] g(3,4,6) show ?thesis by (auto simp: round_result_def hybrid_view_def)
qed

lemma sync_round:
  assumes s: "hybrid_inv n fs head s"
  shows "\<exists>s'. asked ops wr 0 (ask_bytes (call_image Call_sync)) s = Inr s' \<and> hybrid_inv n fs head s' \<and>
    hybrid_view fs s' = hybrid_view fs s \<and> hybrid_bytes fs s' = hybrid_bytes fs s \<and>
    reply_means Call_sync Ans_done (last (hk_replies (hy_clerks s' ! 0)))"
proof -
  obtain k where k: "hy_clerks s = [k]" "sync_buf_size \<le> length (hk_send k)" and d: "ok n (hy_store s)"
    using s by (auto simp: hybrid_inv_def)
  let ?r = "request_image SYNC [] []"
  let ?s = "s\<lparr>hy_clerks := [ask_bytes ?r k], hy_store := db_set_sync ops (hy_store s)\<rparr>"
  let ?m = "set_header CLERK_DONE (hk_send (ask_bytes ?r k))"
  have len: "RING_HEADER + length ?r \<le> length (hk_send k)" using k(2) by (simp add: sync_buf_size_def sizeof_Request_def MAX_REQUEST_def)
  have h: "mread ?m RING_HEADER (sizeof_Request + length ([] :: bytes) + length ([] :: bytes)) = ?r"
    using asked_bytes [OF k(2) len] by (simp add: ask_bytes_def)
  have lm: "sync_buf_size \<le> length ?m" using length_asked(1) [OF k(2) len] k(2) by (simp add: ask_bytes_def)
  have inv: "hybrid_inv n fs head ?s" "hybrid_view fs ?s = hybrid_view fs s" "hybrid_bytes fs ?s = hybrid_bytes fs s"
    using s k(1) length_asked(2) [OF k(2) len] set_sync_ok [OF d] by (auto simp: hybrid_inv_def hybrid_abs_defs ask_bytes_def)
  note f = request_fields [OF h]
  have "asked ops wr 0 (ask_bytes (call_image Call_sync)) s = round_result (hybrid_reply 0 ?m ?s)"
    using k(1) f(1) by (simp add: asked_def HybridClerk_round_def)
  moreover have "mread ?m RING_HEADER (sizeof_RequestReply + unat (get_val_size RING_HEADER ?m)) = ?r"
    using h f(3) by (simp add: sizeof_Request_def sizeof_RequestReply_def)
  ultimately show ?thesis using hybrid_reply_inv [OF inv(1) lm] inv(2,3) reply_means_sync by (auto simp: round_result_def hybrid_view_def)
qed

lemma hybrid_inv_Suc: "hybrid_inv (Suc n) fs head s \<Longrightarrow> hybrid_inv n fs head s"
  using ok_Suc by (auto simp: hybrid_inv_def)

lemma write_call:
  assumes s: "hybrid_inv (Suc (Suc n)) fs head s" and opr: "opr \<in> {PUT, UPDATE}" and st: "length stale = 7"
    and c: "call_fits (Call_put key val)"
  shows "(\<exists>e. hybrid_write ops wr stale 0 opr key val (head, s) = Inl (Some e)) \<or>
    (\<exists>head' s' fs'. hybrid_write ops wr stale 0 opr key val (head, s) = Inr (head', s') \<and> hybrid_inv n fs' head' s' \<and>
       hybrid_view fs' s' = (hybrid_view fs s)(key \<mapsto> val) \<and> hybrid_bytes fs' s' = hybrid_bytes fs s @ request_image opr key val \<and>
       (fs = [] \<longrightarrow> fs' = [((key, val), request_image opr key val)]) \<and> last (hk_replies (hy_clerks s' ! 0)) = reply_image OK [])"
proof -
  let ?n = "8 + (length key + length val)"
  have l: "sizeof_Request + (length key + length val) \<le> MAX_REQUEST" and st0: "0 \<notin> set key" "0 \<notin> set val"
    using c by (auto simp: call_fits_def)
  have wl: "ucast (write_len key val) = (of_nat ?n :: u32)" by (rule write_len_u32) (use l st0 in \<open>simp_all add: sizeof_Request_def MAX_REQUEST_def\<close>)
  have un: "unat (of_nat ?n :: u32) = ?n" by (rule unat_of_nat_len) (use l in \<open>simp add: sizeof_Request_def MAX_REQUEST_def\<close>)
  have step: ?thesis if i: "hybrid_inv (Suc n) gs h u" and v: "hybrid_view gs u = hybrid_view fs s" "hybrid_bytes gs u = hybrid_bytes fs s" "gs = fs \<or> gs = []"
      and h: "unat h + ?n < MAX_ASYNC_SIZE"
      and w: "hybrid_write ops wr stale 0 opr key val (head, s) = map_sum id (Pair (h + of_nat ?n)) (asked ops wr 0 (ask_write opr key val h) u)" for gs h u
    using write_round [OF i opr l, of wr] v h w by (auto simp: sizeof_Request_def)
  obtain k where k: "pending k fs" "head = hk_tail k + hk_len k" using s by (auto simp: hybrid_inv_def)
  have hd: "unat head < MAX_ASYNC_SIZE"
    using unat_add_u32 [of "hk_tail k" "hk_len k"] pendingD(7) [OF k(1)] k(2) by (simp add: MAX_ASYNC_SIZE_def)
  have sum: "unat (head + of_nat ?n) = unat head + ?n"
    using unat_add_u32 [of head "of_nat ?n"] un hd l by (simp add: MAX_ASYNC_SIZE_def sizeof_Request_def MAX_REQUEST_def)
  show ?thesis
  proof (cases "head + of_nat ?n \<ge> of_nat MAX_ASYNC_SIZE")
    case False
    then have "unat head + ?n < MAX_ASYNC_SIZE" using sum by (simp add: word_le_nat_alt MAX_ASYNC_SIZE_def)
    with step [OF hybrid_inv_Suc [OF s] refl refl disjI1 [OF refl]] False wl show ?thesis by (simp add: hybrid_write_def Let_def del: of_nat_add)
  next
    case True
    from nop_round [OF s st, of wr] show ?thesis
    proof (elim disjE exE conjE)
      fix e assume "asked ops wr 0 (ask_bytes (op_code NOP # stale)) s = Inl (Some e)"
      with True wl show ?thesis by (simp add: hybrid_write_def Let_def del: of_nat_add)
    next
      fix u assume u: "asked ops wr 0 (ask_bytes (op_code NOP # stale)) s = Inr u" "hybrid_inv (Suc n) [] (of_nat RING_HEADER) u"
        "hybrid_view [] u = hybrid_view fs s" "hybrid_bytes [] u = hybrid_bytes fs s"
      have "unat (of_nat RING_HEADER :: u32) + ?n < MAX_ASYNC_SIZE"
        using l by (simp add: RING_HEADER_def MAX_ASYNC_SIZE_def sizeof_Request_def MAX_REQUEST_def)
      from step [OF u(2,3,4) disjI2 [OF refl] this] u(1) True wl show ?thesis by (simp add: hybrid_write_def Let_def del: of_nat_add)
    qed
  qed
qed

lemma hybrid_call_ok:
  assumes s: "hybrid_inv (Suc (Suc n)) fs head s" "small_values vm (hybrid_view fs s)" and st: "length stale = 7"
    and c: "call_fits cl" "\<not> is_delete cl" "sizeof_RequestReply + vm \<le> MAX_REQUEST"
  shows "(\<exists>e. hybrid_call ops wr stale 0 cl (head, s) = Inl (Some e)) \<or>
    (\<exists>head' s' fs' a. hybrid_call ops wr stale 0 cl (head, s) = Inr (head', s') \<and> hybrid_inv n fs' head' s' \<and>
       spec_call cl (hybrid_view fs s) = (hybrid_view fs' s', a) \<and> hybrid_bytes fs' s' = hybrid_bytes fs s @ write_image cl \<and>
       reply_means cl a (last (hk_replies (hy_clerks s' ! 0))))"
proof (cases cl)
  case (Call_put key val)
  with write_call [OF s(1) _ st, of PUT key val wr] c(1) show ?thesis by (force simp: reply_means_simps)
next
  case (Call_update key val)
  with write_call [OF s(1) _ st, of UPDATE key val wr] c(1) show ?thesis by (force simp: reply_means_simps call_fits_def)
next
  case (Call_get key)
  have "sizeof_Request + length key \<le> MAX_REQUEST" using c(1) Call_get by (simp add: call_fits_def)
  from get_round [OF hybrid_inv_Suc [OF hybrid_inv_Suc [OF s(1)]] s(2) this c(3), of wr] Call_get show ?thesis by force
next
  case Call_sync
  with sync_round [OF hybrid_inv_Suc [OF hybrid_inv_Suc [OF s(1)]], of wr] show ?thesis by force
qed (use c(2) in simp)

text \<open>A persisting thread changes the first word of the ring only.\<close>

lemma pending_job:
  assumes "pending k fs"
  shows "pending (k\<lparr>hk_ring := mwrite (hk_ring k) 0 (le32 w)\<rparr>) fs"
proof -
  note p = pendingD [OF assms]
  have "mread (mwrite (hk_ring k) 0 (le32 w)) (unat (hk_tail k)) (length (concat (map snd fs))) = concat (map snd fs)"
    using p(3,6,8) by (simp add: mread_mwrite_after RING_HEADER_def MAX_ASYNC_SIZE_def)
  with p show ?thesis by (simp add: pending_def MAX_ASYNC_SIZE_def)
qed

lemma run_job_inv:
  assumes "hybrid_inv n fs head s" "j < length (hy_jobs s)"
  shows "hybrid_inv n fs head (run_job wr j s)" "hybrid_view fs (run_job wr j s) = hybrid_view fs s"
    "j = 0 \<Longrightarrow> wr = write_full \<Longrightarrow> hybrid_bytes fs (run_job wr j s) = hybrid_bytes fs s"
proof -
  obtain i b t where job: "hy_jobs s ! j = (i, b, t)" by (metis prod.exhaust)
  obtain k where k: "hy_clerks s = [k]" "pending k fs" using assms(1) by (auto simp: hybrid_inv_def)
  have "index_ok (k\<lparr>hk_ring := r\<rparr>) fs t = index_ok k fs t" for r t by (simp add: index_ok_def)
  with assms(1) job k pending_job [OF k(2)] show "hybrid_inv n fs head (run_job wr j s)"
    by (cases i) (auto simp: run_job_def persist_func_def hybrid_inv_def)
  show "hybrid_view fs (run_job wr j s) = hybrid_view fs s" using job by (simp add: run_job_def persist_func_def hybrid_view_def)
  show "hybrid_bytes fs (run_job wr j s) = hybrid_bytes fs s" if "j = 0" "wr = write_full"
    using job that assms(2) by (cases "hy_jobs s") (simp_all add: run_job_def persist_func_def hybrid_bytes_def write_full_def)
qed

text \<open>The calls are answered as by a map; the log is in their order when the threads run in order.\<close>

definition answered :: "nat \<Rightarrow> call list \<Rightarrow> bool \<Rightarrow> ((bytes \<times> bytes) \<times> bytes) list \<Rightarrow> 'a hybrid \<Rightarrow> db_error option + (u32 \<times> 'a hybrid) \<times> bytes list \<Rightarrow> bool" where
  "answered n cls ordered fs s r \<longleftrightarrow> (\<exists>e. r = Inl (Some e)) \<or>
     (\<exists>head' s' fs' rs as. r = Inr ((head', s'), rs) \<and> hybrid_inv n fs' head' s' \<and>
        spec_run (map (Pair 0) cls) (hybrid_view fs s) = (hybrid_view fs' s', as) \<and>
        (ordered \<longrightarrow> hybrid_bytes fs' s' = hybrid_bytes fs s @ concat (map write_image cls)) \<and>
        list_all2 (\<lambda>(i, cl, a) r. reply_means cl a r) as rs)"

lemma answered_call:
  assumes "spec_call cl (hybrid_view fs s) = (hybrid_view fs' s', a)" "hybrid_bytes fs' s' = hybrid_bytes fs s @ write_image cl"
    "reply_means cl a r0" "answered n cls ordered fs' s' r"
  shows "answered n (cl # cls) ordered fs s (map_sum id (apsnd (Cons r0)) r)"
  using assms(4)
proof (unfold answered_def, elim disjE exE conjE)
  fix head' s'' fs'' rs as
  assume "r = Inr ((head', s''), rs)" "hybrid_inv n fs'' head' s''"
    "spec_run (map (Pair 0) cls) (hybrid_view fs' s') = (hybrid_view fs'' s'', as)"
    "ordered \<longrightarrow> hybrid_bytes fs'' s'' = hybrid_bytes fs' s' @ concat (map write_image cls)"
    "list_all2 (\<lambda>(i, cl, a) r. reply_means cl a r) as rs"
  with assms(1-3) show "(\<exists>e. map_sum id (apsnd (Cons r0)) r = Inl (Some e)) \<or>
     (\<exists>head' s' fs' rs as. map_sum id (apsnd (Cons r0)) r = Inr ((head', s'), rs) \<and> hybrid_inv n fs' head' s' \<and>
        spec_run (map (Pair 0) (cl # cls)) (hybrid_view fs s) = (hybrid_view fs' s', as) \<and>
        (ordered \<longrightarrow> hybrid_bytes fs' s' = hybrid_bytes fs s @ concat (map write_image (cl # cls))) \<and>
        list_all2 (\<lambda>(i, cl, a) r. reply_means cl a r) as rs)"
    by (intro disjI2 exI [of _ head'] exI [of _ s''] exI [of _ fs''] exI [of _ "r0 # rs"] exI [of _ "(0, cl, a) # as"]) simp
qed simp

lemma answered_weaken:
  assumes "answered n cls ordered fs u r" "hybrid_view fs u = hybrid_view fs s"
    "ordered' \<Longrightarrow> ordered \<and> hybrid_bytes fs u = hybrid_bytes fs s"
  shows "answered n cls ordered' fs s r"
  using assms unfolding answered_def by metis

lemma hybrid_run_ok:
  assumes "hybrid_inv (n + 2 * length (calls_of evs)) fs head s" "small_values vm (hybrid_view fs s)" "length stale = 7"
    "\<forall>cl\<in>set (calls_of evs). call_fits cl \<and> call_values vm cl \<and> \<not> is_delete cl" "sizeof_RequestReply + vm \<le> MAX_REQUEST"
  shows "answered n (calls_of evs) ((\<forall>j. Ev_job j \<in> set evs \<longrightarrow> j = 0) \<and> wr = write_full) fs s (hybrid_run ops wr stale 0 evs (head, s))"
  using assms(1,2,4)
proof (induction evs arbitrary: fs head s)
  case (Cons ev evs)
  show ?case
  proof (cases ev)
    case (Ev_job j)
    let ?s = "if j < length (hy_jobs s) then run_job wr j s else s"
    have s: "hybrid_inv (n + 2 * length (calls_of evs)) fs head ?s" "hybrid_view fs ?s = hybrid_view fs s"
      "j = 0 \<and> wr = write_full \<longrightarrow> hybrid_bytes fs ?s = hybrid_bytes fs s"
      using run_job_inv [of _ fs head s j wr] Cons.prems(1) Ev_job by auto
    have v: "small_values vm (hybrid_view fs ?s)" "\<forall>cl\<in>set (calls_of evs). call_fits cl \<and> call_values vm cl \<and> \<not> is_delete cl"
      using s(2) Cons.prems(2,3) Ev_job by simp_all
    show ?thesis unfolding Ev_job hybrid_run.simps calls_of.simps
      by (rule answered_weaken [OF Cons.IH [OF s(1) v] s(2)]) (use s(3) in auto)
  next
    case (Ev_call cl)
    have c: "call_fits cl" "call_values vm cl" "\<not> is_delete cl" using Cons.prems(3) Ev_call by simp_all
    have "hybrid_inv (Suc (Suc (n + 2 * length (calls_of evs)))) fs head s" using Cons.prems(1) Ev_call by simp
    from hybrid_call_ok [OF this Cons.prems(2) assms(3) c(1,3) assms(5), of wr] show ?thesis
    proof (elim disjE exE conjE)
      fix e assume "hybrid_call ops wr stale 0 cl (head, s) = Inl (Some e)"
      then show ?thesis using Ev_call by (simp add: answered_def)
    next
      fix head' s' fs' a
      assume h: "hybrid_call ops wr stale 0 cl (head, s) = Inr (head', s')" "hybrid_inv (n + 2 * length (calls_of evs)) fs' head' s'"
        "spec_call cl (hybrid_view fs s) = (hybrid_view fs' s', a)" "hybrid_bytes fs' s' = hybrid_bytes fs s @ write_image cl"
        "reply_means cl a (last (hk_replies (hy_clerks s' ! 0)))"
      have "small_values vm (hybrid_view fs' s')" using small_values_spec [OF Cons.prems(2) c(2)] h(3) by simp
      with answered_call [OF h(3-5) Cons.IH [OF h(2)]] Cons.prems(3) h(1) Ev_call show ?thesis by simp
    qed
  qed
qed (auto simp: answered_def)

text \<open>A delete reaches the store and not the pending writes.\<close>

lemma delete_round:
  assumes s: "hybrid_inv n fs head s" and l: "sizeof_Request + length key \<le> MAX_REQUEST"
  shows "\<exists>s'. asked ops wr 0 (ask_bytes (call_image (Call_delete key))) s = Inr s' \<and> hybrid_inv n fs head s' \<and>
    contents (hy_store s') = (contents (hy_store s))(key := None) \<and>
    last (hk_replies (hy_clerks s' ! 0)) = reply_image (if contents (hy_store s) key \<noteq> None then OK else NOTFOUND) []"
proof -
  obtain k where k: "hy_clerks s = [k]" "sync_buf_size \<le> length (hk_send k)" and d: "ok n (hy_store s)"
    using s by (auto simp: hybrid_inv_def)
  let ?r = "request_image DELETE key []" and ?st = "if contents (hy_store s) key \<noteq> None then OK else NOTFOUND"
  let ?s = "s\<lparr>hy_clerks := [ask_bytes ?r k]\<rparr>" and ?m = "set_header CLERK_DONE (hk_send (ask_bytes ?r k))"
  have len: "RING_HEADER + length ?r \<le> length (hk_send k)" using l k(2) by (simp add: sync_buf_size_def)
  have h: "holds ?r ?m" using asked_bytes [OF k(2) len] by (simp add: holds_def ask_bytes_def)
  have lm: "sync_buf_size \<le> length ?m" using length_asked(1) [OF k(2) len] k(2) by (simp add: ask_bytes_def)
  then have lr: "RING_HEADER + sizeof_RequestReply + length ([] :: bytes) \<le> length ?m"
    by (simp add: sync_buf_size_def sizeof_RequestReply_def MAX_REQUEST_def)
  obtain d' where d': "db_delete ops (hy_store s) key = Inr (d', contents (hy_store s) key \<noteq> None)" "ok n d'"
    "contents d' = (contents (hy_store s))(key := None)"
    using delete_ok [OF d] by blast
  have inv: "hybrid_inv n fs head (?s\<lparr>hy_store := d'\<rparr>)"
    using s k(1) length_asked(2) [OF k(2) len] d'(2) by (auto simp: hybrid_inv_def ask_bytes_def)
  have "mread ?m RING_HEADER (sizeof_Request + length key + length ([] :: bytes)) = ?r" using h by (simp add: holds_def)
  then have "get_op RING_HEADER ?m = Some DELETE" by (rule request_fields) (use l in \<open>simp_all add: sizeof_Request_def MAX_REQUEST_def\<close>)
  then have a: "asked ops wr 0 (ask_bytes (call_image (Call_delete key))) s =
      round_result (hybrid_reply 0 (mwrite ?m RING_HEADER (reply_image ?st [])) (?s\<lparr>hy_store := d'\<rparr>))"
    using k(1) key_request [OF h lm l] d'(1) lr by (simp add: asked_def HybridClerk_round_def hybrid_delete_def lay_out_reply_0)
  have "sync_buf_size \<le> length (mwrite ?m RING_HEADER (reply_image ?st []))" using lm lr by simp
  from hybrid_reply_inv [OF inv this] a d'(3) reply_bytes [OF lr, of ?st] show ?thesis by (auto simp: round_result_def)
qed

end

end
