(* ===== verification/Hybrid_Props.thy ===== *)
theory Hybrid_Props
  imports Hybrid_Map
begin

text \<open>
  The properties of the hybrid front end: where it answers like a map and where it does not, what
  reaches its log, what its client posts, and the slots of its server.
\<close>

unbundle bit_operations_syntax

section \<open>Properties\<close>

text \<open>A server with one clerk that has just started.\<close>

definition hybrid_fresh :: "'d hybrid \<Rightarrow> bool" where
  "hybrid_fresh s \<longleftrightarrow> hy_jobs s = [] \<and> hy_log s = [] \<and> cuckoo_invar (hy_index s) \<and> cuckoo_lookup (hy_index s) = Map.empty \<and>
     (\<exists>k. hy_clerks s = [k] \<and> hk_tail k = of_nat RING_HEADER \<and> hk_keys k = [] \<and> hk_idxs k = [] \<and> hk_len k = 0 \<and>
        length (hk_ring k) = MAX_ASYNC_SIZE \<and> sync_buf_size \<le> length (hk_send k))"

lemma hybrid_fresh_inv:
  assumes "hybrid_fresh s" "bitcask_ok n (hy_store s)"
  shows "bcb.hybrid_inv n [] (of_nat RING_HEADER) s" "bcb.hybrid_view [] s = db_map (hy_store s)" "bcb.hybrid_bytes [] s = []"
proof -
  obtain k where k: "hy_clerks s = [k]" "hk_tail k = of_nat RING_HEADER" "hk_keys k = []" "hk_idxs k = []" "hk_len k = 0"
    "length (hk_ring k) = MAX_ASYNC_SIZE" "sync_buf_size \<le> length (hk_send k)"
    using assms(1) by (auto simp: hybrid_fresh_def)
  have "pending k []" by (rule pending_empty) (use k in \<open>simp_all add: RING_HEADER_def MAX_ASYNC_SIZE_def\<close>)
  with k assms show "bcb.hybrid_inv n [] (of_nat RING_HEADER) s"
    by (simp add: bcb.hybrid_inv_def hybrid_fresh_def index_ok_def BATCH_SIZE_def)
qed (use assms in \<open>simp_all add: bcb.hybrid_view_def bcb.hybrid_bytes_def hybrid_fresh_def\<close>)

lemma hybrid_fresh_run:
  assumes "pwrite_ok pw" "hybrid_fresh s" "bitcask_ok (2 * length (calls_of evs)) (hy_store s)"
    "small_values pmem_val_max (db_map (hy_store s))" "length stale = 7"
    "\<forall>cl\<in>set (calls_of evs). hybrid_fits cl \<and> call_values pmem_val_max cl \<and> \<not> is_delete cl"
  shows "bcb.answered 0 (calls_of evs) ((\<forall>j. Ev_job j \<in> set evs \<longrightarrow> j = 0) \<and> wr = write_full) [] s
    (hybrid_run (BitCask pw mem) wr stale 0 evs (of_nat RING_HEADER, s))"
proof -
  have pw: "pw = append_pwrite" using assms(1) by (simp add: pwrite_ok_append)
  have v: "sizeof_RequestReply + pmem_val_max \<le> MAX_REQUEST"
    by (simp add: pmem_val_max_def sizeof_RequestReply_def MAX_REQUEST_def MAX_INLINE_SIZE_def)
  have "bcb.hybrid_inv (0 + 2 * length (calls_of evs)) [] (of_nat RING_HEADER) s" using hybrid_fresh_inv(1) [OF assms(2,3)] by simp
  moreover have "small_values pmem_val_max (bcb.hybrid_view [] s)" using hybrid_fresh_inv(2) [OF assms(2,3)] assms(4) by simp
  moreover have "\<forall>cl\<in>set (calls_of evs). call_fits cl \<and> call_values pmem_val_max cl \<and> \<not> is_delete cl"
    using assms(6) hybrid_fits_call_fits by blast
  ultimately show ?thesis unfolding pw by (rule bcb.hybrid_run_ok [OF _ _ assms(5) _ v])
qed



text \<open>A server to apply the properties to.\<close>

definition sample_hybrid_clerk :: hybrid_clerk where
  "sample_hybrid_clerk =
     \<lparr>hk_send = replicate 16384 0, hk_ring = replicate MAX_ASYNC_SIZE 0, hk_addr = 4096, hk_tail = of_nat RING_HEADER,
      hk_keys = [], hk_idxs = [], hk_len = 0, hk_replies = []\<rparr>"

definition sample_hybrid :: "'d \<Rightarrow> 'd hybrid" where
  "sample_hybrid d =
     \<lparr>hy_clerks = [sample_hybrid_clerk], hy_index = cuckoohash_map 40 0 (\<lambda>_. 0), hy_store = d, hy_jobs = [], hy_log = []\<rparr>"

lemma sample_hybrid_fresh: "hybrid_fresh (sample_hybrid d)"
  by (simp add: hybrid_fresh_def sample_hybrid_def sample_hybrid_clerk_def new_map reserve_calc_0 sync_buf_size_def MAX_REQUEST_def RING_HEADER_def)

definition sample_events :: "hybrid_event list" where
  "sample_events = [Ev_call (Call_put [1] [2]), Ev_job 0, Ev_call (Call_get [1]), Ev_call Call_sync]"

lemma sample_events:
  "calls_of sample_events = [Call_put [1] [2], Call_get [1], Call_sync]"
  "\<forall>cl\<in>set (calls_of sample_events). hybrid_fits cl \<and> call_values pmem_val_max cl \<and> \<not> is_delete cl"
  "\<forall>j. Ev_job j \<in> set sample_events \<longrightarrow> j = 0"
  by (simp_all add: sample_events_def hybrid_fits_def RING_HEADER_def sizeof_Request_def MAX_REQUEST_def pmem_val_max_def MAX_INLINE_SIZE_def sizeof_RequestReply_def)






text \<open>A clerk with one pending write.\<close>

definition sample_pending :: hybrid_clerk where
  "sample_pending = sample_hybrid_clerk\<lparr>hk_ring := mwrite (replicate MAX_ASYNC_SIZE 0) 8 (request_image PUT [1] [2]),
     hk_keys := [[1]], hk_len := 10, hk_idxs := [file_Index 0 8 1 1]\<rparr>"

lemma sample_pending: "pending sample_pending [(([1], [2]), request_image PUT [1] [2])]"
proof -
  have "pending sample_hybrid_clerk []" by (rule pending_empty) (simp_all add: sample_hybrid_clerk_def RING_HEADER_def MAX_ASYNC_SIZE_def)
  then have "pending sample_pending ([] @ [(([1], [2]), request_image PUT [1] [2])])"
    by (rule pending_snoc) (simp_all add: sample_pending_def sample_hybrid_clerk_def RING_HEADER_def MAX_ASYNC_SIZE_def sizeof_Request_def)
  then show ?thesis by simp
qed


text \<open>The leading zeros of a word.\<close>

lemma clz_from_spec:
  "clz_from n w \<le> n \<and> (\<forall>m. n - clz_from n w \<le> m \<and> m < n \<longrightarrow> \<not> bit w m) \<and> (clz_from n w < n \<longrightarrow> bit w (n - Suc (clz_from n w)))"
proof (induction n)
  case (Suc n)
  show ?case
  proof (cases "bit w n")
    case False
    have "\<not> bit w m" if "n - clz_from n w \<le> m" "m < Suc n" for m
      using that False Suc by (cases "m = n") auto
    with False Suc show ?thesis by auto
  qed auto
qed simp

text \<open>
  The buffers of the hybrid server in device memory. A connection is given a slot that is inside
  the device memory and that no other connection has, only the bit of that slot changes, and
  clearing it at the end of the connection restores the bitmap; it goes to the heap only when
  every slot is taken.
\<close>

theorem take_slot_free:
  assumes "take_slot bitmap = (bitmap', r)"
  shows "case r of
      None \<Rightarrow> bitmap' = bitmap \<and> (\<forall>slot < MAX_DMABUF_SIZE div MAX_ASYNC_SIZE. bit bitmap (63 - slot))
    | Some slot \<Rightarrow> MAX_ASYNC_SIZE * slot + MAX_ASYNC_SIZE \<le> MAX_DMABUF_SIZE \<and> \<not> bit bitmap (63 - slot) \<and>
        (\<forall>n. bit bitmap' n \<longleftrightarrow> bit bitmap n \<or> n = 63 - slot) \<and> clear_slot slot bitmap' = bitmap"
proof -
  let ?z = "clz_from 64 (NOT bitmap)"
  have z: "\<not> bit (NOT bitmap) m" if "64 - ?z \<le> m" "m < 64" for m using clz_from_spec [of 64 "NOT bitmap"] that by blast
  have z1: "bit (NOT bitmap) (64 - Suc ?z)" if "?z < 64" using clz_from_spec [of 64 "NOT bitmap"] that by blast
  have n: "MAX_DMABUF_SIZE div MAX_ASYNC_SIZE = 32" by (simp add: MAX_DMABUF_SIZE_def MAX_ASYNC_SIZE_def)
  show ?thesis
  proof (cases "?z < 32")
    case True
    then have r: "r = Some ?z" "bitmap' = bitmap + push_bit (63 - ?z) 1" using assms n by (auto simp: take_slot_def Let_def)
    have "bit (NOT bitmap) (63 - ?z)" using z1 True by simp
    then have nb: "\<not> bit bitmap (63 - ?z)" by (simp add: bit_simps)
    have "bitmap + push_bit (63 - ?z) 1 = bitmap OR push_bit (63 - ?z) 1"
      by (rule disjunctive_add) (use nb in \<open>auto simp: bit_simps\<close>)
    then have "bit bitmap' n \<longleftrightarrow> bit bitmap n \<or> n = 63 - ?z" for n
      unfolding r(2) by (auto simp: bit_simps)
    with r nb True show ?thesis by (simp add: clear_slot_def MAX_DMABUF_SIZE_def MAX_ASYNC_SIZE_def)
  next
    case False
    then have r: "r = None" "bitmap' = bitmap" using assms n by (auto simp: take_slot_def Let_def)
    have "bit bitmap (63 - slot)" if "slot < 32" for slot
    proof -
      have "\<not> bit (NOT bitmap) (63 - slot)" by (rule z) (use False that in linarith)+
      then show ?thesis by (simp add: bit_simps)
    qed
    with r n show ?thesis by simp
  qed
qed

theorem take_slot_free_witness:
  "take_slot 0 = (2 ^ 63, Some 0) \<and> (\<forall>n. bit (2 ^ 63 :: u64) n \<longleftrightarrow> bit (0 :: u64) n \<or> n = 63 - 0) \<and> clear_slot 0 (2 ^ 63) = 0"
proof -
  have "clz_from 64 (- 1) = 0" using clz_from.simps(2) [of 63 "- 1"] by simp
  then have "take_slot 0 = (2 ^ 63, Some 0)" by (simp add: take_slot_def MAX_DMABUF_SIZE_def MAX_ASYNC_SIZE_def)
  with take_slot_free [OF this] show ?thesis by simp
qed

definition hybrid_sent :: "bytes \<Rightarrow> nat \<Rightarrow> hybrid_client \<Rightarrow> host" where
  "hybrid_sent img n c = (let h = laid_out img (hc_host c) in h\<lparr>send_queue :=
     [queued h (wr_ws h n RING_HEADER RING_HEADER False), queued h (wr_ww h (length img) RING_HEADER (unat (hc_head c)) False),
      queued h (wr_ws h 4 0 0 True)]\<rparr>)"

lemma HybridClient_write_sent:
  assumes v: "verbs_ok v" "send_queue (hc_host c) = []" "length (write_mem (hc_host c)) = MAX_REQUEST"
    and f: "0 \<notin> set key" "0 \<notin> set val" "RING_HEADER + sizeof_Request + (length key + length val) \<le> MAX_REQUEST"
  shows "HybridClient_write v key val opr c =
    Some \<lparr>hc_host = hybrid_sent (request_image opr key val) (8 + length key) c, hc_head = hc_head c + of_nat (8 + (length key + length val))\<rparr>"
proof -
  let ?img = "request_image opr key val" and ?n = "8 + (length key + length val)"
  have b: "length key \<le> 8192" "length val \<le> 8192" "?n \<le> 8192" "8 + length key \<le> 8192"
    "RING_HEADER + sizeof_Request + length key + length val \<le> length (write_mem (hc_host c))"
    using f(3) v(3) by (simp_all add: sizeof_Request_def MAX_REQUEST_def RING_HEADER_def)
  have wl: "write_len key val = of_nat ?n"
    using f(1,2) u16_exact [OF b(1)] u16_exact [OF b(2)] by (simp add: write_len_def sizeof_Request_def)
  show ?thesis
    unfolding HybridClient_write_def Let_def hybrid_sent_def wl
    using f(1,2) b(5) lay_out_request [OF b(5), of opr] v
    by (simp add: u16_exact [OF b(1)] u16_exact [OF b(2)] u16_exact [OF b(3)] u16_exact [OF b(4)] ucast_of_nat_u16 [OF b(2)]
        ucast_of_nat_u16 [OF b(3)] laid_out_def post_write_queues MAX_QP_DEPTH_def
        set_op_def set_key_size_def set_val_size_def sizeof_Request_def add.assoc del: of_nat_add)
qed

text \<open>
  A write of the hybrid client. Of the three writes it posts, the second puts the whole request
  into the ring at the client's head while the clerk's header word is still what it was; when
  the third has been executed the clerk's buffers hold the request as the clerk expects it.
\<close>

theorem hybrid_write_arrives:
  assumes "verbs_ok v \<and> host_ok (hc_host c) \<and> host_ok k \<and> knows (hc_host c) k \<and> length (write_mem (hc_host c)) = MAX_REQUEST \<and>
      sync_buf_size \<le> length (send_mem k)" "send_queue (hc_host c) = []" "out_cq (hc_host c) = []"
    "header (write_mem (hc_host c)) = CLIENT_DONE" "hybrid_fits (Call_put key val)"
    "unat (hc_head c) + (8 + (length key + length val)) \<le> length (write_mem k)" "hk_send kk = send_mem k" "hk_ring kk = write_mem k"
  shows "\<exists>c' a1 k1 a2 k2 a3 k3. HybridClient_write v key val opr c = Some c' \<and>
    execute v (hc_host c') k = (a1, k1) \<and> execute v a1 k1 = (a2, k2) \<and> execute v a2 k2 = (a3, k3) \<and>
    header (send_mem k2) = header (send_mem k) \<and> write_mem k2 = hk_ring (ask_write opr key val (hc_head c) kk) \<and>
    write_mem k3 = write_mem k2 \<and> send_mem k3 = hk_send (ask_write opr key val (hc_head c) kk) \<and>
    send_queue a3 = [] \<and> out_cq a3 = [True] \<and> hc_head c' = hc_head c + of_nat (8 + (length key + length val))"
proof -
  let ?img = "request_image opr key val" and ?N = "8 + (length key + length val)" and ?n = "8 + length key" and ?p = "unat (hc_head c)"
  have f: "0 \<notin> set key" "0 \<notin> set val" "RING_HEADER + sizeof_Request + (length key + length val) \<le> MAX_REQUEST"
    using assms(5) by (auto simp: hybrid_fits_def)
  have l: "verbs_ok v" "host_ok (hc_host c)" "host_ok k" "knows (hc_host c) k" "length (write_mem (hc_host c)) = MAX_REQUEST"
    "sync_buf_size \<le> length (send_mem k)" using assms(1) by auto
  have n: "length ?img = ?N" "RING_HEADER + ?N \<le> MAX_REQUEST" using f(3) by (simp_all add: sizeof_Request_def)
  let ?h = "laid_out ?img (hc_host c)"
  have m: "length (mwrite (write_mem (hc_host c)) RING_HEADER ?img) = length (write_mem (hc_host c))" using n l(5) by simp
  have h: "host_ok ?h" "knows ?h k" "length (write_mem ?h) = MAX_REQUEST" "out_cq ?h = []" "mread (write_mem ?h) RING_HEADER ?N = ?img"
    using l m n assms(3) by (simp_all add: laid_out_def host_ok_mem mread_mwrite_same RING_HEADER_def MAX_REQUEST_def)
  have meta: "mread (write_mem ?h) RING_HEADER ?n = take ?n ?img" using h(5) mread_mread [of 0 ?n ?N "write_mem ?h" RING_HEADER] by (simp add: mread_def)
  have "RING_HEADER \<le> length (write_mem (hc_host c))" using l(5) n by linarith
  then have hh: "header (write_mem ?h) = CLIENT_DONE" using assms(4) by (simp add: laid_out_def)
  let ?q2 = "queued ?h (wr_ww ?h ?N RING_HEADER ?p False)" and ?q3 = "queued ?h (wr_ws ?h 4 0 0 True)"
  let ?k1 = "k\<lparr>send_mem := mwrite (send_mem k) RING_HEADER (take ?n ?img)\<rparr>"
  have lk: "RING_HEADER + ?n \<le> length (send_mem k)" "4 \<le> length (send_mem k)" "RING_HEADER \<le> length (send_mem k)"
    using n l(6) by (auto simp: sync_buf_size_def MAX_REQUEST_def RING_HEADER_def)
  have k1: "host_ok ?k1" using l(3) lk n by (simp add: host_ok_mem)
  have e1: "execute v (hybrid_sent ?img ?n c) k = (?h\<lparr>send_queue := [?q2, ?q3], out_cq := []\<rparr>, ?k1)"
    using execute_ws [of v "hybrid_sent ?img ?n c" k ?n RING_HEADER RING_HEADER False "[?q2, ?q3]"] l h n lk meta
    by (simp add: hybrid_sent_def Let_def sizeof_Request_def add.assoc)
  let ?k2 = "?k1\<lparr>write_mem := mwrite (write_mem k) ?p ?img\<rparr>" and ?a1 = "?h\<lparr>send_queue := [?q2, ?q3], out_cq := []\<rparr>"
  have e2: "execute v ?a1 ?k1 = (?h\<lparr>send_queue := [?q3], out_cq := []\<rparr>, ?k2)"
    using execute_ww [of v ?a1 ?k1 ?N RING_HEADER ?p False "[?q3]"] l h n k1 assms(6) by simp
  have k2: "host_ok ?k2" using k1 assms(6) n by (simp add: host_ok_mem)
  let ?a2 = "?h\<lparr>send_queue := [?q3], out_cq := []\<rparr>"
  have "mread (write_mem ?h) 0 4 = le32 CLIENT_DONE" using hh h(3) le32_un_le32 [of "mread (write_mem ?h) 0 4"]
    by (simp add: header_def MAX_REQUEST_def)
  then have e3: "execute v ?a2 ?k2 = (?h\<lparr>send_queue := [], out_cq := [True]\<rparr>, ?k2\<lparr>send_mem := set_header CLIENT_DONE (send_mem ?k2)\<rparr>)"
    using execute_ws [of v ?a2 ?k2 4 0 0 True "[]"] l h n k2 lk by (simp add: MAX_REQUEST_def set_header_def)
  show ?thesis
  proof (intro exI conjI)
    show "HybridClient_write v key val opr c = Some \<lparr>hc_host = hybrid_sent ?img ?n c, hc_head = hc_head c + of_nat ?N\<rparr>"
      by (rule HybridClient_write_sent [OF l(1) assms(2) l(5) f])
    show "execute v (hc_host \<lparr>hc_host = hybrid_sent ?img ?n c, hc_head = hc_head c + of_nat ?N\<rparr>) k = (?a1, ?k1)" using e1 by simp
    show "execute v ?a1 ?k1 = (?a2, ?k2)" by (rule e2)
    show "execute v ?a2 ?k2 = (?h\<lparr>send_queue := [], out_cq := [True]\<rparr>, ?k2\<lparr>send_mem := set_header CLIENT_DONE (send_mem ?k2)\<rparr>)"
      by (rule e3)
  qed (use lk assms(7,8) in \<open>simp_all add: ask_write_def sizeof_Request_def\<close>)
qed

theorem hybrid_write_arrives_witness:
  "\<exists>c k c' a1 k1 a2 k2. HybridClient_write rc_verbs [1] [2] PUT c = Some c' \<and>
    execute rc_verbs (hc_host c') k = (a1, k1) \<and> execute rc_verbs a1 k1 = (a2, k2) \<and>
    header (send_mem k2) = header (send_mem k) \<and> write_mem k2 = mwrite (replicate MAX_ASYNC_SIZE 0) 8 (request_image PUT [1] [2])"
proof -
  have len: "length (set_header CLIENT_DONE (replicate MAX_REQUEST 0)) < 2 ^ 32" "length (replicate MAX_ASYNC_SIZE (0 :: byte)) < 2 ^ 32"
    by (simp_all only: length_replicate length_set_header MAX_ASYNC_SIZE_def MAX_REQUEST_def) simp_all
  obtain a b where ab: "host_ok a" "host_ok b" "knows a b" "knows b a"
    "write_mem a = set_header CLIENT_DONE (replicate MAX_REQUEST 0)" "write_mem b = replicate MAX_ASYNC_SIZE 0" "send_mem b = replicate 16384 0"
    "send_queue a = []" "out_cq a = []"
    using sample_peers [OF len] by blast
  let ?c = "\<lparr>hc_host = a, hc_head = of_nat RING_HEADER\<rparr>" and ?kk = "sample_hybrid_clerk\<lparr>hk_send := send_mem b, hk_ring := write_mem b\<rparr>"
  have h: "header (set_header CLIENT_DONE (replicate MAX_REQUEST 0)) = CLIENT_DONE" by (simp add: MAX_REQUEST_def)
  have "verbs_ok rc_verbs \<and> host_ok (hc_host ?c) \<and> host_ok b \<and> knows (hc_host ?c) b \<and> length (write_mem (hc_host ?c)) = MAX_REQUEST \<and>
      sync_buf_size \<le> length (send_mem b)" "send_queue (hc_host ?c) = []" "out_cq (hc_host ?c) = []"
    "header (write_mem (hc_host ?c)) = CLIENT_DONE" "hybrid_fits (Call_put [1] [2])"
    "unat (hc_head ?c) + (8 + (length [1 :: byte] + length [2 :: byte])) \<le> length (write_mem b)" "hk_send ?kk = send_mem b" "hk_ring ?kk = write_mem b"
    using ab rc_verbs_ok h
    by (simp_all add: sync_buf_size_def MAX_REQUEST_def RING_HEADER_def hybrid_fits_def sizeof_Request_def MAX_ASYNC_SIZE_def)
  from hybrid_write_arrives [OF this, of PUT]
  obtain c' a1 k1 a2 k2 where "HybridClient_write rc_verbs [1] [2] PUT ?c = Some c'" "execute rc_verbs (hc_host c') b = (a1, k1)"
    "execute rc_verbs a1 k1 = (a2, k2)" "header (send_mem k2) = header (send_mem b)"
    "write_mem k2 = hk_ring (ask_write PUT [1] [2] (of_nat RING_HEADER) ?kk)"
    by auto
  moreover have "hk_ring (ask_write PUT [1] [2] (of_nat RING_HEADER) ?kk) = mwrite (replicate MAX_ASYNC_SIZE 0) 8 (request_image PUT [1] [2])"
    using ab(6) by (simp add: ask_write_def RING_HEADER_def)
  ultimately show ?thesis by metis
qed





end
