(* ===== verification/Intset.thy ===== *)
theory Intset
  imports Prelude
begin

text \<open>
  The integer sets of Redis, \<^verbatim>\<open>redis/src/intset.c\<close>: a sorted array of 16, 32 or 64 bit integers in one
  block of memory, all with the width the widest of them needs. A block is the two words of its
  header and the bytes behind it; \<open>None\<close> is an access outside the block. The machine is
  little-endian, as the blocks are.
\<close>

section \<open>Definitions\<close>

text \<open>Signed integers as bytes: storing cuts off what does not fit, reading extends the sign.\<close>

definition senc :: "nat \<Rightarrow> int \<Rightarrow> bytes" where
  "senc w v = le_bytes w (nat (v mod 2 ^ (8 * w)))"

definition sdec :: "nat \<Rightarrow> bytes \<Rightarrow> int" where
  "sdec w bs = (let u = int (le_val bs) in if u < 2 ^ (8 * w - 1) then u else u - 2 ^ (8 * w))"

record intset =
  is_encoding :: u32
  is_length :: u32
  is_contents :: bytes

definition INTSET_ENC_INT16 :: nat where
  "INTSET_ENC_INT16 = 2"

definition INTSET_ENC_INT32 :: nat where
  "INTSET_ENC_INT32 = 4"

definition INTSET_ENC_INT64 :: nat where
  "INTSET_ENC_INT64 = 8"

definition intsetValueEncoding :: "int \<Rightarrow> nat" where
  "intsetValueEncoding v =
     (if v < - (2 ^ 31) \<or> v > 2 ^ 31 - 1 then INTSET_ENC_INT64
      else if v < - (2 ^ 15) \<or> v > 2 ^ 15 - 1 then INTSET_ENC_INT32
      else INTSET_ENC_INT16)"

text \<open>The width in which an encoding is read and written.\<close>

definition enc_width :: "nat \<Rightarrow> nat" where
  "enc_width enc = (if enc = INTSET_ENC_INT64 then 8 else if enc = INTSET_ENC_INT32 then 4 else 2)"

definition intsetGetEncoded :: "intset \<Rightarrow> int \<Rightarrow> nat \<Rightarrow> int option" where
  "intsetGetEncoded s pos enc =
     (if pos < 0 then None
      else map_option (sdec (enc_width enc)) (load (is_contents s) (nat pos * enc_width enc) (enc_width enc)))"

definition intsetGet0 :: "intset \<Rightarrow> int \<Rightarrow> int option" where
  "intsetGet0 s pos = intsetGetEncoded s pos (unat (is_encoding s) mod 256)"

definition intsetSet :: "intset \<Rightarrow> int \<Rightarrow> int \<Rightarrow> intset option" where
  "intsetSet s pos v =
     (let w = enc_width (unat (is_encoding s))
      in if pos < 0 then None
         else map_option (\<lambda>m. s\<lparr>is_contents := m\<rparr>) (memcpy (is_contents s) (nat pos * w) (senc w v)))"

definition intsetNew :: intset where
  "intsetNew = \<lparr>is_encoding = of_nat INTSET_ENC_INT16, is_length = 0, is_contents = []\<rparr>"

text \<open>\<^verbatim>\<open>realloc\<close> keeps what fits; \<open>junk\<close> is what the new bytes at an offset happen to be.\<close>

definition intsetResize :: "(nat \<Rightarrow> byte) \<Rightarrow> intset \<Rightarrow> u32 \<Rightarrow> intset" where
  "intsetResize junk s len =
     (let size = unat len * unat (is_encoding s)
      in s\<lparr>is_contents := take size (is_contents s) @ map junk [length (is_contents s)..<size]\<rparr>)"

text \<open>The loop of \<^verbatim>\<open>intsetSearch\<close>; the middle is computed in unsigned arithmetic.\<close>

partial_function (option) search_loop :: "intset \<Rightarrow> int \<Rightarrow> int \<Rightarrow> int \<Rightarrow> int \<Rightarrow> int \<Rightarrow> (int \<times> int \<times> int) option" where
  "search_loop s v mn mx mid cur =
     (if mx \<ge> mn
      then let mid = uint (drop_bit 1 (word_of_int mn + word_of_int mx :: u32))
           in (case intsetGet0 s mid of
                 None \<Rightarrow> None
               | Some cur \<Rightarrow>
                   if v > cur then search_loop s v (mid + 1) mx mid cur
                   else if v < cur then search_loop s v mn (mid - 1) mid cur
                   else Some (mn, mid, cur))
      else Some (mn, mid, cur))"

definition intsetSearch :: "intset \<Rightarrow> int \<Rightarrow> (bool \<times> u32) option" where
  "intsetSearch s v =
     (let mx = sint (is_length s - 1)
      in if is_length s = 0 then Some (False, 0)
         else do {
           last \<leftarrow> intsetGet0 s mx;
           if v > last then Some (False, is_length s)
           else do {
             first \<leftarrow> intsetGet0 s 0;
             if v < first then Some (False, 0)
             else do {
               (mn, mid, cur) \<leftarrow> search_loop s v 0 mx (-1) (-1);
               if v = cur then Some (True, of_int mid) else Some (False, of_int mn) } } })"

text \<open>
  The loop of \<^verbatim>\<open>intsetUpgradeAndAdd\<close>, back to front. The length is an \<^verbatim>\<open>int\<close> there: with a negative one
  the loop would start before the block.
\<close>

fun upgrade_loop :: "nat \<Rightarrow> int \<Rightarrow> nat \<Rightarrow> intset \<Rightarrow> intset option" where
  "upgrade_loop curenc prepend 0 s = Some s"
| "upgrade_loop curenc prepend (Suc n) s =
     do {
       v \<leftarrow> intsetGetEncoded s (int n) curenc;
       s \<leftarrow> intsetSet s (int n + prepend) v;
       upgrade_loop curenc prepend n s }"

definition intsetUpgradeAndAdd :: "(nat \<Rightarrow> byte) \<Rightarrow> intset \<Rightarrow> int \<Rightarrow> intset option" where
  "intsetUpgradeAndAdd junk s v =
     (let curenc = unat (is_encoding s) mod 256;
          newenc = intsetValueEncoding v;
          prepend = (if v < 0 then 1 else 0);
          s = intsetResize junk (s\<lparr>is_encoding := of_nat newenc\<rparr>) (is_length s + 1)
      in do {
           s \<leftarrow> (if sint (is_length s) < 0 then None else upgrade_loop curenc prepend (nat (sint (is_length s))) s);
           s \<leftarrow> (if prepend = 1 then intsetSet s 0 v else intsetSet s (sint (is_length s)) v);
           Some (s\<lparr>is_length := is_length s + 1\<rparr>) })"

definition intsetMoveTail :: "intset \<Rightarrow> u32 \<Rightarrow> u32 \<Rightarrow> intset option" where
  "intsetMoveTail s src dst =
     (let w = enc_width (unat (is_encoding s));
          bytes = (is_length s - src) * of_nat w
      in do {
           d \<leftarrow> load (is_contents s) (unat src * w) (unat bytes);
           m \<leftarrow> memcpy (is_contents s) (unat dst * w) d;
           Some (s\<lparr>is_contents := m\<rparr>) })"

definition intsetAdd :: "(nat \<Rightarrow> byte) \<Rightarrow> intset \<Rightarrow> int \<Rightarrow> (intset \<times> bool) option" where
  "intsetAdd junk s v =
     (if intsetValueEncoding v > unat (is_encoding s)
      then map_option (\<lambda>s. (s, True)) (intsetUpgradeAndAdd junk s v)
      else do {
        (found, pos) \<leftarrow> intsetSearch s v;
        if found then Some (s, False)
        else do {
          let s = intsetResize junk s (is_length s + 1);
          s \<leftarrow> (if pos < is_length s then intsetMoveTail s pos (pos + 1) else Some s);
          s \<leftarrow> intsetSet s (sint pos) v;
          Some (s\<lparr>is_length := is_length s + 1\<rparr>, True) } })"

definition intsetRemove :: "(nat \<Rightarrow> byte) \<Rightarrow> intset \<Rightarrow> int \<Rightarrow> (intset \<times> bool) option" where
  "intsetRemove junk s v =
     (if intsetValueEncoding v \<le> unat (is_encoding s)
      then do {
        (found, pos) \<leftarrow> intsetSearch s v;
        if found
        then do {
          let len = is_length s;
          s \<leftarrow> (if pos < len - 1 then intsetMoveTail s (pos + 1) pos else Some s);
          let s = intsetResize junk s (len - 1);
          Some (s\<lparr>is_length := len - 1\<rparr>, True) }
        else Some (s, False) }
      else Some (s, False))"

definition intsetFind :: "intset \<Rightarrow> int \<Rightarrow> bool option" where
  "intsetFind s v =
     (if intsetValueEncoding v \<le> unat (is_encoding s) then map_option fst (intsetSearch s v) else Some False)"

definition intsetRandom :: "nat \<Rightarrow> intset \<Rightarrow> int option" where
  "intsetRandom r s = (if is_length s = 0 then None else intsetGet0 s (int (r mod unat (is_length s))))"

definition intsetMax :: "intset \<Rightarrow> int option" where
  "intsetMax s = intsetGet0 s (sint (is_length s - 1))"

definition intsetMin :: "intset \<Rightarrow> int option" where
  "intsetMin s = intsetGet0 s 0"

definition intsetGet :: "intset \<Rightarrow> u32 \<Rightarrow> int option option" where
  "intsetGet s pos = (if pos < is_length s then map_option Some (intsetGet0 s (sint pos)) else Some None)"

definition intsetLen :: "intset \<Rightarrow> u32" where
  "intsetLen s = is_length s"

definition intsetBlobLen :: "intset \<Rightarrow> nat" where
  "intsetBlobLen s = 8 + unat (is_length s) * unat (is_encoding s)"

text \<open>\<open>p\<close> is the payload read back from a dump; its header overlays the first bytes. Positions are \<^verbatim>\<open>int\<close>s.\<close>

fun validate_loop :: "intset \<Rightarrow> int \<Rightarrow> nat \<Rightarrow> nat \<Rightarrow> bool option" where
  "validate_loop s prev i 0 = Some True"
| "validate_loop s prev i (Suc n) =
     do {
       cur \<leftarrow> intsetGet0 s (sint (of_nat i :: u32));
       if cur \<le> prev then Some False else validate_loop s cur (Suc i) n }"

definition blob_intset :: "bytes \<Rightarrow> intset" where
  "blob_intset p = \<lparr>is_encoding = un_le32 (mread p 0 4), is_length = un_le32 (mread p 4 4), is_contents = drop 8 p\<rparr>"

definition intsetValidateIntegrity :: "bytes \<Rightarrow> bool \<Rightarrow> bool option" where
  "intsetValidateIntegrity p deep =
     (let s = blob_intset p; enc = unat (is_encoding s); count = unat (is_length s)
      in if length p < 8 then Some False
         else if enc \<noteq> INTSET_ENC_INT64 \<and> enc \<noteq> INTSET_ENC_INT32 \<and> enc \<noteq> INTSET_ENC_INT16 then Some False
         else if 8 + count * enc \<noteq> length p then Some False
         else if count = 0 then Some False
         else if \<not> deep then Some True
         else do {
           prev \<leftarrow> intsetGet0 s 0;
           validate_loop s prev 1 (count - 1) })"

section \<open>The bytes of a set\<close>

definition fits_enc :: "nat \<Rightarrow> int \<Rightarrow> bool" where
  "fits_enc w v \<longleftrightarrow> - (2 ^ (8 * w - 1)) \<le> v \<and> v < 2 ^ (8 * w - 1)"

lemma length_senc [simp]: "length (senc w v) = w"
  by (simp add: senc_def)

lemma sdec_senc:
  assumes "fits_enc w v" "0 < w"
  shows "sdec w (senc w v) = v"
proof -
  let ?M = "2 ^ (8 * w) :: int" and ?H = "2 ^ (8 * w - 1) :: int"
  have M: "?M = 2 * ?H" using assms(2) by (simp flip: power_Suc)
  have v: "- ?H \<le> v" "v < ?H" using assms(1) by (simp_all add: fits_enc_def)
  have "v mod ?M = (if 0 \<le> v then v else v + ?M)"
  proof (cases "0 \<le> v")
    case True
    then show ?thesis using v M by simp
  next
    case False
    have "(v + ?M) mod ?M = v + ?M" using False v M by (intro mod_pos_pos_trivial) simp_all
    then show ?thesis using False by simp
  qed
  moreover have "int (le_val (senc w v)) = v mod ?M"
    by (simp add: senc_def le_val_le_bytes power_mult of_nat_mod)
  ultimately show ?thesis using v M by (auto simp: sdec_def Let_def)
qed

lemma sdec_fits: "length bs = w \<Longrightarrow> 0 < w \<Longrightarrow> fits_enc w (sdec w bs)"
proof -
  assume l: "length bs = w" "0 < w"
  have "int (le_val bs) < int (256 ^ w)" using le_val_bound [of bs] l by simp
  then have "int (le_val bs) < 2 ^ (8 * w)" by (simp add: power_mult)
  moreover have "(2 :: int) ^ (8 * w) = 2 * 2 ^ (8 * w - 1)" using l(2) by (simp flip: power_Suc)
  ultimately show ?thesis by (auto simp: fits_enc_def sdec_def Let_def)
qed

lemma senc_sdec: "length bs = w \<Longrightarrow> 0 < w \<Longrightarrow> senc w (sdec w bs) = bs"
proof -
  assume l: "length bs = w" "0 < w"
  have "int (le_val bs) < int (256 ^ w)" using le_val_bound [of bs] l by simp
  then have b: "int (le_val bs) < 2 ^ (8 * w)" by (simp add: power_mult)
  have "sdec w bs mod 2 ^ (8 * w) = int (le_val bs)"
    using b by (simp add: sdec_def Let_def)
  then show ?thesis using le_bytes_le_val [of bs] l by (simp add: senc_def)
qed

definition img :: "nat \<Rightarrow> int list \<Rightarrow> bytes" where
  "img w xs = concat (map (senc w) xs)"

lemma img_simps [simp]: "img w [] = []" "img w (x # xs) = senc w x @ img w xs" "img w (xs @ ys) = img w xs @ img w ys"
  by (simp_all add: img_def)

lemma length_img [simp]: "length (img w xs) = length xs * w"
  by (induction xs) simp_all

lemma take_img: "take (i * w) (img w xs) = img w (take i xs)"
proof (induction xs arbitrary: i)
  case (Cons x xs)
  then show ?case by (cases i) simp_all
qed simp

lemma drop_img: "drop (i * w) (img w xs) = img w (drop i xs)"
proof (induction xs arbitrary: i)
  case (Cons x xs)
  then show ?case by (cases i) simp_all
qed simp

lemma mread_img: "mread (img w xs) (i * w) (k * w) = img w (take k (drop i xs))"
  by (simp add: mread_def drop_img take_img)

lemma mread_img_nth: "i < length xs \<Longrightarrow> mread (img w xs) (i * w) w = senc w (xs ! i)"
  using mread_img [of w xs i 1] by (simp add: take_Suc_conv_app_nth hd_drop_conv_nth take_Suc)

lemma mwrite_img: "i < length xs \<Longrightarrow> mwrite (img w xs) (i * w) (senc w v) = img w (xs[i := v])"
proof -
  assume i: "i < length xs"
  have "mwrite (img w xs) (i * w) (senc w v) = img w (take i xs) @ senc w v @ img w (drop (Suc i) xs)"
    using drop_img [of "Suc i" w xs] take_img [of i w xs] by (simp add: mwrite_def add.commute)
  then show ?thesis using i by (simp add: upd_conv_take_nth_drop)
qed

section \<open>The set a block holds\<close>

text \<open>
  A block holds the sorted list \<open>xs\<close>. With \<open>2 ^ 29\<close> entries the number of bytes \<^verbatim>\<open>intsetMoveTail\<close>
  computes in 32 bits would wrap around.
\<close>

definition intset_typed :: "intset \<Rightarrow> int list \<Rightarrow> bool" where
  "intset_typed s xs \<longleftrightarrow> unat (is_encoding s) \<in> {2, 4, 8} \<and> is_contents s = img (unat (is_encoding s)) xs \<and>
     unat (is_length s) = length xs \<and> (\<forall>x\<in>set xs. fits_enc (unat (is_encoding s)) x) \<and> sorted_wrt (<) xs"

definition intset_rep :: "intset \<Rightarrow> int list \<Rightarrow> bool" where
  "intset_rep s xs \<longleftrightarrow> intset_typed s xs \<and> length xs < 2 ^ 29"

lemma enc_width [simp]: "e \<in> {2, 4, 8} \<Longrightarrow> enc_width e = e"
  by (auto simp: enc_width_def INTSET_ENC_INT64_def INTSET_ENC_INT32_def)

lemma enc_mod [simp]: "e \<in> {2, 4, 8} \<Longrightarrow> e mod 256 = (e :: nat)"
  by auto

lemma intset_repD:
  assumes "intset_rep s xs"
  shows "unat (is_encoding s) \<in> {2, 4, 8}" "is_contents s = img (unat (is_encoding s)) xs" "unat (is_length s) = length xs"
    "\<forall>x\<in>set xs. fits_enc (unat (is_encoding s)) x" "sorted_wrt (<) xs" "length xs < 2 ^ 29" "is_length s = of_nat (length xs)"
    "0 < unat (is_encoding s)"
proof -
  have "(of_nat (unat (is_length s)) :: u32) = is_length s" by simp
  with assms show "is_length s = of_nat (length xs)" by (simp add: intset_rep_def intset_typed_def)
qed (use assms in \<open>auto simp: intset_rep_def intset_typed_def\<close>)

lemma intsetGet0_rep:
  assumes "intset_rep s xs" "i < length xs"
  shows "intsetGet0 s (int i) = Some (xs ! i)"
proof -
  note r = intset_repD [OF assms(1)]
  let ?w = "unat (is_encoding s)"
  have "Suc i * ?w \<le> length xs * ?w" using assms(2) by (intro mult_le_mono1) simp
  then have "i * ?w + ?w \<le> length xs * ?w" by simp
  then show ?thesis
    using r(1,2,4,8) assms(2) by (simp add: intsetGet0_def intsetGetEncoded_def mread_img_nth sdec_senc)
qed

lemma sint_small: "n < 2 ^ 31 \<Longrightarrow> sint (of_nat n :: u32) = int n"
  by (simp add: signed_of_nat signed_take_bit_int_eq_self)

lemma sint_pred:
  assumes "intset_rep s xs" "xs \<noteq> []"
  shows "sint (is_length s - 1) = int (length xs - 1)"
proof -
  note r = intset_repD [OF assms(1)]
  have "is_length s - 1 = of_nat (length xs - 1)" using r(7) assms(2) by (cases xs) simp_all
  then show ?thesis using r(6) sint_small [of "length xs - 1"] by simp
qed

text \<open>The middle, computed without overflow.\<close>

lemma mid_exact:
  assumes "0 \<le> a" "a \<le> b" "b < 2 ^ 31"
  shows "uint (drop_bit 1 (word_of_int a + word_of_int b :: u32)) = (a + b) div 2"
proof -
  have "uint (word_of_int a + word_of_int b :: u32) = a + b"
    using assms by (simp add: uint_word_of_int take_bit_int_eq_self flip: of_int_add)
  then show ?thesis by (simp add: drop_bit_eq_div uint_div_distrib)
qed

text \<open>What the loop promises: the value where it stopped, or the place where it belongs.\<close>

definition search_result :: "int list \<Rightarrow> int \<Rightarrow> int \<times> int \<times> int \<Rightarrow> bool" where
  "search_result xs v r \<longleftrightarrow>
     (case r of (mn, mid, cur) \<Rightarrow>
        if v = cur then 0 \<le> mid \<and> mid < int (length xs) \<and> xs ! nat mid = v
        else 0 \<le> mn \<and> mn \<le> int (length xs) \<and> (\<forall>i<nat mn. xs ! i < v) \<and> (\<forall>i. nat mn \<le> i \<and> i < length xs \<longrightarrow> v < xs ! i))"

lemma search_loop_ok:
  assumes "intset_rep s xs"
  shows "0 \<le> mn \<Longrightarrow> mn \<le> mx + 1 \<Longrightarrow> mx < int (length xs) \<Longrightarrow> \<forall>i<nat mn. xs ! i < v \<Longrightarrow>
    \<forall>i. int i > mx \<and> i < length xs \<longrightarrow> v < xs ! i \<Longrightarrow> (mx < mn \<longrightarrow> cur \<noteq> v) \<Longrightarrow>
    \<exists>r. search_loop s v mn mx mid cur = Some r \<and> search_result xs v r"
proof (induction "nat (mx - mn + 1)" arbitrary: mn mx mid cur rule: less_induct)
  case less
  note r = intset_repD [OF assms]
  show ?case
  proof (cases "mx \<ge> mn")
    case False
    then have "search_loop s v mn mx mid cur = Some (mn, mid, cur)" by (simp add: search_loop.simps)
    moreover have "search_result xs v (mn, mid, cur)" using False less.prems by (auto simp: search_result_def)
    ultimately show ?thesis by blast
  next
    case True
    let ?m = "(mn + mx) div 2"
    have m: "mn \<le> ?m" "?m \<le> mx" "0 \<le> ?m" using True less.prems(1) by auto
    have g: "intsetGet0 s ?m = Some (xs ! nat ?m)" using intsetGet0_rep [OF assms, of "nat ?m"] m less.prems(3) by simp
    have un: "search_loop s v mn mx mid cur =
        (if v > xs ! nat ?m then search_loop s v (?m + 1) mx ?m (xs ! nat ?m)
         else if v < xs ! nat ?m then search_loop s v mn (?m - 1) ?m (xs ! nat ?m) else Some (mn, ?m, xs ! nat ?m))"
      using True g mid_exact [of mn mx] less.prems(1,3) r(6) by (subst search_loop.simps) (simp add: Let_def)
    have mono: "xs ! i \<le> xs ! j" if "i \<le> j" "j < length xs" for i j
    using r(5) that sorted_wrt_nth_less [of "(<)" xs i j] by (cases "i = j") auto
    consider "v > xs ! nat ?m" | "v < xs ! nat ?m" | "v = xs ! nat ?m" by linarith
    then show ?thesis
    proof cases
      case 1
      have "xs ! i < v" if "i < nat (?m + 1)" for i
        using that 1 mono [of i "nat ?m"] m less.prems(3) by linarith
      then have "\<exists>r. search_loop s v (?m + 1) mx ?m (xs ! nat ?m) = Some r \<and> search_result xs v r"
        using m less.prems 1 by (intro less.hyps impI less_imp_neq [OF 1]) auto
      with 1 un show ?thesis by simp
    next
      case 2
      have "v < xs ! i" if "int i > ?m - 1" "i < length xs" for i
        using that 2 mono [of "nat ?m" i] m less.prems(3) by linarith
      then have "\<exists>r. search_loop s v mn (?m - 1) ?m (xs ! nat ?m) = Some r \<and> search_result xs v r"
        using m less.prems 2 by (intro less.hyps impI less_imp_neq [OF 2, symmetric]) auto
      with 2 un show ?thesis by simp
    next
      case 3
      then show ?thesis using un m less.prems(3) by (simp add: search_result_def)
    qed
  qed
qed

text \<open>\<^verbatim>\<open>intsetSearch\<close> finds the value, or the place in the sorted list where it belongs.\<close>

lemma intsetSearch_ok:
  assumes "intset_rep s xs"
  shows "\<exists>pos. intsetSearch s v = Some (v \<in> set xs, of_nat pos) \<and> pos \<le> length xs \<and>
    (if v \<in> set xs then pos < length xs \<and> xs ! pos = v else (\<forall>i<pos. xs ! i < v) \<and> (\<forall>i. pos \<le> i \<and> i < length xs \<longrightarrow> v < xs ! i))"
proof (cases "xs = []")
  case True
  then show ?thesis using intset_repD [OF assms] by (simp add: intsetSearch_def Let_def)
next
  case False
  note r = intset_repD [OF assms]
  let ?n = "length xs"
  have mono: "xs ! i \<le> xs ! j" if "i \<le> j" "j < length xs" for i j
    using r(5) that sorted_wrt_nth_less [of "(<)" xs i j] by (cases "i = j") auto
  have nz: "is_length s \<noteq> 0" using r(3) False by (auto simp: unat_eq_0)
  have g: "intsetGet0 s (int (?n - 1)) = Some (xs ! (?n - 1))" "intsetGet0 s 0 = Some (xs ! 0)"
    using intsetGet0_rep [OF assms, of "?n - 1"] intsetGet0_rep [OF assms, of 0] False by simp_all
  consider "v > xs ! (?n - 1)" | "v \<le> xs ! (?n - 1)" "v < xs ! 0" | "v \<le> xs ! (?n - 1)" "\<not> v < xs ! 0" by linarith
  then show ?thesis
  proof cases
    case 1
    then have lt: "xs ! i < v" if "i < ?n" for i using that mono [of i "?n - 1"] by fastforce
    then have "v \<notin> set xs" by (force simp: in_set_conv_nth)
    with 1 lt nz g r(7) sint_pred [OF assms False] show ?thesis by (intro exI [of _ ?n]) (simp add: intsetSearch_def Let_def)
  next
    case 2
    then have lt: "v < xs ! i" if "i < ?n" for i using that mono [of 0 i] by fastforce
    then have "v \<notin> set xs" by (force simp: in_set_conv_nth)
    with 2 lt nz g sint_pred [OF assms False] show ?thesis by (intro exI [of _ 0]) (simp add: intsetSearch_def Let_def)
  next
    case 3
    obtain mn mid cur where l: "search_loop s v 0 (int (?n - 1)) (-1) (-1) = Some (mn, mid, cur)" "search_result xs v (mn, mid, cur)"
      using search_loop_ok [OF assms, of 0 "int (?n - 1)" v "-1" "-1"] False by (cases xs) auto
    show ?thesis
    proof (cases "v = cur")
      case True
      then have m: "0 \<le> mid" "mid < int ?n" "xs ! nat mid = v" using l(2) by (auto simp: search_result_def)
      then have "v \<in> set xs" by (auto simp: in_set_conv_nth intro!: exI [of _ "nat mid"])
      moreover have "(of_int mid :: u32) = of_nat (nat mid)" "nat mid < ?n" using m(1,2) by auto
      ultimately show ?thesis
        using m True 3 nz g l(1) sint_pred [OF assms False] by (intro exI [of _ "nat mid"]) (simp add: intsetSearch_def Let_def)
    next
      case ne: False
      then have m: "0 \<le> mn" "mn \<le> int ?n" "\<forall>i<nat mn. xs ! i < v" "\<forall>i. nat mn \<le> i \<and> i < ?n \<longrightarrow> v < xs ! i"
        using l(2) by (auto simp: search_result_def)
      have "v \<notin> set xs"
      proof
        assume "v \<in> set xs"
        then obtain i where "i < ?n" "xs ! i = v" by (auto simp: in_set_conv_nth)
        then show False using m(3,4) by (metis less_irrefl not_less)
      qed
      moreover have "(of_int mn :: u32) = of_nat (nat mn)" using m(1) by simp
      ultimately show ?thesis
        using m ne 3 nz g l(1) sint_pred [OF assms False] by (intro exI [of _ "nat mn"]) (simp add: intsetSearch_def Let_def)
    qed
  qed
qed

end
