(* ===== verification/Intset_Set.thy ===== *)
theory Intset_Set
  imports Intset
begin

text \<open>
  The operations that change an integer set: adding, with and without widening the block, and
  removing. A sequence of operations on a new set answers what a set of integers answers; the
  widening in place is a copy into a new block; the check of a dumped set accepts the blocks of
  sets and nothing else.
\<close>

section \<open>Adding and removing\<close>

lemma value_encoding:
  assumes "fits_enc 8 v" "e \<in> {2, 4, 8}"
  shows "intsetValueEncoding v \<le> e \<longleftrightarrow> fits_enc e v" "intsetValueEncoding v \<in> {2, 4, 8}"
  using assms
  by (auto simp: intsetValueEncoding_def fits_enc_def INTSET_ENC_INT64_def INTSET_ENC_INT32_def INTSET_ENC_INT16_def)

lemma tail_bytes:
  assumes "b \<le> a" "a < 2 ^ 29" "w \<in> {2, 4, 8}"
  shows "unat ((of_nat a - of_nat b) * of_nat w :: u32) = (a - b) * w"
proof -
  have "(a - b) * w \<le> a * 8" using assms(3) by (intro mult_le_mono) auto
  then have "unat (of_nat ((a - b) * w) :: u32) = (a - b) * w" using assms(2) by (intro unat_of_nat_len) simp
  then show ?thesis using assms(1) by (simp add: of_nat_diff)
qed

lemma resized:
  assumes "is_contents s = img (unat (is_encoding s)) xs" "n < 2 ^ 29"
  shows "\<exists>j. intsetResize junk s (of_nat n) = s\<lparr>is_contents := img (unat (is_encoding s)) (take n xs) @ j\<rparr> \<and>
    length j = (n - length xs) * unat (is_encoding s)"
proof -
  let ?w = "unat (is_encoding s)"
  have "unat (of_nat n :: u32) = n" using assms(2) by (intro unat_of_nat_len) simp
  then have "intsetResize junk s (of_nat n) = s\<lparr>is_contents := img ?w (take n xs) @ map junk [length xs * ?w..<n * ?w]\<rparr>"
    using assms(1) take_img [of n ?w xs] by (simp add: intsetResize_def Let_def)
  then show ?thesis by (intro exI [of _ "map junk [length xs * ?w..<n * ?w]"]) (simp add: diff_mult_distrib)
qed

text \<open>Opening a gap at a position and filling it.\<close>

lemma gap:
  assumes "pos < length xs" "length j = w" "0 < w"
  shows "mwrite (img w xs @ j) (Suc pos * w) (img w (drop pos xs)) = img w (take (Suc pos) xs @ drop pos xs)"
proof -
  have "Suc pos * w \<le> length xs * w" using assms(1) by (intro mult_le_mono1) simp
  then have "take (Suc pos * w) (img w xs @ j) = img w (take (Suc pos) xs)" using take_img [of "Suc pos" w xs] by simp
  moreover have "Suc pos * w + length (img w (drop pos xs)) = length (img w xs @ j)"
    using assms by (simp add: diff_mult_distrib)
  ultimately show ?thesis by (simp add: mwrite_def)
qed

lemma filled: "pos < length xs \<Longrightarrow> (take (Suc pos) xs @ drop pos xs)[pos := v] = take pos xs @ v # drop pos xs"
  by (simp add: list_update_append take_Suc_conv_app_nth)

lemma intsetSet_at:
  assumes "unat (is_encoding s) \<in> {2, 4, 8}" "pos * unat (is_encoding s) + unat (is_encoding s) \<le> length (is_contents s)"
  shows "intsetSet s (int pos) v =
    Some (s\<lparr>is_contents := mwrite (is_contents s) (pos * unat (is_encoding s)) (senc (unat (is_encoding s)) v)\<rparr>)"
  using assms by (simp add: intsetSet_def Let_def)

lemma sorted_insert:
  assumes "sorted_wrt (<) xs" "\<forall>i<pos. xs ! i < v" "\<forall>i. pos \<le> i \<and> i < length xs \<longrightarrow> v < xs ! i" "pos \<le> length xs"
  shows "sorted_wrt (<) (take pos xs @ v # drop pos xs)"
proof -
  have "sorted_wrt (<) (take pos xs @ drop pos xs)" using assms(1) by simp
  moreover have "\<forall>x\<in>set (take pos xs). x < v" using assms(2,4) by (auto simp: in_set_conv_nth)
  moreover have "\<forall>x\<in>set (drop pos xs). v < x" using assms(3) by (auto simp: in_set_conv_nth)
  ultimately show ?thesis unfolding sorted_wrt_append by auto
qed

lemma intset_rep_insert:
  assumes "intset_rep s xs" "pos \<le> length xs" "fits_enc (unat (is_encoding s)) v" "Suc (length xs) < 2 ^ 29"
    "\<forall>i<pos. xs ! i < v" "\<forall>i. pos \<le> i \<and> i < length xs \<longrightarrow> v < xs ! i"
  shows "intset_rep (s\<lparr>is_contents := img (unat (is_encoding s)) (take pos xs @ v # drop pos xs), is_length := is_length s + 1\<rparr>)
    (take pos xs @ v # drop pos xs)"
proof -
  note r = intset_repD [OF assms(1)]
  have "is_length s + 1 = of_nat (Suc (length xs))" using r(7) by simp
  then have "unat (is_length s + 1) = Suc (length xs)" using assms(4) unat_of_nat_len [of "Suc (length xs)"] by (simp del: of_nat_Suc)
  moreover have "\<forall>x\<in>set (take pos xs @ v # drop pos xs). fits_enc (unat (is_encoding s)) x"
    using r(4) assms(3) by (auto dest: in_set_takeD in_set_dropD)
  ultimately show ?thesis using r sorted_insert [OF r(5) assms(5,6,2)] assms(2,4) by (simp add: intset_rep_def intset_typed_def)
qed

lemma moved_up:
  assumes s: "intset_rep s xs" and pos: "pos < length xs" and j: "length j = unat (is_encoding s)" and l: "Suc (length xs) < 2 ^ 29"
  shows "intsetMoveTail (s\<lparr>is_contents := img (unat (is_encoding s)) xs @ j\<rparr>) (of_nat pos) (of_nat pos + 1) =
    Some (s\<lparr>is_contents := img (unat (is_encoding s)) (take (Suc pos) xs @ drop pos xs)\<rparr>)"
proof -
  note r = intset_repD [OF s]
  let ?w = "unat (is_encoding s)" and ?n = "length xs"
  have u: "unat (of_nat pos :: u32) = pos" "unat (of_nat pos + 1 :: u32) = Suc pos"
    using pos l unat_of_nat_len [of pos] unat_of_nat_len [of "Suc pos"] by (simp_all add: add.commute)
  have ld: "load (img ?w xs @ j) (pos * ?w) ((?n - pos) * ?w) = Some (img ?w (drop pos xs))"
    using pos mread_img [of ?w xs pos "?n - pos"] by (simp add: load_def mread_append_left diff_mult_distrib mult_le_mono1)
  have "Suc pos * ?w + length (img ?w (drop pos xs)) \<le> length (img ?w xs @ j)" using pos j by (simp add: diff_mult_distrib)
  then have mc: "memcpy (img ?w xs @ j) (Suc pos * ?w) (img ?w (drop pos xs)) = Some (img ?w (take (Suc pos) xs @ drop pos xs))"
    using gap [OF pos j r(8)] by simp
  have "unat ((is_length s - of_nat pos) * of_nat ?w) = (?n - pos) * ?w" using tail_bytes [of pos ?n ?w] r pos by simp
  then show ?thesis using u ld mc r(1) by (simp add: intsetMoveTail_def Let_def del: mult_Suc img_simps)
qed

lemma intset_insert_ok:
  assumes s: "intset_rep s xs" and pos: "pos \<le> length xs" and v: "fits_enc (unat (is_encoding s)) v" and l: "Suc (length xs) < 2 ^ 29"
    and srt: "\<forall>i<pos. xs ! i < v" "\<forall>i. pos \<le> i \<and> i < length xs \<longrightarrow> v < xs ! i"
  shows "\<exists>s'. (let s1 = intsetResize junk s (is_length s + 1)
      in do { s2 \<leftarrow> (if of_nat pos < is_length s1 then intsetMoveTail s1 (of_nat pos) (of_nat pos + 1) else Some s1);
              s3 \<leftarrow> intsetSet s2 (sint (of_nat pos :: u32)) v;
              Some (s3\<lparr>is_length := is_length s3 + 1\<rparr>) }) = Some s' \<and> intset_rep s' (take pos xs @ v # drop pos xs)"
proof -
  note r = intset_repD [OF s]
  let ?w = "unat (is_encoding s)" and ?n = "length xs"
  obtain j where j: "intsetResize junk s (is_length s + 1) = s\<lparr>is_contents := img ?w xs @ j\<rparr>" "length j = ?w"
    using resized [OF r(2) l, of junk] r(7) by (auto simp: add.commute)
  let ?s1 = "s\<lparr>is_contents := img ?w xs @ j\<rparr>"
  have u: "unat (of_nat pos :: u32) = pos" "unat (of_nat (Suc pos) :: u32) = Suc pos" "sint (of_nat pos :: u32) = int pos"
    using pos l unat_of_nat_len [of pos] unat_of_nat_len [of "Suc pos"] sint_small [of pos] by simp_all
  let ?s' = "s\<lparr>is_contents := img ?w (take pos xs @ v # drop pos xs), is_length := is_length s + 1\<rparr>"
  have "(do { s2 \<leftarrow> (if of_nat pos < is_length ?s1 then intsetMoveTail ?s1 (of_nat pos) (of_nat pos + 1) else Some ?s1);
              s3 \<leftarrow> intsetSet s2 (sint (of_nat pos :: u32)) v;
              Some (s3\<lparr>is_length := is_length s3 + 1\<rparr>) }) = Some ?s'"
  proof (cases "pos < ?n")
    case True
    note mv = moved_up [OF s True j(2) l]
    have lt: "(of_nat pos :: u32) < is_length s" using True r(7) u(1) unat_of_nat_len [of ?n] l by (simp add: word_less_nat_alt)
    have "pos * ?w + ?w \<le> Suc ?n * ?w" using True mult_le_mono1 [of "Suc pos" "Suc ?n" ?w] by simp
    then show ?thesis
      using mv lt u(3) True r(1) intsetSet_at [of "s\<lparr>is_contents := img ?w (take (Suc pos) xs @ drop pos xs)\<rparr>" pos v]
        mwrite_img [of pos "take (Suc pos) xs @ drop pos xs" ?w v] filled [OF True, of v]
      by (simp add: min_absorb2)
  next
    case False
    then have p: "pos = ?n" using pos by simp
    have nlt: "\<not> (of_nat pos :: u32) < is_length s" using p r(7) by simp
    have "mwrite (img ?w xs @ j) (?n * ?w) (senc ?w v) = img ?w (xs @ [v])" using j(2) by (simp add: mwrite_def)
    then show ?thesis using nlt u(3) p r(1) j(2) intsetSet_at [of ?s1 pos v] by simp
  qed
  with j(1) intset_rep_insert [OF s pos v l srt] show ?thesis by (simp add: Let_def)
qed

text \<open>Closing the gap of a removed element.\<close>

lemma moved_down:
  assumes s: "intset_rep s xs" and pos: "Suc pos < length xs"
  shows "intsetMoveTail s (of_nat pos + 1) (of_nat pos) =
    Some (s\<lparr>is_contents := img (unat (is_encoding s)) (take pos xs @ drop (Suc pos) xs @ [last xs])\<rparr>)"
proof -
  note r = intset_repD [OF s]
  let ?w = "unat (is_encoding s)" and ?n = "length xs"
  have u: "unat (of_nat pos :: u32) = pos" "unat (of_nat pos + 1 :: u32) = Suc pos"
    using pos r(6) unat_of_nat_len [of pos] unat_of_nat_len [of "Suc pos"] by (simp_all add: add.commute)
  have ld: "load (img ?w xs) (Suc pos * ?w) ((?n - Suc pos) * ?w) = Some (img ?w (drop (Suc pos) xs))"
    using pos mread_img [of ?w xs "Suc pos" "?n - Suc pos"] mult_le_mono1 [of "Suc pos" ?n ?w] by (simp add: load_def diff_mult_distrib)
  have le: "pos * ?w + length (img ?w (drop (Suc pos) xs)) = (?n - 1) * ?w" 
  proof -
    have "pos + (?n - Suc pos) = ?n - 1" using pos by simp
    then show ?thesis by (simp only: length_img length_drop flip: add_mult_distrib)
  qed
  have "drop (?n - 1) xs = [last xs]" using pos by (cases xs rule: rev_cases) simp_all
  then have "mwrite (img ?w xs) (pos * ?w) (img ?w (drop (Suc pos) xs)) = img ?w (take pos xs @ drop (Suc pos) xs @ [last xs])"
    using le drop_img [of "?n - 1" ?w xs] by (simp add: mwrite_def take_img)
  moreover have "pos * ?w + length (img ?w (drop (Suc pos) xs)) \<le> length (img ?w xs)" unfolding le by simp
  ultimately have mc: "memcpy (img ?w xs) (pos * ?w) (img ?w (drop (Suc pos) xs)) = Some (img ?w (take pos xs @ drop (Suc pos) xs @ [last xs]))"
    by simp
  have "unat ((is_length s - of_nat (Suc pos)) * of_nat ?w) = (?n - Suc pos) * ?w" using tail_bytes [of "Suc pos" ?n ?w] r pos by simp
  then have "unat ((is_length s - (of_nat pos + 1)) * of_nat ?w) = (?n - Suc pos) * ?w" by (simp add: add.commute)
  then show ?thesis using u ld mc r(1,2) by (simp add: intsetMoveTail_def Let_def del: mult_Suc img_simps)
qed

lemma intset_remove_ok:
  assumes s: "intset_rep s xs" and pos: "pos < length xs"
  shows "\<exists>s'. do { s1 \<leftarrow> (if of_nat pos < is_length s - 1 then intsetMoveTail s (of_nat pos + 1) (of_nat pos) else Some s);
      Some ((intsetResize junk s1 (is_length s - 1))\<lparr>is_length := is_length s - 1\<rparr>) } = Some s' \<and>
    intset_rep s' (take pos xs @ drop (Suc pos) xs)"
proof -
  note r = intset_repD [OF s]
  let ?w = "unat (is_encoding s)" and ?n = "length xs" and ?ys = "take pos xs @ drop (Suc pos) xs"
  have ln: "is_length s - 1 = of_nat (?n - 1)" using r(7) pos by (cases xs) simp_all
  have n: "?n - 1 < 2 ^ 29" "?n - 1 < 2 ^ 32" using r(6) by simp_all
  have p32: "pos < 2 ^ 32" using pos r(6) by simp
  note un = unat_of_nat_len [OF n(2)] unat_of_nat_len [OF p32]
  have lt: "(of_nat pos :: u32) < is_length s - 1 \<longleftrightarrow> Suc pos < ?n" unfolding ln word_less_nat_alt un using pos by linarith
  let ?s' = "s\<lparr>is_contents := img ?w ?ys, is_length := of_nat (?n - 1)\<rparr>"
  have "sorted_wrt (<) (take pos xs @ drop pos xs)" using r(5) by simp
  then have "sorted_wrt (<) ?ys" using pos unfolding sorted_wrt_append by (auto simp: Cons_nth_drop_Suc [symmetric])
  then have rep: "intset_rep ?s' ?ys"
    using r un pos by (auto simp: intset_rep_def intset_typed_def dest: in_set_takeD in_set_dropD)
  have res: "intsetResize junk s1 (of_nat (?n - 1)) = s\<lparr>is_contents := img ?w ?ys\<rparr>"
    if "s1 = s\<lparr>is_contents := img ?w zs\<rparr>" "take (?n - 1) zs = ?ys" "length zs = ?n" for s1 zs
    using resized [of s1 zs "?n - 1" junk] that n(1) by auto
  show ?thesis
  proof (cases "Suc pos < ?n")
    case True
    have "take (?n - 1) (take pos xs @ drop (Suc pos) xs @ [last xs]) = ?ys" "length (take pos xs @ drop (Suc pos) xs @ [last xs]) = ?n"
      using True by simp_all
    from res [OF refl this] True lt moved_down [OF s True] rep show ?thesis unfolding ln by simp
  next
    case False
    then have "?n - 1 = pos" using pos by simp
    then have "take (?n - 1) xs = ?ys" using False by simp
    from res [OF _ this refl, of s] False lt r(2) rep show ?thesis unfolding ln by simp
  qed
qed

section \<open>Widening\<close>

text \<open>
  \<open>k\<close> elements still have the old width \<open>c\<close>, at the start of the block; the others have been
  copied to their new places already.
\<close>

definition half_done :: "nat \<Rightarrow> nat \<Rightarrow> nat \<Rightarrow> int list \<Rightarrow> nat \<Rightarrow> bytes \<Rightarrow> bool" where
  "half_done c n p xs k m \<longleftrightarrow> length m = Suc (length xs) * n \<and> take (k * c) m = img c (take k xs) \<and>
     mread m ((k + p) * n) ((length xs - k) * n) = img n (drop k xs)"

lemma half_done_step:
  assumes c: "0 < c" "c \<le> n" and p: "p \<le> 1" and k: "k < length xs" and m: "half_done c n p xs (Suc k) m" and f: "fits_enc c (xs ! k)"
  shows "load m (k * c) c = Some (senc c (xs ! k))" "(k + p) * n + n \<le> length m"
    "half_done c n p xs k (mwrite m ((k + p) * n) (senc n (xs ! k)))"
proof -
  let ?n = "length xs"
  have m: "length m = Suc ?n * n" "take (Suc k * c) m = img c (take (Suc k) xs)"
    "mread m ((Suc k + p) * n) ((?n - Suc k) * n) = img n (drop (Suc k) xs)"
    using m by (simp_all only: half_done_def)
  have le: "Suc k * c \<le> Suc ?n * n" using k c(2) by (intro mult_le_mono) simp_all
  have "mread m (k * c) c = mread (take (Suc k * c) m) (k * c) c" by (simp add: mread_def drop_take)
  also have "\<dots> = senc c (xs ! k)" unfolding m(2) using mread_img_nth [of k "take (Suc k) xs" c] k by simp
  finally show "load m (k * c) c = Some (senc c (xs ! k))" using le m(1) by (simp add: load_def)
  have "Suc (k + p) * n \<le> Suc ?n * n" using k p by (intro mult_le_mono1) simp
  then show b: "(k + p) * n + n \<le> length m" using m(1) by simp
  let ?m = "mwrite m ((k + p) * n) (senc n (xs ! k))"
  have "k * c \<le> (k + p) * n" using c(2) by (intro mult_le_mono) simp_all
  then have "take (k * c) ?m = take (k * c) (take (Suc k * c) m)" using b by (simp add: mwrite_def min_absorb1)
  then have t: "take (k * c) ?m = img c (take k xs)" unfolding m(2) take_img by simp
  have "?n - k = Suc (?n - Suc k)" using k by simp
  then have sp: "(?n - k) * n = n + (?n - Suc k) * n" by (simp only: mult_Suc)
  have "mread ?m ((k + p) * n + n) ((?n - Suc k) * n) = mread m ((k + p) * n + n) ((?n - Suc k) * n)"
    using b by (intro mread_mwrite_after) simp_all
  also have "\<dots> = img n (drop (Suc k) xs)" using m(3) by (simp add: algebra_simps)
  finally have "mread ?m ((k + p) * n) ((?n - k) * n) = senc n (xs ! k) @ img n (drop (Suc k) xs)"
    unfolding sp mread_split using b by (simp add: mread_mwrite_same)
  then show "half_done c n p xs k ?m" using t b m(1) k by (simp add: half_done_def Cons_nth_drop_Suc [symmetric])
qed

lemma upgrade_loop_ok:
  assumes w: "c \<in> {2, 4, 8}" "n \<in> {2, 4, 8}" "c \<le> n" and p: "p \<le> 1" and f: "\<forall>x\<in>set xs. fits_enc c x"
  shows "k \<le> length xs \<Longrightarrow> unat (is_encoding s) = n \<Longrightarrow> half_done c n p xs k (is_contents s) \<Longrightarrow>
    \<exists>m. upgrade_loop c (int p) k s = Some (s\<lparr>is_contents := m\<rparr>) \<and> half_done c n p xs 0 m"
proof (induction k arbitrary: s)
  case 0
  then show ?case by (intro exI [of _ "is_contents s"]) simp
next
  case (Suc k)
  have k: "k < length xs" "0 < c" "fits_enc c (xs ! k)" using Suc.prems(1) w(1) f by auto
  note h = half_done_step [OF k(2) w(3) p k(1) Suc.prems(3) k(3)]
  let ?s = "s\<lparr>is_contents := mwrite (is_contents s) ((k + p) * n) (senc n (xs ! k))\<rparr>"
  have g: "intsetGetEncoded s (int k) c = Some (xs ! k)" using h(1) w(1) sdec_senc [OF k(3,2)] by (simp add: intsetGetEncoded_def)
  have "intsetSet s (int k + int p) (xs ! k) = Some ?s"
    using intsetSet_at [of s "k + p" "xs ! k"] h(2) Suc.prems(2) w(2) by simp
  moreover obtain m where "upgrade_loop c (int p) k ?s = Some (?s\<lparr>is_contents := m\<rparr>)" "half_done c n p xs 0 m"
    using Suc.IH [of ?s] h(3) Suc.prems(1,2) by auto
  ultimately show ?case using g by (intro exI [of _ m]) simp
qed

text \<open>The widened set is the one that a copy into a new block would give.\<close>

lemma upgrade_ok:
  assumes s: "intset_rep s xs" and v: "fits_enc 8 v" "\<not> fits_enc (unat (is_encoding s)) v" and l: "Suc (length xs) < 2 ^ 29"
  shows "intsetUpgradeAndAdd junk s v = Some (s\<lparr>is_encoding := of_nat (intsetValueEncoding v), is_length := of_nat (Suc (length xs)),
    is_contents := img (intsetValueEncoding v) (if v < 0 then v # xs else xs @ [v])\<rparr>)"
proof -
  note r = intset_repD [OF s]
  let ?c = "unat (is_encoding s)" and ?n = "intsetValueEncoding v" and ?l = "length xs"
  let ?p = "if v < 0 then 1 else 0 :: nat"
  have n: "?n \<in> {2, 4, 8}" "?c \<le> ?n" using value_encoding [OF v(1) r(1)] v(2) by auto
  then have un: "unat (of_nat ?n :: u32) = ?n" by auto
  have ln: "is_length s + 1 = of_nat (Suc ?l)" "unat (of_nat (Suc ?l) :: u32) = Suc ?l" "sint (is_length s) = int ?l"
    using r(7) l unat_of_nat_len [of "Suc ?l"] sint_small [of ?l] by (simp_all add: add.commute)
  let ?m = "img ?c xs @ map junk [?l * ?c..<Suc ?l * ?n]"
  have le: "?l * ?c \<le> Suc ?l * ?n" using n(2) by (intro mult_le_mono) simp_all
  let ?s = "s\<lparr>is_encoding := of_nat ?n, is_contents := ?m\<rparr>"
  have rs: "intsetResize junk (s\<lparr>is_encoding := of_nat ?n\<rparr>) (of_nat (Suc ?l)) = ?s"
    using ln(2) un r(2) le by (simp add: intsetResize_def Let_def del: of_nat_Suc)
  have "half_done ?c ?n ?p xs ?l ?m" using le take_img [of ?l ?c xs] by (simp add: half_done_def)
  moreover have p1: "?p \<le> 1" by simp
  ultimately obtain m where m: "upgrade_loop ?c (int ?p) ?l ?s = Some (?s\<lparr>is_contents := m\<rparr>)" "half_done ?c ?n ?p xs 0 m"
    using upgrade_loop_ok [OF r(1) n(1,2) p1 r(4), of ?l ?s] un by auto
  then have h: "length m = Suc ?l * ?n" "mread m (?p * ?n) (?l * ?n) = img ?n xs" by (simp_all add: half_done_def)
  let ?t = "?s\<lparr>is_contents := m\<rparr>"
  have set: "intsetSet ?t (if v < 0 then 0 else int ?l) v = Some (?t\<lparr>is_contents := img ?n (if v < 0 then v # xs else xs @ [v])\<rparr>)"
  proof (cases "v < 0")
    case True
    then have "mwrite m 0 (senc ?n v) = senc ?n v @ img ?n xs" using h by (simp add: mwrite_def mread_def)
    then show ?thesis using True h(1) n(1) un intsetSet_at [of ?t 0 v] by simp
  next
    case False
    then have "mwrite m (?l * ?n) (senc ?n v) = img ?n xs @ senc ?n v" using h by (simp add: mwrite_def mread_def)
    then show ?thesis using False h(1) n(1) un intsetSet_at [of ?t ?l v] by simp
  qed
  have "int ?p = (if v < 0 then 1 else 0)" by simp
  note up = m(1) [unfolded this]
  have lu: "\<not> sint (is_length ?s) < 0" "nat (sint (is_length ?s)) = ?l" using ln(3) by simp_all
  have "intsetUpgradeAndAdd junk s v = intsetSet ?t (if v < 0 then 0 else int ?l) v \<bind> (\<lambda>s. Some (s\<lparr>is_length := is_length s + 1\<rparr>))"
    unfolding intsetUpgradeAndAdd_def Let_def enc_mod [OF r(1)] ln(1) rs if_not_P [OF lu(1)] lu(2) up bind.simps using ln(3) by (cases "v < 0") simp_all
  then show ?thesis unfolding set using ln(1) by simp
qed

text \<open>Copying into a new block, for comparison.\<close>

definition upgrade_copy :: "intset \<Rightarrow> int \<Rightarrow> intset option" where
  "upgrade_copy s v =
     map_option (\<lambda>vs. \<lparr>is_encoding = of_nat (intsetValueEncoding v), is_length = is_length s + 1,
         is_contents = img (intsetValueEncoding v) (if v < 0 then v # vs else vs @ [v])\<rparr>)
       (those (map (\<lambda>i. intsetGet0 s (int i)) [0..<unat (is_length s)]))"

section \<open>The operations\<close>

lemma intset_rep_upgraded:
  assumes s: "intset_rep s xs" and v: "fits_enc 8 v" "\<not> fits_enc (unat (is_encoding s)) v" and l: "Suc (length xs) < 2 ^ 29"
  shows "intset_rep (s\<lparr>is_encoding := of_nat (intsetValueEncoding v), is_length := of_nat (Suc (length xs)),
    is_contents := img (intsetValueEncoding v) (if v < 0 then v # xs else xs @ [v])\<rparr>) (if v < 0 then v # xs else xs @ [v])"
proof -
  note r = intset_repD [OF s]
  let ?c = "unat (is_encoding s)" and ?n = "intsetValueEncoding v"
  have n: "?n \<in> {2, 4, 8}" "?c \<le> ?n" "fits_enc ?n v" using value_encoding [OF v(1) r(1)] value_encoding(1) [OF v(1), of ?n] v(2) by auto
  then have un: "unat (of_nat ?n :: u32) = ?n" by auto
  have "(2 :: int) ^ (8 * ?c - 1) \<le> 2 ^ (8 * ?n - 1)" using n(2) by (intro power_increasing) simp_all
  then have f: "fits_enc ?n x" if "x \<in> set xs" for x using bspec [OF r(4) that] unfolding fits_enc_def by linarith
  have "\<forall>x\<in>set xs. if v < 0 then v < x else x < v" using r(4) v(2) by (auto simp: fits_enc_def)
  then have "sorted_wrt (<) (if v < 0 then v # xs else xs @ [v])" using r(5) by (simp add: sorted_wrt_append)
  then show ?thesis using n un f l unat_of_nat_len [of "Suc (length xs)"] by (auto simp: intset_rep_def intset_typed_def simp del: of_nat_Suc)
qed

lemma intsetAdd_ok:
  assumes s: "intset_rep s xs" and v: "fits_enc 8 v" and l: "Suc (length xs) < 2 ^ 29"
  shows "\<exists>s' ys. intsetAdd junk s v = Some (s', v \<notin> set xs) \<and> intset_rep s' ys \<and> set ys = insert v (set xs)"
proof (cases "fits_enc (unat (is_encoding s)) v")
  case False
  note r = intset_repD [OF s]
  have "v \<notin> set xs" using False r(4) by blast
  moreover have "\<not> intsetValueEncoding v \<le> unat (is_encoding s)" using value_encoding [OF v r(1)] False by simp
  ultimately have "intsetAdd junk s v = map_option (\<lambda>s. (s, v \<notin> set xs)) (intsetUpgradeAndAdd junk s v)" by (simp add: intsetAdd_def)
  moreover have "set (if v < 0 then v # xs else xs @ [v]) = insert v (set xs)" by simp
  ultimately show ?thesis using upgrade_ok [OF s v False l, of junk] intset_rep_upgraded [OF s v False l] by (metis option.map(2))
next
  case True
  note r = intset_repD [OF s]
  have e: "\<not> intsetValueEncoding v > unat (is_encoding s)" using value_encoding [OF v r(1)] True by simp
  obtain pos where pos: "intsetSearch s v = Some (v \<in> set xs, of_nat pos)" "pos \<le> length xs"
    "if v \<in> set xs then pos < length xs \<and> xs ! pos = v else (\<forall>i<pos. xs ! i < v) \<and> (\<forall>i. pos \<le> i \<and> i < length xs \<longrightarrow> v < xs ! i)"
    using intsetSearch_ok [OF s, of v] by blast
  show ?thesis
  proof (cases "v \<in> set xs")
    case True
    then show ?thesis using e pos(1) s by (intro exI [of _ s] exI [of _ xs]) (auto simp: intsetAdd_def)
  next
    case nin: False
    then have srt: "\<forall>i<pos. xs ! i < v" "\<forall>i. pos \<le> i \<and> i < length xs \<longrightarrow> v < xs ! i" using pos(3) by simp_all
    obtain s' where s': "(let s1 = intsetResize junk s (is_length s + 1)
      in do { s2 \<leftarrow> (if of_nat pos < is_length s1 then intsetMoveTail s1 (of_nat pos) (of_nat pos + 1) else Some s1);
              s3 \<leftarrow> intsetSet s2 (sint (of_nat pos :: u32)) v;
              Some (s3\<lparr>is_length := is_length s3 + 1\<rparr>) }) = Some s'" "intset_rep s' (take pos xs @ v # drop pos xs)"
      using intset_insert_ok [OF s pos(2) True l srt, of junk] by blast
    from arg_cong [OF s'(1), of "map_option (\<lambda>s. (s, True))"] have "intsetAdd junk s v = Some (s', v \<notin> set xs)"
      using e pos(1) nin by (simp add: intsetAdd_def Let_def map_option_bind)
    moreover have "set (take pos xs @ v # drop pos xs) = insert v (set xs)" using set_append [of "take pos xs" "drop pos xs"] by auto
    ultimately show ?thesis using s'(2) by blast
  qed
qed

lemma intsetRemove_ok:
  assumes s: "intset_rep s xs" and v: "fits_enc 8 v"
  shows "\<exists>s' ys. intsetRemove junk s v = Some (s', v \<in> set xs) \<and> intset_rep s' ys \<and> set ys = set xs - {v}"
proof (cases "v \<in> set xs")
  case False
  have "\<exists>q. intsetSearch s v = Some (False, q)" using intsetSearch_ok [OF s, of v] False by auto
  then have "intsetRemove junk s v = Some (s, False)" by (auto simp: intsetRemove_def)
  then show ?thesis using s False by (intro exI [of _ s] exI [of _ xs]) simp
next
  case True
  note r = intset_repD [OF s]
  have e: "intsetValueEncoding v \<le> unat (is_encoding s)" using value_encoding [OF v r(1)] r(4) True by simp
  obtain pos where pos: "intsetSearch s v = Some (True, of_nat pos)" "pos < length xs" "xs ! pos = v"
    using intsetSearch_ok [OF s, of v] True by auto
  obtain s' where s': "do { s1 \<leftarrow> (if of_nat pos < is_length s - 1 then intsetMoveTail s (of_nat pos + 1) (of_nat pos) else Some s);
      Some ((intsetResize junk s1 (is_length s - 1))\<lparr>is_length := is_length s - 1\<rparr>) } = Some s'"
    "intset_rep s' (take pos xs @ drop (Suc pos) xs)"
    using intset_remove_ok [OF s pos(2), of junk] by blast
  from arg_cong [OF s'(1), of "map_option (\<lambda>s. (s, True))"] have "intsetRemove junk s v = Some (s', True)"
    using e pos(1) by (simp add: intsetRemove_def Let_def map_option_bind)
  moreover have "distinct (take pos xs @ v # drop (Suc pos) xs)" "set xs = set (take pos xs @ v # drop (Suc pos) xs)"
    using r(5) id_take_nth_drop [OF pos(2)] pos(3) by (metis strict_sorted_iff)+
  then have "set (take pos xs @ drop (Suc pos) xs) = set xs - {v}" by auto
  ultimately show ?thesis using s'(2) True by auto
qed

lemma intsetFind_ok:
  assumes s: "intset_rep s xs" and v: "fits_enc 8 v"
  shows "intsetFind s v = Some (v \<in> set xs)"
proof -
  note r = intset_repD [OF s]
  obtain q where "intsetSearch s v = Some (v \<in> set xs, q)" using intsetSearch_ok [OF s, of v] by blast
  then show ?thesis using value_encoding [OF v r(1)] r(4) by (auto simp: intsetFind_def)
qed

section \<open>An interface of sets\<close>

datatype intset_op = Set_Add int | Set_Remove int | Set_Find int

fun op_value :: "intset_op \<Rightarrow> int" where
  "op_value (Set_Add v) = v"
| "op_value (Set_Remove v) = v"
| "op_value (Set_Find v) = v"

text \<open>A sequence of operations, with the answers they give.\<close>

fun run_set :: "('s \<Rightarrow> int \<Rightarrow> ('s \<times> bool) option) \<Rightarrow> ('s \<Rightarrow> int \<Rightarrow> ('s \<times> bool) option) \<Rightarrow> ('s \<Rightarrow> int \<Rightarrow> bool option) \<Rightarrow>
    's \<Rightarrow> intset_op list \<Rightarrow> ('s \<times> bool list) option" where
  "run_set add rem mem s [] = Some (s, [])"
| "run_set add rem mem s (a # as) =
     do {
       (s, b) \<leftarrow> (case a of Set_Add v \<Rightarrow> add s v | Set_Remove v \<Rightarrow> rem s v | Set_Find v \<Rightarrow> map_option (Pair s) (mem s v));
       (s, bs) \<leftarrow> run_set add rem mem s as;
       Some (s, b # bs) }"

text \<open>The same sequence on a set of integers: an operation answers whether it changed or found something.\<close>

fun set_after :: "int set \<Rightarrow> intset_op list \<Rightarrow> int set" where
  "set_after A [] = A"
| "set_after A (Set_Add v # as) = set_after (insert v A) as"
| "set_after A (Set_Remove v # as) = set_after (A - {v}) as"
| "set_after A (Set_Find v # as) = set_after A as"

fun set_answers :: "int set \<Rightarrow> intset_op list \<Rightarrow> bool list" where
  "set_answers A [] = []"
| "set_answers A (Set_Add v # as) = (v \<notin> A) # set_answers (insert v A) as"
| "set_answers A (Set_Remove v # as) = (v \<in> A) # set_answers (A - {v}) as"
| "set_answers A (Set_Find v # as) = (v \<in> A) # set_answers A as"

text \<open>What a bounded set of integers promises; \<open>room\<close> is the number of elements it can hold.\<close>

locale bounded_set =
  fixes add :: "'s \<Rightarrow> int \<Rightarrow> ('s \<times> bool) option"
    and rem :: "'s \<Rightarrow> int \<Rightarrow> ('s \<times> bool) option"
    and mem :: "'s \<Rightarrow> int \<Rightarrow> bool option"
    and holds :: "'s \<Rightarrow> int set \<Rightarrow> bool"
    and admissible :: "int \<Rightarrow> bool"
    and room :: nat
  assumes holds_finite: "holds s A \<Longrightarrow> finite A"
    and add_holds: "holds s A \<Longrightarrow> admissible v \<Longrightarrow> card A < room \<Longrightarrow> \<exists>s'. add s v = Some (s', v \<notin> A) \<and> holds s' (insert v A)"
    and rem_holds: "holds s A \<Longrightarrow> admissible v \<Longrightarrow> \<exists>s'. rem s v = Some (s', v \<in> A) \<and> holds s' (A - {v})"
    and mem_holds: "holds s A \<Longrightarrow> admissible v \<Longrightarrow> mem s v = Some (v \<in> A)"
begin

lemma run_refines:
  "holds s A \<Longrightarrow> \<forall>a\<in>set as. admissible (op_value a) \<Longrightarrow> card A + length as \<le> room \<Longrightarrow>
   \<exists>s'. run_set add rem mem s as = Some (s', set_answers A as) \<and> holds s' (set_after A as)"
proof (induction as arbitrary: s A)
  case (Cons a as)
  have adm: "admissible (op_value a)" and rest: "\<forall>a\<in>set as. admissible (op_value a)" using Cons.prems(2) by simp_all
  show ?case
  proof (cases a)
    case (Set_Add v)
    obtain s1 where s1: "add s v = Some (s1, v \<notin> A)" "holds s1 (insert v A)" using add_holds [of s A v] Cons.prems adm Set_Add by auto
    have "card (insert v A) + length as \<le> room" using card_insert_le_m1 [of "Suc (card A)" A v] Cons.prems(3) by simp
    from Cons.IH [OF s1(2) rest this] s1(1) Set_Add show ?thesis by auto
  next
    case (Set_Remove v)
    obtain s1 where s1: "rem s v = Some (s1, v \<in> A)" "holds s1 (A - {v})" using rem_holds [of s A v] Cons.prems adm Set_Remove by auto
    have "card (A - {v}) \<le> card A" using holds_finite [OF Cons.prems(1)] by (intro card_mono) auto
    then have "card (A - {v}) + length as \<le> room" using Cons.prems(3) by simp
    from Cons.IH [OF s1(2) rest this] s1(1) Set_Remove show ?thesis by auto
  next
    case (Set_Find v)
    have "card A + length as \<le> room" using Cons.prems(3) by simp
    from Cons.IH [OF Cons.prems(1) rest this] mem_holds [OF Cons.prems(1), of v] adm Set_Find show ?thesis by auto
  qed
qed auto

end

text \<open>The integer set of Redis is one.\<close>

definition intset_holds :: "intset \<Rightarrow> int set \<Rightarrow> bool" where
  "intset_holds s A \<longleftrightarrow> (\<exists>xs. intset_rep s xs \<and> set xs = A)"

lemma card_rep: "intset_rep s xs \<Longrightarrow> card (set xs) = length xs"
  using intset_repD(5) [of s xs] by (metis distinct_card strict_sorted_iff)

interpretation iset: bounded_set "intsetAdd junk" "intsetRemove junk" intsetFind intset_holds "fits_enc 8" "2 ^ 29 - 2" for junk
proof
  show "intset_holds s A \<Longrightarrow> finite A" for s A by (auto simp: intset_holds_def)
  show "\<exists>s'. intsetAdd junk s v = Some (s', v \<notin> A) \<and> intset_holds s' (insert v A)"
    if "intset_holds s A" "fits_enc 8 v" "card A < 2 ^ 29 - 2" for s A v
    using that intsetAdd_ok [of s _ v junk] card_rep [of s] unfolding intset_holds_def by fastforce
  show "\<exists>s'. intsetRemove junk s v = Some (s', v \<in> A) \<and> intset_holds s' (A - {v})"
    if "intset_holds s A" "fits_enc 8 v" for s A v
    using that intsetRemove_ok [of s _ v junk] unfolding intset_holds_def by blast
  show "intset_holds s A \<Longrightarrow> fits_enc 8 v \<Longrightarrow> intsetFind s v = Some (v \<in> A)" for s A v
    using intsetFind_ok [of s _ v] unfolding intset_holds_def by blast
qed

lemma intsetNew_rep: "intset_rep intsetNew []"
  by (simp add: intset_rep_def intset_typed_def intsetNew_def INTSET_ENC_INT16_def)

section \<open>What the operations that read answer\<close>

lemma intset_reads:
  assumes "intset_rep s xs"
  shows "unat (intsetLen s) = length xs" "i < length xs \<Longrightarrow> intsetGet s (of_nat i) = Some (Some (xs ! i))"
    "xs \<noteq> [] \<Longrightarrow> intsetMin s = Some (Min (set xs))" "xs \<noteq> [] \<Longrightarrow> intsetMax s = Some (Max (set xs))"
    "xs \<noteq> [] \<Longrightarrow> intsetRandom k s = Some (xs ! (k mod length xs))"
proof -
  note r = intset_repD [OF assms]
  show "unat (intsetLen s) = length xs" using r(3) by (simp add: intsetLen_def)
  show "intsetGet s (of_nat i) = Some (Some (xs ! i))" if "i < length xs"
  proof -
    have "(of_nat i :: u32) < is_length s" "sint (of_nat i :: u32) = int i"
      using that r(3,6) unat_of_nat_len [of i] sint_small [of i] by (simp_all add: word_less_nat_alt)
    then show ?thesis using intsetGet0_rep [OF assms that] by (simp add: intsetGet_def)
  qed
  have srt: "sorted xs" using r(5) by (simp add: strict_sorted_iff)
  assume ne: "xs \<noteq> []"
  have "Min (set xs) = xs ! 0" using srt ne by (cases xs) (auto intro!: Min_eqI)
  then show "intsetMin s = Some (Min (set xs))" using intsetGet0_rep [OF assms, of 0] ne by (simp add: intsetMin_def)
  have "Max (set xs) = xs ! (length xs - 1)"
    using srt ne by (intro Max_eqI) (auto simp: in_set_conv_nth intro!: sorted_nth_mono exI [of _ "length xs - 1"])
  then show "intsetMax s = Some (Max (set xs))"
    using intsetGet0_rep [OF assms, of "length xs - 1"] ne sint_pred [OF assms ne] by (simp add: intsetMax_def)
  have "is_length s \<noteq> 0" using r(3) ne by (auto simp: unat_eq_0)
  then show "intsetRandom k s = Some (xs ! (k mod length xs))"
    using intsetGet0_rep [OF assms, of "k mod length xs"] ne r(3) by (simp add: intsetRandom_def)
qed

section \<open>Dumped sets\<close>

definition intset_blob :: "intset \<Rightarrow> bytes" where
  "intset_blob s = le32 (is_encoding s) @ le32 (is_length s) @ is_contents s"

lemma blob_intset_blob: "blob_intset (intset_blob s) = s"
  by (simp add: blob_intset_def intset_blob_def mread_def)

lemma intset_blob_intset: "8 \<le> length p \<Longrightarrow> intset_blob (blob_intset p) = p"
proof -
  assume l: "8 \<le> length p"
  then have "intset_blob (blob_intset p) = mread p 0 4 @ mread p (0 + 4) 4 @ drop 8 p"
    using l by (simp add: intset_blob_def blob_intset_def le32_un_le32)
  also have "\<dots> = take 8 p @ drop 8 p" using mread_split [of p 0 4 4] by (simp add: mread_def)
  finally show ?thesis by simp
qed

text \<open>Every block of whole entries is the image of the integers read from it.\<close>

lemma img_entries:
  assumes "length m = n * w" "0 < w"
  shows "m = img w (map (\<lambda>i. sdec w (mread m (i * w) w)) [0..<n])"
  using assms(1)
proof (induction n arbitrary: m)
  case (Suc n)
  let ?m = "take (n * w) m"
  have "?m = img w (map (\<lambda>i. sdec w (mread ?m (i * w) w)) [0..<n])" using Suc by simp
  also have "map (\<lambda>i. sdec w (mread ?m (i * w) w)) [0..<n] = map (\<lambda>i. sdec w (mread m (i * w) w)) [0..<n]"
  proof (intro map_cong refl)
    fix i assume "i \<in> set [0..<n]"
    then have "Suc i * w \<le> n * w" by (intro mult_le_mono1) simp
    then show "sdec w (mread ?m (i * w) w) = sdec w (mread m (i * w) w)" by (simp add: mread_def drop_take min_absorb1)
  qed
  finally have "img w (map (\<lambda>i. sdec w (mread m (i * w) w)) [0..<n]) = ?m" by simp
  moreover have "senc w (sdec w (mread m (n * w) w)) = drop (n * w) m"
    using Suc.prems assms(2) by (subst senc_sdec) (simp_all add: mread_def)
  ultimately show ?case by simp
qed simp

lemma validate_loop_ok:
  assumes "\<And>i. i < length xs \<Longrightarrow> intsetGet0 s (int i) = Some (xs ! i)"
  shows "k + n < length xs \<Longrightarrow> length xs < 2 ^ 31 \<Longrightarrow> validate_loop s (xs ! k) (Suc k) n = Some (sorted_wrt (<) (take (Suc n) (drop k xs)))"
proof (induction n arbitrary: k)
  case (Suc n)
  then have d: "drop k xs = xs ! k # xs ! Suc k # drop (Suc (Suc k)) xs" "drop (Suc k) xs = xs ! Suc k # drop (Suc (Suc k)) xs"
    by (simp_all add: Cons_nth_drop_Suc)
  show ?case
    using assms [of "Suc k"] sint_small [of "Suc k"] Suc.IH [of "Suc k"] Suc.prems unfolding d by (auto simp: not_le sorted_wrt2 simp del: sorted_wrt.simps(2) of_nat_Suc)
qed (simp add: Cons_nth_drop_Suc [symmetric])

lemma typed_entries:
  assumes "unat (is_encoding s) \<in> {2, 4, 8}" "length (is_contents s) = unat (is_length s) * unat (is_encoding s)"
  shows "\<exists>xs. (\<forall>i<length xs. intsetGet0 s (int i) = Some (xs ! i)) \<and> length xs = unat (is_length s) \<and>
    (intset_typed s xs \<longleftrightarrow> sorted_wrt (<) xs)"
proof -
  let ?w = "unat (is_encoding s)" and ?n = "unat (is_length s)"
  let ?xs = "map (\<lambda>i. sdec ?w (mread (is_contents s) (i * ?w) ?w)) [0..<?n]"
  have w: "0 < ?w" using assms(1) by auto
  have in_block: "i * ?w + ?w \<le> length (is_contents s)" if "i < ?n" for i
    using that assms(2) mult_le_mono1 [of "Suc i" ?n ?w] by simp
  then have "\<forall>i<length ?xs. intsetGet0 s (int i) = Some (?xs ! i)"
    using assms(1) by (simp add: intsetGet0_def intsetGetEncoded_def load_def)
  moreover have "\<forall>x\<in>set ?xs. fits_enc ?w x"
    using w in_block by (auto intro!: sdec_fits)
  moreover have "is_contents s = img ?w ?xs" using img_entries [OF assms(2) w] .
  ultimately show ?thesis using assms(1) by (intro exI [of _ ?xs]) (simp add: intset_typed_def)
qed

lemma typed_unique:
  assumes "intset_typed s xs" "i < length xs"
  shows "intsetGet0 s (int i) = Some (xs ! i)"
proof -
  let ?w = "unat (is_encoding s)"
  have "Suc i * ?w \<le> length xs * ?w" using assms(2) by (intro mult_le_mono1) simp
  then show ?thesis
    using assms by (auto simp: intset_typed_def intsetGet0_def intsetGetEncoded_def mread_img_nth sdec_senc load_def)
qed

section \<open>The properties\<close>

text \<open>
  C10: An integer set is a set of integers. Any sequence of at most \<open>2 ^ 29 - 2\<close> calls of
  \<^verbatim>\<open>intsetAdd\<close>, \<^verbatim>\<open>intsetRemove\<close> and \<^verbatim>\<open>intsetFind\<close> with 64 bit values on a new set runs without an access outside
  the block, whatever the bytes are that \<^verbatim>\<open>realloc\<close> leaves uninitialised; the calls answer what the set answers,
  and the block that is left is the sorted list of its elements, in the width of the widest value
  that was added, so that \<^verbatim>\<open>intsetGet\<close>, \<^verbatim>\<open>intsetLen\<close>, \<^verbatim>\<open>intsetMin\<close> and \<^verbatim>\<open>intsetMax\<close> read it off.
\<close>

theorem intset_refines_set:
  assumes "\<forall>a\<in>set as. - (2 ^ 63) \<le> op_value a \<and> op_value a < 2 ^ 63" "length as \<le> 2 ^ 29 - 2"
  shows "\<exists>s. run_set (intsetAdd junk) (intsetRemove junk) intsetFind intsetNew as = Some (s, set_answers {} as) \<and>
    intset_rep s (sorted_list_of_set (set_after {} as)) \<and>
    unat (intsetLen s) = card (set_after {} as) \<and>
    (\<forall>i<card (set_after {} as). intsetGet s (of_nat i) = Some (Some (sorted_list_of_set (set_after {} as) ! i))) \<and>
    (set_after {} as \<noteq> {} \<longrightarrow> intsetMin s = Some (Min (set_after {} as)) \<and> intsetMax s = Some (Max (set_after {} as)))"
proof -
  have "intset_holds intsetNew {}" using intsetNew_rep by (auto simp: intset_holds_def)
  moreover have "\<forall>a\<in>set as. fits_enc 8 (op_value a)" using assms(1) by (simp add: fits_enc_def)
  ultimately obtain s where s: "run_set (intsetAdd junk) (intsetRemove junk) intsetFind intsetNew as = Some (s, set_answers {} as)"
    "intset_holds s (set_after {} as)"
    using iset.run_refines [of intsetNew "{}" as junk] assms(2) by auto
  obtain xs where xs: "intset_rep s xs" "set xs = set_after {} as" using s(2) by (auto simp: intset_holds_def)
  have "sorted_list_of_set (set_after {} as) = xs"
    using intset_repD(5) [OF xs(1)] xs(2) by (metis sorted_list_of_set.idem_if_sorted_distinct strict_sorted_iff)
  then have l: "sorted_list_of_set (set xs) = xs" by (simp add: xs(2))
  have ne: "set xs \<noteq> {} \<Longrightarrow> xs \<noteq> []" by simp
  show ?thesis
    unfolding xs(2) [symmetric] l card_rep [OF xs(1)]
    by (intro exI [of _ s] conjI impI allI s(1) xs(1) intset_reads [OF xs(1)] ne)
qed

theorem intset_refines_set_witness:
  "\<exists>s. run_set (intsetAdd (\<lambda>_. 7)) (intsetRemove (\<lambda>_. 7)) intsetFind intsetNew
      [Set_Add 5, Set_Add 40000, Set_Add (- 3), Set_Add 5, Set_Remove 5, Set_Find 5, Set_Find 40000] =
    Some (s, [True, True, True, False, True, False, True]) \<and> intset_rep s [- 3, 40000]"
proof -
  have "insert (- 3) (insert 40000 {5}) - {5} = {- 3, 40000 :: int}" by auto
  then show ?thesis
    using intset_refines_set [of "[Set_Add 5, Set_Add 40000, Set_Add (- 3), Set_Add 5, Set_Remove 5, Set_Find 5, Set_Find 40000]" "\<lambda>_. 7"]
    by (auto simp: insert_commute)
qed

text \<open>
  C26: Widening in place is copying. When a value does not fit the width of a set,
  \<^verbatim>\<open>intsetUpgradeAndAdd\<close> grows the block and rewrites its entries in the new width inside the same memory,
  from the last one to the first. The result is the block that reading all entries first and
  writing them, with the new value before or behind them, into a new block would give: no entry is overwritten
  before it is read, and no uninitialised byte is left.
\<close>

theorem intset_upgrade_is_copy:
  assumes "intset_rep s xs" "- (2 ^ 63) \<le> v" "v < 2 ^ 63" "unat (is_encoding s) < intsetValueEncoding v" "Suc (length xs) < 2 ^ 29"
  shows "intsetUpgradeAndAdd junk s v = upgrade_copy s v"
proof -
  note r = intset_repD [OF assms(1)]
  have v: "fits_enc 8 v" using assms(2,3) by (simp add: fits_enc_def)
  then have nf: "\<not> fits_enc (unat (is_encoding s)) v" using value_encoding [OF v r(1)] assms(4) by simp
  have "map (\<lambda>i. intsetGet0 s (int i)) [0..<unat (is_length s)] = map Some xs"
    using r(3) by (intro nth_equalityI) (simp_all add: intsetGet0_rep [OF assms(1)])
  then show ?thesis
    using upgrade_ok [OF assms(1) v nf assms(5)] r(7) by (cases s) (simp add: upgrade_copy_def those_map_Some add.commute)
qed

theorem intset_upgrade_is_copy_witness:
  "intsetUpgradeAndAdd (\<lambda>_. 7) \<lparr>is_encoding = 2, is_length = 2, is_contents = [0xFE, 0xFF, 1, 0]\<rparr> 65536 =
   upgrade_copy \<lparr>is_encoding = 2, is_length = 2, is_contents = [0xFE, 0xFF, 1, 0]\<rparr> 65536"
proof -
  have "senc 2 (- 2) = [0xFE, 0xFF]" "senc 2 1 = [1, 0]" by (simp_all add: senc_def le_bytes_2)
  then show ?thesis
    by (intro intset_upgrade_is_copy [of _ "[- 2, 1]"])
      (simp_all add: intset_rep_def intset_typed_def fits_enc_def intsetValueEncoding_def INTSET_ENC_INT32_def)
qed

text \<open>
  C27: The check of a dumped set decides its type. On any bytes, fewer than 4 GB of them, the deep
  check of \<^verbatim>\<open>intsetValidateIntegrity\<close> reads inside them and returns; it accepts exactly the dumps of a
  non-empty set: a known width, a length that matches the size, and strictly increasing entries.
\<close>

theorem intset_validate_decides_type:
  assumes "length p < 2 ^ 32"
  shows "intsetValidateIntegrity p True = Some (\<exists>s xs. p = intset_blob s \<and> intset_typed s xs \<and> xs \<noteq> [])"
proof -
  let ?s = "blob_intset p"
  let ?e = "unat (is_encoding ?s)" and ?n = "unat (is_length ?s)"
  define ok where "ok \<longleftrightarrow> 8 \<le> length p \<and> ?e \<in> {2, 4, 8} \<and> 8 + ?n * ?e = length p \<and> ?n \<noteq> 0"
  have typed: "(\<exists>s xs. p = intset_blob s \<and> intset_typed s xs \<and> xs \<noteq> []) \<longleftrightarrow> ok \<and> (\<exists>xs. intset_typed ?s xs)"
  proof
    assume "\<exists>s xs. p = intset_blob s \<and> intset_typed s xs \<and> xs \<noteq> []"
    then obtain s xs where s: "p = intset_blob s" "intset_typed s xs" "xs \<noteq> []" by blast
    then have "?s = s" by (simp add: blob_intset_blob)
    moreover have "length p = 8 + length xs * unat (is_encoding s)" using s(1,2) by (simp add: intset_blob_def intset_typed_def)
    ultimately show "ok \<and> (\<exists>xs. intset_typed ?s xs)" using s(2,3) unfolding ok_def intset_typed_def by auto
  next
    assume *: "ok \<and> (\<exists>xs. intset_typed ?s xs)"
    then obtain xs where "intset_typed ?s xs" "xs \<noteq> []" by (auto simp: ok_def intset_typed_def)
    moreover have "p = intset_blob ?s" using * by (simp add: ok_def intset_blob_intset)
    ultimately show "\<exists>s xs. p = intset_blob s \<and> intset_typed s xs \<and> xs \<noteq> []" by blast
  qed
  show ?thesis
  proof (cases ok)
    case False
    then have "intsetValidateIntegrity p True = Some False"
      by (auto simp: ok_def intsetValidateIntegrity_def Let_def INTSET_ENC_INT64_def INTSET_ENC_INT32_def INTSET_ENC_INT16_def)
    with False typed show ?thesis by simp
  next
    case True
    then have o: "?e \<in> {2, 4, 8}" "length (is_contents ?s) = ?n * ?e" "?n \<noteq> 0" "8 + ?n * ?e = length p"
      by (auto simp: ok_def blob_intset_def)
    obtain xs where xs: "\<forall>i<length xs. intsetGet0 ?s (int i) = Some (xs ! i)" "length xs = ?n"
      "intset_typed ?s xs \<longleftrightarrow> sorted_wrt (<) xs"
      using typed_entries [OF o(1,2)] by blast
    have "intset_typed ?s ys \<Longrightarrow> ys = xs" for ys
      using typed_unique [of ?s ys] xs(1,2) by (intro nth_equalityI) (auto simp: intset_typed_def)
    then have ex: "(\<exists>xs. intset_typed ?s xs) \<longleftrightarrow> sorted_wrt (<) xs" using xs(3) by blast
    have "?n * 2 \<le> ?n * ?e" using o(1) by (intro mult_le_mono2) auto
    moreover have "(2 :: nat) ^ 32 = 2 ^ 31 * 2" by simp
    ultimately have "length xs < 2 ^ 31" using o(4) xs(2) assms by linarith
    then have "validate_loop ?s (xs ! 0) (Suc 0) (?n - 1) = Some (sorted_wrt (<) xs)"
      using validate_loop_ok [of xs ?s 0 "?n - 1"] xs(1,2) o(3) by simp
    moreover have "intsetValidateIntegrity p True = do { prev \<leftarrow> intsetGet0 ?s 0; validate_loop ?s prev 1 (?n - 1) }"
      using o by (auto simp: intsetValidateIntegrity_def Let_def INTSET_ENC_INT64_def INTSET_ENC_INT32_def INTSET_ENC_INT16_def)
    moreover have "intsetGet0 ?s 0 = Some (xs ! 0)" using spec [OF xs(1), of 0] xs(2) o(3) by simp
    ultimately show ?thesis using typed True ex by simp
  qed
qed

theorem intset_validate_decides_type_witness:
  "intsetValidateIntegrity [2, 0, 0, 0, 2, 0, 0, 0, 0xFE, 0xFF, 1, 0] True = Some True"
proof -
  let ?s = "\<lparr>is_encoding = 2, is_length = 2, is_contents = [0xFE, 0xFF, 1, 0]\<rparr>"
  have "le32 2 = [2, 0, 0, 0]" by (simp add: le32_def le_bytes_4)
  then have "[2, 0, 0, 0, 2, 0, 0, 0, 0xFE, 0xFF, 1, 0] = intset_blob ?s" by (simp add: intset_blob_def)
  moreover have "senc 2 (- 2) = [0xFE, 0xFF]" "senc 2 1 = [1, 0]" by (simp_all add: senc_def le_bytes_2)
  then have "intset_typed ?s [- 2, 1]" by (simp add: intset_typed_def fits_enc_def)
  ultimately have "\<exists>s xs. [2, 0, 0, 0, 2, 0, 0, 0, 0xFE, 0xFF, 1, 0] = intset_blob s \<and> intset_typed s xs \<and> xs \<noteq> []" by blast
  then show ?thesis
    using intset_validate_decides_type [of "[2, 0, 0, 0, 2, 0, 0, 0, 0xFE, 0xFF, 1, 0]"] by simp
qed

end
