(* ===== verification/Crc64.thy ===== *)
theory Crc64
  imports Prelude
begin

text \<open>
  The checksum of the dumps of Redis, \<^verbatim>\<open>redis/src/crc64.c\<close> and \<^verbatim>\<open>redis/src/crcspeed.c\<close>: the
  routine that shifts one bit at a time, from which the tables are made, and the routines that take
  eight bytes at a time from eight tables, one for each byte order. The address of the buffer
  is an argument, since the bytes before the first aligned word are taken one at a time.
\<close>

section \<open>Definitions\<close>

subsection \<open>Bit by bit\<close>

definition POLY :: u64 where
  "POLY = 0xad93d23594c935a9"

fun reflect_loop :: "nat \<Rightarrow> u64 \<Rightarrow> u64 \<Rightarrow> u64" where
  "reflect_loop 0 data ret = ret"
| "reflect_loop (Suc n) data ret =
     (let data = drop_bit 1 data in reflect_loop n data (push_bit 1 ret OR (data AND 0x01)))"

definition crc_reflect :: "u64 \<Rightarrow> nat \<Rightarrow> u64" where
  "crc_reflect data data_len = reflect_loop (data_len - 1) data (data AND 0x01)"

definition crc_bit :: "byte \<Rightarrow> u64 \<Rightarrow> byte \<Rightarrow> u64" where
  "crc_bit c crc i =
     (let b = crc AND 0x8000000000000000;
          b = (if c AND i \<noteq> 0 then (if b = 0 then 1 else 0) else b);
          crc = push_bit 1 crc
      in if b \<noteq> 0 then crc XOR POLY else crc)"

definition crc_byte :: "u64 \<Rightarrow> byte \<Rightarrow> u64" where
  "crc_byte crc c = foldl (crc_bit c) crc [0x01, 0x02, 0x04, 0x08, 0x10, 0x20, 0x40, 0x80] AND 0xffffffffffffffff"

text \<open>\<^verbatim>\<open>_crc64\<close>\<close>

definition crc64_bits :: "u64 \<Rightarrow> bytes \<Rightarrow> u64" where
  "crc64_bits crc data = crc_reflect (foldl crc_byte crc data AND 0xffffffffffffffff) 64 XOR 0x0000000000000000"

subsection \<open>Tables\<close>

type_synonym crc_table = "u64 list list"

text \<open>The entries of the tables \<open>k\<close>, \<open>k + 1\<close>, \<open>\<dots>\<close> for one byte, from its entry in the table before.\<close>

fun nested_crcs :: "u64 list \<Rightarrow> nat \<Rightarrow> u64 \<Rightarrow> u64 list" where
  "nested_crcs t0 0 crc = []"
| "nested_crcs t0 (Suc n) crc =
     (let crc = t0 ! unat (crc AND 0xff) XOR drop_bit 8 crc in crc # nested_crcs t0 n crc)"

definition crcspeed64little_init :: "(u64 \<Rightarrow> bytes \<Rightarrow> u64) \<Rightarrow> crc_table" where
  "crcspeed64little_init crcfn =
     (let t0 = map (\<lambda>n. crcfn 0 [of_nat n]) [0..<256];
          columns = map (\<lambda>n. nested_crcs t0 7 (t0 ! n)) [0..<256]
      in t0 # map (\<lambda>k. map (\<lambda>n. columns ! n ! (k - 1)) [0..<256]) [1..<8])"

definition rev8 :: "u64 \<Rightarrow> u64" where
  "rev8 a =
     (let m = 0x00ff00ff00ff00ff;
          a = (drop_bit 8 a AND m) OR push_bit 8 (a AND m);
          m = 0x0000ffff0000ffff;
          a = (drop_bit 16 a AND m) OR push_bit 16 (a AND m)
      in drop_bit 32 a OR push_bit 32 a)"

definition crcspeed64big_init :: "(u64 \<Rightarrow> bytes \<Rightarrow> u64) \<Rightarrow> crc_table" where
  "crcspeed64big_init fn = map (map rev8) (crcspeed64little_init fn)"

subsection \<open>Eight bytes at a time\<close>

definition little_step :: "crc_table \<Rightarrow> u64 \<Rightarrow> byte \<Rightarrow> u64" where
  "little_step t crc b = t ! 0 ! unat ((crc XOR ucast b) AND 0xff) XOR drop_bit 8 crc"

fun little_align :: "crc_table \<Rightarrow> nat \<Rightarrow> u64 \<Rightarrow> bytes \<Rightarrow> u64 \<times> bytes" where
  "little_align t addr crc [] = (crc, [])"
| "little_align t addr crc (b # bs) =
     (if addr mod 8 \<noteq> 0 then little_align t (addr + 1) (little_step t crc b) bs else (crc, b # bs))"

function little_words :: "crc_table \<Rightarrow> u64 \<Rightarrow> bytes \<Rightarrow> u64 \<times> bytes" where
  "little_words t crc bs =
     (if length bs \<ge> 8
      then let crc = crc XOR of_nat (le_val (take 8 bs));
               crc = t ! 7 ! unat (crc AND 0xff) XOR
                     t ! 6 ! unat (drop_bit 8 crc AND 0xff) XOR
                     t ! 5 ! unat (drop_bit 16 crc AND 0xff) XOR
                     t ! 4 ! unat (drop_bit 24 crc AND 0xff) XOR
                     t ! 3 ! unat (drop_bit 32 crc AND 0xff) XOR
                     t ! 2 ! unat (drop_bit 40 crc AND 0xff) XOR
                     t ! 1 ! unat (drop_bit 48 crc AND 0xff) XOR
                     t ! 0 ! unat (drop_bit 56 crc)
           in little_words t crc (drop 8 bs)
      else (crc, bs))"
  by auto

termination little_words
  by (relation "measure (\<lambda>(t, crc, bs). length bs)") auto

definition crcspeed64little :: "crc_table \<Rightarrow> u64 \<Rightarrow> nat \<Rightarrow> bytes \<Rightarrow> u64" where
  "crcspeed64little t crc addr buf =
     (let (crc, buf) = little_align t addr crc buf;
          (crc, buf) = little_words t crc buf
      in foldl (little_step t) crc buf)"

definition big_step :: "crc_table \<Rightarrow> u64 \<Rightarrow> byte \<Rightarrow> u64" where
  "big_step t crc b = t ! 0 ! unat (drop_bit 56 crc XOR ucast b) XOR push_bit 8 crc"

fun big_align :: "crc_table \<Rightarrow> nat \<Rightarrow> u64 \<Rightarrow> bytes \<Rightarrow> u64 \<times> bytes" where
  "big_align t addr crc [] = (crc, [])"
| "big_align t addr crc (b # bs) =
     (if addr mod 8 \<noteq> 0 then big_align t (addr + 1) (big_step t crc b) bs else (crc, b # bs))"

function big_words :: "crc_table \<Rightarrow> u64 \<Rightarrow> bytes \<Rightarrow> u64 \<times> bytes" where
  "big_words t crc bs =
     (if length bs \<ge> 8
      then let crc = crc XOR of_nat (le_val (rev (take 8 bs)));
               crc = t ! 0 ! unat (crc AND 0xff) XOR
                     t ! 1 ! unat (drop_bit 8 crc AND 0xff) XOR
                     t ! 2 ! unat (drop_bit 16 crc AND 0xff) XOR
                     t ! 3 ! unat (drop_bit 24 crc AND 0xff) XOR
                     t ! 4 ! unat (drop_bit 32 crc AND 0xff) XOR
                     t ! 5 ! unat (drop_bit 40 crc AND 0xff) XOR
                     t ! 6 ! unat (drop_bit 48 crc AND 0xff) XOR
                     t ! 7 ! unat (drop_bit 56 crc)
           in big_words t crc (drop 8 bs)
      else (crc, bs))"
  by auto

termination big_words
  by (relation "measure (\<lambda>(t, crc, bs). length bs)") auto

definition crcspeed64big :: "crc_table \<Rightarrow> u64 \<Rightarrow> nat \<Rightarrow> bytes \<Rightarrow> u64" where
  "crcspeed64big t crc addr buf =
     (let crc = rev8 crc;
          (crc, buf) = big_align t addr crc buf;
          (crc, buf) = big_words t crc buf
      in rev8 (foldl (big_step t) crc buf))"

text \<open>\<open>little\<close> is the byte order of the machine, which the code reads off a word in memory.\<close>

definition crcspeed64native :: "bool \<Rightarrow> crc_table \<Rightarrow> u64 \<Rightarrow> nat \<Rightarrow> bytes \<Rightarrow> u64" where
  "crcspeed64native little t crc addr buf =
     (if little then crcspeed64little t crc addr buf else crcspeed64big t crc addr buf)"

definition crcspeed64native_init :: "bool \<Rightarrow> (u64 \<Rightarrow> bytes \<Rightarrow> u64) \<Rightarrow> crc_table" where
  "crcspeed64native_init little fn = (if little then crcspeed64little_init fn else crcspeed64big_init fn)"

definition crc64_init :: "bool \<Rightarrow> crc_table" where
  "crc64_init little = crcspeed64native_init little crc64_bits"

definition crc64 :: "bool \<Rightarrow> crc_table \<Rightarrow> u64 \<Rightarrow> nat \<Rightarrow> bytes \<Rightarrow> u64" where
  "crc64 little crc64_table crc addr s = crcspeed64native little crc64_table crc addr s"

declare little_words.simps [simp del] big_words.simps [simp del]

section \<open>Reflection\<close>

lemma reflect_step_bit:
  "bit (push_bit 1 ret OR (drop_bit 1 data AND 1) :: u64) j \<longleftrightarrow> (if j = 0 then bit data 1 else j < 64 \<and> bit ret (j - 1))"
  by (simp only: bit_or_iff bit_and_iff bit_push_bit_iff bit_drop_bit_eq bit_1_iff comp_def) auto

lemma reflect_loop_bit:
  "bit (reflect_loop n data ret) k \<longleftrightarrow> k < 64 \<and> (if k < n then bit data (n - k) else bit ret (k - n))"
proof (induction n arbitrary: data ret)
  case (Suc n)
  have d: "bit (drop_bit 1 data) j \<longleftrightarrow> bit data (Suc j)" for j by (simp add: bit_drop_bit_eq)
  consider "k < n" | "k = n" | "n < k" by linarith
  then show ?case
    unfolding reflect_loop.simps Let_def Suc.IH reflect_step_bit d by cases (auto simp: Suc_diff_le)
qed (auto dest: bit_imp_le_length)

lemma reflect_bit: "bit (crc_reflect x 64) k \<longleftrightarrow> k < 64 \<and> bit x (63 - k)"
  unfolding crc_reflect_def reflect_loop_bit by (auto simp: bit_and_iff bit_1_iff)

lemma reflect_reflect: "crc_reflect (crc_reflect x 64) 64 = x"
  by (rule bit_eqI) (auto simp: reflect_bit dest: bit_imp_le_length)

section \<open>The shift register\<close>

text \<open>The register in the reflected order, shifted by one bit.\<close>

definition lshift :: "u64 \<Rightarrow> u64" where
  "lshift r = drop_bit 1 r XOR (if bit r 0 then crc_reflect POLY 64 else 0)"

lemma bit_mult2: "bit (x * 2 :: u64) n \<longleftrightarrow> n \<noteq> 0 \<and> n < 64 \<and> bit x (n - 1)"
  by (auto simp: bit_double_iff mult.commute [of x])

lemma top_bit: "(x :: u64) AND 0x8000000000000000 \<noteq> 0 \<longleftrightarrow> bit x 63"
  using bit_iff_and_push_bit_not_eq_0 [of x 63] by simp

lemma and_full [simp]: "(x :: u64) AND 0xffffffffffffffff = x"
proof -
  have "(0xffffffffffffffff :: u64) = - 1" by simp
  then show ?thesis by (simp only: and.right_neutral)
qed

lemma reflect_crc_bit:
  assumes "c AND i \<noteq> 0 \<longleftrightarrow> b"
  shows "crc_reflect (crc_bit c crc i) 64 = lshift (crc_reflect crc 64 XOR (if b then 1 else 0))"
proof -
  have "crc_bit c crc i = push_bit 1 crc XOR (if bit crc 63 \<noteq> b then POLY else 0)"
    using assms top_bit [of crc] by (auto simp: crc_bit_def Let_def)
  then show ?thesis
    by (intro bit_eqI) (auto simp: lshift_def reflect_bit bit_xor_iff bit_mult2 bit_drop_bit_eq bit_1_iff)
qed

lemma lshift_xor: "lshift (a XOR b) = lshift a XOR lshift b"
  by (rule bit_eqI) (auto simp: lshift_def bit_xor_iff bit_drop_bit_eq)

lemma lshift_push: "\<not> bit x 63 \<Longrightarrow> lshift (push_bit 1 x) = x"
proof (rule bit_eqI)
  fix n assume *: "\<not> bit x 63"
  then have "bit x n \<Longrightarrow> n < 63" using bit_imp_le_length [of x n] by (cases "n = 63") auto
  then show "bit (lshift (push_bit 1 x)) n \<longleftrightarrow> bit x n"
    by (cases "n < 63") (auto simp: lshift_def bit_xor_iff bit_mult2 bit_drop_bit_eq)
qed

definition shiftn :: "nat \<Rightarrow> u64 \<Rightarrow> u64" where
  "shiftn n = lshift ^^ n"

lemma shiftn_0 [simp]: "shiftn 0 x = x"
  by (simp add: shiftn_def)

lemma shiftn_1: "shiftn 1 x = lshift x"
  by (simp add: shiftn_def)

lemma shiftn_add: "shiftn (m + n) x = shiftn m (shiftn n x)"
  by (simp add: shiftn_def funpow_add)

lemma shiftn_xor: "shiftn n (a XOR b) = shiftn n a XOR shiftn n b"
  by (induction n) (simp_all add: shiftn_def lshift_xor)

text \<open>A value that fits moves down unchanged.\<close>

lemma shiftn_push: "k \<le> 64 \<Longrightarrow> \<forall>j\<ge>64 - k. \<not> bit x j \<Longrightarrow> shiftn k (push_bit k x) = x"
proof (induction k)
  case (Suc k)
  have "\<not> bit (push_bit k x) 63" using Suc.prems by (auto simp: bit_push_bit_iff)
  then have "shiftn (Suc k) (push_bit (Suc k) x) = shiftn k (push_bit k x)"
    using lshift_push [of "push_bit k x"] by (simp add: shiftn_def funpow_swap1 push_bit_double)
  then show ?case using Suc by simp
qed simp

lemma shiftn_push_more: "k \<le> n \<Longrightarrow> k \<le> 64 \<Longrightarrow> \<forall>j\<ge>64 - k. \<not> bit x j \<Longrightarrow> shiftn n (push_bit k x) = shiftn (n - k) x"
  using shiftn_add [of "n - k" k "push_bit k x"] shiftn_push [of k x] by simp

text \<open>A word of digits of \<open>w\<close> bits, the first one lowest.\<close>

fun digits :: "nat \<Rightarrow> u64 list \<Rightarrow> u64" where
  "digits w [] = 0"
| "digits w (d # ds) = d XOR push_bit w (digits w ds)"

definition below :: "nat \<Rightarrow> u64 \<Rightarrow> bool" where
  "below w x \<longleftrightarrow> (\<forall>j\<ge>w. \<not> bit x j)"

lemma below_digits: "\<forall>d\<in>set ds. below w d \<Longrightarrow> below (w * length ds) (digits w ds)"
proof (induction ds)
  case (Cons d ds)
  then show ?case by (auto simp: below_def bit_xor_iff bit_push_bit_iff)
qed (simp add: below_def)

lemma digits_bit:
  assumes "0 < w"
  shows "\<forall>d\<in>set ds. below w d \<Longrightarrow>
    bit (digits w ds) n \<longleftrightarrow> n < 64 \<and> n div w < length ds \<and> bit (ds ! (n div w)) (n mod w)"
proof (induction ds arbitrary: n)
  case (Cons d ds)
  show ?case
  proof (cases "n < w")
    case True
    then show ?thesis by (auto simp: bit_xor_iff bit_push_bit_iff dest: bit_imp_le_length)
  next
    case False
    then have "\<not> bit d n" "n div w = Suc ((n - w) div w)" "n mod w = (n - w) mod w" 
      using Cons.prems assms by (simp_all add: below_def le_div_geq le_mod_geq)
    then show ?thesis using Cons False by (auto simp: bit_xor_iff bit_push_bit_iff)
  qed
qed simp

text \<open>Feeding digits one after the other is shifting in all of them.\<close>

lemma feed_digits:
  assumes "0 < w"
  shows "w * length ds \<le> 64 \<Longrightarrow> \<forall>d\<in>set ds. below w d \<Longrightarrow>
    foldl (\<lambda>r d. shiftn w (r XOR d)) r ds = shiftn (w * length ds) (r XOR digits w ds)"
proof (induction ds arbitrary: r)
  case (Cons d ds)
  have b: "below (w * length ds) (digits w ds)" using Cons.prems(2) by (intro below_digits) simp
  have "shiftn w (push_bit w (digits w ds)) = digits w ds"
    using b Cons.prems(1) by (intro shiftn_push) (auto simp: below_def)
  then have "shiftn w (r XOR digits w (d # ds)) = shiftn w (r XOR d) XOR digits w ds"
    by (simp add: shiftn_xor xor.assoc)
  then show ?case
    using Cons.IH [of "shiftn w (r XOR d)"] Cons.prems shiftn_add [of "w * length ds" w] by (simp add: add.commute)
qed simp

lemma reflect_crc_byte: "crc_reflect (crc_byte crc c) 64 = shiftn 8 (crc_reflect crc 64 XOR ucast c)"
proof -
  have b: "c AND (0x01 :: byte) \<noteq> 0 \<longleftrightarrow> bit c 0" "c AND (0x02 :: byte) \<noteq> 0 \<longleftrightarrow> bit c 1" "c AND (0x04 :: byte) \<noteq> 0 \<longleftrightarrow> bit c 2"
    "c AND (0x08 :: byte) \<noteq> 0 \<longleftrightarrow> bit c 3" "c AND (0x10 :: byte) \<noteq> 0 \<longleftrightarrow> bit c 4" "c AND (0x20 :: byte) \<noteq> 0 \<longleftrightarrow> bit c 5"
    "c AND (0x40 :: byte) \<noteq> 0 \<longleftrightarrow> bit c 6" "c AND (0x80 :: byte) \<noteq> 0 \<longleftrightarrow> bit c 7"
    using bit_iff_and_push_bit_not_eq_0 [of c 0] bit_iff_and_push_bit_not_eq_0 [of c 1] bit_iff_and_push_bit_not_eq_0 [of c 2]
      bit_iff_and_push_bit_not_eq_0 [of c 3] bit_iff_and_push_bit_not_eq_0 [of c 4] bit_iff_and_push_bit_not_eq_0 [of c 5]
      bit_iff_and_push_bit_not_eq_0 [of c 6] bit_iff_and_push_bit_not_eq_0 [of c 7] by simp_all
  let ?ds = "map (\<lambda>k. if bit c k then 1 else 0 :: u64) [0, 1, 2, 3, 4, 5, 6, 7]"
  have sm: "\<forall>d\<in>set ?ds. below 1 d" by (auto simp: below_def bit_1_iff)
  have "crc_byte crc c = foldl (crc_bit c) crc [0x01, 0x02, 0x04, 0x08, 0x10, 0x20, 0x40, 0x80]" by (simp add: crc_byte_def)
  then have "crc_reflect (crc_byte crc c) 64 = foldl (\<lambda>r d. shiftn 1 (r XOR d)) (crc_reflect crc 64) ?ds"
    unfolding foldl.simps list.map by (simp only: reflect_crc_bit [OF b(1)] reflect_crc_bit [OF b(2)] reflect_crc_bit [OF b(3)] reflect_crc_bit [OF b(4)]
      reflect_crc_bit [OF b(5)] reflect_crc_bit [OF b(6)] reflect_crc_bit [OF b(7)] reflect_crc_bit [OF b(8)] shiftn_1)
  also have "\<dots> = shiftn (1 * length ?ds) (crc_reflect crc 64 XOR digits 1 ?ds)"
    by (rule feed_digits [OF zero_less_one _ sm]) simp
  also have "digits 1 ?ds = ucast c"
  proof (rule bit_eqI)
    fix n
    have "[0, 1, 2, 3, 4, 5, 6, 7] = [0..<8 :: nat]" by code_simp
    then have "bit (digits 1 ?ds) n \<longleftrightarrow> n < 64 \<and> n < 8 \<and> bit (map (\<lambda>k. if bit c k then 1 else 0 :: u64) [0..<8] ! n) 0"
      using digits_bit [OF zero_less_one sm, of n] by simp
    then show "bit (digits 1 ?ds) n \<longleftrightarrow> bit (ucast c :: u64) n"
      using bit_imp_le_length [of c n] by (cases "bit c n") (auto simp: bit_ucast_iff)
  qed
  finally show ?thesis by (simp add: eval_nat_numeral)
qed

lemma reflect_crc64_bits: "crc64_bits crc data = foldl (\<lambda>r b. shiftn 8 (r XOR ucast b)) (crc_reflect crc 64) data"
proof -
  have "crc_reflect (foldl crc_byte crc data) 64 = foldl (\<lambda>r b. shiftn 8 (r XOR ucast b)) (crc_reflect crc 64) data"
    by (induction data arbitrary: crc) (simp_all add: reflect_crc_byte)
  then show ?thesis by (simp add: crc64_bits_def)
qed

section \<open>The tables\<close>

lemma below_byte: "below 8 (ucast (b :: byte))"
  by (auto simp: below_def bit_ucast_iff dest: bit_imp_le_length)

lemma bit_and_ff: "bit (x AND 0xff :: u64) n \<longleftrightarrow> n < 8 \<and> bit x n"
proof -
  have "x AND 0xff = take_bit 8 x" by (simp add: take_bit_eq_mask mask_eq_exp_minus_1)
  then show ?thesis by (simp add: bit_take_bit_iff)
qed

lemma below_and: "below 8 (x AND 0xff)"
  by (simp add: below_def bit_and_ff)

lemma low_byte: "x = (x AND 0xff) XOR push_bit 8 (drop_bit 8 (x :: u64))"
  by (rule bit_eqI) (auto simp: bit_xor_iff bit_and_ff bit_push_bit_iff bit_drop_bit_eq dest: bit_imp_le_length)

text \<open>One lookup in the first table shifts by a byte.\<close>

lemma shift_byte: "shiftn 8 x = shiftn 8 (x AND 0xff) XOR drop_bit 8 x"
proof -
  have "shiftn 8 (push_bit 8 (drop_bit 8 x)) = drop_bit 8 x"
    by (rule shiftn_push) (auto simp: bit_drop_bit_eq dest: bit_imp_le_length)
  then show ?thesis using arg_cong [OF low_byte [of x], of "shiftn 8"] by (simp add: shiftn_xor)
qed

lemma unat_below: "below 8 x \<Longrightarrow> unat x < 256"
proof -
  assume "below 8 x"
  then have "x = take_bit 8 x" by (intro bit_eqI) (simp add: below_def bit_take_bit_iff, metis not_le)
  then have "unat x = take_bit 8 (unat x)" by (metis unsigned_take_bit_eq)
  then show ?thesis using take_bit_nat_less_exp [of 8 "unat x"] by simp
qed

definition little_tables :: "crc_table \<Rightarrow> bool" where
  "little_tables t \<longleftrightarrow> length t = 8 \<and> (\<forall>k<8. length (t ! k) = 256) \<and> (\<forall>k<8. \<forall>n<256. t ! k ! n = shiftn (8 * (k + 1)) (of_nat n))"

lemma nested_crcs_nth:
  assumes "\<And>n. n < 256 \<Longrightarrow> t0 ! n = shiftn 8 (of_nat n)"
  shows "k < m \<Longrightarrow> nested_crcs t0 m x ! k = shiftn (8 * (k + 1)) x"
proof (induction m arbitrary: k x)
  case (Suc m)
  have "t0 ! unat (x AND 0xff) = shiftn 8 (x AND 0xff)"
    using assms [of "unat (x AND 0xff)"] unat_below [OF below_and] by simp
  then have s: "t0 ! unat (x AND 0xff) XOR drop_bit 8 x = shiftn 8 x" by (simp add: shift_byte [of x])
  show ?case
  proof (cases k)
    case (Suc k')
    then show ?thesis using Suc.IH [of k' "shiftn 8 x"] Suc.prems s shiftn_add [of "8 * (k' + 1)" 8 x] by (simp add: Let_def add.commute)
  qed (simp add: Let_def s)
qed simp

lemma init_little: "little_tables (crcspeed64little_init crc64_bits)"
proof -
  let ?t0 = "map (\<lambda>n. crc64_bits 0 [of_nat n]) [0..<256]"
  have r0: "crc_reflect 0 64 = 0" by (rule bit_eqI) (simp add: reflect_bit)
  have t0: "?t0 ! n = shiftn 8 (of_nat n)" if "n < 256" for n
  proof -
    have "(ucast (of_nat n :: byte) :: u64) = of_nat n" using that by (simp add: unsigned_of_nat take_bit_nat_eq_self)
    then show ?thesis using that by (simp add: reflect_crc64_bits r0)
  qed
  have len: "length (crcspeed64little_init crc64_bits) = 8" "k < 8 \<Longrightarrow> length (crcspeed64little_init crc64_bits ! k) = 256" for k
    by (cases k; simp add: crcspeed64little_init_def Let_def del: upt_Suc)+
  show ?thesis
    unfolding little_tables_def
  proof (intro conjI allI impI len)
    fix k n :: nat assume k: "k < 8" and n: "n < 256"
    show "crcspeed64little_init crc64_bits ! k ! n = shiftn (8 * (k + 1)) (of_nat n)"
    proof (cases k)
      case 0
      then show ?thesis using t0 [OF n] by (simp add: crcspeed64little_init_def Let_def)
    next
      case (Suc j)
      then have "crcspeed64little_init crc64_bits ! k ! n = nested_crcs ?t0 7 (?t0 ! n) ! j"
        using k n by (simp add: crcspeed64little_init_def Let_def del: upt_Suc)
      also have "\<dots> = shiftn (8 * (j + 1)) (shiftn 8 (of_nat n))"
        using nested_crcs_nth [of ?t0 j 7] t0 Suc k n by simp
      finally show ?thesis using Suc shiftn_add [of "8 * (j + 1)" 8] by (simp add: add.commute)
    qed
  qed
qed

lemma little_step_shift: "little_tables t \<Longrightarrow> little_step t crc b = shiftn 8 (crc XOR ucast b)"
proof -
  assume t: "little_tables t"
  have "t ! 0 ! unat ((crc XOR ucast b) AND 0xff) = shiftn 8 ((crc XOR ucast b) AND 0xff)"
    using t unat_below [OF below_and, of "crc XOR ucast b"] by (simp add: little_tables_def)
  moreover have "drop_bit 8 (crc XOR ucast b) = drop_bit 8 crc"
    using below_byte [of b] by (intro bit_eqI) (simp add: bit_drop_bit_eq bit_xor_iff below_def)
  ultimately show ?thesis by (simp add: little_step_def shift_byte [of "crc XOR ucast b"])
qed

section \<open>A word at a time\<close>

lemma le_val_digits: "length bs \<le> 8 \<Longrightarrow> of_nat (le_val bs) = digits 8 (map ucast bs)"
proof (induction bs)
  case (Cons b bs)
  have "ucast b AND push_bit 8 (digits 8 (map ucast bs)) = 0"
    by (rule bit_eqI) (use below_byte [of b] in \<open>auto simp: bit_and_iff bit_push_bit_iff below_def\<close>)
  then have "ucast b + push_bit 8 (digits 8 (map ucast bs)) = digits 8 (map ucast (b # bs))"
    by (simp add: disjunctive_add_eq_xor)
  then show ?case using Cons by (simp add: push_bit_eq_mult mult.commute)
qed simp

lemma shift_slice: "shiftn (8 * Suc m) x = shiftn (8 * Suc m) (x AND 0xff) XOR shiftn (8 * m) (drop_bit 8 x)"
proof -
  have "8 * Suc m = 8 * m + 8" by simp
  then show ?thesis by (simp only: shiftn_add shift_byte [of x] shiftn_xor)
qed

lemma little_lookup:
  assumes "little_tables t" "k < 8" "below 8 x"
  shows "t ! k ! unat x = shiftn (8 * Suc k) x"
proof -
  have "t ! k ! unat x = shiftn (8 * (k + 1)) (of_nat (unat x))" using assms(1,2) unat_below [OF assms(3)] unfolding little_tables_def by blast
  then show ?thesis by simp
qed

lemma below_top: "below 8 (drop_bit 56 x)"
  by (auto simp: below_def bit_drop_bit_eq dest: bit_imp_le_length)

lemma little_word:
  assumes t: "little_tables t"
  shows "t ! 7 ! unat (x AND 0xff) XOR t ! 6 ! unat (drop_bit 8 x AND 0xff) XOR t ! 5 ! unat (drop_bit 16 x AND 0xff) XOR
     t ! 4 ! unat (drop_bit 24 x AND 0xff) XOR t ! 3 ! unat (drop_bit 32 x AND 0xff) XOR t ! 2 ! unat (drop_bit 40 x AND 0xff) XOR
     t ! 1 ! unat (drop_bit 48 x AND 0xff) XOR t ! 0 ! unat (drop_bit 56 x) = shiftn 64 x"
proof -
  note l = little_lookup [OF t _ below_and]
  have s: "shiftn (8 * Suc 7) x = shiftn 64 x" "shiftn (8 * Suc 0) (drop_bit 56 x) = shiftn 8 (drop_bit 56 x)" by simp_all
  have u: "7 = Suc 6" "6 = Suc 5" "5 = Suc 4" "4 = Suc 3" "3 = Suc 2" "2 = Suc 1" "1 = Suc 0" by simp_all
  have "shiftn (8 * Suc 7) x = shiftn (8 * Suc 7) (x AND 0xff) XOR (shiftn (8 * Suc 6) (drop_bit 8 x AND 0xff) XOR
     (shiftn (8 * Suc 5) (drop_bit 16 x AND 0xff) XOR (shiftn (8 * Suc 4) (drop_bit 24 x AND 0xff) XOR
     (shiftn (8 * Suc 3) (drop_bit 32 x AND 0xff) XOR (shiftn (8 * Suc 2) (drop_bit 40 x AND 0xff) XOR
     (shiftn (8 * Suc 1) (drop_bit 48 x AND 0xff) XOR shiftn (8 * Suc 0) (drop_bit 56 x)))))))"
    using shift_slice [of 7 x] shift_slice [of 6 "drop_bit 8 x"] shift_slice [of 5 "drop_bit 16 x"] shift_slice [of 4 "drop_bit 24 x"]
      shift_slice [of 3 "drop_bit 32 x"] shift_slice [of 2 "drop_bit 40 x"] shift_slice [of 1 "drop_bit 48 x"]
    by simp
  then show ?thesis
    using l [of 7 x] l [of 6 "drop_bit 8 x"] l [of 5 "drop_bit 16 x"] l [of 4 "drop_bit 24 x"] l [of 3 "drop_bit 32 x"]
      l [of 2 "drop_bit 40 x"] l [of 1 "drop_bit 48 x"] little_lookup [OF t _ below_top, of 0 x]
    by (simp add: xor.assoc)
qed

definition feed :: "u64 \<Rightarrow> bytes \<Rightarrow> u64" where
  "feed = foldl (\<lambda>r b. shiftn 8 (r XOR ucast b))"

lemma feed_word:
  assumes "length bs = 8"
  shows "feed r bs = shiftn 64 (r XOR of_nat (le_val bs))"
proof -
  let ?ds = "map ucast bs :: u64 list"
  have "\<forall>d\<in>set ?ds. below 8 d" using below_byte by auto
  then have "foldl (\<lambda>r d. shiftn 8 (r XOR d)) r ?ds = shiftn (8 * length ?ds) (r XOR digits 8 ?ds)"
    using assms by (intro feed_digits) simp_all
  then show ?thesis using assms le_val_digits [of bs] by (simp add: feed_def foldl_map)
qed

lemma little_align_feed: "little_tables t \<Longrightarrow> little_align t addr crc bs = (c, r) \<Longrightarrow> feed crc bs = feed c r"
proof (induction t addr crc bs rule: little_align.induct)
  case (2 t addr crc b bs)
  then show ?case by (auto simp: little_step_shift feed_def split: if_splits)
qed simp

lemma little_words_feed: "little_tables t \<Longrightarrow> little_words t crc bs = (c, r) \<Longrightarrow> feed crc bs = feed c r"
proof (induction t crc bs rule: little_words.induct)
  case (1 t crc bs)
  show ?case
  proof (cases "length bs \<ge> 8")
    case True
    let ?x = "crc XOR of_nat (le_val (take 8 bs))"
    have "little_words t (shiftn 64 ?x) (drop 8 bs) = (c, r)"
      using "1.prems" True by (subst (asm) little_words.simps) (simp only: Let_def if_True little_word)
    then have "feed (shiftn 64 ?x) (drop 8 bs) = feed c r"
      using "1.IH" [OF True refl] "1.prems"(1) by (simp only: little_word)
    moreover have "feed crc bs = feed (feed crc (take 8 bs)) (drop 8 bs)"
      by (simp add: feed_def flip: foldl_append)
    ultimately show ?thesis using feed_word [of "take 8 bs" crc] True by simp
  next
    case False
    then show ?thesis using "1.prems"(2) by (simp add: little_words.simps)
  qed
qed

lemma crcspeed64little_feed: "little_tables t \<Longrightarrow> crcspeed64little t crc addr buf = feed crc buf"
proof -
  assume t: "little_tables t"
  obtain c1 b1 where 1: "little_align t addr crc buf = (c1, b1)" by fastforce
  obtain c2 b2 where 2: "little_words t c1 b1 = (c2, b2)" by fastforce
  have "little_step t = (\<lambda>r b. shiftn 8 (r XOR ucast b))" using little_step_shift [OF t] by blast
  then show ?thesis
    using little_align_feed [OF t 1] little_words_feed [OF t 2] 1 2 by (simp add: crcspeed64little_def feed_def)
qed

section \<open>The other byte order\<close>

lemma rev8_bit: "bit (rev8 a) n \<longleftrightarrow> n < 64 \<and> bit a (8 * (7 - n div 8) + n mod 8)"
proof (cases "n < 64")
  case True
  then have "n \<in> set [0..<64]" by simp
  moreover have "\<forall>n\<in>set [0..<64]. bit (rev8 a) n \<longleftrightarrow> bit a (8 * (7 - n div 8) + n mod 8)"
    by (simp add: upt_rec rev8_def Let_def bit_or_iff bit_and_iff bit_push_bit_iff bit_drop_bit_eq, simp add: eval_nat_numeral)
  ultimately show ?thesis using True by blast
qed (use bit_imp_le_length [of "rev8 a" n] in auto)

lemma rev8_xor: "rev8 (a XOR b) = rev8 a XOR rev8 b"
  by (rule bit_eqI) (auto simp: rev8_bit bit_xor_iff)

lemma rev8_index:
  assumes "n < 64"
  shows "n div 8 \<le> 7" "8 * (7 - n div 8) + n mod 8 < (64 :: nat)" "(8 * (7 - n div 8) + n mod 8) div 8 = 7 - n div 8"
    "(8 * (7 - n div 8) + n mod 8) mod 8 = n mod 8"
proof -
  show d: "n div 8 \<le> 7" using assms by presburger
  have "n mod 8 < 8" by simp
  then show "8 * (7 - n div 8) + n mod 8 < 64" "(8 * (7 - n div 8) + n mod 8) div 8 = 7 - n div 8" using d by linarith+
qed simp

lemma rev8_rev8: "rev8 (rev8 a) = a"
proof (rule bit_eqI)
  fix n :: nat
  let ?m = "8 * (7 - n div 8) + n mod 8"
  have "?m < 64 \<and> 8 * (7 - ?m div 8) + ?m mod 8 = n" if "n < 64"
    using rev8_index [OF that] div_mult_mod_eq [of n 8] by simp
  then show "bit (rev8 (rev8 a)) n \<longleftrightarrow> bit a n" using bit_imp_le_length [of a n] by (auto simp: rev8_bit)
qed

lemma rev8_drop: "rev8 (drop_bit 8 x) = push_bit 8 (rev8 x)"
proof (rule bit_eqI)
  fix n
  show "bit (rev8 (drop_bit 8 x)) n \<longleftrightarrow> bit (push_bit 8 (rev8 x)) n"
  proof (cases "8 \<le> n \<and> n < 64")
    case True
    then have "n div 8 = Suc ((n - 8) div 8)" "n mod 8 = (n - 8) mod 8" by (simp_all add: le_div_geq le_mod_geq)
    moreover have "(n - 8) div 8 < 7" using True by presburger
    moreover from this have "8 + (8 * (6 - (n - 8) div 8) + (n - 8) mod 8) = 8 * (7 - (n - 8) div 8) + (n - 8) mod 8" "n - 8 < 64"
      using True by linarith+
    ultimately show ?thesis using True by (simp add: rev8_bit bit_drop_bit_eq bit_push_bit_iff flip: add.assoc)
  next
    case False
    then show ?thesis by (auto simp: rev8_bit bit_drop_bit_eq bit_push_bit_iff not_le dest: bit_imp_le_length)
  qed
qed

lemma rev8_byte: "j < 8 \<Longrightarrow> drop_bit (8 * j) (rev8 x) AND 0xff = drop_bit (8 * (7 - j)) x AND 0xff"
proof (rule bit_eqI)
  fix n assume j: "j < 8"
  show "bit (drop_bit (8 * j) (rev8 x) AND 0xff) n \<longleftrightarrow> bit (drop_bit (8 * (7 - j)) x AND 0xff) n"
    using j by (cases "n < 8") (simp_all add: bit_and_ff bit_drop_bit_eq rev8_bit)
qed

lemma rev8_word: "length bs = 8 \<Longrightarrow> of_nat (le_val (rev bs)) = rev8 (of_nat (le_val bs))"
proof (rule bit_eqI)
  fix n :: nat assume l: "length bs = 8"
  have sm: "\<forall>d\<in>set (map ucast bs). below 8 (d :: u64)" "\<forall>d\<in>set (map ucast (rev bs)). below 8 (d :: u64)" using below_byte by auto
  note b = digits_bit [OF _ sm(1)] digits_bit [OF _ sm(2)]
  show "bit (of_nat (le_val (rev bs)) :: u64) n \<longleftrightarrow> bit (rev8 (of_nat (le_val bs))) n"
  proof (cases "n < 64")
    case True
    let ?m = "8 * (7 - n div 8) + n mod 8"
    have m: "n div 8 \<le> 7" "?m < 64" "?m div 8 = 7 - n div 8" "?m mod 8 = n mod 8" using rev8_index [OF True] by simp_all
    have "bit (of_nat (le_val (rev bs)) :: u64) n \<longleftrightarrow> bit (ucast (rev bs ! (n div 8)) :: u64) (n mod 8)"
      using l m(1) True b(2) [of n] by (simp add: le_val_digits)
    moreover have "bit (of_nat (le_val bs) :: u64) ?m \<longleftrightarrow> bit (ucast (bs ! (7 - n div 8)) :: u64) (n mod 8)"
      using l m b(1) [of ?m] by (simp add: le_val_digits)
    ultimately show ?thesis using l m(1) True by (simp add: rev8_bit rev_nth)
  qed (auto simp: rev8_bit dest: bit_imp_le_length)
qed

definition big_tables :: "crc_table \<Rightarrow> crc_table \<Rightarrow> bool" where
  "big_tables t u \<longleftrightarrow> little_tables t \<and> u = map (map rev8) t"

lemma big_lookup: "big_tables t u \<Longrightarrow> k < 8 \<Longrightarrow> below 8 x \<Longrightarrow> u ! k ! unat x = rev8 (t ! k ! unat x)"
  using unat_below [of x] by (simp add: big_tables_def little_tables_def)

lemma big_step_rev8: "big_tables t u \<Longrightarrow> big_step u (rev8 crc) b = rev8 (little_step t crc b)"
proof -
  assume u: "big_tables t u"
  have "drop_bit 56 (rev8 crc) XOR ucast b = (crc XOR ucast b) AND 0xff"
  proof (rule bit_eqI)
    fix n :: nat
    have "n < 8 \<Longrightarrow> (56 + n) mod 8 = n" by presburger
    then show "bit (drop_bit 56 (rev8 crc) XOR ucast b) n \<longleftrightarrow> bit ((crc XOR ucast b) AND 0xff) n"
      using below_byte [of b] by (cases "n < 8") (auto simp: bit_and_ff bit_drop_bit_eq rev8_bit bit_xor_iff below_def)
  qed
  then show ?thesis
    using big_lookup [OF u _ below_and, of 0] by (simp add: big_step_def little_step_def rev8_xor rev8_drop)
qed

lemma big_align_rev8: "big_tables t u \<Longrightarrow> big_align u addr (rev8 crc) bs = apfst rev8 (little_align t addr crc bs)"
  by (induction t addr crc bs rule: little_align.induct) (simp_all add: big_step_rev8)

lemma big_word:
  assumes u: "big_tables t u"
  shows "u ! 0 ! unat (rev8 x AND 0xff) XOR u ! 1 ! unat (drop_bit 8 (rev8 x) AND 0xff) XOR u ! 2 ! unat (drop_bit 16 (rev8 x) AND 0xff) XOR
     u ! 3 ! unat (drop_bit 24 (rev8 x) AND 0xff) XOR u ! 4 ! unat (drop_bit 32 (rev8 x) AND 0xff) XOR u ! 5 ! unat (drop_bit 40 (rev8 x) AND 0xff) XOR
     u ! 6 ! unat (drop_bit 48 (rev8 x) AND 0xff) XOR u ! 7 ! unat (drop_bit 56 (rev8 x)) = rev8 (shiftn 64 x)"
proof -
  have t: "little_tables t" using u by (simp add: big_tables_def)
  note l = big_lookup [OF u _ below_and]
  have top: "drop_bit 56 y = drop_bit 56 y AND 0xff" for y :: u64
    by (rule bit_eqI) (use below_top [of y] in \<open>auto simp: bit_and_ff below_def not_le intro: ccontr\<close>)
  have "rev8 x AND 0xff = drop_bit 56 x" using rev8_byte [of 0 x] top [of x] by simp
  moreover have "drop_bit 56 (rev8 x) = x AND 0xff" using rev8_byte [of 7 x] top [of "rev8 x"] by simp
  ultimately show ?thesis
    unfolding little_word [OF t, of x, symmetric] rev8_xor
    using l [of 7 x] l [of 6 "drop_bit 8 x"] l [of 5 "drop_bit 16 x"] l [of 4 "drop_bit 24 x"] l [of 3 "drop_bit 32 x"]
      l [of 2 "drop_bit 40 x"] l [of 1 "drop_bit 48 x"] big_lookup [OF u _ below_top, of 0 x]
      rev8_byte [of 1 x] rev8_byte [of 2 x] rev8_byte [of 3 x] rev8_byte [of 4 x] rev8_byte [of 5 x] rev8_byte [of 6 x]
    by (simp add: ac_simps)
qed

lemma big_words_rev8: "big_tables t u \<Longrightarrow> big_words u (rev8 crc) bs = apfst rev8 (little_words t crc bs)"
proof (induction t crc bs rule: little_words.induct)
  case (1 t crc bs)
  have t: "little_tables t" using "1.prems" by (simp add: big_tables_def)
  show ?case
  proof (cases "length bs \<ge> 8")
    case True
    let ?x = "crc XOR of_nat (le_val (take 8 bs))"
    have x: "rev8 crc XOR of_nat (le_val (rev (take 8 bs))) = rev8 ?x" using rev8_word [of "take 8 bs"] True by (simp add: rev8_xor)
    have "big_words u (rev8 crc) bs = big_words u (rev8 (shiftn 64 ?x)) (drop 8 bs)"
      using True by (subst big_words.simps) (simp only: Let_def if_True x big_word [OF "1.prems"])
    moreover have "little_words t crc bs = little_words t (shiftn 64 ?x) (drop 8 bs)"
      using True by (subst little_words.simps) (simp only: Let_def if_True little_word [OF t])
    ultimately show ?thesis using "1.IH" [OF True refl] "1.prems" by (simp only: little_word [OF t])
  next
    case False
    then show ?thesis by (simp add: little_words.simps big_words.simps)
  qed
qed

lemma crcspeed64big_feed: "big_tables t u \<Longrightarrow> crcspeed64big u crc addr buf = feed crc buf"
proof -
  assume u: "big_tables t u"
  then have t: "little_tables t" by (simp add: big_tables_def)
  have f: "foldl (big_step u) (rev8 c) bs = rev8 (foldl (little_step t) c bs)" for c bs
    by (induction bs arbitrary: c) (simp_all add: big_step_rev8 [OF u])
  have "crcspeed64big u crc addr buf = crcspeed64little t crc addr buf"
    by (simp add: crcspeed64big_def crcspeed64little_def Let_def case_prod_beta big_align_rev8 [OF u] big_words_rev8 [OF u] f rev8_rev8)
  then show ?thesis using crcspeed64little_feed [OF t] by simp
qed

section \<open>The property\<close>

text \<open>
  C11: The checksum that Redis computes is the CRC of its specification. After \<^verbatim>\<open>crc64_init\<close>, \<^verbatim>\<open>crc64\<close>, which takes
  eight bytes at a time from eight tables, gives for every register, every buffer and every
  address the value of the routine \<^verbatim>\<open>_crc64\<close> that shifts one bit at a time, on
  machines of either byte order; the register of \<^verbatim>\<open>_crc64\<close> has its bits in the other order. A buffer may be given in pieces.
\<close>

theorem crc64_is_bitwise:
  "crc64 little (crc64_init little) crc addr s = crc64_bits (crc_reflect crc 64) s \<and>
   crc64 little (crc64_init little) 0 addr s = crc64_bits 0 s \<and>
   crc64 little (crc64_init little) crc addr (s @ s') =
     crc64 little (crc64_init little) (crc64 little (crc64_init little) crc addr s) (addr + length s) s'"
proof -
  have big: "big_tables (crcspeed64little_init crc64_bits) (crcspeed64big_init crc64_bits)"
    using init_little by (simp add: big_tables_def crcspeed64big_init_def)
  have c: "crc64 little (crc64_init little) c a b = feed c b" for c a b
    unfolding crc64_def crc64_init_def crcspeed64native_def crcspeed64native_init_def
    by (cases little) (simp_all only: if_True if_False crcspeed64little_feed [OF init_little] crcspeed64big_feed [OF big])
  have "crc_reflect 0 64 = 0" by (rule bit_eqI) (simp add: reflect_bit)
  then show ?thesis unfolding c reflect_crc64_bits by (simp add: reflect_reflect feed_def)
qed

end
