(* ===== verification/Redis_Num.thy ===== *)
theory Redis_Num
  imports Prelude
begin

text \<open>
  Numbers as text, \<^verbatim>\<open>redis/src/util.c\<close>: the writer \<^verbatim>\<open>ll2string\<close>, which fills a buffer from the back, two digits at a
  time, and what \<^verbatim>\<open>strtol\<close> and \<^verbatim>\<open>atoi\<close> of the C library read back. The writer gives
  the decimal notation, and the readers give the number back, also from the
  part of it that an interrupted write has left.
\<close>

section \<open>Definitions\<close>

function digits10 :: "nat \<Rightarrow> nat" where
  "digits10 v =
     (if v < 10 then 1
      else if v < 100 then 2
      else if v < 1000 then 3
      else if v < 1000000000000
      then (if v < 100000000
            then (if v < 1000000
                  then (if v < 10000 then 4 else 5 + (if v \<ge> 100000 then 1 else 0))
                  else 7 + (if v \<ge> 10000000 then 1 else 0))
            else if v < 10000000000
            then 9 + (if v \<ge> 1000000000 then 1 else 0)
            else 11 + (if v \<ge> 100000000000 then 1 else 0))
      else 12 + digits10 (v div 1000000000000))"
  by auto

termination digits10
  by (relation "measure id") simp_all

text \<open>Writing outside the buffer is \<open>None\<close>.\<close>

definition put :: "bytes \<Rightarrow> int \<Rightarrow> byte \<Rightarrow> bytes option" where
  "put dst i c = (if 0 \<le> i \<and> i < int (length dst) then Some (dst[nat i := c]) else None)"

definition digits_table :: bytes where
  "digits_table = map of_char
     (''0001020304050607080910111213141516171819'' @
      ''2021222324252627282930313233343536373839'' @
      ''4041424344454647484950515253545556575859'' @
      ''6061626364656667686970717273747576777879'' @
      ''8081828384858687888990919293949596979899'')"

function ull_loop :: "bytes \<Rightarrow> int \<Rightarrow> nat \<Rightarrow> bytes option" where
  "ull_loop dst pos v =
     (if v \<ge> 100
      then let i = (v mod 100) * 2
           in do {
                dst \<leftarrow> put dst pos (digits_table ! (i + 1));
                dst \<leftarrow> put dst (pos - 1) (digits_table ! i);
                ull_loop dst (pos - 2) (v div 100) }
      else if v < 10 then put dst pos (0x30 + of_nat v)
      else let i = v * 2
           in do {
                dst \<leftarrow> put dst pos (digits_table ! (i + 1));
                put dst (pos - 1) (digits_table ! i) })"
  by auto

termination ull_loop
  by (relation "measure (\<lambda>(dst, pos, v). v)") simp_all

definition ull2string :: "bytes \<Rightarrow> nat \<Rightarrow> (bytes \<times> nat) option" where
  "ull2string dst v =
     (let len = digits10 v
      in if len \<ge> length dst then Some (if dst \<noteq> [] then dst[0 := 0] else dst, 0)
         else do {
           dst \<leftarrow> put dst (int len - 1 + 1) 0;
           dst \<leftarrow> ull_loop dst (int len - 1) v;
           Some (dst, len) })"

definition ll2string :: "bytes \<Rightarrow> int \<Rightarrow> (bytes \<times> nat) option" where
  "ll2string dst svalue =
     (if svalue < 0
      then if length dst < 2 then Some (if dst \<noteq> [] then dst[0 := 0] else dst, 0)
           else do {
             (d, len) \<leftarrow> ull2string (tl dst) (nat (- svalue));
             Some (0x2D # d, if len = 0 then 0 else len + 1) }
      else ull2string dst (nat svalue))"

text \<open>What the C library reads: blanks, a sign, digits, saturating at the ends of the range.\<close>

definition isspace :: "byte \<Rightarrow> bool" where
  "isspace c \<longleftrightarrow> c = 0x20 \<or> 0x09 \<le> c \<and> c \<le> 0x0D"

definition isdigit :: "byte \<Rightarrow> bool" where
  "isdigit c \<longleftrightarrow> 0x30 \<le> c \<and> c \<le> 0x39"

fun scan_digits :: "nat \<Rightarrow> bytes \<Rightarrow> nat" where
  "scan_digits acc [] = acc"
| "scan_digits acc (c # cs) = (if isdigit c then scan_digits (acc * 10 + unat (c - 0x30)) cs else acc)"

definition strtol :: "bytes \<Rightarrow> int" where
  "strtol s =
     (let s = dropWhile isspace s;
          neg = (s \<noteq> [] \<and> hd s = 0x2D);
          s = (if s \<noteq> [] \<and> (hd s = 0x2D \<or> hd s = 0x2B) then tl s else s);
          v = int (scan_digits 0 s)
      in if neg then max (- (2 ^ 63)) (- v) else min (2 ^ 63 - 1) v)"

definition atoi :: "bytes \<Rightarrow> int" where
  "atoi s = sint (word_of_int (strtol s) :: u32)"

declare digits10.simps [simp del] ull_loop.simps [simp del]

section \<open>Decimal notation\<close>

function decimal :: "nat \<Rightarrow> bytes" where
  "decimal n = (if n < 10 then [0x30 + of_nat n] else decimal (n div 10) @ [0x30 + of_nat (n mod 10)])"
  by auto

termination decimal
  by (relation "measure id") simp_all

declare decimal.simps [simp del]

lemma decimal_ne [simp]: "decimal n \<noteq> []"
  by (simp add: decimal.simps)

lemma length_decimal: "length (decimal n) = (if n < 10 then 1 else Suc (length (decimal (n div 10))))"
  by (subst decimal.simps) simp

lemma length_decimal_pos: "0 < length (decimal n)"
  by simp

lemma length_decimal_12: "n \<ge> 10 ^ k \<Longrightarrow> length (decimal n) = k + length (decimal (n div 10 ^ k))"
proof (induction k)
  case (Suc k)
  have le: "(10 :: nat) ^ k \<le> 10 ^ Suc k" by simp
  then have "length (decimal n) = k + length (decimal (n div 10 ^ k))" using Suc by linarith
  moreover have "n div 10 ^ k \<ge> 10" using Suc.prems div_le_mono [of "10 ^ Suc k" n "10 ^ k"] by simp
  ultimately show ?case using length_decimal [of "n div 10 ^ k"] by (simp add: div_mult2_eq [symmetric] mult.commute)
qed simp

lemma length_decimal_range: "10 ^ k \<le> n \<Longrightarrow> n < 10 ^ Suc k \<Longrightarrow> length (decimal n) = Suc k"
proof -
  assume n: "10 ^ k \<le> n" "n < 10 ^ Suc k"
  have "n div 10 ^ k < 10" using n(2) by (simp add: div_less_iff_less_mult)
  then show ?thesis using length_decimal_12 [OF n(1)] length_decimal [of "n div 10 ^ k"] by simp
qed

lemma digits10_length: "digits10 v = length (decimal v)"
proof (induction v rule: digits10.induct)
  case (1 v)
  show ?case
  proof (cases "v < 10 ^ 12")
    case True
    note r = length_decimal_range [of _ v]
    have "v < 1000000000000" using True by simp
    then show ?thesis
      using r [of 1] r [of 2] r [of 3] r [of 4] r [of 5] r [of 6] r [of 7] r [of 8] r [of 9] r [of 10] r [of 11] length_decimal [of v]
      by (subst digits10.simps) (simp split: if_splits)
  next
    case False
    then have "digits10 v = 12 + digits10 (v div 10 ^ 12)" by (subst digits10.simps) simp
    also have "\<dots> = 12 + length (decimal (v div 10 ^ 12))" using "1.IH" False by simp
    finally show ?thesis using length_decimal_12 [of 12 v] False by simp
  qed
qed

lemma pairs_nth:
  "k < length xs \<Longrightarrow> concat (map (\<lambda>x. [f x, g x]) xs) ! (2 * k) = f (xs ! k) \<and> concat (map (\<lambda>x. [f x, g x]) xs) ! Suc (2 * k) = g (xs ! k)"
proof (induction xs arbitrary: k)
  case (Cons x xs)
  then show ?case by (cases k) simp_all
qed simp

lemma digits_table_pairs: "digits_table = concat (map (\<lambda>k. [0x30 + of_nat (k div 10), 0x30 + of_nat (k mod 10)]) [0..<100])"
  by (simp add: digits_table_def upt_rec)

lemma digits_table_nth:
  assumes "k < 100"
  shows "digits_table ! (2 * k) = 0x30 + of_nat (k div 10)" "digits_table ! Suc (2 * k) = 0x30 + of_nat (k mod 10)"
  using pairs_nth [of k "[0..<100]" "\<lambda>k. 0x30 + of_nat (k div 10) :: byte" "\<lambda>k. 0x30 + of_nat (k mod 10)"] assms
  unfolding digits_table_pairs by simp_all

lemma decimal_100: "v \<ge> 100 \<Longrightarrow> decimal v = decimal (v div 100) @ [0x30 + of_nat (v mod 100 div 10), 0x30 + of_nat (v mod 100 mod 10)]"
proof -
  assume v: "v \<ge> 100"
  have "v mod 100 = 10 * (v div 10 mod 10) + v mod 10" using mod_mult2_eq [of v 10 10] by simp
  then have m: "v mod 100 div 10 = v div 10 mod 10" "v mod 100 mod 10 = v mod 10" by simp_all
  have "decimal v = decimal (v div 10) @ [0x30 + of_nat (v mod 10)]" using v by (subst decimal.simps) simp
  moreover have "v div 10 \<ge> 10" using v div_le_mono [of 100 v 10] by simp
  then have "decimal (v div 10) = decimal (v div 10 div 10) @ [0x30 + of_nat (v div 10 mod 10)]" by (subst decimal.simps) simp
  moreover have "v div 10 div 10 = v div 100" by (simp add: div_mult2_eq [symmetric])
  ultimately show ?thesis unfolding m by simp
qed

lemma decimal_10: "v \<ge> 10 \<Longrightarrow> v < 100 \<Longrightarrow> decimal v = [0x30 + of_nat (v div 10), 0x30 + of_nat (v mod 10)]"
  using decimal.simps [of v] decimal.simps [of "v div 10"] by (simp add: div_less_iff_less_mult)

lemma put_two:
  assumes "k + 2 \<le> length dst"
  shows "put dst (int k + 1) b = Some (dst[Suc k := b])"
    "put (dst[Suc k := b]) (int k) a = Some (take k dst @ a # b # drop (k + 2) dst)"
proof -
  have "drop (Suc k) (dst[Suc k := b]) = b # drop (k + 2) dst"
    using assms by (simp add: drop_update_swap Cons_nth_drop_Suc [symmetric])
  then have "dst[Suc k := b, k := a] = take k dst @ a # b # drop (k + 2) dst"
    using assms by (subst upd_conv_take_nth_drop) simp_all
  moreover have "nat (int k + 1) = Suc k" by simp
  ultimately show "put dst (int k + 1) b = Some (dst[Suc k := b])"
    "put (dst[Suc k := b]) (int k) a = Some (take k dst @ a # b # drop (k + 2) dst)"
    using assms by (simp_all add: put_def)
qed

lemma ull_loop_ok:
  "length (decimal v) \<le> length dst \<Longrightarrow>
   ull_loop dst (int (length (decimal v)) - 1) v = Some (decimal v @ drop (length (decimal v)) dst)"
proof (induction v arbitrary: dst rule: less_induct)
  case (less v)
  show ?case
  proof (cases "v \<ge> 100")
    case True
    let ?q = "v div 100" and ?r = "v mod 100"
    let ?k = "length (decimal ?q)"
    note d = decimal_100 [OF True]
    have l: "int (length (decimal v)) - 1 = int ?k + 1" "?k + 2 \<le> length dst" using less.prems d by simp_all
    let ?d = "take ?k dst @ digits_table ! (2 * ?r) # digits_table ! Suc (2 * ?r) # drop (?k + 2) dst"
    have "ull_loop dst (int ?k + 1) v = ull_loop ?d (int ?k - 1) ?q"
      using True put_two(1) [OF l(2), of "digits_table ! Suc (2 * ?r)"] put_two(2) [OF l(2), of "digits_table ! Suc (2 * ?r)" "digits_table ! (2 * ?r)"]
      by (subst ull_loop.simps) (simp add: Let_def mult.commute)
    also have "\<dots> = Some (decimal ?q @ drop ?k ?d)" using less.IH [of ?q ?d] True l(2) by simp
    finally show ?thesis using l d digits_table_nth [of ?r] by (simp add: add.commute)
  next
    case ge: False
    show ?thesis
    proof (cases "v < 10")
      case True
      then have "decimal v = [0x30 + of_nat v]" by (simp add: decimal.simps)
      then show ?thesis using True less.prems by (cases dst) (simp_all add: ull_loop.simps put_def)
    next
      case False
      note d = decimal_10 [of v]
      have "2 \<le> length dst" using d ge False less.prems by simp
      then have "0 + 2 \<le> length dst" by simp
      from put_two(1) [OF this, of "digits_table ! Suc (2 * v)"] put_two(2) [OF this, of "digits_table ! Suc (2 * v)" "digits_table ! (2 * v)"]
      show ?thesis
        using d ge False digits_table_nth [of v] by (subst ull_loop.simps) (simp add: Let_def mult.commute)
    qed
  qed
qed

lemma ull2string_ok:
  assumes "length (decimal v) < length dst"
  shows "ull2string dst v = Some (decimal v @ 0 # drop (Suc (length (decimal v))) dst, length (decimal v))"
proof -
  let ?n = "length (decimal v)"
  have "put dst (int ?n) 0 = Some (dst[?n := 0])" using assms by (simp add: put_def)
  moreover have "drop ?n (dst[?n := 0]) = 0 # drop (Suc ?n) dst" using assms by (simp add: drop_update_swap Cons_nth_drop_Suc [symmetric])
  ultimately show ?thesis using assms ull_loop_ok [of v "dst[?n := 0]"] by (simp add: ull2string_def digits10_length Let_def)
qed

section \<open>Reading back\<close>

lemma digit_byte: "d < 10 \<Longrightarrow> unat (0x30 + of_nat d :: byte) = 48 + d"
  by (simp add: unat_word_ariths unat_of_nat)

lemma isdigit_digit: "d < 10 \<Longrightarrow> isdigit (0x30 + of_nat d)"
  by (simp add: isdigit_def word_le_nat_alt digit_byte)

lemma decimal_digits: "c \<in> set (decimal n) \<Longrightarrow> isdigit c"
proof (induction n rule: decimal.induct)
  case (1 n)
  then show ?case using decimal.simps [of n] by (auto simp: isdigit_digit split: if_splits)
qed

lemma scan_digits_append: "\<forall>c\<in>set ds. isdigit c \<Longrightarrow> scan_digits acc (ds @ cs) = scan_digits (scan_digits acc ds) cs"
  by (induction ds arbitrary: acc) simp_all

lemma read_decimal: "scan_digits 0 (decimal n) = n"
proof (induction n rule: decimal.induct)
  case (1 n)
  show ?case
  proof (cases "n < 10")
    case True
    then show ?thesis by (simp add: decimal.simps isdigit_digit unat_of_nat)
  next
    case False
    then have "scan_digits 0 (decimal n) = scan_digits (n div 10) [0x30 + of_nat (n mod 10)]"
      using 1 decimal.simps [of n] scan_digits_append [of "decimal (n div 10)" 0] decimal_digits [of _ "n div 10"] by auto
    then show ?thesis using isdigit_digit [of "n mod 10"] by (simp add: unat_of_nat)
  qed
qed

text \<open>What is left of a number that was cut off.\<close>

lemma decimal_take: "k < length (decimal n) \<Longrightarrow> 0 < k \<Longrightarrow> take k (decimal n) = decimal (n div 10 ^ (length (decimal n) - k))"
proof (induction n rule: decimal.induct)
  case (1 n)
  have ge: "\<not> n < 10" using "1.prems" length_decimal [of n] by (auto split: if_splits)
  let ?m = "decimal (n div 10)"
  have d: "decimal n = ?m @ [0x30 + of_nat (n mod 10)]" using ge by (subst decimal.simps) simp
  show ?case
  proof (cases "k < length ?m")
    case True
    then have "take k (decimal n) = decimal (n div 10 div 10 ^ (length ?m - k))" using 1 ge d by simp
    moreover have "length (decimal n) - k = Suc (length ?m - k)" using True d by simp
    ultimately show ?thesis by (simp add: div_mult2_eq)
  next
    case False
    then have "k = length ?m" using "1.prems" d by simp
    then show ?thesis using d by simp
  qed
qed

lemma decimal_lead: "0 < n \<Longrightarrow> 0 < k \<Longrightarrow> k < length (decimal n) \<Longrightarrow> 0 < n div 10 ^ (length (decimal n) - k)"
proof (induction n rule: decimal.induct)
  case (1 n)
  have ge: "\<not> n < 10" using "1.prems" length_decimal [of n] by (auto split: if_splits)
  let ?m = "decimal (n div 10)"
  have l: "length (decimal n) = Suc (length ?m)" using ge length_decimal [of n] by simp
  show ?case
  proof (cases "k < length ?m")
    case True
    then have "0 < n div 10 div 10 ^ (length ?m - k)" using 1 ge by simp
    moreover have "length (decimal n) - k = Suc (length ?m - k)" using True l by simp
    ultimately show ?thesis by (simp add: div_mult2_eq)
  next
    case False
    then have "length (decimal n) - k = 1" using "1.prems" l by simp
    then show ?thesis using ge by simp
  qed
qed

definition stops :: "bytes \<Rightarrow> bool" where
  "stops cs \<longleftrightarrow> (case cs of [] \<Rightarrow> True | c # _ \<Rightarrow> \<not> isdigit c)"

lemma strtol_decimal:
  assumes "n < 2 ^ 63" "stops cs"
  shows "strtol (decimal n @ cs) = int n"
proof -
  obtain c ds where d: "decimal n = c # ds" by (cases "decimal n") simp_all
  have c: "isdigit c" using decimal_digits [of c n] d by simp
  then have ns: "\<not> isspace c" "c \<noteq> 0x2D" "c \<noteq> 0x2B"
    unfolding isdigit_def isspace_def word_le_nat_alt by (auto simp: word_le_nat_alt)
  have "scan_digits 0 (decimal n @ cs) = n"
    using scan_digits_append [of "decimal n" 0 cs] decimal_digits [of _ n] read_decimal [of n] assms(2)
    by (cases cs) (simp_all add: stops_def)
  then show ?thesis using ns d assms(1) by (simp add: strtol_def Let_def)
qed

lemma atoi_decimal: "n < 2 ^ 31 \<Longrightarrow> stops cs \<Longrightarrow> atoi (decimal n @ cs) = int n"
  using strtol_decimal [of n cs] by (simp add: atoi_def signed_of_nat signed_take_bit_int_eq_self)

lemma strtol_Nil: "strtol [] = 0"
  by (simp add: strtol_def)

end
