(* ===== verification/Aof.thy ===== *)
theory Aof
  imports Redis_Num
begin

text \<open>
  The append-only file of Redis, \<^verbatim>\<open>redis/src/aof.c\<close>: how a command is put into the buffer, how the buffer is
  written and synchronised under the three policies, and how a file is read back when the server
  starts. Executing a command is recording it: what the loader hands
  to the commands is the list \<open>executed\<close>. The table of the commands, which depends on the
  configuration and the modules, is an argument; so is what the system calls return. \<open>None\<close>
  is an access outside a buffer or a failed assertion, or a call that does not return.
\<close>

section \<open>Definitions\<close>

subsection \<open>Commands as text\<close>

datatype robj = Obj_Sds bytes | Obj_Int int

text \<open>\<open>stk\<close> is what the 32 bytes of a local buffer hold before they are written.\<close>

definition getDecodedObject :: "bytes \<Rightarrow> robj \<Rightarrow> bytes option" where
  "getDecodedObject stk ob =
     (case ob of
        Obj_Sds s \<Rightarrow> Some s
      | Obj_Int n \<Rightarrow> do {
          (buf, len) \<leftarrow> ll2string stk n;
          Some (take (strlen buf) buf) })"

abbreviation CRLF :: bytes where
  "CRLF \<equiv> [0x0D, 0x0A]"

text \<open>A character, a number and the end of the line in the local buffer, and the line that is appended.\<close>

definition cat_header :: "bytes \<Rightarrow> byte \<Rightarrow> int \<Rightarrow> (bytes \<times> bytes) option" where
  "cat_header buf c v =
     do {
       buf \<leftarrow> put buf 0 c;
       (d, n) \<leftarrow> ll2string (tl buf) v;
       let buf = hd buf # d;
       let len = 1 + n;
       buf \<leftarrow> put buf (int len) 0x0D;
       buf \<leftarrow> put buf (int len + 1) 0x0A;
       Some (buf, take (len + 2) buf) }"

fun cat_args :: "bytes \<Rightarrow> bytes \<Rightarrow> bytes \<Rightarrow> robj list \<Rightarrow> bytes option" where
  "cat_args stk buf dst [] = Some dst"
| "cat_args stk buf dst (ob # obs) =
     do {
       s \<leftarrow> getDecodedObject stk ob;
       (buf, h) \<leftarrow> cat_header buf 0x24 (int (length s));
       cat_args stk buf (dst @ h @ s @ CRLF) obs }"

definition catAppendOnlyGenericCommand :: "bytes \<Rightarrow> bytes \<Rightarrow> robj list \<Rightarrow> bytes option" where
  "catAppendOnlyGenericCommand stk dst argv =
     do {
       (buf, h) \<leftarrow> cat_header stk 0x2A (int (length argv));
       cat_args stk buf (dst @ h) argv }"

function sds_digits :: "nat \<Rightarrow> bytes" where
  "sds_digits v = (0x30 + of_nat (v mod 10)) # (if v div 10 \<noteq> 0 then sds_digits (v div 10) else [])"
  by auto

termination sds_digits
  by (relation "measure id") simp_all

definition sdsll2str :: "int \<Rightarrow> bytes" where
  "sdsll2str v = rev (sds_digits (nat \<bar>v\<bar>) @ (if v < 0 then [0x2D] else []))"

subsection \<open>The server\<close>

datatype aof_switch = AOF_OFF | AOF_ON | AOF_WAIT_REWRITE

datatype fsync_policy = AOF_FSYNC_NO | AOF_FSYNC_ALWAYS | AOF_FSYNC_EVERYSEC

text \<open>
  The fields of \<^verbatim>\<open>struct redisServer\<close> that the append-only file uses, and behind them the file: its bytes,
  how many of them a \<^verbatim>\<open>fsync\<close> has made durable, the \<^verbatim>\<open>fsync\<close>s that the background thread still has to do
  and, while it is inside one, the length that the file had when that call began.
\<close>

record aof_server =
  aof_state :: aof_switch
  child_aof :: bool
  child_active :: bool
  dbnum :: int
  unixtime :: int
  aof_timestamp_enabled :: bool
  aof_cur_timestamp :: int
  aof_selected_db :: int
  aof_buf :: bytes
  aof_fsync :: fsync_policy
  aof_no_fsync_on_rewrite :: bool
  aof_current_size :: nat
  aof_last_incr_size :: nat
  aof_fsync_offset :: nat
  aof_last_fsync :: int
  aof_flush_postponed_start :: int
  aof_delayed_fsync :: nat
  aof_last_write_ok :: bool
  aof_last_write_errno :: int
  aof_bio_fsync_ok :: bool
  bio_fsync_jobs :: nat
  bio_fsync_from :: "nat option"
  aof_data :: bytes
  aof_synced :: nat

definition ENOSPC :: int where
  "ENOSPC = 28"

definition genAofTimestampAnnotationIfNeeded :: "bool \<Rightarrow> int \<Rightarrow> aof_server \<Rightarrow> aof_server \<times> bytes option" where
  "genAofTimestampAnnotationIfNeeded force now s =
     (if force \<or> aof_cur_timestamp s < unixtime s
      then let t = (if force then now else unixtime s)
           in (s\<lparr>aof_cur_timestamp := t\<rparr>, Some (map of_char ''#TS:'' @ sdsll2str t @ CRLF))
      else (s, None))"

text \<open>\<^verbatim>\<open>snprintf\<close> with \<^verbatim>\<open>%d\<close> and \<^verbatim>\<open>%lu\<close> gives decimal notation.\<close>

definition feedAppendOnlyFile :: "bytes \<Rightarrow> int \<Rightarrow> robj list \<Rightarrow> aof_server \<Rightarrow> aof_server option" where
  "feedAppendOnlyFile stk dictid argv s =
     (if \<not> (dictid = - 1 \<or> dictid \<ge> 0 \<and> dictid < dbnum s) then None
      else let (s, buf) = (if aof_timestamp_enabled s
                           then case genAofTimestampAnnotationIfNeeded False 0 s of
                                  (s, None) \<Rightarrow> (s, [])
                                | (s, Some ts) \<Rightarrow> (s, ts)
                           else (s, []));
               (s, buf) = (if dictid \<noteq> - 1 \<and> dictid \<noteq> aof_selected_db s
                           then let seldb = decimal (nat dictid)
                                in (s\<lparr>aof_selected_db := dictid\<rparr>,
                                    buf @ map of_char ''*2'' @ CRLF @ map of_char ''$6'' @ CRLF @ map of_char ''SELECT'' @ CRLF @
                                    map of_char ''$'' @ decimal (length seldb) @ CRLF @ seldb @ CRLF)
                           else (s, buf))
           in do {
                buf \<leftarrow> catAppendOnlyGenericCommand stk buf argv;
                Some (if aof_state s = AOF_ON \<or> aof_state s = AOF_WAIT_REWRITE \<and> child_aof s
                      then s\<lparr>aof_buf := aof_buf s @ buf\<rparr> else s) })"

subsection \<open>Writing\<close>

text \<open>What the calls of \<^verbatim>\<open>write\<close> return one after the other; \<open>None\<close> is a call that has not returned.\<close>

datatype write_result = Wrote nat | Write_EINTR | Write_Error int

fun aofWrite :: "write_result list \<Rightarrow> bytes \<Rightarrow> bytes \<Rightarrow> nat \<Rightarrow> (int \<times> bytes \<times> int) option" where
  "aofWrite outs data [] tot = Some (int tot, data, 0)"
| "aofWrite [] data (b # bs) tot = None"
| "aofWrite (Wrote n # outs) data (b # bs) tot =
     (let n = min n (length (b # bs))
      in aofWrite outs (data @ take n (b # bs)) (drop n (b # bs)) (tot + n))"
| "aofWrite (Write_EINTR # outs) data (b # bs) tot = aofWrite outs data (b # bs) tot"
| "aofWrite (Write_Error e # outs) data (b # bs) tot = Some (if tot \<noteq> 0 then int tot else - 1, data, e)"

record flush_env =
  fe_writes :: "write_result list"
  fe_ftruncate_ok :: bool
  fe_fsync_ok :: bool

datatype flush_result = Flushed aof_server | Exited aof_server

definition try_fsync :: "flush_env \<Rightarrow> bool \<Rightarrow> aof_server \<Rightarrow> flush_result" where
  "try_fsync e sync_in_progress s =
     (if aof_no_fsync_on_rewrite s \<and> child_active s then Flushed s
      else if aof_fsync s = AOF_FSYNC_ALWAYS
      then if fe_fsync_ok e
           then Flushed (s\<lparr>aof_synced := length (aof_data s), aof_fsync_offset := aof_current_size s, aof_last_fsync := unixtime s\<rparr>)
           else Exited s
      else if aof_fsync s = AOF_FSYNC_EVERYSEC \<and> unixtime s > aof_last_fsync s
      then Flushed ((if \<not> sync_in_progress then s\<lparr>bio_fsync_jobs := Suc (bio_fsync_jobs s), aof_fsync_offset := aof_current_size s\<rparr> else s)
             \<lparr>aof_last_fsync := unixtime s\<rparr>)
      else Flushed s)"

text \<open>The part of \<^verbatim>\<open>flushAppendOnlyFile\<close> from \<^verbatim>\<open>aofWrite\<close> on.\<close>

definition write_aof_buf :: "flush_env \<Rightarrow> bool \<Rightarrow> aof_server \<Rightarrow> flush_result option" where
  "write_aof_buf e sync_in_progress s =
     (case aofWrite (fe_writes e) (aof_data s) (aof_buf s) 0 of
        None \<Rightarrow> None
      | Some (nwritten, data, err) \<Rightarrow>
          let s = s\<lparr>aof_flush_postponed_start := 0, aof_data := data\<rparr>
          in if nwritten \<noteq> int (length (aof_buf s))
             then let (nwritten, s) =
                        (if nwritten = - 1 then (nwritten, s\<lparr>aof_last_write_errno := err\<rparr>)
                         else if fe_ftruncate_ok e
                         then (- 1, s\<lparr>aof_data := take (aof_last_incr_size s) (aof_data s), aof_last_write_errno := ENOSPC\<rparr>)
                         else (nwritten, s\<lparr>aof_last_write_errno := ENOSPC\<rparr>))
                  in if aof_fsync s = AOF_FSYNC_ALWAYS then Some (Exited s)
                     else let s = s\<lparr>aof_last_write_ok := False\<rparr>
                          in Some (Flushed (if nwritten > 0
                               then s\<lparr>aof_current_size := aof_current_size s + nat nwritten,
                                      aof_last_incr_size := aof_last_incr_size s + nat nwritten,
                                      aof_buf := drop (nat nwritten) (aof_buf s)\<rparr>
                               else s))
             else Some (try_fsync e sync_in_progress
                    (s\<lparr>aof_last_write_ok := True,
                       aof_current_size := aof_current_size s + nat nwritten,
                       aof_last_incr_size := aof_last_incr_size s + nat nwritten,
                       aof_buf := []\<rparr>)))"

definition aofFsyncInProgress :: "aof_server \<Rightarrow> bool" where
  "aofFsyncInProgress s \<longleftrightarrow> bio_fsync_jobs s \<noteq> 0"

definition flushAppendOnlyFile :: "bool \<Rightarrow> flush_env \<Rightarrow> aof_server \<Rightarrow> flush_result option" where
  "flushAppendOnlyFile force e s =
     (if aof_buf s = []
      then if aof_fsync s = AOF_FSYNC_EVERYSEC \<and> aof_fsync_offset s \<noteq> aof_current_size s \<and>
              unixtime s > aof_last_fsync s \<and> \<not> aofFsyncInProgress s
           then Some (try_fsync e False s)
           else Some (Flushed s)
      else let sync_in_progress = (aof_fsync s = AOF_FSYNC_EVERYSEC \<and> aofFsyncInProgress s)
           in if aof_fsync s = AOF_FSYNC_EVERYSEC \<and> \<not> force \<and> sync_in_progress
              then if aof_flush_postponed_start s = 0
                   then Some (Flushed (s\<lparr>aof_flush_postponed_start := unixtime s\<rparr>))
                   else if unixtime s - aof_flush_postponed_start s < 2 then Some (Flushed s)
                   else write_aof_buf e sync_in_progress (s\<lparr>aof_delayed_fsync := Suc (aof_delayed_fsync s)\<rparr>)
              else write_aof_buf e sync_in_progress s)"

text \<open>
  The background thread, \<^verbatim>\<open>redis/src/bio.c\<close>: it takes the first job and calls \<^verbatim>\<open>fsync\<close>, and counts the job as
  done when the call has returned. The call covers what was in the file when it began; what the main thread writes meanwhile may or
  may not be covered, and is not counted. A closed descriptor is not counted as a failure.
\<close>

datatype fsync_result = Fsync_OK | Fsync_EBADF | Fsync_Error

definition bio_fsync_begin :: "aof_server \<Rightarrow> aof_server" where
  "bio_fsync_begin s =
     (if bio_fsync_jobs s \<noteq> 0 \<and> bio_fsync_from s = None then s\<lparr>bio_fsync_from := Some (length (aof_data s))\<rparr> else s)"

definition bio_fsync_done :: "fsync_result \<Rightarrow> aof_server \<Rightarrow> aof_server" where
  "bio_fsync_done r s =
     (case bio_fsync_from s of
        None \<Rightarrow> s
      | Some n \<Rightarrow> s\<lparr>bio_fsync_from := None, bio_fsync_jobs := bio_fsync_jobs s - 1, aof_bio_fsync_ok := (r \<noteq> Fsync_Error),
                    aof_synced := (if r = Fsync_OK then max n (aof_synced s) else aof_synced s)\<rparr>)"

subsection \<open>Loading\<close>

definition AOF_ANNOTATION_LINE_MAX_LEN :: nat where
  "AOF_ANNOTATION_LINE_MAX_LEN = 1024"

text \<open>
  \<^verbatim>\<open>fgets\<close> reads a line of at most \<open>sz - 1\<close> characters, and tells whether it met the end of
  the file; \<^verbatim>\<open>fread\<close> reads one item or meets the end of the file.
\<close>

definition line_end :: "bytes \<Rightarrow> nat" where
  "line_end f = (let l = length (takeWhile (\<lambda>c. c \<noteq> 0x0A) f) in if l < length f then Suc l else l)"

definition fgets :: "nat \<Rightarrow> bytes \<Rightarrow> (bytes \<times> bytes \<times> bool) option" where
  "fgets sz f =
     (if f = [] then None
      else let n = min (sz - 1) (line_end f)
           in Some (take n f, drop n f, n < sz - 1 \<and> last (take n f) \<noteq> 0x0A))"

definition fread :: "nat \<Rightarrow> bytes \<Rightarrow> (bytes \<times> bytes) option" where
  "fread n f = (if n \<le> length f then Some (take n f, drop n f) else None)"

datatype load_error = Read_Error bool | Format_Error | Out_Of_Memory

text \<open>
  The arguments of one command. An allocation of more than \<open>mem\<close> bytes fails, which ends the process; a negative
  length is, as an unsigned one, among these.
\<close>

fun load_args :: "nat \<Rightarrow> nat \<Rightarrow> bytes \<Rightarrow> load_error + bytes list \<times> bytes" where
  "load_args mem 0 f = Inr ([], f)"
| "load_args mem (Suc n) f =
     (case fgets AOF_ANNOTATION_LINE_MAX_LEN f of
        None \<Rightarrow> Inl (Read_Error True)
      | Some (buf, f, eof) \<Rightarrow>
          if hd buf \<noteq> 0x24 then Inl Format_Error
          else let len = strtol (tl buf)
               in if len < 0 \<or> int mem < len then Inl Out_Of_Memory
                  else case fread (nat len) f of
                    None \<Rightarrow> Inl (Read_Error True)
                  | Some (arg, f) \<Rightarrow>
                      (case fread 2 f of
                         None \<Rightarrow> Inl (Read_Error True)
                       | Some (crlf, f) \<Rightarrow>
                           (case load_args mem n f of
                              Inl e \<Rightarrow> Inl e
                            | Inr (args, f) \<Rightarrow> Inr (arg # args, f))))"

text \<open>
  What the table of the commands says of a command: \<^verbatim>\<open>MULTI\<close>, \<^verbatim>\<open>EXEC\<close> or another one. The fake client collects the
  commands after a \<^verbatim>\<open>MULTI\<close>, and \<^verbatim>\<open>EXEC\<close> runs them.
\<close>

datatype aof_proc = Proc_Multi | Proc_Exec | Proc_Other

record load_state =
  in_multi :: bool
  queued :: "(aof_proc \<times> bytes list) list"
  executed :: "bytes list list"
  valid_up_to :: nat
  valid_before_multi :: nat

definition load_state0 :: load_state where
  "load_state0 = \<lparr>in_multi = False, queued = [], executed = [], valid_up_to = 0, valid_before_multi = 0\<rparr>"

definition multiCommand :: "load_state \<Rightarrow> load_state" where
  "multiCommand s = (if in_multi s then s else s\<lparr>in_multi := True\<rparr>)"

definition execCommand :: "load_state \<Rightarrow> load_state" where
  "execCommand s =
     (if \<not> in_multi s then s
      else s\<lparr>executed := executed s @ map snd (filter (\<lambda>(p, a). p = Proc_Other) (queued s)), queued := [], in_multi := False\<rparr>)"

definition queueMultiCommand :: "aof_proc \<Rightarrow> bytes list \<Rightarrow> load_state \<Rightarrow> load_state" where
  "queueMultiCommand p argv s = s\<lparr>queued := queued s @ [(p, argv)]\<rparr>"

definition run_command :: "bool \<Rightarrow> aof_proc \<Rightarrow> bytes list \<Rightarrow> nat \<Rightarrow> load_state \<Rightarrow> load_state" where
  "run_command load_truncated p argv pos s =
     (let s = (if p = Proc_Multi then s\<lparr>valid_before_multi := valid_up_to s\<rparr> else s);
          s = (if in_multi s \<and> p \<noteq> Proc_Exec then queueMultiCommand p argv s
               else case p of
                 Proc_Multi \<Rightarrow> multiCommand s
               | Proc_Exec \<Rightarrow> execCommand s
               | Proc_Other \<Rightarrow> s\<lparr>executed := executed s @ [argv]\<rparr>)
      in if load_truncated then s\<lparr>valid_up_to := pos\<rparr> else s)"

datatype load_stop = Stop_Eof | Stop_Read_Error bool | Stop_Format | Stop_Unknown_Command | Stop_Memory

lemma line_end_bounds: "f \<noteq> [] \<Longrightarrow> 0 < line_end f" "line_end f \<le> length f"
  using length_takeWhile_le [of "\<lambda>c. c \<noteq> 0x0A" f] by (cases f; auto simp: line_end_def Let_def)+

lemma length_fgets: "fgets n f = Some (l, r, e) \<Longrightarrow> 2 \<le> n \<Longrightarrow> length r < length f"
  using line_end_bounds [of f] by (auto simp: fgets_def Let_def split: if_splits)

lemma length_load_args: "load_args mem n f = Inr (a, r) \<Longrightarrow> length r \<le> length f"
proof (induction n arbitrary: f a r)
  case (Suc n)
  then show ?case
    by (auto simp: fread_def AOF_ANNOTATION_LINE_MAX_LEN_def Let_def dest!: length_fgets split: option.splits sum.splits if_splits; force)
qed simp

function load_loop :: "nat \<Rightarrow> (bytes list \<Rightarrow> aof_proc option) \<Rightarrow> bool \<Rightarrow> nat \<Rightarrow> bytes \<Rightarrow> load_state \<Rightarrow> load_stop \<times> load_state" where
  "load_loop mem cmds load_truncated sz f s =
     (case fgets AOF_ANNOTATION_LINE_MAX_LEN f of
        None \<Rightarrow> (Stop_Eof, s)
      | Some (buf, f', eof) \<Rightarrow>
          if hd buf = 0x23 then load_loop mem cmds load_truncated sz f' s
          else if hd buf \<noteq> 0x2A then (Stop_Format, s)
          else if length buf = 1 \<or> buf ! 1 = 0 then (Stop_Read_Error eof, s)
          else let argc = atoi (tl buf)
               in if argc < 1 then (Stop_Format, s)
                  else if int mem < 8 * argc then (Stop_Memory, s)
                  else case load_args mem (nat argc) f' of
                    Inl (Read_Error eof) \<Rightarrow> (Stop_Read_Error eof, s)
                  | Inl Format_Error \<Rightarrow> (Stop_Format, s)
                  | Inl Out_Of_Memory \<Rightarrow> (Stop_Memory, s)
                  | Inr (argv, f'') \<Rightarrow>
                      (case cmds argv of
                         None \<Rightarrow> (Stop_Unknown_Command, s)
                       | Some p \<Rightarrow> load_loop mem cmds load_truncated sz f''
                                     (run_command load_truncated p argv (sz - length f'') s)))"
  by pat_completeness auto

termination load_loop
proof (relation "measure (\<lambda>(mem, cmds, t, sz, f, s). length f)")
qed (auto simp: AOF_ANNOTATION_LINE_MAX_LEN_def dest!: length_fgets length_load_args)

declare load_loop.simps [simp del] sds_digits.simps [simp del]

datatype aof_ret = AOF_OK | AOF_NOT_EXIST | AOF_EMPTY | AOF_OPEN_ERR | AOF_FAILED | AOF_TRUNCATED | Aof_Abort

record load_env =
  le_load_truncated :: bool
  le_truncate_ok :: bool
  le_lseek_ok :: bool
  le_memory :: nat

text \<open>The end of the file where it was not expected: what is not valid is cut off.\<close>

definition load_uxeof :: "load_env \<Rightarrow> bytes \<Rightarrow> nat \<Rightarrow> load_state \<Rightarrow> aof_ret \<times> bytes list list \<times> bytes" where
  "load_uxeof e f up s =
     (if le_load_truncated e \<and> le_truncate_ok e
      then (if le_lseek_ok e then AOF_TRUNCATED else AOF_FAILED, executed s, take up f)
      else (AOF_FAILED, executed s, f))"

text \<open>
  The result, the commands that were run, and the file afterwards. A file that cannot be opened is
  \<open>None\<close>, with or without the file being there; a file that starts with an RDB preamble is
  outside of the model.
\<close>

definition loadSingleAppendOnlyFile ::
    "(bytes list \<Rightarrow> aof_proc option) \<Rightarrow> load_env \<Rightarrow> bool \<Rightarrow> bytes option \<Rightarrow> (aof_ret \<times> bytes list list \<times> bytes) option" where
  "loadSingleAppendOnlyFile cmds e exists file =
     (case file of
        None \<Rightarrow> Some (if exists then AOF_OPEN_ERR else AOF_NOT_EXIST, [], [])
      | Some f \<Rightarrow>
          if f = [] then Some (AOF_EMPTY, [], [])
          else if take 5 f = map of_char ''REDIS'' then None
          else Some (case load_loop (le_memory e) cmds (le_load_truncated e) (length f) f load_state0 of
              (Stop_Eof, s) \<Rightarrow>
                if in_multi s then load_uxeof e f (valid_before_multi s) s else (AOF_OK, executed s, f)
            | (Stop_Read_Error eof, s) \<Rightarrow>
                if \<not> eof then (AOF_FAILED, executed s, f) else load_uxeof e f (valid_up_to s) s
            | (Stop_Format, s) \<Rightarrow> (AOF_FAILED, executed s, f)
            | (Stop_Unknown_Command, s) \<Rightarrow> (AOF_FAILED, executed s, f)
            | (Stop_Memory, s) \<Rightarrow> (Aof_Abort, executed s, f)))"

end
