(* ===== verification/Aof_Load.thy ===== *)
theory Aof_Load
  imports Aof
begin

text \<open>
  Reading an append-only file back. A file is a sequence of items, commands and time stamps; the
  loader takes whole items one by one, and meets the end of the file in an item that was
  cut off, wherever the cut is.
\<close>

section \<open>Files as items\<close>

datatype aof_item = Annotation nat | Command "bytes list"

definition enc_arg :: "bytes \<Rightarrow> bytes" where
  "enc_arg a = 0x24 # decimal (length a) @ CRLF @ a @ CRLF"

fun enc_item :: "aof_item \<Rightarrow> bytes" where
  "enc_item (Annotation t) = map of_char ''#TS:'' @ decimal t @ CRLF"
| "enc_item (Command as) = 0x2A # decimal (length as) @ CRLF @ concat (map enc_arg as)"

definition enc_items :: "aof_item list \<Rightarrow> bytes" where
  "enc_items its = concat (map enc_item its)"

fun commands :: "aof_item list \<Rightarrow> bytes list list" where
  "commands [] = []"
| "commands (Annotation t # its) = commands its"
| "commands (Command as # its) = as # commands its"

text \<open>Sizes that fit the integers of the code, and the memory of the machine.\<close>

fun item_ok :: "nat \<Rightarrow> aof_item \<Rightarrow> bool" where
  "item_ok mem (Annotation t) \<longleftrightarrow> t < 2 ^ 63"
| "item_ok mem (Command as) \<longleftrightarrow> as \<noteq> [] \<and> length as < 2 ^ 31 \<and> 8 * length as \<le> mem \<and> (\<forall>a\<in>set as. length a < 2 ^ 63 \<and> length a \<le> mem)"

text \<open>How many items are complete in the first \<open>m\<close> bytes.\<close>

fun whole_items :: "nat \<Rightarrow> aof_item list \<Rightarrow> nat" where
  "whole_items m [] = 0"
| "whole_items m (it # its) = (if length (enc_item it) \<le> m then Suc (whole_items (m - length (enc_item it)) its) else 0)"

lemma enc_items_simps [simp]: "enc_items [] = []" "enc_items (it # its) = enc_item it @ enc_items its"
    "enc_items (its @ jts) = enc_items its @ enc_items jts"
  by (simp_all add: enc_items_def)

lemma commands_append [simp]: "commands (its @ jts) = commands its @ commands jts"
  by (induction its rule: commands.induct) simp_all

lemma whole_items_le: "whole_items m its \<le> length its"
  by (induction m its rule: whole_items.induct) simp_all

lemma whole_items_split:
  "m \<le> length (enc_items its) \<Longrightarrow>
   take m (enc_items its) = enc_items (take (whole_items m its) its) @
     take (m - length (enc_items (take (whole_items m its) its))) (enc_items (drop (whole_items m its) its)) \<and>
   length (enc_items (take (whole_items m its) its)) \<le> m \<and>
   (whole_items m its < length its \<longrightarrow> m - length (enc_items (take (whole_items m its) its)) < length (enc_item (its ! whole_items m its)))"
proof (induction m its rule: whole_items.induct)
  case (2 m it its)
  show ?case
  proof (cases "length (enc_item it) \<le> m")
    case True
    then show ?thesis using 2 by (auto simp: diff_diff_add le_diff_conv2 add.commute)
  qed simp
qed simp

lemma whole_items_all: "length (enc_items its) \<le> m \<Longrightarrow> whole_items m its = length its"
  by (induction m its rule: whole_items.induct) simp_all

lemma whole_items_mono: "m \<le> n \<Longrightarrow> whole_items m its \<le> whole_items n its"
proof (induction m its arbitrary: n rule: whole_items.induct)
  case (2 m it its)
  then show ?case by (auto simp: diff_le_mono)
qed simp

section \<open>Lines\<close>

lemma length_decimal_le: "n < 10 ^ k \<Longrightarrow> 0 < k \<Longrightarrow> length (decimal n) \<le> k"
proof (induction k arbitrary: n)
  case (Suc k)
  show ?case
  proof (cases "n < 10")
    case False
    then have "0 < k" using Suc.prems by (cases k) simp_all
    moreover have "n div 10 < 10 ^ k" using Suc.prems(1) by (simp add: div_less_iff_less_mult mult.commute)
    ultimately show ?thesis using Suc.IH length_decimal [of n] False by simp
  qed (use length_decimal [of n] in simp)
qed simp

lemma length_decimal_63: "n < 2 ^ 63 \<Longrightarrow> length (decimal n) \<le> 19"
  by (rule length_decimal_le) simp_all

lemma no_newline: "0x0A \<notin> set (decimal n)"
  using decimal_digits [of "0x0A" n] by (auto simp: isdigit_def word_le_nat_alt)

lemma fgets_line:
  assumes "0x0A \<notin> set l" "length l < 1000"
  shows "fgets AOF_ANNOTATION_LINE_MAX_LEN (l @ 0x0A # r) = Some (l @ [0x0A], r, False)"
proof -
  have "takeWhile (\<lambda>c. c \<noteq> 0x0A) (l @ 0x0A # r) = l" using assms(1) by (induction l) auto
  then have "line_end (l @ 0x0A # r) = Suc (length l)" by (simp add: line_end_def)
  then show ?thesis using assms(2) by (simp add: fgets_def AOF_ANNOTATION_LINE_MAX_LEN_def Let_def min_def)
qed

lemma fgets_torn:
  assumes "0x0A \<notin> set l" "length l < 1000" "l \<noteq> []"
  shows "fgets AOF_ANNOTATION_LINE_MAX_LEN l = Some (l, [], True)"
proof -
  have "takeWhile (\<lambda>c. c \<noteq> 0x0A) l = l" using assms(1) by (induction l) auto
  from arg_cong [OF this, of length] have "line_end l = length l" by (simp only: line_end_def Let_def) simp
  moreover have "last l \<noteq> 0x0A" using assms(1) last_in_set [OF assms(3)] by metis
  ultimately show ?thesis using assms(2,3) by (simp add: fgets_def AOF_ANNOTATION_LINE_MAX_LEN_def Let_def min_def)
qed

lemma take_prefix: "zs = xs @ ys \<Longrightarrow> m \<le> length xs \<Longrightarrow> take m zs = take m xs"
  by simp

lemma take_past: "zs = xs @ ys \<Longrightarrow> length xs \<le> m \<Longrightarrow> take m zs = xs @ take (m - length xs) ys"
  by simp

text \<open>A number that was cut off, with or without the carriage return behind it.\<close>

lemma torn_number:
  assumes "0 < j" "j \<le> Suc (length (decimal n))"
  shows "\<exists>m cs. take j (decimal n @ [0x0D]) = decimal m @ cs \<and> stops cs \<and> m \<le> n \<and> (0 < n \<longrightarrow> 0 < m)"
proof (cases "j < length (decimal n)")
  case True
  then show ?thesis
    using decimal_take [OF True assms(1)] decimal_lead [of n j] assms(1)
    by (intro exI [of _ "n div 10 ^ (length (decimal n) - j)"] exI [of _ "[]"]) (simp add: stops_def)
next
  case False
  then have "j = length (decimal n) \<or> j = Suc (length (decimal n))" using assms(2) by auto
  then show ?thesis
    by (intro exI [of _ n] exI [of _ "if j = length (decimal n) then [] else [0x0D]"]) (auto simp: stops_def isdigit_def word_le_nat_alt)
qed

section \<open>Arguments\<close>

lemma strtol_line: "n < 2 ^ 63 \<Longrightarrow> strtol (decimal n @ [0x0D, 0x0A]) = int n"
  by (rule strtol_decimal) (simp_all add: stops_def isdigit_def word_le_nat_alt)

lemma atoi_line: "n < 2 ^ 31 \<Longrightarrow> atoi (decimal n @ [0x0D, 0x0A]) = int n"
  by (rule atoi_decimal) (simp_all add: stops_def isdigit_def word_le_nat_alt)

lemma header_line:
  assumes "n < 2 ^ 63" "c \<noteq> 0x0A"
  shows "fgets AOF_ANNOTATION_LINE_MAX_LEN (c # decimal n @ CRLF @ r) = Some (c # decimal n @ CRLF, r, False)"
  using fgets_line [of "c # decimal n @ [0x0D]" r] no_newline [of n] length_decimal_63 [OF assms(1)] assms(2) by simp

lemma load_args_ok:
  "\<forall>a\<in>set as. length a < 2 ^ 63 \<and> length a \<le> mem \<Longrightarrow> load_args mem (length as) (concat (map enc_arg as) @ r) = Inr (as, r)"
proof (induction as)
  case (Cons a as)
  have "fgets AOF_ANNOTATION_LINE_MAX_LEN (enc_arg a @ concat (map enc_arg as) @ r) =
      Some (0x24 # decimal (length a) @ CRLF, a @ CRLF @ concat (map enc_arg as) @ r, False)"
    using header_line [of "length a" "0x24" "a @ CRLF @ concat (map enc_arg as) @ r"] Cons.prems by (simp add: enc_arg_def)
  then show ?case using Cons strtol_line [of "length a"] by (simp add: fread_def)
qed simp

lemma torn_header_args:
  assumes "0 < k" "k \<le> Suc (Suc (length (decimal n)))" "n < 2 ^ 63" "n \<le> mem"
  shows "load_args mem (Suc m) (take k (0x24 # decimal n @ [0x0D])) = Inl (Read_Error True)"
proof -
  obtain j where j: "k = Suc j" using assms(1) by (cases k) simp_all
  let ?l = "take j (decimal n @ [0x0D])"
  have "0x0A \<notin> set (0x24 # ?l)" using no_newline [of n] by (auto dest: in_set_takeD)
  then have g: "fgets AOF_ANNOTATION_LINE_MAX_LEN (0x24 # ?l) = Some (0x24 # ?l, [], True)"
    using length_decimal_63 [OF assms(3)] by (intro fgets_torn) simp_all
  have "\<exists>v\<le>mem. strtol ?l = int v"
  proof (cases "j = 0")
    case True
    then show ?thesis by (intro exI [of _ 0]) (simp add: strtol_Nil)
  next
    case False
    then obtain v cs where "?l = decimal v @ cs" "stops cs" "v \<le> n" using torn_number [of j n] assms(2) j by auto
    then show ?thesis using strtol_decimal [of v cs] assms(3,4) by (intro exI [of _ v]) simp
  qed
  then show ?thesis using g j by (auto simp: fread_def Let_def)
qed

lemma load_args_short:
  "fgets AOF_ANNOTATION_LINE_MAX_LEN f = Some (h, q, e) \<Longrightarrow> hd h = 0x24 \<Longrightarrow> strtol (tl h) = int n \<Longrightarrow> n \<le> mem \<Longrightarrow> length q < n + 2 \<Longrightarrow>
   load_args mem (Suc k) f = Inl (Read_Error True)"
  by (auto simp: fread_def Let_def)

lemma load_args_torn:
  "\<forall>a\<in>set as. length a < 2 ^ 63 \<and> length a \<le> mem \<Longrightarrow> m < length (concat (map enc_arg as)) \<Longrightarrow>
   load_args mem (length as) (take m (concat (map enc_arg as))) = Inl (Read_Error True)"
proof (induction as arbitrary: m)
  case (Cons a as)
  let ?h = "0x24 # decimal (length a) @ CRLF"
  have a: "length a < 2 ^ 63" "length a \<le> mem" using Cons.prems(1) by simp_all
  consider "m = 0" | "0 < m" "m < length ?h" | "length ?h \<le> m" "m < length (enc_arg a)" | "length (enc_arg a) \<le> m" by linarith
  then show ?case
  proof cases
    case 1
    then show ?thesis by (simp add: fgets_def)
  next
    case 2
    have "take m (concat (map enc_arg (a # as))) = take m (0x24 # decimal (length a) @ [0x0D])"
      using 2(2) by (intro take_prefix [of _ _ "0x0A # a @ CRLF @ concat (map enc_arg as)"]) (simp_all add: enc_arg_def)
    then show ?thesis using torn_header_args [of m "length a" mem "length as"] 2 a by simp
  next
    case 3
    let ?q = "take (m - length ?h) (a @ CRLF)"
    have "take m (concat (map enc_arg (a # as))) = take m (?h @ a @ CRLF)"
      using 3(2) by (intro take_prefix [of _ _ "concat (map enc_arg as)"]) (simp_all add: enc_arg_def)
    also have "\<dots> = ?h @ ?q" using 3(1) by (intro take_past) simp_all
    finally have "take m (concat (map enc_arg (a # as))) = ?h @ ?q" .
    moreover have "fgets AOF_ANNOTATION_LINE_MAX_LEN (?h @ ?q) = Some (?h, ?q, False)" using header_line [of "length a" "0x24" ?q] a by simp
    moreover have "length ?q < length a + 2" using 3 by (simp add: enc_arg_def)
    ultimately show ?thesis using strtol_line [OF a(1)] a(2) load_args_short [of "?h @ ?q" ?h ?q False "length a" mem "length as"] by simp
  next
    case 4
    let ?r = "take (m - length (enc_arg a)) (concat (map enc_arg as))"
    have "take m (concat (map enc_arg (a # as))) = enc_arg a @ ?r" using 4 by (intro take_past) simp_all
    then have "take m (concat (map enc_arg (a # as))) = ?h @ a @ CRLF @ ?r" by (simp add: enc_arg_def)
    moreover have "fgets AOF_ANNOTATION_LINE_MAX_LEN (?h @ a @ CRLF @ ?r) = Some (?h, a @ CRLF @ ?r, False)"
      using header_line [of "length a" "0x24" "a @ CRLF @ ?r"] a by simp
    moreover have "load_args mem (length as) ?r = Inl (Read_Error True)" using Cons 4 by simp
    ultimately show ?thesis using strtol_line [OF a(1)] a(2) by (simp add: fread_def Let_def)
  qed
qed simp

section \<open>Items\<close>

lemma load_annotation:
  assumes "t < 2 ^ 63"
  shows "load_loop mem cmds tr sz (enc_item (Annotation t) @ r) s = load_loop mem cmds tr sz r s"
proof -
  have "fgets AOF_ANNOTATION_LINE_MAX_LEN (enc_item (Annotation t) @ r) = Some (enc_item (Annotation t), r, False)"
    using fgets_line [of "map of_char ''#TS:'' @ decimal t @ [0x0D]" r] no_newline [of t] length_decimal_63 [OF assms] by simp
  then show ?thesis by (subst load_loop.simps) simp
qed

lemma load_annotation_torn:
  assumes "t < 2 ^ 63" "m < length (enc_item (Annotation t))"
  shows "load_loop mem cmds tr sz (take m (enc_item (Annotation t))) s = (Stop_Eof, s)"
proof (cases "m = 0")
  case True
  then show ?thesis by (subst load_loop.simps) (simp add: fgets_def)
next
  case False
  let ?l = "take m (map of_char ''#TS:'' @ decimal t @ [0x0D])"
  have l: "take m (enc_item (Annotation t)) = ?l" using assms(2) by (intro take_prefix [of _ _ "[0x0A]"]) simp_all
  have "0x0A \<notin> set ?l" using no_newline [of t] by (auto dest: in_set_takeD)
  then have "fgets AOF_ANNOTATION_LINE_MAX_LEN ?l = Some (?l, [], True)"
    using length_decimal_63 [OF assms(1)] False by (intro fgets_torn) simp_all
  moreover have "hd ?l = 0x23" using False by (cases m) simp_all
  moreover have "load_loop mem cmds tr sz [] s = (Stop_Eof, s)" by (subst load_loop.simps) (simp add: fgets_def)
  ultimately show ?thesis unfolding l by (subst load_loop.simps) simp
qed

lemma decimal_not_nul: "decimal n ! 0 \<noteq> 0"
  using decimal_digits [of "decimal n ! 0" n] by (auto simp: isdigit_def word_le_nat_alt)

lemma load_command:
  assumes "item_ok mem (Command as)" "cmds as = Some p"
  shows "load_loop mem cmds tr sz (enc_item (Command as) @ r) s = load_loop mem cmds tr sz r (run_command tr p as (sz - length r) s)"
proof -
  let ?l = "0x2A # decimal (length as) @ CRLF"
  have as: "length as < 2 ^ 31" "0 < length as" "\<forall>a\<in>set as. length a < 2 ^ 63 \<and> length a \<le> mem" "8 * length as \<le> mem" using assms(1) by simp_all
  have "fgets AOF_ANNOTATION_LINE_MAX_LEN (enc_item (Command as) @ r) = Some (?l, concat (map enc_arg as) @ r, False)"
    using header_line [of "length as" "0x2A" "concat (map enc_arg as) @ r"] as(1) by simp
  moreover have "?l ! 1 \<noteq> 0" using decimal_not_nul [of "length as"] by (simp add: nth_append)
  moreover have "\<not> int mem < 8 * int (length as)" using as(4) by linarith
  ultimately show ?thesis
    using atoi_line [OF as(1)] as(2) load_args_ok [OF as(3), of r] assms(2) by (subst load_loop.simps) (simp add: Let_def)
qed

lemma load_command_torn:
  assumes "item_ok mem (Command as)" "0 < m" "m < length (enc_item (Command as))"
  shows "load_loop mem cmds tr sz (take m (enc_item (Command as))) s = (Stop_Read_Error True, s)"
proof -
  let ?n = "length as"
  let ?h = "0x2A # decimal ?n @ CRLF"
  have as: "?n < 2 ^ 31" "0 < ?n" "\<forall>a\<in>set as. length a < 2 ^ 63 \<and> length a \<le> mem" "8 * length as \<le> mem" using assms(1) by simp_all
  then have n63: "?n < 2 ^ 63" by simp
  show ?thesis
  proof (cases "m < length ?h")
    case True
    obtain j where j: "m = Suc j" using assms(2) by (cases m) simp_all
    let ?l = "take j (decimal ?n @ [0x0D])"
    have "take m (enc_item (Command as)) = take m (0x2A # decimal ?n @ [0x0D])"
      using True by (intro take_prefix [of _ _ "0x0A # concat (map enc_arg as)"]) simp_all
    then have l: "take m (enc_item (Command as)) = 0x2A # ?l" using j by simp
    have "0x0A \<notin> set (0x2A # ?l)" using no_newline [of ?n] by (auto dest: in_set_takeD)
    then have g: "fgets AOF_ANNOTATION_LINE_MAX_LEN (0x2A # ?l) = Some (0x2A # ?l, [], True)"
      using length_decimal_63 [OF n63] by (intro fgets_torn) simp_all
    show ?thesis
    proof (cases "j = 0")
      case True
      then show ?thesis unfolding l using g by (subst load_loop.simps) simp
    next
      case False
      then obtain v cs where v: "?l = decimal v @ cs" "stops cs" "v \<le> ?n" "0 < v"
        using torn_number [of j ?n] True as(2) j by auto
      have "atoi ?l = int v" using v as(1) atoi_decimal [of v cs] by simp
      moreover have "(0x2A # ?l) ! 1 \<noteq> 0" using v(1) decimal_not_nul [of v] by (simp add: nth_append)
      moreover have "load_args mem v [] = Inl (Read_Error True)" using v(4) by (cases v) (simp_all add: fgets_def)
      moreover have "length (0x2A # ?l) \<noteq> 1" using v(1) by simp
      moreover have "\<not> int mem < 8 * int v" using as(4) v(3) by linarith
      ultimately show ?thesis unfolding l using g v(4) by (subst load_loop.simps) (simp add: Let_def)
    qed
  next
    case False
    let ?q = "take (m - length ?h) (concat (map enc_arg as))"
    have "take m (enc_item (Command as)) = ?h @ ?q" using False by (intro take_past) simp_all
    moreover have "fgets AOF_ANNOTATION_LINE_MAX_LEN (?h @ ?q) = Some (?h, ?q, False)" using header_line [of ?n "0x2A" ?q] n63 by simp
    moreover have "load_args mem ?n ?q = Inl (Read_Error True)" using False assms(3) by (intro load_args_torn as(3)) simp
    moreover have "?h ! 1 \<noteq> 0" using decimal_not_nul [of ?n] by (simp add: nth_append)
    moreover have "\<not> int mem < 8 * int ?n" using as(4) by linarith
    ultimately show ?thesis using atoi_line [OF as(1)] as(2) by (subst load_loop.simps) (simp add: Let_def)
  qed
qed

section \<open>Files without transactions\<close>

text \<open>A file of items, none of which is a \<^verbatim>\<open>MULTI\<close> or an \<^verbatim>\<open>EXEC\<close>.\<close>

definition plain :: "nat \<Rightarrow> (bytes list \<Rightarrow> aof_proc option) \<Rightarrow> aof_item list \<Rightarrow> bool" where
  "plain mem cmds its \<longleftrightarrow> (\<forall>it\<in>set its. item_ok mem it) \<and> (\<forall>as\<in>set (commands its). cmds as = Some Proc_Other)"

lemma plain_Cons [simp]:
  "plain mem cmds (Annotation t # its) \<longleftrightarrow> t < 2 ^ 63 \<and> plain mem cmds its"
  "plain mem cmds (Command as # its) \<longleftrightarrow> item_ok mem (Command as) \<and> cmds as = Some Proc_Other \<and> plain mem cmds its"
  by (auto simp: plain_def)

lemma plain_append [simp]: "plain mem cmds (its @ jts) \<longleftrightarrow> plain mem cmds its \<and> plain mem cmds jts"
  by (auto simp: plain_def)

text \<open>Where the last command of a sequence ends.\<close>

fun commands_end :: "nat \<Rightarrow> nat \<Rightarrow> aof_item list \<Rightarrow> nat" where
  "commands_end pos v [] = v"
| "commands_end pos v (Annotation t # its) = commands_end (pos + length (enc_item (Annotation t))) v its"
| "commands_end pos v (Command as # its) =
     (let p = pos + length (enc_item (Command as)) in commands_end p p its)"

lemma load_plain:
  "plain mem cmds its \<Longrightarrow> \<not> in_multi s \<Longrightarrow> sz = pos + length (enc_items its @ r) \<Longrightarrow>
   load_loop mem cmds True sz (enc_items its @ r) s =
   load_loop mem cmds True sz r (s\<lparr>executed := executed s @ commands its, valid_up_to := commands_end pos (valid_up_to s) its\<rparr>)"
proof (induction its arbitrary: s pos)
  case (Cons it its)
  show ?case
  proof (cases it)
    case (Annotation t)
    then show ?thesis
      using Cons.IH [of s "pos + length (enc_item it)"] Cons.prems load_annotation [of t mem cmds True sz "enc_items its @ r" s] by simp
  next
    case (Command as)
    let ?p = "pos + length (enc_item it)"
    let ?s = "run_command True Proc_Other as (sz - length (enc_items its @ r)) s"
    have "?s = s\<lparr>executed := executed s @ [as], valid_up_to := ?p\<rparr>" using Cons.prems(2,3) by (simp add: run_command_def Let_def)
    moreover have "load_loop mem cmds True sz (enc_items (it # its) @ r) s = load_loop mem cmds True sz (enc_items its @ r) ?s"
      using load_command [of mem as cmds Proc_Other True sz "enc_items its @ r" s] Cons.prems(1) Command by (simp del: enc_item.simps)
    ultimately show ?thesis
      using Cons.IH [of "s\<lparr>executed := executed s @ [as], valid_up_to := ?p\<rparr>" ?p] Cons.prems Command by (simp add: Let_def del: enc_item.simps)
  qed
qed simp

text \<open>The items up to the last command are a prefix with the same commands.\<close>

lemma commands_end_prefix:
  "\<exists>jts kts. its = jts @ kts \<and> commands kts = [] \<and> (jts = [] \<and> commands_end pos v its = v \<or> commands_end pos v its = pos + length (enc_items jts))"
proof (induction pos v its rule: commands_end.induct)
  case (2 pos v t its)
  then obtain jts kts where "its = jts @ kts" "commands kts = []"
    "jts = [] \<and> commands_end (pos + length (enc_item (Annotation t))) v its = v \<or>
     commands_end (pos + length (enc_item (Annotation t))) v its = pos + length (enc_item (Annotation t)) + length (enc_items jts)" by blast
  then show ?case
    by (cases "jts = []") (metis append_Cons append_Nil commands.simps(2) commands_end.simps(2) enc_items_simps(2) length_append add.assoc)+
next
  case (3 pos v as its)
  let ?p = "pos + length (enc_item (Command as))"
  obtain jts kts where "its = jts @ kts" "commands kts = []"
    "jts = [] \<and> commands_end ?p ?p its = ?p \<or> commands_end ?p ?p its = ?p + length (enc_items jts)" using 3 by metis
  then show ?case by (intro exI [of _ "Command as # jts"] exI [of _ kts]) (auto simp: Let_def simp del: enc_item.simps)
qed (intro exI [of _ "[]"], simp)

lemma enc_item_ne [simp]: "enc_item it \<noteq> []"
  by (cases it) simp_all

lemma enc_items_Nil [simp]: "enc_items its = [] \<longleftrightarrow> its = []"
  by (cases its) simp_all

lemma not_rdb: "take m (enc_items its) \<noteq> [] \<Longrightarrow> take 5 (take m (enc_items its)) \<noteq> map of_char ''REDIS''"
proof
  assume ne: "take m (enc_items its) \<noteq> []" and eq: "take 5 (take m (enc_items its)) = map of_char ''REDIS''"
  obtain it its' where i: "its = it # its'" using ne by (cases its) simp_all
  obtain c cs where c: "enc_item it = c # cs" by (cases "enc_item it") simp_all
  obtain m' where "m = Suc m'" using ne by (cases m) simp_all
  then have "hd (take 5 (take m (enc_items its))) = hd (enc_item it)" using i c by (simp add: take_Cons')
  moreover have "hd (enc_item it) = 0x23 \<or> hd (enc_item it) = 0x2A" by (cases it) simp_all
  ultimately show False using eq by simp
qed

abbreviation load_env_ok :: "nat \<Rightarrow> load_env" where
  "load_env_ok mem \<equiv> \<lparr>le_load_truncated = True, le_truncate_ok = True, le_lseek_ok = True, le_memory = mem\<rparr>"

lemma load_stop_at:
  assumes "plain mem cmds its" "f = enc_items its @ r" "f \<noteq> []" "take 5 f \<noteq> map of_char ''REDIS''"
    "\<And>s. load_loop mem cmds True (length f) r s = (if torn then Stop_Read_Error True else Stop_Eof, s)"
  shows "\<exists>jts kts. its = jts @ kts \<and> commands kts = [] \<and>
    loadSingleAppendOnlyFile cmds (load_env_ok mem) ex (Some f) =
      Some (if torn then (AOF_TRUNCATED, commands its, enc_items jts) else (AOF_OK, commands its, f))"
proof -
  let ?s = "load_state0\<lparr>executed := executed load_state0 @ commands its, valid_up_to := commands_end 0 (valid_up_to load_state0) its\<rparr>"
  have "load_loop mem cmds True (length f) f load_state0 = (if torn then Stop_Read_Error True else Stop_Eof, ?s)"
    using load_plain [OF assms(1), of load_state0 "length f" 0 r] assms(2,5) by (simp add: load_state0_def)
  moreover obtain jts kts where j: "its = jts @ kts" "commands kts = []" "commands_end 0 0 its = length (enc_items jts)"
    using commands_end_prefix [of its 0 0] by (metis add_0 enc_items_simps(1) list.size(3))
  moreover have "take (length (enc_items jts)) f = enc_items jts" using assms(2) j(1) by simp
  ultimately show ?thesis
    using assms(3,4) by (intro exI [of _ jts] exI [of _ kts]) (simp add: loadSingleAppendOnlyFile_def load_uxeof_def load_state0_def)
qed

lemma load_empty: "load_loop mem cmds tr sz [] s = (Stop_Eof, s)"
  by (subst load_loop.simps) (simp add: fgets_def)

lemma load_all_items:
  assumes "plain mem cmds its"
  shows "loadSingleAppendOnlyFile cmds (load_env_ok mem) ex (Some (enc_items its)) =
    Some (if its = [] then AOF_EMPTY else AOF_OK, commands its, enc_items its)"
proof (cases "its = []")
  case False
  have "take 5 (enc_items its) \<noteq> map of_char ''REDIS''" using not_rdb [of "length (enc_items its)" its] False by simp
  then show ?thesis using load_stop_at [OF assms, of "enc_items its" "[]" False ex] load_empty False by auto
qed (simp add: loadSingleAppendOnlyFile_def)

text \<open>A file that was cut off anywhere.\<close>

lemma load_cut:
  assumes "plain mem cmds its" "m \<le> length (enc_items its)" "0 < m"
  shows "\<exists>jts kts. take (whole_items m its) its = jts @ kts \<and> commands kts = [] \<and>
    loadSingleAppendOnlyFile cmds (load_env_ok mem) ex (Some (take m (enc_items its))) \<in>
      {Some (AOF_OK, commands (take (whole_items m its) its), take m (enc_items its)),
       Some (AOF_TRUNCATED, commands (take (whole_items m its) its), enc_items jts)}"
proof -
  let ?k = "whole_items m its" and ?f = "take m (enc_items its)"
  let ?j = "m - length (enc_items (take ?k its))"
  have sp: "?f = enc_items (take ?k its) @ take ?j (enc_items (drop ?k its))" "?k < length its \<longrightarrow> ?j < length (enc_item (its ! ?k))"
    using whole_items_split [OF assms(2)] by blast+
  have ne: "its \<noteq> []" using assms(2,3) by (cases its) simp_all
  then have f: "?f \<noteq> []" "take 5 ?f \<noteq> map of_char ''REDIS''" using not_rdb [of m its] assms(3) by simp_all
  have "its = take ?k its @ drop ?k its" by simp
  then have pl: "plain mem cmds (take ?k its)" "plain mem cmds (drop ?k its)" using assms(1) plain_append by metis+
  have stop: "\<exists>torn. \<forall>s. load_loop mem cmds True (length ?f) (take ?j (enc_items (drop ?k its))) s = (if torn then Stop_Read_Error True else Stop_Eof, s)"
  proof (cases "?k < length its \<and> 0 < ?j")
    case False
    then have "take ?j (enc_items (drop ?k its)) = []" using whole_items_le [of m its] by auto
    then show ?thesis using load_empty by (metis (full_types))
  next
    case True
    then have d: "drop ?k its = its ! ?k # drop (Suc ?k) its" by (simp add: Cons_nth_drop_Suc)
    have r: "take ?j (enc_items (drop ?k its)) = take ?j (enc_item (its ! ?k))"
      using sp(2) True unfolding d by (intro take_prefix [of _ _ "enc_items (drop (Suc ?k) its)"]) simp_all
    show ?thesis
    proof (cases "its ! ?k")
      case (Annotation t)
      then show ?thesis
        using load_annotation_torn [of t ?j] pl(2) d sp(2) True unfolding r by (intro exI [of _ False]) (simp del: enc_item.simps)
    next
      case (Command as)
      then show ?thesis
        using load_command_torn [of mem as ?j] pl(2) d sp(2) True unfolding r by (intro exI [of _ True]) (simp del: enc_item.simps)
    qed
  qed
  then obtain torn where "\<And>s. load_loop mem cmds True (length ?f) (take ?j (enc_items (drop ?k its))) s = (if torn then Stop_Read_Error True else Stop_Eof, s)"
    by blast
  from load_stop_at [OF pl(1) sp(1) f this, of ex] show ?thesis by (cases torn) auto
qed

end
