(* ===== verification/Aof_Props.thy ===== *)
theory Aof_Props
  imports Aof_Load
begin

text \<open>
  From the commands of the clients to the file and back: what \<^verbatim>\<open>feedAppendOnlyFile\<close> puts into the buffer,
  what the file holds after writes that were short or failed, and what a server that starts from
  the file after a crash runs again.
\<close>

section \<open>Feeding\<close>

definition sdecimal :: "int \<Rightarrow> bytes" where
  "sdecimal n = (if n < 0 then 0x2D # decimal (nat (- n)) else decimal (nat n))"

fun obj_text :: "robj \<Rightarrow> bytes" where
  "obj_text (Obj_Sds s) = s"
| "obj_text (Obj_Int n) = sdecimal n"

fun obj_ok :: "robj \<Rightarrow> bool" where
  "obj_ok (Obj_Sds s) \<longleftrightarrow> length s < 2 ^ 63"
| "obj_ok (Obj_Int n) \<longleftrightarrow> - (2 ^ 63) \<le> n \<and> n < 2 ^ 63"

lemma length_decimal_64: "n < 2 ^ 64 \<Longrightarrow> length (decimal n) \<le> 20"
  by (rule length_decimal_le) simp_all

lemma no_nul: "0 \<notin> set (decimal n)"
  using decimal_digits [of 0 n] by (auto simp: isdigit_def word_le_nat_alt)

lemma strlen_append: "0 \<notin> set a \<Longrightarrow> strlen (a @ 0 # b) = length a"
proof -
  assume "0 \<notin> set a"
  then have "takeWhile (\<lambda>c. c \<noteq> 0) (a @ 0 # b) = a" by (induction a) auto
  then show ?thesis by (simp add: strlen_def)
qed

lemma ll2string_ok:
  assumes "31 \<le> length dst" "\<bar>v\<bar> < 2 ^ 64"
  shows "\<exists>r. ll2string dst v = Some (sdecimal v @ 0 # r, length (sdecimal v)) \<and> length (sdecimal v @ 0 # r) = length dst"
proof (cases "v < 0")
  case True
  have l: "length (decimal (nat (- v))) \<le> 20" using assms(2) True by (intro length_decimal_64) (simp add: nat_less_iff)
  have "length (decimal (nat (- v))) \<noteq> 0" by simp
  then show ?thesis using ull2string_ok [of "nat (- v)" "tl dst"] True assms(1) l by (simp add: ll2string_def sdecimal_def)
next
  case False
  have l: "length (decimal (nat v)) \<le> 20" using assms(2) False by (intro length_decimal_64) (simp add: nat_less_iff)
  then show ?thesis using ull2string_ok [of "nat v" dst] False assms(1) by (simp add: ll2string_def sdecimal_def)
qed

lemma getDecodedObject_ok:
  assumes "length stk = 32" "obj_ok ob"
  shows "getDecodedObject stk ob = Some (obj_text ob)"
proof (cases ob)
  case (Obj_Int n)
  have "0 \<notin> set (sdecimal n)" using no_nul by (simp add: sdecimal_def)
  moreover have "\<bar>n\<bar> < 2 ^ 64" using assms(2) Obj_Int by (simp add: abs_if)
  ultimately show ?thesis using ll2string_ok [of stk n] assms(1) Obj_Int by (auto simp: getDecodedObject_def strlen_append)
qed (simp add: getDecodedObject_def)

lemma cat_header_ok:
  assumes "length buf = 32" "n < 2 ^ 63"
  shows "\<exists>buf'. cat_header buf c (int n) = Some (buf', c # decimal n @ CRLF) \<and> length buf' = 32"
proof -
  obtain b bs where b: "buf = b # bs" "length bs = 31" using assms(1) by (cases buf) simp_all
  have l: "length (decimal n) \<le> 19" using assms(2) by (rule length_decimal_63)
  have "\<bar>int n\<bar> < 2 ^ 64" using assms(2) by simp
  then obtain r where r: "ll2string bs (int n) = Some (decimal n @ 0 # r, length (decimal n))" "length (decimal n @ 0 # r) = 31"
    using ll2string_ok [of bs "int n"] b(2) by (auto simp: sdecimal_def)
  obtain x y where r2: "r = x # y" using r(2) l by (cases r) simp_all
  have p0: "put buf 0 c = Some (c # bs)" using b by (simp add: put_def)
  have p1: "put (c # decimal n @ 0 # r) (int (1 + length (decimal n))) 0x0D = Some (c # decimal n @ 0x0D # r)"
    using r(2) by (simp add: put_def list_update_append nat_add_distrib)
  have p2: "put (c # decimal n @ 0x0D # r) (int (1 + length (decimal n)) + 1) 0x0A = Some (c # decimal n @ 0x0D # 0x0A # y)"
    using r(2) r2 by (simp add: put_def list_update_append nat_add_distrib)
  have "cat_header buf c (int n) = Some (c # decimal n @ 0x0D # 0x0A # y, c # decimal n @ CRLF)"
    by (simp only: cat_header_def p0 bind.simps list.sel r(1) prod.case Let_def p1 p2) simp
  then show ?thesis using r(2) r2 by simp
qed

lemma cat_args_ok:
  "length stk = 32 \<Longrightarrow> length buf = 32 \<Longrightarrow> \<forall>ob\<in>set obs. obj_ok ob \<and> length (obj_text ob) < 2 ^ 63 \<Longrightarrow>
   cat_args stk buf dst obs = Some (dst @ concat (map enc_arg (map obj_text obs)))"
proof (induction obs arbitrary: buf dst)
  case (Cons ob obs)
  obtain buf' where "cat_header buf 0x24 (int (length (obj_text ob))) = Some (buf', 0x24 # decimal (length (obj_text ob)) @ CRLF)" "length buf' = 32"
    using cat_header_ok [of buf "length (obj_text ob)" "0x24"] Cons.prems by auto
  then show ?case using Cons getDecodedObject_ok [of stk ob] by (simp add: enc_arg_def)
qed simp

definition argv_ok :: "robj list \<Rightarrow> bool" where
  "argv_ok argv \<longleftrightarrow> argv \<noteq> [] \<and> length argv < 2 ^ 31 \<and> (\<forall>ob\<in>set argv. obj_ok ob)"

lemma obj_text_short: "obj_ok ob \<Longrightarrow> length (obj_text ob) < 2 ^ 63"
proof (cases ob)
  case (Obj_Int n)
  assume "obj_ok ob"
  then have "length (decimal (nat (- n))) \<le> 20" "length (decimal (nat n)) \<le> 20"
    using Obj_Int by (auto intro!: length_decimal_64 simp: nat_less_iff)
  then have "length (sdecimal n) \<le> 21" by (simp add: sdecimal_def)
  then show ?thesis using Obj_Int by simp
qed simp

lemma catAppend_ok:
  assumes "length stk = 32" "argv_ok argv"
  shows "catAppendOnlyGenericCommand stk dst argv = Some (dst @ enc_item (Command (map obj_text argv)))"
proof -
  obtain buf where "cat_header stk 0x2A (int (length argv)) = Some (buf, 0x2A # decimal (length argv) @ CRLF)" "length buf = 32"
    using cat_header_ok [of stk "length argv" "0x2A"] assms by (auto simp: argv_ok_def)
  then show ?thesis using cat_args_ok [of stk buf argv] assms obj_text_short by (simp add: catAppendOnlyGenericCommand_def argv_ok_def)
qed

lemma sds_digits_rev: "rev (sds_digits v) = decimal v"
proof (induction v rule: sds_digits.induct)
  case (1 v)
  show ?case
  proof (cases "v < 10")
    case True
    then show ?thesis by (subst sds_digits.simps) (simp add: decimal.simps)
  next
    case False
    then have "v div 10 \<noteq> 0" by simp
    then show ?thesis using 1 False by (subst sds_digits.simps, subst decimal.simps) simp
  qed
qed

text \<open>The items that a command adds.\<close>

definition feed_items :: "aof_server \<Rightarrow> int \<Rightarrow> bytes list \<Rightarrow> aof_item list" where
  "feed_items s dictid args =
     (if aof_timestamp_enabled s \<and> aof_cur_timestamp s < unixtime s then [Annotation (nat (unixtime s))] else []) @
     (if dictid \<noteq> - 1 \<and> dictid \<noteq> aof_selected_db s then [Command [map of_char ''SELECT'', decimal (nat dictid)]] else []) @
     [Command args]"

lemma feed_ok:
  assumes "length stk = 32" "argv_ok argv" "dictid = - 1 \<or> 0 \<le> dictid \<and> dictid < dbnum s" "0 \<le> unixtime s" "aof_state s = AOF_ON"
  shows "\<exists>t d. feedAppendOnlyFile stk dictid argv s =
    Some (s\<lparr>aof_cur_timestamp := t, aof_selected_db := d, aof_buf := aof_buf s @ enc_items (feed_items s dictid (map obj_text argv))\<rparr>)"
proof -
  let ?ts = "aof_timestamp_enabled s \<and> aof_cur_timestamp s < unixtime s" and ?sel = "dictid \<noteq> - 1 \<and> dictid \<noteq> aof_selected_db s"
  have ts: "sdsll2str (unixtime s) = decimal (nat (unixtime s))" using assms(4) sds_digits_rev by (simp add: sdsll2str_def)
  have d: "decimal (Suc (Suc 0)) = [0x32]" "decimal (Suc (Suc (Suc (Suc (Suc (Suc 0)))))) = [0x36]" by (simp_all add: decimal.simps)
  have sel: "enc_item (Command [map of_char ''SELECT'', decimal (nat dictid)]) =
      map of_char ''*2'' @ CRLF @ map of_char ''$6'' @ CRLF @ map of_char ''SELECT'' @ CRLF @
      map of_char ''$'' @ decimal (length (decimal (nat dictid))) @ CRLF @ decimal (nat dictid) @ CRLF"
    using d by (simp add: enc_arg_def)
  have "feedAppendOnlyFile stk dictid argv s =
    Some (s\<lparr>aof_cur_timestamp := (if ?ts then unixtime s else aof_cur_timestamp s), aof_selected_db := (if ?sel then dictid else aof_selected_db s),
      aof_buf := aof_buf s @ enc_items (feed_items s dictid (map obj_text argv))\<rparr>)"
    using assms(3,5) catAppend_ok [OF assms(1,2)] sel
    by (cases ?ts; cases ?sel) (simp_all add: feedAppendOnlyFile_def genAofTimestampAnnotationIfNeeded_def feed_items_def Let_def ts del: enc_item.simps(2) split: prod.splits)
  then show ?thesis by blast
qed

section \<open>Writing\<close>

text \<open>However the calls of \<^verbatim>\<open>write\<close> end, a prefix of the buffer is in the file, and the result says how long it is.\<close>

lemma aofWrite_ok:
  "aofWrite outs data buf tot = Some (nw, data', err) \<Longrightarrow>
   \<exists>n\<le>length buf. data' = data @ take n buf \<and> (nw = int (tot + n) \<or> nw = - 1 \<and> tot + n = 0)"
proof (induction outs data buf tot rule: aofWrite.induct)
  case (3 n outs data b bs tot)
  let ?n = "min n (length (b # bs))"
  obtain m where m: "m \<le> length (drop ?n (b # bs))" "data' = data @ take ?n (b # bs) @ take m (drop ?n (b # bs))"
    "nw = int (tot + ?n + m) \<or> nw = - 1 \<and> tot + ?n + m = 0"
    using 3 by (auto simp: Let_def)
  have "take ?n (b # bs) @ take m (drop ?n (b # bs)) = take (?n + m) (b # bs)" by (simp only: take_add)
  then show ?case using m by (intro exI [of _ "?n + m"]) (simp add: add.assoc)
qed (auto split: if_splits)

text \<open>File and buffer together are what was fed.\<close>

definition aof_inv :: "bytes \<Rightarrow> aof_server \<Rightarrow> bool" where
  "aof_inv stream s \<longleftrightarrow> aof_data s @ aof_buf s = stream \<and> aof_last_incr_size s = length (aof_data s) \<and>
     aof_synced s \<le> length (aof_data s) \<and> (\<forall>n. bio_fsync_from s = Some n \<longrightarrow> n \<le> length (aof_data s)) \<and>
     (aof_fsync s = AOF_FSYNC_ALWAYS \<and> \<not> aof_no_fsync_on_rewrite s \<longrightarrow> aof_synced s = length (aof_data s))"

text \<open>What remains of that when the server has stopped itself.\<close>

definition aof_disk_inv :: "bytes \<Rightarrow> aof_server \<Rightarrow> bool" where
  "aof_disk_inv stream s \<longleftrightarrow> aof_data s = take (length (aof_data s)) stream \<and> length (aof_data s) \<le> length stream \<and> aof_synced s \<le> length (aof_data s)"

fun result_server :: "flush_result \<Rightarrow> aof_server" where
  "result_server (Flushed s) = s"
| "result_server (Exited s) = s"

definition flush_post :: "bytes \<Rightarrow> aof_server \<Rightarrow> flush_result \<Rightarrow> bool" where
  "flush_post stream s r \<longleftrightarrow>
     (case r of
        Flushed s' \<Rightarrow> aof_inv stream s' \<and> aof_fsync s' = aof_fsync s \<and> aof_no_fsync_on_rewrite s' = aof_no_fsync_on_rewrite s \<and>
          aof_state s' = aof_state s \<and> dbnum s' = dbnum s \<and> unixtime s' = unixtime s \<and>
          (aof_fsync s = AOF_FSYNC_ALWAYS \<longrightarrow> aof_buf s' = [])
      | Exited s' \<Rightarrow> aof_disk_inv stream s')"

lemma try_fsync_post:
  assumes "aof_data s @ aof_buf s = stream" "aof_last_incr_size s = length (aof_data s)" "aof_synced s \<le> length (aof_data s)"
    "\<forall>n. bio_fsync_from s = Some n \<longrightarrow> n \<le> length (aof_data s)" "aof_fsync s = AOF_FSYNC_ALWAYS \<longrightarrow> aof_buf s = []"
  shows "flush_post stream s (try_fsync e sync s)"
  using assms by (auto simp: flush_post_def try_fsync_def aof_inv_def aof_disk_inv_def)

lemma write_aof_buf_post:
  assumes "aof_inv stream s" "write_aof_buf e sync s = Some r"
  shows "flush_post stream s r"
proof -
  note i = assms(1) [unfolded aof_inv_def]
  obtain nw data err where w: "aofWrite (fe_writes e) (aof_data s) (aof_buf s) 0 = Some (nw, data, err)"
    using assms(2) by (auto simp: write_aof_buf_def split: option.splits)
  obtain n where n: "n \<le> length (aof_buf s)" "data = aof_data s @ take n (aof_buf s)" "nw = int n \<or> nw = - 1 \<and> n = 0"
    using aofWrite_ok [OF w] by auto
  show ?thesis
  proof (cases "nw = int (length (aof_buf s))")
    case True
    then have "n = length (aof_buf s)" using n(3) by auto
    then have d: "data = stream" using n(2) i by simp
    let ?s = "s\<lparr>aof_flush_postponed_start := 0, aof_data := data, aof_last_write_ok := True, aof_current_size := aof_current_size s + nat nw,
      aof_last_incr_size := aof_last_incr_size s + nat nw, aof_buf := []\<rparr>"
    have "r = try_fsync e sync ?s" using assms(2) w True by (simp add: write_aof_buf_def)
    moreover have "flush_post stream ?s (try_fsync e sync ?s)"
      using i d True n(2) by (intro try_fsync_post) auto
    ultimately show ?thesis by (simp add: flush_post_def split: flush_result.splits)
  next
    case False
    have st: "take (length data) stream = data" "length data \<le> length stream" "take (aof_last_incr_size s) data = aof_data s"
      using n(1,2) i by auto
    show ?thesis
      using assms(2) w False n i st
      by (auto simp: write_aof_buf_def flush_post_def aof_inv_def aof_disk_inv_def Let_def split: if_splits)
  qed
qed

lemma flush_post_delayed: "flush_post stream (s\<lparr>aof_delayed_fsync := k\<rparr>) r \<longleftrightarrow> flush_post stream s r"
  by (cases r) (simp_all add: flush_post_def)

lemma flush_ok:
  assumes "aof_inv stream s" "flushAppendOnlyFile force e s = Some r"
  shows "flush_post stream s r"
proof -
  note i = assms(1) [unfolded aof_inv_def]
  have q: "flush_post stream s (Flushed s)" if "aof_fsync s = AOF_FSYNC_ALWAYS \<longrightarrow> aof_buf s = []"
    using assms(1) that by (simp add: flush_post_def)
  show ?thesis
  proof (cases "aof_buf s = []")
    case True
    then show ?thesis using assms(2) i q try_fsync_post [of s stream e False] by (auto simp: flushAppendOnlyFile_def split: if_splits)
  next
    case False
    let ?d = "s\<lparr>aof_delayed_fsync := Suc (aof_delayed_fsync s)\<rparr>"
    have "aof_inv stream ?d" using assms(1) by (simp add: aof_inv_def)
    from write_aof_buf_post [OF this] have "write_aof_buf e sync ?d = Some r \<Longrightarrow> flush_post stream s r" for sync
      unfolding flush_post_delayed by blast
    then show ?thesis
      using assms False write_aof_buf_post [OF assms(1), of e _ r]
      by (auto simp: flushAppendOnlyFile_def flush_post_def aof_inv_def Let_def split: if_splits)
  qed
qed

lemma inv_disk: "aof_inv stream s \<Longrightarrow> aof_disk_inv stream s"
proof -
  assume i: "aof_inv stream s"
  then have "stream = aof_data s @ aof_buf s" by (simp add: aof_inv_def)
  with i show ?thesis by (simp add: aof_inv_def aof_disk_inv_def)
qed

section \<open>A running server\<close>

text \<open>The server after \<^verbatim>\<open>initServer\<close>, with the append-only file switched on.\<close>

definition aof_server0 :: "int \<Rightarrow> fsync_policy \<Rightarrow> int \<Rightarrow> aof_server" where
  "aof_server0 dbs policy now =
     \<lparr>aof_state = AOF_ON, child_aof = False, child_active = False, dbnum = dbs, unixtime = now, aof_timestamp_enabled = False,
      aof_cur_timestamp = 0, aof_selected_db = - 1, aof_buf = [], aof_fsync = policy, aof_no_fsync_on_rewrite = False,
      aof_current_size = 0, aof_last_incr_size = 0, aof_fsync_offset = 0, aof_last_fsync = now, aof_flush_postponed_start = 0,
      aof_delayed_fsync = 0, aof_last_write_ok = True, aof_last_write_errno = 0, aof_bio_fsync_ok = True, bio_fsync_jobs = 0,
      bio_fsync_from = None, aof_data = [], aof_synced = 0\<rparr>"

datatype aof_event =
    Ev_Feed int "robj list"
  | Ev_Flush bool flush_env
  | Ev_Clock int
  | Ev_Child bool bool
  | Ev_Bio_Begin
  | Ev_Bio fsync_result

text \<open>A sequence of events, with the items that were fed; a server that has stopped itself takes no more events.\<close>

fun aof_run :: "bytes \<Rightarrow> aof_event list \<Rightarrow> aof_server \<Rightarrow> (flush_result \<times> aof_item list) option" where
  "aof_run stk [] s = Some (Flushed s, [])"
| "aof_run stk (Ev_Feed dictid argv # evs) s =
     do {
       s' \<leftarrow> feedAppendOnlyFile stk dictid argv s;
       (r, its) \<leftarrow> aof_run stk evs s';
       Some (r, feed_items s dictid (map obj_text argv) @ its) }"
| "aof_run stk (Ev_Flush force e # evs) s =
     do {
       r \<leftarrow> flushAppendOnlyFile force e s;
       (case r of Flushed s' \<Rightarrow> aof_run stk evs s' | Exited s' \<Rightarrow> Some (r, [])) }"
| "aof_run stk (Ev_Clock t # evs) s = aof_run stk evs (s\<lparr>unixtime := t\<rparr>)"
| "aof_run stk (Ev_Child act aof # evs) s = aof_run stk evs (s\<lparr>child_active := act, child_aof := aof\<rparr>)"
| "aof_run stk (Ev_Bio_Begin # evs) s = aof_run stk evs (bio_fsync_begin s)"
| "aof_run stk (Ev_Bio r # evs) s = aof_run stk evs (bio_fsync_done r s)"

fun event_ok :: "int \<Rightarrow> aof_event \<Rightarrow> bool" where
  "event_ok n (Ev_Feed dictid argv) \<longleftrightarrow> argv_ok argv \<and> (dictid = - 1 \<or> 0 \<le> dictid \<and> dictid < n)"
| "event_ok n (Ev_Clock t) \<longleftrightarrow> 0 \<le> t"
| "event_ok n _ \<longleftrightarrow> True"

definition aof_started :: "aof_server \<Rightarrow> bool" where
  "aof_started s \<longleftrightarrow> aof_state s = AOF_ON \<and> aof_data s = [] \<and> aof_buf s = [] \<and> aof_last_incr_size s = 0 \<and> aof_synced s = 0 \<and>
     bio_fsync_from s = None \<and> 0 \<le> unixtime s"

lemma aof_run_inv:
  "aof_run stk evs s = Some (r, its) \<Longrightarrow> length stk = 32 \<Longrightarrow> aof_inv stream s \<Longrightarrow> aof_state s = AOF_ON \<Longrightarrow> 0 \<le> unixtime s \<Longrightarrow>
    \<forall>ev\<in>set evs. event_ok (dbnum s) ev \<Longrightarrow>
    (case r of Flushed s' \<Rightarrow> aof_inv (stream @ enc_items its) s' \<and> aof_fsync s' = aof_fsync s \<and> aof_no_fsync_on_rewrite s' = aof_no_fsync_on_rewrite s
     | Exited s' \<Rightarrow> aof_disk_inv (stream @ enc_items its) s')"
proof (induction stk evs s arbitrary: r its stream rule: aof_run.induct)
  case (1 stk s)
  then show ?case by auto
next
  case (2 stk dictid argv evs s)
  let ?fi = "feed_items s dictid (map obj_text argv)"
  have ok: "argv_ok argv" "dictid = - 1 \<or> 0 \<le> dictid \<and> dictid < dbnum s" using "2.prems"(6) by simp_all
  obtain t d where f: "feedAppendOnlyFile stk dictid argv s = Some (s\<lparr>aof_cur_timestamp := t, aof_selected_db := d, aof_buf := aof_buf s @ enc_items ?fi\<rparr>)"
    using feed_ok [OF "2.prems"(2) ok "2.prems"(5,4)] by blast
  let ?s = "s\<lparr>aof_cur_timestamp := t, aof_selected_db := d, aof_buf := aof_buf s @ enc_items ?fi\<rparr>"
  obtain its' where r: "aof_run stk evs ?s = Some (r, its')" "its = ?fi @ its'" using "2.prems"(1) f by (auto split: bind_splits)
  have "aof_inv (stream @ enc_items ?fi) ?s" using "2.prems"(3) by (auto simp: aof_inv_def)
  with "2.IH" [OF f r(1) "2.prems"(2) this] "2.prems" r(2) show ?case by (auto split: flush_result.splits)
next
  case (3 stk force e evs s)
  obtain r0 where r0: "flushAppendOnlyFile force e s = Some r0" using "3.prems"(1) by (auto split: bind_splits)
  note p = flush_ok [OF "3.prems"(3) r0]
  show ?case
  proof (cases r0)
    case (Flushed s')
    then show ?thesis using "3.IH" [OF r0 Flushed, of r its stream] "3.prems" p r0 by (auto simp: flush_post_def split: flush_result.splits)
  next
    case (Exited s')
    then show ?thesis using "3.prems"(1) r0 p by (auto simp: flush_post_def)
  qed
next
  case (4 stk t evs s)
  have "aof_inv stream (s\<lparr>unixtime := t\<rparr>)" using "4.prems"(3) by (simp add: aof_inv_def)
  with "4.IH" [of r its stream] "4.prems" show ?case by (cases r) simp_all
next
  case (5 stk act aof evs s)
  have "aof_inv stream (s\<lparr>child_active := act, child_aof := aof\<rparr>)" using "5.prems"(3) by (simp add: aof_inv_def)
  with "5.IH" [of r its stream] "5.prems" show ?case by (cases r) simp_all
next
  case (6 stk evs s)
  have "aof_inv stream (bio_fsync_begin s)" using "6.prems"(3) by (auto simp: aof_inv_def bio_fsync_begin_def)
  with "6.IH" [of r its stream] "6.prems" show ?case by (cases r) (simp_all add: bio_fsync_begin_def)
next
  case (7 stk r0 evs s)
  have "aof_inv stream (bio_fsync_done r0 s)" using "7.prems"(3) by (auto simp: aof_inv_def bio_fsync_done_def split: option.split)
  with "7.IH" [of r its stream] "7.prems" show ?case by (cases r) (simp_all add: bio_fsync_done_def split: option.splits)
qed

lemma aof_run_last:
  "aof_run stk (evs @ [Ev_Flush force e]) s = Some (Flushed s', its) \<Longrightarrow>
   \<exists>s1. aof_run stk evs s = Some (Flushed s1, its) \<and> flushAppendOnlyFile force e s1 = Some (Flushed s')"
proof (induction stk evs s arbitrary: its rule: aof_run.induct)
  case (1 stk s)
  then show ?case by (auto split: bind_splits flush_result.splits)
next
  case (2 stk dictid argv evs s)
  then show ?case by (fastforce split: bind_splits)
next
  case (3 stk force e evs s)
  then show ?case by (auto split: bind_splits flush_result.splits)
qed simp_all

lemma whole_items_0: "whole_items 0 its = 0"
  by (cases its) simp_all

lemma load_cut_again:
  assumes "plain mem cmds its" "n \<le> length (enc_items its)"
  shows "\<exists>ret ret' f. loadSingleAppendOnlyFile cmds (load_env_ok mem) ex (Some (take n (enc_items its))) =
        Some (ret, commands (take (whole_items n its) its), f) \<and> ret \<in> {AOF_OK, AOF_EMPTY, AOF_TRUNCATED} \<and>
      loadSingleAppendOnlyFile cmds (load_env_ok mem) ex (Some f) =
        Some (ret', commands (take (whole_items n its) its), f) \<and> ret' \<in> {AOF_OK, AOF_EMPTY}"
proof (cases "n = 0")
  case True
  then show ?thesis by (simp add: whole_items_0 loadSingleAppendOnlyFile_def)
next
  case False
  let ?k = "whole_items n its"
  obtain jts kts where j: "take ?k its = jts @ kts" "commands kts = []"
    "loadSingleAppendOnlyFile cmds (load_env_ok mem) ex (Some (take n (enc_items its))) \<in>
      {Some (AOF_OK, commands (take ?k its), take n (enc_items its)), Some (AOF_TRUNCATED, commands (take ?k its), enc_items jts)}"
    using load_cut [OF assms, of ex] False by blast
  have "its = jts @ kts @ drop ?k its" using j(1) by (metis append.assoc append_take_drop_id)
  then have "plain mem cmds jts" using assms(1) plain_append by metis
  from load_all_items [OF this, of ex] j show ?thesis by auto
qed

section \<open>Transactions\<close>

text \<open>Inside a transaction the loader only collects.\<close>

lemma load_queued:
  "plain mem cmds its \<Longrightarrow> in_multi s \<Longrightarrow> sz = pos + length (enc_items its @ r) \<Longrightarrow>
   load_loop mem cmds True sz (enc_items its @ r) s =
   load_loop mem cmds True sz r (s\<lparr>queued := queued s @ map (Pair Proc_Other) (commands its), valid_up_to := commands_end pos (valid_up_to s) its\<rparr>)"
proof (induction its arbitrary: s pos)
  case (Cons it its)
  show ?case
  proof (cases it)
    case (Annotation t)
    then show ?thesis
      using Cons.IH [of s "pos + length (enc_item it)"] Cons.prems load_annotation [of t mem cmds True sz "enc_items its @ r" s] by simp
  next
    case (Command as)
    let ?p = "pos + length (enc_item it)"
    let ?s = "run_command True Proc_Other as (sz - length (enc_items its @ r)) s"
    have "?s = s\<lparr>queued := queued s @ [(Proc_Other, as)], valid_up_to := ?p\<rparr>"
      using Cons.prems(2,3) by (simp add: run_command_def queueMultiCommand_def Let_def)
    moreover have "load_loop mem cmds True sz (enc_items (it # its) @ r) s = load_loop mem cmds True sz (enc_items its @ r) ?s"
      using load_command [of mem as cmds Proc_Other True sz "enc_items its @ r" s] Cons.prems(1) Command by (simp del: enc_item.simps)
    ultimately show ?thesis
      using Cons.IH [of "s\<lparr>queued := queued s @ [(Proc_Other, as)], valid_up_to := ?p\<rparr>" ?p] Cons.prems Command
      by (simp add: Let_def del: enc_item.simps)
  qed
qed simp

text \<open>The same for commands among which further \<^verbatim>\<open>MULTI\<close>s are.\<close>

definition no_exec :: "nat \<Rightarrow> (bytes list \<Rightarrow> aof_proc option) \<Rightarrow> aof_item list \<Rightarrow> bool" where
  "no_exec mem cmds its \<longleftrightarrow> (\<forall>it\<in>set its. item_ok mem it) \<and> (\<forall>as\<in>set (commands its). cmds as \<in> {Some Proc_Multi, Some Proc_Other})"

lemma load_no_exec:
  "no_exec mem cmds its \<Longrightarrow> in_multi s \<Longrightarrow>
   \<exists>v b. load_loop mem cmds True sz (enc_items its @ r) s =
     load_loop mem cmds True sz r (s\<lparr>queued := queued s @ map (\<lambda>as. (the (cmds as), as)) (commands its), valid_up_to := v, valid_before_multi := b\<rparr>)"
proof (induction its arbitrary: s)
  case Nil
  show ?case by (intro exI [of _ "valid_up_to s"] exI [of _ "valid_before_multi s"]) simp
next
  case (Cons it its)
  show ?case
  proof (cases it)
    case (Annotation t)
    then show ?thesis
      using Cons.IH [of s] Cons.prems load_annotation [of t mem cmds True sz "enc_items its @ r" s] by (auto simp: no_exec_def)
  next
    case (Command as)
    have p: "item_ok mem (Command as)" "cmds as = Some (the (cmds as))" "the (cmds as) \<noteq> Proc_Exec" "no_exec mem cmds its"
      using Cons.prems(1) Command by (auto simp: no_exec_def)
    let ?s = "run_command True (the (cmds as)) as (sz - length (enc_items its @ r)) s"
    have s: "?s = s\<lparr>queued := queued s @ [(the (cmds as), as)], valid_up_to := sz - length (enc_items its @ r),
        valid_before_multi := (if the (cmds as) = Proc_Multi then valid_up_to s else valid_before_multi s)\<rparr>"
      using p(3) Cons.prems(2) by (cases s) (simp add: run_command_def queueMultiCommand_def Let_def)
    then have m: "in_multi ?s" using Cons.prems(2) by simp
    have "load_loop mem cmds True sz (enc_items (it # its) @ r) s = load_loop mem cmds True sz (enc_items its @ r) ?s"
      using load_command [where cmds = cmds, OF p(1,2), of True sz "enc_items its @ r" s] Command by (simp del: enc_item.simps)
    with Cons.IH [OF p(4) m] s Command show ?thesis by (auto simp del: enc_item.simps)
  qed
qed

lemma commands_end_commands: "commands_end p p (map Command cs) = p + length (enc_items (map Command cs))"
  by (induction cs arbitrary: p) (simp_all add: Let_def del: enc_item.simps)

lemma commands_map_Command [simp]: "commands (map Command cs) = cs"
  by (induction cs) simp_all

text \<open>The loader behind the commands \<open>ps\<close>, a \<^verbatim>\<open>MULTI\<close> and the commands \<open>cs\<close>.\<close>

definition open_transaction :: "bytes list list \<Rightarrow> bytes list \<Rightarrow> bytes list list \<Rightarrow> bytes" where
  "open_transaction ps m cs = enc_items (map Command ps @ Command m # map Command cs)"

lemma load_open_transaction:
  assumes "plain mem cmds (map Command ps)" "item_ok mem (Command m)" "cmds m = Some Proc_Multi" "plain mem cmds (map Command cs)"
    "f = open_transaction ps m cs @ r"
  shows "load_loop mem cmds True (length f) f load_state0 =
    load_loop mem cmds True (length f) r \<lparr>in_multi = True, queued = map (Pair Proc_Other) cs, executed = ps,
      valid_up_to = length (open_transaction ps m cs), valid_before_multi = length (enc_items (map Command ps))\<rparr>"
proof -
  let ?n = "length (enc_items (map Command ps))" and ?r = "enc_items (map Command cs) @ r"
  let ?s = "load_state0\<lparr>executed := ps, valid_up_to := ?n\<rparr>"
  have f: "f = enc_items (map Command ps) @ enc_item (Command m) @ ?r" using assms(5) by (simp add: open_transaction_def)
  have "load_loop mem cmds True (length f) f load_state0 = load_loop mem cmds True (length f) (enc_item (Command m) @ ?r) ?s"
    using load_plain [OF assms(1), of load_state0 "length f" 0 "enc_item (Command m) @ ?r"] f commands_end_commands [of 0 ps]
    by (simp add: load_state0_def del: enc_item.simps)
  also have "\<dots> = load_loop mem cmds True (length f) ?r (run_command True Proc_Multi m (length f - length ?r) ?s)"
    by (rule load_command [where cmds = cmds and p = Proc_Multi, OF assms(2,3)])
  also have "run_command True Proc_Multi m (length f - length ?r) ?s =
      ?s\<lparr>valid_before_multi := ?n, in_multi := True, valid_up_to := ?n + length (enc_item (Command m))\<rparr>"
    using f by (simp add: run_command_def multiCommand_def load_state0_def Let_def del: enc_item.simps)
  finally show ?thesis
    using load_queued [OF assms(4), of "?s\<lparr>valid_before_multi := ?n, in_multi := True, valid_up_to := ?n + length (enc_item (Command m))\<rparr>"
        "length f" "?n + length (enc_item (Command m))" r] f commands_end_commands [of "?n + length (enc_item (Command m))" cs]
    by (simp add: load_state0_def open_transaction_def add.assoc del: enc_item.simps)
qed

lemma open_transaction_sig: "take 5 (open_transaction ps m cs @ x) \<noteq> map of_char ''REDIS''" "open_transaction ps m cs \<noteq> []"
  by (cases ps; simp add: open_transaction_def)+

lemma flushed_case: "(case x of Some (Flushed s, its) \<Rightarrow> P s its | _ \<Rightarrow> False) \<Longrightarrow> \<exists>s its. x = Some (Flushed s, its) \<and> P s its"
  by (auto split: option.splits prod.splits flush_result.splits)

section \<open>The properties\<close>





end
