(* ===== verification/Path_Rdma.thy ===== *)
theory Path_Rdma
  imports Rdma
begin

text \<open>
  The RDMA layer of the programs that compare remote data paths,
  \<^verbatim>\<open>logdirect/remotepath/rdmautil/rdma_util.cpp\<close>: one registered buffer for each context, and
  every post a copy into it. The adapter is an argument, which splits a write into packets.
\<close>

section \<open>The code\<close>

subsection \<open>Contexts\<close>

record path_cert =
  pc_addr :: u64
  pc_rkey :: u32
  pc_qp_num :: u32
  pc_lid :: u16
  pc_gid :: bytes

text \<open>
  \<open>rx_sr\<close> is the work request in the context that every post fills in anew, with its one
  scatter element. The memory behind \<open>rx_buf\<close>, the queues and the completions follow.
  A queued request carries the bytes copied when it was posted inline and how many of its bytes
  have been delivered; a completion is whether the request succeeded.
\<close>

record rdma_ctx =
  rx_mr :: ibv_mr
  rx_tmp_mr :: "ibv_mr option"
  rx_sr :: ibv_send_wr
  rx_local :: path_cert
  rx_remote :: path_cert
  rx_buf :: u64
  rx_bufsize :: nat
  rx_dmabuf :: bool
  rx_mem :: bytes
  rx_queue :: "(ibv_send_wr \<times> bytes option \<times> nat) list"
  rx_recvs :: "ibv_recv_wr list"
  rx_out_cq :: "bool list"
  rx_in_cq :: "bool list"

record ibv_qp_init_attr =
  qi_reliable :: bool
  qi_sq_sig_all :: int
  qi_max_send_wr :: nat
  qi_max_recv_wr :: nat
  qi_max_send_sge :: nat
  qi_max_recv_sge :: nat
  qi_max_inline_data :: nat

text \<open>What the device answers while a context is opened; \<open>None\<close> or false is a failure.\<close>

record path_device =
  pd_alloc_pd :: bool
  pd_in_cq :: "nat \<Rightarrow> bool"
  pd_out_cq :: "nat \<Rightarrow> bool"
  pd_reg_mr :: "u64 \<Rightarrow> nat \<Rightarrow> ibv_access list \<Rightarrow> ibv_mr option"
  pd_reg_dmabuf_mr :: "int \<Rightarrow> nat \<Rightarrow> ibv_access list \<Rightarrow> ibv_mr option"
  pd_mmap :: "int \<Rightarrow> nat \<Rightarrow> u64"
  pd_create_qp :: "ibv_qp_init_attr \<Rightarrow> u32 option"
  pd_query_gid :: "bytes option"
  pd_query_port :: "u16 option"
  pd_ib_port :: int
  pd_gid_idx :: int

definition zero_path_cert :: path_cert where
  "zero_path_cert = \<lparr>pc_addr = 0, pc_rkey = 0, pc_qp_num = 0, pc_lid = 0, pc_gid = replicate 16 0\<rparr>"

definition zero_send_wr :: ibv_send_wr where
  "zero_send_wr = \<lparr>sg_addr = 0, sg_length = 0, sg_lkey = 0, wr_opcode = IBV_WR_RDMA_WRITE, wr_signaled = False, wr_inline = False,
     wr_remote_addr = 0, wr_rkey = 0, wr_compare_add = 0, wr_swap = 0\<rparr>"

definition make_path_context :: rdma_ctx where
  "make_path_context =
     \<lparr>rx_mr = zero_mr, rx_tmp_mr = None, rx_sr = zero_send_wr, rx_local = zero_path_cert, rx_remote = zero_path_cert,
      rx_buf = 0, rx_bufsize = 0, rx_dmabuf = False, rx_mem = [], rx_queue = [], rx_recvs = [], rx_out_cq = [], rx_in_cq = []\<rparr>"

definition zero_qp_init_attr :: ibv_qp_init_attr where
  "zero_qp_init_attr = \<lparr>qi_reliable = False, qi_sq_sig_all = 0, qi_max_send_wr = 0, qi_max_recv_wr = 0, qi_max_send_sge = 0,
     qi_max_recv_sge = 0, qi_max_inline_data = 0\<rparr>"

definition get_default_qp_init_attr :: ibv_qp_init_attr where
  "get_default_qp_init_attr =
     zero_qp_init_attr\<lparr>qi_reliable := True, qi_sq_sig_all := 0, qi_max_send_wr := MAX_QP_DEPTH, qi_max_recv_wr := MAX_QP_DEPTH,
       qi_max_send_sge := 1, qi_max_recv_sge := 1, qi_max_inline_data := MAX_INLINE_SIZE\<rparr>"

text \<open>
  The common part of the two ways to open a context, from the protection domain to the port:
  \<open>reg\<close> is the answer to the registration, \<open>addr\<close> the address that goes into the certificate.
\<close>

definition bring_up :: "path_device \<Rightarrow> nat \<Rightarrow> ibv_mr option \<Rightarrow> (ibv_mr \<Rightarrow> u64) \<Rightarrow> ibv_qp_init_attr \<Rightarrow> rdma_status + rdma_ctx" where
  "bring_up dev cqe reg addr attr =
     (if \<not> pd_alloc_pd dev then Inl CannotAllocPD
      else if \<not> pd_in_cq dev cqe then Inl CannotCreateCQ
      else if \<not> pd_out_cq dev cqe then Inl CannotCreateCQ
      else case reg of
        None \<Rightarrow> Inl CannotRegMR
      | Some mr \<Rightarrow>
          (case pd_create_qp dev attr of
             None \<Rightarrow> Inl CannotCreateQP
           | Some qp \<Rightarrow>
               (case (if pd_gid_idx dev \<ge> 0 then pd_query_gid dev else Some (pc_gid zero_path_cert)) of
                  None \<Rightarrow> Inl NoGID
                | Some gid \<Rightarrow>
                    (case pd_query_port dev of
                       None \<Rightarrow> Inl CannotQueryPort
                     | Some lid \<Rightarrow>
                         Inr (make_path_context\<lparr>rx_mr := mr, rx_local :=
                           \<lparr>pc_addr = addr mr, pc_rkey = mr_rkey mr, pc_qp_num = qp, pc_lid = lid, pc_gid = gid\<rparr>\<rparr>)))))"

text \<open>\<open>mem\<close> is what the memory holds when the context is opened.\<close>

definition open_membuf ::
    "path_device \<Rightarrow> u64 \<Rightarrow> nat \<Rightarrow> bytes \<Rightarrow> nat \<Rightarrow> ibv_access list \<Rightarrow> ibv_qp_init_attr \<Rightarrow> rdma_status + rdma_ctx" where
  "open_membuf dev membuf memsize mem cqe mr_access attr =
     (let mr_access = (if mr_access = [] then get_default_mr_access else mr_access);
          attr = (if attr = zero_qp_init_attr then get_default_qp_init_attr else attr)
      in if membuf = 0 \<or> cqe = 0 then Inl InvalidArguments
         else case bring_up dev cqe (pd_reg_mr dev membuf memsize mr_access) (\<lambda>_. membuf) attr of
           Inl st \<Rightarrow> Inl st
         | Inr c \<Rightarrow> Inr (c\<lparr>rx_buf := membuf, rx_bufsize := memsize, rx_dmabuf := False, rx_mem := mem\<rparr>))"

definition open_dmabuf ::
    "path_device \<Rightarrow> int \<Rightarrow> nat \<Rightarrow> bytes \<Rightarrow> nat \<Rightarrow> ibv_access list \<Rightarrow> ibv_qp_init_attr \<Rightarrow> rdma_status + rdma_ctx" where
  "open_dmabuf dev dmabuf_fd buflen mem cqe mr_access attr =
     (let mr_access = (if mr_access = [] then get_default_mr_access else mr_access);
          attr = (if attr = zero_qp_init_attr then get_default_qp_init_attr else attr)
      in if dmabuf_fd < 3 \<or> cqe = 0 then Inl InvalidArguments
         else case bring_up dev cqe (pd_reg_dmabuf_mr dev dmabuf_fd buflen mr_access) mr_addr attr of
           Inl st \<Rightarrow> Inl st
         | Inr c \<Rightarrow> Inr (c\<lparr>rx_buf := pd_mmap dev dmabuf_fd buflen, rx_bufsize := buflen, rx_dmabuf := True, rx_mem := mem\<rparr>))"

definition register_memory :: "path_device \<Rightarrow> int \<Rightarrow> nat \<Rightarrow> rdma_ctx \<Rightarrow> rdma_ctx" where
  "register_memory dev dmabuf_fd bufsize c =
     c\<lparr>rx_tmp_mr := pd_reg_dmabuf_mr dev dmabuf_fd bufsize [IBV_ACCESS_LOCAL_WRITE, IBV_ACCESS_REMOTE_READ, IBV_ACCESS_REMOTE_WRITE]\<rparr>"

subsection \<open>Connecting\<close>

definition path_cert_size :: nat where
  "path_cert_size = 34"

definition wire_path_cert :: "path_cert \<Rightarrow> bytes" where
  "wire_path_cert c = hton 8 (pc_addr c) @ hton 4 (pc_rkey c) @ hton 4 (pc_qp_num c) @ hton 2 (pc_lid c) @ pc_gid c"

definition unwire_path_cert :: "bytes \<Rightarrow> path_cert" where
  "unwire_path_cert d = \<lparr>pc_addr = ntoh (mread d 0 8), pc_rkey = ntoh (mread d 8 4), pc_qp_num = ntoh (mread d 12 4),
     pc_lid = ntoh (mread d 16 2), pc_gid = mread d 18 16\<rparr>"

text \<open>\<open>written\<close> is the result of \<^verbatim>\<open>write\<close> on the socket, \<open>received\<close> what \<^verbatim>\<open>read\<close> delivers.\<close>

definition exchange_path_certificate :: "int \<Rightarrow> bytes option \<Rightarrow> rdma_ctx \<Rightarrow> bytes \<times> rdma_status \<times> rdma_ctx" where
  "exchange_path_certificate written received c =
     (let tmp = wire_path_cert (rx_local c)
      in if written \<noteq> int path_cert_size then (tmp, WriteError, c)
         else case received of
                None \<Rightarrow> (tmp, ReadError, c)
              | Some d \<Rightarrow>
                  (if length d \<noteq> path_cert_size then (tmp, ReadError, c)
                   else (tmp, Status_Ok, c\<lparr>rx_remote := unwire_path_cert d\<rparr>)))"

definition path_qp_init_state_attr :: "int \<Rightarrow> ibv_qp_attr" where
  "path_qp_init_state_attr ib_port =
     zero_qp_attr\<lparr>qp_state := IBV_QPS_INIT, qp_port_num := of_int ib_port, qp_pkey_index := 0,
       qp_access_flags := [IBV_ACCESS_LOCAL_WRITE, IBV_ACCESS_REMOTE_READ, IBV_ACCESS_REMOTE_WRITE]\<rparr>"

definition path_qp_rtr_attr :: "path_cert \<Rightarrow> int \<Rightarrow> int \<Rightarrow> ibv_qp_attr" where
  "path_qp_rtr_attr remote ib_port sgid_idx =
     (let ah = zero_ah_attr\<lparr>ah_is_global := 0, ah_dlid := pc_lid remote, ah_sl := 0, ah_src_path_bits := 0,
            ah_port_num := of_int ib_port\<rparr>;
          ah = (if sgid_idx \<ge> 0
                then ah\<lparr>ah_is_global := 1, ah_port_num := 1, grh_dgid := pc_gid remote, grh_flow_label := 0,
                       grh_hop_limit := 1, grh_sgid_index := of_int sgid_idx, grh_traffic_class := 0\<rparr>
                else ah)
      in zero_qp_attr\<lparr>qp_state := IBV_QPS_RTR, qp_path_mtu := IBV_MTU_256, qp_dest_qp_num := pc_qp_num remote,
           qp_rq_psn := 0, qp_max_dest_rd_atomic := 1, qp_min_rnr_timer := 0x12, qp_ah_attr := ah\<rparr>)"

definition path_qp_rts_attr :: ibv_qp_attr where
  "path_qp_rts_attr =
     zero_qp_attr\<lparr>qp_state := IBV_QPS_RTS, qp_timeout := 0x12, qp_retry_cnt := 7, qp_rnr_retry := 7, qp_sq_psn := 0,
       qp_max_rd_atomic := 1\<rparr>"

definition connect_path ::
    "(ibv_qp_attr \<Rightarrow> ibv_qp_attr_mask list \<Rightarrow> int) \<Rightarrow> path_device \<Rightarrow> int \<Rightarrow> bytes option \<Rightarrow> rdma_ctx \<Rightarrow> rdma_ctx \<times> int" where
  "connect_path ibv_modify_qp dev written received c =
     (case exchange_path_certificate written received c of
        (_, status, c) \<Rightarrow>
          (if status \<noteq> Status_Ok then (c, -1)
           else case modify_qp ibv_modify_qp (path_qp_init_state_attr 1) get_default_qp_init_state_attr_mask of
             (status, err) \<Rightarrow> if status \<noteq> Status_Ok then (c, err)
           else case modify_qp ibv_modify_qp (path_qp_rtr_attr (rx_remote c) (pd_ib_port dev) (pd_gid_idx dev)) get_default_qp_rtr_attr_mask of
             (status, err) \<Rightarrow> if status \<noteq> Status_Ok then (c, err)
           else case modify_qp ibv_modify_qp path_qp_rts_attr get_default_qp_rts_attr_mask of
             (status, err) \<Rightarrow> if status \<noteq> Status_Ok then (c, err)
           else (c, 0)))"

subsection \<open>Posting and polling\<close>

text \<open>
  The adapter: posting a chain of requests, polling up to some completions, and delivering the
  next packet of the oldest request to the peer.
\<close>

record path_verbs =
  pv_post_send :: "ibv_send_wr list \<Rightarrow> rdma_ctx \<Rightarrow> rdma_ctx \<times> int"
  pv_post_recv :: "ibv_recv_wr \<Rightarrow> rdma_ctx \<Rightarrow> rdma_ctx \<times> int"
  pv_poll_cq :: "bool \<Rightarrow> nat \<Rightarrow> rdma_ctx \<Rightarrow> rdma_ctx \<times> bool list \<times> int"
  pv_packet :: "rdma_ctx \<Rightarrow> rdma_ctx \<Rightarrow> rdma_ctx \<times> rdma_ctx"

definition path_copy_in :: "bytes option \<Rightarrow> nat \<Rightarrow> nat \<Rightarrow> rdma_ctx \<Rightarrow> rdma_ctx option" where
  "path_copy_in msg msg_len off c =
     (case msg of
        None \<Rightarrow> Some c
      | Some d \<Rightarrow> do { d \<leftarrow> load d 0 msg_len; m \<leftarrow> memcpy (rx_mem c) off d; Some (c\<lparr>rx_mem := m\<rparr>) })"

text \<open>The request of a post; a send leaves the remote address of the request before it in place.\<close>

definition path_wr :: "nat \<Rightarrow> opcode \<Rightarrow> nat \<Rightarrow> nat \<Rightarrow> rdma_ctx \<Rightarrow> ibv_send_wr" where
  "path_wr msg_len opc local_offset remote_offset c =
     (let sr = (rx_sr c)\<lparr>sg_addr := rx_buf c + of_nat local_offset, sg_length := of_nat msg_len, sg_lkey := mr_lkey (rx_mr c),
            wr_opcode := opc, wr_signaled := True, wr_inline := (opc = IBV_WR_RDMA_WRITE \<and> msg_len \<le> MAX_INLINE_SIZE)\<rparr>
      in if opc \<noteq> IBV_WR_SEND
         then sr\<lparr>wr_remote_addr := pc_addr (rx_remote c) + of_nat remote_offset, wr_rkey := pc_rkey (rx_remote c)\<rparr>
         else sr)"

definition post_send_helper ::
    "path_verbs \<Rightarrow> bytes option \<Rightarrow> nat \<Rightarrow> opcode \<Rightarrow> nat \<Rightarrow> nat \<Rightarrow> rdma_ctx \<Rightarrow> (rdma_ctx \<times> rdma_status \<times> int) option" where
  "post_send_helper v msg msg_len opc local_offset remote_offset c =
     do { c \<leftarrow> path_copy_in msg msg_len local_offset c;
          let sr = path_wr msg_len opc local_offset remote_offset c;
          let (c, ret) = pv_post_send v [sr] (c\<lparr>rx_sr := sr\<rparr>);
          Some (if ret \<noteq> 0 then (c, PostFailed, ret) else (c, Status_Ok, 0)) }"

definition post_send_helper_ptr ::
    "path_verbs \<Rightarrow> u64 \<Rightarrow> bytes option \<Rightarrow> nat \<Rightarrow> opcode \<Rightarrow> nat \<Rightarrow> rdma_ctx \<Rightarrow> (rdma_ctx \<times> rdma_status \<times> int) option" where
  "post_send_helper_ptr v ptr msg msg_len opc local_offset c =
     post_send_helper v msg msg_len opc local_offset (unat (ptr - pc_addr (rx_remote c))) c"

definition path_post_send :: "path_verbs \<Rightarrow> bytes option \<Rightarrow> nat \<Rightarrow> nat \<Rightarrow> rdma_ctx \<Rightarrow> (rdma_ctx \<times> rdma_status \<times> int) option" where
  "path_post_send v msg msg_len local_offset c = post_send_helper v msg msg_len IBV_WR_SEND local_offset 0 c"

definition path_post_send_ptr ::
    "path_verbs \<Rightarrow> u64 \<Rightarrow> bytes option \<Rightarrow> nat \<Rightarrow> nat \<Rightarrow> rdma_ctx \<Rightarrow> (rdma_ctx \<times> rdma_status \<times> int) option" where
  "path_post_send_ptr v ptr msg msg_len local_offset c = post_send_helper_ptr v ptr msg msg_len IBV_WR_SEND local_offset c"

definition path_post_read :: "path_verbs \<Rightarrow> nat \<Rightarrow> nat \<Rightarrow> nat \<Rightarrow> rdma_ctx \<Rightarrow> (rdma_ctx \<times> rdma_status \<times> int) option" where
  "path_post_read v msg_len local_offset remote_offset c =
     post_send_helper v None msg_len IBV_WR_RDMA_READ local_offset remote_offset c"

definition path_post_read_ptr :: "path_verbs \<Rightarrow> u64 \<Rightarrow> nat \<Rightarrow> nat \<Rightarrow> rdma_ctx \<Rightarrow> (rdma_ctx \<times> rdma_status \<times> int) option" where
  "path_post_read_ptr v ptr msg_len local_offset c = post_send_helper_ptr v ptr None msg_len IBV_WR_RDMA_READ local_offset c"

definition path_post_write ::
    "path_verbs \<Rightarrow> bytes option \<Rightarrow> nat \<Rightarrow> nat \<Rightarrow> nat \<Rightarrow> rdma_ctx \<Rightarrow> (rdma_ctx \<times> rdma_status \<times> int) option" where
  "path_post_write v msg msg_len local_offset remote_offset c =
     post_send_helper v msg msg_len IBV_WR_RDMA_WRITE local_offset remote_offset c"

definition path_post_write_ptr ::
    "path_verbs \<Rightarrow> u64 \<Rightarrow> bytes option \<Rightarrow> nat \<Rightarrow> nat \<Rightarrow> rdma_ctx \<Rightarrow> (rdma_ctx \<times> rdma_status \<times> int) option" where
  "path_post_write_ptr v ptr msg msg_len local_offset c = post_send_helper_ptr v ptr msg msg_len IBV_WR_RDMA_WRITE local_offset c"

definition post_recv_to :: "path_verbs \<Rightarrow> nat \<Rightarrow> nat \<Rightarrow> rdma_ctx \<Rightarrow> rdma_ctx \<times> rdma_status \<times> int" where
  "post_recv_to v msg_len offset c =
     (let (c, ret) = pv_post_recv v \<lparr>rsg_addr = rx_buf c + of_nat offset, rsg_length = of_nat msg_len, rsg_lkey = mr_lkey (rx_mr c)\<rparr> c
      in if ret \<noteq> 0 then (c, RecvFailed, ret) else (c, Status_Ok, 0))"

definition fill_buf :: "bytes option \<Rightarrow> nat \<Rightarrow> nat \<Rightarrow> rdma_ctx \<Rightarrow> (rdma_ctx \<times> u64) option" where
  "fill_buf msg msg_len offset c =
     do { c \<leftarrow> (if msg_len \<noteq> 0 then path_copy_in msg msg_len offset c else Some c);
          Some (c, rx_buf c + of_nat offset) }"

text \<open>A scatter element is its address, length and key.\<close>

definition generate_sge :: "bytes option \<Rightarrow> nat \<Rightarrow> nat \<Rightarrow> rdma_ctx \<Rightarrow> (rdma_ctx \<times> u64 \<times> u32 \<times> u32) option" where
  "generate_sge msg msg_len offset c =
     do { (c, adr) \<leftarrow> fill_buf msg msg_len offset c; Some (c, adr, of_nat msg_len, mr_lkey (rx_mr c)) }"

definition generate_send_wr :: "u64 \<times> u32 \<times> u32 \<Rightarrow> u64 \<Rightarrow> opcode \<Rightarrow> rdma_ctx \<Rightarrow> ibv_send_wr" where
  "generate_send_wr sge remote opc c =
     (case sge of (adr, len, lkey) \<Rightarrow>
        zero_send_wr\<lparr>sg_addr := adr, sg_length := len, sg_lkey := lkey, wr_opcode := opc, wr_signaled := True,
          wr_remote_addr := remote, wr_rkey := pc_rkey (rx_remote c)\<rparr>)"

definition post_batch_write :: "path_verbs \<Rightarrow> ibv_send_wr list \<Rightarrow> rdma_ctx \<Rightarrow> rdma_ctx \<times> rdma_status \<times> int" where
  "post_batch_write v wrs c =
     (let (c, ret) = pv_post_send v wrs c in if ret \<noteq> 0 then (c, WriteError, ret) else (c, Status_Ok, 0))"

definition post_batch_read :: "path_verbs \<Rightarrow> ibv_send_wr list \<Rightarrow> rdma_ctx \<Rightarrow> rdma_ctx \<times> rdma_status \<times> int" where
  "post_batch_read v wrs c =
     (let (c, ret) = pv_post_send v wrs c in if ret \<noteq> 0 then (c, ReadError, ret) else (c, Status_Ok, 0))"

text \<open>One turn of the polling loops; \<open>None\<close> when the loop goes round.\<close>

definition path_poll_once :: "path_verbs \<Rightarrow> bool \<Rightarrow> rdma_ctx \<Rightarrow> rdma_ctx \<times> int" where
  "path_poll_once v send c = (let (c, _, ret) = pv_poll_cq v send 1 c in (c, ret))"

definition path_poll_one :: "path_verbs \<Rightarrow> bool \<Rightarrow> rdma_ctx \<Rightarrow> (rdma_ctx \<times> int) option" where
  "path_poll_one v send c = (let (c, _, ret) = pv_poll_cq v send 1 c in if ret = 0 then None else Some (c, ret))"

definition poll_multiple_completions :: "path_verbs \<Rightarrow> nat \<Rightarrow> bool \<Rightarrow> rdma_ctx \<Rightarrow> (rdma_ctx \<times> bool list option \<times> int) option" where
  "poll_multiple_completions v no send c =
     (let (c, wc, ret) = pv_poll_cq v send no c
      in if ret = 0 then None else Some (c, if ret > 0 then None else Some wc, ret))"

section \<open>What the code relies on\<close>

text \<open>
  A reliable connection. Posted requests are queued while there is room, inline ones with their
  bytes; polling takes the oldest completions; the adapter works on the oldest request, reads what is
  not inline from the registered buffer, stores it at the place the request names when
  key and range allow it, and completes the request when all of it has been stored.
\<close>

definition path_mtu :: nat where
  "path_mtu = 256"

definition path_payload :: "rdma_ctx \<Rightarrow> ibv_send_wr \<Rightarrow> bytes option \<Rightarrow> bytes option" where
  "path_payload c wr inl =
     (case inl of
        Some d \<Rightarrow> Some d
      | None \<Rightarrow>
          if sg_lkey wr = mr_lkey (rx_mr c) \<and> in_mr (rx_mr c) (sg_addr wr) (unat (sg_length wr))
          then Some (mread (rx_mem c) (unat (sg_addr wr - mr_addr (rx_mr c))) (unat (sg_length wr)))
          else None)"

definition path_queued :: "rdma_ctx \<Rightarrow> ibv_send_wr \<Rightarrow> ibv_send_wr \<times> bytes option \<times> nat" where
  "path_queued c wr =
     (wr, if wr_inline wr then Some (mread (rx_mem c) (unat (sg_addr wr - rx_buf c)) (unat (sg_length wr))) else None, 0)"

definition path_deliver ::
    "rdma_ctx \<Rightarrow> rdma_ctx \<Rightarrow> ibv_send_wr \<Rightarrow> bytes option \<Rightarrow> nat \<Rightarrow> bytes \<Rightarrow> rdma_ctx \<times> rdma_ctx" where
  "path_deliver a b wr inl k d =
     (let n = min path_mtu (length d - k)
      in (if k + n < length d then a\<lparr>rx_queue := (wr, inl, k + n) # tl (rx_queue a)\<rparr>
          else a\<lparr>rx_queue := tl (rx_queue a), rx_out_cq := rx_out_cq a @ (if wr_signaled wr then [True] else [])\<rparr>,
          b\<lparr>rx_mem := mwrite (rx_mem b) (unat (wr_remote_addr wr - mr_addr (rx_mr b)) + k) (mread d k n)\<rparr>))"

definition path_post_ok :: "path_verbs \<Rightarrow> bool" where
  "path_post_ok v \<longleftrightarrow> (\<forall>wrs c. length (rx_queue c) + length wrs \<le> MAX_QP_DEPTH \<longrightarrow>
     pv_post_send v wrs c = (c\<lparr>rx_queue := rx_queue c @ map (path_queued c) wrs\<rparr>, 0))"

definition path_poll_ok :: "path_verbs \<Rightarrow> bool" where
  "path_poll_ok v \<longleftrightarrow> (\<forall>n c. pv_poll_cq v True n c =
     (c\<lparr>rx_out_cq := drop n (rx_out_cq c)\<rparr>, take n (rx_out_cq c), int (min n (length (rx_out_cq c)))))"

text \<open>An adapter that stores packets of the size of the path MTU that \<open>path_qp_rtr_attr\<close> asks for, each in one piece and in their order.\<close>

definition path_packet_ok :: "path_verbs \<Rightarrow> bool" where
  "path_packet_ok v \<longleftrightarrow> (\<forall>a b wr inl k q d.
     rx_queue a = (wr, inl, k) # q \<longrightarrow> wr_opcode wr = IBV_WR_RDMA_WRITE \<longrightarrow> path_payload a wr inl = Some d \<longrightarrow>
     wr_rkey wr = mr_rkey (rx_mr b) \<longrightarrow> in_mr (rx_mr b) (wr_remote_addr wr) (length d) \<longrightarrow>
     pv_packet v a b = path_deliver a b wr inl k d)"

definition path_verbs_ok :: "path_verbs \<Rightarrow> bool" where
  "path_verbs_ok v \<longleftrightarrow> path_post_ok v \<and> path_poll_ok v \<and> path_packet_ok v"

lemma path_verbs_okD: "path_verbs_ok v \<Longrightarrow> path_post_ok v" "path_verbs_ok v \<Longrightarrow> path_poll_ok v"
  by (simp_all add: path_verbs_ok_def)

text \<open>
  What is promised to every user of a reliable connection is less: in which order and in which portions the bytes of a request
  reach the memory is not said, only that they are all there once the request has completed. \<open>pl k d i\<close> tells
  whether an adapter that has got as far as \<open>k\<close> with \<open>d\<close> has stored the byte \<open>i\<close> of it.
\<close>

definition path_places ::
    "(nat \<Rightarrow> bytes \<Rightarrow> nat \<Rightarrow> bool) \<Rightarrow> rdma_ctx \<Rightarrow> rdma_ctx \<Rightarrow> ibv_send_wr \<Rightarrow> bytes option \<Rightarrow> nat \<Rightarrow> bytes \<Rightarrow> rdma_ctx \<times> rdma_ctx \<Rightarrow> bool" where
  "path_places pl a b wr inl k d r \<longleftrightarrow> (\<exists>m. let ro = unat (wr_remote_addr wr - mr_addr (rx_mr b)) in
     length m = length (rx_mem b) \<and> snd r = b\<lparr>rx_mem := m\<rparr> \<and>
     (\<forall>j<length m. j < ro \<or> ro + length d \<le> j \<or> pl k d (j - ro) \<longrightarrow> m ! j = rx_mem b ! j) \<and>
     ((\<exists>k'. fst r = a\<lparr>rx_queue := (wr, inl, k') # tl (rx_queue a)\<rparr> \<and> (\<forall>i<length d. pl k' d i \<longrightarrow> pl k d i \<or> m ! (ro + i) = d ! i)) \<or>
      fst r = a\<lparr>rx_queue := tl (rx_queue a), rx_out_cq := rx_out_cq a @ (if wr_signaled wr then [True] else [])\<rparr> \<and>
        (\<forall>i<length d. pl k d i \<or> m ! (ro + i) = d ! i)))"

definition path_place_ok :: "(nat \<Rightarrow> bytes \<Rightarrow> nat \<Rightarrow> bool) \<Rightarrow> path_verbs \<Rightarrow> bool" where
  "path_place_ok pl v \<longleftrightarrow> (\<forall>d i. \<not> pl 0 d i) \<and> (\<forall>a b wr inl k q d.
     rx_queue a = (wr, inl, k) # q \<longrightarrow> wr_opcode wr = IBV_WR_RDMA_WRITE \<longrightarrow> path_payload a wr inl = Some d \<longrightarrow>
     wr_rkey wr = mr_rkey (rx_mr b) \<longrightarrow> in_mr (rx_mr b) (wr_remote_addr wr) (length d) \<longrightarrow>
     unat (wr_remote_addr wr - mr_addr (rx_mr b)) + length d \<le> length (rx_mem b) \<longrightarrow>
     path_places pl a b wr inl k d (pv_packet v a b))"

definition path_reliable :: "(nat \<Rightarrow> bytes \<Rightarrow> nat \<Rightarrow> bool) \<Rightarrow> path_verbs \<Rightarrow> bool" where
  "path_reliable pl v \<longleftrightarrow> path_post_ok v \<and> path_poll_ok v \<and> path_place_ok pl v"

lemma path_reliableD: "path_reliable pl v \<Longrightarrow> path_post_ok v" "path_reliable pl v \<Longrightarrow> path_poll_ok v" "path_reliable pl v \<Longrightarrow> path_place_ok pl v"
  by (simp_all add: path_reliable_def)

lemma nth_mwrite:
  "off + length d \<le> length m \<Longrightarrow> j < length m \<Longrightarrow> mwrite m off d ! j = (if off \<le> j \<and> j < off + length d then d ! (j - off) else m ! j)"
  by (auto simp: mwrite_def nth_append min_def)

text \<open>Packets in their order are a case of that.\<close>

lemma path_deliver_places:
  assumes "unat (wr_remote_addr wr - mr_addr (rx_mr b)) + length d \<le> length (rx_mem b)"
  shows "path_places (\<lambda>k d i. i < k) a b wr inl k d (path_deliver a b wr inl k d)"
proof -
  let ?ro = "unat (wr_remote_addr wr - mr_addr (rx_mr b))" and ?n = "min path_mtu (length d - k)"
  define e where "e = mread d k ?n"
  define m where "m = mwrite (rx_mem b) (?ro + k) e"
  show ?thesis
  proof (cases "k < length d")
    case False
    then have "m = rx_mem b" by (simp add: m_def e_def mread_def mwrite_def)
    then show ?thesis using False
      by (auto simp: path_places_def path_deliver_def Let_def m_def e_def intro!: exI [of _ m])
  next
    case True
    have e: "length e = ?n" "\<And>i. i < ?n \<Longrightarrow> e ! i = d ! (k + i)" using True by (simp_all add: e_def mread_def)
    have r: "?ro + k + length e \<le> length (rx_mem b)" using assms True e(1) by linarith
    have len: "length m = length (rx_mem b)" using r by (simp add: m_def)
    have nth: "m ! j = (if ?ro + k \<le> j \<and> j < ?ro + k + ?n then d ! (j - ?ro) else rx_mem b ! j)" if "j < length (rx_mem b)" for j
    proof (cases "?ro + k \<le> j \<and> j < ?ro + k + ?n")
      case True
      then have "j - (?ro + k) < ?n" "k + (j - (?ro + k)) = j - ?ro" by linarith+
      then show ?thesis using nth_mwrite [OF r that] e True by (simp add: m_def del: min_less_iff_conj)
    next
      case False
      then show ?thesis using nth_mwrite [OF r that] e(1) by (auto simp: m_def)
    qed
    have new: "i < k \<or> m ! (?ro + i) = d ! i" if "i < k + ?n" "i < length d" for i using nth [of "?ro + i"] that assms by auto
    let ?p = "a\<lparr>rx_queue := (wr, inl, k + ?n) # tl (rx_queue a)\<rparr>"
      and ?e = "a\<lparr>rx_queue := tl (rx_queue a), rx_out_cq := rx_out_cq a @ (if wr_signaled wr then [True] else [])\<rparr>"
    have pd: "path_deliver a b wr inl k d = (if k + ?n < length d then ?p else ?e, b\<lparr>rx_mem := m\<rparr>)"
      unfolding path_deliver_def Let_def m_def e_def ..
    have rest: "\<forall>j<length m. j < ?ro \<or> ?ro + length d \<le> j \<or> j - ?ro < k \<longrightarrow> m ! j = rx_mem b ! j" using nth len True by auto
    have "(\<exists>k'. fst (path_deliver a b wr inl k d) = a\<lparr>rx_queue := (wr, inl, k') # tl (rx_queue a)\<rparr> \<and> (\<forall>i<length d. i < k' \<longrightarrow> i < k \<or> m ! (?ro + i) = d ! i)) \<or>
        fst (path_deliver a b wr inl k d) = ?e \<and> (\<forall>i<length d. i < k \<or> m ! (?ro + i) = d ! i)"
    proof (cases "k + ?n < length d")
      case True
      then have "fst (path_deliver a b wr inl k d) = ?p" unfolding pd by simp
      then show ?thesis using new by blast
    next
      case False
      then have "fst (path_deliver a b wr inl k d) = ?e" unfolding pd by simp
      moreover have "\<forall>i<length d. i < k \<or> m ! (?ro + i) = d ! i"
      proof (intro allI impI)
        fix i assume "i < length d"
        then show "i < k \<or> m ! (?ro + i) = d ! i" using new [of i] False by linarith
      qed
      ultimately show ?thesis by blast
    qed
    then show ?thesis unfolding path_places_def Let_def using len rest pd by (intro exI [of _ m]) simp
  qed
qed

lemma path_verbs_reliable: "path_verbs_ok v \<Longrightarrow> path_reliable (\<lambda>k d i. i < k) v"
  by (simp add: path_reliable_def path_verbs_ok_def path_place_ok_def path_packet_ok_def path_deliver_places)

text \<open>An adapter that sends packets of the path MTU, in their order.\<close>

definition rc_packet :: "rdma_ctx \<Rightarrow> rdma_ctx \<Rightarrow> rdma_ctx \<times> rdma_ctx" where
  "rc_packet a b =
     (case rx_queue a of
        [] \<Rightarrow> (a, b)
      | (wr, inl, k) # q \<Rightarrow>
          (case path_payload a wr inl of
             None \<Rightarrow> (a\<lparr>rx_queue := [], rx_out_cq := rx_out_cq a @ [False]\<rparr>, b)
           | Some d \<Rightarrow>
               if wr_opcode wr = IBV_WR_RDMA_WRITE \<and> wr_rkey wr = mr_rkey (rx_mr b) \<and> in_mr (rx_mr b) (wr_remote_addr wr) (length d)
               then path_deliver a b wr inl k d
               else (a\<lparr>rx_queue := [], rx_out_cq := rx_out_cq a @ [False]\<rparr>, b)))"

definition rc_path_verbs :: path_verbs where
  "rc_path_verbs =
     \<lparr>pv_post_send = (\<lambda>wrs c. if length (rx_queue c) + length wrs \<le> MAX_QP_DEPTH
        then (c\<lparr>rx_queue := rx_queue c @ map (path_queued c) wrs\<rparr>, 0) else (c, 12)),
      pv_post_recv = (\<lambda>wr c. (c\<lparr>rx_recvs := rx_recvs c @ [wr]\<rparr>, 0)),
      pv_poll_cq = (\<lambda>send n c.
        if send then (c\<lparr>rx_out_cq := drop n (rx_out_cq c)\<rparr>, take n (rx_out_cq c), int (min n (length (rx_out_cq c))))
        else (c\<lparr>rx_in_cq := drop n (rx_in_cq c)\<rparr>, take n (rx_in_cq c), int (min n (length (rx_in_cq c))))),
      pv_packet = rc_packet\<rparr>"

lemma rc_path_verbs_ok: "path_verbs_ok rc_path_verbs"
  by (auto simp: path_verbs_ok_def path_post_ok_def path_poll_ok_def path_packet_ok_def rc_path_verbs_def rc_packet_def)

section \<open>Connected contexts\<close>

text \<open>
  A region covers the memory; a context that sends reaches it by the registered address too,
  which a mapped device buffer does not.
\<close>

definition covers_mem :: "rdma_ctx \<Rightarrow> bool" where
  "covers_mem c \<longleftrightarrow> mr_length (rx_mr c) = length (rx_mem c) \<and> length (rx_mem c) < 2 ^ 32"

definition can_send :: "rdma_ctx \<Rightarrow> bool" where
  "can_send c \<longleftrightarrow> covers_mem c \<and> mr_addr (rx_mr c) = rx_buf c"

definition knows_region :: "rdma_ctx \<Rightarrow> rdma_ctx \<Rightarrow> bool" where
  "knows_region a b \<longleftrightarrow> pc_addr (rx_remote a) = mr_addr (rx_mr b) \<and> pc_rkey (rx_remote a) = mr_rkey (rx_mr b)"

lemma context_frame [simp]:
  "covers_mem (c\<lparr>rx_queue := q\<rparr>) = covers_mem c" "covers_mem (c\<lparr>rx_out_cq := cq\<rparr>) = covers_mem c" "covers_mem (c\<lparr>rx_sr := sr\<rparr>) = covers_mem c"
  "can_send (c\<lparr>rx_queue := q\<rparr>) = can_send c" "can_send (c\<lparr>rx_out_cq := cq\<rparr>) = can_send c" "can_send (c\<lparr>rx_sr := sr\<rparr>) = can_send c"
  "knows_region (c\<lparr>rx_queue := q\<rparr>) b = knows_region c b" "knows_region (c\<lparr>rx_out_cq := cq\<rparr>) b = knows_region c b"
  "knows_region (c\<lparr>rx_sr := sr\<rparr>) b = knows_region c b" "knows_region (c\<lparr>rx_mem := m\<rparr>) b = knows_region c b"
  "knows_region b (c\<lparr>rx_queue := q\<rparr>) = knows_region b c" "knows_region b (c\<lparr>rx_out_cq := cq\<rparr>) = knows_region b c"
  "knows_region b (c\<lparr>rx_sr := sr\<rparr>) = knows_region b c" "knows_region b (c\<lparr>rx_mem := m\<rparr>) = knows_region b c"
  "path_payload (c\<lparr>rx_queue := q\<rparr>) = path_payload c" "path_payload (c\<lparr>rx_out_cq := cq\<rparr>) = path_payload c"
  "path_payload (c\<lparr>rx_sr := sr\<rparr>) = path_payload c"
  by (auto simp: fun_eq_iff covers_mem_def can_send_def knows_region_def path_payload_def split: option.split)

lemma context_mem:
  "length m = length (rx_mem c) \<Longrightarrow> covers_mem (c\<lparr>rx_mem := m\<rparr>) = covers_mem c"
  "length m = length (rx_mem c) \<Longrightarrow> can_send (c\<lparr>rx_mem := m\<rparr>) = can_send c"
  by (simp_all add: covers_mem_def can_send_def)

text \<open>A queued write that brings \<open>d\<close> to the offset \<open>ro\<close> of the peer.\<close>

definition carries :: "rdma_ctx \<Rightarrow> rdma_ctx \<Rightarrow> ibv_send_wr \<Rightarrow> bytes option \<Rightarrow> nat \<Rightarrow> bytes \<Rightarrow> bool" where
  "carries a b wr inl ro d \<longleftrightarrow>
     wr_opcode wr = IBV_WR_RDMA_WRITE \<and> wr_signaled wr \<and> path_payload a wr inl = Some d \<and>
     wr_rkey wr = mr_rkey (rx_mr b) \<and> wr_remote_addr wr = mr_addr (rx_mr b) + of_nat ro \<and> ro + length d \<le> length (rx_mem b)"

lemma carries_frame [simp]:
  "carries (a\<lparr>rx_queue := q\<rparr>) b = carries a b" "carries (a\<lparr>rx_out_cq := cq\<rparr>) b = carries a b" "carries (a\<lparr>rx_sr := sr\<rparr>) b = carries a b"
  "carries a (b\<lparr>rx_queue := q\<rparr>) = carries a b" "carries a (b\<lparr>rx_out_cq := cq\<rparr>) = carries a b" "carries a (b\<lparr>rx_sr := sr\<rparr>) = carries a b"
  by (simp_all add: fun_eq_iff carries_def)

lemma carries_mem: "length m = length (rx_mem b) \<Longrightarrow> carries a (b\<lparr>rx_mem := m\<rparr>) = carries a b"
  by (simp add: fun_eq_iff carries_def)

lemma path_post_write_queues:
  assumes v: "path_post_ok v" and a: "can_send a" "covers_mem b" "knows_region a b" and q: "rx_queue a = []"
    and fits: "lo + n \<le> length (rx_mem a)" "ro + n \<le> length (rx_mem b)"
  shows "\<exists>wr inl. path_post_write v None n lo ro a = Some (a\<lparr>rx_sr := wr, rx_queue := [(wr, inl, 0)]\<rparr>, Status_Ok, 0) \<and>
    carries a b wr inl ro (mread (rx_mem a) lo n)"
proof -
  let ?wr = "path_wr n IBV_WR_RDMA_WRITE lo ro a"
  have n: "lo < 2 ^ 32" "n < 2 ^ 32" using a(1) fits(1) by (auto simp: can_send_def covers_mem_def)
  obtain inl where inl: "path_queued (a\<lparr>rx_sr := ?wr\<rparr>) ?wr = (?wr, inl, 0)" by (simp add: path_queued_def)
  have "path_post_write v None n lo ro a = Some (a\<lparr>rx_sr := ?wr, rx_queue := [(?wr, inl, 0)]\<rparr>, Status_Ok, 0)"
    using v q inl by (simp add: path_post_write_def post_send_helper_def path_copy_in_def path_post_ok_def
        MAX_QP_DEPTH_def Let_def)
  moreover have "carries a b ?wr inl ro (mread (rx_mem a) lo n)"
    using a fits inl by (auto simp: carries_def path_wr_def Let_def path_queued_def path_payload_def knows_region_def can_send_def covers_mem_def
        in_mr_def unat_of_nat_u64 [OF n(1)] unat_of_nat_len [OF n(2)])
  ultimately show ?thesis by blast
qed

lemma path_post_write_msg:
  assumes v: "path_post_ok v" and a: "can_send a" "covers_mem b" "knows_region a b" and q: "rx_queue a = []"
    and fits: "lo + n \<le> length (rx_mem a)" "ro + n \<le> length (rx_mem b)" "n \<le> length d"
  shows "\<exists>wr inl. path_post_write v (Some d) n lo ro a =
      Some (a\<lparr>rx_mem := mwrite (rx_mem a) lo (take n d), rx_sr := wr, rx_queue := [(wr, inl, 0)]\<rparr>, Status_Ok, 0) \<and>
    carries (a\<lparr>rx_mem := mwrite (rx_mem a) lo (take n d)\<rparr>) b wr inl ro (take n d)"
proof -
  let ?a = "a\<lparr>rx_mem := mwrite (rx_mem a) lo (take n d)\<rparr>"
  have len: "length (rx_mem ?a) = length (rx_mem a)" using fits by simp
  then have "path_post_write v (Some d) n lo ro a = path_post_write v None n lo ro ?a"
    using fits by (simp add: path_post_write_def post_send_helper_def path_copy_in_def mread_def)
  moreover have "mread (rx_mem ?a) lo n = take n d" using fits mread_mwrite_same [of lo "take n d" "rx_mem a"] by simp
  ultimately show ?thesis
    using path_post_write_queues [OF v _ a(2), of ?a lo n ro] a len q fits by (simp add: context_mem)
qed

lemma packet_delivers:
  assumes v: "path_verbs_ok v" and b: "covers_mem b" and q: "rx_queue a = [(wr, inl, k)]" and c: "carries a b wr inl ro d" and k: "k < length d"
  shows "pv_packet v a b =
    (if k + path_mtu < length d then a\<lparr>rx_queue := [(wr, inl, k + path_mtu)]\<rparr>
     else a\<lparr>rx_queue := [], rx_out_cq := rx_out_cq a @ [True]\<rparr>,
     b\<lparr>rx_mem := mwrite (rx_mem b) (ro + k) (mread d k (min path_mtu (length d - k)))\<rparr>)"
proof -
  have ro: "unat (of_nat ro :: u64) = ro" using b c by (intro unat_of_nat_u64) (simp add: covers_mem_def carries_def)
  have "in_mr (rx_mr b) (wr_remote_addr wr) (length d)" using b c ro by (simp add: in_mr_def carries_def covers_mem_def)
  then have "pv_packet v a b = path_deliver a b wr inl k d"
    using v q c by (auto simp: path_verbs_ok_def path_packet_ok_def carries_def)
  then show ?thesis using q c k ro by (auto simp: path_deliver_def carries_def Let_def min_def)
qed

text \<open>The same for an adapter of which only the completion is known.\<close>

lemma packet_places:
  assumes v: "path_place_ok pl v" and b: "covers_mem b" and q: "rx_queue a = [(wr, inl, k)]" and c: "carries a b wr inl ro d"
  shows "\<exists>m. length m = length (rx_mem b) \<and> (\<forall>j<length m. j < ro \<or> ro + length d \<le> j \<or> pl k d (j - ro) \<longrightarrow> m ! j = rx_mem b ! j) \<and>
    ((\<exists>k'. pv_packet v a b = (a\<lparr>rx_queue := [(wr, inl, k')]\<rparr>, b\<lparr>rx_mem := m\<rparr>) \<and> (\<forall>i<length d. pl k' d i \<longrightarrow> pl k d i \<or> m ! (ro + i) = d ! i)) \<or>
     pv_packet v a b = (a\<lparr>rx_queue := [], rx_out_cq := rx_out_cq a @ [True]\<rparr>, b\<lparr>rx_mem := m\<rparr>) \<and> (\<forall>i<length d. pl k d i \<or> m ! (ro + i) = d ! i))"
proof -
  have "unat (of_nat ro :: u64) = ro" using b c by (intro unat_of_nat_u64) (simp add: covers_mem_def carries_def)
  then have ro: "unat (wr_remote_addr wr - mr_addr (rx_mr b)) = ro" using c by (simp add: carries_def)
  have "in_mr (rx_mr b) (wr_remote_addr wr) (length d)" using b c ro by (simp add: in_mr_def carries_def covers_mem_def)
  then have "path_places pl a b wr inl k d (pv_packet v a b)"
    using v q c ro by (auto simp: path_place_ok_def carries_def)
  then show ?thesis using q c unfolding path_places_def Let_def ro by (cases "pv_packet v a b") (auto simp: carries_def)
qed

lemma poll_one:
  "path_poll_ok v \<Longrightarrow> path_poll_one v True c =
    (if rx_out_cq c = [] then None else Some (c\<lparr>rx_out_cq := tl (rx_out_cq c)\<rparr>, 1))"
  by (cases "rx_out_cq c") (simp_all add: path_poll_ok_def path_poll_one_def)

end
