(* ===== verification/Remote_Path.thy ===== *)
theory Remote_Path
  imports Path_Rdma
begin

text \<open>
  The four ways of writing to a remote machine that \<^verbatim>\<open>logdirect/remotepath/path.h\<close> compares: into the
  memory of an NVMe device, into persistent memory, into memory and from there to a file, and into memory and
  from there to the device. In the first two the server does nothing; in the others client and server
  hand over a record by the flag in its first word.
\<close>

section \<open>The code\<close>

definition PATH_BUFSIZE :: nat where
  "PATH_BUFSIZE = 128 * 1024"

definition END_FLAG :: u64 where
  "END_FLAG = 0x5a5a5a5a5a5a5a5a"

definition SERVER_FLAG :: u64 where
  "SERVER_FLAG = 0x7f7f7f7f7f7f7f7f"

definition CLIENT_FLAG :: u64 where
  "CLIENT_FLAG = 0xf7f7f7f7f7f7f7f7"

datatype path_type = RDMA_PMR | RDMA_PMEM | RDMA_SSD | RDMA_PMR0

fun GetPath :: "path_type \<Rightarrow> string" where
  "GetPath RDMA_PMR = ''RDMA_PMR''"
| "GetPath RDMA_PMEM = ''RDMA_PMEM''"
| "GetPath RDMA_SSD = ''RDMA_SSD''"
| "GetPath RDMA_PMR0 = ''RDMA_PMR0''"

text \<open>The first word of the buffer, and writing it.\<close>

definition flag_word :: "rdma_ctx \<Rightarrow> u64" where
  "flag_word c = of_nat (le_val (mread (rx_mem c) 0 8))"

definition le64 :: "u64 \<Rightarrow> bytes" where
  "le64 w = le_bytes 8 (unat w)"

definition set_flag_word :: "u64 \<Rightarrow> rdma_ctx \<Rightarrow> rdma_ctx option" where
  "set_flag_word w c = do { m \<leftarrow> memcpy (rx_mem c) 0 (le64 w); Some (c\<lparr>rx_mem := m\<rparr>) }"

subsection \<open>Setting up\<close>

text \<open>
  The constructors; \<open>None\<close> is the end of the process. \<open>cmb\<close> is the descriptor of the device's memory
  when the programs are compiled for it, \<open>ptr\<close> and \<open>mem\<close> the memory the server allocates
  or maps otherwise. What connecting returns is ignored.
\<close>

definition open_server :: "path_device \<Rightarrow> path_type \<Rightarrow> int option \<Rightarrow> u64 \<Rightarrow> bytes \<Rightarrow> rdma_ctx option" where
  "open_server dev t cmb ptr mem =
     (case (case (t, cmb) of
              (RDMA_PMR, Some dmabuf_fd) \<Rightarrow>
                if dmabuf_fd \<le> 0 then Inl InvalidArguments else open_dmabuf dev dmabuf_fd PATH_BUFSIZE mem 20 [] zero_qp_init_attr
            | _ \<Rightarrow>
                if t = RDMA_PMEM \<and> (ptr = 0 \<or> ptr = - 1) then Inl InvalidArguments
                else open_membuf dev ptr PATH_BUFSIZE mem 20 [] zero_qp_init_attr) of
        Inl st \<Rightarrow> None
      | Inr c \<Rightarrow>
          (case (t, cmb) of
             (RDMA_PMR0, Some dmabuf_fd) \<Rightarrow> if dmabuf_fd \<le> 0 then None else Some (register_memory dev dmabuf_fd PATH_BUFSIZE c)
           | _ \<Rightarrow> Some c))"

definition Path_NewServer ::
    "(ibv_qp_attr \<Rightarrow> ibv_qp_attr_mask list \<Rightarrow> int) \<Rightarrow> path_device \<Rightarrow> path_type \<Rightarrow> int option \<Rightarrow> u64 \<Rightarrow> bytes \<Rightarrow> int \<Rightarrow> bytes option \<Rightarrow> rdma_ctx option" where
  "Path_NewServer ibv_modify_qp dev t cmb ptr mem written received =
     map_option (\<lambda>c. fst (connect_path ibv_modify_qp dev written received c)) (open_server dev t cmb ptr mem)"

definition Path_NewClient :: "path_device \<Rightarrow> path_type \<Rightarrow> u64 \<Rightarrow> bytes \<Rightarrow> rdma_ctx option" where
  "Path_NewClient dev t ptr mem =
     (case open_membuf dev ptr PATH_BUFSIZE mem 20 [] zero_qp_init_attr of Inl st \<Rightarrow> None | Inr c \<Rightarrow> Some c)"

definition Client_Connect ::
    "(ibv_qp_attr \<Rightarrow> ibv_qp_attr_mask list \<Rightarrow> int) \<Rightarrow> path_device \<Rightarrow> int \<Rightarrow> bytes option \<Rightarrow> rdma_ctx \<Rightarrow> rdma_ctx \<times> bool" where
  "Client_Connect ibv_modify_qp dev written received c =
     (fst (connect_path ibv_modify_qp dev written received c), True)"

subsection \<open>Client and server\<close>

text \<open>The writes a client posts, up to the polling; \<open>g\<close> is \<^verbatim>\<open>gLength\<close>.\<close>

definition Client12_Write :: "path_verbs \<Rightarrow> nat \<Rightarrow> bytes \<Rightarrow> rdma_ctx \<Rightarrow> rdma_ctx option" where
  "Client12_Write v g buffer c = map_option fst (path_post_write v (Some buffer) g 8 8 c)"

definition Client12_Close :: "path_verbs \<Rightarrow> rdma_ctx \<Rightarrow> rdma_ctx option" where
  "Client12_Close v c = map_option fst (path_post_write v (Some (le64 END_FLAG)) 8 0 0 c)"

definition Client34_Write :: "path_verbs \<Rightarrow> nat \<Rightarrow> bytes \<Rightarrow> rdma_ctx \<Rightarrow> rdma_ctx option" where
  "Client34_Write v g buffer c =
     do { d \<leftarrow> load buffer 0 g;
          m \<leftarrow> memcpy (rx_mem c) 0 d;
          c \<leftarrow> set_flag_word CLIENT_FLAG (c\<lparr>rx_mem := m\<rparr>);
          map_option fst (path_post_write v None g 0 0 c) }"

definition Client34_Close :: "path_verbs \<Rightarrow> nat \<Rightarrow> rdma_ctx \<Rightarrow> rdma_ctx option" where
  "Client34_Close v g c =
     do { c \<leftarrow> set_flag_word END_FLAG c;
          map_option fst (path_post_write v None g 0 0 c) }"

definition direct :: "path_type \<Rightarrow> bool" where
  "direct t \<longleftrightarrow> t = RDMA_PMR \<or> t = RDMA_PMEM"

definition Client_Write :: "path_verbs \<Rightarrow> path_type \<Rightarrow> nat \<Rightarrow> bytes \<Rightarrow> rdma_ctx \<Rightarrow> rdma_ctx option" where
  "Client_Write v t g buffer c = (if direct t then Client12_Write v g buffer c else Client34_Write v g buffer c)"

definition Client_Close :: "path_verbs \<Rightarrow> path_type \<Rightarrow> nat \<Rightarrow> rdma_ctx \<Rightarrow> rdma_ctx option" where
  "Client_Close v t g c = (if direct t then Client12_Close v c else Client34_Close v g c)"

text \<open>
  Where client and server stand, and what the server has stored: the file up to the position of its descriptor,
  and the mapped memory of the device. \<open>ps_writes\<close> lists the calls of \<^verbatim>\<open>Write\<close>.
\<close>

datatype path_client_pc = C_Idle | C_Polling bool | C_Waiting | C_Closed

datatype path_server_pc = S_Start | S_Watch | S_Reply | S_Ack | S_Stopped | S_Aborted

record path_sys =
  ps_client :: rdma_ctx
  ps_server :: rdma_ctx
  ps_cpc :: path_client_pc
  ps_spc :: path_server_pc
  ps_file :: bytes
  ps_dmabuf :: bytes
  ps_writes :: "bytes list"

definition client_turn :: "path_verbs \<Rightarrow> path_type \<Rightarrow> path_sys \<Rightarrow> path_sys option" where
  "client_turn v t s =
     (case ps_cpc s of
        C_Polling closing \<Rightarrow>
          (case path_poll_one v True (ps_client s) of
             None \<Rightarrow> Some s
           | Some (c, _) \<Rightarrow>
               Some (s\<lparr>ps_client := c, ps_cpc := (if closing then C_Closed else if direct t then C_Idle else C_Waiting)\<rparr>))
      | C_Waiting \<Rightarrow> Some (if flag_word (ps_client s) = SERVER_FLAG then s\<lparr>ps_cpc := C_Idle\<rparr> else s)
      | _ \<Rightarrow> None)"

text \<open>
  What the server does with a record. \<open>ssd\<close> is \<^verbatim>\<open>write\<close>, with the bytes before the position of the descriptor; the
  assertion on its result is checked in this build.
\<close>

definition persist :: "(bytes \<Rightarrow> bytes \<Rightarrow> bytes \<times> int) \<Rightarrow> path_type \<Rightarrow> nat \<Rightarrow> path_sys \<Rightarrow> path_sys option" where
  "persist ssd t g s =
     do { d \<leftarrow> load (rx_mem (ps_server s)) 0 g;
          if t = RDMA_SSD
          then (case ssd (ps_file s) d of
                  (file, ret) \<Rightarrow> Some (s\<lparr>ps_file := file, ps_spc := (if ret = int g then S_Reply else S_Aborted)\<rparr>))
          else do { m \<leftarrow> memcpy (ps_dmabuf s) 0 d; Some (s\<lparr>ps_dmabuf := m, ps_spc := S_Reply\<rparr>) } }"

definition server_turn :: "path_verbs \<Rightarrow> (bytes \<Rightarrow> bytes \<Rightarrow> bytes \<times> int) \<Rightarrow> path_type \<Rightarrow> nat \<Rightarrow> path_sys \<Rightarrow> path_sys option" where
  "server_turn v ssd t g s =
     (case ps_spc s of
        S_Start \<Rightarrow>
          if direct t then do { c \<leftarrow> set_flag_word 0 (ps_server s); Some (s\<lparr>ps_server := c, ps_spc := S_Watch\<rparr>) }
          else Some (s\<lparr>ps_spc := S_Watch\<rparr>)
      | S_Watch \<Rightarrow>
          if flag_word (ps_server s) = END_FLAG then Some (s\<lparr>ps_spc := S_Stopped\<rparr>)
          else if \<not> direct t \<and> flag_word (ps_server s) = CLIENT_FLAG then persist ssd t g s
          else Some s
      | S_Reply \<Rightarrow>
          do { c \<leftarrow> set_flag_word SERVER_FLAG (ps_server s);
               (c, _) \<leftarrow> path_post_write v None 8 0 0 c;
               Some (s\<lparr>ps_server := c, ps_spc := S_Ack\<rparr>) }
      | S_Ack \<Rightarrow>
          (case path_poll_one v True (ps_server s) of
             None \<Rightarrow> Some s
           | Some (c, _) \<Rightarrow> Some (s\<lparr>ps_server := c, ps_spc := S_Watch\<rparr>))
      | _ \<Rightarrow> None)"

text \<open>
  The steps of client, server and the two adapters in any order; a step that is not
  possible is \<open>None\<close>.
\<close>

datatype path_event = Call_Write bytes | Call_Close | Client_Turn | Server_Turn | To_Server | To_Client

fun path_event_step ::
    "path_verbs \<Rightarrow> (bytes \<Rightarrow> bytes \<Rightarrow> bytes \<times> int) \<Rightarrow> path_type \<Rightarrow> nat \<Rightarrow> path_event \<Rightarrow> path_sys \<Rightarrow> path_sys option" where
  "path_event_step v ssd t g (Call_Write buffer) s =
     (if ps_cpc s \<noteq> C_Idle then None
      else map_option (\<lambda>c. s\<lparr>ps_client := c, ps_cpc := C_Polling False, ps_writes := ps_writes s @ [buffer]\<rparr>)
             (Client_Write v t g buffer (ps_client s)))"
| "path_event_step v ssd t g Call_Close s =
     (if ps_cpc s \<noteq> C_Idle then None
      else map_option (\<lambda>c. s\<lparr>ps_client := c, ps_cpc := C_Polling True\<rparr>) (Client_Close v t g (ps_client s)))"
| "path_event_step v ssd t g Client_Turn s = client_turn v t s"
| "path_event_step v ssd t g Server_Turn s = server_turn v ssd t g s"
| "path_event_step v ssd t g To_Server s =
     (if rx_queue (ps_client s) = [] then None
      else case pv_packet v (ps_client s) (ps_server s) of (c, d) \<Rightarrow> Some (s\<lparr>ps_client := c, ps_server := d\<rparr>))"
| "path_event_step v ssd t g To_Client s =
     (if rx_queue (ps_server s) = [] then None
      else case pv_packet v (ps_server s) (ps_client s) of (d, c) \<Rightarrow> Some (s\<lparr>ps_client := c, ps_server := d\<rparr>))"

fun path_run ::
    "path_verbs \<Rightarrow> (bytes \<Rightarrow> bytes \<Rightarrow> bytes \<times> int) \<Rightarrow> path_type \<Rightarrow> nat \<Rightarrow> path_event list \<Rightarrow> path_sys \<Rightarrow> path_sys option" where
  "path_run v ssd t g [] s = Some s"
| "path_run v ssd t g (e # es) s = do { s \<leftarrow> path_event_step v ssd t g e s; path_run v ssd t g es s }"

section \<open>Flags and memory\<close>

lemma length_le64 [simp]: "length (le64 w) = 8"
  by (simp add: le64_def)

lemma of_nat_le64: "of_nat (le_val (le64 w)) = w"
proof -
  have "unat w < 256 ^ 8" using unsigned_less [of w] by simp
  then show ?thesis by (simp add: le64_def le_val_le_bytes)
qed

lemma flag_word_of: "mread (rx_mem c) 0 8 = le64 w \<Longrightarrow> flag_word c = w"
  by (simp add: flag_word_def of_nat_le64)

lemma flag_word_frame [simp]:
  "flag_word (c\<lparr>rx_queue := q\<rparr>) = flag_word c" "flag_word (c\<lparr>rx_out_cq := cq\<rparr>) = flag_word c" "flag_word (c\<lparr>rx_sr := sr\<rparr>) = flag_word c"
  by (simp_all add: flag_word_def)

lemma flag_word_written: "8 \<le> length (rx_mem c) \<Longrightarrow> flag_word (c\<lparr>rx_mem := mwrite (rx_mem c) 0 (le64 w)\<rparr>) = w"
  by (rule flag_word_of) (simp add: mread_mwrite_same)

lemma set_flag_word_Some: "8 \<le> length (rx_mem c) \<Longrightarrow> set_flag_word w c = Some (c\<lparr>rx_mem := mwrite (rx_mem c) 0 (le64 w)\<rparr>)"
  by (simp add: set_flag_word_def)

lemma flags_differ [simp]:
  "CLIENT_FLAG \<noteq> SERVER_FLAG" "CLIENT_FLAG \<noteq> END_FLAG" "SERVER_FLAG \<noteq> END_FLAG"
  "SERVER_FLAG \<noteq> CLIENT_FLAG" "END_FLAG \<noteq> CLIENT_FLAG" "END_FLAG \<noteq> SERVER_FLAG"
  by (simp_all add: CLIENT_FLAG_def SERVER_FLAG_def END_FLAG_def)

section \<open>Connected ends\<close>

definition path_base :: "path_type \<Rightarrow> path_sys \<Rightarrow> bool" where
  "path_base t s \<longleftrightarrow>
     can_send (ps_client s) \<and> covers_mem (ps_server s) \<and> (direct t \<or> can_send (ps_server s)) \<and>
     knows_region (ps_client s) (ps_server s) \<and> knows_region (ps_server s) (ps_client s) \<and>
     length (rx_mem (ps_client s)) = PATH_BUFSIZE \<and> length (rx_mem (ps_server s)) = PATH_BUFSIZE \<and> length (ps_dmabuf s) = PATH_BUFSIZE"

definition path_start :: "path_type \<Rightarrow> path_sys \<Rightarrow> bool" where
  "path_start t s \<longleftrightarrow> path_base t s \<and>
     rx_queue (ps_client s) = [] \<and> rx_out_cq (ps_client s) = [] \<and> rx_queue (ps_server s) = [] \<and> rx_out_cq (ps_server s) = [] \<and>
     ps_cpc s = C_Idle \<and> ps_spc s = S_Start \<and> ps_file s = [] \<and> ps_writes s = [] \<and>
     (direct t \<or> flag_word (ps_server s) \<notin> {CLIENT_FLAG, END_FLAG})"

lemma path_run_invariant:
  assumes "path_run v ssd t g es s = Some s'" "I s"
    "\<And>e s s'. I s \<Longrightarrow> path_event_step v ssd t g e s = Some s' \<Longrightarrow> I s'"
  shows "I s'"
  using assms(1,2) by (induction es arbitrary: s) (auto split: bind_splits intro: assms(3))

section \<open>Writing directly\<close>

text \<open>
  Between the post of a write and its completion some of the bytes of the record have
  arrived; afterwards all have, and nobody else writes there.
\<close>

definition arrived :: "nat \<Rightarrow> path_sys \<Rightarrow> bool" where
  "arrived g s \<longleftrightarrow> (ps_writes s \<noteq> [] \<longrightarrow> g \<le> length (last (ps_writes s)) \<and> mread (rx_mem (ps_server s)) 8 g = take g (last (ps_writes s)))"

definition on_the_way :: "(nat \<Rightarrow> bytes \<Rightarrow> nat \<Rightarrow> bool) \<Rightarrow> nat \<Rightarrow> path_sys \<Rightarrow> bool" where
  "on_the_way pl g s \<longleftrightarrow> (\<exists>wr inl k. rx_queue (ps_client s) = [(wr, inl, k)] \<and> rx_out_cq (ps_client s) = [] \<and>
     ps_writes s \<noteq> [] \<and> g \<le> length (last (ps_writes s)) \<and>
     carries (ps_client s) (ps_server s) wr inl 8 (take g (last (ps_writes s))) \<and>
     (\<forall>i<g. pl k (take g (last (ps_writes s))) i \<longrightarrow> rx_mem (ps_server s) ! (8 + i) = last (ps_writes s) ! i))"

definition closing :: "path_sys \<Rightarrow> bool" where
  "closing s \<longleftrightarrow> (\<exists>wr inl k. rx_queue (ps_client s) = [(wr, inl, k)] \<and> rx_out_cq (ps_client s) = [] \<and>
     carries (ps_client s) (ps_server s) wr inl 0 (le64 END_FLAG))"

fun direct_client :: "(nat \<Rightarrow> bytes \<Rightarrow> nat \<Rightarrow> bool) \<Rightarrow> nat \<Rightarrow> path_client_pc \<Rightarrow> path_sys \<Rightarrow> bool" where
  "direct_client pl g C_Idle s \<longleftrightarrow> rx_queue (ps_client s) = [] \<and> rx_out_cq (ps_client s) = [] \<and> arrived g s"
| "direct_client pl g (C_Polling False) s \<longleftrightarrow>
     on_the_way pl g s \<or> rx_queue (ps_client s) = [] \<and> rx_out_cq (ps_client s) = [True] \<and> arrived g s"
| "direct_client pl g (C_Polling True) s \<longleftrightarrow> closing s \<or> rx_queue (ps_client s) = [] \<and> rx_out_cq (ps_client s) = [True]"
| "direct_client pl g C_Waiting s \<longleftrightarrow> False"
| "direct_client pl g C_Closed s \<longleftrightarrow> rx_queue (ps_client s) = []"

definition direct_inv :: "(nat \<Rightarrow> bytes \<Rightarrow> nat \<Rightarrow> bool) \<Rightarrow> path_type \<Rightarrow> nat \<Rightarrow> path_sys \<Rightarrow> bool" where
  "direct_inv pl t g s \<longleftrightarrow> path_base t s \<and> rx_queue (ps_server s) = [] \<and> ps_spc s \<in> {S_Start, S_Watch, S_Stopped} \<and>
     direct_client pl g (ps_cpc s) s"

lemma PATH_BUFSIZE_simps [simp]: "PATH_BUFSIZE = 131072"
  by (simp add: PATH_BUFSIZE_def)

lemma base_simps:
  "path_base t (s\<lparr>ps_cpc := c\<rparr>) = path_base t s" "path_base t (s\<lparr>ps_spc := p\<rparr>) = path_base t s"
  "path_base t (s\<lparr>ps_writes := w\<rparr>) = path_base t s" "path_base t (s\<lparr>ps_file := f\<rparr>) = path_base t s"
  by (simp_all add: path_base_def)

lemma direct_call_write:
  assumes v: "path_reliable pl v" and t: "direct t" and g: "0 < g" "g + 8 \<le> PATH_BUFSIZE" and I: "direct_inv pl t g s"
    and st: "path_event_step v ssd t g (Call_Write buf) s = Some s'"
  shows "direct_inv pl t g s'"
proof -
  let ?c = "ps_client s"
  from st have idle: "ps_cpc s = C_Idle" by (auto split: if_splits)
  with I have q: "rx_queue ?c = []" "rx_out_cq ?c = []" by (simp_all add: direct_inv_def)
  have b: "path_base t s" using I by (simp add: direct_inv_def)
  have buf: "g \<le> length buf" using st t idle
    by (auto simp: Client_Write_def Client12_Write_def path_post_write_def post_send_helper_def path_copy_in_def load_def
        split: if_splits bind_splits)
  obtain wr inl where w: "path_post_write v (Some buf) g 8 8 ?c =
      Some (?c\<lparr>rx_mem := mwrite (rx_mem ?c) 8 (take g buf), rx_sr := wr, rx_queue := [(wr, inl, 0)]\<rparr>, Status_Ok, 0)"
      "carries (?c\<lparr>rx_mem := mwrite (rx_mem ?c) 8 (take g buf)\<rparr>) (ps_server s) wr inl 8 (take g buf)"
    using path_post_write_msg [OF path_reliableD(1) [OF v], of ?c "ps_server s" 8 g 8 buf] b q g buf by (auto simp: path_base_def)
  then have "s' = s\<lparr>ps_client := ?c\<lparr>rx_mem := mwrite (rx_mem ?c) 8 (take g buf), rx_sr := wr, rx_queue := [(wr, inl, 0)]\<rparr>,
      ps_cpc := C_Polling False, ps_writes := ps_writes s @ [buf]\<rparr>"
    using st t idle by (simp add: Client_Write_def Client12_Write_def)
  moreover have "\<not> pl 0 d i" for d i using path_reliableD(3) [OF v] by (simp add: path_place_ok_def)
  ultimately show ?thesis using I b w(2) q g buf by (simp add: direct_inv_def path_base_def on_the_way_def context_mem)
qed

lemma direct_call_close:
  assumes v: "path_reliable pl v" and t: "direct t" and I: "direct_inv pl t g s"
    and st: "path_event_step v ssd t g Call_Close s = Some s'"
  shows "direct_inv pl t g s'"
proof -
  let ?c = "ps_client s"
  from st have idle: "ps_cpc s = C_Idle" by (auto split: if_splits)
  with I have q: "rx_queue ?c = []" "rx_out_cq ?c = []" by (simp_all add: direct_inv_def)
  have b: "path_base t s" using I by (simp add: direct_inv_def)
  obtain wr inl where w: "path_post_write v (Some (le64 END_FLAG)) 8 0 0 ?c =
      Some (?c\<lparr>rx_mem := mwrite (rx_mem ?c) 0 (le64 END_FLAG), rx_sr := wr, rx_queue := [(wr, inl, 0)]\<rparr>, Status_Ok, 0)"
      "carries (?c\<lparr>rx_mem := mwrite (rx_mem ?c) 0 (le64 END_FLAG)\<rparr>) (ps_server s) wr inl 0 (le64 END_FLAG)"
    using path_post_write_msg [OF path_reliableD(1) [OF v], of ?c "ps_server s" 0 8 0 "le64 END_FLAG"] b q by (auto simp: path_base_def)
  then have "s' = s\<lparr>ps_client := ?c\<lparr>rx_mem := mwrite (rx_mem ?c) 0 (le64 END_FLAG), rx_sr := wr, rx_queue := [(wr, inl, 0)]\<rparr>,
      ps_cpc := C_Polling True\<rparr>"
    using st t idle by (simp add: Client_Close_def Client12_Close_def)
  then show ?thesis using I b w(2) q by (simp add: direct_inv_def path_base_def closing_def context_mem)
qed

lemma direct_client_turn:
  assumes v: "path_reliable pl v" and t: "direct t" and I: "direct_inv pl t g s"
    and st: "path_event_step v ssd t g Client_Turn s = Some s'"
  shows "direct_inv pl t g s'"
proof (cases "ps_cpc s")
  case (C_Polling cl)
  show ?thesis
  proof (cases "rx_out_cq (ps_client s) = []")
    case True
    then show ?thesis using I st C_Polling by (simp add: client_turn_def poll_one [OF path_reliableD(2) [OF v]])
  next
    case False
    then have "s' = s\<lparr>ps_client := (ps_client s)\<lparr>rx_out_cq := tl (rx_out_cq (ps_client s))\<rparr>, ps_cpc := (if cl then C_Closed else C_Idle)\<rparr>"
      using st t C_Polling by (auto simp: client_turn_def poll_one [OF path_reliableD(2) [OF v]])
    then show ?thesis using I C_Polling False
      by (cases cl) (auto simp: direct_inv_def path_base_def on_the_way_def closing_def arrived_def)
  qed
qed (use I st in \<open>simp_all add: direct_inv_def client_turn_def\<close>)

lemma direct_client_spc: "direct_client pl g pc (s\<lparr>ps_spc := p\<rparr>) = direct_client pl g pc s"
  by (cases "(pl, g, pc, s)" rule: direct_client.cases; simp add: on_the_way_def closing_def arrived_def)

lemma direct_client_low:
  assumes "length m = length (rx_mem (ps_server s))" "drop 8 m = drop 8 (rx_mem (ps_server s))" "g + 8 \<le> length m"
  shows "direct_client pl g pc (s\<lparr>ps_server := (ps_server s)\<lparr>rx_mem := m\<rparr>\<rparr>) = direct_client pl g pc s"
proof -
  have "m ! (8 + i) = rx_mem (ps_server s) ! (8 + i)" if "i < g" for i
    using arg_cong [OF assms(2), of "\<lambda>l. l ! i"] assms(1,3) that by simp
  then show ?thesis using assms(1,2)
    by (cases "(pl, g, pc, s)" rule: direct_client.cases) (simp_all add: on_the_way_def closing_def arrived_def carries_mem mread_def)
qed

lemma direct_inv_spc: "direct_inv pl t g s \<Longrightarrow> p \<in> {S_Watch, S_Stopped} \<Longrightarrow> direct_inv pl t g (s\<lparr>ps_spc := p\<rparr>)"
  by (auto simp: direct_inv_def base_simps direct_client_spc)

lemma direct_inv_low:
  assumes "direct_inv pl t g s" "g + 8 \<le> PATH_BUFSIZE" "length m = length (rx_mem (ps_server s))" "drop 8 m = drop 8 (rx_mem (ps_server s))"
  shows "direct_inv pl t g (s\<lparr>ps_server := (ps_server s)\<lparr>rx_mem := m\<rparr>\<rparr>)"
  using assms by (simp add: direct_inv_def path_base_def direct_client_low context_mem)

lemma direct_server_turn:
  assumes t: "direct t" and g: "g + 8 \<le> PATH_BUFSIZE" and I: "direct_inv pl t g s" and st: "path_event_step v ssd t g Server_Turn s = Some s'"
  shows "direct_inv pl t g s'"
proof (cases "ps_spc s = S_Start")
  case True
  define m where "m = mwrite (rx_mem (ps_server s)) 0 (le64 0)"
  have len: "length (rx_mem (ps_server s)) = PATH_BUFSIZE" using I by (simp add: direct_inv_def path_base_def)
  then have "s' = s\<lparr>ps_server := (ps_server s)\<lparr>rx_mem := m\<rparr>, ps_spc := S_Watch\<rparr>"
    using st t True by (simp add: server_turn_def set_flag_word_Some m_def)
  moreover have "direct_inv pl t g (s\<lparr>ps_server := (ps_server s)\<lparr>rx_mem := m\<rparr>\<rparr>)"
    using I g len by (intro direct_inv_low) (simp_all add: m_def mwrite_def)
  ultimately show ?thesis using direct_inv_spc [of pl t g "s\<lparr>ps_server := (ps_server s)\<lparr>rx_mem := m\<rparr>\<rparr>" S_Watch] by simp
next
  case False
  then have "s' = s \<or> s' = s\<lparr>ps_spc := S_Stopped\<rparr>"
    using st t I by (auto simp: server_turn_def direct_inv_def split: if_splits)
  then show ?thesis using I direct_inv_spc [OF I, of S_Stopped] by auto
qed

lemma nth_mread: "off + n \<le> length m \<Longrightarrow> (\<And>i. i < n \<Longrightarrow> (m :: bytes) ! (off + i) = d ! i) \<Longrightarrow> n \<le> length d \<Longrightarrow> mread m off n = take n d"
  by (intro nth_equalityI) (simp_all add: mread_def)

lemma direct_to_server:
  assumes v: "path_reliable pl v" and t: "direct t" and g: "g + 8 \<le> PATH_BUFSIZE" and I: "direct_inv pl t g s"
    and st: "path_event_step v ssd t g To_Server s = Some s'"
  shows "direct_inv pl t g s'"
proof -
  let ?c = "ps_client s" and ?d = "ps_server s"
  have b: "path_base t s" and q: "rx_queue ?c \<noteq> []" using I st by (auto simp: direct_inv_def split: if_splits)
  have cv: "covers_mem ?d" and len: "length (rx_mem ?d) = PATH_BUFSIZE" using b by (simp_all add: path_base_def)
  note places = packet_places [OF path_reliableD(3) [OF v] cv]
  consider (rec) "ps_cpc s = C_Polling False" "on_the_way pl g s" | (flag) "ps_cpc s = C_Polling True" "closing s"
    using I q by (cases "(pl, g, ps_cpc s, s)" rule: direct_client.cases) (auto simp: direct_inv_def)
  then show ?thesis
  proof cases
    case rec
    let ?w = "last (ps_writes s)"
    from rec(2) obtain wr inl k where k: "rx_queue ?c = [(wr, inl, k)]" "rx_out_cq ?c = []" "ps_writes s \<noteq> []" "g \<le> length ?w"
        "carries ?c ?d wr inl 8 (take g ?w)" "\<forall>i<g. pl k (take g ?w) i \<longrightarrow> rx_mem ?d ! (8 + i) = ?w ! i"
      by (auto simp: on_the_way_def)
    have lw: "length (take g ?w) = g" using k(4) by simp
    from places [OF k(1,5), unfolded lw k(2) append_Nil] obtain m where m: "length m = length (rx_mem ?d)"
        "\<forall>j<length m. j < 8 \<or> 8 + g \<le> j \<or> pl k (take g ?w) (j - 8) \<longrightarrow> m ! j = rx_mem ?d ! j"
        "(\<exists>k'. pv_packet v ?c ?d = (?c\<lparr>rx_queue := [(wr, inl, k')]\<rparr>, ?d\<lparr>rx_mem := m\<rparr>) \<and> (\<forall>i<g. pl k' (take g ?w) i \<longrightarrow> pl k (take g ?w) i \<or> m ! (8 + i) = take g ?w ! i)) \<or>
         pv_packet v ?c ?d = (?c\<lparr>rx_queue := [], rx_out_cq := [True]\<rparr>, ?d\<lparr>rx_mem := m\<rparr>) \<and> (\<forall>i<g. pl k (take g ?w) i \<or> m ! (8 + i) = take g ?w ! i)"
      by blast
    have old: "m ! (8 + i) = ?w ! i" if "i < g" "pl k (take g ?w) i" for i using m(1,2) k(6) that g len by simp
    from m(3) show ?thesis
    proof
      assume "\<exists>k'. pv_packet v ?c ?d = (?c\<lparr>rx_queue := [(wr, inl, k')]\<rparr>, ?d\<lparr>rx_mem := m\<rparr>) \<and>
        (\<forall>i<g. pl k' (take g ?w) i \<longrightarrow> pl k (take g ?w) i \<or> m ! (8 + i) = take g ?w ! i)"
      then obtain k' where p: "pv_packet v ?c ?d = (?c\<lparr>rx_queue := [(wr, inl, k')]\<rparr>, ?d\<lparr>rx_mem := m\<rparr>)"
        "\<forall>i<g. pl k' (take g ?w) i \<longrightarrow> m ! (8 + i) = ?w ! i" using old by auto
      let ?s = "s\<lparr>ps_client := ?c\<lparr>rx_queue := [(wr, inl, k')]\<rparr>, ps_server := ?d\<lparr>rx_mem := m\<rparr>\<rparr>"
      have "on_the_way pl g ?s" using k p(2) m(1) by (simp add: on_the_way_def carries_mem)
      moreover have "path_base t ?s" using b m(1) by (simp add: path_base_def context_mem)
      moreover have "s' = ?s" using st p(1) k(1) by simp
      ultimately show ?thesis using I rec(1) by (simp add: direct_inv_def)
    next
      assume p: "pv_packet v ?c ?d = (?c\<lparr>rx_queue := [], rx_out_cq := [True]\<rparr>, ?d\<lparr>rx_mem := m\<rparr>) \<and> (\<forall>i<g. pl k (take g ?w) i \<or> m ! (8 + i) = take g ?w ! i)"
      let ?s = "s\<lparr>ps_client := ?c\<lparr>rx_queue := [], rx_out_cq := [True]\<rparr>, ps_server := ?d\<lparr>rx_mem := m\<rparr>\<rparr>"
      have "mread m 8 g = take g ?w" using p old g len m(1) k(4) by (intro nth_mread) auto
      then have "arrived g ?s" using k(3,4) by (simp add: arrived_def)
      moreover have "path_base t ?s" using b m(1) by (simp add: path_base_def context_mem)
      moreover have "s' = ?s" using st p k(1) by simp
      ultimately show ?thesis using I rec(1) by (simp add: direct_inv_def)
    qed
  next
    case flag
    then obtain wr inl k where k: "rx_queue ?c = [(wr, inl, k)]" "rx_out_cq ?c = []" "carries ?c ?d wr inl 0 (le64 END_FLAG)"
      by (auto simp: closing_def)
    from places [OF k(1,3)] obtain m where m: "length m = length (rx_mem ?d)"
        "(\<exists>k'. pv_packet v ?c ?d = (?c\<lparr>rx_queue := [(wr, inl, k')]\<rparr>, ?d\<lparr>rx_mem := m\<rparr>)) \<or>
         pv_packet v ?c ?d = (?c\<lparr>rx_queue := [], rx_out_cq := [True]\<rparr>, ?d\<lparr>rx_mem := m\<rparr>)"
      unfolding k(2) append_Nil by blast
    then show ?thesis using I flag(1) b st k by (auto simp: direct_inv_def path_base_def context_mem closing_def carries_mem)
  qed
qed

lemma direct_step:
  assumes "path_reliable pl v" "direct t" "0 < g" "g + 8 \<le> PATH_BUFSIZE" "direct_inv pl t g s" "path_event_step v ssd t g e s = Some s'"
  shows "direct_inv pl t g s'"
proof (cases e)
  case (Call_Write buf)
  show ?thesis by (rule direct_call_write [OF assms(1-5) assms(6) [unfolded Call_Write]])
next
  case Call_Close
  show ?thesis by (rule direct_call_close [OF assms(1,2,5) assms(6) [unfolded Call_Close]])
next
  case Client_Turn
  show ?thesis by (rule direct_client_turn [OF assms(1,2,5) assms(6) [unfolded Client_Turn]])
next
  case Server_Turn
  show ?thesis by (rule direct_server_turn [OF assms(2,4,5) assms(6) [unfolded Server_Turn]])
next
  case To_Server
  show ?thesis by (rule direct_to_server [OF assms(1,2,4,5) assms(6) [unfolded To_Server]])
next
  case To_Client
  then show ?thesis using assms(5,6) by (simp add: direct_inv_def)
qed

end
