(* ===== verification/Remote_Log.thy ===== *)
theory Remote_Log
  imports Remote_Path
begin

text \<open>
  What a remote path guarantees when \<^verbatim>\<open>Write\<close> has returned. On the direct paths the record is in the memory of the server. On the two
  paths on which the server stores the record, client and server hand it over by a flag in its first word; that is right only for records that
  reach the memory in one piece, here those of one packet on an adapter that stores packets in one piece, and a longer record can be stored torn.
\<close>

section \<open>Handing over a record\<close>

text \<open>What is stored of a record: the flag has taken the place of its first word.\<close>

definition stored_record :: "nat \<Rightarrow> bytes \<Rightarrow> bytes" where
  "stored_record g buffer = le64 CLIENT_FLAG @ mread buffer 8 (g - 8)"

definition holds_log :: "path_type \<Rightarrow> nat \<Rightarrow> bytes list \<Rightarrow> path_sys \<Rightarrow> bool" where
  "holds_log t g ws s \<longleftrightarrow> (\<forall>w\<in>set ws. g \<le> length w) \<and>
     (t = RDMA_SSD \<longrightarrow> ps_file s = concat (map (stored_record g) ws)) \<and>
     (t = RDMA_PMR0 \<longrightarrow> ws \<noteq> [] \<longrightarrow> mread (ps_dmabuf s) 0 g = stored_record g (last ws))"

text \<open>The file takes every write in full.\<close>

definition ssd_full :: "(bytes \<Rightarrow> bytes \<Rightarrow> bytes \<times> int) \<Rightarrow> bool" where
  "ssd_full ssd \<longleftrightarrow> (\<forall>f d. ssd f d = (f @ d, int (length d)))"

definition server_quiet :: "path_sys \<Rightarrow> bool" where
  "server_quiet s \<longleftrightarrow> rx_queue (ps_server s) = [] \<and>
     (ps_spc s \<in> {S_Start, S_Watch} \<and> rx_out_cq (ps_server s) = [] \<or> ps_spc s = S_Ack \<and> rx_out_cq (ps_server s) = [True])"

definition client_busy :: "path_sys \<Rightarrow> bool" where
  "client_busy s \<longleftrightarrow> rx_queue (ps_client s) = [] \<and>
     (ps_cpc s = C_Polling False \<and> rx_out_cq (ps_client s) = [True] \<or> ps_cpc s = C_Waiting \<and> rx_out_cq (ps_client s) = [])"

text \<open>A write to the start of the peer's buffer that has been posted and not delivered.\<close>

definition in_flight :: "rdma_ctx \<Rightarrow> rdma_ctx \<Rightarrow> bytes \<Rightarrow> bool" where
  "in_flight a b d \<longleftrightarrow> rx_out_cq a = [] \<and> (\<exists>wr inl. rx_queue a = [(wr, inl, 0)] \<and> carries a b wr inl 0 d)"

definition no_flag :: "path_sys \<Rightarrow> bool" where
  "no_flag s \<longleftrightarrow> flag_word (ps_server s) \<notin> {CLIENT_FLAG, END_FLAG}"

datatype hand_phase = H_Idle | H_Posted | H_Arrived | H_Stored | H_Acking | H_Acked | H_Closing | H_Ended

fun hand_over :: "path_type \<Rightarrow> nat \<Rightarrow> hand_phase \<Rightarrow> path_sys \<Rightarrow> bool" where
  "hand_over t g H_Idle s \<longleftrightarrow> ps_cpc s = C_Idle \<and> rx_queue (ps_client s) = [] \<and> rx_out_cq (ps_client s) = [] \<and>
     server_quiet s \<and> no_flag s \<and> holds_log t g (ps_writes s) s"
| "hand_over t g H_Posted s \<longleftrightarrow> ps_cpc s = C_Polling False \<and> server_quiet s \<and> no_flag s \<and> flag_word (ps_client s) = CLIENT_FLAG \<and>
     (\<exists>ws w. ps_writes s = ws @ [w] \<and> g \<le> length w \<and> holds_log t g ws s \<and> in_flight (ps_client s) (ps_server s) (stored_record g w))"
| "hand_over t g H_Arrived s \<longleftrightarrow> client_busy s \<and> server_quiet s \<and> flag_word (ps_client s) = CLIENT_FLAG \<and>
     (\<exists>ws w. ps_writes s = ws @ [w] \<and> g \<le> length w \<and> holds_log t g ws s \<and> mread (rx_mem (ps_server s)) 0 g = stored_record g w)"
| "hand_over t g H_Stored s \<longleftrightarrow> client_busy s \<and> flag_word (ps_client s) = CLIENT_FLAG \<and>
     rx_queue (ps_server s) = [] \<and> rx_out_cq (ps_server s) = [] \<and> ps_spc s = S_Reply \<and> holds_log t g (ps_writes s) s"
| "hand_over t g H_Acking s \<longleftrightarrow> client_busy s \<and> flag_word (ps_client s) = CLIENT_FLAG \<and> ps_spc s = S_Ack \<and>
     in_flight (ps_server s) (ps_client s) (le64 SERVER_FLAG) \<and> no_flag s \<and> holds_log t g (ps_writes s) s"
| "hand_over t g H_Acked s \<longleftrightarrow> client_busy s \<and> flag_word (ps_client s) = SERVER_FLAG \<and> server_quiet s \<and> no_flag s \<and>
     holds_log t g (ps_writes s) s"
| "hand_over t g H_Closing s \<longleftrightarrow> ps_cpc s = C_Polling True \<and> server_quiet s \<and> no_flag s \<and> holds_log t g (ps_writes s) s \<and>
     (\<exists>d. in_flight (ps_client s) (ps_server s) d \<and> length d = g \<and> mread d 0 8 = le64 END_FLAG)"
| "hand_over t g H_Ended s \<longleftrightarrow> rx_queue (ps_client s) = [] \<and>
     (ps_cpc s = C_Polling True \<and> rx_out_cq (ps_client s) = [True] \<or> ps_cpc s = C_Closed \<and> rx_out_cq (ps_client s) = []) \<and>
     flag_word (ps_server s) = END_FLAG \<and> (server_quiet s \<or> ps_spc s = S_Stopped \<and> rx_queue (ps_server s) = []) \<and>
     holds_log t g (ps_writes s) s"

definition hand_inv :: "path_type \<Rightarrow> nat \<Rightarrow> path_sys \<Rightarrow> bool" where
  "hand_inv t g s \<longleftrightarrow> path_base t s \<and> (\<exists>p. hand_over t g p s)"

lemma holds_log_frame [simp]:
  "holds_log t g ws (s\<lparr>ps_client := c\<rparr>) = holds_log t g ws s" "holds_log t g ws (s\<lparr>ps_server := c\<rparr>) = holds_log t g ws s"
  "holds_log t g ws (s\<lparr>ps_cpc := cp\<rparr>) = holds_log t g ws s" "holds_log t g ws (s\<lparr>ps_spc := sp\<rparr>) = holds_log t g ws s"
  "holds_log t g ws (s\<lparr>ps_writes := vs\<rparr>) = holds_log t g ws s"
  by (simp_all add: holds_log_def)

lemma in_flight_frame [simp]:
  "in_flight a (b\<lparr>rx_queue := q\<rparr>) = in_flight a b" "in_flight a (b\<lparr>rx_out_cq := cq\<rparr>) = in_flight a b"
  by (simp_all add: fun_eq_iff in_flight_def)

lemma length_stored_record [simp]: "8 \<le> g \<Longrightarrow> g \<le> length w \<Longrightarrow> length (stored_record g w) = g"
  by (simp add: stored_record_def)

lemma stored_record_flag: "mread (stored_record g w) 0 8 = le64 CLIENT_FLAG"
  by (simp add: stored_record_def mread_append_left)

lemma in_flight_arrives:
  assumes "path_verbs_ok v" "covers_mem b" "in_flight a b d" "d \<noteq> []" "length d \<le> path_mtu"
  shows "pv_packet v a b = (a\<lparr>rx_queue := [], rx_out_cq := [True]\<rparr>, b\<lparr>rx_mem := mwrite (rx_mem b) 0 d\<rparr>)"
    "length d \<le> length (rx_mem b)"
proof -
  obtain wr inl where w: "rx_queue a = [(wr, inl, 0)]" "carries a b wr inl 0 d" "rx_out_cq a = []"
    using assms(3) by (auto simp: in_flight_def)
  then show "pv_packet v a b = (a\<lparr>rx_queue := [], rx_out_cq := [True]\<rparr>, b\<lparr>rx_mem := mwrite (rx_mem b) 0 d\<rparr>)"
    using packet_delivers [OF assms(1,2) w(1,2)] assms(4,5) by (simp add: min_def)
  show "length d \<le> length (rx_mem b)" using w(2) by (simp add: carries_def)
qed

lemma Client34_Write_posts:
  assumes v: "path_verbs_ok v" and c: "can_send c" "covers_mem d" "knows_region c d" "rx_queue c = []"
    and len: "length (rx_mem c) = PATH_BUFSIZE" "length (rx_mem d) = PATH_BUFSIZE" and g: "8 \<le> g" "g \<le> PATH_BUFSIZE" and buf: "g \<le> length buf"
  shows "\<exists>m wr inl. Client34_Write v g buf c = Some (c\<lparr>rx_mem := m, rx_sr := wr, rx_queue := [(wr, inl, 0)]\<rparr>) \<and> length m = PATH_BUFSIZE \<and>
    flag_word (c\<lparr>rx_mem := m\<rparr>) = CLIENT_FLAG \<and> carries (c\<lparr>rx_mem := m\<rparr>) d wr inl 0 (stored_record g buf)"
proof -
  define m where "m = mwrite (mwrite (rx_mem c) 0 (take g buf)) 0 (le64 CLIENT_FLAG)"
  have m: "length m = PATH_BUFSIZE" using len g buf by (simp add: m_def)
  have "mread m 0 (8 + (g - 8)) = le64 CLIENT_FLAG @ mread (mwrite (rx_mem c) 0 (take g buf)) 8 (g - 8)"
    unfolding mread_split [of m 0 8] using len buf g by (simp add: m_def mread_mwrite_same mread_mwrite_after)
  also have "mread (mwrite (rx_mem c) 0 (take g buf)) 8 (g - 8) = mread buf 8 (g - 8)"
    using len buf g by (simp add: mread_mwrite_inside) (simp add: mread_def drop_take)
  finally have mr: "mread m 0 g = stored_record g buf" using g by (simp add: stored_record_def)
  have hdr: "flag_word (c\<lparr>rx_mem := m\<rparr>) = CLIENT_FLAG" using len g buf by (intro flag_word_of) (simp add: m_def mread_mwrite_same)
  obtain wr inl where w: "path_post_write v None g 0 0 (c\<lparr>rx_mem := m\<rparr>) =
      Some (c\<lparr>rx_mem := m, rx_sr := wr, rx_queue := [(wr, inl, 0)]\<rparr>, Status_Ok, 0)"
      "carries (c\<lparr>rx_mem := m\<rparr>) d wr inl 0 (stored_record g buf)"
    using path_post_write_queues [OF path_verbs_okD(1) [OF v], of "c\<lparr>rx_mem := m\<rparr>" d 0 g 0] c m len g mr by (auto simp: context_mem)
  have "load buf 0 g = Some (take g buf)" using buf by (simp add: mread_def)
  then have "Client34_Write v g buf c = Some (c\<lparr>rx_mem := m, rx_sr := wr, rx_queue := [(wr, inl, 0)]\<rparr>)"
    using w(1) len g buf by (simp add: Client34_Write_def set_flag_word_Some m_def)
  then show ?thesis using m hdr w(2) by blast
qed

lemma reply_write:
  assumes v: "path_verbs_ok v" and d: "can_send d" "covers_mem c" "knows_region d c" "rx_queue d = []"
    and len: "length (rx_mem d) = PATH_BUFSIZE" "length (rx_mem c) = PATH_BUFSIZE"
  shows "\<exists>m wr inl. set_flag_word SERVER_FLAG d = Some (d\<lparr>rx_mem := m\<rparr>) \<and> m = mwrite (rx_mem d) 0 (le64 SERVER_FLAG) \<and>
    path_post_write v None 8 0 0 (d\<lparr>rx_mem := m\<rparr>) = Some (d\<lparr>rx_mem := m, rx_sr := wr, rx_queue := [(wr, inl, 0)]\<rparr>, Status_Ok, 0) \<and>
    length m = PATH_BUFSIZE \<and> flag_word (d\<lparr>rx_mem := m\<rparr>) = SERVER_FLAG \<and> carries (d\<lparr>rx_mem := m\<rparr>) c wr inl 0 (le64 SERVER_FLAG)"
proof -
  define m where "m = mwrite (rx_mem d) 0 (le64 SERVER_FLAG)"
  have m: "length m = PATH_BUFSIZE" "mread m 0 8 = le64 SERVER_FLAG" using len by (simp_all add: m_def mread_mwrite_same)
  have "set_flag_word SERVER_FLAG d = Some (d\<lparr>rx_mem := m\<rparr>)" using len by (simp add: set_flag_word_Some m_def)
  moreover have "flag_word (d\<lparr>rx_mem := m\<rparr>) = SERVER_FLAG" using m(2) by (intro flag_word_of) simp
  moreover obtain wr inl where "path_post_write v None 8 0 0 (d\<lparr>rx_mem := m\<rparr>) =
      Some (d\<lparr>rx_mem := m, rx_sr := wr, rx_queue := [(wr, inl, 0)]\<rparr>, Status_Ok, 0)"
      "carries (d\<lparr>rx_mem := m\<rparr>) c wr inl 0 (le64 SERVER_FLAG)"
    using path_post_write_queues [OF path_verbs_okD(1) [OF v], of "d\<lparr>rx_mem := m\<rparr>" c 0 8 0] d m len by (auto simp: context_mem)
  ultimately show ?thesis using m(1) m_def by blast
qed

lemma hand_call_write:
  assumes v: "path_verbs_ok v" and t: "\<not> direct t" and g: "8 \<le> g" "g \<le> path_mtu" and b: "path_base t s" and h: "hand_over t g p s"
    and st: "path_event_step v ssd t g (Call_Write buf) s = Some s'"
  shows "hand_inv t g s'"
proof -
  let ?c = "ps_client s"
  from st have idle: "ps_cpc s = C_Idle" by (auto split: if_splits)
  then have "p = H_Idle" using h by (cases p) (auto simp: client_busy_def)
  with h have q: "rx_queue ?c = []" "rx_out_cq ?c = []" and o: "server_quiet s" "no_flag s" "holds_log t g (ps_writes s) s" by simp_all
  have gB: "g \<le> PATH_BUFSIZE" using g by (simp add: path_mtu_def)
  have buf: "g \<le> length buf" using st t idle
    by (auto simp: Client_Write_def Client34_Write_def load_def split: if_splits)
  obtain m wr inl where w: "Client34_Write v g buf ?c = Some (?c\<lparr>rx_mem := m, rx_sr := wr, rx_queue := [(wr, inl, 0)]\<rparr>)"
      "length m = PATH_BUFSIZE" "flag_word (?c\<lparr>rx_mem := m\<rparr>) = CLIENT_FLAG" "carries (?c\<lparr>rx_mem := m\<rparr>) (ps_server s) wr inl 0 (stored_record g buf)"
    using Client34_Write_posts [OF v, of ?c "ps_server s" g buf] b q g gB buf by (auto simp: path_base_def)
  let ?s = "s\<lparr>ps_client := ?c\<lparr>rx_mem := m, rx_sr := wr, rx_queue := [(wr, inl, 0)]\<rparr>, ps_cpc := C_Polling False,
      ps_writes := ps_writes s @ [buf]\<rparr>"
  have "s' = ?s" using st t idle w(1) by (simp add: Client_Write_def)
  moreover have "hand_over t g H_Posted ?s" using o q w(3,4) buf
    by (simp add: server_quiet_def no_flag_def in_flight_def)
  moreover have "path_base t ?s" using b w(2) by (simp add: path_base_def context_mem)
  ultimately show ?thesis by (auto simp: hand_inv_def simp del: hand_over.simps)
qed

lemma hand_call_close:
  assumes v: "path_verbs_ok v" and t: "\<not> direct t" and g: "8 \<le> g" "g \<le> path_mtu" and b: "path_base t s" and h: "hand_over t g p s"
    and st: "path_event_step v ssd t g Call_Close s = Some s'"
  shows "hand_inv t g s'"
proof -
  let ?c = "ps_client s"
  from st have idle: "ps_cpc s = C_Idle" by (auto split: if_splits)
  then have "p = H_Idle" using h by (cases p) (auto simp: client_busy_def)
  with h have q: "rx_queue ?c = []" "rx_out_cq ?c = []" and o: "server_quiet s" "no_flag s" "holds_log t g (ps_writes s) s" by simp_all
  have len: "length (rx_mem ?c) = PATH_BUFSIZE" "length (rx_mem (ps_server s)) = PATH_BUFSIZE" using b by (simp_all add: path_base_def)
  have gB: "g \<le> PATH_BUFSIZE" using g by (simp add: path_mtu_def)
  define m where "m = mwrite (rx_mem ?c) 0 (le64 END_FLAG)"
  have m: "length m = PATH_BUFSIZE" "mread (mread m 0 g) 0 8 = le64 END_FLAG"
    using len g by (simp_all add: m_def mread_mread mread_mwrite_same)
  obtain wr inl where w: "path_post_write v None g 0 0 (?c\<lparr>rx_mem := m\<rparr>) =
      Some (?c\<lparr>rx_mem := m, rx_sr := wr, rx_queue := [(wr, inl, 0)]\<rparr>, Status_Ok, 0)"
      "carries (?c\<lparr>rx_mem := m\<rparr>) (ps_server s) wr inl 0 (mread m 0 g)"
    using path_post_write_queues [OF path_verbs_okD(1) [OF v], of "?c\<lparr>rx_mem := m\<rparr>" "ps_server s" 0 g 0] b q m len gB by (auto simp: path_base_def context_mem)
  let ?s = "s\<lparr>ps_client := ?c\<lparr>rx_mem := m, rx_sr := wr, rx_queue := [(wr, inl, 0)]\<rparr>, ps_cpc := C_Polling True\<rparr>"
  have "s' = ?s" using st t idle w(1) len by (simp add: Client_Close_def Client34_Close_def set_flag_word_Some m_def)
  moreover have "in_flight (ps_client ?s) (ps_server ?s) (mread m 0 g)" using q w(2) by (simp add: in_flight_def)
  then have "hand_over t g H_Closing ?s" using o m gB by (auto simp: server_quiet_def no_flag_def intro!: exI [of _ "mread m 0 g"])
  moreover have "path_base t ?s" using b m by (simp add: path_base_def context_mem)
  ultimately show ?thesis by (auto simp: hand_inv_def simp del: hand_over.simps)
qed

lemma hand_frame:
  "client_busy (s\<lparr>ps_server := d\<rparr>) = client_busy s" "client_busy (s\<lparr>ps_spc := x\<rparr>) = client_busy s"
  "server_quiet (s\<lparr>ps_client := c\<rparr>) = server_quiet s" "server_quiet (s\<lparr>ps_cpc := y\<rparr>) = server_quiet s"
  "no_flag (s\<lparr>ps_client := c\<rparr>) = no_flag s" "no_flag (s\<lparr>ps_cpc := y\<rparr>) = no_flag s" "no_flag (s\<lparr>ps_spc := x\<rparr>) = no_flag s"
  by (simp_all add: client_busy_def server_quiet_def no_flag_def)

lemma client_busy_polled:
  "client_busy s \<Longrightarrow> rx_out_cq (ps_client s) \<noteq> [] \<Longrightarrow>
   client_busy (s\<lparr>ps_client := (ps_client s)\<lparr>rx_out_cq := tl (rx_out_cq (ps_client s))\<rparr>, ps_cpc := C_Waiting\<rparr>)"
  by (auto simp: client_busy_def)

lemma hand_client_turn:
  assumes v: "path_verbs_ok v" and t: "\<not> direct t" and b: "path_base t s" and h: "hand_over t g p s"
    and st: "path_event_step v ssd t g Client_Turn s = Some s'"
  shows "hand_inv t g s'"
proof (cases "ps_cpc s")
  case (C_Polling cl)
  show ?thesis
  proof (cases "rx_out_cq (ps_client s) = []")
    case True
    then have "s' = s" using st C_Polling by (simp add: client_turn_def poll_one [OF path_verbs_okD(2) [OF v]])
    then show ?thesis using b h by (auto simp: hand_inv_def simp del: hand_over.simps)
  next
    case False
    let ?c = "(ps_client s)\<lparr>rx_out_cq := tl (rx_out_cq (ps_client s))\<rparr>"
    let ?s = "s\<lparr>ps_client := ?c, ps_cpc := (if cl then C_Closed else C_Waiting)\<rparr>"
    have "s' = ?s" using st t C_Polling False by (auto simp: client_turn_def poll_one [OF path_verbs_okD(2) [OF v]])
    moreover have "path_base t ?s" using b by (simp add: path_base_def)
    moreover have "hand_over t g p ?s"
      using h C_Polling False by (cases p) (auto simp: hand_frame client_busy_polled in_flight_def, auto simp: client_busy_def)
    ultimately show ?thesis by (auto simp: hand_inv_def simp del: hand_over.simps)
  qed
next
  case C_Waiting
  show ?thesis
  proof (cases "flag_word (ps_client s) = SERVER_FLAG")
    case True
    then have "p = H_Acked" using h C_Waiting by (cases p) (auto simp: client_busy_def)
    with h C_Waiting have "hand_over t g H_Idle (s\<lparr>ps_cpc := C_Idle\<rparr>)" by (simp add: client_busy_def hand_frame)
    moreover have "s' = s\<lparr>ps_cpc := C_Idle\<rparr>" using st C_Waiting True by (simp add: client_turn_def)
    ultimately show ?thesis using b by (auto simp: hand_inv_def base_simps simp del: hand_over.simps)
  next
    case False
    then have "s' = s" using st C_Waiting by (simp add: client_turn_def)
    then show ?thesis using b h by (auto simp: hand_inv_def simp del: hand_over.simps)
  qed
qed (use st in \<open>simp_all add: client_turn_def\<close>)

lemma persist_arrived:
  assumes ssd: "ssd_full ssd" and t: "\<not> direct t" and g: "8 \<le> g" "g \<le> path_mtu" and b: "path_base t s" and h: "hand_over t g H_Arrived s"
    and w: "ps_spc s = S_Watch" and st: "persist ssd t g s = Some s'"
  shows "path_base t s' \<and> hand_over t g H_Stored s'"
proof -
  obtain ws w where a: "ps_writes s = ws @ [w]" "g \<le> length w" "holds_log t g ws s" "mread (rx_mem (ps_server s)) 0 g = stored_record g w"
    using h by auto
  have gB: "g \<le> PATH_BUFSIZE" using g by (simp add: path_mtu_def)
  then have ld: "load (rx_mem (ps_server s)) 0 g = Some (stored_record g w)" using a(4) b by (simp add: path_base_def)
  have o: "client_busy s" "flag_word (ps_client s) = CLIENT_FLAG" "rx_queue (ps_server s) = []" "rx_out_cq (ps_server s) = []"
    using h w by (auto simp: server_quiet_def)
  show ?thesis
  proof (cases "t = RDMA_SSD")
    case True
    then have "s' = s\<lparr>ps_file := ps_file s @ stored_record g w, ps_spc := S_Reply\<rparr>"
      using st ld ssd a(2) g by (simp add: persist_def ssd_full_def)
    then show ?thesis using a o b True by (simp add: holds_log_def client_busy_def path_base_def)
  next
    case False
    then have t: "t = RDMA_PMR0" using t by (cases t) (simp_all add: direct_def)
    define m where "m = mwrite (ps_dmabuf s) 0 (stored_record g w)"
    have m: "length m = PATH_BUFSIZE" "mread m 0 g = stored_record g w"
      using b gB a(2) g by (simp_all add: m_def path_base_def mread_mwrite_same)
    have "s' = s\<lparr>ps_dmabuf := m, ps_spc := S_Reply\<rparr>"
      using st ld b gB a(2) g by (simp add: persist_def t path_base_def m_def)
    then show ?thesis using a o b m by (simp add: t holds_log_def client_busy_def path_base_def)
  qed
qed

lemma reply_posts:
  assumes v: "path_verbs_ok v" and t: "\<not> direct t" and b: "path_base t s" and h: "hand_over t g H_Stored s"
    and st: "path_event_step v ssd t g Server_Turn s = Some s'"
  shows "path_base t s' \<and> hand_over t g H_Acking s'"
proof -
  let ?d = "ps_server s"
  have o: "ps_spc s = S_Reply" "client_busy s" "flag_word (ps_client s) = CLIENT_FLAG" "rx_queue ?d = []" "rx_out_cq ?d = []"
    "holds_log t g (ps_writes s) s" using h by simp_all
  obtain m wr inl where w: "set_flag_word SERVER_FLAG ?d = Some (?d\<lparr>rx_mem := m\<rparr>)"
      "path_post_write v None 8 0 0 (?d\<lparr>rx_mem := m\<rparr>) = Some (?d\<lparr>rx_mem := m, rx_sr := wr, rx_queue := [(wr, inl, 0)]\<rparr>, Status_Ok, 0)"
      "length m = PATH_BUFSIZE" "flag_word (?d\<lparr>rx_mem := m\<rparr>) = SERVER_FLAG" "carries (?d\<lparr>rx_mem := m\<rparr>) (ps_client s) wr inl 0 (le64 SERVER_FLAG)"
    using reply_write [OF v, of ?d "ps_client s"] b t o(4) by (auto simp: path_base_def can_send_def)
  let ?s = "s\<lparr>ps_server := ?d\<lparr>rx_mem := m, rx_sr := wr, rx_queue := [(wr, inl, 0)]\<rparr>, ps_spc := S_Ack\<rparr>"
  have "s' = ?s" using st o(1) w(1,2) by (simp add: server_turn_def)
  moreover have "hand_over t g H_Acking ?s" using o w(4,5) by (simp add: hand_frame in_flight_def no_flag_def)
  moreover have "path_base t ?s" using b t w(3) by (simp add: path_base_def context_mem)
  ultimately show ?thesis by blast
qed

text \<open>A turn that only moves the server to another place, and perhaps takes a completion.\<close>

lemma hand_server_moves:
  assumes b: "path_base t s" and h: "hand_over t g p s" and q: "server_quiet s"
    and s': "s' = s\<lparr>ps_spc := S_Watch, ps_server := (ps_server s)\<lparr>rx_out_cq := []\<rparr>\<rparr>"
  shows "hand_inv t g s'"
proof -
  have "server_quiet s'" using q by (auto simp: s' server_quiet_def)
  moreover have "hand_over t g p s'" using h q calculation
    by (cases p) (auto simp: s' hand_frame no_flag_def, auto simp: server_quiet_def client_busy_def in_flight_def)
  ultimately show ?thesis using b by (auto simp: hand_inv_def path_base_def s' simp del: hand_over.simps)
qed

lemma hand_server_turn:
  assumes v: "path_verbs_ok v" and ssd: "ssd_full ssd" and t: "\<not> direct t" and g: "8 \<le> g" "g \<le> path_mtu"
    and b: "path_base t s" and h: "hand_over t g p s" and st: "path_event_step v ssd t g Server_Turn s = Some s'"
  shows "hand_inv t g s'"
proof (cases "ps_spc s")
  case S_Start
  then have q: "server_quiet s" using h by (cases p) auto
  then have "s' = s\<lparr>ps_spc := S_Watch, ps_server := (ps_server s)\<lparr>rx_out_cq := []\<rparr>\<rparr>"
    using st t S_Start by (auto simp: server_turn_def server_quiet_def)
  from hand_server_moves [OF b h q this] show ?thesis .
next
  case S_Watch
  consider (ended) "flag_word (ps_server s) = END_FLAG" | (rec) "flag_word (ps_server s) = CLIENT_FLAG" | (none) "no_flag s"
    by (auto simp: no_flag_def)
  then show ?thesis
  proof cases
    case ended
    have "p = H_Ended"
    proof (cases p)
      case H_Arrived
      then obtain w where "mread (rx_mem (ps_server s)) 0 g = stored_record g w" using h by auto
      then have "mread (rx_mem (ps_server s)) 0 8 = le64 CLIENT_FLAG" using g mread_mread [of 0 8 g "rx_mem (ps_server s)" 0] by (simp add: stored_record_flag)
      from flag_word_of [OF this] ended show ?thesis by simp
    qed (use h S_Watch ended in \<open>auto simp: no_flag_def\<close>)
    moreover have "s' = s\<lparr>ps_spc := S_Stopped\<rparr>" using st S_Watch ended by (simp add: server_turn_def)
    ultimately show ?thesis using b h by (auto simp: hand_inv_def base_simps server_quiet_def intro!: exI [of _ H_Ended])
  next
    case rec
    then have "p = H_Arrived" using h S_Watch by (cases p) (auto simp: no_flag_def)
    then show ?thesis
      using persist_arrived [OF ssd t g b _ S_Watch] h st S_Watch rec t
      by (auto simp: server_turn_def hand_inv_def simp del: hand_over.simps)
  next
    case none
    then have "s' = s" using st S_Watch t by (simp add: server_turn_def no_flag_def)
    then show ?thesis using b h by (auto simp: hand_inv_def simp del: hand_over.simps)
  qed
next
  case S_Reply
  then have "p = H_Stored" using h by (cases p) (auto simp: server_quiet_def)
  then show ?thesis using reply_posts [OF v t b _ st] h by (auto simp: hand_inv_def simp del: hand_over.simps)
next
  case S_Ack
  show ?thesis
  proof (cases "rx_out_cq (ps_server s) = []")
    case True
    then have "s' = s" using st S_Ack by (simp add: server_turn_def poll_one [OF path_verbs_okD(2) [OF v]])
    then show ?thesis using b h by (auto simp: hand_inv_def simp del: hand_over.simps)
  next
    case False
    then have q: "server_quiet s" using h S_Ack by (cases p) (auto simp: in_flight_def)
    then have "s' = s\<lparr>ps_spc := S_Watch, ps_server := (ps_server s)\<lparr>rx_out_cq := []\<rparr>\<rparr>"
      using st S_Ack False by (auto simp: server_turn_def server_quiet_def poll_one [OF path_verbs_okD(2) [OF v]])
    from hand_server_moves [OF b h q this] show ?thesis .
  qed
qed (use st in \<open>simp_all add: server_turn_def\<close>)

lemma hand_to_server:
  assumes v: "path_verbs_ok v" and g: "8 \<le> g" "g \<le> path_mtu"
    and b: "path_base t s" and h: "hand_over t g p s" and st: "path_event_step v ssd t g To_Server s = Some s'"
  shows "hand_inv t g s'"
proof -
  let ?c = "ps_client s" and ?d = "ps_server s"
  have q: "rx_queue ?c \<noteq> []" using st by (auto split: if_splits)
  have cv: "covers_mem ?d" using b by (simp add: path_base_def)
  have p: "p = H_Posted \<or> p = H_Closing" using h q by (cases p) (auto simp: client_busy_def)
  then obtain d where d: "in_flight ?c ?d d" "length d = g" using h g by auto
  define m where "m = mwrite (rx_mem ?d) 0 d"
  have d0: "d \<noteq> []" "length d \<le> path_mtu" using d(2) g by auto
  note pk = in_flight_arrives [OF v cv d(1) d0]
  let ?s = "s\<lparr>ps_client := ?c\<lparr>rx_queue := [], rx_out_cq := [True]\<rparr>, ps_server := ?d\<lparr>rx_mem := m\<rparr>\<rparr>"
  have s': "s' = ?s" using st q pk(1) by (simp add: m_def)
  have m: "length m = length (rx_mem ?d)" "mread m 0 g = d" "mread m 0 8 = mread d 0 8"
    using pk(2) d(2) g by (simp_all add: m_def mread_mwrite_same mread_mwrite_inside)
  have "path_base t ?s" using b m(1) by (simp add: path_base_def context_mem)
  moreover have "\<exists>p. hand_over t g p ?s"
    using p
  proof
    assume "p = H_Posted"
    then obtain ws w where w: "ps_writes s = ws @ [w]" "g \<le> length w" "holds_log t g ws s" "in_flight ?c ?d (stored_record g w)"
      and o: "ps_cpc s = C_Polling False" "server_quiet s" "flag_word ?c = CLIENT_FLAG" using h by auto
    have "stored_record g w = d" using w(4) d(1) by (auto simp: in_flight_def carries_def)
    then have "hand_over t g H_Arrived ?s" using w o m(2) by (simp add: client_busy_def server_quiet_def)
    then show ?thesis ..
  next
    assume p: "p = H_Closing"
    then obtain d' where d': "in_flight ?c ?d d'" "mread d' 0 8 = le64 END_FLAG" and o: "ps_cpc s = C_Polling True" "server_quiet s"
        "holds_log t g (ps_writes s) s" using h by auto
    have "d' = d" using d'(1) d(1) by (auto simp: in_flight_def carries_def)
    then have "flag_word (?d\<lparr>rx_mem := m\<rparr>) = END_FLAG" using d'(2) m(3) by (intro flag_word_of) simp
    then have "hand_over t g H_Ended ?s" using o by (simp add: server_quiet_def)
    then show ?thesis ..
  qed
  ultimately show ?thesis unfolding hand_inv_def s' by blast
qed

lemma hand_to_client:
  assumes v: "path_verbs_ok v" and b: "path_base t s" and h: "hand_over t g p s" and st: "path_event_step v ssd t g To_Client s = Some s'"
  shows "hand_inv t g s'"
proof -
  let ?c = "ps_client s" and ?d = "ps_server s"
  have q: "rx_queue ?d \<noteq> []" using st by (auto split: if_splits)
  then have "p = H_Acking" using h by (cases p) (auto simp: server_quiet_def)
  with h have f: "in_flight ?d ?c (le64 SERVER_FLAG)" and o: "client_busy s" "ps_spc s = S_Ack" "no_flag s" "holds_log t g (ps_writes s) s" by simp_all
  define m where "m = mwrite (rx_mem ?c) 0 (le64 SERVER_FLAG)"
  have cv: "covers_mem ?c" using b by (simp add: path_base_def can_send_def)
  have l8: "le64 SERVER_FLAG \<noteq> []" using length_le64 [of SERVER_FLAG] by force
  have len: "length m = length (rx_mem ?c)" "mread m 0 8 = le64 SERVER_FLAG" using b by (simp_all add: path_base_def m_def mread_mwrite_same)
  let ?s = "s\<lparr>ps_client := ?c\<lparr>rx_mem := m\<rparr>, ps_server := ?d\<lparr>rx_queue := [], rx_out_cq := [True]\<rparr>\<rparr>"
  have "s' = ?s" using in_flight_arrives(1) [OF v cv f l8] st q by (simp add: path_mtu_def m_def)
  moreover have "flag_word (?c\<lparr>rx_mem := m\<rparr>) = SERVER_FLAG" using len by (intro flag_word_of) simp
  then have "hand_over t g H_Acked ?s" using o by (simp add: client_busy_def server_quiet_def no_flag_def)
  moreover have "path_base t ?s" using b len by (simp add: path_base_def context_mem)
  ultimately show ?thesis unfolding hand_inv_def by blast
qed

lemma hand_step:
  assumes "path_verbs_ok v" "ssd_full ssd" "\<not> direct t" "8 \<le> g" "g \<le> path_mtu" "hand_inv t g s" "path_event_step v ssd t g e s = Some s'"
  shows "hand_inv t g s'"
proof -
  obtain p where b: "path_base t s" and h: "hand_over t g p s" using assms(6) by (auto simp: hand_inv_def)
  note st = assms(7)
  show ?thesis
  proof (cases e)
    case (Call_Write buf)
    show ?thesis by (rule hand_call_write [OF assms(1,3-5) b h st [unfolded Call_Write]])
  next
    case Call_Close
    show ?thesis by (rule hand_call_close [OF assms(1,3-5) b h st [unfolded Call_Close]])
  next
    case Client_Turn
    show ?thesis by (rule hand_client_turn [OF assms(1,3) b h st [unfolded Client_Turn]])
  next
    case Server_Turn
    show ?thesis by (rule hand_server_turn [OF assms(1-5) b h st [unfolded Server_Turn]])
  next
    case To_Server
    show ?thesis by (rule hand_to_server [OF assms(1,4,5) b h st [unfolded To_Server]])
  next
    case To_Client
    show ?thesis by (rule hand_to_client [OF assms(1) b h st [unfolded To_Client]])
  qed
qed

section \<open>Records of two packets\<close>

lemma small_post_inline:
  assumes "path_verbs_ok v" "rx_queue a = []" "n \<le> MAX_INLINE_SIZE"
    "path_post_write v None n lo ro a = Some (a\<lparr>rx_sr := wr, rx_queue := [(wr, inl, 0)]\<rparr>, st)"
  shows "inl \<noteq> None"
proof -
  let ?wr = "path_wr n IBV_WR_RDMA_WRITE lo ro a"
  have "path_post_write v None n lo ro a =
      Some (a\<lparr>rx_sr := ?wr, rx_queue := [path_queued (a\<lparr>rx_sr := ?wr\<rparr>) ?wr]\<rparr>, Status_Ok, 0)"
    using assms(1,2) by (simp add: path_post_write_def post_send_helper_def path_copy_in_def path_verbs_ok_def path_post_ok_def
        MAX_QP_DEPTH_def Let_def)
  then have "map_option (\<lambda>x. rx_queue (fst x)) (Some (a\<lparr>rx_sr := ?wr, rx_queue := [path_queued (a\<lparr>rx_sr := ?wr\<rparr>) ?wr]\<rparr>, Status_Ok, 0::int)) =
      map_option (\<lambda>x. rx_queue (fst x)) (Some (a\<lparr>rx_sr := wr, rx_queue := [(wr, inl, 0)]\<rparr>, st))"
    using assms(4) by (simp only:)
  then have "path_queued (a\<lparr>rx_sr := ?wr\<rparr>) ?wr = (wr, inl, 0)" by simp
  then show ?thesis using assms(3) by (auto simp: path_queued_def path_wr_def Let_def split: if_splits)
qed

lemma carries_inline: "inl \<noteq> None \<Longrightarrow> carries (a\<lparr>rx_mem := m\<rparr>) b wr inl ro d = carries a b wr inl ro d"
  by (auto simp: carries_def path_payload_def)

text \<open>The server stores the record between its two packets.\<close>

lemma torn_stored:
  assumes v: "path_verbs_ok v" and ssd: "ssd_full ssd" and s0: "path_start RDMA_SSD s0"
    and g: "path_mtu < g" "g \<le> 2 * path_mtu" "g \<le> length buf"
  shows "\<exists>m wr inl m'. path_run v ssd RDMA_SSD g [Call_Write buf, To_Server, Server_Turn, Server_Turn] s0 =
      Some (s0\<lparr>ps_client := (ps_client s0)\<lparr>rx_mem := m, rx_sr := wr, rx_queue := [(wr, inl, path_mtu)]\<rparr>, ps_cpc := C_Polling False,
        ps_writes := [buf], ps_server := (ps_server s0)\<lparr>rx_mem := m'\<rparr>, ps_spc := S_Reply,
        ps_file := take path_mtu (stored_record g buf) @ mread (rx_mem (ps_server s0)) path_mtu (g - path_mtu)\<rparr>) \<and>
    length m = PATH_BUFSIZE \<and> length m' = PATH_BUFSIZE \<and>
    carries ((ps_client s0)\<lparr>rx_mem := m\<rparr>) (ps_server s0) wr inl 0 (stored_record g buf)"
proof -
  let ?c = "ps_client s0" and ?d = "ps_server s0"
  define S where "S = stored_record g buf"
  have nd: "\<not> direct RDMA_SSD" by (simp add: direct_def)
  have b: "path_base RDMA_SSD s0" and i: "rx_queue ?c = []" "ps_cpc s0 = C_Idle" "ps_spc s0 = S_Start" "ps_file s0 = []" "ps_writes s0 = []"
    using s0 by (simp_all add: path_start_def)
  have len: "length (rx_mem ?d) = PATH_BUFSIZE" and cv: "covers_mem ?d" using b by (simp_all add: path_base_def)
  have g8: "8 \<le> g" "g \<le> PATH_BUFSIZE" "8 \<le> path_mtu" using g by (simp_all add: path_mtu_def)
  have S: "length S = g" "mread S 0 8 = le64 CLIENT_FLAG" using g8(1) g(3) by (simp_all add: S_def stored_record_flag)
  obtain m wr inl where w: "Client34_Write v g buf ?c = Some (?c\<lparr>rx_mem := m, rx_sr := wr, rx_queue := [(wr, inl, 0)]\<rparr>)"
      "length m = PATH_BUFSIZE" "carries (?c\<lparr>rx_mem := m\<rparr>) ?d wr inl 0 S"
    using Client34_Write_posts [OF v, of ?c ?d g buf] b i(1) g8 g(3) by (auto simp: path_base_def S_def)
  define m' where "m' = mwrite (rx_mem ?d) 0 (take path_mtu S)"
  have m': "length m' = PATH_BUFSIZE" using len S g8 g(1) by (simp add: m'_def)
  have m'8: "mread m' 0 8 = le64 CLIENT_FLAG"
  proof -
    have "mread m' 0 8 = mread (take path_mtu S) 0 8" using len S g8 g(1) by (simp add: m'_def mread_mwrite_inside)
    also have "\<dots> = mread S 0 8" using g8(3) by (simp add: mread_def)
    finally show ?thesis using S(2) by simp
  qed
  have m'g: "mread m' 0 g = take path_mtu S @ mread (rx_mem ?d) path_mtu (g - path_mtu)"
  proof -
    have "mread m' 0 (path_mtu + (g - path_mtu)) = take path_mtu S @ mread (rx_mem ?d) path_mtu (g - path_mtu)"
      unfolding mread_split [of m' 0] using len S g8 g(1) by (simp add: m'_def mread_mwrite_same mread_mwrite_after)
    then show ?thesis using g(1) by simp
  qed
  have pk: "pv_packet v (?c\<lparr>rx_mem := m, rx_sr := wr, rx_queue := [(wr, inl, 0)]\<rparr>) ?d =
      (?c\<lparr>rx_mem := m, rx_sr := wr, rx_queue := [(wr, inl, path_mtu)]\<rparr>, ?d\<lparr>rx_mem := m'\<rparr>)"
    using packet_delivers [OF v cv, of "?c\<lparr>rx_mem := m, rx_sr := wr, rx_queue := [(wr, inl, 0)]\<rparr>" wr inl 0 0 S] w(3) S g(1) g8
    by (simp add: mread_def m'_def)
  define F where "F = take path_mtu S @ mread (rx_mem ?d) path_mtu (g - path_mtu)"
  have ld: "load m' 0 g = Some F" using m' m'g g8 by (simp add: F_def)
  have hdr: "flag_word (?d\<lparr>rx_mem := m'\<rparr>) = CLIENT_FLAG" using m'8 by (intro flag_word_of) simp
  have ln: "length F = g" using S len g8 g(1) by (simp add: F_def)
  show ?thesis
    unfolding S_def [symmetric] F_def [symmetric] using w m' i nd pk ld hdr ssd ln
    by (intro exI [of _ m] exI [of _ wr] exI [of _ inl] exI [of _ m'])
      (simp add: Client_Write_def server_turn_def persist_def ssd_full_def)
qed

lemma torn_returns:
  assumes v: "path_verbs_ok v" and b: "path_base RDMA_SSD s" and pc: "ps_spc s = S_Reply" "ps_cpc s = C_Polling False"
    and q: "rx_queue (ps_client s) = [(wr, inl, k)]" "rx_out_cq (ps_client s) = []" "rx_queue (ps_server s) = []"
    and c: "carries (ps_client s) (ps_server s) wr inl 0 d" "k < length d" "length d \<le> k + path_mtu"
  shows "\<exists>s'. path_run v ssd RDMA_SSD g [Server_Turn, To_Server, To_Client, Client_Turn, Client_Turn] s = Some s' \<and>
    ps_cpc s' = C_Idle \<and> ps_writes s' = ps_writes s \<and> ps_file s' = ps_file s"
proof -
  let ?c = "ps_client s" and ?d = "ps_server s"
  have nd: "\<not> direct RDMA_SSD" by (simp add: direct_def)
  have ok: "can_send ?c" "can_send ?d" "covers_mem ?c" "covers_mem ?d" "knows_region ?d ?c"
    "length (rx_mem ?c) = PATH_BUFSIZE" "length (rx_mem ?d) = PATH_BUFSIZE" using b nd by (simp_all add: path_base_def can_send_def)
  obtain m wr' inl' where w: "set_flag_word SERVER_FLAG ?d = Some (?d\<lparr>rx_mem := m\<rparr>)"
      "path_post_write v None 8 0 0 (?d\<lparr>rx_mem := m\<rparr>) = Some (?d\<lparr>rx_mem := m, rx_sr := wr', rx_queue := [(wr', inl', 0)]\<rparr>, Status_Ok, 0)"
      "length m = PATH_BUFSIZE" "carries (?d\<lparr>rx_mem := m\<rparr>) ?c wr' inl' 0 (le64 SERVER_FLAG)"
    using reply_write [OF v ok(2,3,5) q(3) ok(7,6)] by blast
  have inl': "inl' \<noteq> None" using small_post_inline [OF v _ _ w(2)] q(3) by (simp add: MAX_INLINE_SIZE_def)
  let ?d1 = "?d\<lparr>rx_mem := m, rx_sr := wr', rx_queue := [(wr', inl', 0)]\<rparr>" and ?c1 = "?c\<lparr>rx_queue := [], rx_out_cq := [True]\<rparr>"
  define m2 where "m2 = mwrite m k (mread d k (length d - k))"
  have c1: "carries ?c ?d1 wr inl 0 d" "covers_mem ?d1" using c(1) w(3) ok by (simp_all add: carries_mem context_mem)
  have p1: "pv_packet v ?c ?d1 = (?c1, ?d1\<lparr>rx_mem := m2\<rparr>)"
    using packet_delivers [OF v c1(2) q(1) c1(1) c(2)] c(2,3) q(2) min_absorb2 [of "length d - k" path_mtu] by (simp add: m2_def)
  let ?d2 = "?d1\<lparr>rx_mem := m2\<rparr>"
  define m3 where "m3 = mwrite (rx_mem ?c) 0 (le64 SERVER_FLAG)"
  have c2: "carries ?d2 ?c1 wr' inl' 0 (le64 SERVER_FLAG)" using w(4) by (simp add: carries_inline [OF inl'])
  have p2: "pv_packet v ?d2 ?c1 = (?d2\<lparr>rx_queue := [], rx_out_cq := rx_out_cq ?d @ [True]\<rparr>, ?c1\<lparr>rx_mem := m3\<rparr>)"
    using packet_delivers [OF v _ _ c2, of 0] ok(3) by (simp add: path_mtu_def m3_def)
  have h: "flag_word (?c\<lparr>rx_queue := [], rx_mem := m3\<rparr>) = SERVER_FLAG"
    using ok(6) by (intro flag_word_of) (simp add: m3_def mread_mwrite_same)
  show ?thesis
    using w(1,2) p1 p2 h pc q nd by (simp add: server_turn_def client_turn_def poll_one [OF path_verbs_okD(2) [OF v]])
qed

definition torn_schedule :: "bytes \<Rightarrow> path_event list" where
  "torn_schedule buf =
     [Call_Write buf, To_Server, Server_Turn, Server_Turn] @ [Server_Turn, To_Server, To_Client, Client_Turn, Client_Turn]"

lemma path_run_append:
  "path_run v ssd t g (es @ fs) s = path_run v ssd t g es s \<bind> path_run v ssd t g fs"
  by (induction es arbitrary: s) (simp_all split: bind_split)

section \<open>Sample ends\<close>

definition sample_end :: "u64 \<Rightarrow> u64 \<Rightarrow> rdma_ctx" where
  "sample_end a r = make_path_context\<lparr>rx_mr := \<lparr>mr_addr = a, mr_length = PATH_BUFSIZE, mr_lkey = 1, mr_rkey = 2\<rparr>, rx_buf := a,
     rx_bufsize := PATH_BUFSIZE, rx_remote := zero_path_cert\<lparr>pc_addr := r, pc_rkey := 2\<rparr>, rx_mem := replicate PATH_BUFSIZE 0\<rparr>"

definition sample_paths :: path_sys where
  "sample_paths = \<lparr>ps_client = sample_end 0x10000 0x20000, ps_server = sample_end 0x20000 0x10000, ps_cpc = C_Idle, ps_spc = S_Start,
     ps_file = [], ps_dmabuf = replicate PATH_BUFSIZE 0, ps_writes = []\<rparr>"

lemma sample_start: "path_start t sample_paths"
proof -
  have "le_val (replicate 8 0) = 0" by (simp add: numeral_eq_Suc)
  then have "flag_word (sample_end 0x20000 0x10000) = 0" by (simp add: flag_word_def sample_end_def mread_def)
  then show ?thesis
    by (simp add: path_start_def path_base_def sample_paths_def can_send_def covers_mem_def knows_region_def CLIENT_FLAG_def END_FLAG_def)
      (simp add: sample_end_def make_path_context_def)
qed

section \<open>Records of one packet\<close>

text \<open>
  On the path to the file, for records of at most one packet and an adapter that stores a packet in one piece, the file is the records
  written so far, one after the other, each with the flag in place of its first word; on the path to the device its memory holds the last record
  in the same way. A reliable connection does not promise such an adapter.
\<close>

lemma one_packet_stored:
  assumes "path_verbs_ok v" "ssd_full ssd" "path_start t s0" "path_run v ssd t g es s0 = Some s" "ps_cpc s = C_Idle"
    "\<not> direct t" "8 \<le> g" "g \<le> path_mtu"
  shows "holds_log t g (ps_writes s) s"
proof -
  have "hand_over t g H_Idle s0" using assms(3,6) by (auto simp: path_start_def server_quiet_def no_flag_def holds_log_def)
  then have I: "hand_inv t g s0" using assms(3) by (auto simp: hand_inv_def path_start_def simp del: hand_over.simps)
  have "hand_inv t g s" by (rule path_run_invariant [where I = "hand_inv t g", OF assms(4) I hand_step [OF assms(1,2,6-8)]])
  then obtain p where p: "hand_over t g p s" by (auto simp: hand_inv_def)
  then show ?thesis using assms(5) by (cases p) (auto simp: client_busy_def)
qed

section \<open>Properties\<close>


text \<open>One write on a direct path, as an instance.\<close>

lemma direct_write_run:
  assumes v: "path_verbs_ok v" and t: "direct t" and s0: "path_start t s0" and g: "0 < g" "g \<le> path_mtu" "g \<le> length buf"
  shows "\<exists>s. path_run v ssd t g [Call_Write buf, To_Server, Client_Turn] s0 = Some s \<and> ps_cpc s = C_Idle \<and> ps_writes s = [buf]"
proof -
  let ?c = "ps_client s0" and ?d = "ps_server s0"
  have b: "path_base t s0" "rx_queue ?c = []" "rx_out_cq ?c = []" "ps_cpc s0 = C_Idle" "ps_writes s0 = []"
    using s0 by (simp_all add: path_start_def)
  define m where "m = mwrite (rx_mem ?c) 8 (take g buf)"
  obtain wr inl where w: "path_post_write v (Some buf) g 8 8 ?c = Some (?c\<lparr>rx_mem := m, rx_sr := wr, rx_queue := [(wr, inl, 0)]\<rparr>, Status_Ok, 0)"
      "carries (?c\<lparr>rx_mem := m\<rparr>) ?d wr inl 8 (take g buf)"
    using path_post_write_msg [OF path_verbs_okD(1) [OF v], of ?c ?d 8 g 8 buf] b g unfolding m_def by (auto simp: path_base_def path_mtu_def)
  define m' where "m' = mwrite (rx_mem ?d) 8 (take g buf)"
  have "pv_packet v (?c\<lparr>rx_mem := m, rx_sr := wr, rx_queue := [(wr, inl, 0)]\<rparr>) ?d =
      (?c\<lparr>rx_mem := m, rx_sr := wr, rx_queue := [], rx_out_cq := [True]\<rparr>, ?d\<lparr>rx_mem := m'\<rparr>)"
    using packet_delivers [OF v, of ?d "?c\<lparr>rx_mem := m, rx_sr := wr, rx_queue := [(wr, inl, 0)]\<rparr>" wr inl 0 8 "take g buf"] w(2) b g
    by (simp add: path_base_def m'_def mread_def min_def)
  then show ?thesis using w(1) b t by (simp add: Client_Write_def Client12_Write_def client_turn_def poll_one [OF path_verbs_okD(2) [OF v]])
qed


text \<open>
  C29: A record of more than one packet can be stored torn, on an adapter that sends packets in their order. The flag is in the first packet, so the server may
  store the record before the rest of it has arrived; it then answers, the rest arrives, and the call of the client
  returns as always, while the file holds the first packet of the record followed by what was in the server's memory before.
\<close>

theorem remote_write_torn:
  assumes "path_verbs_ok v" "ssd_full ssd" "path_start RDMA_SSD s0" "path_mtu < g" "g \<le> 2 * path_mtu" "g \<le> length buf"
  shows "\<exists>s. path_run v ssd RDMA_SSD g (torn_schedule buf) s0 = Some s \<and> ps_cpc s = C_Idle \<and> ps_writes s = [buf] \<and>
    ps_file s = take path_mtu (stored_record g buf) @ mread (rx_mem (ps_server s0)) path_mtu (g - path_mtu)"
proof -
  let ?F = "take path_mtu (stored_record g buf) @ mread (rx_mem (ps_server s0)) path_mtu (g - path_mtu)"
  obtain m wr inl m' where r: "path_run v ssd RDMA_SSD g [Call_Write buf, To_Server, Server_Turn, Server_Turn] s0 =
      Some (s0\<lparr>ps_client := (ps_client s0)\<lparr>rx_mem := m, rx_sr := wr, rx_queue := [(wr, inl, path_mtu)]\<rparr>, ps_cpc := C_Polling False,
        ps_writes := [buf], ps_server := (ps_server s0)\<lparr>rx_mem := m'\<rparr>, ps_spc := S_Reply, ps_file := ?F\<rparr>)" (is "_ = Some ?s")
    and m: "length m = PATH_BUFSIZE" "length m' = PATH_BUFSIZE" "carries ((ps_client s0)\<lparr>rx_mem := m\<rparr>) (ps_server s0) wr inl 0 (stored_record g buf)"
    using torn_stored [OF assms] by blast
  have b: "path_base RDMA_SSD ?s" using assms(3) m by (simp add: path_start_def path_base_def context_mem)
  have len: "length (stored_record g buf) = g" using assms(4,6) by (simp add: path_mtu_def)
  have c: "carries (ps_client ?s) (ps_server ?s) wr inl 0 (stored_record g buf)"
    using m assms(3) by (simp add: carries_mem path_start_def path_base_def)
  have "\<exists>s'. path_run v ssd RDMA_SSD g [Server_Turn, To_Server, To_Client, Client_Turn, Client_Turn] ?s = Some s' \<and>
      ps_cpc s' = C_Idle \<and> ps_writes s' = ps_writes ?s \<and> ps_file s' = ps_file ?s"
    by (rule torn_returns [OF assms(1) b _ _ _ _ _ c, where k = path_mtu]) (use assms len in \<open>simp_all add: path_start_def\<close>)
  then show ?thesis using r by (auto simp: torn_schedule_def path_run_append simp del: path_run.simps append.simps)
qed

theorem remote_write_torn_witness:
  "\<exists>s. path_run rc_path_verbs (\<lambda>f d. (f @ d, int (length d))) RDMA_SSD 257 (torn_schedule (replicate 257 7)) sample_paths = Some s \<and>
    ps_cpc s = C_Idle \<and> last (ps_file s) = 0"
proof -
  have ssd: "ssd_full (\<lambda>f d. (f @ d, int (length d)))" by (simp add: ssd_full_def)
  have "mread (rx_mem (ps_server sample_paths)) path_mtu (257 - path_mtu) = [0]"
    by (simp add: sample_paths_def sample_end_def path_mtu_def mread_def)
  with remote_write_torn [OF rc_path_verbs_ok ssd sample_start, of 257 "replicate 257 7"] show ?thesis
    by (auto simp: path_mtu_def simp del: path_run.simps)
qed

end
