(* ===== verification/Ldb_Coding.thy ===== *)
theory Ldb_Coding
  imports Prelude
begin

text \<open>
  The encodings of LevelDB, \<^verbatim>\<open>database/leveldb/util/coding.cc\<close> and \<^verbatim>\<open>coding.h\<close>: fixed and variable-length
  integers and strings with their length in front. What reads from a range of memory takes the bytes up to
  its limit and returns the rest of them; \<open>None\<close> is the null pointer.
\<close>

unbundle bit_operations_syntax

section \<open>The code\<close>

definition EncodeFixed32 :: "u32 \<Rightarrow> bytes" where
  "EncodeFixed32 value = [ucast value, ucast (drop_bit 8 value), ucast (drop_bit 16 value), ucast (drop_bit 24 value)]"

definition EncodeFixed64 :: "u64 \<Rightarrow> bytes" where
  "EncodeFixed64 value = [ucast value, ucast (drop_bit 8 value), ucast (drop_bit 16 value), ucast (drop_bit 24 value),
     ucast (drop_bit 32 value), ucast (drop_bit 40 value), ucast (drop_bit 48 value), ucast (drop_bit 56 value)]"

definition ldb_DecodeFixed32 :: "bytes \<Rightarrow> u32" where
  "ldb_DecodeFixed32 p = ucast (p ! 0) OR push_bit 8 (ucast (p ! 1)) OR push_bit 16 (ucast (p ! 2)) OR push_bit 24 (ucast (p ! 3))"

definition ldb_DecodeFixed64 :: "bytes \<Rightarrow> u64" where
  "ldb_DecodeFixed64 p = ucast (p ! 0) OR push_bit 8 (ucast (p ! 1)) OR push_bit 16 (ucast (p ! 2)) OR push_bit 24 (ucast (p ! 3)) OR
     push_bit 32 (ucast (p ! 4)) OR push_bit 40 (ucast (p ! 5)) OR push_bit 48 (ucast (p ! 6)) OR push_bit 56 (ucast (p ! 7))"

definition PutFixed32 :: "bytes \<Rightarrow> u32 \<Rightarrow> bytes" where
  "PutFixed32 dst value = dst @ EncodeFixed32 value"

definition PutFixed64 :: "bytes \<Rightarrow> u64 \<Rightarrow> bytes" where
  "PutFixed64 dst value = dst @ EncodeFixed64 value"

definition EncodeVarint32 :: "u32 \<Rightarrow> bytes" where
  "EncodeVarint32 v =
     (if v < push_bit 7 1 then [ucast v]
      else if v < push_bit 14 1 then [ucast (v OR 128), ucast (drop_bit 7 v)]
      else if v < push_bit 21 1 then [ucast (v OR 128), ucast (drop_bit 7 v OR 128), ucast (drop_bit 14 v)]
      else if v < push_bit 28 1
      then [ucast (v OR 128), ucast (drop_bit 7 v OR 128), ucast (drop_bit 14 v OR 128), ucast (drop_bit 21 v)]
      else [ucast (v OR 128), ucast (drop_bit 7 v OR 128), ucast (drop_bit 14 v OR 128), ucast (drop_bit 21 v OR 128),
            ucast (drop_bit 28 v)])"

definition PutVarint32 :: "bytes \<Rightarrow> u32 \<Rightarrow> bytes" where
  "PutVarint32 dst v = dst @ EncodeVarint32 v"

lemma unat_drop_7: "unat (drop_bit 7 v) = unat (v :: 'a::len word) div 128"
  by (simp only: unat_drop_bit_eq) (simp add: drop_bit_eq_div)

function EncodeVarint64 :: "u64 \<Rightarrow> bytes" where
  "EncodeVarint64 v = (if v \<ge> 128 then ucast (v OR 128) # EncodeVarint64 (drop_bit 7 v) else [ucast v])"
  by auto
termination
proof (relation "measure unat", goal_cases)
  case (2 v)
  then have "0 < unat v" by (auto simp: word_le_nat_alt)
  then show ?case by (simp add: unat_drop_7)
qed simp

declare EncodeVarint64.simps [simp del]

definition PutVarint64 :: "bytes \<Rightarrow> u64 \<Rightarrow> bytes" where
  "PutVarint64 dst v = dst @ EncodeVarint64 v"

definition PutLengthPrefixedSlice :: "bytes \<Rightarrow> bytes \<Rightarrow> bytes" where
  "PutLengthPrefixedSlice dst value = PutVarint32 dst (of_nat (length value)) @ value"

function VarintLength :: "u64 \<Rightarrow> nat" where
  "VarintLength v = (if v \<ge> 128 then Suc (VarintLength (drop_bit 7 v)) else 1)"
  by auto
termination
proof (relation "measure unat", goal_cases)
  case (2 v)
  then have "0 < unat v" by (auto simp: word_le_nat_alt)
  then show ?case by (simp add: unat_drop_7)
qed simp

declare VarintLength.simps [simp del]

text \<open>The loop of the two decoders, which differ in the width of the result and the last shift.\<close>

fun varint_loop :: "nat \<Rightarrow> nat \<Rightarrow> 'a::len word \<Rightarrow> bytes \<Rightarrow> ('a word \<times> bytes) option" where
  "varint_loop lim shift result [] = None"
| "varint_loop lim shift result (b # p) =
     (if shift \<le> lim
      then let byte = ucast b
           in if byte AND 128 \<noteq> 0
              then varint_loop lim (shift + 7) (result OR push_bit shift (byte AND 127)) p
              else Some (result OR push_bit shift byte, p)
      else None)"

definition GetVarint32PtrFallback :: "bytes \<Rightarrow> (u32 \<times> bytes) option" where
  "GetVarint32PtrFallback p = varint_loop 28 0 0 p"

definition GetVarint32Ptr :: "bytes \<Rightarrow> (u32 \<times> bytes) option" where
  "GetVarint32Ptr p =
     (case p of
        b # q \<Rightarrow> (let result = ucast b in if result AND 128 = 0 then Some (result, q) else GetVarint32PtrFallback p)
      | [] \<Rightarrow> GetVarint32PtrFallback p)"

definition GetVarint32 :: "bytes \<Rightarrow> (u32 \<times> bytes) option" where
  "GetVarint32 input = GetVarint32Ptr input"

definition GetVarint64Ptr :: "bytes \<Rightarrow> (u64 \<times> bytes) option" where
  "GetVarint64Ptr p = varint_loop 63 0 0 p"

definition GetVarint64 :: "bytes \<Rightarrow> (u64 \<times> bytes) option" where
  "GetVarint64 input = GetVarint64Ptr input"

text \<open>The two forms of \<^verbatim>\<open>GetLengthPrefixedSlice\<close>, on a range and on a slice.\<close>

definition GetLengthPrefixedSlicePtr :: "bytes \<Rightarrow> (bytes \<times> bytes) option" where
  "GetLengthPrefixedSlicePtr p =
     do { (len, p) \<leftarrow> GetVarint32Ptr p;
          if unat len > length p then None else Some (take (unat len) p, drop (unat len) p) }"

definition GetLengthPrefixedSlice :: "bytes \<Rightarrow> (bytes \<times> bytes) option" where
  "GetLengthPrefixedSlice input =
     do { (len, input) \<leftarrow> GetVarint32 input;
          if length input \<ge> unat len then Some (take (unat len) input, drop (unat len) input) else None }"

section \<open>Fixed-length integers\<close>

lemma length_EncodeFixed [simp]: "length (EncodeFixed32 v) = 4" "length (EncodeFixed64 w) = 8"
  by (simp_all add: EncodeFixed32_def EncodeFixed64_def)

lemma ldb_DecodeFixed32_encode [simp]: "ldb_DecodeFixed32 (EncodeFixed32 v @ r) = v"
proof (rule bit_eqI)
  fix n assume "possible_bit TYPE(u32) n"
  then have "n < 32" by simp
  then consider "n < 8" | "8 \<le> n" "n < 16" | "16 \<le> n" "n < 24" | "24 \<le> n" "n < 32" by linarith
  then show "bit (ldb_DecodeFixed32 (EncodeFixed32 v @ r)) n = bit v n"
    by cases (simp_all add: ldb_DecodeFixed32_def EncodeFixed32_def bit_or_iff bit_push_bit_iff bit_ucast_iff bit_drop_bit_eq less_diff_conv2)
qed

lemma ldb_DecodeFixed64_encode [simp]: "ldb_DecodeFixed64 (EncodeFixed64 v @ r) = v"
proof (rule bit_eqI)
  fix n assume "possible_bit TYPE(u64) n"
  then have "n < 64" by simp
  then consider "n < 8" | "8 \<le> n" "n < 16" | "16 \<le> n" "n < 24" | "24 \<le> n" "n < 32" | "32 \<le> n" "n < 40" | "40 \<le> n" "n < 48" | "48 \<le> n" "n < 56" | "56 \<le> n" "n < 64" by linarith
  then show "bit (ldb_DecodeFixed64 (EncodeFixed64 v @ r)) n = bit v n"
    by cases (simp_all add: ldb_DecodeFixed64_def EncodeFixed64_def bit_or_iff bit_push_bit_iff bit_ucast_iff bit_drop_bit_eq less_diff_conv2)
qed

section \<open>Variable-length integers\<close>

text \<open>Groups of seven bits, the lowest first, with the top bit of all bytes but the last set.\<close>

fun vbytes :: "nat \<Rightarrow> bytes" where
  "vbytes n = (if n \<ge> 128 then of_nat (n mod 128 + 128) # vbytes (n div 128) else [of_nat n])"

declare vbytes.simps [simp del]

lemma bit_128: "bit (128 :: nat) n \<longleftrightarrow> n = 7"
  using bit_exp_iff [where 'a = nat, of 7 n] by auto

lemma bit_128_word: "8 \<le> LENGTH('a) \<Longrightarrow> bit (128 :: 'a::len word) n \<longleftrightarrow> n = 7"
  using bit_exp_iff [where 'a = "'a word", of 7 n] by auto

lemma bit_mod_128: "bit (m mod 128 :: nat) n \<longleftrightarrow> n < 7 \<and> bit m n"
  using bit_take_bit_iff [of 7 m n] take_bit_eq_mod [of 7 m] by simp

lemma add_128: "m mod 128 + 128 = (m mod 128 OR 128 :: nat)"
  by (rule disjunctive_add) (auto simp: bit_mod_128 bit_128)

lemma or_128:
  assumes "8 \<le> LENGTH('a)"
  shows "ucast (v OR 128 :: 'a::len word) = (of_nat (unat v mod 128 + 128) :: byte)"
proof (rule bit_eqI)
  fix n assume "possible_bit TYPE(byte) n"
  then have "n < 8" by simp
  moreover have "bit (128 :: 'a word) n \<longleftrightarrow> n = 7" by (rule bit_128_word [OF assms])
  ultimately show "bit (ucast (v OR 128) :: byte) n = bit (of_nat (unat v mod 128 + 128) :: byte) n"
    unfolding add_128 using assms by (auto simp: bit_unsigned_iff bit_or_iff bit_of_nat_iff bit_mod_128 bit_128)
qed

lemma EncodeVarint64_vbytes: "EncodeVarint64 v = vbytes (unat v)"
proof (induction v rule: EncodeVarint64.induct)
  case (1 v)
  have "v \<ge> 128 \<longleftrightarrow> unat v \<ge> 128" by (simp add: word_le_nat_alt)
  then show ?case using 1 unfolding EncodeVarint64.simps [of v] vbytes.simps [of "unat v"] unat_drop_7 by (simp add: or_128)
qed

lemma VarintLength_vbytes: "VarintLength v = length (vbytes (unat v))"
proof (induction v rule: VarintLength.induct)
  case (1 v)
  have "v \<ge> 128 \<longleftrightarrow> unat v \<ge> 128" by (simp add: word_le_nat_alt)
  then show ?case using 1 unfolding VarintLength.simps [of v] vbytes.simps [of "unat v"] unat_drop_7 by simp
qed

lemma EncodeVarint32_vbytes: "EncodeVarint32 v = vbytes (unat v)"
proof -
  let ?u = "unat v"
  have d: "unat (drop_bit n v) = ?u div 2 ^ n" for n by (simp only: unat_drop_bit_eq) (simp add: drop_bit_eq_div)
  have c: "ucast (drop_bit n v) = (of_nat (?u div 2 ^ n) :: byte)" for n unfolding d [symmetric] by simp
  have o: "ucast (drop_bit n v OR 128) = (of_nat (?u div 2 ^ n mod 128 + 128) :: byte)" for n
    using or_128 [of "drop_bit n v"] unfolding d by simp
  have l: "v < push_bit 7 1 \<longleftrightarrow> ?u < 128" "v < push_bit 14 1 \<longleftrightarrow> ?u < 16384"
    "v < push_bit 21 1 \<longleftrightarrow> ?u < 2097152" "v < push_bit 28 1 \<longleftrightarrow> ?u < 268435456"
    by (simp_all add: word_less_nat_alt)
  have v: "vbytes ?u = (if ?u < 128 then [of_nat ?u] else of_nat (?u mod 128 + 128) #
      (if ?u < 16384 then [of_nat (?u div 128)] else of_nat (?u div 128 mod 128 + 128) #
      (if ?u < 2097152 then [of_nat (?u div 16384)] else of_nat (?u div 16384 mod 128 + 128) #
      (if ?u < 268435456 then [of_nat (?u div 2097152)] else [of_nat (?u div 2097152 mod 128 + 128), of_nat (?u div 268435456)]))))"
  proof -
    have "?u div 268435456 < 128" using unat_u32_less [of v] by simp
    moreover have "128 \<le> ?u div 128 \<longleftrightarrow> \<not> ?u < 16384" "128 \<le> ?u div 16384 \<longleftrightarrow> \<not> ?u < 2097152"
      "128 \<le> ?u div 2097152 \<longleftrightarrow> \<not> ?u < 268435456" by (simp_all add: less_eq_div_iff_mult_less_eq not_less)
    ultimately show ?thesis
      unfolding vbytes.simps [of ?u] vbytes.simps [of "?u div 128"] vbytes.simps [of "?u div 128 div 128"]
        vbytes.simps [of "?u div 128 div 128 div 128"] vbytes.simps [of "?u div 128 div 128 div 128 div 128"]
      by (simp add: div_mult2_eq [symmetric])
  qed
  show ?thesis unfolding EncodeVarint32_def l v c o using c [of 7] or_128 [of v] by simp
qed

lemma decoded_byte:
  assumes "8 \<le> LENGTH('a)"
  shows "m < 128 \<Longrightarrow> (ucast (of_nat m :: byte) :: 'a::len word) AND 128 = 0"
    "m < 128 \<Longrightarrow> (ucast (of_nat m :: byte) :: 'a word) = of_nat m"
    "(ucast (of_nat (m mod 128 + 128) :: byte) :: 'a word) AND 128 \<noteq> 0"
    "(ucast (of_nat (m mod 128 + 128) :: byte) :: 'a word) AND 127 = of_nat (m mod 128)"
proof -
  have b: "bit (ucast (of_nat k :: byte) :: 'a word) n \<longleftrightarrow> bit k n" if "k < 256" for k n
    using that assms bit_take_bit_iff [of 8 k n] by (auto simp: bit_unsigned_iff bit_of_nat_iff take_bit_nat_eq_self)
  have s: "bit m n \<Longrightarrow> m < 128 \<Longrightarrow> n < 7" for m n :: nat
    using bit_take_bit_iff [of 7 m n] by (simp add: take_bit_nat_eq_self)
  have 127: "(127 :: 'a word) = mask 7" by (simp add: mask_eq_exp_minus_1)
  show "m < 128 \<Longrightarrow> (ucast (of_nat m :: byte) :: 'a word) AND 128 = 0"
  proof (rule bit_eqI)
    fix n assume m: "m < 128"
    have "bit (128 :: 'a word) n \<longleftrightarrow> n = 7" by (rule bit_128_word [OF assms])
    with s [of m n] m show "bit ((ucast (of_nat m :: byte) :: 'a word) AND 128) n = bit (0 :: 'a word) n"
      by (auto simp: bit_and_iff b)
  qed
  show "m < 128 \<Longrightarrow> (ucast (of_nat m :: byte) :: 'a word) = of_nat m"
    by (rule bit_eqI) (auto simp: b bit_of_nat_iff)
  have "m mod 128 + 128 < 256" by simp
  note b' = b [OF this]
  have "bit (128 :: 'a word) 7" unfolding bit_128_word [OF assms] by (rule refl)
  then have "bit ((ucast (of_nat (m mod 128 + 128) :: byte) :: 'a word) AND 128) 7"
    unfolding bit_and_iff b' unfolding add_128 bit_or_iff bit_128 by blast
  then show "(ucast (of_nat (m mod 128 + 128) :: byte) :: 'a word) AND 128 \<noteq> 0" by auto
  show "(ucast (of_nat (m mod 128 + 128) :: byte) :: 'a word) AND 127 = of_nat (m mod 128)"
  proof (rule bit_eqI)
    fix n assume "possible_bit TYPE('a word) n"
    then show "bit ((ucast (of_nat (m mod 128 + 128) :: byte) :: 'a word) AND 127) n = bit (of_nat (m mod 128) :: 'a word) n"
      unfolding 127 bit_and_iff b' unfolding add_128 bit_or_iff bit_128
      by (auto simp: bit_mod_128 bit_mask_iff bit_of_nat_iff)
  qed
qed

lemma or_push:
  assumes "r < 2 ^ sh"
  shows "(of_nat r :: 'a::len word) OR push_bit sh (of_nat m) = of_nat (r + m * 2 ^ sh)"
proof -
  have "r AND push_bit sh m = 0" using assms
    by (intro bit_eqI) (metis bit_0_eq bit_and_iff bit_push_bit_iff bit_take_bit_iff bot_apply bot_bool_def leD take_bit_nat_eq_self)
  then have "r + push_bit sh m = r OR push_bit sh m" by (rule disjunctive_add_eq_or)
  then have "r + m * 2 ^ sh = r OR push_bit sh m" by (simp add: push_bit_eq_mult)
  then show ?thesis by (simp only: of_nat_or_eq push_bit_of_nat)
qed

lemma varint_loop_vbytes:
  assumes "8 \<le> LENGTH('a)" "7 dvd sh" "LENGTH('a) \<le> lim + 7" "r < 2 ^ sh" "r + n * 2 ^ sh < 2 ^ LENGTH('a)" "sh \<le> lim"
    and "\<And>k. 7 dvd k \<Longrightarrow> k < LENGTH('a) \<Longrightarrow> k \<le> lim"
  shows "varint_loop lim sh (of_nat r :: 'a::len word) (vbytes n @ rest) = Some (of_nat (r + n * 2 ^ sh), rest)"
  using assms(2,4-6)
proof (induction n arbitrary: sh r rule: vbytes.induct)
  case (1 n)
  show ?case
  proof (cases "n \<ge> 128")
    case False
    then have "(ucast (of_nat n :: byte) :: 'a word) AND 128 = 0" "(ucast (of_nat n :: byte) :: 'a word) = of_nat n"
      using decoded_byte(1,2) [OF assms(1), of n] by simp_all
    then have "varint_loop lim sh (of_nat r :: 'a word) (of_nat n # rest) = Some (of_nat r OR push_bit sh (of_nat n), rest)"
      using 1(5) by (simp only: varint_loop.simps Let_def if_True if_False simp_thms)
    with False show ?thesis by (simp only: vbytes.simps [of n] if_False append.simps or_push [OF 1(3)])
  next
    case True
    let ?r = "r + n mod 128 * 2 ^ sh"
    have r: "?r < 2 ^ (sh + 7)"
    proof -
      have "?r < 2 ^ sh + n mod 128 * 2 ^ sh" using 1(3) by simp
      also have "\<dots> = (n mod 128 + 1) * 2 ^ sh" by simp
      also have "\<dots> \<le> 128 * 2 ^ sh" by (intro mult_right_mono) simp_all
      finally show ?thesis by (simp add: power_add)
    qed
    have eq: "?r + n div 128 * 2 ^ (sh + 7) = r + n * 2 ^ sh"
    proof -
      have "?r + n div 128 * 2 ^ (sh + 7) = r + (n div 128 * 128 + n mod 128) * 2 ^ sh"
        unfolding power_add add_mult_distrib by simp
      then show ?thesis by (simp only: div_mult_mod_eq)
    qed
    have "2 ^ (sh + 7) \<le> n * 2 ^ sh" using True by (simp add: power_add)
    also have "\<dots> < 2 ^ LENGTH('a)" using 1(4) by simp
    finally have "sh + 7 < LENGTH('a)" by (simp only: power_strict_increasing_iff)
    then have lim: "sh + 7 \<le> lim" using assms(7) 1(2) by simp
    have "varint_loop lim (sh + 7) (of_nat ?r :: 'a word) (vbytes (n div 128) @ rest) = Some (of_nat (r + n * 2 ^ sh), rest)"
      using 1(1) [OF True _ r _ lim] 1(2,4) by (simp add: eq)
    moreover have "varint_loop lim sh (of_nat r :: 'a word) (of_nat (n mod 128 + 128) # vbytes (n div 128) @ rest) =
        varint_loop lim (sh + 7) (of_nat r OR push_bit sh (of_nat (n mod 128))) (vbytes (n div 128) @ rest)"
      using 1(5) decoded_byte(3,4) [OF assms(1), of n] by (simp only: varint_loop.simps Let_def if_True simp_thms)
    ultimately show ?thesis using True by (simp only: vbytes.simps [of n] if_True append.simps or_push [OF 1(3)])
  qed
qed

text \<open>What was put is what is got, and the rest of the input is left.\<close>

lemma GetVarint64_put [simp]: "GetVarint64 (EncodeVarint64 v @ rest) = Some (v, rest)"
  using varint_loop_vbytes [where 'a = 64, of 0 63 0 "unat v" rest] unsigned_less [of v]
  by (simp add: GetVarint64_def GetVarint64Ptr_def EncodeVarint64_vbytes)

lemma GetVarint32Ptr_put [simp]: "GetVarint32Ptr (EncodeVarint32 v @ rest) = Some (v, rest)"
proof -
  have "k \<le> 28" if "7 dvd k" "k < 32" for k :: nat using that by presburger
  then have f: "GetVarint32PtrFallback (vbytes (unat v) @ rest) = Some (v, rest)"
    using varint_loop_vbytes [where 'a = 32, of 0 28 0 "unat v" rest] unsigned_less [of v]
    by (simp add: GetVarint32PtrFallback_def)
  show ?thesis
  proof (cases "unat v < 128")
    case True
    then have "(ucast (ucast v :: byte) :: u32) AND 128 = 0" "(ucast (ucast v :: byte) :: u32) = v"
      using decoded_byte(1,2) [where 'a = 32, of "unat v"] by simp_all
    with True show ?thesis by (simp only: GetVarint32Ptr_def EncodeVarint32_vbytes vbytes.simps [of "unat v"] Let_def) simp
  next
    case False
    then show ?thesis using f
      by (simp add: GetVarint32Ptr_def EncodeVarint32_vbytes vbytes.simps [of "unat v"] decoded_byte(3) [where 'a = 32, simplified])
  qed
qed

lemma GetVarint32_put [simp]: "GetVarint32 (EncodeVarint32 v @ rest) = Some (v, rest)"
  by (simp add: GetVarint32_def)

lemma GetLengthPrefixedSlice_put [simp]:
  assumes "length s < 2 ^ 32"
  shows "GetLengthPrefixedSlice (PutLengthPrefixedSlice [] s @ rest) = Some (s, rest)"
    "GetLengthPrefixedSlicePtr (PutLengthPrefixedSlice [] s @ rest) = Some (s, rest)"
  using unat_of_nat_len [OF assms]
  by (simp_all add: GetLengthPrefixedSlice_def GetLengthPrefixedSlicePtr_def PutLengthPrefixedSlice_def PutVarint32_def)

lemma Put_onto: "PutVarint32 dst v = dst @ PutVarint32 [] v" "PutLengthPrefixedSlice dst s = dst @ PutLengthPrefixedSlice [] s"
  by (simp_all add: PutVarint32_def PutLengthPrefixedSlice_def)

end
