(* ===== verification/Ldb_Env.thy ===== *)
theory Ldb_Env
  imports Prelude "HOL-Library.Sublist"
begin

text \<open>
  The files of LevelDB, \<^verbatim>\<open>database/leveldb/util/env_posix.cc\<close>, and its \<^verbatim>\<open>Status\<close>, \<^verbatim>\<open>util/status.cc\<close>. What the
  kernel answers is data of the model: a file carries the list of answers to its next calls of \<^verbatim>\<open>write\<close> or
  \<^verbatim>\<open>read\<close>, a short count, an interruption by a signal or an error with its number and text. When the list is used up
  a call is served in full. So a call can be interrupted any number of times, but not for ever.
\<close>

section \<open>Status\<close>

datatype ldb_code = kNotFound | kCorruption | kNotSupported | kInvalidArgument | kIOError

datatype ldb_status = Status_OK | Status ldb_code string

definition Status_make :: "ldb_code \<Rightarrow> string \<Rightarrow> string \<Rightarrow> ldb_status" where
  "Status_make code msg msg2 = Status code (msg @ (if msg2 \<noteq> [] then '': '' @ msg2 else []))"

definition status_ok :: "ldb_status \<Rightarrow> bool" where
  "status_ok s \<longleftrightarrow> s = Status_OK"

definition Status_ToString :: "ldb_status \<Rightarrow> string" where
  "Status_ToString s =
     (case s of Status_OK \<Rightarrow> ''OK''
      | Status code msg \<Rightarrow>
          (case code of kNotFound \<Rightarrow> ''NotFound: '' | kCorruption \<Rightarrow> ''Corruption: '' | kNotSupported \<Rightarrow> ''Not implemented: ''
           | kInvalidArgument \<Rightarrow> ''Invalid argument: '' | kIOError \<Rightarrow> ''IO error: '') @ msg)"

text \<open>An error of the kernel: its number and the text \<^verbatim>\<open>strerror\<close> has for it.\<close>

type_synonym errno = "int \<times> string"

definition ENOENT :: int where
  "ENOENT = 2"

definition PosixError :: "string \<Rightarrow> errno \<Rightarrow> ldb_status" where
  "PosixError context error_number =
     (if fst error_number = ENOENT then Status_make kNotFound context (snd error_number)
      else Status_make kIOError context (snd error_number))"

section \<open>Limiter\<close>

text \<open>
  The two halves of \<^verbatim>\<open>Acquire\<close>, which other threads may run between: the value \<^verbatim>\<open>fetch_sub\<close> returns and the counter it
  leaves, and what the thread does with that value. The counter is a \<^verbatim>\<open>std::atomic<int>\<close>, which wraps around.
\<close>

definition Acquire_sub :: "32 word \<Rightarrow> 32 word \<times> 32 word" where
  "Acquire_sub acquires_allowed = (acquires_allowed, acquires_allowed - 1)"

definition Acquire_end :: "32 word \<Rightarrow> 32 word \<Rightarrow> 32 word \<times> bool" where
  "Acquire_end old_acquires_allowed acquires_allowed =
     (if 0 <s old_acquires_allowed then (acquires_allowed, True) else (acquires_allowed + 1, False))"

definition limiter_Release :: "32 word \<Rightarrow> 32 word" where
  "limiter_Release acquires_allowed = acquires_allowed + 1"

text \<open>Where a thread is in \<^verbatim>\<open>Acquire\<close>, and the steps of the threads on a limiter they share.\<close>

datatype limiter_pc = Idle | Subtracted "32 word" | Holding

record limiter =
  acquires_allowed :: "32 word"
  users :: "limiter_pc list"

inductive limiter_step :: "limiter \<Rightarrow> limiter \<Rightarrow> bool" where
  sub: "i < length (users s) \<Longrightarrow> users s ! i = Idle \<Longrightarrow> Acquire_sub (acquires_allowed s) = (old, n) \<Longrightarrow>
    limiter_step s (s\<lparr>acquires_allowed := n, users := (users s)[i := Subtracted old]\<rparr>)"
| got: "i < length (users s) \<Longrightarrow> users s ! i = Subtracted old \<Longrightarrow> Acquire_end old (acquires_allowed s) = (n, ok) \<Longrightarrow>
    limiter_step s (s\<lparr>acquires_allowed := n, users := (users s)[i := if ok then Holding else Idle]\<rparr>)"
| rel: "i < length (users s) \<Longrightarrow> users s ! i = Holding \<Longrightarrow>
    limiter_step s (s\<lparr>acquires_allowed := limiter_Release (acquires_allowed s), users := (users s)[i := Idle]\<rparr>)"

definition limiter_init :: "32 word \<Rightarrow> nat \<Rightarrow> limiter" where
  "limiter_init max_acquires threads = \<lparr>acquires_allowed = max_acquires, users = replicate threads Idle\<rparr>"

section \<open>PosixSequentialFile\<close>

datatype read_reply = Read_eintr | Read_error errno

record sequential_file =
  sf_name :: string
  sf_content :: bytes
  sf_pos :: nat
  sf_reads :: "read_reply list"
  sf_lseek :: "errno option"

text \<open>One call of \<^verbatim>\<open>read\<close> on a regular file: what is left, at most \<open>n\<close> bytes.\<close>

definition sf_read :: "nat \<Rightarrow> sequential_file \<Rightarrow> sequential_file \<times> bytes" where
  "sf_read n f =
     (let d = take n (drop (sf_pos f) (sf_content f)) in (f\<lparr>sf_pos := sf_pos f + length d\<rparr>, d))"

fun SequentialFile_Read_loop :: "read_reply list \<Rightarrow> nat \<Rightarrow> sequential_file \<Rightarrow> sequential_file \<times> ldb_status \<times> bytes" where
  "SequentialFile_Read_loop [] n f = (let (f, d) = sf_read n f in (f\<lparr>sf_reads := []\<rparr>, Status_OK, d))"
| "SequentialFile_Read_loop (Read_eintr # rs) n f = SequentialFile_Read_loop rs n f"
| "SequentialFile_Read_loop (Read_error e # rs) n f = (f\<lparr>sf_reads := rs\<rparr>, PosixError (sf_name f) e, [])"

text \<open>On an error the slice of the caller is left as it was; the callers here pass an empty one.\<close>

definition SequentialFile_Read :: "nat \<Rightarrow> sequential_file \<Rightarrow> sequential_file \<times> ldb_status \<times> bytes" where
  "SequentialFile_Read n f = SequentialFile_Read_loop (sf_reads f) n f"

definition SequentialFile_Skip :: "nat \<Rightarrow> sequential_file \<Rightarrow> sequential_file \<times> ldb_status" where
  "SequentialFile_Skip n f =
     (case sf_lseek f of Some e \<Rightarrow> (f, PosixError (sf_name f) e) | None \<Rightarrow> (f\<lparr>sf_pos := sf_pos f + n\<rparr>, Status_OK))"

section \<open>PosixWritableFile\<close>

definition kWritableFileBufferSize :: nat where
  "kWritableFileBufferSize = 65536"

datatype write_reply = Wrote nat | Write_eintr | Write_error errno

text \<open>\<open>wf_file\<close> is what the kernel has of the file, \<open>wf_synced\<close> how much of it was made durable, \<open>wf_buf\<close> is \<^verbatim>\<open>buf_[0, pos_ - 1]\<close>.\<close>

record writable_file =
  wf_name :: string
  wf_file :: bytes
  wf_synced :: nat
  wf_buf :: bytes
  wf_open :: bool
  wf_writes :: "write_reply list"

definition Dirname :: "string \<Rightarrow> string" where
  "Dirname filename = (if CHR ''/'' \<notin> set filename then ''.'' else rev (tl (dropWhile (\<lambda>c. c \<noteq> CHR ''/'') (rev filename))))"

definition Basename :: "string \<Rightarrow> string" where
  "Basename filename = rev (takeWhile (\<lambda>c. c \<noteq> CHR ''/'') (rev filename))"

definition IsManifest :: "string \<Rightarrow> bool" where
  "IsManifest filename \<longleftrightarrow> take 8 (Basename filename) = ''MANIFEST''"

fun write_loop :: "write_reply list \<Rightarrow> bytes \<Rightarrow> writable_file \<Rightarrow> writable_file \<times> ldb_status" where
  "write_loop rs [] f = (f\<lparr>wf_writes := rs\<rparr>, Status_OK)"
| "write_loop [] (b # d) f = (f\<lparr>wf_writes := [], wf_file := wf_file f @ b # d\<rparr>, Status_OK)"
| "write_loop (Wrote n # rs) (b # d) f =
     write_loop rs (drop n (b # d)) (f\<lparr>wf_file := wf_file f @ take n (b # d)\<rparr>)"
| "write_loop (Write_eintr # rs) (b # d) f = write_loop rs (b # d) f"
| "write_loop (Write_error e # rs) (b # d) f = (f\<lparr>wf_writes := rs\<rparr>, PosixError (wf_name f) e)"

definition WriteUnbuffered :: "bytes \<Rightarrow> writable_file \<Rightarrow> writable_file \<times> ldb_status" where
  "WriteUnbuffered data f = write_loop (wf_writes f) data f"

definition FlushBuffer :: "writable_file \<Rightarrow> writable_file \<times> ldb_status" where
  "FlushBuffer f = (let (f, status) = WriteUnbuffered (wf_buf f) f in (f\<lparr>wf_buf := []\<rparr>, status))"

definition wf_Append :: "bytes \<Rightarrow> writable_file \<Rightarrow> writable_file \<times> ldb_status" where
  "wf_Append data f =
     (let copy_size = min (length data) (kWritableFileBufferSize - length (wf_buf f));
          f = f\<lparr>wf_buf := wf_buf f @ take copy_size data\<rparr>;
          data = drop copy_size data
      in if data = [] then (f, Status_OK)
         else
           let (f, status) = FlushBuffer f
           in if \<not> status_ok status then (f, status)
              else if length data < kWritableFileBufferSize then (f\<lparr>wf_buf := data\<rparr>, Status_OK)
              else WriteUnbuffered data f)"

definition wf_Flush :: "writable_file \<Rightarrow> writable_file \<times> ldb_status" where
  "wf_Flush f = FlushBuffer f"

definition wf_Close :: "errno option \<Rightarrow> writable_file \<Rightarrow> writable_file \<times> ldb_status" where
  "wf_Close close_result f =
     (let (f, status) = FlushBuffer f;
          status = (case close_result of Some e \<Rightarrow> if status_ok status then PosixError (wf_name f) e else status | None \<Rightarrow> status)
      in (f\<lparr>wf_open := False\<rparr>, status))"

text \<open>What \<^verbatim>\<open>fsync\<close>, or the call that stands for it, makes durable.\<close>

definition SyncFd :: "errno option \<Rightarrow> string \<Rightarrow> ldb_status" where
  "SyncFd sync_result fd_path = (case sync_result of None \<Rightarrow> Status_OK | Some e \<Rightarrow> PosixError fd_path e)"

definition SyncDirIfManifest :: "errno option \<Rightarrow> errno option \<Rightarrow> writable_file \<Rightarrow> ldb_status" where
  "SyncDirIfManifest open_result sync_result f =
     (if \<not> IsManifest (wf_name f) then Status_OK
      else case open_result of
             Some e \<Rightarrow> PosixError (Dirname (wf_name f)) e
           | None \<Rightarrow> SyncFd sync_result (Dirname (wf_name f)))"

definition wf_Sync :: "errno option \<Rightarrow> errno option \<Rightarrow> errno option \<Rightarrow> writable_file \<Rightarrow> writable_file \<times> ldb_status" where
  "wf_Sync open_result dir_sync_result sync_result f =
     (let status = SyncDirIfManifest open_result dir_sync_result f
      in if \<not> status_ok status then (f, status)
         else
           let (f, status) = FlushBuffer f
           in if \<not> status_ok status then (f, status)
              else
                let status = SyncFd sync_result (wf_name f)
                in (if status_ok status then f\<lparr>wf_synced := length (wf_file f)\<rparr> else f, status))"

section \<open>A limiter is never over-used\<close>

definition busy :: "limiter_pc \<Rightarrow> int" where
  "busy p = (case p of Idle \<Rightarrow> 0 | Subtracted _ \<Rightarrow> 1 | Holding \<Rightarrow> 1)"

definition granted :: "limiter_pc \<Rightarrow> int" where
  "granted p = (case p of Idle \<Rightarrow> 0 | Subtracted old \<Rightarrow> if 0 <s old then 1 else 0 | Holding \<Rightarrow> 1)"

definition holders :: "limiter \<Rightarrow> nat" where
  "holders s = length (filter (\<lambda>p. p = Holding) (users s))"

definition limiter_inv :: "32 word \<Rightarrow> limiter \<Rightarrow> bool" where
  "limiter_inv m s \<longleftrightarrow> length (users s) \<le> 2 ^ 31 \<and> sint (acquires_allowed s) = sint m - sum_list (map busy (users s)) \<and>
     sum_list (map granted (users s)) \<le> sint m"

lemma sum_list_map_update:
  "i < length xs \<Longrightarrow> sum_list (map f (xs[i := x])) = sum_list (map f xs) - f (xs ! i) + (f x :: int)"
  by (induction xs arbitrary: i) (auto simp: nth_Cons' less_Suc_eq_0_disj split: nat.splits)

lemma granted_le_busy: "sum_list (map granted us) \<le> sum_list (map busy us)"
  by (rule sum_list_mono) (simp add: granted_def busy_def split: limiter_pc.splits)

lemma busy_le: "sum_list (map busy us) \<le> int (length us)"
  by (induction us) (auto simp: busy_def split: limiter_pc.splits)

lemma sint_32: "- (2 ^ 31) \<le> sint (w :: 32 word)" "sint (w :: 32 word) < 2 ^ 31"
  using sint_greater_eq [of w] sint_less [of w] by simp_all

lemma sint_step:
  "- (2 ^ 31) < sint (w :: 32 word) \<Longrightarrow> sint (w - 1) = sint w - 1" "sint (w :: 32 word) < 2 ^ 31 - 1 \<Longrightarrow> sint (w + 1) = sint w + 1"
  using sint_32 [of w] by (auto simp: sint_word_ariths signed_take_bit_int_eq_self)

lemma limiter_step_inv:
  assumes "limiter_step s s'" "limiter_inv m s"
  shows "limiter_inv m s'"
  using assms
proof (induction rule: limiter_step.induct)
  case (sub i s old n)
  let ?us = "(users s)[i := Subtracted old]"
  have b: "sum_list (map busy ?us) = sum_list (map busy (users s)) + 1" "sum_list (map busy ?us) \<le> 2 ^ 31"
    using sub(1,2,4) busy_le [of ?us] by (simp_all add: sum_list_map_update busy_def limiter_inv_def)
  have "0 \<le> sum_list (map granted (users s))" by (rule sum_list_nonneg) (auto simp: granted_def split: limiter_pc.splits)
  then have "- (2 ^ 31) < sint (acquires_allowed s)" using b sub(4) by (simp add: limiter_inv_def)
  from sint_step(1) [OF this] show ?case
    using sub b(1) granted_le_busy [of "users s"]
    by (auto simp: limiter_inv_def Acquire_sub_def sum_list_map_update granted_def busy_def word_sless_alt)
next
  case (got i s old n ok)
  have "busy (users s ! i) \<le> sum_list (map busy (users s))"
    using got(1) by (intro member_le_sum_list) (auto simp: busy_def split: limiter_pc.splits)
  then have "sint (acquires_allowed s) < 2 ^ 31 - 1" using got(2,4) sint_32 [of m] by (simp add: limiter_inv_def busy_def)
  from sint_step(2) [OF this] show ?case using got
    by (auto simp: limiter_inv_def Acquire_end_def sum_list_map_update busy_def granted_def split: if_splits)
next
  case (rel i s)
  have "busy (users s ! i) \<le> sum_list (map busy (users s))"
    using rel(1) by (intro member_le_sum_list) (auto simp: busy_def split: limiter_pc.splits)
  then have "sint (acquires_allowed s) < 2 ^ 31 - 1" using rel(2,3) sint_32 [of m] by (simp add: limiter_inv_def busy_def)
  from sint_step(2) [OF this] show ?case using rel
    by (auto simp: limiter_inv_def limiter_Release_def sum_list_map_update busy_def granted_def)
qed

lemma limiter_steps_inv: "limiter_step\<^sup>*\<^sup>* s s' \<Longrightarrow> limiter_inv m s \<Longrightarrow> limiter_inv m s'"
  by (induction rule: rtranclp_induct) (auto intro: limiter_step_inv)

lemma holders_le: "int (holders s) \<le> sum_list (map granted (users s))"
proof -
  have "int (length (filter (\<lambda>p. p = Holding) us)) \<le> sum_list (map granted us)" for us
    by (induction us) (auto simp: granted_def split: limiter_pc.splits)
  then show ?thesis by (simp add: holders_def)
qed

lemma limiter_init_inv: "0 \<le> sint m \<Longrightarrow> n \<le> 2 ^ 31 \<Longrightarrow> limiter_inv m (limiter_init m n)"
  by (simp add: limiter_inv_def limiter_init_def busy_def granted_def sum_list_replicate)

text \<open>
  C40: However the threads that share a limiter interleave the two atomic steps of acquiring and the releasing, no more of them hold a
  resource at once than the limit allows. The counter is a 32 bit integer; with at most \<open>2 ^ 31\<close> threads it does not wrap around.
\<close>

theorem limiter_bound:
  "0 \<le> sint m \<Longrightarrow> n \<le> 2 ^ 31 \<Longrightarrow> limiter_step\<^sup>*\<^sup>* (limiter_init m n) s \<Longrightarrow> int (holders s) \<le> sint m"
  using limiter_steps_inv [OF _ limiter_init_inv] holders_le [of s] by (fastforce simp: limiter_inv_def)

text \<open>Two threads and one resource: the first takes it, while the second has already subtracted and will be refused.\<close>

theorem limiter_bound_witness:
  "\<exists>s. limiter_step\<^sup>*\<^sup>* (limiter_init 1 2) s \<and> users s = [Holding, Subtracted 0] \<and> int (holders s) \<le> sint (1 :: 32 word) \<and>
    Acquire_end 0 (acquires_allowed s) = (0, False)"
proof -
  let ?s1 = "\<lparr>acquires_allowed = 0, users = [Subtracted 1, Idle]\<rparr>" and ?s2 = "\<lparr>acquires_allowed = - 1, users = [Subtracted 1, Subtracted 0]\<rparr>"
  have "limiter_step (limiter_init 1 2) ?s1"
    using limiter_step.sub [of 0 "limiter_init 1 2" 1 0] by (simp add: limiter_init_def Acquire_sub_def numeral_2_eq_2)
  moreover have "limiter_step ?s1 ?s2" using limiter_step.sub [of 1 ?s1 0 "- 1"] by (simp add: Acquire_sub_def)
  moreover have "limiter_step ?s2 \<lparr>acquires_allowed = - 1, users = [Holding, Subtracted 0]\<rparr>"
    using limiter_step.got [of 0 ?s2 1 "- 1" True] by (simp add: Acquire_end_def word_sless_alt)
  ultimately have r: "limiter_step\<^sup>*\<^sup>* (limiter_init 1 2) \<lparr>acquires_allowed = - 1, users = [Holding, Subtracted 0]\<rparr>" by simp
  show ?thesis using r limiter_bound [OF _ _ r]
    by (intro exI [of _ "\<lparr>acquires_allowed = - 1, users = [Holding, Subtracted 0]\<rparr>"]) (simp add: Acquire_end_def)
qed

section \<open>Files that are appended to\<close>

text \<open>What the caller has appended: the part the kernel has and the part in the buffer.\<close>

definition appended :: "writable_file \<Rightarrow> bytes" where
  "appended f = wf_file f @ wf_buf f"

lemma PosixError_not_ok [simp]: "\<not> status_ok (PosixError context e)"
  by (simp add: PosixError_def status_ok_def Status_make_def)

lemma write_loop_spec:
  "write_loop rs d f = (f', s) \<Longrightarrow> prefix (wf_file f) (wf_file f') \<and> prefix (wf_file f') (wf_file f @ d) \<and> wf_buf f' = wf_buf f \<and>
     wf_synced f' = wf_synced f \<and> wf_name f' = wf_name f \<and> wf_open f' = wf_open f \<and> (status_ok s \<longrightarrow> wf_file f' = wf_file f @ d)"
proof (induction rs d f rule: write_loop.induct)
  case (3 n rs b d f)
  then show ?case by (auto elim: prefix_order.trans [rotated])
qed auto

lemma WriteUnbuffered_no_replies: "wf_writes f = [] \<Longrightarrow> WriteUnbuffered d f = (f\<lparr>wf_file := wf_file f @ d\<rparr>, Status_OK)"
  by (cases d) (simp_all add: WriteUnbuffered_def)

lemma FlushBuffer_spec:
  assumes "FlushBuffer f = (f', s)"
  shows "wf_buf f' = []" "wf_synced f' = wf_synced f" "wf_name f' = wf_name f" "wf_open f' = wf_open f"
    "prefix (wf_file f') (appended f)" "prefix (wf_file f) (wf_file f')" "status_ok s \<Longrightarrow> wf_file f' = appended f"
  using assms write_loop_spec unfolding FlushBuffer_def WriteUnbuffered_def appended_def
  by (fastforce split: prod.splits)+

lemma wf_Append_small:
  assumes "length (wf_buf f) + length d \<le> kWritableFileBufferSize"
  shows "wf_Append d f = (f\<lparr>wf_buf := wf_buf f @ d\<rparr>, Status_OK)"
  using assms by (simp add: wf_Append_def Let_def)

text \<open>
  Every operation keeps what was appended before it in front. When an operation reports success, all that was given to it is
  appended; when it fails, the file the kernel has is cut off somewhere.
\<close>

lemma WriteUnbuffered_spec:
  assumes "WriteUnbuffered d f = (f', s)"
  shows "wf_buf f' = wf_buf f" "wf_synced f' = wf_synced f" "wf_name f' = wf_name f" "wf_open f' = wf_open f"
    "prefix (wf_file f') (wf_file f @ d)" "prefix (wf_file f) (wf_file f')" "status_ok s \<Longrightarrow> wf_file f' = wf_file f @ d"
  using assms write_loop_spec unfolding WriteUnbuffered_def
  by (fastforce simp: take_is_prefix)+

lemma wf_Append_cases:
  obtains (buffered) "wf_Append d f = (f\<lparr>wf_buf := wf_buf f @ d\<rparr>, Status_OK)"
  | (failed) k g s where "FlushBuffer (f\<lparr>wf_buf := wf_buf f @ take k d\<rparr>) = (g, s)" "\<not> status_ok s" "wf_Append d f = (g, s)"
  | (rest) k g s where "FlushBuffer (f\<lparr>wf_buf := wf_buf f @ take k d\<rparr>) = (g, s)" "status_ok s"
      "wf_Append d f = (g\<lparr>wf_buf := drop k d\<rparr>, Status_OK)"
  | (direct) k g s where "FlushBuffer (f\<lparr>wf_buf := wf_buf f @ take k d\<rparr>) = (g, s)" "status_ok s" "wf_Append d f = WriteUnbuffered (drop k d) g"
proof -
  let ?k = "min (length d) (kWritableFileBufferSize - length (wf_buf f))"
  obtain g s where g: "FlushBuffer (f\<lparr>wf_buf := wf_buf f @ take ?k d\<rparr>) = (g, s)" by fastforce
  show thesis
  proof (cases "drop ?k d = []")
    case True
    then show thesis by (intro buffered) (simp add: wf_Append_def Let_def)
  next
    case False
    then have a: "wf_Append d f = (if \<not> status_ok s then (g, s)
        else if length (drop ?k d) < kWritableFileBufferSize then (g\<lparr>wf_buf := drop ?k d\<rparr>, Status_OK) else WriteUnbuffered (drop ?k d) g)"
      unfolding wf_Append_def Let_def g by simp
    consider "\<not> status_ok s" | "status_ok s" "length (drop ?k d) < kWritableFileBufferSize"
      | "status_ok s" "\<not> length (drop ?k d) < kWritableFileBufferSize" by blast
    then show thesis using a by cases (simp_all only: not_not if_True if_False failed [OF g] rest [OF g] direct [OF g] simp_thms)
  qed
qed

lemma wf_Append_spec:
  assumes a: "wf_Append d f = (f', s)"
  shows "wf_synced f' = wf_synced f" "wf_name f' = wf_name f" "wf_open f' = wf_open f"
    "status_ok s \<Longrightarrow> appended f' = appended f @ d" "prefix (wf_file f') (appended f @ d)" "prefix (wf_file f) (wf_file f')"
proof -
  have "wf_synced f' = wf_synced f \<and> wf_name f' = wf_name f \<and> wf_open f' = wf_open f \<and> (status_ok s \<longrightarrow> appended f' = appended f @ d) \<and>
      prefix (wf_file f') (appended f @ d) \<and> prefix (wf_file f) (wf_file f')"
  proof (cases d f rule: wf_Append_cases)
    case buffered
    then show ?thesis using a by (auto simp: appended_def)
  next
    case (failed k g t)
    then show ?thesis using a FlushBuffer_spec(2-6) [OF failed(1)]
      by (auto simp: appended_def take_is_prefix elim: prefix_order.trans)
  next
    case (rest k g t)
    then show ?thesis using a FlushBuffer_spec(2-4,7) [OF rest(1)] by (auto simp: appended_def take_is_prefix)
  next
    case (direct k g t)
    then have "WriteUnbuffered (drop k d) g = (f', s)" using a by simp
    note w = WriteUnbuffered_spec [OF this]
    show ?thesis using direct w FlushBuffer_spec(1-4,6,7) [OF direct(1)]
      by (auto simp: appended_def dest: append_prefixD)
  qed
  then show "wf_synced f' = wf_synced f" "wf_name f' = wf_name f" "wf_open f' = wf_open f"
    "status_ok s \<Longrightarrow> appended f' = appended f @ d" "prefix (wf_file f') (appended f @ d)" "prefix (wf_file f) (wf_file f')"
    by blast+
qed

lemma wf_Sync_ok:
  assumes "wf_Sync o_res d_res s_res f = (f', s)" "status_ok s"
  shows "wf_file f' = appended f" "wf_buf f' = []" "wf_synced f' = length (wf_file f')"
  using assms FlushBuffer_spec(1,7) by (auto simp: wf_Sync_def Let_def split: if_splits prod.splits)

end
