(* ===== verification/Ldb_Log.thy ===== *)
theory Ldb_Log
  imports Ldb_Crc Ldb_Env
begin

text \<open>
  The write-ahead log of LevelDB, \<^verbatim>\<open>database/leveldb/db/log_format.h\<close>, \<^verbatim>\<open>log_writer.cc\<close> and \<^verbatim>\<open>log_reader.cc\<close>. A
  record is cut into fragments that never cross a block of 32768 bytes. The reports that the reader makes of what it drops are
  collected in the reader. The addresses of the buffers that are checksummed are kept, since the checksum routine looks at
  them.
\<close>

unbundle bit_operations_syntax

section \<open>Format\<close>

datatype RecordType = kZeroType | kFullType | kFirstType | kMiddleType | kLastType

definition record_type_code :: "RecordType \<Rightarrow> nat" where
  "record_type_code t = (case t of kZeroType \<Rightarrow> 0 | kFullType \<Rightarrow> 1 | kFirstType \<Rightarrow> 2 | kMiddleType \<Rightarrow> 3 | kLastType \<Rightarrow> 4)"

definition kMaxRecordType :: nat where
  "kMaxRecordType = 4"

definition kBlockSize :: nat where
  "kBlockSize = 32768"

definition kHeaderSize :: nat where
  "kHeaderSize = 4 + 2 + 1"

type_synonym crc_lib = "(u32 \<Rightarrow> bytes \<Rightarrow> u32) option"

section \<open>Writer\<close>

record log_writer =
  lw_dest :: writable_file
  lw_block_offset :: nat
  lw_type_crc :: "u32 list"

definition InitTypeCrc :: "crc_lib \<Rightarrow> nat \<Rightarrow> u32 list" where
  "InitTypeCrc lib t_addr = map (\<lambda>i. Value lib t_addr [of_nat i]) [0..<Suc kMaxRecordType]"

text \<open>The two constructors: a new file, and a file that has \<open>dest_length\<close> bytes.\<close>

definition Writer :: "crc_lib \<Rightarrow> nat \<Rightarrow> writable_file \<Rightarrow> log_writer" where
  "Writer lib t_addr dest = \<lparr>lw_dest = dest, lw_block_offset = 0, lw_type_crc = InitTypeCrc lib t_addr\<rparr>"

definition Writer_at :: "crc_lib \<Rightarrow> nat \<Rightarrow> writable_file \<Rightarrow> nat \<Rightarrow> log_writer" where
  "Writer_at lib t_addr dest dest_length =
     \<lparr>lw_dest = dest, lw_block_offset = dest_length mod kBlockSize, lw_type_crc = InitTypeCrc lib t_addr\<rparr>"

definition EmitPhysicalRecord :: "crc_lib \<Rightarrow> RecordType \<Rightarrow> nat \<Rightarrow> bytes \<Rightarrow> log_writer \<Rightarrow> log_writer \<times> ldb_status" where
  "EmitPhysicalRecord lib t ptr data w =
     (let n = length data;
          crc = Extend lib (lw_type_crc w ! record_type_code t) ptr data;
          crc = Mask crc;
          buf = EncodeFixed32 crc @ [of_nat (n AND 0xff), of_nat (drop_bit 8 n), of_nat (record_type_code t)];
          (f, s) = wf_Append buf (lw_dest w);
          (f, s) = (if status_ok s
                    then let (f, s) = wf_Append data f in if status_ok s then wf_Flush f else (f, s)
                    else (f, s))
      in (w\<lparr>lw_dest := f, lw_block_offset := lw_block_offset w + (kHeaderSize + n)\<rparr>, s))"

text \<open>One round of the loop of \<^verbatim>\<open>AddRecord\<close>: the writer, the status and how much of the data is in the fragment.\<close>

definition switch_block :: "log_writer \<Rightarrow> log_writer" where
  "switch_block w =
     (let leftover = kBlockSize - lw_block_offset w
      in if leftover < kHeaderSize
         then (if leftover > 0 then w\<lparr>lw_dest := fst (wf_Append (replicate leftover 0) (lw_dest w))\<rparr> else w)\<lparr>lw_block_offset := 0\<rparr>
         else w)"

definition fragment_type :: "bool \<Rightarrow> bool \<Rightarrow> RecordType" where
  "fragment_type first final =
     (if first \<and> final then kFullType else if first then kFirstType else if final then kLastType else kMiddleType)"

definition add_fragment :: "crc_lib \<Rightarrow> bool \<Rightarrow> nat \<Rightarrow> bytes \<Rightarrow> log_writer \<Rightarrow> log_writer \<times> ldb_status \<times> nat" where
  "add_fragment lib first ptr left w =
     (let w = switch_block w;
          avail = kBlockSize - lw_block_offset w - kHeaderSize;
          fragment_length = (if length left < avail then length left else avail);
          t = fragment_type first (length left = fragment_length);
          (w, s) = EmitPhysicalRecord lib t ptr (take fragment_length left) w
      in (w, s, fragment_length))"

lemma block_offset_switch: "lw_block_offset (switch_block w) = (if kBlockSize - lw_block_offset w < kHeaderSize then 0 else lw_block_offset w)"
  by (simp add: switch_block_def Let_def)

lemma block_offset_Emit: "lw_block_offset (fst (EmitPhysicalRecord lib t ptr data w)) = lw_block_offset w + (kHeaderSize + length data)"
  by (simp add: EmitPhysicalRecord_def Let_def split: prod.splits)

definition avail_in :: "log_writer \<Rightarrow> nat" where
  "avail_in w = kBlockSize - lw_block_offset (switch_block w) - kHeaderSize"

lemma add_fragment_length:
  assumes "add_fragment lib first ptr left w = (w', s, n)"
  shows "n = min (length left) (avail_in w)" "lw_block_offset w' = lw_block_offset (switch_block w) + (kHeaderSize + n)"
proof -
  let ?n = "min (length left) (avail_in w)"
  let ?e = "EmitPhysicalRecord lib (fragment_type first (length left = ?n)) ptr (take ?n left) (switch_block w)"
  have "add_fragment lib first ptr left w = (fst ?e, snd ?e, ?n)"
    by (simp add: add_fragment_def Let_def avail_in_def min_def split: prod.splits)
  then show "n = ?n" "lw_block_offset w' = lw_block_offset (switch_block w) + (kHeaderSize + n)"
    using assms by (auto simp: block_offset_Emit)
qed

lemma add_fragment_progress:
  assumes "add_fragment lib first ptr left w = (w', s, n)" "drop n left \<noteq> []"
  shows "0 < n \<or> (lw_block_offset w = kBlockSize - kHeaderSize \<and> lw_block_offset w' = kBlockSize)"
  using assms(2) add_fragment_length [OF assms(1)]
  by (auto simp: avail_in_def block_offset_switch kBlockSize_def kHeaderSize_def split: if_splits)

function AddRecord_loop :: "crc_lib \<Rightarrow> bool \<Rightarrow> nat \<Rightarrow> bytes \<Rightarrow> log_writer \<Rightarrow> log_writer \<times> ldb_status" where
  "AddRecord_loop lib first ptr left w =
     (let (w', s, n) = add_fragment lib first ptr left w
      in if status_ok s \<and> drop n left \<noteq> [] then AddRecord_loop lib False (ptr + n) (drop n left) w' else (w', s))"
  by pat_completeness auto
termination
proof (relation "measure (\<lambda>(lib, first, ptr, left, w). 2 * length left + (if lw_block_offset w = kBlockSize - kHeaderSize then 1 else 0))", goal_cases)
  case (2 lib first ptr left w x w' y s n)
  then have "add_fragment lib first ptr left w = (w', s, n)" "drop n left \<noteq> []" by simp_all
  from add_fragment_progress [OF this] this(2) show ?case by (auto simp: kBlockSize_def kHeaderSize_def)
qed simp

declare AddRecord_loop.simps [simp del]

definition AddRecord :: "crc_lib \<Rightarrow> nat \<Rightarrow> bytes \<Rightarrow> log_writer \<Rightarrow> log_writer \<times> ldb_status" where
  "AddRecord lib ptr data w = AddRecord_loop lib True ptr data w"

section \<open>Reader\<close>

record log_reader =
  lr_file :: sequential_file
  lr_reporter :: bool
  lr_reports :: "(nat \<times> ldb_status) list"
  lr_checksum :: bool
  lr_store :: nat
  lr_buffer :: bytes
  lr_buffer_data :: nat
  lr_eof :: bool
  lr_last_offset :: u64
  lr_end_offset :: u64
  lr_initial_offset :: u64
  lr_resyncing :: bool

definition Reader :: "sequential_file \<Rightarrow> bool \<Rightarrow> bool \<Rightarrow> u64 \<Rightarrow> nat \<Rightarrow> log_reader" where
  "Reader file reporter checksum initial_offset store =
     \<lparr>lr_file = file, lr_reporter = reporter, lr_reports = [], lr_checksum = checksum, lr_store = store,
      lr_buffer = [], lr_buffer_data = 0, lr_eof = False, lr_last_offset = 0, lr_end_offset = 0,
      lr_initial_offset = initial_offset, lr_resyncing = (initial_offset > 0)\<rparr>"

definition ReportDrop :: "nat \<Rightarrow> ldb_status \<Rightarrow> log_reader \<Rightarrow> log_reader" where
  "ReportDrop n reason r =
     (if lr_reporter r \<and> lr_end_offset r - of_nat (length (lr_buffer r)) - of_nat n \<ge> lr_initial_offset r
      then r\<lparr>lr_reports := lr_reports r @ [(n, reason)]\<rparr> else r)"

definition ReportCorruption :: "nat \<Rightarrow> string \<Rightarrow> log_reader \<Rightarrow> log_reader" where
  "ReportCorruption n reason r = ReportDrop n (Status_make kCorruption reason []) r"

definition SkipToInitialBlock :: "log_reader \<Rightarrow> log_reader \<times> bool" where
  "SkipToInitialBlock r =
     (let offset_in_block = lr_initial_offset r mod of_nat kBlockSize;
          block_start_location = lr_initial_offset r - offset_in_block;
          block_start_location = (if offset_in_block > of_nat (kBlockSize - 6) then block_start_location + of_nat kBlockSize
                                  else block_start_location);
          r = r\<lparr>lr_end_offset := block_start_location\<rparr>
      in if block_start_location > 0
         then
           let (f, skip_status) = SequentialFile_Skip (unat block_start_location) (lr_file r);
               r = r\<lparr>lr_file := f\<rparr>
           in if \<not> status_ok skip_status then (ReportDrop (unat block_start_location) skip_status r, False)
              else (r, True)
         else (r, True))"

definition kEof :: u32 where
  "kEof = of_nat kMaxRecordType + 1"

definition kBadRecord :: u32 where
  "kBadRecord = of_nat kMaxRecordType + 2"

definition clear_buffer :: "log_reader \<Rightarrow> log_reader" where
  "clear_buffer r = r\<lparr>lr_buffer := [], lr_buffer_data := 0\<rparr>"

text \<open>What \<^verbatim>\<open>ReadPhysicalRecord\<close> does with a buffer that has a header: the reader, the type and the slice of the caller.\<close>

definition parse_record :: "crc_lib \<Rightarrow> bytes \<Rightarrow> log_reader \<Rightarrow> log_reader \<times> u32 \<times> bytes" where
  "parse_record lib result r =
     (let header = lr_buffer r;
          a = ucast (header ! 4) AND 0xff :: u32;
          b = ucast (header ! 5) AND 0xff :: u32;
          t = scast (header ! 6) :: u32;
          n = unat (a OR push_bit 8 b);
          drop_size = length (lr_buffer r)
      in if kHeaderSize + n > length (lr_buffer r) then
           let r = clear_buffer r
           in if \<not> lr_eof r then (ReportCorruption drop_size ''bad record length'' r, kBadRecord, result)
              else (r, kEof, result)
         else if t = of_nat (record_type_code kZeroType) \<and> n = 0 then (clear_buffer r, kBadRecord, result)
         else if lr_checksum r \<and> Value lib (lr_buffer_data r + 6) (take (1 + n) (drop 6 header)) \<noteq> Unmask (ldb_DecodeFixed32 header) then
           (ReportCorruption drop_size ''checksum mismatch'' (clear_buffer r), kBadRecord, result)
         else
           let r = r\<lparr>lr_buffer := drop (kHeaderSize + n) (lr_buffer r), lr_buffer_data := lr_buffer_data r + (kHeaderSize + n)\<rparr>
           in if lr_end_offset r - of_nat (length (lr_buffer r)) - of_nat kHeaderSize - of_nat n < lr_initial_offset r
              then (r, kBadRecord, [])
              else (r, t, take n (drop kHeaderSize header)))"

definition read_block :: "log_reader \<Rightarrow> log_reader \<times> ldb_status" where
  "read_block r =
     (let (f, status, d) = SequentialFile_Read kBlockSize (lr_file r)
      in (r\<lparr>lr_file := f, lr_buffer := d, lr_buffer_data := (if status_ok status then lr_store r else 0),
            lr_end_offset := lr_end_offset r + of_nat (length d)\<rparr>, status))"

function ReadPhysicalRecord :: "crc_lib \<Rightarrow> bytes \<Rightarrow> log_reader \<Rightarrow> log_reader \<times> u32 \<times> bytes" where
  "ReadPhysicalRecord lib result r =
     (if length (lr_buffer r) < kHeaderSize then
        if \<not> lr_eof r then
          let (r', status) = read_block r
          in if \<not> status_ok status then ((ReportDrop kBlockSize status (clear_buffer r'))\<lparr>lr_eof := True\<rparr>, kEof, result)
             else ReadPhysicalRecord lib result (r'\<lparr>lr_eof := (lr_eof r' \<or> length (lr_buffer r') < kBlockSize)\<rparr>)
        else (clear_buffer r, kEof, result)
      else parse_record lib result r)"
  by pat_completeness auto
termination
  by (relation "measure (\<lambda>(lib, result, r). if length (lr_buffer r) < kHeaderSize then if lr_eof r then 1 else 2 else 0)")
    (auto simp: kBlockSize_def kHeaderSize_def)

declare ReadPhysicalRecord.simps [simp del]

text \<open>
  The switch of \<^verbatim>\<open>ReadRecord\<close> on the type of a physical record: \<open>Inl\<close> is a return, with the record or false, and
  \<open>Inr\<close> the state with which the loop goes on, whether it is inside a record, what it has of it and where it began.
\<close>

fun u32_decimal :: "nat \<Rightarrow> string" where
  "u32_decimal n = (if n < 10 then [char_of (48 + n)] else u32_decimal (n div 10) @ [char_of (48 + n mod 10)])"

declare u32_decimal.simps [simp del]

type_synonym read_state = "bool \<times> bytes \<times> u64"

definition ReadRecord_switch ::
  "u32 \<Rightarrow> bytes \<Rightarrow> u64 \<Rightarrow> read_state \<Rightarrow> log_reader \<Rightarrow> (log_reader \<times> bytes option) + (log_reader \<times> read_state)" where
  "ReadRecord_switch t fragment physical_record_offset st r =
     (let (in_fragmented_record, scratch, prospective_record_offset) = st
      in if t = of_nat (record_type_code kFullType) then
           let r = (if in_fragmented_record \<and> scratch \<noteq> [] then ReportCorruption (length scratch) ''partial record without end(1)'' r else r)
           in Inl (r\<lparr>lr_last_offset := physical_record_offset\<rparr>, Some fragment)
         else if t = of_nat (record_type_code kFirstType) then
           let r = (if in_fragmented_record \<and> scratch \<noteq> [] then ReportCorruption (length scratch) ''partial record without end(2)'' r else r)
           in Inr (r, True, fragment, physical_record_offset)
         else if t = of_nat (record_type_code kMiddleType) then
           if \<not> in_fragmented_record
           then Inr (ReportCorruption (length fragment) ''missing start of fragmented record(1)'' r, in_fragmented_record, scratch, prospective_record_offset)
           else Inr (r, in_fragmented_record, scratch @ fragment, prospective_record_offset)
         else if t = of_nat (record_type_code kLastType) then
           if \<not> in_fragmented_record
           then Inr (ReportCorruption (length fragment) ''missing start of fragmented record(2)'' r, in_fragmented_record, scratch, prospective_record_offset)
           else Inl (r\<lparr>lr_last_offset := prospective_record_offset\<rparr>, Some (scratch @ fragment))
         else if t = kEof then Inl (r, None)
         else if t = kBadRecord then
           if in_fragmented_record then Inr (ReportCorruption (length scratch) ''error in middle of record'' r, False, [], prospective_record_offset)
           else Inr (r, in_fragmented_record, scratch, prospective_record_offset)
         else Inr (ReportCorruption (length fragment + (if in_fragmented_record then length scratch else 0))
                    (''unknown record type '' @ u32_decimal (unat t)) r, False, [], prospective_record_offset))"

text \<open>One round of the loop of \<^verbatim>\<open>ReadRecord\<close>, with the slice \<open>fragment\<close> that is handed from round to round.\<close>

definition ReadRecord_round ::
  "crc_lib \<Rightarrow> bytes \<Rightarrow> read_state \<Rightarrow> log_reader \<Rightarrow> (log_reader \<times> bytes option) + (bytes \<times> log_reader \<times> read_state)" where
  "ReadRecord_round lib fragment st r =
     (let (r, t, fragment) = ReadPhysicalRecord lib fragment r;
          physical_record_offset = lr_end_offset r - of_nat (length (lr_buffer r)) - of_nat kHeaderSize - of_nat (length fragment)
      in if lr_resyncing r \<and> t = of_nat (record_type_code kMiddleType) then Inr (fragment, r, st)
         else if lr_resyncing r \<and> t = of_nat (record_type_code kLastType) then Inr (fragment, r\<lparr>lr_resyncing := False\<rparr>, st)
         else case ReadRecord_switch t fragment physical_record_offset st (r\<lparr>lr_resyncing := False\<rparr>) of
                Inl res \<Rightarrow> Inl res
              | Inr (r, st) \<Rightarrow> Inr (fragment, r, st))"

text \<open>What of the file the reader has not looked at.\<close>

definition unread :: "log_reader \<Rightarrow> nat" where
  "unread r = length (lr_buffer r) + length (drop (sf_pos (lr_file r)) (sf_content (lr_file r)))"

lemma ReportDrop_keeps [simp]:
  "lr_file (ReportDrop n s r) = lr_file r" "lr_buffer (ReportDrop n s r) = lr_buffer r" "lr_eof (ReportDrop n s r) = lr_eof r"
  by (simp_all add: ReportDrop_def)

lemma ReportCorruption_keeps [simp]:
  "lr_file (ReportCorruption n s r) = lr_file r" "lr_buffer (ReportCorruption n s r) = lr_buffer r" "lr_eof (ReportCorruption n s r) = lr_eof r"
  by (simp_all add: ReportCorruption_def)

lemma clear_buffer_keeps [simp]: "lr_file (clear_buffer r) = lr_file r" "lr_buffer (clear_buffer r) = []" "lr_eof (clear_buffer r) = lr_eof r"
  by (simp_all add: clear_buffer_def)

lemma parse_record_unread:
  "parse_record lib res r = (r', t, f) \<Longrightarrow> kHeaderSize \<le> length (lr_buffer r) \<Longrightarrow> unread r' < unread r"
  by (auto simp: parse_record_def unread_def Let_def kHeaderSize_def split: if_splits)

lemma Read_loop_unread:
  "SequentialFile_Read_loop rs n f = (f', s, d) \<Longrightarrow>
     length d + length (drop (sf_pos f') (sf_content f')) \<le> length (drop (sf_pos f) (sf_content f))"
  by (induction rs n f rule: SequentialFile_Read_loop.induct) (auto simp: sf_read_def Let_def)

lemma read_block_unread: "read_block r = (r', s) \<Longrightarrow> unread r' \<le> length (drop (sf_pos (lr_file r)) (sf_content (lr_file r)))"
  using Read_loop_unread [of "sf_reads (lr_file r)"] by (auto simp: read_block_def SequentialFile_Read_def unread_def split: prod.splits)

lemma ReadPhysicalRecord_unread:
  "ReadPhysicalRecord lib res r = (r', t, f) \<Longrightarrow> t \<noteq> kEof \<Longrightarrow> unread r' < unread r"
proof (induction lib res r rule: ReadPhysicalRecord.induct)
  case (1 lib res r)
  show ?case
  proof (cases "length (lr_buffer r) < kHeaderSize")
    case True
    obtain r1 s where b: "read_block r = (r1, s)" by fastforce
    let ?r = "r1\<lparr>lr_eof := (lr_eof r1 \<or> length (lr_buffer r1) < kBlockSize)\<rparr>"
    have "\<not> lr_eof r" "status_ok s" "ReadPhysicalRecord lib res ?r = (r', t, f)"
      using 1(2,3) True b by (auto simp: ReadPhysicalRecord.simps [of lib res r] split: if_splits)
    with 1 True b have "unread r' < unread ?r" by simp
    moreover have "unread ?r \<le> unread r" using read_block_unread [OF b] by (simp add: unread_def)
    ultimately show ?thesis by simp
  next
    case False
    with 1(2) show ?thesis by (auto simp: ReadPhysicalRecord.simps [of lib res r] intro: parse_record_unread)
  qed
qed

lemma switch_goes_on:
  assumes "ReadRecord_switch t fragment off st r = Inr (r', st')"
  shows "t \<noteq> kEof" "unread r' = unread r"
  using assms unfolding ReadRecord_switch_def
  by (auto simp: Let_def unread_def kEof_def kMaxRecordType_def record_type_code_def split: prod.splits if_splits)

lemma ReadRecord_round_unread: "ReadRecord_round lib fragment st r = Inr (fragment', r', st') \<Longrightarrow> unread r' < unread r"
proof -
  assume a: "ReadRecord_round lib fragment st r = Inr (fragment', r', st')"
  obtain r1 t f where p: "ReadPhysicalRecord lib fragment r = (r1, t, f)" by (metis prod_cases3)
  have "t \<noteq> kEof \<and> unread r' = unread r1"
    using a unfolding ReadRecord_round_def p Let_def
    by (auto simp: unread_def kEof_def kMaxRecordType_def record_type_code_def split: if_splits sum.splits dest: switch_goes_on)
  with ReadPhysicalRecord_unread [OF p] show ?thesis by simp
qed

function ReadRecord_loop :: "crc_lib \<Rightarrow> bytes \<Rightarrow> read_state \<Rightarrow> log_reader \<Rightarrow> log_reader \<times> bytes option" where
  "ReadRecord_loop lib fragment st r =
     (case ReadRecord_round lib fragment st r of
        Inl res \<Rightarrow> res
      | Inr (fragment, r, st) \<Rightarrow> ReadRecord_loop lib fragment st r)"
  by pat_completeness auto
termination
  by (relation "measure (\<lambda>(lib, fragment, st, r). unread r)") (auto simp: ReadRecord_round_unread)

declare ReadRecord_loop.simps [simp del]

definition ReadRecord :: "crc_lib \<Rightarrow> log_reader \<Rightarrow> log_reader \<times> bytes option" where
  "ReadRecord lib r =
     (if lr_last_offset r < lr_initial_offset r
      then let (r, ok) = SkipToInitialBlock r in if \<not> ok then (r, None) else ReadRecord_loop lib [] (False, [], 0) r
      else ReadRecord_loop lib [] (False, [], 0) r)"

end
