(* ===== verification/Ldb_Log_Layout.thy ===== *)
theory Ldb_Log_Layout
  imports Ldb_Log
begin

text \<open>
  What the writer of the log lays out: the physical records of a record as a list, a log as their concatenation. The
  writer appends exactly that to its file, or, when the file fails, a part of it from the front.
\<close>

unbundle bit_operations_syntax

section \<open>The layout of a log\<close>

lemmas block_defs = kBlockSize_def kHeaderSize_def

definition frame :: "crc_lib \<Rightarrow> RecordType \<Rightarrow> bytes \<Rightarrow> bytes" where
  "frame lib t d = EncodeFixed32 (Mask (Value lib 0 (of_nat (record_type_code t) # d))) @
     [of_nat (length d AND 0xff), of_nat (drop_bit 8 (length d)), of_nat (record_type_code t)] @ d"

text \<open>The zeros in front of the next header and the room after it, when \<open>c\<close> bytes are written.\<close>

definition pad :: "nat \<Rightarrow> nat" where
  "pad c = (if kBlockSize - c mod kBlockSize < kHeaderSize then kBlockSize - c mod kBlockSize else 0)"

definition room :: "nat \<Rightarrow> nat" where
  "room c = kBlockSize - kHeaderSize - (c + pad c) mod kBlockSize"

lemma pad_less: "pad c < kHeaderSize"
  by (simp add: pad_def block_defs)

lemma room_le: "room c \<le> kBlockSize - kHeaderSize"
  by (simp add: room_def)

lemma after_pad_eq: "(c + pad c) mod kBlockSize = (if kBlockSize - c mod kBlockSize < kHeaderSize then 0 else c mod kBlockSize)"
proof -
  have "c mod kBlockSize < kBlockSize" by (simp add: block_defs)
  then have "(c + (kBlockSize - c mod kBlockSize)) mod kBlockSize = 0"
    by (metis le_add_diff_inverse less_imp_le mod_add_left_eq mod_self)
  then show ?thesis by (simp add: pad_def)
qed

lemma after_pad: "(c + pad c) mod kBlockSize + kHeaderSize \<le> kBlockSize"
  unfolding after_pad_eq by (auto simp: block_defs)

lemma room_exhausted: "room c = 0 \<Longrightarrow> 0 < room (c + pad c + kHeaderSize)"
proof -
  assume "room c = 0"
  then have "(c + pad c) mod kBlockSize = kBlockSize - kHeaderSize" using after_pad [of c] by (simp add: room_def)
  then have "(c + pad c + kHeaderSize) mod kBlockSize = (kBlockSize - kHeaderSize + kHeaderSize) mod kBlockSize"
    by (metis mod_add_left_eq)
  then have "(c + pad c + kHeaderSize) mod kBlockSize = 0" by (simp add: block_defs)
  then show ?thesis by (simp add: room_def pad_def block_defs)
qed

function fragments :: "nat \<Rightarrow> bool \<Rightarrow> bytes \<Rightarrow> (nat \<times> RecordType \<times> bytes) list" where
  "fragments c first left =
     (let n = min (length left) (room c)
      in (pad c, fragment_type first (length left = n), take n left) #
         (if drop n left = [] then [] else fragments (c + pad c + kHeaderSize + n) False (drop n left)))"
  by pat_completeness auto
termination
proof (relation "measure (\<lambda>(c, first, left). 2 * length left + (if room c = 0 then 1 else 0))", goal_cases)
  case (2 c first left n)
  then show ?case using room_exhausted [of c] by (cases "room c = 0") auto
qed simp

declare fragments.simps [simp del]

definition phys_bytes :: "crc_lib \<Rightarrow> nat \<times> RecordType \<times> bytes \<Rightarrow> bytes" where
  "phys_bytes lib = (\<lambda>(k, t, d). replicate k 0 @ frame lib t d)"

definition rec_bytes :: "crc_lib \<Rightarrow> nat \<Rightarrow> bool \<Rightarrow> bytes \<Rightarrow> bytes" where
  "rec_bytes lib c first left = concat (map (phys_bytes lib) (fragments c first left))"

lemma rec_bytes_rec:
  "rec_bytes lib c first left =
     (let n = min (length left) (room c)
      in replicate (pad c) 0 @ frame lib (fragment_type first (length left = n)) (take n left) @
         (if drop n left = [] then [] else rec_bytes lib (c + pad c + kHeaderSize + n) False (drop n left)))"
  unfolding rec_bytes_def by (subst fragments.simps) (simp add: Let_def phys_bytes_def)

fun log_bytes :: "crc_lib \<Rightarrow> nat \<Rightarrow> bytes list \<Rightarrow> bytes" where
  "log_bytes lib c [] = []"
| "log_bytes lib c (x # xs) = rec_bytes lib c True x @ log_bytes lib (c + length (rec_bytes lib c True x)) xs"

lemma length_frame [simp]: "length (frame lib t d) = kHeaderSize + length d"
  by (simp add: frame_def block_defs)

section \<open>The writer lays it out\<close>

definition writer_ok :: "crc_lib \<Rightarrow> log_writer \<Rightarrow> bool" where
  "writer_ok lib w \<longleftrightarrow> wf_buf (lw_dest w) = [] \<and> lw_block_offset w \<le> kBlockSize \<and>
     lw_block_offset w mod kBlockSize = length (wf_file (lw_dest w)) mod kBlockSize \<and> (\<exists>a. lw_type_crc w = InitTypeCrc lib a)"

abbreviation log_file :: "log_writer \<Rightarrow> bytes" where
  "log_file w \<equiv> wf_file (lw_dest w)"

lemma type_crc_frame:
  assumes "crc_lib_ok lib" "lw_type_crc w = InitTypeCrc lib a"
  shows "Extend lib (lw_type_crc w ! record_type_code t) ptr d = Value lib 0 (of_nat (record_type_code t) # d)"
proof -
  have "lw_type_crc w ! record_type_code t = Extend lib 0 a [of_nat (record_type_code t)]"
    using assms(2) by (cases t) (simp_all add: InitTypeCrc_def Value_def record_type_code_def kMaxRecordType_def del: upt_Suc)
  then show ?thesis using Extend_append [OF assms(1), of 0 a "[of_nat (record_type_code t)]" ptr d 0] by (simp add: Value_def)
qed

lemma EmitPhysicalRecord_spec:
  assumes "crc_lib_ok lib" "lw_type_crc w = InitTypeCrc lib a" "EmitPhysicalRecord lib t ptr d w = (w', s)"
    and "length (wf_buf (lw_dest w)) + kHeaderSize + length d \<le> kWritableFileBufferSize"
  shows "lw_type_crc w' = lw_type_crc w" "lw_block_offset w' = lw_block_offset w + kHeaderSize + length d" "wf_buf (lw_dest w') = []"
    "prefix (log_file w) (log_file w')" "prefix (log_file w') (appended (lw_dest w) @ frame lib t d)"
    "status_ok s \<Longrightarrow> log_file w' = appended (lw_dest w) @ frame lib t d"
proof -
  let ?f = "lw_dest w\<lparr>wf_buf := wf_buf (lw_dest w) @ frame lib t d\<rparr>"
  obtain g s' where g: "FlushBuffer ?f = (g, s')" by fastforce
  have "(w', s) = (w\<lparr>lw_dest := g, lw_block_offset := lw_block_offset w + (kHeaderSize + length d)\<rparr>, s')"
    using assms(3,4) g unfolding EmitPhysicalRecord_def Let_def type_crc_frame [OF assms(1,2)]
    by (auto simp: wf_Append_small frame_def kHeaderSize_def status_ok_def wf_Flush_def split: prod.splits)
  then show "lw_type_crc w' = lw_type_crc w" "lw_block_offset w' = lw_block_offset w + kHeaderSize + length d" "wf_buf (lw_dest w') = []"
    "prefix (log_file w) (log_file w')" "prefix (log_file w') (appended (lw_dest w) @ frame lib t d)"
    "status_ok s \<Longrightarrow> log_file w' = appended (lw_dest w) @ frame lib t d"
    using FlushBuffer_spec [OF g] by (simp_all add: appended_def)
qed

lemma switch_block_spec:
  assumes "writer_ok lib w"
  defines "c \<equiv> length (log_file w)"
  shows "lw_type_crc (switch_block w) = lw_type_crc w" "log_file (switch_block w) = log_file w"
    "wf_buf (lw_dest (switch_block w)) = replicate (pad c) 0" "lw_block_offset (switch_block w) = (c + pad c) mod kBlockSize"
    "avail_in w = room c"
proof -
  have m: "c mod kBlockSize = (if lw_block_offset w = kBlockSize then 0 else lw_block_offset w)" and le: "lw_block_offset w \<le> kBlockSize"
    using assms by (auto simp: writer_ok_def)
  then have p: "pad c = (if kBlockSize - lw_block_offset w < kHeaderSize then kBlockSize - lw_block_offset w else 0)"
    by (auto simp: pad_def block_defs)
  show "lw_type_crc (switch_block w) = lw_type_crc w" by (simp add: switch_block_def Let_def)
  show "log_file (switch_block w) = log_file w" "wf_buf (lw_dest (switch_block w)) = replicate (pad c) 0"
    unfolding p using assms(1)
    by (auto simp: switch_block_def Let_def writer_ok_def wf_Append_small block_defs kWritableFileBufferSize_def)
  show o: "lw_block_offset (switch_block w) = (c + pad c) mod kBlockSize"
    unfolding after_pad_eq m block_offset_switch using le by (auto simp: block_defs)
  show "avail_in w = room c" by (simp add: avail_in_def o room_def)
qed

lemma add_fragment_spec:
  assumes "crc_lib_ok lib" "writer_ok lib w" "add_fragment lib first ptr left w = (w', s, n)"
  defines "c \<equiv> length (log_file w)"
  defines "b \<equiv> replicate (pad c) 0 @ frame lib (fragment_type first (length left = n)) (take n left)"
  shows "n = min (length left) (room c)" "prefix (log_file w) (log_file w')" "prefix (log_file w') (log_file w @ b)"
    "status_ok s \<Longrightarrow> log_file w' = log_file w @ b" "status_ok s \<Longrightarrow> writer_ok lib w'"
proof -
  note sw = switch_block_spec [OF assms(2), folded c_def]
  show n: "n = min (length left) (room c)" using add_fragment_length(1) [OF assms(3)] sw(5) by simp
  obtain a where a: "lw_type_crc (switch_block w) = InitTypeCrc lib a" using assms(2) sw(1) by (auto simp: writer_ok_def)
  have e: "EmitPhysicalRecord lib (fragment_type first (length left = n)) ptr (take n left) (switch_block w) = (w', s)"
    using assms(3) n sw(4) by (auto simp: add_fragment_def Let_def room_def min_def split: prod.splits if_splits)
  have "length (wf_buf (lw_dest (switch_block w))) + kHeaderSize + length (take n left) \<le> kWritableFileBufferSize"
    using sw(3) n pad_less [of c] room_le [of c] by (simp add: block_defs kWritableFileBufferSize_def)
  note E = EmitPhysicalRecord_spec [OF assms(1) a e this]
  have ap: "appended (lw_dest (switch_block w)) = log_file w @ replicate (pad c) 0" using sw(2,3) by (simp add: appended_def)
  show "prefix (log_file w) (log_file w')" "prefix (log_file w') (log_file w @ b)" using E(4,5) sw(2) ap by (simp_all add: b_def)
  assume s: "status_ok s"
  show f: "log_file w' = log_file w @ b" using E(6) [OF s] ap by (simp add: b_def)
  have "length (log_file w') = c + pad c + kHeaderSize + n" using f n by (simp add: b_def c_def)
  moreover have "lw_block_offset w' = (c + pad c) mod kBlockSize + kHeaderSize + n" using E(2) sw(4) n by simp
  moreover have "(c + pad c) mod kBlockSize + kHeaderSize + n \<le> kBlockSize" using n after_pad [of c] by (simp add: room_def)
  ultimately show "writer_ok lib w'" unfolding writer_ok_def using E(1,3) a
    by (metis add.assoc mod_add_left_eq)
qed

lemma AddRecord_loop_spec:
  assumes "crc_lib_ok lib" "writer_ok lib w" "AddRecord_loop lib first ptr left w = (w', s)"
  shows "prefix (log_file w) (log_file w') \<and> prefix (log_file w') (log_file w @ rec_bytes lib (length (log_file w)) first left) \<and>
    (status_ok s \<longrightarrow> log_file w' = log_file w @ rec_bytes lib (length (log_file w)) first left \<and> writer_ok lib w')"
  using assms
proof (induction lib first ptr left w rule: AddRecord_loop.induct)
  case (1 lib first ptr left w)
  obtain w1 s1 n where f: "add_fragment lib first ptr left w = (w1, s1, n)" by (metis prod_cases3)
  note F = add_fragment_spec [OF 1(2,3) f]
  let ?c = "length (log_file w)"
  let ?b = "replicate (pad ?c) 0 @ frame lib (fragment_type first (length left = n)) (take n left)"
  have rb: "rec_bytes lib ?c first left = ?b @ (if drop n left = [] then [] else rec_bytes lib (?c + pad ?c + kHeaderSize + n) False (drop n left))"
    by (subst rec_bytes_rec) (simp add: Let_def F(1))
  show ?case
  proof (cases "status_ok s1 \<and> drop n left \<noteq> []")
    case True
    then have "AddRecord_loop lib False (ptr + n) (drop n left) w1 = (w', s)"
      using 1(4) f by (subst (asm) AddRecord_loop.simps) simp
    moreover have "length (log_file w1) = ?c + pad ?c + kHeaderSize + n" using F(1) F(4) True by simp
    ultimately show ?thesis using 1(1) [OF f [symmetric] refl refl True 1(2) F(5)] True rb F(4)
      by (auto simp: add.assoc dest: append_prefixD)
  next
    case False
    then have "(w', s) = (w1, s1)" using 1(4) f by (subst (asm) AddRecord_loop.simps) auto
    with False show ?thesis using F rb prefix_prefix [OF F(3)] by auto
  qed
qed

text \<open>Records are added until the first failure: the writer and how many were acknowledged.\<close>

fun add_records :: "crc_lib \<Rightarrow> (nat \<times> bytes) list \<Rightarrow> log_writer \<Rightarrow> log_writer \<times> nat" where
  "add_records lib [] w = (w, 0)"
| "add_records lib ((ptr, x) # xs) w =
     (let (w, s) = AddRecord lib ptr x w
      in if status_ok s then let (w, k) = add_records lib xs w in (w, Suc k) else (w, 0))"

lemma add_records_spec:
  "crc_lib_ok lib \<Longrightarrow> writer_ok lib w \<Longrightarrow> add_records lib xs w = (w', k) \<Longrightarrow>
     k \<le> length xs \<and> prefix (log_file w @ log_bytes lib (length (log_file w)) (map snd (take k xs))) (log_file w') \<and>
     prefix (log_file w') (log_file w @ log_bytes lib (length (log_file w)) (map snd xs))"
proof (induction xs arbitrary: w k)
  case (Cons x xs)
  obtain ptr d where x: "x = (ptr, d)" by fastforce
  obtain w1 s where a: "AddRecord lib ptr d w = (w1, s)" by fastforce
  note A = AddRecord_loop_spec [OF Cons(2,3) a [unfolded AddRecord_def]]
  show ?case
  proof (cases "status_ok s")
    case True
    obtain k1 where k: "add_records lib xs w1 = (w', k1)" "k = Suc k1" using Cons(4) True a x by (auto split: prod.splits)
    show ?thesis using Cons(1) [OF Cons(2) _ k(1)] A True k(2) x by auto
  next
    case False
    then show ?thesis using Cons(4) A a x prefix_prefix [of "log_file w1" "log_file w @ rec_bytes lib (length (log_file w)) True d"] by auto
  qed
qed simp

end
