(* ===== verification/Ldb_Log_Read.thy ===== *)
theory Ldb_Log_Read
  imports Ldb_Log_Layout
begin

text \<open>
  The reader of the log on one physical record, from any state in which it has come to the end of the one before: it
  returns the type and the data of a record that is whole, and the end of the file for one that is cut off.
\<close>

unbundle bit_operations_syntax

section \<open>One physical record\<close>

lemma ucast_byte: "k < 256 \<Longrightarrow> ucast (of_nat k :: byte) AND 0xff = (of_nat k :: u32)"
proof -
  assume k: "k < 256"
  then have "ucast (of_nat k :: byte) = (of_nat k :: u32)" by (simp add: unsigned_of_nat take_bit_nat_eq_self)
  moreover have "of_nat k AND 0xff = (of_nat k :: u32)"
    using k by (simp add: and_ff take_bit_of_nat take_bit_nat_eq_self)
  ultimately show ?thesis by simp
qed

lemma length_bytes:
  assumes "n < 65536"
  shows "unat ((ucast (of_nat (n AND 0xff) :: byte) AND 0xff) OR push_bit 8 (ucast (of_nat (drop_bit 8 n) :: byte) AND 0xff) :: u32) = n"
proof -
  have n: "n AND 0xff = n mod 256" "drop_bit 8 n = n div 256"
    using take_bit_eq_mask [of 8 n] by (simp_all add: mask_eq_exp_minus_1 take_bit_eq_mod drop_bit_eq_div)
  have l: "n div 256 < 256" "n mod 256 < 256" using assms by (simp_all add: less_mult_imp_div_less)
  have "(of_nat (n mod 256) :: u32) OR push_bit 8 (of_nat (n div 256)) = of_nat n"
    using or_push [of "n mod 256" 8 "n div 256", where 'a = 32] by simp
  then show ?thesis unfolding n ucast_byte [OF l(1)] ucast_byte [OF l(2)]
    using assms by (simp add: unsigned_of_nat take_bit_nat_eq_self)
qed

lemma scast_type: "(scast (of_nat (record_type_code t) :: byte) :: u32) = of_nat (record_type_code t)"
  by (cases t) (simp_all add: record_type_code_def)

lemma frame_fields:
  assumes "length d < 65536"
  shows "unat ((ucast ((frame lib t d @ r) ! 4) AND 0xff) OR push_bit 8 (ucast ((frame lib t d @ r) ! 5) AND 0xff) :: u32) = length d"
    "(scast ((frame lib t d @ r) ! 6) :: u32) = of_nat (record_type_code t)"
    "take (1 + length d) (drop 6 (frame lib t d @ r)) = of_nat (record_type_code t) # d"
    "take (length d) (drop kHeaderSize (frame lib t d @ r)) = d"
    "Unmask (ldb_DecodeFixed32 (frame lib t d @ r)) = Value lib 0 (of_nat (record_type_code t) # d)"
  using length_bytes [OF assms] scast_type [of t]
  by (simp_all add: frame_def nth_append kHeaderSize_def del: push_bit_and)

lemma drop_frame: "drop (kHeaderSize + length d) (frame lib t d @ r) = r"
  by simp

lemma type_not_zero: "t \<noteq> kZeroType \<Longrightarrow> (of_nat (record_type_code t) :: u32) \<noteq> of_nat (record_type_code kZeroType)"
  by (cases t) (simp_all add: record_type_code_def)

lemma Value_address: "Value lib p d = Value lib 0 d"
  unfolding Value_def by (rule Extend_address)

lemma parse_frame:
  assumes "lr_buffer r = frame lib t d @ rest" "length d < 65536" "t \<noteq> kZeroType" "lr_initial_offset r = 0"
  shows "parse_record lib res r = (r\<lparr>lr_buffer := rest, lr_buffer_data := lr_buffer_data r + (kHeaderSize + length d)\<rparr>, of_nat (record_type_code t), d)"
  unfolding parse_record_def assms(1) Let_def frame_fields [OF assms(2)] drop_frame Value_address [of lib "lr_buffer_data r + 6"]
  using assms(3,4) type_not_zero [of t] by simp

lemma parse_cut:
  assumes "lr_buffer r = take m (frame lib t d @ rest)" "length d < 65536" "kHeaderSize \<le> m" "m < kHeaderSize + length d" "lr_eof r"
  shows "parse_record lib res r = (clear_buffer r, kEof, res)"
proof -
  have "lr_buffer r ! i = (frame lib t d @ rest) ! i" if "i < kHeaderSize" for i
    unfolding assms(1) using assms(3) that by (simp del: take_append)
  then have "unat ((ucast (lr_buffer r ! 4) AND 0xff) OR push_bit 8 (ucast (lr_buffer r ! 5) AND 0xff) :: u32) = length d"
    using frame_fields(1) [OF assms(2), of lib t rest] by (simp add: kHeaderSize_def)
  moreover have "length (lr_buffer r) \<le> m" using assms(1) by simp
  ultimately show ?thesis using assms(4,5) by (simp add: parse_record_def Let_def)
qed

section \<open>The state between physical records\<close>

text \<open>The reader of a file with contents \<open>C\<close> has consumed \<open>c\<close> bytes.\<close>

definition at :: "bytes \<Rightarrow> nat \<Rightarrow> log_reader \<Rightarrow> bool" where
  "at C c r \<longleftrightarrow> (let e = sf_pos (lr_file r)
     in sf_content (lr_file r) = C \<and> set (sf_reads (lr_file r)) \<subseteq> {Read_eintr} \<and> c \<le> e \<and> e \<le> length C \<and> lr_buffer r = take (e - c) (drop c C) \<and>
        lr_initial_offset r = 0 \<and> \<not> lr_resyncing r \<and> lr_reports r = [] \<and>
        (if lr_eof r then e = length C else e mod kBlockSize = 0) \<and>
        (c < e \<longrightarrow> e = min (length C) ((c div kBlockSize + 1) * kBlockSize)))"

lemma block_end: "(c div kBlockSize + 1) * kBlockSize = c + (kBlockSize - c mod kBlockSize)"
proof -
  have "c mod kBlockSize < kBlockSize" by (simp add: block_defs)
  moreover have "c = c div kBlockSize * kBlockSize + c mod kBlockSize" by simp
  ultimately show ?thesis unfolding add_mult_distrib by linarith
qed

lemma at_more_to_read:
  assumes "at C c r" "length (lr_buffer r) < kHeaderSize" "\<not> lr_eof r"
  shows "sf_pos (lr_file r) = c + pad c"
proof (cases "c < sf_pos (lr_file r)")
  case True
  let ?e = "sf_pos (lr_file r)"
  have e: "?e = min (length C) ((c div kBlockSize + 1) * kBlockSize)" "?e mod kBlockSize = 0" "?e \<le> length C" "length (lr_buffer r) = ?e - c"
    using assms True by (auto simp: at_def Let_def)
  have "c div kBlockSize < ?e div kBlockSize"
    using True e(2) by (metis div_le_mono div_mult_mod_eq add.right_neutral le_neq_implies_less less_imp_le mod_less_eq_dividend not_le
      times_div_less_eq_dividend linorder_not_less mult.commute)
  then have "(c div kBlockSize + 1) * kBlockSize \<le> ?e" using e(2)
    by (metis Suc_eq_plus1 Suc_leI add.right_neutral div_mult_mod_eq mult_le_mono1)
  then have "?e = c + (kBlockSize - c mod kBlockSize)" using e(1) block_end [of c] by simp
  then show ?thesis using assms(2) e(4) by (simp add: pad_def)
next
  case False
  then have "sf_pos (lr_file r) = c" "c mod kBlockSize = 0" using assms by (auto simp: at_def Let_def)
  then show ?thesis by (simp add: pad_def block_defs)
qed

lemma Read_interrupted: "set rs \<subseteq> {Read_eintr} \<Longrightarrow> SequentialFile_Read_loop rs n f = SequentialFile_Read_loop [] n f"
  by (induction rs) auto

lemma read_block_at:
  assumes "at C c r" "e = sf_pos (lr_file r)"
  shows "read_block r = (r\<lparr>lr_file := (lr_file r)\<lparr>sf_pos := min (length C) (e + kBlockSize), sf_reads := []\<rparr>, lr_buffer := take kBlockSize (drop e C),
      lr_buffer_data := lr_store r, lr_end_offset := lr_end_offset r + of_nat (length (take kBlockSize (drop e C)))\<rparr>, Status_OK)"
proof -
  have "sf_content (lr_file r) = C" "set (sf_reads (lr_file r)) \<subseteq> {Read_eintr}" "e \<le> length C" using assms by (simp_all add: at_def Let_def)
  moreover from this have "e + length (take kBlockSize (drop e C)) = min (length C) (e + kBlockSize)" by simp
  ultimately show ?thesis using assms(2)
    by (simp add: read_block_def SequentialFile_Read_def Read_interrupted sf_read_def Let_def status_ok_def)
qed

lemma at_refill:
  assumes a: "at C c r" "length (lr_buffer r) < kHeaderSize" "\<not> lr_eof r"
  obtains r1 where "ReadPhysicalRecord lib res r = ReadPhysicalRecord lib res r1" "at C (c + pad c) r1"
    "lr_buffer r1 = take kBlockSize (drop (c + pad c) C)" "lr_eof r1 \<longleftrightarrow> length C < c + pad c + kBlockSize"
proof -
  define e where "e = c + pad c"
  have p: "sf_pos (lr_file r) = e" using at_more_to_read [OF a] by (simp add: e_def)
  obtain r' where b: "read_block r = (r', Status_OK)" and r': "r' = r\<lparr>lr_file := (lr_file r)\<lparr>sf_pos := min (length C) (e + kBlockSize), sf_reads := []\<rparr>,
      lr_buffer := take kBlockSize (drop e C), lr_buffer_data := lr_store r, lr_end_offset := lr_end_offset r + of_nat (length (take kBlockSize (drop e C)))\<rparr>"
    using read_block_at [OF a(1) p [symmetric]] by blast
  have e: "e \<le> length C" "e mod kBlockSize = 0" using a(1,3) p by (auto simp: at_def Let_def)
  have f: "(length (take kBlockSize (drop e C)) < kBlockSize) = (length C < e + kBlockSize)" using e by auto
  let ?r = "r'\<lparr>lr_eof := (lr_eof r' \<or> length (lr_buffer r') < kBlockSize)\<rparr>"
  have "ReadPhysicalRecord lib res r = ReadPhysicalRecord lib res ?r"
    using a(2,3) b by (simp add: ReadPhysicalRecord.simps [of lib res r] status_ok_def)
  moreover have "at C e ?r"
  proof -
    have "(e + kBlockSize) mod kBlockSize = 0" using e(2) by simp
    moreover have "(e div kBlockSize + 1) * kBlockSize = e + kBlockSize" using block_end [of e] e(2) by simp
    ultimately show ?thesis using a(1,3) e f r' by (auto simp: at_def Let_def min_def)
  qed
  moreover have "lr_eof ?r \<longleftrightarrow> length C < e + kBlockSize" using a(3) r' f by simp
  ultimately show thesis using that [of ?r] r' by (simp add: e_def)
qed

lemma at_header:
  assumes "at C c r" "kHeaderSize \<le> length (lr_buffer r)"
  shows "pad c = 0" "sf_pos (lr_file r) = min (length C) (c + (kBlockSize - c mod kBlockSize))" "length (lr_buffer r) = sf_pos (lr_file r) - c"
    "ReadPhysicalRecord lib res r = parse_record lib res r"
proof -
  let ?e = "sf_pos (lr_file r)"
  have l: "length (lr_buffer r) = ?e - c" using assms by (auto simp: at_def Let_def)
  then have "c < ?e" using assms(2) by (simp add: kHeaderSize_def)
  then show e: "?e = min (length C) (c + (kBlockSize - c mod kBlockSize))" using assms(1) unfolding block_end [symmetric] by (simp add: at_def Let_def)
  then show "pad c = 0" using assms(2) l by (auto simp: pad_def min_def split: if_splits)
  show "length (lr_buffer r) = ?e - c" by (rule l)
  show "ReadPhysicalRecord lib res r = parse_record lib res r" using assms(2) by (subst ReadPhysicalRecord.simps) simp
qed

lemma read_here:
  assumes "at C c r" "kHeaderSize \<le> length (lr_buffer r)" "drop c C = frame lib t d @ rest" "c mod kBlockSize + kHeaderSize + length d \<le> kBlockSize" "t \<noteq> kZeroType"
  shows "\<exists>r'. ReadPhysicalRecord lib res r = (r', of_nat (record_type_code t), d) \<and> at C (c + kHeaderSize + length d) r'"
proof -
  note H = at_header [OF assms(1,2)]
  let ?e = "sf_pos (lr_file r)" and ?n = "kHeaderSize + length d"
  have "length C - c = ?n + length rest" using arg_cong [OF assms(3), of length] by simp
  then have n: "c + ?n \<le> ?e" using H(2) assms(4) by (auto simp: kHeaderSize_def)
  have b: "lr_buffer r = frame lib t d @ take (?e - c - ?n) rest"
    using assms(1,3) n by (simp add: at_def Let_def)
  have "length d < 65536" "lr_initial_offset r = 0" using assms(1,4) by (simp_all add: block_defs at_def Let_def)
  note P = parse_frame [OF b this(1) assms(5) this(2), of res]
  have "drop (c + ?n) C = rest" using arg_cong [OF assms(3), of "drop ?n"] by (simp add: add.commute)
  moreover have "c + ?n < ?e \<Longrightarrow> (c + ?n) div kBlockSize = c div kBlockSize"
  proof -
    assume "c + ?n < ?e"
    then have "c mod kBlockSize + ?n < kBlockSize" using H(2) by (auto simp: block_defs)
    then show ?thesis by (metis div_mult_mod_eq add.assoc add.right_neutral div_less div_mult_self3 gr_implies_not0)
  qed
  ultimately have "at C (c + ?n) (r\<lparr>lr_buffer := take (?e - c - ?n) rest, lr_buffer_data := lr_buffer_data r + ?n\<rparr>)"
    using assms(1) n by (auto simp: at_def Let_def)
  then show ?thesis using P H(4) by (simp add: add.assoc)
qed

lemma read_frame:
  assumes "at C c r" "drop c C = replicate (pad c) 0 @ frame lib t d @ rest" "(c + pad c) mod kBlockSize + kHeaderSize + length d \<le> kBlockSize" "t \<noteq> kZeroType"
  shows "\<exists>r'. ReadPhysicalRecord lib res r = (r', of_nat (record_type_code t), d) \<and> at C (c + pad c + kHeaderSize + length d) r'"
proof (cases "length (lr_buffer r) < kHeaderSize")
  case True
  have l: "length C - c = pad c + (kHeaderSize + length d) + length rest" using arg_cong [OF assms(2), of length] by simp
  have ne: "\<not> lr_eof r" using True l assms(1) by (auto simp: at_def Let_def)
  obtain r1 where r1: "ReadPhysicalRecord lib res r = ReadPhysicalRecord lib res r1" "at C (c + pad c) r1" "lr_buffer r1 = take kBlockSize (drop (c + pad c) C)"
    using at_refill [OF assms(1) True ne] by metis
  have "drop (c + pad c) C = frame lib t d @ rest" using arg_cong [OF assms(2), of "drop (pad c)"] by (simp add: add.commute)
  moreover from this have "kHeaderSize \<le> length (lr_buffer r1)" unfolding r1(3) by (simp add: block_defs)
  ultimately show ?thesis using read_here [OF r1(2)] assms(3,4) r1(1) by simp
next
  case False
  then have "kHeaderSize \<le> length (lr_buffer r)" by simp
  moreover from at_header(1) [OF assms(1) this] have "pad c = 0" .
  ultimately show ?thesis using read_here [OF assms(1)] assms(2,3,4) by simp
qed

lemma cut_here:
  assumes "at (take n C) c r" "kHeaderSize \<le> length (lr_buffer r)" "drop c C = frame lib t d @ rest" "c mod kBlockSize + kHeaderSize + length d \<le> kBlockSize"
    and "n < c + kHeaderSize + length d"
  shows "ReadPhysicalRecord lib res r = (clear_buffer r, kEof, res)"
proof -
  note H = at_header [OF assms(1,2)]
  let ?e = "sf_pos (lr_file r)"
  have "length C - c = kHeaderSize + length d + length rest" using arg_cong [OF assms(3), of length] by simp
  then have n: "n \<le> length C" using assms(5) H(2,3) assms(2) by (auto simp: kHeaderSize_def)
  have e: "?e = n" using H(2) assms(4,5) n by (auto simp: min_def)
  have c: "c + kHeaderSize \<le> n" using H(3) e assms(2) by (auto simp: kHeaderSize_def)
  have eof: "lr_eof r"
  proof (rule ccontr)
    assume "\<not> lr_eof r"
    then have "n mod kBlockSize = 0" using assms(1) e by (simp add: at_def Let_def)
    moreover have "n - c + c mod kBlockSize < kBlockSize" "0 < n - c + c mod kBlockSize" "n = c div kBlockSize * kBlockSize + (n - c + c mod kBlockSize)"
      using assms(4,5) c div_mult_mod_eq [of c kBlockSize] by (auto simp: kHeaderSize_def)
    ultimately show False by (metis mod_less mod_mult_self3 not_less0)
  qed
  have "lr_buffer r = take (?e - c) (drop c (take n C))" using assms(1) unfolding at_def Let_def by blast
  then have "lr_buffer r = take (n - c) (frame lib t d @ rest)" unfolding drop_take assms(3) e by (simp del: take_append)
  moreover have "length d < 65536" using assms(4) by (simp add: block_defs)
  ultimately show ?thesis using parse_cut [of r "n - c" lib t d rest res] H(4) eof assms(5) c by simp
qed

lemma read_cut:
  assumes "at (take n C) c r" "drop c C = replicate (pad c) 0 @ frame lib t d @ rest" "(c + pad c) mod kBlockSize + kHeaderSize + length d \<le> kBlockSize"
    and "n < c + pad c + kHeaderSize + length d"
  shows "\<exists>r'. ReadPhysicalRecord lib res r = (r', kEof, res) \<and> lr_reports r' = [] \<and> \<not> lr_resyncing r'"
proof -
  have rep: "lr_reports r = []" "\<not> lr_resyncing r" using assms(1) by (simp_all add: at_def Let_def)
  consider (header) "kHeaderSize \<le> length (lr_buffer r)" | (over) "length (lr_buffer r) < kHeaderSize" "lr_eof r"
    | (refill) "length (lr_buffer r) < kHeaderSize" "\<not> lr_eof r" by linarith
  then show ?thesis
  proof cases
    case header
    from at_header(1) [OF assms(1) this] have "pad c = 0" .
    then show ?thesis using cut_here [OF assms(1) header] assms(2-4) rep by (simp add: clear_buffer_def)
  next
    case over
    then show ?thesis using rep by (subst ReadPhysicalRecord.simps) (simp add: clear_buffer_def)
  next
    case refill
    obtain r1 where r1: "ReadPhysicalRecord lib res r = ReadPhysicalRecord lib res r1" "at (take n C) (c + pad c) r1"
        "lr_eof r1 \<longleftrightarrow> length (take n C) < c + pad c + kBlockSize"
      using at_refill [OF assms(1) refill] by metis
    have rep1: "lr_reports r1 = []" "\<not> lr_resyncing r1" using r1(2) by (simp_all add: at_def Let_def)
    have eof: "lr_eof r1" unfolding r1(3) using assms(3,4) by (auto simp: kHeaderSize_def)
    show ?thesis
    proof (cases "kHeaderSize \<le> length (lr_buffer r1)")
      case True
      have "drop (c + pad c) C = frame lib t d @ rest" using arg_cong [OF assms(2), of "drop (pad c)"] by (simp add: add.commute)
      then show ?thesis using cut_here [OF r1(2) True] assms(3,4) rep1 r1(1) by (simp add: clear_buffer_def)
    next
      case False
      then show ?thesis unfolding r1(1) using rep1 eof by (subst ReadPhysicalRecord.simps) (simp add: clear_buffer_def)
    qed
  qed
qed

end
