(* ===== verification/Ldb_Log_Records.thy ===== *)
theory Ldb_Log_Records
  imports Ldb_Log_Read
begin

text \<open>
  The reader of the log finds the records again: from a whole log all of them, from a log that is cut off anywhere those that
  are whole, and in both cases it has nothing to report.
\<close>

section \<open>Whole records\<close>

lemma at_last [simp]: "at C c (r\<lparr>lr_last_offset := x\<rparr>) \<longleftrightarrow> at C c r"
  by (simp add: at_def Let_def)

lemma at_not_resyncing: "at C c r \<Longrightarrow> r\<lparr>lr_resyncing := False\<rparr> = r"
  by (simp add: at_def Let_def)

lemma round_at:
  assumes "ReadPhysicalRecord lib fr r = (r1, t, d)" "\<not> lr_resyncing r1" "r1\<lparr>lr_resyncing := False\<rparr> = r1"
  shows "\<exists>off. ReadRecord_round lib fr st r = (case ReadRecord_switch t d off st r1 of Inl x \<Rightarrow> Inl x | Inr (r, st) \<Rightarrow> Inr (d, r, st))"
  unfolding ReadRecord_round_def Let_def assms(1) prod.case assms(3) using assms(2) by (intro exI) simp

lemma fragment_type_code: "fragment_type first final \<noteq> kZeroType"
  by (simp add: fragment_type_def)

lemma switch_fragment:
  "ReadRecord_switch (of_nat (record_type_code (fragment_type first final))) d off (\<not> first, acc, p) r =
     (if final then Inl (r\<lparr>lr_last_offset := if first then off else p\<rparr>, Some ((if first then [] else acc) @ d))
      else Inr (r, True, (if first then [] else acc) @ d, if first then off else p))"
  by (simp add: ReadRecord_switch_def fragment_type_def record_type_code_def)

lemma fragment_fits: "(c + pad c) mod kBlockSize + kHeaderSize + length (take (min (length left) (room c)) left) \<le> kBlockSize"
  using after_pad [of c] by (simp add: room_def)

text \<open>The first fragment of a record and what comes after it.\<close>

lemma first_fragment:
  assumes "drop c C = rec_bytes lib c first left @ rest"
  defines "n \<equiv> min (length left) (room c)"
  defines "c' \<equiv> c + pad c + kHeaderSize + n"
  defines "after \<equiv> (if drop n left = [] then [] else rec_bytes lib c' False (drop n left))"
  shows "drop c C = replicate (pad c) 0 @ frame lib (fragment_type first (length left = n)) (take n left) @ after @ rest"
    "c + length (rec_bytes lib c first left) = c' + length after" "drop c' C = after @ rest" "length (take n left) = n"
proof -
  let ?f = "frame lib (fragment_type first (length left = n)) (take n left)"
  have rb: "rec_bytes lib c first left = replicate (pad c) 0 @ ?f @ after"
    unfolding after_def n_def c'_def by (subst rec_bytes_rec) (simp only: Let_def)
  then show d: "drop c C = replicate (pad c) 0 @ ?f @ after @ rest" using assms(1) by (simp only: append_assoc)
  show l: "length (take n left) = n" by (simp add: n_def)
  then show "c + length (rec_bytes lib c first left) = c' + length after" unfolding rb by (simp add: c'_def)
  have lc: "length (replicate (pad c) (0 :: byte) @ ?f) = pad c + kHeaderSize + n" using l by simp
  have "drop (pad c + kHeaderSize + n) (drop c C) = after @ rest"
    unfolding d lc [symmetric] by (simp only: append_assoc [symmetric]) simp
  then show "drop c' C = after @ rest" unfolding c'_def by (simp only: drop_drop ac_simps)
qed

lemma loop_step:
  assumes "at C c r" "drop c C = replicate (pad c) 0 @ frame lib (fragment_type first final) d @ rest" "(c + pad c) mod kBlockSize + kHeaderSize + length d \<le> kBlockSize"
  obtains r1 off where "at C (c + pad c + kHeaderSize + length d) r1"
    "ReadRecord_loop lib fr (\<not> first, acc, p) r =
      (if final then (r1\<lparr>lr_last_offset := if first then off else p\<rparr>, Some ((if first then [] else acc) @ d))
       else ReadRecord_loop lib d (\<not> False, (if first then [] else acc) @ d, if first then off else p) r1)"
proof -
  let ?t = "fragment_type first final"
  obtain r1 where r1: "ReadPhysicalRecord lib fr r = (r1, of_nat (record_type_code ?t), d)" "at C (c + pad c + kHeaderSize + length d) r1"
    using read_frame [OF assms fragment_type_code] by metis
  have "\<not> lr_resyncing r1" using r1(2) by (simp add: at_def Let_def)
  then obtain off where "ReadRecord_round lib fr (\<not> first, acc, p) r =
      (case ReadRecord_switch (of_nat (record_type_code ?t)) d off (\<not> first, acc, p) r1 of Inl x \<Rightarrow> Inl x | Inr (r, st) \<Rightarrow> Inr (d, r, st))"
    using round_at [OF r1(1) _ at_not_resyncing [OF r1(2)]] by blast
  then have "ReadRecord_loop lib fr (\<not> first, acc, p) r =
      (if final then (r1\<lparr>lr_last_offset := if first then off else p\<rparr>, Some ((if first then [] else acc) @ d))
       else ReadRecord_loop lib d (\<not> False, (if first then [] else acc) @ d, if first then off else p) r1)"
    by (subst ReadRecord_loop.simps) (simp add: switch_fragment)
  then show thesis using that r1(2) by blast
qed

lemma loop_record:
  assumes "at C c r" "drop c C = rec_bytes lib c first left @ rest"
  shows "\<exists>r'. ReadRecord_loop lib fr (\<not> first, acc, p) r = (r', Some ((if first then [] else acc) @ left)) \<and>
    at C (c + length (rec_bytes lib c first left)) r'"
  using assms
proof (induction c first left arbitrary: r fr acc p rule: fragments.induct)
  case (1 c first left)
  let ?n = "min (length left) (room c)"
  let ?d = "take ?n left" and ?c = "c + pad c + kHeaderSize + ?n" and ?acc = "(if first then [] else acc) @ take ?n left"
  note F = first_fragment [OF 1(3)]
  obtain r1 off where r1: "at C (c + pad c + kHeaderSize + length ?d) r1"
    "ReadRecord_loop lib fr (\<not> first, acc, p) r =
      (if length left = ?n then (r1\<lparr>lr_last_offset := if first then off else p\<rparr>, Some ?acc)
       else ReadRecord_loop lib ?d (\<not> False, ?acc, if first then off else p) r1)"
    using loop_step [OF 1(2) F(1) fragment_fits] by blast
  show ?case
  proof (cases "drop ?n left = []")
    case True
    then have "length left = ?n" "?d = left" by simp_all
    then show ?thesis using r1 F(2) True by (simp add: add.assoc)
  next
    case False
    then have "length left \<noteq> ?n" by auto
    note l = r1(2) [unfolded if_not_P [OF this]]
    have "drop ?c C = rec_bytes lib ?c False (drop ?n left) @ rest" using F(3) unfolding if_not_P [OF False] .
    from 1(1) [OF refl False r1(1) [unfolded F(4)] this, of ?d ?acc "if first then off else p"]
    show ?thesis unfolding l F(2) if_not_P [OF False] by (simp add: add.assoc)
  qed
qed

lemma loop_cut:
  assumes "at (take n C) c r" "drop c C = rec_bytes lib c first left @ rest" "n < c + length (rec_bytes lib c first left)"
  shows "\<exists>r'. ReadRecord_loop lib fr (\<not> first, acc, p) r = (r', None) \<and> lr_reports r' = []"
  using assms
proof (induction c first left arbitrary: r fr acc p rule: fragments.induct)
  case (1 c first left)
  let ?n = "min (length left) (room c)"
  let ?d = "take ?n left" and ?c = "c + pad c + kHeaderSize + ?n" and ?acc = "(if first then [] else acc) @ take ?n left"
  note F = first_fragment [OF 1(3)]
  show ?case
  proof (cases "n < ?c")
    case True
    then obtain r1 where r1: "ReadPhysicalRecord lib fr r = (r1, kEof, fr)" "lr_reports r1 = []" "\<not> lr_resyncing r1"
      using read_cut [OF 1(2) F(1) fragment_fits] unfolding F(4) by blast
    have "r1\<lparr>lr_resyncing := False\<rparr> = r1" using r1(3) by simp
    from round_at [OF r1(1,3) this, of "(\<not> first, acc, p)"] obtain off where "ReadRecord_round lib fr (\<not> first, acc, p) r =
        (case ReadRecord_switch kEof fr off (\<not> first, acc, p) r1 of Inl x \<Rightarrow> Inl x | Inr (r, st) \<Rightarrow> Inr (fr, r, st))"
      by blast
    moreover have "ReadRecord_switch kEof fr off (\<not> first, acc, p) r1 = Inl (r1, None)"
      by (simp add: ReadRecord_switch_def kEof_def kMaxRecordType_def record_type_code_def)
    ultimately show ?thesis using r1(2) by (subst ReadRecord_loop.simps) simp
  next
    case False
    then have ne: "drop ?n left \<noteq> []" using 1(4) F(2) by auto
    have "drop c (take n C) = replicate (pad c) 0 @ frame lib (fragment_type first (length left = ?n)) ?d @ take (n - ?c) ((if drop ?n left = [] then [] else rec_bytes lib ?c False (drop ?n left)) @ rest)"
      unfolding drop_take F(1) using False F(4) by (simp add: take_Cons' add.assoc)
    then obtain r1 off where r1: "at (take n C) (c + pad c + kHeaderSize + length ?d) r1"
      "ReadRecord_loop lib fr (\<not> first, acc, p) r =
        (if length left = ?n then (r1\<lparr>lr_last_offset := if first then off else p\<rparr>, Some ?acc)
         else ReadRecord_loop lib ?d (\<not> False, ?acc, if first then off else p) r1)"
      using loop_step [OF 1(2) _ fragment_fits] by blast
    have "length left \<noteq> ?n" using ne by auto
    note l = r1(2) [unfolded if_not_P [OF this]]
    have "drop ?c C = rec_bytes lib ?c False (drop ?n left) @ rest" using F(3) unfolding if_not_P [OF ne] .
    moreover have "n < ?c + length (rec_bytes lib ?c False (drop ?n left))" using 1(4) unfolding F(2) if_not_P [OF ne] .
    ultimately show ?thesis using 1(1) [OF refl ne r1(1) [unfolded F(4)]] unfolding l by blast
  qed
qed

lemma loop_end:
  assumes "at C (length C) r"
  shows "\<exists>r'. ReadRecord_loop lib fr (False, acc, p) r = (r', None) \<and> lr_reports r' = []"
proof -
  have b: "length (lr_buffer r) < kHeaderSize" "lr_reports r = []" "\<not> lr_resyncing r" using assms by (simp_all add: at_def Let_def kHeaderSize_def)
  have "\<exists>r1. ReadPhysicalRecord lib fr r = (r1, kEof, fr) \<and> lr_reports r1 = [] \<and> \<not> lr_resyncing r1"
  proof (cases "lr_eof r")
    case True
    with b show ?thesis by (subst ReadPhysicalRecord.simps) (simp add: clear_buffer_def)
  next
    case False
    obtain r1 where r1: "ReadPhysicalRecord lib fr r = ReadPhysicalRecord lib fr r1" "at C (length C + pad (length C)) r1"
        "lr_buffer r1 = take kBlockSize (drop (length C + pad (length C)) C)" "lr_eof r1 \<longleftrightarrow> length C < length C + pad (length C) + kBlockSize"
      using at_refill [OF assms b(1) False] by metis
    then show ?thesis unfolding r1(1) by (subst ReadPhysicalRecord.simps) (simp add: clear_buffer_def at_def Let_def block_defs)
  qed
  then obtain r1 where r1: "ReadPhysicalRecord lib fr r = (r1, kEof, fr)" "lr_reports r1 = []" "\<not> lr_resyncing r1" by blast
  have "r1\<lparr>lr_resyncing := False\<rparr> = r1" using r1(3) by simp
  from round_at [OF r1(1,3) this, of "(False, acc, p)"] obtain off where "ReadRecord_round lib fr (False, acc, p) r =
      (case ReadRecord_switch kEof fr off (False, acc, p) r1 of Inl x \<Rightarrow> Inl x | Inr (r, st) \<Rightarrow> Inr (fr, r, st))" by blast
  moreover have "ReadRecord_switch kEof fr off (False, acc, p) r1 = Inl (r1, None)"
    by (simp add: ReadRecord_switch_def kEof_def kMaxRecordType_def record_type_code_def)
  ultimately show ?thesis using r1(2) by (subst ReadRecord_loop.simps) simp
qed

section \<open>All records\<close>

lemma switch_record: "ReadRecord_switch t f off st r = Inl (r', Some x) \<Longrightarrow> t \<noteq> kEof \<and> unread r' = unread r"
  by (auto simp: ReadRecord_switch_def Let_def unread_def kEof_def kMaxRecordType_def record_type_code_def split: prod.splits if_splits)

lemma ReadRecord_round_record: "ReadRecord_round lib fr st r = Inl (r', Some x) \<Longrightarrow> unread r' < unread r"
proof -
  assume a: "ReadRecord_round lib fr st r = Inl (r', Some x)"
  obtain r1 t f where p: "ReadPhysicalRecord lib fr r = (r1, t, f)" by (metis prod_cases3)
  have "t \<noteq> kEof \<and> unread r' = unread r1"
    using a unfolding ReadRecord_round_def p Let_def
    by (auto simp: unread_def split: if_splits sum.splits dest: switch_record)
  with ReadPhysicalRecord_unread [OF p] show ?thesis by simp
qed

lemma ReadRecord_loop_unread: "ReadRecord_loop lib fr st r = (r', Some x) \<Longrightarrow> unread r' < unread r"
proof (induction lib fr st r rule: ReadRecord_loop.induct)
  case (1 lib fr st r)
  show ?case
  proof (cases "ReadRecord_round lib fr st r")
    case (Inl a)
    then show ?thesis using 1(2) ReadRecord_round_record by (simp add: ReadRecord_loop.simps [of lib fr st r])
  next
    case (Inr b)
    obtain f1 r1 st1 where b: "b = (f1, r1, st1)" by (metis prod_cases3)
    then have "unread r' < unread r1" using 1 Inr by (simp add: ReadRecord_loop.simps [of lib fr st r])
    with ReadRecord_round_unread [OF Inr [unfolded b]] show ?thesis by simp
  qed
qed

lemma Skip_unread: "SkipToInitialBlock r = (r', ok) \<Longrightarrow> unread r' \<le> unread r"
  by (auto simp: SkipToInitialBlock_def SequentialFile_Skip_def unread_def Let_def split: if_splits option.splits prod.splits)

lemma ReadRecord_unread: "ReadRecord lib r = (r', Some x) \<Longrightarrow> unread r' < unread r"
  using ReadRecord_loop_unread Skip_unread
  by (auto simp: ReadRecord_def split: if_splits prod.splits) (meson order_less_le_trans)+

text \<open>The loop of a client that reads until there is no more.\<close>

function read_records :: "crc_lib \<Rightarrow> log_reader \<Rightarrow> bytes list \<times> log_reader" where
  "read_records lib r =
     (case ReadRecord lib r of
        (r', None) \<Rightarrow> ([], r')
      | (r', Some x) \<Rightarrow> (let (xs, r'') = read_records lib r' in (x # xs, r'')))"
  by pat_completeness auto
termination
  by (relation "measure (\<lambda>(lib, r). unread r)") (auto dest: ReadRecord_unread [OF sym])

declare read_records.simps [simp del]

text \<open>How many of the records of a log that begins at \<open>c\<close> are whole in the first \<open>n\<close> bytes.\<close>

fun whole :: "crc_lib \<Rightarrow> nat \<Rightarrow> nat \<Rightarrow> bytes list \<Rightarrow> nat" where
  "whole lib c n [] = 0"
| "whole lib c n (x # xs) =
     (let e = c + length (rec_bytes lib c True x) in if e \<le> n then Suc (whole lib e n xs) else 0)"

lemma whole_le: "whole lib c n xs \<le> length xs"
  by (induction xs arbitrary: c) (simp_all add: Let_def)

lemma whole_all: "c + length (log_bytes lib c (take k xs)) \<le> n \<Longrightarrow> k \<le> length xs \<Longrightarrow> k \<le> whole lib c n xs"
proof (induction xs arbitrary: c k)
  case (Cons x xs)
  show ?case
  proof (cases k)
    case (Suc k')
    then show ?thesis using Cons(1) [of "c + length (rec_bytes lib c True x)" k'] Cons(2,3) by (simp add: Let_def)
  qed simp
qed simp

lemma ReadRecord_at: "at C c r \<Longrightarrow> ReadRecord lib r = ReadRecord_loop lib [] (False, [], 0) r"
  by (simp add: ReadRecord_def at_def Let_def)

lemma read_log:
  "at (take n C) c r \<Longrightarrow> drop c C = log_bytes lib c xs \<Longrightarrow> c \<le> length C \<Longrightarrow>
     \<exists>r'. read_records lib r = (take (whole lib c n xs) xs, r') \<and> lr_reports r' = []"
proof (induction xs arbitrary: c r)
  case Nil
  then have "length C = c" by simp
  moreover have "c \<le> length (take n C)" using Nil(1) by (auto simp: at_def Let_def)
  ultimately have "take n C = C" "at C (length C) r" using Nil(1) by simp_all
  with loop_end [of C r lib "[]" "[]" 0] ReadRecord_at [OF Nil(1), of lib] show ?case by (subst read_records.simps) auto
next
  case (Cons x xs)
  let ?e = "c + length (rec_bytes lib c True x)"
  have d: "drop c C = rec_bytes lib c True x @ log_bytes lib ?e xs" using Cons(3) by simp
  show ?case
  proof (cases "?e \<le> n")
    case True
    then have "drop c (take n C) = rec_bytes lib c True x @ take (n - ?e) (log_bytes lib ?e xs)" unfolding drop_take d by simp
    then obtain r1 where r1: "ReadRecord lib r = (r1, Some x)" "at (take n C) ?e r1"
      using loop_record [OF Cons(2), of lib True x _ "[]" "[]" 0] ReadRecord_at [OF Cons(2)] by auto
    have "drop ?e C = log_bytes lib ?e xs" using arg_cong [OF d, of "drop (length (rec_bytes lib c True x))"] by (simp add: add.commute)
    moreover have "?e \<le> length C" using arg_cong [OF d, of length] Cons(4) by simp
    ultimately show ?thesis using Cons(1) [OF r1(2)] True r1(1) by (subst read_records.simps) (auto simp: Let_def)
  next
    case False
    then obtain r1 where "ReadRecord lib r = (r1, None)" "lr_reports r1 = []"
      using loop_cut [OF Cons(2) d, of "[]" "[]" 0] ReadRecord_at [OF Cons(2)] by auto
    with False show ?thesis by (subst read_records.simps) (simp add: Let_def)
  qed
qed

text \<open>A reader of a file from its start, as \<^verbatim>\<open>DBImpl::RecoverLogFile\<close> opens it.\<close>

definition open_log :: "bytes \<Rightarrow> read_reply list \<Rightarrow> bool \<Rightarrow> bool \<Rightarrow> nat \<Rightarrow> log_reader" where
  "open_log C replies reporter checksum store =
     Reader \<lparr>sf_name = [], sf_content = C, sf_pos = 0, sf_reads = replies, sf_lseek = None\<rparr> reporter checksum 0 store"

lemma open_log_at: "set replies \<subseteq> {Read_eintr} \<Longrightarrow> at C 0 (open_log C replies reporter checksum store)"
  by (simp add: at_def open_log_def Reader_def Let_def)

lemma read_prefix:
  assumes "prefix C (log_bytes lib 0 xs)" "set replies \<subseteq> {Read_eintr}"
  obtains r where "read_records lib (open_log C replies reporter checksum store) = (take (whole lib 0 (length C) xs) xs, r)" "lr_reports r = []"
proof -
  have "take (length C) (log_bytes lib 0 xs) = C" using assms(1) by (auto simp: prefix_def)
  then have "at (take (length C) (log_bytes lib 0 xs)) 0 (open_log C replies reporter checksum store)" using open_log_at [OF assms(2)] by simp
  from read_log [OF this] show thesis using that by auto
qed

lemma Writer_ok: "wf_file f = [] \<Longrightarrow> wf_buf f = [] \<Longrightarrow> writer_ok lib (Writer lib a f)"
  by (auto simp: writer_ok_def Writer_def)

text \<open>
  C6: Records are added to a new log until a write fails, or all of them are in. Whatever part of the file survives, a
  reader returns the first records as they were given, in order, and reports no corruption; from the file as the kernel has
  it the reader returns every record whose addition was acknowledged.
\<close>

theorem log_survives:
  assumes "crc_lib_ok lib" "wf_file f = []" "wf_buf f = []" "add_records lib recs (Writer lib a f) = (w, k)" "set replies \<subseteq> {Read_eintr}"
  shows "\<exists>j r. read_records lib (open_log (take n (wf_file (lw_dest w))) replies reporter checksum store) = (map snd (take j recs), r) \<and>
    lr_reports r = [] \<and> (length (wf_file (lw_dest w)) \<le> n \<longrightarrow> k \<le> j) \<and> k \<le> length recs"
proof -
  let ?C = "wf_file (lw_dest w)" and ?xs = "map snd recs"
  have "log_file (Writer lib a f) = []" using assms(2) by (simp add: Writer_def)
  with add_records_spec [OF assms(1) Writer_ok [OF assms(2,3)] assms(4)]
  have k: "k \<le> length recs" "prefix (log_bytes lib 0 (map snd (take k recs))) ?C" "prefix ?C (log_bytes lib 0 ?xs)" by simp_all
  let ?j = "whole lib 0 (length (take n ?C)) ?xs"
  have "prefix (take n ?C) (log_bytes lib 0 ?xs)" using k(3) take_is_prefix prefix_order.trans by blast
  then obtain r where r: "read_records lib (open_log (take n ?C) replies reporter checksum store) = (take ?j ?xs, r)" "lr_reports r = []"
    using read_prefix [OF _ assms(5)] by metis
  have "k \<le> ?j" if "length ?C \<le> n"
    using whole_all [of 0 lib k ?xs "length ?C"] k(1,2) that prefix_length_le [OF k(2)] by (simp add: take_map)
  then show ?thesis using r k(1) by (intro exI [of _ ?j] exI [of _ r]) (simp add: take_map)
qed

text \<open>Two records on a disk that takes ten bytes and then fails.\<close>

theorem log_survives_witness:
  "\<exists>w k j r. add_records None [(0, [1, 2, 3]), (8, [4])] (Writer None 0 \<lparr>wf_name = ''000003.log'', wf_file = [], wf_synced = 0, wf_buf = [],
       wf_open = True, wf_writes = [Wrote 10, Write_error (5, ''Input/output error'')]\<rparr>) = (w, k) \<and>
     read_records None (open_log (take 20 (wf_file (lw_dest w))) [Read_eintr] True True 64) = (map snd (take j [(0 :: nat, [1, 2, 3]), (8, [4])]), r) \<and> lr_reports r = []"
proof -
  let ?f = "\<lparr>wf_name = ''000003.log'', wf_file = [], wf_synced = 0, wf_buf = [], wf_open = True, wf_writes = [Wrote 10, Write_error (5, ''Input/output error'')]\<rparr>"
  obtain w k where w: "add_records None [(0, [1, 2, 3]), (8, [4])] (Writer None 0 ?f) = (w, k)" by fastforce
  moreover have "crc_lib_ok None" by (simp add: crc_lib_ok_def)
  ultimately show ?thesis using log_survives [of None ?f "[(0, [1, 2, 3]), (8, [4])]" 0 w k "[Read_eintr]" 20 True True 64]
    by (metis (no_types, lifting) list.set(1,2) order_refl writable_file.select_convs(2,4))
qed

end
