(* ===== verification/Ldb_Format.thy ===== *)
theory Ldb_Format
  imports Ldb_Coding "HOL-Library.List_Lexorder" "HOL-Library.Product_Lexorder"
begin

text \<open>
  Keys of LevelDB: the comparator of byte strings, \<^verbatim>\<open>util/comparator.cc\<close> and \<^verbatim>\<open>Slice::compare\<close>, and internal keys,
  \<^verbatim>\<open>db/dbformat.h\<close> and \<^verbatim>\<open>dbformat.cc\<close>, which carry a sequence number and a type behind the key of the user. The locale
  \<open>key_comparator\<close> is the contract of \<^verbatim>\<open>include/leveldb/comparator.h\<close>.
\<close>

unbundle bit_operations_syntax

section \<open>The code\<close>

subsection \<open>Byte strings\<close>

text \<open>\<^verbatim>\<open>memcmp\<close> of the first \<open>n\<close> bytes of two buffers that have them.\<close>

fun memcmp :: "nat \<Rightarrow> bytes \<Rightarrow> bytes \<Rightarrow> int" where
  "memcmp (Suc n) (a # as) (b # bs) = (if a = b then memcmp n as bs else uint a - uint b)"
| "memcmp _ _ _ = 0"

definition Slice_compare :: "bytes \<Rightarrow> bytes \<Rightarrow> int" where
  "Slice_compare a b =
     (let min_len = (if length a < length b then length a else length b);
          r = memcmp min_len a b
      in if r = 0 then if length a < length b then -1 else if length a > length b then 1 else r else r)"

definition Bytewise_Compare :: "bytes \<Rightarrow> bytes \<Rightarrow> int" where
  "Bytewise_Compare a b = Slice_compare a b"

fun diff_loop :: "nat \<Rightarrow> nat \<Rightarrow> bytes \<Rightarrow> bytes \<Rightarrow> nat" where
  "diff_loop 0 diff_index start limit = diff_index"
| "diff_loop (Suc n) diff_index start limit =
     (if start ! diff_index = limit ! diff_index then diff_loop n (Suc diff_index) start limit else diff_index)"

definition Bytewise_FindShortestSeparator :: "bytes \<Rightarrow> bytes \<Rightarrow> bytes" where
  "Bytewise_FindShortestSeparator start limit =
     (let min_length = min (length start) (length limit);
          diff_index = diff_loop min_length 0 start limit
      in if diff_index \<ge> min_length then start
         else
           let diff_byte = start ! diff_index
           in if diff_byte < 0xff \<and> unat diff_byte + 1 < unat (limit ! diff_index)
              then take (diff_index + 1) (start[diff_index := start ! diff_index + 1])
              else start)"

fun Bytewise_FindShortSuccessor_loop :: "nat \<Rightarrow> nat \<Rightarrow> bytes \<Rightarrow> bytes" where
  "Bytewise_FindShortSuccessor_loop 0 i key = key"
| "Bytewise_FindShortSuccessor_loop (Suc n) i key =
     (if key ! i \<noteq> 0xff then take (i + 1) (key[i := key ! i + 1])
      else Bytewise_FindShortSuccessor_loop n (Suc i) key)"

definition Bytewise_FindShortSuccessor :: "bytes \<Rightarrow> bytes" where
  "Bytewise_FindShortSuccessor key = Bytewise_FindShortSuccessor_loop (length key) 0 key"

subsection \<open>Internal keys\<close>

datatype ValueType = kTypeDeletion | kTypeValue

definition value_type_code :: "ValueType \<Rightarrow> u64" where
  "value_type_code t = (case t of kTypeDeletion \<Rightarrow> 0x0 | kTypeValue \<Rightarrow> 0x1)"

definition kValueTypeForSeek :: ValueType where
  "kValueTypeForSeek = kTypeValue"

definition kMaxSequenceNumber :: u64 where
  "kMaxSequenceNumber = push_bit 56 0x1 - 1"

record ParsedInternalKey =
  user_key :: bytes
  key_sequence :: u64
  key_type :: ValueType

definition InternalKeyEncodingLength :: "ParsedInternalKey \<Rightarrow> nat" where
  "InternalKeyEncodingLength key = length (user_key key) + 8"

definition PackSequenceAndType :: "u64 \<Rightarrow> ValueType \<Rightarrow> u64" where
  "PackSequenceAndType s t = push_bit 8 s OR value_type_code t"

definition AppendInternalKey :: "bytes \<Rightarrow> ParsedInternalKey \<Rightarrow> bytes" where
  "AppendInternalKey result key = PutFixed64 (result @ user_key key) (PackSequenceAndType (key_sequence key) (key_type key))"

definition ExtractUserKey :: "bytes \<Rightarrow> bytes" where
  "ExtractUserKey internal_key = take (length internal_key - 8) internal_key"

text \<open>\<open>None\<close> is the result false, which leaves the parsed key undefined.\<close>

definition ParseInternalKey :: "bytes \<Rightarrow> ParsedInternalKey option" where
  "ParseInternalKey internal_key =
     (let n = length internal_key
      in if n < 8 then None
         else
           let num = ldb_DecodeFixed64 (drop (n - 8) internal_key);
               c = num AND 0xff
           in if c \<le> value_type_code kTypeValue
              then Some \<lparr>user_key = take (n - 8) internal_key, key_sequence = drop_bit 8 num, key_type = (if c = 0 then kTypeDeletion else kTypeValue)\<rparr>
              else None)"

text \<open>The comparator of internal keys, over the operations of the comparator of the user.\<close>

definition InternalKeyComparator_Compare :: "(bytes \<Rightarrow> bytes \<Rightarrow> int) \<Rightarrow> bytes \<Rightarrow> bytes \<Rightarrow> int" where
  "InternalKeyComparator_Compare user_compare akey bkey =
     (let r = user_compare (ExtractUserKey akey) (ExtractUserKey bkey)
      in if r = 0
         then
           let anum = ldb_DecodeFixed64 (drop (length akey - 8) akey);
               bnum = ldb_DecodeFixed64 (drop (length bkey - 8) bkey)
           in if anum > bnum then -1 else if anum < bnum then 1 else r
         else r)"

definition InternalKeyComparator_FindShortestSeparator ::
  "(bytes \<Rightarrow> bytes \<Rightarrow> int) \<Rightarrow> (bytes \<Rightarrow> bytes \<Rightarrow> bytes) \<Rightarrow> bytes \<Rightarrow> bytes \<Rightarrow> bytes" where
  "InternalKeyComparator_FindShortestSeparator user_compare user_separator start limit =
     (let user_start = ExtractUserKey start;
          user_limit = ExtractUserKey limit;
          tmp = user_separator user_start user_limit
      in if length tmp < length user_start \<and> user_compare user_start tmp < 0
         then PutFixed64 tmp (PackSequenceAndType kMaxSequenceNumber kValueTypeForSeek)
         else start)"

definition InternalKeyComparator_FindShortSuccessor ::
  "(bytes \<Rightarrow> bytes \<Rightarrow> int) \<Rightarrow> (bytes \<Rightarrow> bytes) \<Rightarrow> bytes \<Rightarrow> bytes" where
  "InternalKeyComparator_FindShortSuccessor user_compare user_successor key =
     (let ukey = ExtractUserKey key;
          tmp = user_successor ukey
      in if length tmp < length ukey \<and> user_compare ukey tmp < 0
         then PutFixed64 tmp (PackSequenceAndType kMaxSequenceNumber kValueTypeForSeek)
         else key)"

text \<open>\<^verbatim>\<open>LookupKey\<close>: the bytes from \<^verbatim>\<open>start_\<close> to \<^verbatim>\<open>end_\<close> and how many of them come before \<^verbatim>\<open>kstart_\<close>.\<close>

record LookupKey =
  lk_bytes :: bytes
  lk_kstart :: nat

definition LookupKey_new :: "bytes \<Rightarrow> u64 \<Rightarrow> LookupKey" where
  "LookupKey_new ukey s =
     (let len = EncodeVarint32 (of_nat (length ukey + 8))
      in \<lparr>lk_bytes = len @ ukey @ EncodeFixed64 (PackSequenceAndType s kValueTypeForSeek), lk_kstart = length len\<rparr>)"

definition memtable_key :: "LookupKey \<Rightarrow> bytes" where
  "memtable_key k = lk_bytes k"

definition internal_key :: "LookupKey \<Rightarrow> bytes" where
  "internal_key k = drop (lk_kstart k) (lk_bytes k)"

definition lookup_user_key :: "LookupKey \<Rightarrow> bytes" where
  "lookup_user_key k = take (length (lk_bytes k) - lk_kstart k - 8) (drop (lk_kstart k) (lk_bytes k))"

section \<open>The contract of a comparator\<close>

text \<open>
  The last law but one is not in the comment of the interface; the comparator of internal keys relies on it when it compares two
  versions of one key.
\<close>

definition compares :: "('r::linorder) \<Rightarrow> 'r \<Rightarrow> int \<Rightarrow> bool" where
  "compares a b r \<longleftrightarrow> (r < 0 \<longleftrightarrow> a < b) \<and> (r = 0 \<longleftrightarrow> a = b)"

lemma compares_gt: "compares a b r \<Longrightarrow> r > 0 \<longleftrightarrow> b < a"
  by (auto simp: compares_def)

locale key_comparator =
  fixes valid :: "bytes \<Rightarrow> bool"
    and rank :: "bytes \<Rightarrow> 'r::linorder"
    and cmp :: "bytes \<Rightarrow> bytes \<Rightarrow> int"
    and separator :: "bytes \<Rightarrow> bytes \<Rightarrow> bytes"
    and successor :: "bytes \<Rightarrow> bytes"
  assumes cmp_rank: "valid a \<Longrightarrow> valid b \<Longrightarrow> compares (rank a) (rank b) (cmp a b)"
    and separator_between: "valid a \<Longrightarrow> valid b \<Longrightarrow> rank a < rank b \<Longrightarrow>
      valid (separator a b) \<and> rank a \<le> rank (separator a b) \<and> rank (separator a b) < rank b"
    and separator_same: "valid a \<Longrightarrow> valid b \<Longrightarrow> rank a = rank b \<Longrightarrow> valid (separator a b) \<and> rank (separator a b) = rank a"
    and successor_above: "valid a \<Longrightarrow> valid (successor a) \<and> rank a \<le> rank (successor a)"
begin

lemma cmp_trans: "valid a \<Longrightarrow> valid b \<Longrightarrow> valid c \<Longrightarrow> cmp a b \<le> 0 \<Longrightarrow> cmp b c < 0 \<Longrightarrow> cmp a c < 0"
  using cmp_rank [of a b] cmp_rank [of b c] cmp_rank [of a c] by (auto simp: compares_def)

lemma cmp_antisym: "valid a \<Longrightarrow> valid b \<Longrightarrow> cmp a b < 0 \<longleftrightarrow> cmp b a > 0"
  using cmp_rank [of a b] cmp_rank [of b a] compares_gt by (metis compares_def)

end

section \<open>Byte strings\<close>

lemma Slice_compare_simps [simp]:
  "Slice_compare [] [] = 0" "Slice_compare [] (y # b) = -1" "Slice_compare (x # a) [] = 1"
  "Slice_compare (x # a) (y # b) = (if x = y then Slice_compare a b else uint x - uint y)"
  by (auto simp: Slice_compare_def Let_def word_uint_eq_iff)

lemma Slice_compare_compares: "compares a b (Slice_compare a b)"
proof (induction a b rule: list_induct2')
  case (4 x a y b)
  have "uint x - uint y < 0 \<longleftrightarrow> x < y" "uint x - uint y = 0 \<longleftrightarrow> x = y"
    by (simp_all add: word_less_def word_uint_eq_iff)
  with 4 show ?case by (auto simp: compares_def)
qed (simp_all add: compares_def)

lemma diff_loop_shift: "diff_loop n (Suc i) (x # a) (y # b) = Suc (diff_loop n i a b)"
  by (induction n arbitrary: i) simp_all

lemma separator_simps [simp]:
  "Bytewise_FindShortestSeparator [] b = []" "Bytewise_FindShortestSeparator a [] = a"
  "Bytewise_FindShortestSeparator (x # a) (y # b) =
     (if x = y then x # Bytewise_FindShortestSeparator a b
      else if x < 0xff \<and> unat x + 1 < unat y then [x + 1] else x # a)"
  by (auto simp: Bytewise_FindShortestSeparator_def Let_def diff_loop_shift)

lemma byte_succ: "x < 0xff \<Longrightarrow> unat (x + 1 :: byte) = unat x + 1"
proof -
  assume "x < 0xff"
  then have "unat x < 255" by (simp add: word_less_nat_alt)
  then show ?thesis by (simp add: unat_word_ariths)
qed

lemma separator_bytewise: "a < b \<Longrightarrow> a \<le> Bytewise_FindShortestSeparator a b \<and> Bytewise_FindShortestSeparator a b < b"
proof (induction a b rule: list_induct2')
  case (4 x a y b)
  then show ?case using byte_succ [of x] by (auto simp: word_less_nat_alt)
qed simp_all

lemma separator_equal: "Bytewise_FindShortestSeparator a a = a"
  by (induction a) simp_all

lemma successor_loop_shift: "Bytewise_FindShortSuccessor_loop n (Suc i) (x # a) = x # Bytewise_FindShortSuccessor_loop n i a"
  by (induction n arbitrary: i) simp_all

lemma successor_simps [simp]:
  "Bytewise_FindShortSuccessor [] = []"
  "Bytewise_FindShortSuccessor (x # a) = (if x \<noteq> 0xff then [x + 1] else x # Bytewise_FindShortSuccessor a)"
  by (auto simp: Bytewise_FindShortSuccessor_def successor_loop_shift)

lemma successor_bytewise: "a \<le> Bytewise_FindShortSuccessor a"
proof (induction a)
  case (Cons x a)
  have "x \<noteq> 0xff \<Longrightarrow> x < 0xff"
    unfolding word_less_nat_alt word_unat_eq_iff using unat_byte_less [of x] by (simp del: unat_byte_less)
  then show ?case using Cons byte_succ [of x] by (auto simp: word_less_nat_alt)
qed simp

interpretation bytewise: key_comparator "\<lambda>_. True" "\<lambda>a. a" Bytewise_Compare Bytewise_FindShortestSeparator Bytewise_FindShortSuccessor
  by unfold_locales (simp_all add: Bytewise_Compare_def Slice_compare_compares separator_bytewise separator_equal successor_bytewise)

section \<open>Internal keys\<close>

definition key_tag :: "bytes \<Rightarrow> u64" where
  "key_tag k = ldb_DecodeFixed64 (drop (length k - 8) k)"

text \<open>Increasing keys of the user, and for one key decreasing tags.\<close>

definition ikey_rank :: "(bytes \<Rightarrow> 'r) \<Rightarrow> bytes \<Rightarrow> 'r \<times> int" where
  "ikey_rank rank k = (rank (ExtractUserKey k), - uint (key_tag k))"

definition ikey_valid :: "(bytes \<Rightarrow> bool) \<Rightarrow> bytes \<Rightarrow> bool" where
  "ikey_valid valid k \<longleftrightarrow> 8 \<le> length k \<and> valid (ExtractUserKey k)"

lemma ExtractUserKey_Put [simp]: "ExtractUserKey (PutFixed64 u n) = u"
  by (simp add: ExtractUserKey_def PutFixed64_def)

lemma key_tag_Put [simp]: "key_tag (PutFixed64 u n) = n"
  by (simp add: key_tag_def PutFixed64_def ldb_DecodeFixed64_encode [of _ "[]", simplified])

lemma ikey_valid_Put: "ikey_valid valid (PutFixed64 u n) \<longleftrightarrow> valid u"
  by (simp add: ikey_valid_def) (simp add: PutFixed64_def)

context key_comparator
begin

lemma internal_compares:
  assumes "ikey_valid valid a" "ikey_valid valid b"
  shows "compares (ikey_rank rank a) (ikey_rank rank b) (InternalKeyComparator_Compare cmp a b)"
  using assms cmp_rank [of "ExtractUserKey a" "ExtractUserKey b"]
  by (auto simp: ikey_valid_def ikey_rank_def compares_def InternalKeyComparator_Compare_def Let_def key_tag_def word_less_def)

lemma internal_separator:
  assumes "ikey_valid valid a" "ikey_valid valid b" "ikey_rank rank a < ikey_rank rank b"
  defines "r \<equiv> InternalKeyComparator_FindShortestSeparator cmp separator a b"
  shows "ikey_valid valid r \<and> ikey_rank rank a \<le> ikey_rank rank r \<and> ikey_rank rank r < ikey_rank rank b"
proof -
  let ?a = "ExtractUserKey a" and ?b = "ExtractUserKey b"
  let ?t = "separator ?a ?b"
  have v: "valid ?a" "valid ?b" "rank ?a \<le> rank ?b" using assms by (auto simp: ikey_valid_def ikey_rank_def)
  then have "valid ?t \<and> rank ?a \<le> rank ?t \<and> (rank ?t < rank ?b \<or> rank ?t = rank ?a)"
    using separator_between [OF v(1,2)] separator_same [OF v(1,2)] by (cases "rank ?a = rank ?b") auto
  note t = this
  show ?thesis
  proof (cases "length ?t < length ?a \<and> cmp ?a ?t < 0")
    case True
    then have r: "r = PutFixed64 ?t (PackSequenceAndType kMaxSequenceNumber kValueTypeForSeek)"
      by (simp add: r_def InternalKeyComparator_FindShortestSeparator_def)
    have "rank ?a < rank ?t" using True cmp_rank [OF v(1), of ?t] t by (simp add: compares_def)
    then have "rank ?t < rank ?b" using t by auto
    then show ?thesis unfolding r using t \<open>rank ?a < rank ?t\<close> by (simp add: ikey_valid_Put ikey_rank_def)
  next
    case False
    then have "r = a" by (auto simp: r_def InternalKeyComparator_FindShortestSeparator_def)
    then show ?thesis using assms(1,3) by simp
  qed
qed

lemma internal_separator_same:
  assumes "ikey_valid valid a" "ikey_valid valid b" "ikey_rank rank a = ikey_rank rank b"
  shows "ikey_valid valid (InternalKeyComparator_FindShortestSeparator cmp separator a b) \<and>
    ikey_rank rank (InternalKeyComparator_FindShortestSeparator cmp separator a b) = ikey_rank rank a"
proof -
  let ?a = "ExtractUserKey a" and ?b = "ExtractUserKey b"
  have v: "valid ?a" "valid ?b" "rank ?a = rank ?b" using assms by (auto simp: ikey_valid_def ikey_rank_def)
  from separator_same [OF v] cmp_rank [OF v(1), of "separator ?a ?b"]
  have "\<not> cmp ?a (separator ?a ?b) < 0" by (simp add: compares_def)
  then show ?thesis using assms(1) by (simp add: InternalKeyComparator_FindShortestSeparator_def Let_def)
qed

lemma internal_successor:
  assumes "ikey_valid valid a"
  defines "r \<equiv> InternalKeyComparator_FindShortSuccessor cmp successor a"
  shows "ikey_valid valid r \<and> ikey_rank rank a \<le> ikey_rank rank r"
proof -
  let ?a = "ExtractUserKey a"
  have "valid ?a" using assms by (simp add: ikey_valid_def)
  note v = this successor_above [OF this] cmp_rank [OF this, of "successor ?a"]
  show ?thesis
  proof (cases "length (successor ?a) < length ?a \<and> cmp ?a (successor ?a) < 0")
    case True
    then have "r = PutFixed64 (successor ?a) (PackSequenceAndType kMaxSequenceNumber kValueTypeForSeek)"
      by (simp add: r_def InternalKeyComparator_FindShortSuccessor_def)
    then show ?thesis using True v by (simp add: ikey_valid_Put ikey_rank_def compares_def)
  next
    case False
    then have "r = a" by (auto simp: r_def InternalKeyComparator_FindShortSuccessor_def)
    then show ?thesis using assms(1) by simp
  qed
qed

lemma internal_comparator:
  "key_comparator (ikey_valid valid) (ikey_rank rank) (InternalKeyComparator_Compare cmp)
     (InternalKeyComparator_FindShortestSeparator cmp separator) (InternalKeyComparator_FindShortSuccessor cmp successor)"
  by unfold_locales (simp_all add: internal_compares internal_separator internal_separator_same internal_successor)

end

text \<open>The comparator of the keys in a database with the default options.\<close>

interpretation internal: key_comparator "ikey_valid (\<lambda>_. True)" "ikey_rank (\<lambda>a. a)" "InternalKeyComparator_Compare Bytewise_Compare"
  "InternalKeyComparator_FindShortestSeparator Bytewise_Compare Bytewise_FindShortestSeparator"
  "InternalKeyComparator_FindShortSuccessor Bytewise_Compare Bytewise_FindShortSuccessor"
  by (rule bytewise.internal_comparator)

lemma and_ff_u64: "(w :: u64) AND 0xff = take_bit 8 w"
  using take_bit_eq_mask [of 8 w] by (simp add: mask_eq_exp_minus_1)

lemma Pack_fields:
  shows "PackSequenceAndType s t AND 0xff = value_type_code t" "s \<le> kMaxSequenceNumber \<Longrightarrow> drop_bit 8 (PackSequenceAndType s t) = s"
proof -
  have t: "bit (value_type_code t) n \<longleftrightarrow> t = kTypeValue \<and> n = 0" for n by (cases t) (auto simp: value_type_code_def bit_1_iff)
  show "PackSequenceAndType s t AND 0xff = value_type_code t"
    unfolding and_ff_u64 by (rule bit_eqI) (auto simp: PackSequenceAndType_def bit_take_bit_iff bit_or_iff bit_push_bit_iff t)
  assume s: "s \<le> kMaxSequenceNumber"
  have "unat s < 2 ^ 56" using s by (simp add: kMaxSequenceNumber_def word_le_nat_alt)
  then have "take_bit 56 (unat s) = unat s" by (rule take_bit_nat_eq_self)
  then have "bit (unat s) n \<Longrightarrow> n < 56" for n by (metis bit_take_bit_iff)
  then have "bit s n \<Longrightarrow> n < 56" for n by (simp add: bit_unsigned_iff bit_imp_le_length)
  then show "drop_bit 8 (PackSequenceAndType s t) = s"
    by (intro bit_eqI) (auto simp: PackSequenceAndType_def bit_drop_bit_eq bit_or_iff bit_push_bit_iff t)
qed

lemma ParseInternalKey_Append:
  assumes "key_sequence k \<le> kMaxSequenceNumber"
  shows "ParseInternalKey (AppendInternalKey [] k) = Some k"
proof -
  have "ldb_DecodeFixed64 (EncodeFixed64 n) = n" for n using ldb_DecodeFixed64_encode [of n "[]"] by simp
  with Pack_fields [of "key_sequence k" "key_type k"] assms show ?thesis
    by (cases "key_type k") (simp_all add: ParseInternalKey_def AppendInternalKey_def PutFixed64_def Let_def value_type_code_def)
qed

end
