(* ===== verification/Ldb_Skiplist.thy ===== *)
theory Ldb_Skiplist
  imports Prelude
begin

text \<open>
  The skip list of LevelDB, \<^verbatim>\<open>db/skiplist.h\<close>, and the generator of its heights, \<^verbatim>\<open>util/random.h\<close>. Nodes are numbered in the
  order of their allocation, the head being number 0. An operation is \<open>None\<close> when it reads outside a node or a pointer that
  was never set, or does not return. Writers are serialised by their callers, but readers run at any time; the stores that
  they can see are definitions of their own, so that readers can be put between any two of them.
\<close>

unbundle bit_operations_syntax

section \<open>Random heights\<close>

definition Random_new :: "u32 \<Rightarrow> u32" where
  "Random_new s = (let seed = s AND 0x7fffffff in if seed = 0 \<or> seed = 2147483647 then 1 else seed)"

definition Random_Next :: "u32 \<Rightarrow> u32" where
  "Random_Next seed =
     (let product = ucast seed * 16807 :: u64;
          seed = ucast (drop_bit 31 product + (product AND 2147483647)) :: u32
      in if seed > 2147483647 then seed - 2147483647 else seed)"

definition kMaxHeight :: nat where
  "kMaxHeight = 12"

fun RandomHeight_loop :: "nat \<Rightarrow> nat \<Rightarrow> u32 \<Rightarrow> nat \<times> u32" where
  "RandomHeight_loop 0 height rnd = (height, rnd)"
| "RandomHeight_loop (Suc n) height rnd =
     (let rnd = Random_Next rnd in if rnd mod 4 = 0 then RandomHeight_loop n (height + 1) rnd else (height, rnd))"

definition RandomHeight :: "u32 \<Rightarrow> nat \<times> u32" where
  "RandomHeight rnd = RandomHeight_loop (kMaxHeight - 1) 1 rnd"

section \<open>Nodes\<close>

datatype sl_ptr = Uninit | Null | Addr nat

record 'k sl_node =
  sn_key :: "'k option"
  sn_next :: "sl_ptr list"

record 'k skiplist =
  sl_nodes :: "'k sl_node list"
  sl_max_height :: nat
  sl_rnd :: u32

definition node_Next :: "'k skiplist \<Rightarrow> nat \<Rightarrow> nat \<Rightarrow> nat option option" where
  "node_Next s x n =
     (if x < length (sl_nodes s) \<and> n < length (sn_next (sl_nodes s ! x))
      then (case sn_next (sl_nodes s ! x) ! n of Uninit \<Rightarrow> None | Null \<Rightarrow> Some None | Addr y \<Rightarrow> Some (Some y))
      else None)"

definition node_SetNext :: "nat \<Rightarrow> nat \<Rightarrow> nat option \<Rightarrow> 'k skiplist \<Rightarrow> 'k skiplist" where
  "node_SetNext x n y s =
     (let node = sl_nodes s ! x; p = (case y of None \<Rightarrow> Null | Some a \<Rightarrow> Addr a)
      in s\<lparr>sl_nodes := (sl_nodes s)[x := node\<lparr>sn_next := (sn_next node)[n := p]\<rparr>]\<rparr>)"

definition node_key :: "'k skiplist \<Rightarrow> nat \<Rightarrow> 'k" where
  "node_key s x = the (sn_key (sl_nodes s ! x))"

definition NewNode :: "'k \<Rightarrow> nat \<Rightarrow> 'k skiplist \<Rightarrow> 'k skiplist \<times> nat" where
  "NewNode key height s =
     (s\<lparr>sl_nodes := sl_nodes s @ [\<lparr>sn_key = Some key, sn_next = replicate height Uninit\<rparr>]\<rparr>, length (sl_nodes s))"

text \<open>The head has a key that is never looked at.\<close>

definition SkipList_new :: "'k skiplist" where
  "SkipList_new = \<lparr>sl_nodes = [\<lparr>sn_key = None, sn_next = replicate kMaxHeight Null\<rparr>], sl_max_height = 1, sl_rnd = Random_new 0xdeadbeef\<rparr>"

section \<open>Searching\<close>

text \<open>
  The loop of the three searches, which differ in when they go forward in a list and in what they return: the node they stop at,
  the one behind it, and the nodes they went down from.
\<close>

partial_function (option) sl_search_loop ::
  "(nat option \<Rightarrow> bool) \<Rightarrow> 'k skiplist \<Rightarrow> nat \<Rightarrow> nat \<Rightarrow> nat option list \<Rightarrow> (nat \<times> nat option \<times> nat option list) option" where
  "sl_search_loop forward s x level prev =
     do {
       nxt \<leftarrow> node_Next s x level;
       if forward nxt then sl_search_loop forward s (the nxt) level prev
       else
         let prev = prev[level := Some x]
         in if level = 0 then Some (x, nxt, prev) else sl_search_loop forward s x (level - 1) prev
     }"

definition KeyIsAfterNode :: "('k \<Rightarrow> 'k \<Rightarrow> int) \<Rightarrow> 'k skiplist \<Rightarrow> 'k \<Rightarrow> nat option \<Rightarrow> bool" where
  "KeyIsAfterNode cmp s key n = (case n of None \<Rightarrow> False | Some y \<Rightarrow> cmp (node_key s y) key < 0)"

definition FindGreaterOrEqual :: "('k \<Rightarrow> 'k \<Rightarrow> int) \<Rightarrow> 'k skiplist \<Rightarrow> 'k \<Rightarrow> (nat option \<times> nat option list) option" where
  "FindGreaterOrEqual cmp s key =
     map_option (\<lambda>(x, nxt, prev). (nxt, prev))
       (sl_search_loop (KeyIsAfterNode cmp s key) s 0 (sl_max_height s - 1) (replicate kMaxHeight None))"

definition FindLessThan :: "('k \<Rightarrow> 'k \<Rightarrow> int) \<Rightarrow> 'k skiplist \<Rightarrow> 'k \<Rightarrow> nat option" where
  "FindLessThan cmp s key =
     map_option fst (sl_search_loop (\<lambda>nxt. \<not> (nxt = None \<or> cmp (node_key s (the nxt)) key \<ge> 0)) s 0 (sl_max_height s - 1) [])"

definition FindLast :: "'k skiplist \<Rightarrow> nat option" where
  "FindLast s = map_option fst (sl_search_loop (\<lambda>nxt. nxt \<noteq> None) s 0 (sl_max_height s - 1) [])"

section \<open>Insertion\<close>

text \<open>What \<^verbatim>\<open>Insert\<close> does before it publishes the node: search, height, the new maximum, allocation.\<close>

definition Insert_prepare :: "('k \<Rightarrow> 'k \<Rightarrow> int) \<Rightarrow> 'k \<Rightarrow> 'k skiplist \<Rightarrow> ('k skiplist \<times> nat \<times> nat \<times> nat option list) option" where
  "Insert_prepare cmp key s =
     do {
       (x, prev) \<leftarrow> FindGreaterOrEqual cmp s key;
       let (height, rnd) = RandomHeight (sl_rnd s);
       let s = s\<lparr>sl_rnd := rnd\<rparr>;
       let (s, prev) = (if height > sl_max_height s
                        then (s\<lparr>sl_max_height := height\<rparr>, map (\<lambda>i. if sl_max_height s \<le> i \<and> i < height then Some 0 else prev ! i) [0..<kMaxHeight])
                        else (s, prev));
       let (s, x) = NewNode key height s;
       Some (s, x, height, prev)
     }"

text \<open>One round of its loop, in two stores: the new node gets its successor on a level, then it is made visible there.\<close>

definition Insert_set_next :: "nat \<Rightarrow> nat option list \<Rightarrow> nat \<Rightarrow> 'k skiplist \<Rightarrow> 'k skiplist option" where
  "Insert_set_next x prev i s = do { p \<leftarrow> prev ! i; nxt \<leftarrow> node_Next s p i; Some (node_SetNext x i nxt s) }"

definition Insert_publish :: "nat \<Rightarrow> nat option list \<Rightarrow> nat \<Rightarrow> 'k skiplist \<Rightarrow> 'k skiplist option" where
  "Insert_publish x prev i s = do { p \<leftarrow> prev ! i; Some (node_SetNext p i (Some x) s) }"

definition Insert_link :: "nat \<Rightarrow> nat option list \<Rightarrow> nat \<Rightarrow> 'k skiplist \<Rightarrow> 'k skiplist option" where
  "Insert_link x prev i s = Insert_set_next x prev i s \<bind> Insert_publish x prev i"

fun Insert_loop :: "nat \<Rightarrow> nat option list \<Rightarrow> nat \<Rightarrow> nat \<Rightarrow> 'k skiplist \<Rightarrow> 'k skiplist option" where
  "Insert_loop x prev i 0 s = Some s"
| "Insert_loop x prev i (Suc n) s = Insert_link x prev i s \<bind> Insert_loop x prev (Suc i) n"

definition SkipList_Insert :: "('k \<Rightarrow> 'k \<Rightarrow> int) \<Rightarrow> 'k \<Rightarrow> 'k skiplist \<Rightarrow> 'k skiplist option" where
  "SkipList_Insert cmp key s =
     do {
       (s, x, height, prev) \<leftarrow> Insert_prepare cmp key s;
       Insert_loop x prev 0 height s
     }"

definition SkipList_Contains :: "('k \<Rightarrow> 'k \<Rightarrow> int) \<Rightarrow> 'k skiplist \<Rightarrow> 'k \<Rightarrow> bool option" where
  "SkipList_Contains cmp s key =
     map_option (\<lambda>(x, prev). case x of None \<Rightarrow> False | Some y \<Rightarrow> cmp key (node_key s y) = 0) (FindGreaterOrEqual cmp s key)"

section \<open>Iterators\<close>

text \<open>An iterator is the node it is at, none at first.\<close>

definition Iterator_Valid :: "nat option \<Rightarrow> bool" where
  "Iterator_Valid it \<longleftrightarrow> it \<noteq> None"

definition Iterator_key :: "'k skiplist \<Rightarrow> nat option \<Rightarrow> 'k" where
  "Iterator_key s it = node_key s (the it)"

definition Iterator_Next :: "'k skiplist \<Rightarrow> nat option \<Rightarrow> nat option option" where
  "Iterator_Next s it = it \<bind> (\<lambda>x. node_Next s x 0)"

definition Iterator_Prev :: "('k \<Rightarrow> 'k \<Rightarrow> int) \<Rightarrow> 'k skiplist \<Rightarrow> nat option \<Rightarrow> nat option option" where
  "Iterator_Prev cmp s it = it \<bind> (\<lambda>x. map_option (\<lambda>y. if y = 0 then None else Some y) (FindLessThan cmp s (node_key s x)))"

definition Iterator_Seek :: "('k \<Rightarrow> 'k \<Rightarrow> int) \<Rightarrow> 'k skiplist \<Rightarrow> 'k \<Rightarrow> nat option option" where
  "Iterator_Seek cmp s target = map_option fst (FindGreaterOrEqual cmp s target)"

definition Iterator_SeekToFirst :: "'k skiplist \<Rightarrow> nat option option" where
  "Iterator_SeekToFirst s = node_Next s 0 0"

definition Iterator_SeekToLast :: "'k skiplist \<Rightarrow> nat option option" where
  "Iterator_SeekToLast s = map_option (\<lambda>y. if y = 0 then None else Some y) (FindLast s)"

end
