(* ===== verification/Ldb_Skiplist_Ok.thy ===== *)
theory Ldb_Skiplist_Ok
  imports Ldb_Skiplist
begin

text \<open>
  The skip list is a sorted list. \<open>sl_ok\<close> ties the pointers to one list of nodes for each level, sorted by key, those of a
  level among those of the level below. It holds after every single store of an insertion, so a search that other
  threads interrupt ends at the right node all the same.
\<close>

section \<open>Heights\<close>

lemma RandomHeight_loop_bound: "RandomHeight_loop n h rnd = (h', rnd') \<Longrightarrow> h \<le> h' \<and> h' \<le> h + n"
  by (induction n h rnd rule: RandomHeight_loop.induct) (auto simp: Let_def split: if_splits)

lemma RandomHeight_bound: "RandomHeight rnd = (h, rnd') \<Longrightarrow> 1 \<le> h \<and> h \<le> kMaxHeight"
  using RandomHeight_loop_bound by (fastforce simp: RandomHeight_def kMaxHeight_def)

section \<open>Lists of nodes\<close>

fun sl_linked :: "'k skiplist \<Rightarrow> nat \<Rightarrow> nat \<Rightarrow> nat list \<Rightarrow> bool" where
  "sl_linked s i x [] \<longleftrightarrow> node_Next s x i = Some None"
| "sl_linked s i x (y # ys) \<longleftrightarrow> node_Next s x i = Some (Some y) \<and> sl_linked s i y ys"

lemma linked_append: "sl_linked s i x (as @ bs) \<Longrightarrow> sl_linked s i (last (x # as)) bs"
  by (induction as arbitrary: x) auto

lemma linked_cong: "(\<And>y. y \<in> set (x # ys) \<Longrightarrow> node_Next s' y i = node_Next s y i) \<Longrightarrow> sl_linked s' i x ys \<longleftrightarrow> sl_linked s i x ys"
  by (induction ys arbitrary: x) auto

lemma linked_defined: "sl_linked s i x ys \<Longrightarrow> y \<in> set (x # ys) \<Longrightarrow> node_Next s y i \<noteq> None"
  by (induction ys arbitrary: x) auto

definition first_of :: "nat list \<Rightarrow> nat option" where
  "first_of ys = (case ys of [] \<Rightarrow> None | y # _ \<Rightarrow> Some y)"

lemma linked_next: "sl_linked s i x ys \<Longrightarrow> node_Next s x i = Some (first_of ys)"
  by (cases ys) (simp_all add: first_of_def)

lemma node_Next_Some: "node_Next s x n = Some y \<Longrightarrow> x < length (sl_nodes s) \<and> n < length (sn_next (sl_nodes s ! x))"
  by (auto simp: node_Next_def split: if_splits)

lemma node_Next_SetNext:
  "x < length (sl_nodes s) \<Longrightarrow> n < length (sn_next (sl_nodes s ! x)) \<Longrightarrow>
     node_Next (node_SetNext x n v s) y m = (if y = x \<and> m = n then Some v else node_Next s y m)"
  by (auto simp: node_Next_def node_SetNext_def Let_def nth_list_update split: option.splits)

lemma SetNext_keeps [simp]:
  "sl_max_height (node_SetNext x n v s) = sl_max_height s" "length (sl_nodes (node_SetNext x n v s)) = length (sl_nodes s)"
  "sl_rnd (node_SetNext x n v s) = sl_rnd s"
  by (simp_all add: node_SetNext_def Let_def)

lemma SetNext_node [simp]:
  assumes "y < length (sl_nodes s)"
  shows "node_key (node_SetNext x n v s) y = node_key s y"
    "length (sn_next (sl_nodes (node_SetNext x n v s) ! y)) = length (sn_next (sl_nodes s ! y))"
  using assms by (cases "x = y"; simp add: node_SetNext_def node_key_def Let_def)+

section \<open>Searching\<close>

lemma search_level:
  assumes "\<And>y. forward (Some y) = lt y" "\<not> forward None"
  shows "sl_linked s i x bs \<Longrightarrow> sl_search_loop forward s x i prev =
     (let x' = last (x # takeWhile lt bs); prev = prev[i := Some x']
      in if i = 0 then Some (x', first_of (dropWhile lt bs), prev) else sl_search_loop forward s x' (i - 1) prev)"
proof (induction bs arbitrary: x)
  case Nil
  then show ?case using assms(2) by (subst sl_search_loop.simps) (simp add: first_of_def Let_def)
next
  case (Cons y bs)
  then have n: "node_Next s x i = Some (Some y)" "sl_linked s i y bs" by simp_all
  show ?case
  proof (cases "lt y")
    case True
    then show ?thesis using Cons.IH [OF n(2)] n(1) assms(1) by (subst sl_search_loop.simps) (simp add: Let_def)
  next
    case False
    then show ?thesis using n(1) assms(1) by (subst sl_search_loop.simps) (simp add: first_of_def Let_def)
  qed
qed

text \<open>A list of nodes for each level.\<close>

definition sl_ok :: "('k \<Rightarrow> bool) \<Rightarrow> ('k \<Rightarrow> 'r::linorder) \<Rightarrow> 'k skiplist \<Rightarrow> nat list list \<Rightarrow> bool" where
  "sl_ok valid rank s Ls \<longleftrightarrow> length Ls = kMaxHeight \<and> 1 \<le> sl_max_height s \<and> sl_max_height s \<le> kMaxHeight \<and>
     (\<forall>i<kMaxHeight. sl_linked s i 0 (Ls ! i) \<and> sorted_wrt (\<lambda>x y. rank (node_key s x) < rank (node_key s y)) (Ls ! i)) \<and>
     (\<forall>i<kMaxHeight. \<forall>x\<in>set (Ls ! i). x \<noteq> 0 \<and> valid (node_key s x)) \<and>
     (\<forall>i. Suc i < kMaxHeight \<longrightarrow> set (Ls ! Suc i) \<subseteq> set (Ls ! i)) \<and>
     (\<forall>i<kMaxHeight. sl_max_height s \<le> i \<longrightarrow> Ls ! i = [])"

lemma sl_okD:
  assumes "sl_ok valid rank s Ls"
  shows "length Ls = kMaxHeight" "1 \<le> sl_max_height s" "sl_max_height s \<le> kMaxHeight"
    "i < kMaxHeight \<Longrightarrow> sl_linked s i 0 (Ls ! i)" "i < kMaxHeight \<Longrightarrow> sorted_wrt (\<lambda>x y. rank (node_key s x) < rank (node_key s y)) (Ls ! i)"
    "i < kMaxHeight \<Longrightarrow> x \<in> set (Ls ! i) \<Longrightarrow> x \<noteq> 0" "i < kMaxHeight \<Longrightarrow> x \<in> set (Ls ! i) \<Longrightarrow> valid (node_key s x)"
    "Suc i < kMaxHeight \<Longrightarrow> set (Ls ! Suc i) \<subseteq> set (Ls ! i)" "i < kMaxHeight \<Longrightarrow> sl_max_height s \<le> i \<Longrightarrow> Ls ! i = []"
  using assms by (auto simp: sl_ok_def)

text \<open>A condition that holds up to some key in a sorted list.\<close>

definition sl_below :: "('k \<Rightarrow> bool) \<Rightarrow> ('k \<Rightarrow> 'r::linorder) \<Rightarrow> 'k skiplist \<Rightarrow> (nat \<Rightarrow> bool) \<Rightarrow> bool" where
  "sl_below valid rank s lt \<longleftrightarrow> (\<forall>x y. valid (node_key s x) \<longrightarrow> valid (node_key s y) \<longrightarrow> lt y \<longrightarrow> rank (node_key s x) < rank (node_key s y) \<longrightarrow> lt x)"

lemma takeWhile_all: "\<forall>x\<in>set as. P x \<Longrightarrow> takeWhile P (as @ bs) = as @ takeWhile P bs \<and> dropWhile P (as @ bs) = dropWhile P bs"
  by (induction as) auto

lemma search_down:
  assumes ok: "sl_ok valid rank s Ls" and b: "sl_below valid rank s lt" and f: "\<And>y. forward (Some y) = lt y" "\<not> forward None"
  shows "i < kMaxHeight \<Longrightarrow> length prev = n \<Longrightarrow> x = last (0 # as) \<Longrightarrow> Ls ! i = as @ bs \<Longrightarrow> \<forall>y\<in>set as. lt y \<Longrightarrow>
    \<exists>prev'. sl_search_loop forward s x i prev = Some (last (0 # takeWhile lt (Ls ! 0)), first_of (dropWhile lt (Ls ! 0)), prev') \<and> length prev' = n \<and>
      (\<forall>j<n. prev' ! j = (if j \<le> i then Some (last (0 # takeWhile lt (Ls ! j))) else prev ! j))"
proof (induction i arbitrary: x as bs prev)
  case 0
  have l: "sl_linked s 0 x bs" using linked_append [of s 0 0 as bs] sl_okD(4) [OF ok, of 0] 0 by simp
  have t: "takeWhile lt (Ls ! 0) = as @ takeWhile lt bs" "dropWhile lt (Ls ! 0) = dropWhile lt bs"
    using takeWhile_all [of as lt bs] 0 by auto
  have "last (0 # takeWhile lt (Ls ! 0)) = last (x # takeWhile lt bs)" unfolding t 0(3) by (auto simp: last_append)
  then show ?case using search_level [OF f l, of prev] t 0(2) by (auto simp: Let_def nth_list_update)
next
  case (Suc i)
  have l: "sl_linked s (Suc i) x bs" using linked_append [of s "Suc i" 0 as bs] sl_okD(4) [OF ok Suc(2)] Suc by simp
  have t: "takeWhile lt (Ls ! Suc i) = as @ takeWhile lt bs" using takeWhile_all [of as lt bs] Suc by auto
  let ?x = "last (x # takeWhile lt bs)" and ?p = "prev[Suc i := Some (last (x # takeWhile lt bs))]"
  have x: "?x = last (0 # takeWhile lt (Ls ! Suc i))" unfolding t Suc(4) by (auto simp: last_append)
  have "\<exists>as' bs'. ?x = last (0 # as') \<and> Ls ! i = as' @ bs' \<and> (\<forall>y\<in>set as'. lt y)"
  proof (cases "takeWhile lt (Ls ! Suc i) = []")
    case True
    then show ?thesis unfolding x by (intro exI [of _ "[]"] exI [of _ "Ls ! i"]) simp
  next
    case False
    then have m: "?x \<in> set (takeWhile lt (Ls ! Suc i))" unfolding x by simp
    then have lt: "lt ?x" and "?x \<in> set (Ls ! Suc i)" by (auto dest: set_takeWhileD)
    then have "?x \<in> set (Ls ! i)" using sl_okD(8) [OF ok Suc(2)] by blast
    then obtain as' bs' where s: "Ls ! i = as' @ ?x # bs'" by (metis split_list)
    have "\<forall>y\<in>set as'. rank (node_key s y) < rank (node_key s ?x)"
      using sl_okD(5) [OF ok, of i] Suc(2) unfolding s by (simp add: sorted_wrt_append)
    moreover have "\<forall>y\<in>set (as' @ [?x]). valid (node_key s y)" using sl_okD(7) [OF ok, of i] Suc(2) unfolding s by simp
    ultimately have "\<forall>y\<in>set (as' @ [?x]). lt y" using lt b by (auto simp: sl_below_def)
    then show ?thesis using s by (intro exI [of _ "as' @ [?x]"] exI [of _ bs']) simp
  qed
  then obtain as' bs' where "?x = last (0 # as')" "Ls ! i = as' @ bs'" "\<forall>y\<in>set as'. lt y" by blast
  from Suc(1) [OF _ _ this, of ?p] Suc(2,3) obtain prev' where
    "sl_search_loop forward s ?x i ?p = Some (last (0 # takeWhile lt (Ls ! 0)), first_of (dropWhile lt (Ls ! 0)), prev')" "length prev' = n"
    "\<forall>j<n. prev' ! j = (if j \<le> i then Some (last (0 # takeWhile lt (Ls ! j))) else ?p ! j)" by auto
  then show ?case using search_level [OF f l, of prev] x Suc(3)
    by (auto simp: Let_def nth_list_update le_Suc_eq intro!: exI [of _ prev'])
qed

lemma sl_new_ok: "sl_ok valid rank SkipList_new (replicate kMaxHeight [])"
  by (simp add: sl_ok_def SkipList_new_def node_Next_def kMaxHeight_def nth_append nth_Cons')

section \<open>Insertion\<close>

lemma sl_ok_nodes:
  assumes "sl_ok valid rank s Ls" "i < kMaxHeight" "y \<in> set (0 # Ls ! i)"
  shows "y < length (sl_nodes s)" "i < length (sn_next (sl_nodes s ! y))"
  using linked_defined [OF sl_okD(4) [OF assms(1,2)] assms(3)] by (auto simp: node_Next_def split: if_splits)

lemma sorted_distinct: "sorted_wrt (\<lambda>x y. (f x :: 'r::linorder) < f y) xs \<Longrightarrow> distinct xs"
  by (induction xs) auto

text \<open>Linking a node into one level.\<close>

lemma linked_insert:
  assumes l: "sl_linked s i 0 (as @ bs)" and d: "distinct (0 # as @ bs)" and x: "x \<notin> set (0 # as @ bs)" "x < length (sl_nodes s)" "i < length (sn_next (sl_nodes s ! x))"
    and p: "p = last (0 # as)"
  shows "sl_linked (node_SetNext p i (Some x) (node_SetNext x i (first_of bs) s)) i 0 (as @ x # bs)"
proof -
  let ?s = "node_SetNext p i (Some x) (node_SetNext x i (first_of bs) s)"
  have pn: "node_Next s p i = Some (first_of bs)" using linked_next [OF linked_append [OF l]] p by simp
  then have pb: "p < length (sl_nodes s)" "i < length (sn_next (sl_nodes s ! p))" using node_Next_Some by blast+
  have n: "node_Next ?s y i = (if y = p then Some (Some x) else if y = x then Some (first_of bs) else node_Next s y i)" for y
    using pb x by (subst node_Next_SetNext) (auto simp: node_Next_SetNext)
  have "sl_linked s i p bs" using linked_append [OF l] p by simp
  moreover have "p \<notin> set bs" using d p by (cases as rule: rev_cases) auto
  ultimately have lb: "sl_linked ?s i x bs"
  proof (cases bs)
    case Nil
    then show ?thesis using n [of x] x(1) p by (auto simp: first_of_def)
  next
    case (Cons y ys)
    have "v \<in> set bs \<Longrightarrow> node_Next ?s v i = node_Next s v i" for v using n [of v] \<open>p \<notin> set bs\<close> x(1) by auto
    then have "sl_linked ?s i y ys \<longleftrightarrow> sl_linked s i y ys" unfolding Cons by (rule linked_cong)
    then show ?thesis using \<open>sl_linked s i p bs\<close> n [of x] x(1) p Cons by (auto simp: first_of_def)
  qed
  have "sl_linked s i z (as @ bs) \<Longrightarrow> distinct (z # as @ bs) \<Longrightarrow> x \<notin> set (z # as) \<Longrightarrow> p = last (z # as) \<Longrightarrow> sl_linked ?s i z (as @ x # bs)" for z as
  proof (induction as arbitrary: z)
    case Nil
    then show ?case using n [of z] lb by simp
  next
    case (Cons y as)
    have "z \<noteq> p" using Cons.prems(2,4) by auto
    then show ?case using Cons n [of z] by auto
  qed
  then show ?thesis using l d x(1) p by simp
qed

definition inserting :: "('k \<Rightarrow> bool) \<Rightarrow> ('k \<Rightarrow> 'r::linorder) \<Rightarrow> 'k skiplist \<Rightarrow> nat list list \<Rightarrow> nat \<Rightarrow> nat \<Rightarrow> nat option list \<Rightarrow> nat \<Rightarrow> bool" where
  "inserting valid rank s Ls x height prev i \<longleftrightarrow>
     x < length (sl_nodes s) \<and> x \<noteq> 0 \<and> valid (node_key s x) \<and> length (sn_next (sl_nodes s ! x)) = height \<and> i \<le> height \<and> height \<le> sl_max_height s \<and>
     (\<forall>j<i. x \<in> set (Ls ! j)) \<and> (\<forall>j. i \<le> j \<longrightarrow> j < kMaxHeight \<longrightarrow> (\<forall>y\<in>set (Ls ! j). rank (node_key s y) \<noteq> rank (node_key s x))) \<and>
     (\<forall>j. i \<le> j \<longrightarrow> j < height \<longrightarrow> prev ! j = Some (last (0 # takeWhile (\<lambda>y. rank (node_key s y) < rank (node_key s x)) (Ls ! j))))"

definition link_at :: "('k \<Rightarrow> 'r::linorder) \<Rightarrow> 'k skiplist \<Rightarrow> nat \<Rightarrow> nat list \<Rightarrow> nat list" where
  "link_at rank s x ys =
     takeWhile (\<lambda>y. rank (node_key s y) < rank (node_key s x)) ys @ x # dropWhile (\<lambda>y. rank (node_key s y) < rank (node_key s x)) ys"

lemma set_link_at [simp]: "set (link_at rank s x ys) = insert x (set ys)"
proof -
  have "set (takeWhile P ys) \<union> set (dropWhile P ys) = set ys" for P :: "nat \<Rightarrow> bool"
    unfolding set_append [symmetric] takeWhile_dropWhile_id ..
  then show ?thesis by (simp add: link_at_def)
qed

lemma sorted_dropWhile:
  assumes "sorted_wrt (\<lambda>x y. (f x :: 'r::linorder) < f y) ys" "y \<in> set (dropWhile (\<lambda>y. f y < k) ys)"
  shows "\<not> f y < k"
  using assms by (induction ys) (auto split: if_splits)

lemma sorted_link_at:
  assumes "sorted_wrt (\<lambda>x y. rank (node_key s x) < rank (node_key s y)) ys" "\<forall>y\<in>set ys. rank (node_key s y) \<noteq> rank (node_key s x)"
  shows "sorted_wrt (\<lambda>x y. rank (node_key s x) < rank (node_key s y)) (link_at rank s x ys)"
proof -
  let ?lt = "\<lambda>y. rank (node_key s y) < rank (node_key s x)"
  have "sorted_wrt (\<lambda>x y. rank (node_key s x) < rank (node_key s y)) (takeWhile ?lt ys @ dropWhile ?lt ys)" using assms(1) by simp
  note this [unfolded sorted_wrt_append]
  moreover have "\<forall>y\<in>set (takeWhile ?lt ys). ?lt y" by (auto dest: set_takeWhileD)
  moreover have "\<forall>y\<in>set (dropWhile ?lt ys). rank (node_key s x) < rank (node_key s y)"
  proof
    fix y assume y: "y \<in> set (dropWhile ?lt ys)"
    then have "y \<in> set ys" by (rule set_dropWhileD)
    with sorted_dropWhile [OF assms(1) y] assms(2) show "rank (node_key s x) < rank (node_key s y)" by fastforce
  qed
  ultimately show ?thesis unfolding link_at_def sorted_wrt_append sorted_wrt.simps(2) list.set(2) by blast
qed

lemma link_ok:
  assumes ok: "sl_ok valid rank s Ls" and ins: "inserting valid rank s Ls x height prev i" and i: "i < height"
  obtains s' where "Insert_link x prev i s = Some s'" "sl_ok valid rank s' (Ls[i := link_at rank s x (Ls ! i)])"
    "inserting valid rank s' (Ls[i := link_at rank s x (Ls ! i)]) x height prev (Suc i)"
    "\<And>y. y < length (sl_nodes s) \<Longrightarrow> node_key s' y = node_key s y" "length (sl_nodes s') = length (sl_nodes s)"
proof -
  let ?lt = "\<lambda>y. rank (node_key s y) < rank (node_key s x)"
  let ?as = "takeWhile ?lt (Ls ! i)" and ?bs = "dropWhile ?lt (Ls ! i)" and ?Ls = "Ls[i := link_at rank s x (Ls ! i)]"
  define p where "p = last (0 # ?as)"
  define s' where "s' = node_SetNext p i (Some x) (node_SetNext x i (first_of ?bs) s)"
  have h: "i < kMaxHeight" using i ins sl_okD(3) [OF ok] by (simp add: inserting_def)
  note D = sl_okD [OF ok]
  have x: "x < length (sl_nodes s)" "i < length (sn_next (sl_nodes s ! x))" "x \<notin> set (0 # Ls ! i)" "prev ! i = Some p"
    using ins i h by (auto simp: inserting_def p_def)
  have l: "sl_linked s i 0 (?as @ ?bs)" using D(4) [OF h] by simp
  have pn: "node_Next s p i = Some (first_of ?bs)" using linked_next [OF linked_append [OF l]] p_def by simp
  have pb: "p < length (sl_nodes s)" "i < length (sn_next (sl_nodes s ! p))" using node_Next_Some [OF pn] by simp_all
  have k: "node_key s' y = node_key s y" if "y < length (sl_nodes s)" for y using that by (simp add: s'_def)
  have n: "node_Next s' y j = node_Next s y j" if "j \<noteq> i" for y j
    unfolding s'_def using pb x that by (subst node_Next_SetNext) (auto simp: node_Next_SetNext)
  have nodes: "y < length (sl_nodes s)" if "j < kMaxHeight" "y \<in> set (Ls ! j)" for y j using sl_ok_nodes(1) [OF ok that(1)] that(2) by simp
  have lk: "sl_linked s' j 0 (?Ls ! j)" if "j < kMaxHeight" for j
  proof (cases "j = i")
    case True
    have "distinct (0 # ?as @ ?bs)" using sorted_distinct [OF D(5) [OF h]] D(6) [OF h] by auto
    from linked_insert [OF l this _ x(1,2) p_def] x(3) show ?thesis using True h D(1) by (simp add: s'_def link_at_def)
  next
    case False
    then show ?thesis using linked_cong [of 0 "Ls ! j" s' j s] n D(4) [OF that] by simp
  qed
  have srt: "sorted_wrt (\<lambda>x y. rank (node_key s' x) < rank (node_key s' y)) (?Ls ! j)" if "j < kMaxHeight" for j
  proof -
    have st: "sorted_wrt (\<lambda>x y. rank (node_key s x) < rank (node_key s y)) (?Ls ! j)"
      using sorted_link_at [OF D(5) [OF h]] D(1,5) that ins h by (auto simp: nth_list_update inserting_def)
    have "y \<in> set (?Ls ! j) \<Longrightarrow> y < length (sl_nodes s)" for y using nodes that x(1) D(1) by (cases "j = i") auto
    then show ?thesis by (intro sorted_wrt_mono_rel [OF _ st]) (simp add: k)
  qed
  have "sl_ok valid rank s' ?Ls"
    unfolding sl_ok_def
  proof (intro conjI allI impI ballI)
    fix j y assume j: "j < kMaxHeight" "y \<in> set (?Ls ! j)"
    then have "y = x \<or> y \<in> set (Ls ! j)" using D(1) by (cases "j = i") auto
    then show "y \<noteq> 0" "valid (node_key s' y)" using D(6,7) [OF j(1)] ins k nodes [OF j(1)] x(1) by (auto simp: inserting_def)
  next
    fix j assume "Suc j < kMaxHeight"
    moreover have "set (?Ls ! m) = (if m = i then insert x (set (Ls ! i)) else set (Ls ! m))" for m using D(1) h by (cases "m = i") auto
    moreover have "Suc j = i \<Longrightarrow> x \<in> set (Ls ! j)" using ins by (simp add: inserting_def)
    ultimately show "set (?Ls ! Suc j) \<subseteq> set (?Ls ! j)" using D(8) [of j] by auto
  next
    fix j assume "j < kMaxHeight" "sl_max_height s' \<le> j"
    moreover from this have "j \<noteq> i" using i ins by (auto simp: s'_def inserting_def)
    ultimately show "?Ls ! j = []" using D(9) by (simp add: s'_def)
  qed (use D lk srt in \<open>auto simp: s'_def\<close>)
  moreover have "inserting valid rank s' ?Ls x height prev (Suc i)"
  proof -
    have tw: "takeWhile (\<lambda>y. rank (node_key s' y) < rank (node_key s' x)) (Ls ! j) = takeWhile ?lt (Ls ! j)" if "j < kMaxHeight" for j
      using nodes [OF that] k x(1) by (intro takeWhile_cong) auto
    have le: "height \<le> kMaxHeight" using ins D(3) by (simp add: inserting_def)
    have s': "length (sl_nodes s') = length (sl_nodes s)" "sl_max_height s' = sl_max_height s" "length (sn_next (sl_nodes s' ! x)) = length (sn_next (sl_nodes s ! x))"
      using x(1) by (simp_all add: s'_def)
    show ?thesis
      unfolding inserting_def
    proof (intro conjI allI impI ballI)
      fix j assume "j < Suc i"
      then show "x \<in> set (?Ls ! j)" using ins D(1) h by (cases "j = i") (auto simp: inserting_def)
    next
      fix j y assume j: "Suc i \<le> j" "j < kMaxHeight" "y \<in> set (?Ls ! j)"
      then have y: "y \<in> set (Ls ! j)" by simp
      have "i \<le> j" using j(1) by simp
      then have "rank (node_key s y) \<noteq> rank (node_key s x)" using ins j(2) y unfolding inserting_def by blast
      then show "rank (node_key s' y) \<noteq> rank (node_key s' x)" using k nodes [OF j(2) y] x(1) by simp
    next
      fix j assume j: "Suc i \<le> j" "j < height"
      then show "prev ! j = Some (last (0 # takeWhile (\<lambda>y. rank (node_key s' y) < rank (node_key s' x)) (?Ls ! j)))"
        using tw [of j] le ins by (simp add: inserting_def)
    qed (use ins i s' k x(1) in \<open>auto simp: inserting_def\<close>)
  qed
  ultimately show thesis using that x(4) pn k by (simp add: Insert_link_def Insert_set_next_def Insert_publish_def s'_def)
qed

text \<open>The two stores one by one: between them nothing has changed for a reader.\<close>

lemma set_next_ok:
  assumes ok: "sl_ok valid rank s Ls" and ins: "inserting valid rank s Ls x height prev i" and i: "i < height"
  obtains s' where "Insert_set_next x prev i s = Some s'" "sl_ok valid rank s' Ls" "inserting valid rank s' Ls x height prev i"
    "Insert_set_next x prev i s' = Some s'"
    "\<And>y. y < length (sl_nodes s) \<Longrightarrow> node_key s' y = node_key s y" "length (sl_nodes s') = length (sl_nodes s)"
proof -
  let ?lt = "\<lambda>y. rank (node_key s y) < rank (node_key s x)"
  let ?as = "takeWhile ?lt (Ls ! i)" and ?bs = "dropWhile ?lt (Ls ! i)"
  define p where "p = last (0 # ?as)"
  define s' where "s' = node_SetNext x i (first_of ?bs) s"
  have h: "i < kMaxHeight" using i ins sl_okD(3) [OF ok] by (simp add: inserting_def)
  note D = sl_okD [OF ok]
  have x: "x < length (sl_nodes s)" "i < length (sn_next (sl_nodes s ! x))" "x \<notin> set (0 # Ls ! i)" "prev ! i = Some p"
    using ins i h by (auto simp: inserting_def p_def)
  have l: "sl_linked s i 0 (?as @ ?bs)" using D(4) [OF h] by simp
  have pn: "node_Next s p i = Some (first_of ?bs)" using linked_next [OF linked_append [OF l]] p_def by simp
  have "p \<in> set (0 # Ls ! i)" using set_takeWhileD [of p ?lt "Ls ! i"] last_in_set [of ?as] by (auto simp: p_def)
  then have px: "p \<noteq> x" using x(3) by blast
  have n: "node_Next s' y j = (if y = x \<and> j = i then Some (first_of ?bs) else node_Next s y j)" for y j
    unfolding s'_def using x by (simp add: node_Next_SetNext)
  have k: "node_key s' y = node_key s y" if "y < length (sl_nodes s)" for y using that by (simp add: s'_def)
  have nodes: "y < length (sl_nodes s)" if "j < kMaxHeight" "y \<in> set (Ls ! j)" for y j using sl_ok_nodes(1) [OF ok that(1)] that(2) by simp
  have lk: "sl_linked s' j 0 (Ls ! j)" if "j < kMaxHeight" for j
  proof -
    have "node_Next s' y j = node_Next s y j" if "y \<in> set (0 # Ls ! j)" for y using n [of y j] x(3) that by auto
    from linked_cong [OF this] show ?thesis using D(4) [OF that] by blast
  qed
  have srt: "sorted_wrt (\<lambda>x y. rank (node_key s' x) < rank (node_key s' y)) (Ls ! j)" if "j < kMaxHeight" for j
    by (rule sorted_wrt_mono_rel [OF _ D(5) [OF that]]) (simp add: k nodes [OF that])
  have ok': "sl_ok valid rank s' Ls" using D lk srt nodes by (simp add: sl_ok_def) (simp add: s'_def)
  have tw: "takeWhile (\<lambda>y. rank (node_key s' y) < rank (node_key s' x)) (Ls ! j) = takeWhile ?lt (Ls ! j)" if "j < kMaxHeight" for j
    using nodes [OF that] k x(1) by (intro takeWhile_cong) auto
  have le: "height \<le> kMaxHeight" using ins D(3) by (simp add: inserting_def)
  have "inserting valid rank s' Ls x height prev i"
    using ins tw le k nodes x(1) by (auto simp: inserting_def) (auto simp: s'_def)
  moreover have "node_SetNext x i (first_of ?bs) s' = s'" using x(1,2) by (simp add: s'_def node_SetNext_def Let_def)
  ultimately show thesis using that [of s'] ok' x(4) pn px n k by (simp add: Insert_set_next_def s'_def)
qed

lemma publish_ok:
  assumes "sl_ok valid rank s Ls" "inserting valid rank s Ls x height prev i" "i < height" "Insert_set_next x prev i s = Some s"
  obtains s' where "Insert_publish x prev i s = Some s'" "sl_ok valid rank s' (Ls[i := link_at rank s x (Ls ! i)])"
    "inserting valid rank s' (Ls[i := link_at rank s x (Ls ! i)]) x height prev (Suc i)"
    "\<And>y. y < length (sl_nodes s) \<Longrightarrow> node_key s' y = node_key s y" "length (sl_nodes s') = length (sl_nodes s)"
  using link_ok [OF assms(1-3)] assms(4) by (auto simp: Insert_link_def)

lemma Insert_loop_ok:
  "sl_ok valid rank s Ls \<Longrightarrow> inserting valid rank s Ls x height prev i \<Longrightarrow> n = height - i \<Longrightarrow>
     \<exists>s' Ls'. Insert_loop x prev i n s = Some s' \<and> sl_ok valid rank s' Ls' \<and> (\<forall>y<length (sl_nodes s). node_key s' y = node_key s y) \<and>
       length (sl_nodes s') = length (sl_nodes s) \<and> (i = 0 \<longrightarrow> 0 < height \<longrightarrow> Ls' ! 0 = link_at rank s x (Ls ! 0)) \<and> (0 < i \<longrightarrow> Ls' ! 0 = Ls ! 0)"
proof (induction n arbitrary: i s Ls)
  case 0
  then show ?case by auto
next
  case (Suc n)
  then have "i < height" by simp
  then obtain s1 where s1: "Insert_link x prev i s = Some s1" "sl_ok valid rank s1 (Ls[i := link_at rank s x (Ls ! i)])"
    "inserting valid rank s1 (Ls[i := link_at rank s x (Ls ! i)]) x height prev (Suc i)"
    "\<And>y. y < length (sl_nodes s) \<Longrightarrow> node_key s1 y = node_key s y" "length (sl_nodes s1) = length (sl_nodes s)"
    using link_ok [OF Suc(2,3)] by blast
  have "n = height - Suc i" using Suc(4) by simp
  from Suc(1) [OF s1(2,3) this] obtain s2 Ls2 where s2: "Insert_loop x prev (Suc i) n s1 = Some s2" "sl_ok valid rank s2 Ls2"
    "\<forall>y<length (sl_nodes s1). node_key s2 y = node_key s1 y" "length (sl_nodes s2) = length (sl_nodes s1)" "Ls2 ! 0 = Ls[i := link_at rank s x (Ls ! i)] ! 0" by auto
  have "length Ls = kMaxHeight" using sl_okD(1) [OF Suc(2)] .
  then show ?case using s1 s2 by (intro exI [of _ s2] exI [of _ Ls2]) (auto simp: kMaxHeight_def)
qed

section \<open>The list under an order\<close>

locale skip_order =
  fixes valid :: "'k \<Rightarrow> bool" and rank :: "'k \<Rightarrow> 'r::linorder" and cmp :: "'k \<Rightarrow> 'k \<Rightarrow> int"
  assumes cmp_less: "valid a \<Longrightarrow> valid b \<Longrightarrow> cmp a b < 0 \<longleftrightarrow> rank a < rank b"
    and cmp_eq: "valid a \<Longrightarrow> valid b \<Longrightarrow> cmp a b = 0 \<longleftrightarrow> rank a = rank b"
begin

abbreviation "lt s key \<equiv> (\<lambda>y. cmp (node_key s y) key < 0)"

lemma below_lt: "valid key \<Longrightarrow> sl_below valid rank s (lt s key)"
  by (auto simp: sl_below_def cmp_less)

lemma lt_rank:
  assumes "sl_ok valid rank s Ls" "i < kMaxHeight" "valid key"
  shows "takeWhile (lt s key) (Ls ! i) = takeWhile (\<lambda>y. rank (node_key s y) < rank key) (Ls ! i)"
    "dropWhile (lt s key) (Ls ! i) = dropWhile (\<lambda>y. rank (node_key s y) < rank key) (Ls ! i)"
  using sl_okD(7) [OF assms(1,2)] assms(3) by (auto intro!: takeWhile_cong dropWhile_cong simp: cmp_less)

lemma FindGreaterOrEqual_ok:
  assumes ok: "sl_ok valid rank s Ls" and key: "valid key"
  obtains prev where "FindGreaterOrEqual cmp s key = Some (first_of (dropWhile (\<lambda>y. rank (node_key s y) < rank key) (Ls ! 0)), prev)"
    "length prev = kMaxHeight" "\<And>j. j < sl_max_height s \<Longrightarrow> prev ! j = Some (last (0 # takeWhile (\<lambda>y. rank (node_key s y) < rank key) (Ls ! j)))"
proof -
  have m: "sl_max_height s - 1 < kMaxHeight" "sl_max_height s \<le> kMaxHeight" using sl_okD(2,3) [OF ok] by simp_all
  have "\<exists>prev. sl_search_loop (KeyIsAfterNode cmp s key) s 0 (sl_max_height s - 1) (replicate kMaxHeight None) =
      Some (last (0 # takeWhile (lt s key) (Ls ! 0)), first_of (dropWhile (lt s key) (Ls ! 0)), prev) \<and> length prev = kMaxHeight \<and>
      (\<forall>j<kMaxHeight. prev ! j = (if j \<le> sl_max_height s - 1 then Some (last (0 # takeWhile (lt s key) (Ls ! j))) else replicate kMaxHeight None ! j))"
    by (rule search_down [OF ok below_lt [OF key], where as = "[]"]) (use m in \<open>auto simp: KeyIsAfterNode_def\<close>)
  then obtain prev where "FindGreaterOrEqual cmp s key = Some (first_of (dropWhile (lt s key) (Ls ! 0)), prev)" "length prev = kMaxHeight"
    "\<forall>j<kMaxHeight. prev ! j = (if j \<le> sl_max_height s - 1 then Some (last (0 # takeWhile (lt s key) (Ls ! j))) else replicate kMaxHeight None ! j)"
    by (auto simp: FindGreaterOrEqual_def)
  then show thesis using that m lt_rank [OF ok _ key] by (simp add: kMaxHeight_def)
qed

lemma FindLessThan_ok:
  assumes ok: "sl_ok valid rank s Ls" and key: "valid key"
  shows "FindLessThan cmp s key = Some (last (0 # takeWhile (\<lambda>y. rank (node_key s y) < rank key) (Ls ! 0)))"
proof -
  have m: "sl_max_height s - 1 < kMaxHeight" "0 < kMaxHeight" using sl_okD(2,3) [OF ok] by simp_all
  have "\<exists>prev. sl_search_loop (\<lambda>nxt. \<not> (nxt = None \<or> cmp (node_key s (the nxt)) key \<ge> 0)) s 0 (sl_max_height s - 1) [] =
      Some (last (0 # takeWhile (lt s key) (Ls ! 0)), first_of (dropWhile (lt s key) (Ls ! 0)), prev) \<and> length prev = 0 \<and>
      (\<forall>j<0. prev ! j = (if j \<le> sl_max_height s - 1 then Some (last (0 # takeWhile (lt s key) (Ls ! j))) else [] ! j))"
    by (rule search_down [OF ok below_lt [OF key], where as = "[]"]) (use m in auto)
  then show ?thesis using lt_rank [OF ok m(2) key] by (auto simp: FindLessThan_def)
qed

lemma FindLast_ok:
  assumes ok: "sl_ok valid rank s Ls"
  shows "FindLast s = Some (last (0 # Ls ! 0))"
proof -
  have m: "sl_max_height s - 1 < kMaxHeight" using sl_okD(2,3) [OF ok] by simp
  have "\<exists>prev. sl_search_loop (\<lambda>nxt. nxt \<noteq> None) s 0 (sl_max_height s - 1) [] =
      Some (last (0 # takeWhile (\<lambda>_. True) (Ls ! 0)), first_of (dropWhile (\<lambda>_. True) (Ls ! 0)), prev) \<and> length prev = 0 \<and>
      (\<forall>j<0. prev ! j = (if j \<le> sl_max_height s - 1 then Some (last (0 # takeWhile (\<lambda>_. True) (Ls ! j))) else [] ! j))"
    by (rule search_down [OF ok, where as = "[]"]) (use m in \<open>auto simp: sl_below_def\<close>)
  moreover have "takeWhile (\<lambda>_. True) (Ls ! 0) = Ls ! 0" by (simp add: takeWhile_eq_all_conv)
  ultimately show ?thesis by (auto simp: FindLast_def)
qed

end

end
