(* ===== verification/Ldb_Skiplist_Run.thy ===== *)
theory Ldb_Skiplist_Run
  imports Ldb_Skiplist_Ok
begin

text \<open>
  The operations of the skip list on the sorted list of keys it stands for, and readers that run while a writer inserts: the
  writer and each reader take their steps in any order, a step being one access to memory that others can see. A load of a link
  gives the last value stored there, as on a machine that makes the stores of a thread visible in their order; of
  the two stores that link a node the second is a release store, so no other order is allowed to the compiler either.
\<close>

section \<open>The code, one access at a time\<close>

datatype 'k sl_reader = R_idle | R_search 'k nat nat | R_found 'k "nat option"

text \<open>One round of the loop of \<^verbatim>\<open>FindGreaterOrEqual\<close> in a reader, which has got the pointer \<open>nxt\<close>.\<close>

definition reader_round :: "('k \<Rightarrow> 'k \<Rightarrow> int) \<Rightarrow> 'k skiplist \<Rightarrow> 'k \<Rightarrow> nat \<Rightarrow> nat \<Rightarrow> nat option \<Rightarrow> 'k sl_reader" where
  "reader_round cmp s key x level nxt =
     (if KeyIsAfterNode cmp s key nxt then R_search key (the nxt) level
      else if level = 0 then R_found key nxt else R_search key x (level - 1))"

text \<open>
  The writer is at a level of the loop of \<^verbatim>\<open>Insert\<close>, before the first or before the second store of the round; \<open>run_done\<close> has the keys of the insertions that have returned.
\<close>

record 'k sl_run =
  run_list :: "'k skiplist"
  run_writer :: "(nat \<times> nat \<times> nat option list \<times> nat \<times> bool) option"
  run_readers :: "'k sl_reader list"
  run_done :: "'k list"

text \<open>
  A reader loads the maximal height without a barrier, so it may get an earlier one; heights begin at 1 and only grow. The key of
  an insertion must not be in the list yet, which its callers see to.
\<close>

inductive sl_step :: "('k \<Rightarrow> bool) \<Rightarrow> ('k \<Rightarrow> 'k \<Rightarrow> int) \<Rightarrow> 'k sl_run \<Rightarrow> 'k sl_run \<Rightarrow> bool" for ok cmp where
  w_begin: "run_writer r = None \<Longrightarrow> ok key \<Longrightarrow> SkipList_Contains cmp (run_list r) key = Some False \<Longrightarrow>
    Insert_prepare cmp key (run_list r) = Some (s, x, height, prev) \<Longrightarrow>
    sl_step ok cmp r (r\<lparr>run_list := s, run_writer := Some (x, height, prev, 0, False)\<rparr>)"
| w_set: "run_writer r = Some (x, height, prev, i, False) \<Longrightarrow> i < height \<Longrightarrow> Insert_set_next x prev i (run_list r) = Some s \<Longrightarrow>
    sl_step ok cmp r (r\<lparr>run_list := s, run_writer := Some (x, height, prev, i, True)\<rparr>)"
| w_publish: "run_writer r = Some (x, height, prev, i, True) \<Longrightarrow> Insert_publish x prev i (run_list r) = Some s \<Longrightarrow>
    sl_step ok cmp r (r\<lparr>run_list := s, run_writer := Some (x, height, prev, Suc i, False)\<rparr>)"
| w_end: "run_writer r = Some (x, height, prev, height, False) \<Longrightarrow>
    sl_step ok cmp r (r\<lparr>run_writer := None, run_done := node_key (run_list r) x # run_done r\<rparr>)"
| r_begin: "j < length (run_readers r) \<Longrightarrow> ok key \<Longrightarrow> 1 \<le> h \<Longrightarrow> h \<le> sl_max_height (run_list r) \<Longrightarrow>
    sl_step ok cmp r (r\<lparr>run_readers := (run_readers r)[j := R_search key 0 (h - 1)]\<rparr>)"
| r_round: "j < length (run_readers r) \<Longrightarrow> run_readers r ! j = R_search key x level \<Longrightarrow> node_Next (run_list r) x level = Some nxt \<Longrightarrow>
    sl_step ok cmp r (r\<lparr>run_readers := (run_readers r)[j := reader_round cmp (run_list r) key x level nxt]\<rparr>)"

definition run_init :: "nat \<Rightarrow> 'k sl_run" where
  "run_init n = \<lparr>run_list = SkipList_new, run_writer = None, run_readers = replicate n R_idle, run_done = []\<rparr>"

section \<open>Operations on the list of keys\<close>

definition sl_rep :: "('k \<Rightarrow> bool) \<Rightarrow> ('k \<Rightarrow> 'r::linorder) \<Rightarrow> 'k skiplist \<Rightarrow> 'k list \<Rightarrow> bool" where
  "sl_rep valid rank s ks \<longleftrightarrow> (\<exists>Ls. sl_ok valid rank s Ls \<and> ks = map (node_key s) (Ls ! 0))"

lemma sl_rep_new: "sl_rep valid rank SkipList_new []"
  unfolding sl_rep_def by (intro exI [of _ "replicate kMaxHeight []"] conjI sl_new_ok) (simp add: kMaxHeight_def)

lemma sl_rep_sorted:
  assumes "sl_rep valid rank s ks"
  shows "sorted_wrt (\<lambda>a b. rank a < rank b) ks" "k \<in> set ks \<Longrightarrow> valid k"
  using assms sl_okD(5,7) [of valid rank s _ 0] by (auto simp: sl_rep_def sorted_wrt_map kMaxHeight_def)

context skip_order
begin

lemma sl_ok_extend:
  assumes ok: "sl_ok valid rank s Ls" and m: "sl_max_height s \<le> m" "m \<le> kMaxHeight"
    and s': "s' = s\<lparr>sl_rnd := rnd, sl_max_height := m, sl_nodes := sl_nodes s @ [node]\<rparr>"
  shows "sl_ok valid rank s' Ls" "y < length (sl_nodes s) \<Longrightarrow> node_key s' y = node_key s y"
proof -
  show k: "y < length (sl_nodes s) \<Longrightarrow> node_key s' y = node_key s y" for y by (simp add: s' node_key_def nth_append)
  have n: "y < length (sl_nodes s) \<Longrightarrow> node_Next s' y i = node_Next s y i" for y i by (simp add: s' node_Next_def nth_append)
  note D = sl_okD [OF ok]
  have b: "i < kMaxHeight \<Longrightarrow> y \<in> set (0 # Ls ! i) \<Longrightarrow> y < length (sl_nodes s)" for i y by (rule sl_ok_nodes(1) [OF ok])
  have "sl_linked s' i 0 (Ls ! i) \<and> sorted_wrt (\<lambda>x y. rank (node_key s' x) < rank (node_key s' y)) (Ls ! i)" if i: "i < kMaxHeight" for i
  proof
    show "sl_linked s' i 0 (Ls ! i)" using linked_cong [of 0 "Ls ! i" s' i s] n b [OF i] D(4) [OF i] by blast
    show "sorted_wrt (\<lambda>x y. rank (node_key s' x) < rank (node_key s' y)) (Ls ! i)"
      by (rule sorted_wrt_mono_rel [OF _ D(5) [OF i]]) (simp add: k b [OF i])
  qed
  moreover have "i < kMaxHeight \<Longrightarrow> y \<in> set (Ls ! i) \<Longrightarrow> y \<noteq> 0 \<and> valid (node_key s' y)" for i y
    using D(6,7) [of i y] k b [of i y] by simp
  moreover have "sl_max_height s' = m" by (simp add: s')
  ultimately show "sl_ok valid rank s' Ls" using D(1,2,8,9) m by (simp add: sl_ok_def)
qed

lemma Insert_prepare_ok:
  assumes ok: "sl_ok valid rank s Ls" and key: "valid key" and new: "\<forall>y\<in>set (Ls ! 0). rank (node_key s y) \<noteq> rank key"
  obtains s' height prev where "Insert_prepare cmp key s = Some (s', length (sl_nodes s), height, prev)" "sl_ok valid rank s' Ls"
    "inserting valid rank s' Ls (length (sl_nodes s)) height prev 0" "0 < height" "node_key s' (length (sl_nodes s)) = key"
    "\<And>y. y < length (sl_nodes s) \<Longrightarrow> node_key s' y = node_key s y" "length (sl_nodes s') = Suc (length (sl_nodes s))"
proof -
  obtain prev where p: "FindGreaterOrEqual cmp s key = Some (first_of (dropWhile (\<lambda>y. rank (node_key s y) < rank key) (Ls ! 0)), prev)"
    "length prev = kMaxHeight" "\<And>j. j < sl_max_height s \<Longrightarrow> prev ! j = Some (last (0 # takeWhile (\<lambda>y. rank (node_key s y) < rank key) (Ls ! j)))"
    using FindGreaterOrEqual_ok [OF ok key] by blast
  obtain h rnd where h: "RandomHeight (sl_rnd s) = (h, rnd)" by fastforce
  then have hb: "1 \<le> h" "h \<le> kMaxHeight" using RandomHeight_bound by auto
  let ?n = "length (sl_nodes s)" and ?m = "max h (sl_max_height s)"
  define prev' where "prev' = (if h > sl_max_height s then map (\<lambda>i. if sl_max_height s \<le> i \<and> i < h then Some 0 else prev ! i) [0..<kMaxHeight] else prev)"
  define s' where "s' = s\<lparr>sl_rnd := rnd, sl_max_height := ?m, sl_nodes := sl_nodes s @ [\<lparr>sn_key = Some key, sn_next = replicate h Uninit\<rparr>]\<rparr>"
  note D = sl_okD [OF ok]
  have E: "sl_ok valid rank s' Ls" "\<And>y. y < ?n \<Longrightarrow> node_key s' y = node_key s y"
    using sl_ok_extend [OF ok _ _ s'_def] hb D(3) by simp_all
  have nk: "node_key s' ?n = key" by (simp add: s'_def node_key_def)
  have sub: "j < kMaxHeight \<Longrightarrow> set (Ls ! j) \<subseteq> set (Ls ! 0)" for j
    by (induction j) (use D(8) in \<open>auto simp: kMaxHeight_def\<close>)
  have b: "j < kMaxHeight \<Longrightarrow> y \<in> set (Ls ! j) \<Longrightarrow> node_key s' y = node_key s y" for j y
    using E(2) sl_ok_nodes(1) [OF ok, of j y] by simp
  have "prev' ! j = Some (last (0 # takeWhile (\<lambda>y. rank (node_key s' y) < rank key) (Ls ! j)))" if "j < h" for j
  proof -
    have j: "j < kMaxHeight" using that hb by simp
    have "takeWhile (\<lambda>y. rank (node_key s' y) < rank key) (Ls ! j) = takeWhile (\<lambda>y. rank (node_key s y) < rank key) (Ls ! j)"
      using b [OF j] by (intro takeWhile_cong) auto
    then show ?thesis using p(3) [of j] D(9) [OF j] that j by (auto simp: prev'_def)
  qed
  note pr = this
  have "inserting valid rank s' Ls ?n h prev' 0"
    unfolding inserting_def nk
  proof (intro conjI allI impI ballI)
    show "?n \<noteq> 0" using sl_ok_nodes(1) [OF ok, of 0 0] by (auto simp: kMaxHeight_def)
    show "j < kMaxHeight \<Longrightarrow> y \<in> set (Ls ! j) \<Longrightarrow> rank (node_key s' y) \<noteq> rank key" for j y
      using new sub [of j] b [of j y] by auto
    show "j < h \<Longrightarrow> prev' ! j = Some (last (0 # takeWhile (\<lambda>y. rank (node_key s' y) < rank key) (Ls ! j)))" for j by (rule pr)
  qed (use key in \<open>simp_all add: s'_def\<close>)
  moreover have "Insert_prepare cmp key s = Some (s', ?n, h, prev')"
    using p(1) h by (simp add: Insert_prepare_def NewNode_def s'_def prev'_def Let_def max_def)
  ultimately show thesis using that E nk hb by (simp add: s'_def)
qed

lemma Insert_rep:
  assumes rep: "sl_rep valid rank s ks" and key: "valid key" and new: "rank key \<notin> rank ` set ks"
  obtains s' where "SkipList_Insert cmp key s = Some s'"
    "sl_rep valid rank s' (takeWhile (\<lambda>k. rank k < rank key) ks @ key # dropWhile (\<lambda>k. rank k < rank key) ks)"
proof -
  obtain Ls where ok: "sl_ok valid rank s Ls" and ks: "ks = map (node_key s) (Ls ! 0)" using rep by (auto simp: sl_rep_def)
  have "\<forall>y\<in>set (Ls ! 0). rank (node_key s y) \<noteq> rank key" using new unfolding ks by (metis imageI list.set_map)
  then obtain s1 height prev where p: "Insert_prepare cmp key s = Some (s1, length (sl_nodes s), height, prev)" "sl_ok valid rank s1 Ls"
    "inserting valid rank s1 Ls (length (sl_nodes s)) height prev 0" "0 < height" "node_key s1 (length (sl_nodes s)) = key"
    "\<And>y. y < length (sl_nodes s) \<Longrightarrow> node_key s1 y = node_key s y" "length (sl_nodes s1) = Suc (length (sl_nodes s))"
    using Insert_prepare_ok [OF ok key] by blast
  let ?x = "length (sl_nodes s)"
  from Insert_loop_ok [OF p(2,3), of height] p(4) obtain s2 Ls2 where
    s2: "Insert_loop ?x prev 0 height s1 = Some s2" "sl_ok valid rank s2 Ls2" "\<forall>y<length (sl_nodes s1). node_key s2 y = node_key s1 y"
      "Ls2 ! 0 = link_at rank s1 ?x (Ls ! 0)" by auto
  have k: "y \<in> set (Ls ! 0) \<Longrightarrow> node_key s2 y = node_key s y \<and> node_key s1 y = node_key s y" for y
    using sl_ok_nodes(1) [OF ok, of 0 y] p(6,7) s2(3) by (simp add: kMaxHeight_def)
  let ?lt = "\<lambda>y. rank (node_key s y) < rank key"
  have tw: "takeWhile (\<lambda>y. rank (node_key s1 y) < rank (node_key s1 ?x)) (Ls ! 0) = takeWhile ?lt (Ls ! 0)"
    "dropWhile (\<lambda>y. rank (node_key s1 y) < rank (node_key s1 ?x)) (Ls ! 0) = dropWhile ?lt (Ls ! 0)"
    using k p(5) by (auto intro!: takeWhile_cong dropWhile_cong)
  have "map (node_key s2) (Ls2 ! 0) = map (node_key s) (takeWhile ?lt (Ls ! 0)) @ key # map (node_key s) (dropWhile ?lt (Ls ! 0))"
    unfolding s2(4) link_at_def tw using k s2(3) p(5,7) by (auto dest: set_takeWhileD set_dropWhileD)
  then have "map (node_key s2) (Ls2 ! 0) = takeWhile (\<lambda>k. rank k < rank key) ks @ key # dropWhile (\<lambda>k. rank k < rank key) ks"
    unfolding ks takeWhile_map dropWhile_map by (simp add: comp_def)
  moreover have "SkipList_Insert cmp key s = Some s2" using p(1) s2(1) by (simp add: SkipList_Insert_def)
  ultimately show thesis using that s2(2) unfolding sl_rep_def by metis
qed

lemma Seek_rep:
  assumes "sl_rep valid rank s ks" "valid key"
  obtains it where "Iterator_Seek cmp s key = Some it"
    "case dropWhile (\<lambda>k. rank k < rank key) ks of [] \<Rightarrow> it = None | k # _ \<Rightarrow> it \<noteq> None \<and> Iterator_key s it = k"
proof -
  obtain Ls where ok: "sl_ok valid rank s Ls" and ks: "ks = map (node_key s) (Ls ! 0)" using assms by (auto simp: sl_rep_def)
  let ?d = "dropWhile (\<lambda>y. rank (node_key s y) < rank key) (Ls ! 0)"
  have d: "dropWhile (\<lambda>k. rank k < rank key) ks = map (node_key s) ?d" unfolding ks dropWhile_map by (simp add: comp_def)
  obtain prev where "FindGreaterOrEqual cmp s key = Some (first_of ?d, prev)" using FindGreaterOrEqual_ok [OF ok assms(2)] by blast
  then have "Iterator_Seek cmp s key = Some (first_of ?d)" by (simp add: Iterator_Seek_def)
  then show thesis using that d by (cases ?d) (auto simp: first_of_def Iterator_key_def)
qed

lemma Contains_rep:
  assumes rep: "sl_rep valid rank s ks" and key: "valid key"
  shows "SkipList_Contains cmp s key = Some (rank key \<in> rank ` set ks)"
proof -
  obtain Ls where ok: "sl_ok valid rank s Ls" and ks: "ks = map (node_key s) (Ls ! 0)" using rep by (auto simp: sl_rep_def)
  let ?lt = "\<lambda>y. rank (node_key s y) < rank key"
  obtain prev where f: "FindGreaterOrEqual cmp s key = Some (first_of (dropWhile ?lt (Ls ! 0)), prev)"
    using FindGreaterOrEqual_ok [OF ok key] by blast
  have srt: "sorted_wrt (\<lambda>x y. rank (node_key s x) < rank (node_key s y)) (Ls ! 0)" using sl_okD(5) [OF ok] by (simp add: kMaxHeight_def)
  have v: "y \<in> set (Ls ! 0) \<Longrightarrow> valid (node_key s y)" for y using sl_okD(7) [OF ok, of 0] by (simp add: kMaxHeight_def)
  have e: "(\<exists>y\<in>set ys. rank (node_key s y) = rank key) \<longleftrightarrow> (case first_of (dropWhile ?lt ys) of None \<Rightarrow> False | Some y \<Rightarrow> rank (node_key s y) = rank key)"
    if "sorted_wrt (\<lambda>x y. rank (node_key s x) < rank (node_key s y)) ys" for ys
    using that
  proof (induction ys)
    case (Cons y ys)
    show ?case
    proof (cases "?lt y")
      case False
      then have "\<forall>z\<in>set ys. rank (node_key s z) \<noteq> rank key" using Cons.prems by auto
      then show ?thesis using False by (simp add: first_of_def)
    qed (use Cons in auto)
  qed (simp add: first_of_def)
  have m: "rank key \<in> rank ` set ks \<longleftrightarrow> (\<exists>y\<in>set (Ls ! 0). rank (node_key s y) = rank key)" unfolding ks set_map image_iff by (metis imageE imageI)
  show ?thesis
  proof (cases "first_of (dropWhile ?lt (Ls ! 0))")
    case None
    then show ?thesis unfolding m e [OF srt] using f by (simp add: SkipList_Contains_def)
  next
    case (Some y)
    then have "y \<in> set (dropWhile ?lt (Ls ! 0))" by (cases "dropWhile ?lt (Ls ! 0)") (auto simp: first_of_def)
    then have "valid (node_key s y)" using v set_dropWhileD by fast
    then show ?thesis unfolding m e [OF srt] using f Some cmp_eq [OF key, of "node_key s y"] by (auto simp: SkipList_Contains_def)
  qed
qed

end

section \<open>Readers beside a writer\<close>

fun reader_ok :: "('k \<Rightarrow> bool) \<Rightarrow> ('k \<Rightarrow> 'r::linorder) \<Rightarrow> 'k skiplist \<Rightarrow> nat list list \<Rightarrow> 'k sl_reader \<Rightarrow> bool" where
  "reader_ok valid rank s Ls (R_search key x level) \<longleftrightarrow>
     valid key \<and> level < kMaxHeight \<and> (x = 0 \<or> x \<in> set (Ls ! level) \<and> rank (node_key s x) < rank key)"
| "reader_ok valid rank s Ls _ \<longleftrightarrow> True"

definition run_inv :: "('k \<Rightarrow> bool) \<Rightarrow> ('k \<Rightarrow> 'r::linorder) \<Rightarrow> 'k sl_run \<Rightarrow> nat list list \<Rightarrow> bool" where
  "run_inv valid rank r Ls \<longleftrightarrow> sl_ok valid rank (run_list r) Ls \<and>
     (case run_writer r of None \<Rightarrow> True | Some (x, height, prev, i, is_set) \<Rightarrow> inserting valid rank (run_list r) Ls x height prev i \<and> 0 < height \<and>
        (is_set \<longrightarrow> i < height \<and> Insert_set_next x prev i (run_list r) = Some (run_list r))) \<and>
     (\<forall>p\<in>set (run_readers r). reader_ok valid rank (run_list r) Ls p) \<and> set (run_done r) \<subseteq> node_key (run_list r) ` set (Ls ! 0)"

lemma run_init_inv: "run_inv valid rank (run_init n) (replicate kMaxHeight [])"
  by (simp add: run_inv_def run_init_def sl_new_ok)

text \<open>A store leaves the nodes that were linked where they are.\<close>

lemma run_inv_grow:
  assumes "run_inv valid rank r Ls" "sl_ok valid rank s Ls'" "\<And>i. i < kMaxHeight \<Longrightarrow> set (Ls ! i) \<subseteq> set (Ls' ! i)"
    and "\<And>y. y < length (sl_nodes (run_list r)) \<Longrightarrow> node_key s y = node_key (run_list r) y"
    and "inserting valid rank s Ls' x height prev i" "0 < height" "is_set \<longrightarrow> i < height \<and> Insert_set_next x prev i s = Some s"
  shows "run_inv valid rank (r\<lparr>run_list := s, run_writer := Some (x, height, prev, i, is_set)\<rparr>) Ls'"
proof -
  have ok: "sl_ok valid rank (run_list r) Ls" using assms(1) by (simp add: run_inv_def)
  have k: "i < kMaxHeight \<Longrightarrow> y \<in> set (Ls ! i) \<Longrightarrow> node_key s y = node_key (run_list r) y" for i y
    using assms(4) sl_ok_nodes(1) [OF ok, of i y] by simp
  have rd: "reader_ok valid rank s Ls' p" if p: "p \<in> set (run_readers r)" for p
  proof (cases p)
    case (R_search key x level)
    have "reader_ok valid rank (run_list r) Ls p" using assms(1) p by (simp add: run_inv_def)
    then show ?thesis using R_search assms(3) [of level] k [of level x] by auto
  qed simp_all
  have z: "0 < kMaxHeight" by (simp add: kMaxHeight_def)
  have dn: "set (run_done r) \<subseteq> node_key s ` set (Ls' ! 0)"
  proof
    fix a assume "a \<in> set (run_done r)"
    then have "a \<in> node_key (run_list r) ` set (Ls ! 0)" using assms(1) by (auto simp: run_inv_def)
    then obtain y where "y \<in> set (Ls ! 0)" "a = node_key (run_list r) y" by blast
    with assms(3) [OF z] k [OF z, of y] have "a = node_key s y" "y \<in> set (Ls' ! 0)" by auto
    then show "a \<in> node_key s ` set (Ls' ! 0)" by (rule image_eqI)
  qed
  show ?thesis using assms(2,5-7) rd dn by (simp add: run_inv_def)
qed

lemma run_inv_reader:
  assumes "run_inv valid rank r Ls" "reader_ok valid rank (run_list r) Ls p"
  shows "run_inv valid rank (r\<lparr>run_readers := (run_readers r)[j := p]\<rparr>) Ls"
proof -
  have "set ((run_readers r)[j := p]) \<subseteq> insert p (set (run_readers r))" by (rule set_update_subset_insert)
  then show ?thesis using assms unfolding run_inv_def by (auto split: option.splits)
qed

lemma linked_at:
  assumes "sl_linked s i 0 ys" "x \<in> set (0 # ys)"
  obtains as bs where "ys = as @ bs" "x = last (0 # as)" "sl_linked s i x bs"
proof (cases "x = 0")
  case True
  then show thesis using that [of "[]" ys] assms(1) by simp
next
  case False
  then obtain as bs where "ys = as @ x # bs" using assms(2) by (auto dest: split_list)
  then show thesis using that [of "as @ [x]" bs] linked_append [of s i 0 "as @ [x]" bs] assms(1) by simp
qed

context skip_order
begin

lemma reader_next:
  assumes "sl_ok valid rank s Ls" "reader_ok valid rank s Ls (R_search key x level)"
  obtains as bs where "Ls ! level = as @ bs" "x = last (0 # as)" "node_Next s x level = Some (first_of bs)"
proof -
  have "x \<in> set (0 # Ls ! level)" "level < kMaxHeight" using assms(2) by auto
  with linked_at [OF sl_okD(4) [OF assms(1)]] show thesis using that linked_next by metis
qed

lemma reader_round_ok:
  assumes ok: "sl_ok valid rank s Ls" and rd: "reader_ok valid rank s Ls (R_search key x level)" and n: "node_Next s x level = Some nxt"
  shows "reader_ok valid rank s Ls (reader_round cmp s key x level nxt)"
proof -
  obtain as bs where b: "Ls ! level = as @ bs" "x = last (0 # as)" "nxt = first_of bs"
    using reader_next [OF ok rd] n by (metis option.inject)
  have l: "level < kMaxHeight" "valid key" using rd by simp_all
  show ?thesis
  proof (cases "KeyIsAfterNode cmp s key nxt")
    case True
    then obtain y bs' where y: "nxt = Some y" "bs = y # bs'" "cmp (node_key s y) key < 0"
      using b(3) by (cases bs) (auto simp: KeyIsAfterNode_def first_of_def)
    then have "y \<in> set (Ls ! level)" using b(1) by simp
    with sl_okD(7) [OF ok l(1) this] show ?thesis using True y l cmp_less by (simp add: reader_round_def)
  next
    case False
    have "0 < level \<Longrightarrow> set (Ls ! level) \<subseteq> set (Ls ! (level - 1))" using sl_okD(8) [OF ok, of "level - 1"] l(1) by simp
    then show ?thesis using False rd by (auto simp: reader_round_def)
  qed
qed

text \<open>The pointer with which a search ends leads to the first node that is not below its key at that moment.\<close>

lemma reader_found:
  assumes ok: "sl_ok valid rank s Ls" and rd: "reader_ok valid rank s Ls (R_search key x 0)" and n: "node_Next s x 0 = Some nxt"
    and e: "\<not> KeyIsAfterNode cmp s key nxt"
  shows "nxt = first_of (dropWhile (\<lambda>y. cmp (node_key s y) key < 0) (Ls ! 0))"
proof -
  obtain as bs where b: "Ls ! 0 = as @ bs" "x = last (0 # as)" "nxt = first_of bs"
    using reader_next [OF ok rd] n by (metis option.inject)
  have z: "0 < kMaxHeight" "valid key" using rd by simp_all
  have v: "y \<in> set (Ls ! 0) \<Longrightarrow> valid (node_key s y)" for y using sl_okD(7) [OF ok z(1)] .
  have "\<forall>y\<in>set as. cmp (node_key s y) key < 0"
  proof
    fix y assume y: "y \<in> set as"
    then have x: "x \<in> set as" "x = last as" using b(2) by (auto split: if_splits)
    have "x \<noteq> 0" using sl_okD(6) [OF ok z(1), of x] x(1) b(1) by simp
    then have "rank (node_key s x) < rank key" using rd by simp
    moreover have "rank (node_key s y) \<le> rank (node_key s x)"
    proof -
      obtain as' where a: "as = as' @ [x]" using x by (cases as rule: rev_cases) auto
      have "sorted_wrt (\<lambda>x y. rank (node_key s x) < rank (node_key s y)) (as' @ x # bs)"
        using sl_okD(5) [OF ok z(1)] b(1) a by simp
      then show ?thesis using y a by (auto simp: sorted_wrt_append)
    qed
    ultimately show "cmp (node_key s y) key < 0" using cmp_less [OF v z(2), of y] y b(1) by simp
  qed
  moreover have "dropWhile (\<lambda>y. cmp (node_key s y) key < 0) bs = bs" using e b(3) by (cases bs) (auto simp: KeyIsAfterNode_def first_of_def)
  ultimately show ?thesis using b by (simp add: dropWhile_append3)
qed

lemma sl_step_inv:
  assumes "sl_step valid cmp r r'" "run_inv valid rank r Ls"
  shows "\<exists>Ls'. run_inv valid rank r' Ls'"
  using assms(1)
proof cases
  case (w_begin key s x height prev)
  have ok: "sl_ok valid rank (run_list r) Ls" using assms(2) by (simp add: run_inv_def)
  then have "sl_rep valid rank (run_list r) (map (node_key (run_list r)) (Ls ! 0))" by (auto simp: sl_rep_def)
  from Contains_rep [OF this w_begin(3)] w_begin(4) have "\<forall>y\<in>set (Ls ! 0). rank (node_key (run_list r) y) \<noteq> rank key" by (auto simp: image_iff)
  then obtain s' height' prev' where "Insert_prepare cmp key (run_list r) = Some (s', length (sl_nodes (run_list r)), height', prev')" "sl_ok valid rank s' Ls"
    "inserting valid rank s' Ls (length (sl_nodes (run_list r))) height' prev' 0" "0 < height'"
    "\<And>y. y < length (sl_nodes (run_list r)) \<Longrightarrow> node_key s' y = node_key (run_list r) y"
    using Insert_prepare_ok [OF ok w_begin(3)] by blast
  then show ?thesis using run_inv_grow [OF assms(2), of s Ls x height prev 0 False] w_begin by auto
next
  case (w_set x height prev i s)
  then have ok: "sl_ok valid rank (run_list r) Ls" and ins: "inserting valid rank (run_list r) Ls x height prev i" "0 < height"
    using assms(2) by (auto simp: run_inv_def)
  obtain s' where s': "Insert_set_next x prev i (run_list r) = Some s'" "sl_ok valid rank s' Ls" "inserting valid rank s' Ls x height prev i"
    "Insert_set_next x prev i s' = Some s'" "\<And>y. y < length (sl_nodes (run_list r)) \<Longrightarrow> node_key s' y = node_key (run_list r) y"
    using set_next_ok [OF ok ins(1) w_set(3)] by blast
  from run_inv_grow [OF assms(2) s'(2) subset_refl s'(5,3) ins(2), of True] s'(1,4) show ?thesis using w_set by auto
next
  case (w_publish x height prev i s)
  then have ok: "sl_ok valid rank (run_list r) Ls" and ins: "inserting valid rank (run_list r) Ls x height prev i" "0 < height"
      "i < height" "Insert_set_next x prev i (run_list r) = Some (run_list r)"
    using assms(2) by (auto simp: run_inv_def)
  let ?Ls = "Ls[i := link_at rank (run_list r) x (Ls ! i)]"
  obtain s' where s': "Insert_publish x prev i (run_list r) = Some s'" "sl_ok valid rank s' ?Ls" "inserting valid rank s' ?Ls x height prev (Suc i)"
    "\<And>y. y < length (sl_nodes (run_list r)) \<Longrightarrow> node_key s' y = node_key (run_list r) y"
    using publish_ok [OF ok ins(1,3,4)] by blast
  have "set (Ls ! j) \<subseteq> set (?Ls ! j)" if "j < kMaxHeight" for j
    using sl_okD(1) [OF ok] that by (cases "j = i") auto
  from run_inv_grow [OF assms(2) s'(2) this s'(4,3) ins(2), of False] s'(1) show ?thesis using w_publish by auto
next
  case (w_end x height prev)
  then have "inserting valid rank (run_list r) Ls x height prev height" "0 < height" using assms(2) by (auto simp: run_inv_def)
  then have "x \<in> set (Ls ! 0)" by (simp add: inserting_def)
  then show ?thesis using assms(2) w_end by (auto simp: run_inv_def intro!: exI [of _ Ls])
next
  case (r_begin j key h)
  have "sl_ok valid rank (run_list r) Ls" using assms(2) by (simp add: run_inv_def)
  then have "h - 1 < kMaxHeight" using sl_okD(2,3) r_begin(4,5) by fastforce
  then show ?thesis using run_inv_reader [OF assms(2), of "R_search key 0 (h - 1)" j] r_begin by auto
next
  case (r_round j key x level nxt)
  have ok: "sl_ok valid rank (run_list r) Ls" using assms(2) by (simp add: run_inv_def)
  have rd: "reader_ok valid rank (run_list r) Ls (R_search key x level)"
    using assms(2) r_round(2,3) by (metis run_inv_def nth_mem)
  have "reader_ok valid rank (run_list r) Ls (reader_round cmp (run_list r) key x level nxt)" by (rule reader_round_ok [OF ok rd r_round(4)])
  then show ?thesis using run_inv_reader [OF assms(2)] r_round(1) by blast
qed

lemma sl_steps_inv:
  "(sl_step valid cmp)\<^sup>*\<^sup>* r r' \<Longrightarrow> run_inv valid rank r Ls \<Longrightarrow> \<exists>Ls'. run_inv valid rank r' Ls'"
  by (induction rule: rtranclp_induct) (auto dest: sl_step_inv)

lemma run_reads:
  assumes "(sl_step valid cmp)\<^sup>*\<^sup>* (run_init n) r" "j < length (run_readers r)" "run_readers r ! j = R_search key x level"
  shows "\<exists>L nxt. sl_linked (run_list r) 0 0 L \<and> sorted_wrt (\<lambda>x y. cmp (node_key (run_list r) x) (node_key (run_list r) y) < 0) L \<and>
    set (run_done r) \<subseteq> node_key (run_list r) ` set L \<and> node_Next (run_list r) x level = Some nxt \<and>
    (\<forall>res. reader_round cmp (run_list r) key x level nxt = R_found key res \<longrightarrow>
       res = first_of (dropWhile (\<lambda>y. cmp (node_key (run_list r) y) key < 0) L))"
proof -
  obtain Ls where inv: "run_inv valid rank r Ls" using sl_steps_inv [OF assms(1) run_init_inv] by blast
  let ?s = "run_list r"
  have ok: "sl_ok valid rank ?s Ls" and rd: "reader_ok valid rank ?s Ls (R_search key x level)"
    using inv assms(2,3) unfolding run_inv_def by (blast, metis nth_mem)
  have z: "0 < kMaxHeight" by (simp add: kMaxHeight_def)
  obtain nxt where n: "node_Next ?s x level = Some nxt" using reader_next [OF ok rd] by blast
  have "sorted_wrt (\<lambda>x y. cmp (node_key ?s x) (node_key ?s y) < 0) (Ls ! 0)"
    by (rule sorted_wrt_mono_rel [OF _ sl_okD(5) [OF ok z]]) (simp add: cmp_less sl_okD(7) [OF ok z])
  moreover have "res = first_of (dropWhile (\<lambda>y. cmp (node_key ?s y) key < 0) (Ls ! 0))" if "reader_round cmp ?s key x level nxt = R_found key res" for res
  proof -
    have e: "level = 0" "\<not> KeyIsAfterNode cmp ?s key nxt" "res = nxt" using that by (auto simp: reader_round_def split: if_splits)
    show ?thesis unfolding e(3) using reader_found [OF ok rd [unfolded e(1)] n [unfolded e(1)] e(2)] .
  qed
  ultimately show ?thesis using sl_okD(4) [OF ok z] inv n by (intro exI [of _ "Ls ! 0"] exI [of _ nxt]) (auto simp: run_inv_def)
qed

end

end
