(* ===== verification/Ldb_Mem.thy ===== *)
theory Ldb_Mem
  imports Ldb_Format Ldb_Skiplist_Run Ldb_Env
begin

text \<open>
  The memtable of LevelDB, \<^verbatim>\<open>db/memtable.cc\<close>: a skip list of entries, each an internal key and a value behind their lengths. A
  pointer to an entry is the bytes of its buffer from there on, and a pointer into an entry what is left of them. The memtable gives
  the skip list its order and so interprets \<open>skip_order\<close>; what it promises to its callers is the newest version of a key
  that a snapshot sees.
\<close>

unbundle bit_operations_syntax

section \<open>The code\<close>

text \<open>
  The result has the bytes behind the slice too. It is \<open>None\<close> when the pointer is not at a length and as many bytes, where the
  code reads outside the buffer. A length has at most five bytes, the limit that the code passes on.
\<close>

definition mem_GetLengthPrefixedSlice :: "bytes \<Rightarrow> (bytes \<times> bytes) option" where
  "mem_GetLengthPrefixedSlice data =
     do {
       (len, p) \<leftarrow> GetVarint32Ptr data;
       if unat len \<le> length p then Some (take (unat len) p, drop (unat len) p) else None
     }"

type_synonym memtable = "bytes skiplist"

definition MemTable_new :: memtable where
  "MemTable_new = SkipList_new"

definition KeyComparator :: "(bytes \<Rightarrow> bytes \<Rightarrow> int) \<Rightarrow> bytes \<Rightarrow> bytes \<Rightarrow> int" where
  "KeyComparator user_compare aptr bptr =
     (let a = fst (the (mem_GetLengthPrefixedSlice aptr));
          b = fst (the (mem_GetLengthPrefixedSlice bptr))
      in InternalKeyComparator_Compare user_compare a b)"

definition EncodeKey :: "bytes \<Rightarrow> bytes" where
  "EncodeKey target = PutVarint32 [] (of_nat (length target)) @ target"

text \<open>\<open>None\<close> is an entry that does not fit into the buffer allocated for it, or the skip list not returning.\<close>

definition MemTable_Add :: "(bytes \<Rightarrow> bytes \<Rightarrow> int) \<Rightarrow> u64 \<Rightarrow> ValueType \<Rightarrow> bytes \<Rightarrow> bytes \<Rightarrow> memtable \<Rightarrow> memtable option" where
  "MemTable_Add user_compare s type key val table =
     (let key_size = length key;
          val_size = length val;
          internal_key_size = key_size + 8;
          encoded_len = VarintLength (of_nat internal_key_size) + internal_key_size + VarintLength (of_nat val_size) + val_size;
          buf = EncodeVarint32 (of_nat internal_key_size) @ key @ EncodeFixed64 (push_bit 8 s OR value_type_code type) @
                EncodeVarint32 (of_nat val_size) @ val
      in if length buf \<le> encoded_len then SkipList_Insert (KeyComparator user_compare) buf table else None)"

text \<open>
  The value and the status that the caller passes come back with the result, as they are where nothing is found. The outer
  \<open>None\<close> is again an access outside an entry.
\<close>

definition MemTable_Get :: "(bytes \<Rightarrow> bytes \<Rightarrow> int) \<Rightarrow> memtable \<Rightarrow> LookupKey \<Rightarrow> bytes \<times> ldb_status \<Rightarrow> (bool \<times> bytes \<times> ldb_status) option" where
  "MemTable_Get user_compare table key out =
     (let (val, s) = out
      in do {
        iter \<leftarrow> Iterator_Seek (KeyComparator user_compare) table (memtable_key key);
        if Iterator_Valid iter
        then do {
          (key_length, key_ptr) \<leftarrow> GetVarint32Ptr (Iterator_key table iter);
          if unat key_length < 8 \<or> length key_ptr < unat key_length then None
          else if user_compare (take (unat key_length - 8) key_ptr) (lookup_user_key key) = 0
          then let tag = ldb_DecodeFixed64 (drop (unat key_length - 8) key_ptr); type = tag AND 0xff
               in if type = value_type_code kTypeValue
                  then do { (v, _) \<leftarrow> mem_GetLengthPrefixedSlice (drop (unat key_length) key_ptr); Some (True, v, s) }
                  else if type = value_type_code kTypeDeletion then Some (True, val, Status_make kNotFound [] [])
                  else Some (False, val, s)
          else Some (False, val, s)
        }
        else Some (False, val, s)
      })"

text \<open>\<^verbatim>\<open>MemTableIterator\<close>; the functions that only pass on to the iterator of the list are those of the list.\<close>

definition MemTableIterator_Seek :: "(bytes \<Rightarrow> bytes \<Rightarrow> int) \<Rightarrow> memtable \<Rightarrow> bytes \<Rightarrow> nat option option" where
  "MemTableIterator_Seek user_compare table k = Iterator_Seek (KeyComparator user_compare) table (EncodeKey k)"

definition MemTableIterator_Prev :: "(bytes \<Rightarrow> bytes \<Rightarrow> int) \<Rightarrow> memtable \<Rightarrow> nat option \<Rightarrow> nat option option" where
  "MemTableIterator_Prev user_compare table it = Iterator_Prev (KeyComparator user_compare) table it"

definition MemTableIterator_key :: "memtable \<Rightarrow> nat option \<Rightarrow> bytes option" where
  "MemTableIterator_key table it = map_option fst (mem_GetLengthPrefixedSlice (Iterator_key table it))"

definition MemTableIterator_value :: "memtable \<Rightarrow> nat option \<Rightarrow> bytes option" where
  "MemTableIterator_value table it =
     do {
       (key_slice, rest) \<leftarrow> mem_GetLengthPrefixedSlice (Iterator_key table it);
       (val, _) \<leftarrow> mem_GetLengthPrefixedSlice rest;
       Some val
     }"

text \<open>The loop with which a memtable is written out, and the same loop backwards.\<close>

partial_function (option) scan_forward :: "memtable \<Rightarrow> nat option \<Rightarrow> (bytes \<times> bytes) list option" where
  "scan_forward table it =
     (if Iterator_Valid it
      then do {
        k \<leftarrow> MemTableIterator_key table it;
        v \<leftarrow> MemTableIterator_value table it;
        it \<leftarrow> Iterator_Next table it;
        r \<leftarrow> scan_forward table it;
        Some ((k, v) # r)
      }
      else Some [])"

partial_function (option) scan_backward :: "(bytes \<Rightarrow> bytes \<Rightarrow> int) \<Rightarrow> memtable \<Rightarrow> nat option \<Rightarrow> (bytes \<times> bytes) list option" where
  "scan_backward user_compare table it =
     (if Iterator_Valid it
      then do {
        k \<leftarrow> MemTableIterator_key table it;
        v \<leftarrow> MemTableIterator_value table it;
        it \<leftarrow> MemTableIterator_Prev user_compare table it;
        r \<leftarrow> scan_backward user_compare table it;
        Some ((k, v) # r)
      }
      else Some [])"

section \<open>What a memtable promises\<close>

text \<open>The calls of \<^verbatim>\<open>Add\<close>, in the order they come in.\<close>

record mem_add =
  ma_seq :: u64
  ma_type :: ValueType
  ma_key :: bytes
  ma_value :: bytes

fun mem_adds :: "mem_add list \<Rightarrow> memtable \<Rightarrow> memtable option" where
  "mem_adds [] t = Some t"
| "mem_adds (a # as) t = MemTable_Add Bytewise_Compare (ma_seq a) (ma_type a) (ma_key a) (ma_value a) t \<bind> mem_adds as"

text \<open>The version of a key with the highest sequence number among those a snapshot sees.\<close>

fun newest :: "bytes \<Rightarrow> u64 \<Rightarrow> mem_add list \<Rightarrow> mem_add option" where
  "newest k snap [] = None"
| "newest k snap (a # as) =
     (let r = newest k snap as
      in if ma_key a = k \<and> ma_seq a \<le> snap \<and> (case r of None \<Rightarrow> True | Some b \<Rightarrow> ma_seq b < ma_seq a) then Some a else r)"

definition mem_answer :: "mem_add option \<Rightarrow> bytes \<times> ldb_status \<Rightarrow> bool \<times> bytes \<times> ldb_status" where
  "mem_answer r out =
     (case r of
        None \<Rightarrow> (False, out)
      | Some a \<Rightarrow> (case ma_type a of kTypeValue \<Rightarrow> (True, ma_value a, snd out) | kTypeDeletion \<Rightarrow> (True, fst out, Status kNotFound [])))"

text \<open>Sequence numbers in their 56 bits, sizes in 32, and no number twice for one key, as \<^verbatim>\<open>SkipList::Insert\<close> requires.\<close>

definition adds_ok :: "mem_add list \<Rightarrow> bool" where
  "adds_ok as \<longleftrightarrow> (\<forall>a\<in>set as. ma_seq a \<le> kMaxSequenceNumber \<and> length (ma_key a) + 8 < 2 ^ 32 \<and> length (ma_value a) < 2 ^ 32) \<and>
     distinct (map (\<lambda>a. (ma_key a, ma_seq a)) as)"

section \<open>Entries\<close>

definition mem_valid :: "(bytes \<Rightarrow> bool) \<Rightarrow> bytes \<Rightarrow> bool" where
  "mem_valid valid e = (case mem_GetLengthPrefixedSlice e of None \<Rightarrow> False | Some (k, _) \<Rightarrow> ikey_valid valid k)"

definition mem_rank :: "(bytes \<Rightarrow> 'r) \<Rightarrow> bytes \<Rightarrow> 'r \<times> int" where
  "mem_rank rank e = ikey_rank rank (fst (the (mem_GetLengthPrefixedSlice e)))"

sublocale key_comparator < mem: skip_order "mem_valid valid" "mem_rank rank" "KeyComparator cmp"
proof
  fix a b assume "mem_valid valid a" "mem_valid valid b"
  then have "compares (mem_rank rank a) (mem_rank rank b) (KeyComparator cmp a b)"
    using internal_compares by (auto simp: mem_valid_def mem_rank_def KeyComparator_def Let_def split: option.splits)
  then show "KeyComparator cmp a b < 0 \<longleftrightarrow> mem_rank rank a < mem_rank rank b" "KeyComparator cmp a b = 0 \<longleftrightarrow> mem_rank rank a = mem_rank rank b"
    by (simp_all add: compares_def)
qed

lemma slice_put [simp]:
  "length k < 2 ^ 32 \<Longrightarrow> mem_GetLengthPrefixedSlice (EncodeVarint32 (of_nat (length k)) @ k @ rest) = Some (k, rest)"
  by (simp add: mem_GetLengthPrefixedSlice_def unat_of_nat_len)

definition ikey_of :: "mem_add \<Rightarrow> bytes" where
  "ikey_of a = AppendInternalKey [] \<lparr>user_key = ma_key a, key_sequence = ma_seq a, key_type = ma_type a\<rparr>"

definition entry_of :: "mem_add \<Rightarrow> bytes" where
  "entry_of a = EncodeVarint32 (of_nat (length (ikey_of a))) @ ikey_of a @ EncodeVarint32 (of_nat (length (ma_value a))) @ ma_value a"

definition add_ok :: "mem_add \<Rightarrow> bool" where
  "add_ok a \<longleftrightarrow> ma_seq a \<le> kMaxSequenceNumber \<and> length (ma_key a) + 8 < 2 ^ 32 \<and> length (ma_value a) < 2 ^ 32"

lemma ikey_of: "ikey_of a = PutFixed64 (ma_key a) (PackSequenceAndType (ma_seq a) (ma_type a))"
  by (simp add: ikey_of_def AppendInternalKey_def)

lemma ikey_of_length [simp]: "length (ikey_of a) = length (ma_key a) + 8"
  by (simp add: ikey_of PutFixed64_def)

lemma Pack_uint:
  assumes "s \<le> kMaxSequenceNumber"
  shows "uint (PackSequenceAndType s t) = uint s * 256 + (case t of kTypeDeletion \<Rightarrow> 0 | kTypeValue \<Rightarrow> 1)"
proof -
  let ?w = "PackSequenceAndType s t"
  have "take_bit 64 (uint ?w) = uint ?w" by (rule take_bit_int_eq_self) (use uint_bounded [of ?w] in simp_all)
  then have "uint ?w = push_bit 8 (uint (drop_bit 8 ?w)) + take_bit 8 (uint ?w)"
    using bits_ident [of 8 "uint ?w"] by (simp add: unsigned_drop_bit_eq)
  moreover have "take_bit 8 (uint ?w) = uint (?w AND 0xff)" unfolding and_ff_u64 by (simp add: unsigned_take_bit_eq)
  ultimately show ?thesis using Pack_fields [of s t] assms by (simp add: push_bit_eq_mult value_type_code_def split: ValueType.splits)
qed

abbreviation "mem_ok \<equiv> mem_valid (\<lambda>_. True)"
abbreviation "mem_pos \<equiv> mem_rank (\<lambda>a. a)"

lemma entry_ok:
  assumes "add_ok a"
  shows "mem_ok (entry_of a)"
    "mem_pos (entry_of a) = (ma_key a, - (uint (ma_seq a) * 256 + (case ma_type a of kTypeDeletion \<Rightarrow> 0 | kTypeValue \<Rightarrow> 1)))"
proof -
  have "mem_GetLengthPrefixedSlice (entry_of a) = Some (ikey_of a, EncodeVarint32 (of_nat (length (ma_value a))) @ ma_value a)"
    unfolding entry_of_def using assms by (intro slice_put) (simp add: add_ok_def)
  then show "mem_ok (entry_of a)"
    "mem_pos (entry_of a) = (ma_key a, - (uint (ma_seq a) * 256 + (case ma_type a of kTypeDeletion \<Rightarrow> 0 | kTypeValue \<Rightarrow> 1)))"
    using assms by (simp_all add: mem_valid_def mem_rank_def ikey_of ikey_valid_Put ikey_rank_def Pack_uint add_ok_def)
qed

lemma lookup_ok:
  assumes "snap \<le> kMaxSequenceNumber" "length k + 8 < 2 ^ 32"
  shows "mem_ok (memtable_key (LookupKey_new k snap))" "mem_pos (memtable_key (LookupKey_new k snap)) = (k, - (uint snap * 256 + 1))"
    "lookup_user_key (LookupKey_new k snap) = k"
proof -
  let ?k = "PutFixed64 k (PackSequenceAndType snap kValueTypeForSeek)"
  have "memtable_key (LookupKey_new k snap) = EncodeVarint32 (of_nat (length ?k)) @ ?k @ []"
    by (simp add: memtable_key_def LookupKey_new_def Let_def PutFixed64_def)
  moreover have "length ?k < 2 ^ 32" using assms(2) by (simp add: PutFixed64_def)
  ultimately have "mem_GetLengthPrefixedSlice (memtable_key (LookupKey_new k snap)) = Some (?k, [])" using slice_put by metis
  then show "mem_ok (memtable_key (LookupKey_new k snap))" "mem_pos (memtable_key (LookupKey_new k snap)) = (k, - (uint snap * 256 + 1))"
    using Pack_uint [OF assms(1), of kValueTypeForSeek]
    by (simp_all add: mem_valid_def mem_rank_def ikey_valid_Put ikey_rank_def kValueTypeForSeek_def)
  show "lookup_user_key (LookupKey_new k snap) = k" by (simp add: lookup_user_key_def LookupKey_new_def Let_def)
qed

section \<open>Adding\<close>

lemma Add_insert:
  assumes "add_ok a"
  shows "MemTable_Add cmp (ma_seq a) (ma_type a) (ma_key a) (ma_value a) t = SkipList_Insert (KeyComparator cmp) (entry_of a) t"
proof -
  have v: "VarintLength (of_nat n) = length (EncodeVarint32 (of_nat n))" if "n < 2 ^ 32" for n
  proof -
    have "unat (of_nat n :: u64) = n" "unat (of_nat n :: u32) = n" using that by (simp_all add: unat_of_nat)
    then show ?thesis by (simp add: VarintLength_vbytes EncodeVarint32_vbytes)
  qed
  have n: "length (ma_key a) + 8 < 2 ^ 32" "length (ma_value a) < 2 ^ 32" using assms by (simp_all add: add_ok_def)
  have e: "EncodeVarint32 (of_nat (length (ma_key a) + 8)) @ ma_key a @ EncodeFixed64 (push_bit 8 (ma_seq a) OR value_type_code (ma_type a)) @
      EncodeVarint32 (of_nat (length (ma_value a))) @ ma_value a = entry_of a"
    by (simp add: entry_of_def ikey_of PutFixed64_def PackSequenceAndType_def)
  show ?thesis unfolding MemTable_Add_def Let_def e by (simp add: v [OF n(1)] v [OF n(2)] entry_of_def del: of_nat_add)
qed

lemma entry_pos_inj:
  assumes "add_ok a" "add_ok b" "mem_pos (entry_of a) = mem_pos (entry_of b)"
  shows "(ma_key a, ma_seq a) = (ma_key b, ma_seq b)"
proof -
  have "uint (ma_seq a) = uint (ma_seq b)"
    using assms entry_ok(2) [of a] entry_ok(2) [of b] by (auto split: ValueType.splits)
  then show ?thesis using assms entry_ok(2) [of a] entry_ok(2) [of b] by (simp add: word_uint_eq_iff)
qed

lemma mem_adds_rep:
  "sl_rep mem_ok mem_pos t ks \<Longrightarrow> set ks = entry_of ` set bs \<Longrightarrow> \<forall>a\<in>set (bs @ as). add_ok a \<Longrightarrow>
     distinct (map (\<lambda>a. (ma_key a, ma_seq a)) (bs @ as)) \<Longrightarrow>
     \<exists>t' ks'. mem_adds as t = Some t' \<and> sl_rep mem_ok mem_pos t' ks' \<and> set ks' = entry_of ` set (bs @ as)"
proof (induction as arbitrary: t ks bs)
  case Nil
  then show ?case by auto
next
  case (Cons a as)
  have a: "add_ok a" "mem_ok (entry_of a)" using Cons.prems(3) entry_ok(1) by auto
  have "mem_pos (entry_of a) \<noteq> mem_pos (entry_of b)" if "b \<in> set bs" for b
    using entry_pos_inj [of a b] Cons.prems(3,4) that a(1) by (auto simp: image_iff)
  then have "mem_pos (entry_of a) \<notin> mem_pos ` set ks" unfolding Cons.prems(2) by auto
  then obtain t1 where t1: "SkipList_Insert (KeyComparator Bytewise_Compare) (entry_of a) t = Some t1"
    "sl_rep mem_ok mem_pos t1 (takeWhile (\<lambda>k. mem_pos k < mem_pos (entry_of a)) ks @ entry_of a # dropWhile (\<lambda>k. mem_pos k < mem_pos (entry_of a)) ks)"
    using bytewise.mem.Insert_rep [OF Cons.prems(1) a(2)] by blast
  let ?lt = "\<lambda>k. mem_pos k < mem_pos (entry_of a)"
  have "set (takeWhile ?lt ks) \<union> set (dropWhile ?lt ks) = set ks" unfolding set_append [symmetric] takeWhile_dropWhile_id ..
  then have "set (takeWhile ?lt ks @ entry_of a # dropWhile ?lt ks) = entry_of ` set (bs @ [a])" using Cons.prems(2) by simp
  from Cons.IH [OF t1(2) this] Cons.prems(3,4) show ?case by (simp add: Add_insert [OF a(1)] t1(1))
qed

section \<open>Getting\<close>

lemma first_not_below:
  assumes "sorted_wrt (\<lambda>a b. (rank a :: 'r::linorder) < rank b) ks"
  shows "case dropWhile (\<lambda>k. rank k < r) ks of [] \<Rightarrow> \<forall>k\<in>set ks. rank k < r
    | k # _ \<Rightarrow> k \<in> set ks \<and> r \<le> rank k \<and> (\<forall>k'\<in>set ks. r \<le> rank k' \<longrightarrow> rank k \<le> rank k')"
  using assms
proof (induction ks)
  case (Cons a ks)
  show ?case
  proof (cases "rank a < r")
    case True
    with Cons show ?thesis by (cases "dropWhile (\<lambda>k. rank k < r) ks") (auto simp del: dropWhile_eq_Nil_conv)
  qed (use Cons.prems in auto)
qed simp

lemma newest_None: "newest k snap as = None \<longleftrightarrow> (\<forall>a\<in>set as. ma_key a = k \<longrightarrow> \<not> ma_seq a \<le> snap)"
  by (induction as) (auto simp: Let_def split: option.splits)

lemma newest_Some:
  "newest k snap as = Some b \<Longrightarrow>
     b \<in> set as \<and> ma_key b = k \<and> ma_seq b \<le> snap \<and> (\<forall>a\<in>set as. ma_key a = k \<longrightarrow> ma_seq a \<le> snap \<longrightarrow> ma_seq a \<le> ma_seq b)"
proof (induction as arbitrary: b)
  case (Cons a as)
  show ?case
  proof (cases "newest k snap as")
    case None
    then show ?thesis using Cons.prems newest_None [of k snap as] by (auto simp: Let_def split: if_splits)
  next
    case (Some c)
    from Cons.IH [OF this] show ?thesis using Cons.prems Some by (auto simp: Let_def split: if_splits)
  qed
qed simp

lemma Get_entry:
  assumes a: "add_ok a" and s: "Iterator_Seek (KeyComparator Bytewise_Compare) t (memtable_key key) = Some it" "it \<noteq> None" "Iterator_key t it = entry_of a"
  shows "MemTable_Get Bytewise_Compare t key out = Some (if ma_key a = lookup_user_key key then mem_answer (Some a) out else (False, out))"
proof -
  let ?n = "length (ma_key a) + 8" and ?v = "EncodeVarint32 (of_nat (length (ma_value a))) @ ma_value a"
  have n: "unat (of_nat ?n :: u32) = ?n" using a unat_of_nat_len [of ?n] by (simp add: add_ok_def)
  have g: "GetVarint32Ptr (entry_of a) = Some (of_nat ?n, ikey_of a @ ?v)" by (simp add: entry_of_def)
  have k: "take (?n - 8) (ikey_of a @ ?v) = ma_key a" "drop ?n (ikey_of a @ ?v) = ?v" by (simp_all add: ikey_of PutFixed64_def)
  have "drop (?n - 8) (ikey_of a @ ?v) = EncodeFixed64 (PackSequenceAndType (ma_seq a) (ma_type a)) @ ?v" by (simp add: ikey_of PutFixed64_def)
  then have d: "ldb_DecodeFixed64 (drop (?n - 8) (ikey_of a @ ?v)) AND 0xff = value_type_code (ma_type a)" by (simp only: ldb_DecodeFixed64_encode Pack_fields)
  have v: "mem_GetLengthPrefixedSlice ?v = Some (ma_value a, [])" using slice_put [of "ma_value a" "[]"] a by (simp add: add_ok_def)
  have c: "Bytewise_Compare x y = 0 \<longleftrightarrow> x = y" for x y using Slice_compare_compares [of x y] by (simp add: Bytewise_Compare_def compares_def)
  obtain v0 s0 where o: "out = (v0, s0)" by fastforce
  define q where "q = ikey_of a @ ?v"
  have l: "\<not> (?n < 8 \<or> length q < ?n)" by (simp add: q_def)
  note f = g [folded q_def] k [folded q_def] d [folded q_def]
  have "MemTable_Get Bytewise_Compare t key out =
    (if ma_key a = lookup_user_key key
     then if value_type_code (ma_type a) = value_type_code kTypeValue then Some (True, ma_value a, s0)
          else if value_type_code (ma_type a) = value_type_code kTypeDeletion then Some (True, v0, Status_make kNotFound [] []) else Some (False, v0, s0)
     else Some (False, v0, s0))"
    unfolding MemTable_Get_def Let_def o prod.case s(1) bind.bind_lunit Iterator_Valid_def s(3) f(1) n if_not_P [OF l] f(2-4) c v
    using s(2) by simp
  then show ?thesis unfolding o
    by (cases "ma_type a") (simp_all add: mem_answer_def value_type_code_def Status_make_def)
qed

lemma seen_pos:
  assumes "add_ok a" "snap \<le> kMaxSequenceNumber" "length k + 8 < 2 ^ 32" "ma_key a = k"
  shows "mem_pos (memtable_key (LookupKey_new k snap)) \<le> mem_pos (entry_of a) \<longleftrightarrow> ma_seq a \<le> snap"
  unfolding entry_ok(2) [OF assms(1)] lookup_ok(2) [OF assms(2,3)]
  using assms(4) by (cases "ma_type a") (auto simp: word_le_def)

text \<open>The first entry not below a lookup key is the newest version of its key that the snapshot sees, if there is one.\<close>

lemma seek_newest:
  assumes ok: "adds_ok as" and snap: "snap \<le> kMaxSequenceNumber" "length k + 8 < 2 ^ 32" and a: "a \<in> set as"
    and first: "mem_pos (memtable_key (LookupKey_new k snap)) \<le> mem_pos (entry_of a)"
      "\<forall>b\<in>set as. mem_pos (memtable_key (LookupKey_new k snap)) \<le> mem_pos (entry_of b) \<longrightarrow> mem_pos (entry_of a) \<le> mem_pos (entry_of b)"
  shows "newest k snap as = (if ma_key a = k then Some a else None)"
proof -
  have A: "add_ok b" if "b \<in> set as" for b using ok that by (simp add: adds_ok_def add_ok_def)
  note E = entry_ok(2) [OF A]
  note S = seen_pos [OF A snap]
  show ?thesis
  proof (cases "newest k snap as")
    case None
    then have "ma_key a \<noteq> k" using newest_None S [OF a] first(1) a by blast
    then show ?thesis using None by simp
  next
    case (Some b)
    note b = newest_Some [OF Some]
    then have le: "mem_pos (entry_of a) \<le> mem_pos (entry_of b)" using first(2) S by blast
    have k: "ma_key a = k"
    proof (rule antisym)
      show "ma_key a \<le> k" using le b E [of b] E [OF a] by auto
      show "k \<le> ma_key a" using first(1) E [OF a] lookup_ok(2) [OF snap] by auto
    qed
    then have "ma_seq a \<le> ma_seq b" using b a S [OF a] first(1) by blast
    moreover have "ma_seq b \<le> ma_seq a"
      using le k b E [of b] E [OF a] by (cases "ma_type a"; cases "ma_type b") (auto simp: word_le_def)
    ultimately have "(ma_key a, ma_seq a) = (ma_key b, ma_seq b)" using k b by simp
    then have "a = b" using ok a b unfolding adds_ok_def distinct_map inj_on_def by blast
    then show ?thesis using Some k by simp
  qed
qed

text \<open>
  C7: whatever is added to a new memtable, in whatever order, all additions succeed and a lookup at a snapshot answers with the version
  of the key that has the highest sequence number the snapshot sees: with its value, or with the status not found when that version
  is a deletion; without such a version nothing is found and the value and the status of the caller stay as they are.
\<close>

theorem memtable_gets_newest:
  assumes "adds_ok as" "snap \<le> kMaxSequenceNumber" "length k + 8 < 2 ^ 32"
  shows "\<exists>t. mem_adds as MemTable_new = Some t \<and>
    MemTable_Get Bytewise_Compare t (LookupKey_new k snap) out = Some (mem_answer (newest k snap as) out)"
proof -
  have A: "add_ok b" if "b \<in> set as" for b using assms(1) that by (simp add: adds_ok_def add_ok_def)
  from mem_adds_rep [OF sl_rep_new, of "[]" as] A assms(1) obtain t ks
    where t: "mem_adds as MemTable_new = Some t" "sl_rep mem_ok mem_pos t ks" "set ks = entry_of ` set as"
    by (auto simp: MemTable_new_def adds_ok_def)
  let ?m = "memtable_key (LookupKey_new k snap)"
  obtain it where it: "Iterator_Seek (KeyComparator Bytewise_Compare) t ?m = Some it"
    "case dropWhile (\<lambda>e. mem_pos e < mem_pos ?m) ks of [] \<Rightarrow> it = None | e # _ \<Rightarrow> it \<noteq> None \<and> Iterator_key t it = e"
    using bytewise.mem.Seek_rep [OF t(2) lookup_ok(1) [OF assms(2,3)]] by blast
  note first = first_not_below [OF sl_rep_sorted(1) [OF t(2)], of "mem_pos ?m"]
  have "MemTable_Get Bytewise_Compare t (LookupKey_new k snap) out = Some (mem_answer (newest k snap as) out)"
  proof (cases "dropWhile (\<lambda>e. mem_pos e < mem_pos ?m) ks")
    case Nil
    then have "\<forall>a\<in>set as. mem_pos (entry_of a) < mem_pos ?m" using first t(3) by auto
    then have "newest k snap as = None" using newest_None seen_pos [OF A assms(2,3)] by (meson leD)
    then show ?thesis using it Nil by (simp add: MemTable_Get_def mem_answer_def Iterator_Valid_def split: prod.splits)
  next
    case (Cons e es)
    then obtain a where a: "a \<in> set as" "e = entry_of a" using first t(3) by auto
    then have "newest k snap as = (if ma_key a = k then Some a else None)"
      using first Cons t(3) by (intro seek_newest [OF assms a(1)]) auto
    moreover have "it \<noteq> None" "Iterator_key t it = entry_of a" using it(2) Cons a(2) by auto
    ultimately show ?thesis using Get_entry [OF A [OF a(1)] it(1)] lookup_ok(3) [OF assms(2,3)] by (simp add: mem_answer_def)
  qed
  with t(1) show ?thesis by blast
qed

definition witness_adds :: "mem_add list" where
  "witness_adds =
     [\<lparr>ma_seq = 1, ma_type = kTypeValue, ma_key = [107], ma_value = [1]\<rparr>, \<lparr>ma_seq = 2, ma_type = kTypeDeletion, ma_key = [107], ma_value = []\<rparr>,
      \<lparr>ma_seq = 3, ma_type = kTypeValue, ma_key = [107, 0], ma_value = [3]\<rparr>, \<lparr>ma_seq = 4, ma_type = kTypeValue, ma_key = [107], ma_value = [4]\<rparr>]"

theorem memtable_gets_newest_witness:
  "\<exists>t. mem_adds witness_adds MemTable_new = Some t \<and>
     MemTable_Get Bytewise_Compare t (LookupKey_new [107] 2) ([], Status_OK) = Some (True, [], Status kNotFound [])"
  using memtable_gets_newest [of witness_adds 2 "[107]" "([], Status_OK)"]
  by (simp add: witness_adds_def adds_ok_def kMaxSequenceNumber_def mem_answer_def)

section \<open>Scanning\<close>

lemma Iterator_at:
  assumes "sl_ok valid rank t Ls" "Ls ! 0 = xs @ y # ys"
  shows "Iterator_Next t (Some y) = Some (first_of ys)"
  using linked_append [of t 0 0 "xs @ [y]" ys] sl_okD(4) [OF assms(1), of 0] assms(2)
  by (simp add: Iterator_Next_def linked_next kMaxHeight_def)

definition end_of :: "nat list \<Rightarrow> nat option" where
  "end_of xs = (if xs = [] then None else Some (last xs))"

lemma Iterator_back:
  assumes ok: "sl_ok mem_ok mem_pos t Ls" and s: "Ls ! 0 = xs @ y # ys"
  shows "MemTableIterator_Prev Bytewise_Compare t (Some y) = Some (end_of xs)"
proof -
  have z: "0 < kMaxHeight" by (simp add: kMaxHeight_def)
  have v: "mem_ok (node_key t y)" using sl_okD(7) [OF ok z] s by simp
  have srt: "sorted_wrt (\<lambda>x y. mem_pos (node_key t x) < mem_pos (node_key t y)) (xs @ y # ys)" using sl_okD(5) [OF ok z] s by simp
  then have "takeWhile (\<lambda>x. mem_pos (node_key t x) < mem_pos (node_key t y)) (xs @ y # ys) = xs"
    using takeWhile_all [of xs "\<lambda>x. mem_pos (node_key t x) < mem_pos (node_key t y)" "y # ys"] by (simp add: sorted_wrt_append)
  moreover have "xs \<noteq> [] \<longrightarrow> last xs \<noteq> 0" using sl_okD(6) [OF ok z, of "last xs"] s by simp
  ultimately show ?thesis using bytewise.mem.FindLessThan_ok [OF ok v] s
    by (auto simp: MemTableIterator_Prev_def Iterator_Prev_def end_of_def)
qed

lemma entry_fields:
  assumes "add_ok a" "Iterator_key t it = entry_of a"
  shows "MemTableIterator_key t it = Some (ikey_of a)" "MemTableIterator_value t it = Some (ma_value a)"
proof -
  let ?v = "EncodeVarint32 (of_nat (length (ma_value a))) @ ma_value a"
  have "mem_GetLengthPrefixedSlice (entry_of a) = Some (ikey_of a, ?v)"
    unfolding entry_of_def using assms(1) by (intro slice_put) (simp add: add_ok_def)
  moreover have "mem_GetLengthPrefixedSlice ?v = Some (ma_value a, [])" using slice_put [of "ma_value a" "[]"] assms(1) by (simp add: add_ok_def)
  ultimately show "MemTableIterator_key t it = Some (ikey_of a)" "MemTableIterator_value t it = Some (ma_value a)"
    using assms(2) by (simp_all add: MemTableIterator_key_def MemTableIterator_value_def)
qed

definition pair_of :: "mem_add \<Rightarrow> bytes \<times> bytes" where
  "pair_of a = (ikey_of a, ma_value a)"

lemma scan_forward_ok:
  assumes ok: "sl_ok mem_ok mem_pos t Ls"
  shows "Ls ! 0 = xs @ ys \<Longrightarrow> map (node_key t) ys = map entry_of bs \<Longrightarrow> \<forall>b\<in>set bs. add_ok b \<Longrightarrow>
    scan_forward t (first_of ys) = Some (map pair_of bs)"
proof (induction ys arbitrary: xs bs)
  case Nil
  then show ?case by (subst scan_forward.simps) (simp add: first_of_def Iterator_Valid_def)
next
  case (Cons y ys)
  then obtain b bs' where b: "bs = b # bs'" "node_key t y = entry_of b" "map (node_key t) ys = map entry_of bs'" by (cases bs) auto
  have "scan_forward t (first_of ys) = Some (map pair_of bs')" using Cons.IH [of "xs @ [y]" bs'] Cons.prems b by simp
  moreover have "Iterator_key t (Some y) = entry_of b" using b by (simp add: Iterator_key_def)
  ultimately show ?case using entry_fields [of b t "Some y"] Iterator_at [OF ok Cons.prems(1)] b Cons.prems(3)
    by (subst scan_forward.simps) (simp add: first_of_def Iterator_Valid_def pair_of_def)
qed

lemma scan_backward_ok:
  assumes ok: "sl_ok mem_ok mem_pos t Ls"
  shows "Ls ! 0 = xs @ ys \<Longrightarrow> map (node_key t) xs = map entry_of bs \<Longrightarrow> \<forall>b\<in>set bs. add_ok b \<Longrightarrow>
    scan_backward Bytewise_Compare t (end_of xs) = Some (rev (map pair_of bs))"
proof (induction xs arbitrary: ys bs rule: rev_induct)
  case Nil
  then show ?case by (subst scan_backward.simps) (simp add: end_of_def Iterator_Valid_def)
next
  case (snoc y xs)
  then obtain b bs' where b: "bs = bs' @ [b]" "node_key t y = entry_of b" "map (node_key t) xs = map entry_of bs'" by (cases bs rule: rev_cases) auto
  have "scan_backward Bytewise_Compare t (end_of xs) = Some (rev (map pair_of bs'))" using snoc.IH [of "y # ys" bs'] snoc.prems b by simp
  moreover have "Iterator_key t (Some y) = entry_of b" using b by (simp add: Iterator_key_def)
  ultimately show ?case using entry_fields [of b t "Some y"] Iterator_back [OF ok, of xs y ys] b snoc.prems(1,3)
    by (subst scan_backward.simps) (simp add: end_of_def Iterator_Valid_def pair_of_def)
qed

lemma entries_ordered:
  assumes "add_ok a" "add_ok b" "mem_pos (entry_of a) < mem_pos (entry_of b)"
  shows "InternalKeyComparator_Compare Bytewise_Compare (ikey_of a) (ikey_of b) < 0"
proof -
  have s: "mem_GetLengthPrefixedSlice (entry_of c) = Some (ikey_of c, EncodeVarint32 (of_nat (length (ma_value c))) @ ma_value c)" if "add_ok c" for c
    unfolding entry_of_def using that by (intro slice_put) (simp add: add_ok_def)
  have "KeyComparator Bytewise_Compare (entry_of a) (entry_of b) < 0" using assms bytewise.mem.cmp_less entry_ok(1) by blast
  then show ?thesis using s [OF assms(1)] s [OF assms(2)] by (simp add: KeyComparator_def)
qed

text \<open>
  C18: a scan of a memtable from its first entry with \<^verbatim>\<open>Next\<close> gives what was added, each addition once, in the order of internal
  keys: by key of the user, and the versions of one key from the newest to the oldest. A scan from the last entry with \<^verbatim>\<open>Prev\<close>
  gives the same entries in the opposite order. Both come to an end.
\<close>

theorem memtable_scans:
  assumes "adds_ok as"
  shows "\<exists>t r. mem_adds as MemTable_new = Some t \<and> Iterator_SeekToFirst t \<bind> scan_forward t = Some r \<and>
    Iterator_SeekToLast t \<bind> scan_backward Bytewise_Compare t = Some (rev r) \<and>
    sorted_wrt (\<lambda>a b. InternalKeyComparator_Compare Bytewise_Compare (fst a) (fst b) < 0) r \<and>
    set r = (\<lambda>a. (AppendInternalKey [] \<lparr>user_key = ma_key a, key_sequence = ma_seq a, key_type = ma_type a\<rparr>, ma_value a)) ` set as"
proof -
  have A: "add_ok b" if "b \<in> set as" for b using assms that by (simp add: adds_ok_def add_ok_def)
  from mem_adds_rep [OF sl_rep_new, of "[]" as] A assms obtain t ks
    where t: "mem_adds as MemTable_new = Some t" "sl_rep mem_ok mem_pos t ks" "set ks = entry_of ` set as"
    by (auto simp: MemTable_new_def adds_ok_def)
  then obtain Ls where ok: "sl_ok mem_ok mem_pos t Ls" "ks = map (node_key t) (Ls ! 0)" by (auto simp: sl_rep_def)
  have z: "0 < kMaxHeight" by (simp add: kMaxHeight_def)
  define f where "f k = (SOME a. a \<in> set as \<and> entry_of a = k)" for k
  have f: "f k \<in> set as \<and> entry_of (f k) = k" if "k \<in> set ks" for k using someI_ex [of "\<lambda>a. a \<in> set as \<and> entry_of a = k"] that t(3) by (auto simp: f_def)
  define bs where "bs = map f ks"
  have inj: "inj_on entry_of (set as)"
    using entry_pos_inj [OF A A] assms unfolding adds_ok_def distinct_map inj_on_def by metis
  have bs: "map entry_of bs = ks" "\<forall>b\<in>set bs. add_ok b" unfolding bs_def using f A by (auto intro: map_idI)
  have "set bs \<subseteq> set as" using f by (auto simp: bs_def)
  then have sb: "set bs = set as" using bs(1) t(3) inj by (metis inj_on_image_eq_iff list.set_map order_refl)
  have "Iterator_SeekToFirst t = Some (first_of (Ls ! 0))" using linked_next [OF sl_okD(4) [OF ok(1) z]] by (simp add: Iterator_SeekToFirst_def)
  then have fw: "Iterator_SeekToFirst t \<bind> scan_forward t = Some (map pair_of bs)"
    using scan_forward_ok [OF ok(1), of "[]" "Ls ! 0" bs] bs ok(2) by simp
  have "Ls ! 0 \<noteq> [] \<longrightarrow> last (Ls ! 0) \<noteq> 0" using sl_okD(6) [OF ok(1) z, of "last (Ls ! 0)"] by simp
  then have "Iterator_SeekToLast t = Some (end_of (Ls ! 0))"
    using bytewise.mem.FindLast_ok [OF ok(1)] by (auto simp: Iterator_SeekToLast_def end_of_def)
  then have bw: "Iterator_SeekToLast t \<bind> scan_backward Bytewise_Compare t = Some (rev (map pair_of bs))"
    using scan_backward_ok [OF ok(1), of "Ls ! 0" "[]" bs] bs ok(2) by simp
  have "sorted_wrt (\<lambda>a b. mem_pos (entry_of a) < mem_pos (entry_of b)) bs"
    using sl_rep_sorted(1) [OF t(2)] unfolding bs(1) [symmetric] by (simp add: sorted_wrt_map)
  then have "sorted_wrt (\<lambda>a b. InternalKeyComparator_Compare Bytewise_Compare (fst a) (fst b) < 0) (map pair_of bs)"
    unfolding sorted_wrt_map pair_of_def fst_conv by (rule sorted_wrt_mono_rel [rotated]) (use bs(2) entries_ordered in blast)
  with t(1) fw bw sb show ?thesis by (intro exI [of _ t] exI [of _ "map pair_of bs"]) (simp add: pair_of_def ikey_of_def)
qed

theorem memtable_scans_witness:
  "\<exists>t r. mem_adds witness_adds MemTable_new = Some t \<and> Iterator_SeekToFirst t \<bind> scan_forward t = Some r \<and> r \<noteq> []"
  using memtable_scans [of witness_adds] by (auto simp: witness_adds_def adds_ok_def kMaxSequenceNumber_def)

section \<open>Readers beside a writer\<close>

text \<open>
  C8: one thread adds entries while any number of threads search. The accesses to shared memory come in any order, a store of the
  new node's own pointer and the store that publishes the node on a level being two of them; a load gives the last value stored, except that the
  maximal height may be an earlier one. At every moment the pointer that a search needs is set, the nodes on the lowest level are sorted and have all entries whose insertion has
  returned, and a search that ends there ends at the first of them that is not below its key.
\<close>

theorem memtable_readers:
  assumes "(sl_step (mem_valid (\<lambda>_. True)) (KeyComparator Bytewise_Compare))\<^sup>*\<^sup>* (run_init n) r"
    and "j < length (run_readers r)" "run_readers r ! j = R_search key x level"
  shows "\<exists>L nxt. sl_linked (run_list r) 0 0 L \<and>
    sorted_wrt (\<lambda>x y. KeyComparator Bytewise_Compare (node_key (run_list r) x) (node_key (run_list r) y) < 0) L \<and>
    set (run_done r) \<subseteq> node_key (run_list r) ` set L \<and> node_Next (run_list r) x level = Some nxt \<and>
    (\<forall>res. reader_round (KeyComparator Bytewise_Compare) (run_list r) key x level nxt = R_found key res \<longrightarrow>
       res = first_of (dropWhile (\<lambda>y. KeyComparator Bytewise_Compare (node_key (run_list r) y) key < 0) L))"
  by (rule bytewise.mem.run_reads [OF assms])

text \<open>A writer that has linked its node on the lowest level and a search that begins then.\<close>

definition witness_entry :: bytes where
  "witness_entry = entry_of \<lparr>ma_seq = 1, ma_type = kTypeValue, ma_key = [107], ma_value = [1]\<rparr>"

lemma first_height: "RandomHeight (Random_new 0xdeadbeef) = (2, 386994929)"
  by code_simp

definition witness_prev :: "nat option list" where
  "witness_prev = map (\<lambda>i. if i < 2 then Some 0 else None) [0..<kMaxHeight]"

definition witness_list :: "'k \<Rightarrow> sl_ptr \<Rightarrow> sl_ptr \<Rightarrow> 'k skiplist" where
  "witness_list e p q = \<lparr>sl_nodes = [\<lparr>sn_key = None, sn_next = p # replicate 11 Null\<rparr>, \<lparr>sn_key = Some e, sn_next = [q, Uninit]\<rparr>],
     sl_max_height = 2, sl_rnd = 386994929\<rparr>"

lemma search_new: "FindGreaterOrEqual cmp (SkipList_new :: 'k skiplist) e = Some (None, (replicate kMaxHeight None)[0 := Some 0])"
proof -
  have "sl_search_loop f (SkipList_new :: 'k skiplist) 0 0 (replicate kMaxHeight None) = Some (0, None, (replicate kMaxHeight None)[0 := Some 0])" if "\<not> f None" for f
    using that by (subst sl_search_loop.simps) (simp add: node_Next_def SkipList_new_def kMaxHeight_def Let_def)
  moreover have "sl_max_height (SkipList_new :: 'k skiplist) = 1" "\<not> KeyIsAfterNode cmp SkipList_new e None" by (simp_all add: SkipList_new_def KeyIsAfterNode_def)
  ultimately show ?thesis unfolding FindGreaterOrEqual_def by simp
qed

lemma witness_prepare: "Insert_prepare cmp e SkipList_new = Some (witness_list e Null Uninit, 1, 2, witness_prev)"
proof -
  have r: "RandomHeight (sl_rnd SkipList_new) = (2, 386994929)" using first_height by (simp add: SkipList_new_def)
  have p: "map (\<lambda>i. if 1 \<le> i \<and> i < 2 then Some 0 else (replicate kMaxHeight None)[0 := Some 0] ! i) [0..<kMaxHeight] = witness_prev"
    unfolding witness_prev_def by (rule map_cong [OF refl]) (auto simp: kMaxHeight_def nth_list_update)
  have n: "replicate 2 Uninit = [Uninit, Uninit]" "replicate 12 Null = Null # replicate 11 Null" by (simp_all add: numeral_eq_Suc)
  show ?thesis using p unfolding Insert_prepare_def search_new r
    by (simp add: NewNode_def witness_list_def Let_def n) (simp add: SkipList_new_def n kMaxHeight_def)
qed

lemma witness_link:
  "Insert_set_next 1 witness_prev 0 (witness_list e Null Uninit) = Some (witness_list e Null Null)"
  "Insert_publish 1 witness_prev 0 (witness_list e Null Null) = Some (witness_list e (Addr 1) Null)"
proof -
  have "witness_prev ! 0 = Some 0" by (simp add: witness_prev_def kMaxHeight_def)
  then show "Insert_set_next 1 witness_prev 0 (witness_list e Null Uninit) = Some (witness_list e Null Null)"
    "Insert_publish 1 witness_prev 0 (witness_list e Null Null) = Some (witness_list e (Addr 1) Null)"
    by (simp_all add: Insert_set_next_def Insert_publish_def witness_list_def node_Next_def node_SetNext_def)
qed

definition witness_run :: "bytes \<Rightarrow> nat \<Rightarrow> bytes sl_run" where
  "witness_run key level = \<lparr>run_list = witness_list witness_entry (Addr 1) Null, run_writer = Some (1, 2, witness_prev, 1, False), run_readers = [R_search key 0 level], run_done = []\<rparr>"

lemma witness_steps:
  assumes "ok witness_entry" "ok key"
  shows "(sl_step ok cmp)\<^sup>*\<^sup>* (run_init 1) (witness_run key 0)"
proof -
  let ?r = "\<lambda>p q i b. \<lparr>run_list = witness_list witness_entry p q, run_writer = Some (1, 2, witness_prev, i, b), run_readers = [R_idle], run_done = []\<rparr>"
  have c: "SkipList_Contains cmp SkipList_new witness_entry = Some False"
    by (simp add: SkipList_Contains_def search_new)
  have a: "sl_step ok cmp (run_init 1) (?r Null Uninit 0 False)"
    using w_begin [of "run_init 1" ok witness_entry cmp, OF _ assms(1)] c witness_prepare [of cmp witness_entry] by (simp add: run_init_def)
  have b: "sl_step ok cmp (?r Null Uninit 0 False) (?r Null Null 0 True)"
    using w_set [of "?r Null Uninit 0 False" 1 2 witness_prev 0 _ ok cmp] witness_link(1) [of witness_entry] by simp
  have b': "sl_step ok cmp (?r Null Null 0 True) (?r (Addr 1) Null 1 False)"
    using w_publish [of "?r Null Null 0 True" 1 2 witness_prev 0 _ ok cmp] witness_link(2) [of witness_entry] by simp
  have e: "sl_step ok cmp (?r (Addr 1) Null 1 False) (witness_run key 1)"
    using r_begin [of 0 "?r (Addr 1) Null 1 False" ok key 2] assms(2) by (simp add: witness_run_def witness_list_def)
  have d: "sl_step ok cmp (witness_run key 1) (witness_run key 0)"
    using r_round [of 0 "witness_run key 1" key 0 1 None ok cmp]
    by (simp add: witness_run_def witness_list_def node_Next_def reader_round_def KeyIsAfterNode_def)
  show ?thesis
    by (rule converse_rtranclp_into_rtranclp [of "sl_step ok cmp", OF a converse_rtranclp_into_rtranclp [of "sl_step ok cmp", OF b
      converse_rtranclp_into_rtranclp [of "sl_step ok cmp", OF b' converse_rtranclp_into_rtranclp [of "sl_step ok cmp", OF e
      r_into_rtranclp [of "sl_step ok cmp", OF d]]]]])
qed

definition witness_key :: bytes where
  "witness_key = memtable_key (LookupKey_new [107] 2)"

lemma witness_ok: "mem_ok witness_entry" "mem_ok witness_key"
  unfolding witness_entry_def witness_key_def
  by (rule entry_ok lookup_ok; simp add: add_ok_def kMaxSequenceNumber_def)+

theorem memtable_readers_witness:
  "(sl_step (mem_valid (\<lambda>_. True)) (KeyComparator Bytewise_Compare))\<^sup>*\<^sup>* (run_init 1) (witness_run witness_key 0) \<and>
   (\<exists>L nxt. sl_linked (run_list (witness_run witness_key 0)) 0 0 L \<and> node_Next (run_list (witness_run witness_key 0)) 0 0 = Some nxt \<and>
     (\<forall>res. reader_round (KeyComparator Bytewise_Compare) (run_list (witness_run witness_key 0)) witness_key 0 0 nxt = R_found witness_key res \<longrightarrow>
       res = first_of (dropWhile (\<lambda>y. KeyComparator Bytewise_Compare (node_key (run_list (witness_run witness_key 0)) y) witness_key < 0) L)))"
proof -
  note s = witness_steps [OF witness_ok, of "KeyComparator Bytewise_Compare"]
  have "0 < length (run_readers (witness_run witness_key 0))" "run_readers (witness_run witness_key 0) ! 0 = R_search witness_key 0 0"
    by (simp_all add: witness_run_def)
  from memtable_readers [OF s this] s show ?thesis by blast
qed

end
