(* ===== verification/Spec2Isabelle.thy ===== *)
theory Spec2Isabelle
  imports Coding Cuckoo_Map Bitcask_Map Put_Race Pmem_Front Group_Commit Hybrid_Props Intset_Set Crc64 Aof_Props Remote_Log Ldb_Log_Records Ldb_Mem
begin

text \<open>
  \<^bold>\<open>LogDirect.\<close> A key-value server that is reached over RDMA, \<^verbatim>\<open>src/logdirectaccess\<close>. A client lays
  out a request in a registered buffer and posts it into the memory of the server, where a thread
  of its own, a clerk, spins on a header word, serves the request from a storage engine, and posts
  the reply back. There are four front ends, which differ in where a request goes and when it is
  stored, and three storage engines of the repository's own behind them, one of them a log-structured store
  that finds its records by a concurrent cuckoo hash table; a fourth is a copy of LevelDB. Beside it the repository has a copy of Redis,
  \<^verbatim>\<open>src/redis\<close>, whose append-only file is measured on the same devices.

  \<^bold>\<open>The theories and the code.\<close>
  \<^item> \<^theory_text>\<open>Prelude\<close>: bytes, buffers (\<open>mread\<close>, \<open>mwrite\<close>, \<open>memcpy\<close>, \<open>load\<close>, an access outside a buffer being
    \<open>None\<close>), little-endian integers, C strings, and the lemmas on them all other theories use.
  \<^item> \<^theory_text>\<open>Hash_Map\<close>: the contract of the hash table, a locale, with what follows from it for sequences of
    operations; \<^theory_text>\<open>Cuckoo\<close>, \<^theory_text>\<open>Cuckoo_Table\<close>, \<^theory_text>\<open>Cuckoo_Rehash\<close>, \<^theory_text>\<open>Cuckoo_Path\<close>, \<^theory_text>\<open>Cuckoo_Map\<close>: the table of
    \<^verbatim>\<open>libcuckoo\<close> (\<^verbatim>\<open>cuckoohash_map.h\<close>, \<^verbatim>\<open>bucket_container.h\<close>, the three copies in the repository are the
    same): hashing, buckets, the breadth-first search for a free slot and the moves along the path it
    finds, doubling with lazy migration, the counters of the locks. \<open>cuckoo_invar\<close> and \<open>cuckoo_lookup\<close> are
    its invariant and the finite map it stands for, and the last theory interprets the contract.
  \<^item> \<^theory_text>\<open>Coding\<close>, \<^theory_text>\<open>Posix_File\<close>, \<^theory_text>\<open>Bitcask\<close>, \<^theory_text>\<open>Bitcask_Map\<close>: the BitCask engine (\<^verbatim>\<open>database/bitcask\<close>): record
    formats, files, \<^verbatim>\<open>Put\<close>, \<^verbatim>\<open>PutBatch\<close>, \<^verbatim>\<open>Get\<close>, \<^verbatim>\<open>Delete\<close>, \<^verbatim>\<open>Open\<close> and recovery; \<open>db_ok\<close> is the invariant of
    the table, the files and the index file, \<open>db_map\<close> the map they hold.
  \<^item> \<^theory_text>\<open>Db_Type\<close>: the interface \<^verbatim>\<open>DBType\<close> as a record of operations, the engines behind it
    (\<^verbatim>\<open>dbtype.h\<close>, \<^verbatim>\<open>logfile.h\<close>), and the locale \<open>kv_store\<close> for what a front end relies on, interpreted on
    BitCask.
  \<^item> \<^theory_text>\<open>Rdma\<close>: \<^verbatim>\<open>frontend/rdmautil\<close>: devices, contexts, registered buffers, certificates, work requests,
    completions. \<^theory_text>\<open>Setup\<close>: the options and how two ends come up.
  \<^item> \<^theory_text>\<open>Request\<close>: requests and replies as bytes, and the map the calls are measured against.
  \<^item> \<^theory_text>\<open>Front\<close>: connections, the server, their steps, and the contract \<open>front_end\<close> from which
    linearizability and progress follow; \<^theory_text>\<open>Mailbox\<close>: the protocol of the two front ends with one request
    buffer for each connection, as a locale that provides the contract; \<^theory_text>\<open>Sync_Front\<close> and \<^theory_text>\<open>Sync_Net\<close>:
    \<^verbatim>\<open>frontend/sync\<close>; \<^theory_text>\<open>Pmem_Front\<close>: \<^verbatim>\<open>frontend/pmem\<close>, which logs a request in persistent memory first.
  \<^item> \<^theory_text>\<open>Group_Front\<close>, \<^theory_text>\<open>Group_Commit\<close>: \<^verbatim>\<open>frontend/group\<close>, where a leading clerk stores the requests of all.
  \<^item> \<^theory_text>\<open>Hybrid_Front\<close>, \<^theory_text>\<open>Hybrid_Map\<close>, \<^theory_text>\<open>Hybrid_Props\<close>: \<^verbatim>\<open>frontend/hybrid\<close>, where requests wait in a ring and
    reach the store and the log in batches.
  \<^item> \<^theory_text>\<open>Path_Rdma\<close>, \<^theory_text>\<open>Remote_Path\<close>, \<^theory_text>\<open>Remote_Log\<close>: \<^verbatim>\<open>logdirect/remotepath\<close>, four ways of writing a record remotely with an RDMA
    layer of their own; the adapter is an argument here too and delivers a write packet by packet. \<open>direct_inv\<close> and
    \<open>hand_inv\<close> are the invariants of the paths without and with a server that stores.
  \<^item> \<^theory_text>\<open>Redis_Num\<close>, \<^theory_text>\<open>Aof\<close>, \<^theory_text>\<open>Aof_Load\<close>, \<^theory_text>\<open>Aof_Props\<close>: the append-only file of Redis (\<^verbatim>\<open>aof.c\<close>, and of \<^verbatim>\<open>util.c\<close>, \<^verbatim>\<open>sds.c\<close>,
    \<^verbatim>\<open>object.c\<close>, \<^verbatim>\<open>multi.c\<close> and \<^verbatim>\<open>bio.c\<close> what it uses): numbers as text and back, the buffer of appended commands, flushing
    with the three \<^verbatim>\<open>fsync\<close> policies, short writes and errors, the background thread, and loading a file, whole or
    cut off. \<open>aof_inv\<close> ties the buffer and the file to the commands that were appended.
  \<^item> \<^theory_text>\<open>Intset\<close>, \<^theory_text>\<open>Intset_Set\<close>: \<^verbatim>\<open>intset.c\<close>, sorted integers in a block of bytes whose width grows with the values; \<open>intset_rep\<close>
    is its representation, and the contract \<open>bounded_set\<close> is interpreted on it. \<^theory_text>\<open>Crc64\<close>: \<^verbatim>\<open>crc64.c\<close> and \<^verbatim>\<open>crcspeed.c\<close>.
  \<^item> \<^theory_text>\<open>Ldb_Coding\<close>, \<^theory_text>\<open>Ldb_Crc\<close>, \<^theory_text>\<open>Ldb_Env\<close>: of LevelDB (\<^verbatim>\<open>database/leveldb\<close>) the encodings of \<^verbatim>\<open>util/coding.cc\<close>, the checksum of
    \<^verbatim>\<open>util/crc32c.cc\<close> with its tables, \<^verbatim>\<open>Status\<close>, and the sequential and writable files and the limiter of \<^verbatim>\<open>util/env_posix.cc\<close>.
    \<^theory_text>\<open>Ldb_Log\<close>: writer and reader of the write-ahead log, \<^verbatim>\<open>db/log_writer.cc\<close> and \<^verbatim>\<open>db/log_reader.cc\<close>; \<^theory_text>\<open>Ldb_Log_Layout\<close> has the
    bytes that the writer leaves in a file, \<^theory_text>\<open>Ldb_Log_Read\<close> what the reader makes of any first part of them, \<^theory_text>\<open>Ldb_Log_Records\<close>
    puts the two together.
  \<^item> \<^theory_text>\<open>Ldb_Format\<close>: the comparators of byte strings and of internal keys, \<^verbatim>\<open>util/comparator.cc\<close> and \<^verbatim>\<open>db/dbformat.cc\<close>; the
    contract \<open>key_comparator\<close> is interpreted on both. \<^theory_text>\<open>Ldb_Skiplist\<close>: \<^verbatim>\<open>db/skiplist.h\<close>; \<^theory_text>\<open>Ldb_Skiplist_Ok\<close> has its invariant
    \<open>sl_ok\<close>, a sorted list of nodes for each level, and the contract \<open>skip_order\<close> of the order it is given; \<^theory_text>\<open>Ldb_Skiplist_Run\<close> has its operations
    on the list of keys it stands for, and the steps \<open>sl_step\<close> of a writer and readers that run beside it. \<^theory_text>\<open>Ldb_Mem\<close>: the memtable,
    \<^verbatim>\<open>db/memtable.cc\<close>, which provides the order; its \<open>newest\<close> is what a lookup is measured against.

  \<^bold>\<open>What is shown.\<close> The cuckoo table is a finite map, its insertion ends, and a displacement path can
  always be moved along. BitCask is a map kept in files: every operation changes that map as
  its name says, on every branch. The synchronous and the persistent-memory front end are linearizable for any
  number of clients and any interleaving of clients, clerks and adapters, and no call gets stuck. The
  group-commit front end has one leader, stores the requests of its batches in the order of the queue, acknowledges
  nothing it has not stored, and comes to rest. The hybrid front end answers one client like a map,
  and its log is what the client sent, in order, when its threads run in order. Requests,
  certificates, index records and file names are read back as they were written. When a remote write returns, the record is
  where its path puts it, for records of one packet on the paths through the server; longer ones can be
  stored torn. The append-only file of
  Redis loads to exactly the commands that are whole in it, wherever a crash has cut it off, and with \<^verbatim>\<open>fsync\<close> after
  each flush loses none. An integer set is a set, its widening in place is the same as copying, and its integrity check accepts
  exactly the well-formed blocks. The checksums by tables, that of Redis and that of LevelDB, are the checksums bit by bit. The
  write-ahead log of LevelDB gives back the first records, in order and without a report of corruption, from whatever part of
  it survives, and every acknowledged record from the whole of it. A memtable answers a lookup with the newest version of the key
  that the snapshot sees and is scanned in the order of its keys in both directions; readers of its skip list find what has been inserted
  however their accesses fall between those of the writer. The limiter never hands out more than it has. A number of
  theorems show where the code departs from what it is meant to do: what recovery
  makes of an index entry, replies that are too large, deletes that do not delete, reads that go back to an older
  value, a connection that fails unnoticed, a write past the end of a buffer, a torn transaction that swallows what is appended after it.

  \<^bold>\<open>How the program is modelled.\<close> State is passed explicitly; an operation that can fail returns a sum
  whose left side names the exception, the end of the process or the undefined access; a loop that need not end is a
  \<^theory_text>\<open>partial_function (option)\<close>, and each claim about it includes that it returns. Integers have the
  width they have in the code. The sources are taken in their release configuration, in which assertions are compiled
  out. Threads are sequences of steps, a step being what runs between two points at which another thread can
  interfere; an operation of the store or of the table is one step. The operating system and
  libibverbs are arguments: \<open>pwrite_ok\<close> and \<open>write_ok\<close> say that a write is done in full,
  \<open>verbs_ok\<close> that posted work is executed in order and reaches the memory it names when keys and bounds allow it;
  \<open>rc_verbs\<close>, \<open>append_pwrite\<close> and \<open>write_full\<close> are instances that satisfy them.

  \<^bold>\<open>Bounds.\<close> \<open>bitcask_ok n\<close> leaves room for \<open>n\<close> more data files below the width of their
  number; a call takes at most one, a batch of the hybrid front end at most one and a call of it two.
  39 steps finish a call of the mailbox protocol, and five steps of each clerk the work of the group-commit server;
  both are measures that every step decreases. Requests are at most \<open>MAX_REQUEST\<close> bytes long,
  as the buffers are; the front ends that reply out of the send buffer are considered for values that fit an
  inline reply, since larger replies are refused. An integer set is considered below \<open>2 ^ 29\<close> entries, where the
  32-bit sizes of the code do not wrap around; the list of results that \<^verbatim>\<open>write\<close> gives bounds how often \<^verbatim>\<open>aofWrite\<close> calls
  it, and the loader ends because each command takes bytes off the file. In the same way the answers of \<^verbatim>\<open>read\<close> and \<^verbatim>\<open>write\<close> to LevelDB are
  lists. Keys and values in a memtable are shorter than \<open>2 ^ 32\<close> bytes and sequence numbers below \<open>2 ^ 56\<close>, as
  their encodings are; the searches in the skip list end because the lists of nodes do.

  \<^bold>\<open>Not modelled.\<close> The locked view of the cuckoo table and the interleaving of threads inside one
  operation of it; the sockets over which certificates are exchanged; the mapping of device memory by an
  ioctl; the LevelDB adapter, and of LevelDB write batches, tables, versions, compaction, the cache and the database
  object that ties them together; the benchmark with its command line and generator; the programs that
  measure the remote paths and memory access under \<^verbatim>\<open>src/logdirect\<close> and its kernel patches; and of Redis
  the manifest and the rewriting of append-only files, RDB files, and everything outside the files
  named above, which the repository only carries along.
\<close>

end
